(* ===== verification/Py_Base.thy ===== *)
theory Py_Base
  imports Main "HOL-Library.AList"
begin

text \<open>
  The prelude of the development: the fragment of Python that the modelled code uses.

  \<^item> Exceptions are values of \<open>py_exc\<close>; a fallible operation returns \<open>'a res\<close>, that is
    \<open>py_exc + 'a\<close> with \<open>Inl\<close> for the exception.
  \<^item> A \<open>str\<close> is an Isabelle \<open>string\<close>: a list of characters with code points below 256
    (Latin-1, the encoding in which header bytes and request lines are decoded). Where Python
    treats the non-ASCII half of that range specially (\<open>str.isdigit\<close> is true of the
    superscript digits, \<open>str.strip\<close> removes no-break spaces) the functions here do so too.
  \<^item> A \<open>dict\<close> is an association list with distinct keys in insertion order.
    \<open>AList.update\<close> replaces in place or appends, \<open>AList.delete\<close> removes, \<open>map_of\<close> reads.
\<close>

named_theorems py_str_simps "string operations"
named_theorems py_dict_simps "ordered dictionary operations"

section \<open>Exceptions\<close>

datatype py_exc =
    ValueError
  | KeyError
  | TypeError
  | IndexError
  | DuplicateRouteError
  | InvalidParamsError
  | ResourceNotFoundError
  | ReError
  | BadSignature
  | BadTimeSignature
  | BadData

type_synonym 'a res = "py_exc + 'a"

fun res_bind :: "'a res \<Rightarrow> ('a \<Rightarrow> 'b res) \<Rightarrow> 'b res" where
  "res_bind (Inl e) f = Inl e"
| "res_bind (Inr x) f = f x"

lemma res_bind_Inr_iff: "res_bind m f = Inr y \<longleftrightarrow> (\<exists>x. m = Inr x \<and> f x = Inr y)"
  by (cases m) auto

lemma res_bind_Inl_iff: "res_bind m f = Inl e \<longleftrightarrow> m = Inl e \<or> (\<exists>x. m = Inr x \<and> f x = Inl e)"
  by (cases m) auto

section \<open>Characters\<close>

abbreviation code :: "char \<Rightarrow> nat" where
  "code c \<equiv> of_char c"

text \<open>The ten ASCII digits: what \<open>\d\<close> matches and what \<open>int()\<close> reads, within Latin-1.\<close>

definition is_decimal :: "char \<Rightarrow> bool" where
  "is_decimal c \<longleftrightarrow> 48 \<le> code c \<and> code c \<le> 57"

text \<open>
  \<open>str.isdigit\<close> of one character: the decimal digits and the three superscript digits
  of Latin-1 (U+00B2, U+00B3 and U+00B9), which \<open>int()\<close> refuses.
\<close>

definition is_digit :: "char \<Rightarrow> bool" where
  "is_digit c \<longleftrightarrow> is_decimal c \<or> code c \<in> {178, 179, 185}"

definition is_ascii :: "char \<Rightarrow> bool" where
  "is_ascii c \<longleftrightarrow> code c < 128"

text \<open>The characters \<open>str.strip\<close> removes.\<close>

definition is_space :: "char \<Rightarrow> bool" where
  "is_space c \<longleftrightarrow> (9 \<le> code c \<and> code c \<le> 13) \<or> (28 \<le> code c \<and> code c \<le> 32)
     \<or> code c = 133 \<or> code c = 160"

definition is_upper_char :: "char \<Rightarrow> bool" where
  "is_upper_char c \<longleftrightarrow> (65 \<le> code c \<and> code c \<le> 90)
     \<or> (192 \<le> code c \<and> code c \<le> 222 \<and> code c \<noteq> 215)"

definition lower_char :: "char \<Rightarrow> char" where
  "lower_char c = (if is_upper_char c then char_of (code c + 32) else c)"

text \<open>
  \<open>str.upper\<close> on ASCII. The code applies it to HTTP method names only, which are
  tokens (RFC 9110 Sec. 9.1), so no character outside ASCII reaches it.
\<close>

definition upper_char :: "char \<Rightarrow> char" where
  "upper_char c = (if 97 \<le> code c \<and> code c \<le> 122 then char_of (code c - 32) else c)"

lemma code_lower_char: "code (lower_char c) = (if is_upper_char c then code c + 32 else code c)"
proof (cases "is_upper_char c")
  case True
  then have "code c + 32 < 256"
    by (auto simp: is_upper_char_def)
  with True show ?thesis
    by (simp add: lower_char_def)
next
  case False
  then show ?thesis by (simp add: lower_char_def)
qed

lemma lower_char_idem [simp]: "lower_char (lower_char c) = lower_char c"
proof (cases "is_upper_char c")
  case True
  have "\<not> is_upper_char (lower_char c)"
    using True by (auto simp: is_upper_char_def code_lower_char)
  then show ?thesis by (simp add: lower_char_def)
next
  case False
  then show ?thesis by (simp add: lower_char_def)
qed

section \<open>Strings\<close>

definition str_lower :: "string \<Rightarrow> string" where
  "str_lower s = map lower_char s"

definition str_upper :: "string \<Rightarrow> string" where
  "str_upper s = map upper_char s"

lemma str_lower_idem [simp]: "str_lower (str_lower s) = str_lower s"
  by (simp add: str_lower_def)

definition str_lstrip :: "string \<Rightarrow> string" where
  "str_lstrip s = dropWhile is_space s"

definition str_rstrip :: "string \<Rightarrow> string" where
  "str_rstrip s = rev (dropWhile is_space (rev s))"

definition str_strip :: "string \<Rightarrow> string" where
  "str_strip s = str_rstrip (str_lstrip s)"

text \<open>\<open>s.strip(c)\<close>, \<open>s.rstrip(c)\<close> for one character \<open>c\<close>.\<close>

definition strip_char :: "char \<Rightarrow> string \<Rightarrow> string" where
  "strip_char c s = rev (dropWhile ((=) c) (rev (dropWhile ((=) c) s)))"

definition rstrip_char :: "char \<Rightarrow> string \<Rightarrow> string" where
  "rstrip_char c s = rev (dropWhile ((=) c) (rev s))"

definition starts_with :: "string \<Rightarrow> string \<Rightarrow> bool" where
  "starts_with p s \<longleftrightarrow> take (length p) s = p"

definition ends_with :: "string \<Rightarrow> string \<Rightarrow> bool" where
  "ends_with p s \<longleftrightarrow> length p \<le> length s \<and> drop (length s - length p) s = p"

text \<open>\<open>s.split(d)\<close> for a one-character separator: never empty.\<close>

fun split_on :: "char \<Rightarrow> string \<Rightarrow> string list" where
  "split_on d [] = [[]]"
| "split_on d (c # cs) =
     (if c = d then [] # split_on d cs
      else case split_on d cs of [] \<Rightarrow> [[c]] | w # ws \<Rightarrow> (c # w) # ws)"

text \<open>\<open>d.join(parts)\<close> for a one-character separator.\<close>

fun join_on :: "char \<Rightarrow> string list \<Rightarrow> string" where
  "join_on d [] = []"
| "join_on d [w] = w"
| "join_on d (w # v # ws) = w @ d # join_on d (v # ws)"

text \<open>\<open>sep.join(parts)\<close> for a longer separator.\<close>

fun join_str :: "string \<Rightarrow> string list \<Rightarrow> string" where
  "join_str d [] = []"
| "join_str d [w] = w"
| "join_str d (w # v # ws) = w @ d @ join_str d (v # ws)"

text \<open>\<open>s.partition(d)\<close>: the part before, whether the separator was found, the part after.\<close>

definition partition_on :: "char \<Rightarrow> string \<Rightarrow> string \<times> bool \<times> string" where
  "partition_on d s =
     (takeWhile ((\<noteq>) d) s, d \<in> set s, drop 1 (dropWhile ((\<noteq>) d) s))"

text \<open>\<open>s.rpartition(d)\<close>: where the separator is absent the whole string is the last part.\<close>

definition rpartition_on :: "char \<Rightarrow> string \<Rightarrow> string \<times> bool \<times> string" where
  "rpartition_on d s =
     (if d \<in> set s
      then (rev (drop 1 (dropWhile ((\<noteq>) d) (rev s))), True, rev (takeWhile ((\<noteq>) d) (rev s)))
      else ([], False, s))"

lemma split_on_nonempty [simp]: "split_on d s \<noteq> []"
  by (induction s) (auto split: list.splits)

lemma split_on_no_sep: "w \<in> set (split_on d s) \<Longrightarrow> d \<notin> set w"
  by (induction s arbitrary: w) (auto split: list.splits if_splits)

lemma split_on_single [py_str_simps]: "d \<notin> set s \<Longrightarrow> split_on d s = [s]"
  by (induction s) auto

lemma split_on_append_sep [py_str_simps]:
  "d \<notin> set w \<Longrightarrow> split_on d (w @ d # s) = w # split_on d s"
  by (induction w) auto

lemma split_on_append:
  "split_on d (s @ d # t) = split_on d s @ split_on d t"
  by (induction s) (auto split: list.splits)

lemma join_on_split_on: "join_on d (split_on d s) = s"
proof (induction s)
  case Nil
  show ?case by simp
next
  case (Cons c cs)
  obtain w ws where w: "split_on d cs = w # ws"
    by (meson split_on_nonempty neq_Nil_conv)
  show ?case
    using Cons w by (cases ws) auto
qed

lemma split_on_join_on:
  "ws \<noteq> [] \<Longrightarrow> \<forall>w \<in> set ws. d \<notin> set w \<Longrightarrow> split_on d (join_on d ws) = ws"
  by (induction d ws rule: join_on.induct) (auto simp: py_str_simps)

lemma length_split_on: "length (split_on d s) = Suc (length (filter ((=) d) s))"
  by (induction s) (auto split: list.splits)

lemma partition_on_Nil [py_str_simps]: "partition_on d [] = ([], False, [])"
  by (simp add: partition_on_def)

lemma partition_on_Cons [py_str_simps]:
  "partition_on d (c # cs) =
     (if c = d then ([], True, cs)
      else case partition_on d cs of (a, b, r) \<Rightarrow> (c # a, b, r))"
  by (auto simp: partition_on_def)

lemma partition_on_parts:
  "partition_on d s = (a, b, r) \<Longrightarrow>
     d \<notin> set a \<and> s = (if b then a @ d # r else a) \<and> (\<not> b \<longrightarrow> r = [])"
  by (induction s arbitrary: a b r) (auto simp: py_str_simps split: if_splits prod.splits)

lemma partition_on_sep: "d \<notin> set a \<Longrightarrow> partition_on d (a @ d # r) = (a, True, r)"
  by (induction a) (auto simp: py_str_simps)

lemma partition_on_no_sep: "d \<notin> set a \<Longrightarrow> partition_on d a = (a, False, [])"
  by (induction a) (auto simp: py_str_simps)

section \<open>Reading integers\<close>

text \<open>\<open>str.isdigit()\<close>: non-empty, every character a digit.\<close>

definition str_isdigit :: "string \<Rightarrow> bool" where
  "str_isdigit s \<longleftrightarrow> s \<noteq> [] \<and> list_all is_digit s"

lemma is_digit_ascii: "is_digit c \<Longrightarrow> is_ascii c \<Longrightarrow> is_decimal c"
  by (auto simp: is_digit_def is_ascii_def)

definition digit_val :: "char \<Rightarrow> nat" where
  "digit_val c = code c - 48"

fun digits_val :: "nat \<Rightarrow> string \<Rightarrow> nat" where
  "digits_val acc [] = acc"
| "digits_val acc (c # cs) = digits_val (10 * acc + digit_val c) cs"

text \<open>
  A run of decimal digits in which single underscores may stand between digits, as
  \<open>int()\<close> and \<open>float()\<close> accept them. \<open>after\<close> says whether the last character was a digit.
\<close>

fun digit_run :: "bool \<Rightarrow> string \<Rightarrow> bool" where
  "digit_run after [] = after"
| "digit_run after (c # cs) =
     (if is_decimal c then digit_run True cs
      else if c = CHR ''_'' \<and> after then digit_run False cs
      else False)"

text \<open>
  \<open>int(s)\<close>: surrounding white space, an optional sign, digits with single underscores
  between them. Every other string raises \<open>ValueError\<close>.
\<close>

definition py_int :: "string \<Rightarrow> int res" where
  "py_int s =
     (let t = str_strip s;
          neg = (case t of c # _ \<Rightarrow> c = CHR ''-'' | [] \<Rightarrow> False);
          sgn = (case t of c # _ \<Rightarrow> c = CHR ''-'' \<or> c = CHR ''+'' | [] \<Rightarrow> False);
          ds = (if sgn then drop 1 t else t)
      in if digit_run False ds
         then Inr ((if neg then -1 else 1) * int (digits_val 0 (filter is_decimal ds)))
         else Inl ValueError)"

lemma is_decimal_not_space: "is_decimal c \<Longrightarrow> \<not> is_space c"
  by (auto simp: is_decimal_def is_space_def)

lemma digit_run_decimal: "list_all is_decimal s \<Longrightarrow> digit_run b s \<longleftrightarrow> b \<or> s \<noteq> []"
proof (induction s arbitrary: b)
  case (Cons c s)
  then show ?case by (cases s) auto
qed simp

lemma digit_run_no_decimal: "digit_run b s \<Longrightarrow> c \<in> set s \<Longrightarrow> is_decimal c \<or> c = CHR ''_''"
  by (induction b s rule: digit_run.induct) (auto split: if_splits)

lemma str_strip_no_space_ends:
  assumes "s \<noteq> []" "\<not> is_space (hd s)" "\<not> is_space (last s)"
  shows "str_strip s = s"
proof -
  have "dropWhile is_space s = s"
    using assms(1,2) by (cases s) auto
  moreover have "dropWhile is_space (rev s) = rev s"
    using assms(1,3) by (cases s rule: rev_cases) auto
  ultimately show ?thesis
    by (simp add: str_strip_def str_lstrip_def str_rstrip_def)
qed

lemma py_int_decimal:
  assumes "s \<noteq> []" "list_all is_decimal s"
  shows "py_int s = Inr (int (digits_val 0 s))"
proof -
  have strip: "str_strip s = s"
    using assms by (intro str_strip_no_space_ends)
      (auto simp: list_all_iff is_decimal_not_space)
  obtain c cs where s: "s = c # cs" using assms(1) by (cases s) auto
  have "is_decimal c" using assms(2) s by simp
  then have "c \<noteq> CHR ''-''" "c \<noteq> CHR ''+''"
    by (auto simp: is_decimal_def)
  moreover have "filter is_decimal s = s"
    using assms(2) by (simp add: list_all_iff)
  moreover have "digit_run False s"
    using assms by (simp add: digit_run_decimal)
  ultimately show ?thesis
    using strip s by (simp add: py_int_def Let_def)
qed

text \<open>A digit that is not decimal makes \<open>int()\<close> raise: the source of several crashes below.\<close>

lemma py_int_superscript:
  assumes "list_all is_digit s" "\<not> list_all is_decimal s"
  shows "py_int s = Inl ValueError"
proof -
  obtain c where c: "c \<in> set s" "\<not> is_decimal c" "is_digit c"
    using assms by (auto simp: list_all_iff)
  have nospace: "\<not> is_space x" if "x \<in> set s" for x
    using that assms(1) by (auto simp: list_all_iff is_digit_def is_decimal_def is_space_def)
  have ne: "s \<noteq> []" using c by auto
  have strip: "str_strip s = s"
    using ne nospace by (intro str_strip_no_space_ends) auto
  have nosign: "x \<noteq> CHR ''-'' \<and> x \<noteq> CHR ''+'' \<and> x \<noteq> CHR ''_''" if "x \<in> set s" for x
    using that assms(1) by (auto simp: list_all_iff is_digit_def is_decimal_def)
  have "\<not> digit_run False s"
    using digit_run_no_decimal c nosign by blast
  moreover have "(case s of x # _ \<Rightarrow> x = CHR ''-'' \<or> x = CHR ''+'' | [] \<Rightarrow> False) = False"
    using ne nosign by (cases s) auto
  ultimately show ?thesis
    using strip by (simp add: py_int_def Let_def)
qed

lemma py_int_error: "py_int s = Inl e \<Longrightarrow> e = ValueError"
  by (auto simp: py_int_def Let_def split: if_splits)

section \<open>Printing integers\<close>

fun str_nat :: "nat \<Rightarrow> string" where
  "str_nat n = (if n < 10 then [char_of (48 + n)] else str_nat (n div 10) @ [char_of (48 + n mod 10)])"

declare str_nat.simps [simp del]

definition str_int :: "int \<Rightarrow> string" where
  "str_int i = (if i < 0 then CHR ''-'' # str_nat (nat (- i)) else str_nat (nat i))"

lemma code_digit_char: "(d::nat) < 10 \<Longrightarrow> code (char_of (48 + d)) = 48 + d"
  by simp

lemma is_decimal_digit_char: "(d::nat) < 10 \<Longrightarrow> is_decimal (char_of (48 + d))"
  by (simp add: is_decimal_def code_digit_char)

lemma digit_val_digit_char: "(d::nat) < 10 \<Longrightarrow> digit_val (char_of (48 + d)) = d"
  by (simp add: digit_val_def code_digit_char)

lemma str_nat_nonempty [simp]: "str_nat n \<noteq> []"
  by (subst str_nat.simps) auto

lemma str_nat_decimal: "list_all is_decimal (str_nat n)"
proof (induction n rule: str_nat.induct)
  case (1 n)
  then show ?case
    by (subst str_nat.simps) (auto intro: is_decimal_digit_char)
qed

lemma digits_val_append: "digits_val acc (s @ t) = digits_val (digits_val acc s) t"
  by (induction acc s rule: digits_val.induct) auto

lemma digits_val_str_nat: "digits_val 0 (str_nat n) = n"
proof (induction n rule: str_nat.induct)
  case (1 n)
  show ?case
  proof (cases "n < 10")
    case True
    then show ?thesis by (subst str_nat.simps) (simp add: digit_val_digit_char)
  next
    case False
    with 1 show ?thesis
      by (subst str_nat.simps) (simp add: digits_val_append digit_val_digit_char)
  qed
qed

lemma py_int_str_nat [simp]: "py_int (str_nat n) = Inr (int n)"
  by (simp add: py_int_decimal str_nat_decimal digits_val_str_nat)

lemma str_nat_inj: "str_nat m = str_nat n \<Longrightarrow> m = n"
  by (metis digits_val_str_nat)

text \<open>Hexadecimal digits of both cases.\<close>

definition is_hex :: "char \<Rightarrow> bool" where
  "is_hex c \<longleftrightarrow> is_decimal c \<or> (65 \<le> code c \<and> code c \<le> 70) \<or> (97 \<le> code c \<and> code c \<le> 102)"

definition hex_val :: "char \<Rightarrow> nat" where
  "hex_val c = (if is_decimal c then code c - 48
     else if code c \<le> 70 then code c - 55 else code c - 87)"

section \<open>Ordered dictionaries\<close>

type_synonym ('k, 'v) dict = "('k \<times> 'v) list"

abbreviation dict_set :: "'k \<Rightarrow> 'v \<Rightarrow> ('k, 'v) dict \<Rightarrow> ('k, 'v) dict" where
  "dict_set \<equiv> AList.update"

abbreviation dict_del :: "'k \<Rightarrow> ('k, 'v) dict \<Rightarrow> ('k, 'v) dict" where
  "dict_del \<equiv> AList.delete"

definition dict_ok :: "('k, 'v) dict \<Rightarrow> bool" where
  "dict_ok d \<longleftrightarrow> distinct (map fst d)"

lemma dict_ok_Nil [simp, py_dict_simps]: "dict_ok []"
  by (simp add: dict_ok_def)

lemma dict_ok_set [intro, py_dict_simps]: "dict_ok d \<Longrightarrow> dict_ok (dict_set k v d)"
  by (simp add: dict_ok_def distinct_update)

lemma dict_ok_del [intro, py_dict_simps]: "dict_ok d \<Longrightarrow> dict_ok (dict_del k d)"
  by (simp add: dict_ok_def distinct_delete)

lemma dict_ok_filter [intro]: "dict_ok d \<Longrightarrow> dict_ok (filter P d)"
  by (auto simp: dict_ok_def distinct_map intro: inj_on_subset)

lemma map_of_set [py_dict_simps]: "map_of (dict_set k v d) k' = (if k' = k then Some v else map_of d k')"
  by (simp add: update_conv')

lemma map_of_del [py_dict_simps]: "map_of (dict_del k d) k' = (if k' = k then None else map_of d k')"
  by (simp add: delete_conv')

lemma length_dict_set:
  "length (dict_set k v d) = (if map_of d k = None then Suc (length d) else length d)"
  by (induction d) auto

lemma length_dict_del_le: "length (dict_del k d) \<le> length d"
  by (rule length_delete_le)

lemma length_dict_del:
  "dict_ok d \<Longrightarrow> map_of d k \<noteq> None \<Longrightarrow> Suc (length (dict_del k d)) = length d"
proof (induction d)
  case (Cons p d)
  show ?case
    using Cons by (cases p) (auto simp: dict_ok_def split: if_splits)
qed simp

lemma map_of_filter_val:
  "dict_ok d \<Longrightarrow> map_of (filter P d) k =
     (case map_of d k of None \<Rightarrow> None | Some v \<Rightarrow> if P (k, v) then Some v else None)"
proof (induction d)
  case (Cons p d)
  have none: "map_of (filter P d) (fst p) = None"
    using Cons.prems by (auto simp: dict_ok_def map_of_eq_None_iff)
  show ?case
    using Cons none by (cases p) (auto simp: dict_ok_def split: option.splits)
qed simp

lemma dict_in_set_iff: "dict_ok d \<Longrightarrow> (k, v) \<in> set d \<longleftrightarrow> map_of d k = Some v"
  by (simp add: dict_ok_def)

lemma set_dict_set: "set (dict_set k v d) \<subseteq> insert (k, v) (set d)"
  by (induction d) auto

section \<open>Header injection\<close>

text \<open>\<open>_reject_header_crlf\<close> of \<open>src/src/veloce/_internal.py\<close>, which every writer of a header calls.\<close>

definition header_value_has_crlf :: "string \<Rightarrow> bool" where
  "header_value_has_crlf v \<longleftrightarrow> list_ex (\<lambda>c. c = CHR 0x0D \<or> c = CHR 0x0A \<or> c = CHR 0x00) v"

definition reject_header_crlf :: "string \<Rightarrow> string res" where
  "reject_header_crlf v = (if header_value_has_crlf v then Inl ValueError else Inr v)"

end
