(* ===== verification/Converters.thy ===== *)
theory Converters
  imports Py_Base
begin

text \<open>
  Path converters, after \<open>src/src/veloce/routing/converters.py\<close>: the segment converters and
  their registry, the scanner for the \<open>{name:spec}\<close> placeholders of a route template, and the
  decision whether a template can be held by the radix tree.

  The string, int, uuid, path, date, decimal and any converters are modelled exactly. A
  converter whose result needs floating point or the calendar arithmetic of \<open>datetime\<close> (float,
  datetime, time, timedelta), an int or str converter built with arguments that are not
  integers, and a converter the application registers are opaque: their \<open>match\<close> is the
  argument \<open>ext\<close> of \<open>conv_match\<close>.
\<close>

section \<open>Values and converters\<close>

datatype pyval =
    PStr string
  | PInt int
  | PUUID nat
  | PDate nat nat nat
  | PDecimal bool nat nat \<comment> \<open>negative, coefficient, number of fraction digits\<close>
  | PObj string string \<comment> \<open>the object an opaque converter builds from a segment\<close>

datatype pyarg = AInt int | AFloat string | ABool bool | AStr string

datatype converter =
    StringConverter int "int option"
  | IntConverter "int option" "int option" bool
  | UUIDConverter
  | PathConverter
  | DateConverter
  | DecimalConverter
  | AnyConverter "string list"
  | OpaqueConverter string "(string \<times> pyarg) list"
  | CustomConverter string bool int \<comment> \<open>registered name, greedy, specificity\<close>

fun greedy :: "converter \<Rightarrow> bool" where
  "greedy PathConverter = True"
| "greedy (CustomConverter n g s) = g"
| "greedy _ = False"

fun specificity :: "converter \<Rightarrow> int" where
  "specificity UUIDConverter = 10"
| "specificity (IntConverter a b s) = 20"
| "specificity (AnyConverter cs) = 25"
| "specificity DateConverter = 31"
| "specificity DecimalConverter = 41"
| "specificity (StringConverter a b) = 50"
| "specificity PathConverter = 90"
| "specificity (OpaqueConverter n as) =
     (if n = ''datetime'' then 30 else if n = ''time'' then 32 else if n = ''timedelta'' then 33
      else if n = ''float'' then 40 else if n = ''int'' then 20 else 50)"
| "specificity (CustomConverter n g s) = s"

text \<open>\<open>type(converter)\<close>, the class, as the radix tree's index uses it.\<close>

fun conv_type :: "converter \<Rightarrow> string" where
  "conv_type (StringConverter a b) = ''StringConverter''"
| "conv_type (IntConverter a b s) = ''IntConverter''"
| "conv_type UUIDConverter = ''UUIDConverter''"
| "conv_type PathConverter = ''PathConverter''"
| "conv_type DateConverter = ''DateConverter''"
| "conv_type DecimalConverter = ''DecimalConverter''"
| "conv_type (AnyConverter cs) = ''AnyConverter''"
| "conv_type (OpaqueConverter n as) =
     (if n = ''int'' then ''IntConverter''
      else if n = ''str'' \<or> n = ''string'' then ''StringConverter'' else ''opaque:'' @ n)"
| "conv_type (CustomConverter n g s) = ''custom:'' @ n"

section \<open>Matching a segment\<close>

definition max_int_digits :: nat where
  "max_int_digits = 20"

text \<open>\<open>StringConverter.match\<close>: the length bounds.\<close>

definition string_match :: "int \<Rightarrow> int option \<Rightarrow> string \<Rightarrow> pyval option" where
  "string_match lo hi v =
     (let n = int (length v) in
      if n < lo then None
      else if (case hi of None \<Rightarrow> False | Some h \<Rightarrow> n > h) then None
      else Some (PStr v))"

text \<open>
  \<open>IntConverter.match\<close>. \<open>isdigit\<close> guards the call of \<open>int\<close>, but is true of superscript
  digits, which \<open>int\<close> refuses with a \<open>ValueError\<close> that nothing catches.
\<close>

definition int_check :: "string \<Rightarrow> string" where
  "int_check v = (if starts_with ''-'' v then drop 1 v else v)"

definition int_match :: "int option \<Rightarrow> int option \<Rightarrow> bool \<Rightarrow> string \<Rightarrow> pyval option res" where
  "int_match mn mx signed v =
     (if v = [] \<or> length v > max_int_digits then Inr None
      else if starts_with ''-'' v \<and> \<not> signed then Inr None
      else if \<not> str_isdigit (int_check v) then Inr None
      else res_bind (py_int v) (\<lambda>i.
        if (case mn of None \<Rightarrow> False | Some m \<Rightarrow> i < m) then Inr None
        else if (case mx of None \<Rightarrow> False | Some m \<Rightarrow> i > m) then Inr None
        else Inr (Some (PInt i))))"

fun hexs_val :: "nat \<Rightarrow> string \<Rightarrow> nat" where
  "hexs_val acc [] = acc"
| "hexs_val acc (c # cs) = hexs_val (16 * acc + hex_val c) cs"

text \<open>\<open>UUIDConverter.match\<close>: 8-4-4-4-12 hexadecimal digits.\<close>

definition uuid_match :: "string \<Rightarrow> pyval option" where
  "uuid_match v =
     (let gs = split_on (CHR ''-'') v in
      if length v = 36 \<and> map length gs = [8, 4, 4, 4, 12] \<and> list_all (list_all is_hex) gs
      then Some (PUUID (hexs_val 0 (concat gs))) else None)"

definition path_match :: "string \<Rightarrow> pyval option" where
  "path_match v = (if v = [] then None else Some (PStr v))"

definition leap_year :: "nat \<Rightarrow> bool" where
  "leap_year y \<longleftrightarrow> 4 dvd y \<and> (\<not> 100 dvd y \<or> 400 dvd y)"

definition days_in_month :: "nat \<Rightarrow> nat \<Rightarrow> nat" where
  "days_in_month y m =
     (if m = 2 then (if leap_year y then 29 else 28)
      else if m \<in> {4, 6, 9, 11} then 30 else 31)"

text \<open>\<open>DateConverter.match\<close>: the \<open>YYYY-MM-DD\<close> shape, then \<open>date.fromisoformat\<close>.\<close>

definition date_match :: "string \<Rightarrow> pyval option" where
  "date_match v =
     (case split_on (CHR ''-'') v of
        [ys, ms, ds] \<Rightarrow>
          (if length ys = 4 \<and> length ms = 2 \<and> length ds = 2
              \<and> list_all is_decimal ys \<and> list_all is_decimal ms \<and> list_all is_decimal ds
           then let y = digits_val 0 ys; m = digits_val 0 ms; d = digits_val 0 ds in
                if 1 \<le> y \<and> 1 \<le> m \<and> m \<le> 12 \<and> 1 \<le> d \<and> d \<le> days_in_month y m
                then Some (PDate y m d) else None
           else None)
      | _ \<Rightarrow> None)"

definition max_decimal_chars :: nat where
  "max_decimal_chars = 40"

text \<open>
  \<open>DecimalConverter.match\<close>: the pattern \<open>[+-]?\d+(?:\.\d+)?$\<close>, whose \<open>$\<close> also matches before
  one final newline, which \<open>Decimal\<close> strips.
\<close>

definition decimal_match :: "string \<Rightarrow> pyval option" where
  "decimal_match v =
     (if v = [] \<or> length v > max_decimal_chars then None
      else let t = (if ends_with ''\<newline>'' v then butlast v else v);
               neg = starts_with ''-'' t;
               u = (if neg \<or> starts_with ''+'' t then drop 1 t else t);
               (whole, dot, frac) = partition_on (CHR ''.'') u
           in if whole \<noteq> [] \<and> list_all is_decimal whole
                 \<and> (dot \<longrightarrow> frac \<noteq> [] \<and> list_all is_decimal frac)
              then Some (PDecimal neg (digits_val 0 (whole @ frac)) (length frac)) else None)"

definition any_match :: "string list \<Rightarrow> string \<Rightarrow> pyval option" where
  "any_match choices v = (if v \<in> set choices then Some (PStr v) else None)"

type_synonym ext_match = "converter \<Rightarrow> string \<Rightarrow> pyval option res"

text \<open>
  \<open>converter.match(value)\<close>: \<open>Inr (Some x)\<close> for \<open>(True, x)\<close>, \<open>Inr None\<close> for \<open>(False, _)\<close>,
  \<open>Inl e\<close> where \<open>match\<close> raises.
\<close>

fun conv_match :: "ext_match \<Rightarrow> converter \<Rightarrow> string \<Rightarrow> pyval option res" where
  "conv_match ext (StringConverter lo hi) v = Inr (string_match lo hi v)"
| "conv_match ext (IntConverter mn mx s) v = int_match mn mx s v"
| "conv_match ext UUIDConverter v = Inr (uuid_match v)"
| "conv_match ext PathConverter v = Inr (path_match v)"
| "conv_match ext DateConverter v = Inr (date_match v)"
| "conv_match ext DecimalConverter v = Inr (decimal_match v)"
| "conv_match ext (AnyConverter cs) v = Inr (any_match cs v)"
| "conv_match ext c v = ext c v"

section \<open>Building a converter from its spec\<close>

text \<open>\<open>StringConverter.__init__\<close> on integer arguments.\<close>

definition string_init :: "int option \<Rightarrow> int option \<Rightarrow> int option \<Rightarrow> converter res" where
  "string_init len mn mx =
     (case len of
        Some l \<Rightarrow>
          (if mn \<noteq> None \<or> mx \<noteq> None then Inl ValueError
           else if l < 1 then Inl ValueError
           else Inr (StringConverter l (Some l)))
      | None \<Rightarrow>
          (let lo = (case mn of None \<Rightarrow> 1 | Some m \<Rightarrow> m) in
           if lo < 1 then Inl ValueError
           else if (case mx of None \<Rightarrow> False | Some m \<Rightarrow> m < lo) then Inl ValueError
           else Inr (StringConverter lo mx)))"

definition default_string :: converter where
  "default_string = StringConverter 1 None"

text \<open>\<open>IntConverter.__init__\<close> on integer bounds.\<close>

definition int_init :: "int option \<Rightarrow> int option \<Rightarrow> bool \<Rightarrow> converter res" where
  "int_init mn mx signed =
     (case (mn, mx) of
        (Some a, Some b) \<Rightarrow> if b < a then Inl ValueError else Inr (IntConverter mn mx signed)
      | _ \<Rightarrow> Inr (IntConverter mn mx signed))"

definition builtin_names :: "string list" where
  "builtin_names = [''str'', ''string'', ''int'', ''float'', ''uuid'', ''path'', ''date'',
     ''datetime'', ''time'', ''timedelta'', ''decimal'']"

definition parametrized_names :: "string list" where
  "parametrized_names = [''str'', ''string'', ''int'', ''float'']"

text \<open>
  What the model takes from outside: which tokens \<open>float()\<close> reads (\<open>float_lit\<close>), whether the
  constructor of an opaque converter accepts its arguments (\<open>ext_init\<close>), and the registry
  \<open>_CUSTOM\<close> with the two class attributes the router reads.
\<close>

record conv_env =
  float_lit :: "string \<Rightarrow> bool"
  ext_init :: "string \<Rightarrow> (string \<times> pyarg) list \<Rightarrow> unit res"
  custom_reg :: "(string, bool \<times> int) dict"

text \<open>\<open>_coerce_arg\<close>: int, then float, then true/false, then the unquoted string.\<close>

definition coerce_arg :: "conv_env \<Rightarrow> string \<Rightarrow> pyarg" where
  "coerce_arg env raw =
     (case py_int raw of
        Inr i \<Rightarrow> AInt i
      | Inl _ \<Rightarrow>
          (if float_lit env raw then AFloat raw
           else if str_lower raw = ''true'' then ABool True
           else if str_lower raw = ''false'' then ABool False
           else if 2 \<le> length raw \<and> (hd raw = CHR 0x22 \<or> hd raw = CHR 0x27) \<and> last raw = hd raw
                then AStr (butlast (tl raw))
           else AStr raw))"

text \<open>\<open>str.isidentifier\<close> within Latin-1.\<close>

definition is_ident_start :: "char \<Rightarrow> bool" where
  "is_ident_start c \<longleftrightarrow> (65 \<le> code c \<and> code c \<le> 90) \<or> (97 \<le> code c \<and> code c \<le> 122)
     \<or> c = CHR ''_'' \<or> code c \<in> {170, 181, 186} \<or> (192 \<le> code c \<and> code c \<notin> {215, 247})"

definition is_ident_char :: "char \<Rightarrow> bool" where
  "is_ident_char c \<longleftrightarrow> is_ident_start c \<or> is_decimal c \<or> code c = 183"

definition str_isidentifier :: "string \<Rightarrow> bool" where
  "str_isidentifier s \<longleftrightarrow> (case s of [] \<Rightarrow> False | c # cs \<Rightarrow> is_ident_start c \<and> list_all is_ident_char cs)"

text \<open>\<open>_parse_converter_args\<close>: the loop over the comma-separated tokens.\<close>

fun parse_tokens ::
  "conv_env \<Rightarrow> string list \<Rightarrow> pyarg list \<Rightarrow> (string, pyarg) dict \<Rightarrow> (pyarg list \<times> (string, pyarg) dict) res" where
  "parse_tokens env [] args kwargs = Inr (args, kwargs)"
| "parse_tokens env (tok # toks) args kwargs =
     (let token = str_strip tok in
      if token = [] then Inl ValueError
      else let (name, sep, raw) = partition_on (CHR ''='') token in
      if sep then
        (let key = str_strip name; raw' = str_strip raw in
         if \<not> str_isidentifier key then Inl ValueError
         else if raw' = [] then Inl ValueError
         else if map_of kwargs key \<noteq> None then Inl ValueError
         else parse_tokens env toks args (dict_set key (coerce_arg env raw') kwargs))
      else if kwargs \<noteq> [] then Inl ValueError
      else parse_tokens env toks (args @ [coerce_arg env token]) kwargs)"

definition parse_converter_args ::
  "conv_env \<Rightarrow> string \<Rightarrow> (pyarg list \<times> (string, pyarg) dict) res" where
  "parse_converter_args env body =
     (let b = str_strip body in
      if b = [] then Inr ([], []) else parse_tokens env (split_on (CHR '','') b) [] [])"

text \<open>
  Python's binding of positional and keyword arguments to a parameter list: too many
  positionals, an unknown keyword or a parameter given twice is a \<open>TypeError\<close>, which
  \<open>parse_converter\<close> turns into a \<open>ValueError\<close>.
\<close>

definition bind_params ::
  "string list \<Rightarrow> pyarg list \<Rightarrow> (string, pyarg) dict \<Rightarrow> (string \<times> pyarg) list res" where
  "bind_params names args kwargs =
     (let pos = zip names args in
      if length args > length names then Inl TypeError
      else if list_ex (\<lambda>(k, v). k \<notin> set names \<or> k \<in> fst ` set pos) kwargs then Inl TypeError
      else Inr (pos @ kwargs))"

fun as_int :: "pyarg \<Rightarrow> int option" where
  "as_int (AInt i) = Some i"
| "as_int (ABool b) = Some (if b then 1 else 0)"
| "as_int _ = None"

fun truthy :: "pyarg \<Rightarrow> bool" where
  "truthy (AInt i) = (i \<noteq> 0)"
| "truthy (ABool b) = b"
| "truthy (AStr s) = (s \<noteq> [])"
| "truthy (AFloat s) = list_ex (\<lambda>c. is_decimal c \<and> c \<noteq> CHR ''0'') s"

definition opaque_init :: "conv_env \<Rightarrow> string \<Rightarrow> (string \<times> pyarg) list \<Rightarrow> converter res" where
  "opaque_init env name binds =
     (case ext_init env name binds of
        Inl e \<Rightarrow> Inl e | Inr _ \<Rightarrow> Inr (OpaqueConverter name binds))"

text \<open>\<open>param_cls(*args, **kwargs)\<close> for the four classes that take arguments.\<close>

definition construct ::
  "conv_env \<Rightarrow> string \<Rightarrow> pyarg list \<Rightarrow> (string, pyarg) dict \<Rightarrow> converter res" where
  "construct env name args kwargs =
     (if name = ''str'' \<or> name = ''string'' then
        res_bind (bind_params [''length'', ''minlength'', ''maxlength''] args kwargs) (\<lambda>b.
          if list_all (\<lambda>(k, v). as_int v \<noteq> None) b
          then string_init (Option.bind (map_of b ''length'') as_int)
                 (Option.bind (map_of b ''minlength'') as_int)
                 (Option.bind (map_of b ''maxlength'') as_int)
          else opaque_init env name b)
      else res_bind (bind_params [''min'', ''max'', ''signed''] args kwargs) (\<lambda>b.
          if name = ''int'' \<and> list_all (\<lambda>(k, v). k = ''signed'' \<or> as_int v \<noteq> None) b
          then int_init (Option.bind (map_of b ''min'') as_int)
                 (Option.bind (map_of b ''max'') as_int)
                 (case map_of b ''signed'' of None \<Rightarrow> True | Some v \<Rightarrow> truthy v)
          else opaque_init env name b))"

text \<open>
  The pattern \<open>^([A-Za-z_][A-Za-z0-9_]*)\s*\((.*)\)$\<close> with \<open>re.DOTALL\<close>: the name and the
  argument body. \<open>$\<close> also matches before a final newline.
\<close>

definition ascii_ident_start :: "char \<Rightarrow> bool" where
  "ascii_ident_start c \<longleftrightarrow> is_ascii c \<and> is_ident_start c"

definition ascii_ident_char :: "char \<Rightarrow> bool" where
  "ascii_ident_char c \<longleftrightarrow> is_ascii c \<and> is_ident_char c"

definition param_spec :: "string \<Rightarrow> (string \<times> string) option" where
  "param_spec spec =
     (let s = (if ends_with ''\<newline>'' spec then butlast spec else spec);
          name = takeWhile ascii_ident_char s;
          rest = dropWhile is_space (dropWhile ascii_ident_char s)
      in if name \<noteq> [] \<and> ascii_ident_start (hd name) \<and> 2 \<le> length rest
            \<and> hd rest = CHR ''('' \<and> last rest = CHR '')''
         then Some (name, butlast (tl rest)) else None)"

definition is_any_spec :: "string \<Rightarrow> bool" where
  "is_any_spec spec \<longleftrightarrow> starts_with ''any('' spec \<and> ends_with '')'' spec"

definition is_parametrized_spec :: "string \<Rightarrow> bool" where
  "is_parametrized_spec spec \<longleftrightarrow>
     (case param_spec spec of None \<Rightarrow> False | Some (n, b) \<Rightarrow> n \<in> set parametrized_names)"

text \<open>The zero-argument instance of a built-in class.\<close>

definition builtin_converter :: "string \<Rightarrow> converter" where
  "builtin_converter n =
     (if n = ''str'' \<or> n = ''string'' then default_string
      else if n = ''int'' then IntConverter None None True
      else if n = ''uuid'' then UUIDConverter
      else if n = ''path'' then PathConverter
      else if n = ''date'' then DateConverter
      else if n = ''decimal'' then DecimalConverter
      else OpaqueConverter n [])"

text \<open>\<open>parse_converter\<close>.\<close>

definition parse_converter :: "conv_env \<Rightarrow> string \<Rightarrow> converter res" where
  "parse_converter env spec =
     (if spec = [] then Inr default_string
      else if is_any_spec spec then
        (let body = str_strip (take (length spec - 5) (drop 4 spec)) in
         if body = [] then Inl ValueError
         else Inr (AnyConverter (map str_strip (split_on (CHR '','') body))))
      else case param_spec spec of
        Some (name, body) \<Rightarrow>
          (if name \<notin> set parametrized_names then Inl ValueError
           else res_bind (parse_converter_args env body) (\<lambda>(args, kwargs).
             case construct env name args kwargs of
               Inl TypeError \<Rightarrow> Inl ValueError
             | r \<Rightarrow> r))
      | None \<Rightarrow>
          (if spec \<in> set builtin_names then Inr (builtin_converter spec)
           else case map_of (custom_reg env) spec of
             Some (g, s) \<Rightarrow> Inr (CustomConverter spec g s)
           | None \<Rightarrow> Inl ValueError))"

text \<open>
  \<open>register_converter\<close> and \<open>unregister_converter\<close> on the registry; \<open>None\<close> stands for an
  object that is not a subclass of \<open>Converter\<close>.
\<close>

definition register_converter ::
  "string \<Rightarrow> (bool \<times> int) option \<Rightarrow> conv_env \<Rightarrow> conv_env res" where
  "register_converter name cls env =
     (if name \<in> set builtin_names then Inl ValueError
      else case cls of
        None \<Rightarrow> Inl TypeError
      | Some c \<Rightarrow> Inr (env\<lparr>custom_reg := dict_set name c (custom_reg env)\<rparr>))"

definition unregister_converter :: "string \<Rightarrow> conv_env \<Rightarrow> conv_env res" where
  "unregister_converter name env =
     (if name \<in> set builtin_names then Inl ValueError
      else Inr (env\<lparr>custom_reg := dict_del name (custom_reg env)\<rparr>))"

section \<open>Placeholders of a template\<close>

record placeholder =
  ph_start :: nat
  ph_end :: nat
  ph_name :: string
  ph_spec :: "string option"

text \<open>
  The inner loop of \<open>_iter_placeholders\<close>: from just after an opening brace at the given depth,
  the text up to the matching brace and what follows it; \<open>None\<close> when it never closes.
\<close>

fun close_brace :: "nat \<Rightarrow> string \<Rightarrow> (string \<times> string) option" where
  "close_brace d [] = None"
| "close_brace d (c # cs) =
     (if c = CHR ''}'' \<and> d = 1 then Some ([], cs)
      else case close_brace (if c = CHR ''{'' then d + 1 else if c = CHR ''}'' then d - 1 else d) cs of
        None \<Rightarrow> None
      | Some (inner, rest) \<Rightarrow> Some (c # inner, rest))"

lemma close_brace_parts:
  "close_brace d s = Some (inner, rest) \<Longrightarrow> s = inner @ CHR ''}'' # rest"
  by (induction d s arbitrary: inner rest rule: close_brace.induct)
    (auto split: if_splits option.splits)

definition mk_placeholder :: "nat \<Rightarrow> string \<Rightarrow> placeholder" where
  "mk_placeholder pos inner =
     (case partition_on (CHR '':'') inner of
        (name, sep, spec) \<Rightarrow>
          \<lparr>ph_start = pos, ph_end = pos + length inner + 2, ph_name = name,
            ph_spec = (if sep then Some spec else None)\<rparr>)"

text \<open>The outer loop, at position \<open>pos\<close> of the text; an unclosed brace ends the scan.\<close>

function scan_placeholders :: "nat \<Rightarrow> string \<Rightarrow> placeholder list" where
  "scan_placeholders pos [] = []"
| "scan_placeholders pos (c # cs) =
     (if c \<noteq> CHR ''{'' then scan_placeholders (pos + 1) cs
      else case close_brace 1 cs of
        None \<Rightarrow> []
      | Some (inner, rest) \<Rightarrow>
          mk_placeholder pos inner # scan_placeholders (pos + length inner + 2) rest)"
  by pat_completeness auto
termination
  by (relation "measure (\<lambda>(pos, s). length s)") (auto dest: close_brace_parts)

definition iter_placeholders :: "string \<Rightarrow> placeholder list" where
  "iter_placeholders text = scan_placeholders 0 text"

text \<open>
  Every placeholder spans a brace pair of the text, and the spans come in order without
  overlap: the text from \<open>pos\<close> on is cut into literal parts and placeholders.
\<close>

fun spans_ok :: "nat \<Rightarrow> nat \<Rightarrow> placeholder list \<Rightarrow> bool" where
  "spans_ok lo hi [] = (lo \<le> hi)"
| "spans_ok lo hi (p # ps) = (lo \<le> ph_start p \<and> ph_start p + 2 \<le> ph_end p \<and> spans_ok (ph_end p) hi ps)"

lemma mk_placeholder_span [simp]:
  "ph_start (mk_placeholder pos inner) = pos"
  "ph_end (mk_placeholder pos inner) = pos + length inner + 2"
  by (simp_all add: mk_placeholder_def split: prod.splits)

lemma spans_ok_mono: "spans_ok lo hi ps \<Longrightarrow> lo' \<le> lo \<Longrightarrow> spans_ok lo' hi ps"
  by (cases ps) auto

lemma scan_spans_ok: "spans_ok pos (pos + length s) (scan_placeholders pos s)"
proof (induction pos s rule: scan_placeholders.induct)
  case (2 pos c cs)
  show ?case
  proof (cases "c = CHR ''{''")
    case False
    with 2 show ?thesis by (auto intro: spans_ok_mono)
  next
    case True
    show ?thesis
    proof (cases "close_brace 1 cs")
      case None
      with True show ?thesis by simp
    next
      case (Some ir)
      then obtain inner rest where ir: "close_brace 1 cs = Some (inner, rest)"
        by (cases ir) auto
      have "cs = inner @ CHR ''}'' # rest" using ir by (rule close_brace_parts)
      moreover have "spans_ok (pos + length inner + 2) (pos + length inner + 2 + length rest)
          (scan_placeholders (pos + length inner + 2) rest)"
        using "2.IH"(2) True ir by simp
      ultimately show ?thesis using True ir by (simp add: algebra_simps)
    qed
  qed
qed simp

lemma scan_start_ge: "p \<in> set (scan_placeholders pos s) \<Longrightarrow> pos \<le> ph_start p"
proof (induction pos s rule: scan_placeholders.induct)
  case (2 pos c cs)
  show ?case
  proof (cases "c = CHR ''{''")
    case False
    with "2.IH"(1) "2.prems" show ?thesis by simp
  next
    case True
    then obtain inner rest where ir: "close_brace 1 cs = Some (inner, rest)"
      using "2.prems" by (cases "close_brace 1 cs") auto
    with True "2.prems" have "p = mk_placeholder pos inner
        \<or> p \<in> set (scan_placeholders (pos + length inner + 2) rest)" by simp
    then show ?thesis
    proof
      assume "p = mk_placeholder pos inner"
      then show ?thesis by (simp only: mk_placeholder_span)
    next
      assume "p \<in> set (scan_placeholders (pos + length inner + 2) rest)"
      then have "pos + length inner + 2 \<le> ph_start p"
        using True by (intro "2.IH"(2)[OF _ ir refl]) simp_all
      then show ?thesis by linarith
    qed
  qed
qed simp

lemma scan_text:
  "p \<in> set (scan_placeholders pos s) \<Longrightarrow>
     \<exists>inner. mk_placeholder (ph_start p) inner = p
       \<and> take (length inner + 2) (drop (ph_start p - pos) s) = CHR ''{'' # inner @ ''}''"
proof (induction pos s rule: scan_placeholders.induct)
  case (2 pos c cs)
  show ?case
  proof (cases "c = CHR ''{''")
    case False
    with "2.prems" have p: "p \<in> set (scan_placeholders (pos + 1) cs)" by simp
    then have "ph_start p - pos = Suc (ph_start p - (pos + 1))"
      using scan_start_ge [OF p] by simp
    with "2.IH"(1)[OF False p] show ?thesis by simp
  next
    case True
    then obtain ir where ir0: "close_brace 1 cs = Some ir"
      using "2.prems" by (cases "close_brace 1 cs") auto
    obtain inner rest where ir: "ir = (inner, rest)" by (cases ir)
    have cs: "cs = inner @ CHR ''}'' # rest" using ir0 ir by (auto dest: close_brace_parts)
    have "p = mk_placeholder pos inner \<or> p \<in> set (scan_placeholders (pos + length inner + 2) rest)"
      using "2.prems" True ir0 ir by simp
    then show ?thesis
    proof
      assume "p = mk_placeholder pos inner"
      with True cs show ?thesis by (intro exI [of _ inner]) simp
    next
      assume p: "p \<in> set (scan_placeholders (pos + length inner + 2) rest)"
      obtain a where a: "ph_start p = pos + length inner + 2 + a"
        using scan_start_ge [OF p] le_Suc_ex by blast
      have "drop (ph_start p - pos) (c # cs) = drop (ph_start p - (pos + length inner + 2)) rest"
        using a cs by simp
      moreover have "\<exists>inner'. mk_placeholder (ph_start p) inner' = p
          \<and> take (length inner' + 2) (drop (ph_start p - (pos + length inner + 2)) rest)
            = CHR ''{'' # inner' @ ''}''"
        using True p by (intro "2.IH"(2)[OF _ ir0 ir [symmetric]]) simp_all
      ultimately show ?thesis by metis
    qed
  qed
qed simp

text \<open>
  How callers rebuild a path from its placeholders (\<open>_openapi_path_from_template\<close>, \<open>url_for\<close>):
  the literal text between the spans, with each placeholder replaced.
\<close>

fun assemble :: "(placeholder \<Rightarrow> string) \<Rightarrow> string \<Rightarrow> nat \<Rightarrow> placeholder list \<Rightarrow> string" where
  "assemble f text pos [] = drop pos text"
| "assemble f text pos (p # ps) =
     take (ph_start p - pos) (drop pos text) @ f p @ assemble f text (ph_end p) ps"

definition openapi_path_from_template :: "string \<Rightarrow> string" where
  "openapi_path_from_template template =
     assemble (\<lambda>ph. ''{'' @ ph_name ph @ ''}'') template 0 (iter_placeholders template)"

lemma assemble_id:
  assumes "spans_ok pos (length text) ps"
  shows "assemble (\<lambda>p. take (ph_end p - ph_start p) (drop (ph_start p) text)) text pos ps
           = drop pos text"
  using assms
proof (induction ps arbitrary: pos)
  case (Cons p ps)
  have "take (ph_start p - pos) (drop pos text) @ drop (ph_start p) text = drop pos text"
    using Cons.prems append_take_drop_id [of "ph_start p - pos" "drop pos text"] by simp
  moreover have "take (ph_end p - ph_start p) (drop (ph_start p) text) @ drop (ph_end p) text
      = drop (ph_start p) text"
    using Cons.prems append_take_drop_id [of "ph_end p - ph_start p" "drop (ph_start p) text"] by simp
  ultimately show ?case using Cons by simp
qed simp

section \<open>Tree or regex\<close>

definition bare_ident :: "string \<Rightarrow> bool" where
  "bare_ident s \<longleftrightarrow>
     (let t = (if ends_with ''\<newline>'' s then butlast s else s) in
      t \<noteq> [] \<and> ascii_ident_start (hd t) \<and> list_all ascii_ident_char t)"

definition looks_like_regex :: "string \<Rightarrow> bool" where
  "looks_like_regex conv \<longleftrightarrow> \<not> bare_ident conv"

definition is_tree_expressible_spec :: "conv_env \<Rightarrow> string \<Rightarrow> bool" where
  "is_tree_expressible_spec env spec \<longleftrightarrow>
     spec = [] \<or> is_any_spec spec \<or> spec \<in> set builtin_names
     \<or> map_of (custom_reg env) spec \<noteq> None \<or> is_parametrized_spec spec"

definition validate_bare_word_spec :: "conv_env \<Rightarrow> string option \<Rightarrow> unit res" where
  "validate_bare_word_spec env spec =
     (case spec of
        None \<Rightarrow> Inr ()
      | Some sp \<Rightarrow>
          (if sp = [] then Inr ()
           else if looks_like_regex sp then Inr ()
           else if map_of (custom_reg env) sp \<noteq> None then Inl ValueError
           else if \<not> is_tree_expressible_spec env sp then Inl ValueError
           else Inr ()))"

text \<open>The tests one segment runs in the loop of \<open>is_regex_path\<close>.\<close>

definition segment_forces_regex :: "conv_env \<Rightarrow> bool \<Rightarrow> string \<Rightarrow> bool" where
  "segment_forces_regex env is_last seg =
     (case iter_placeholders seg of
        [] \<Rightarrow> False
      | ph # phs \<Rightarrow>
          phs \<noteq> []
          \<or> \<not> (ph_start ph = 0 \<and> ph_end ph = length seg)
          \<or> list_ex (\<lambda>cand. case ph_spec cand of
                None \<Rightarrow> False
              | Some spec \<Rightarrow>
                  (spec \<noteq> [] \<and> \<not> is_tree_expressible_spec env spec \<and> looks_like_regex spec)
                  \<or> (spec = ''path'' \<and> \<not> is_last)) (ph # phs))"

fun any_forces_regex :: "conv_env \<Rightarrow> string list \<Rightarrow> bool" where
  "any_forces_regex env [] = False"
| "any_forces_regex env (seg # segs) =
     (segment_forces_regex env (segs = []) seg \<or> any_forces_regex env segs)"

fun validate_all :: "conv_env \<Rightarrow> placeholder list \<Rightarrow> unit res" where
  "validate_all env [] = Inr ()"
| "validate_all env (p # ps) =
     res_bind (validate_bare_word_spec env (ph_spec p)) (\<lambda>_. validate_all env ps)"

definition is_regex_path :: "conv_env \<Rightarrow> string \<Rightarrow> bool res" where
  "is_regex_path env path =
     (let segs = filter (\<lambda>s. s \<noteq> []) (split_on (CHR ''/'') path) in
      if any_forces_regex env segs
      then res_bind (validate_all env (concat (map iter_placeholders segs))) (\<lambda>_. Inr True)
      else Inr False)"

text \<open>
  \<open>extract_regex_converters\<close> (regex routes) and \<open>path_param_converters\<close> (reverse lookup): the
  converter of each typed placeholder, in template order.
\<close>

fun collect_converters ::
  "conv_env \<Rightarrow> (string \<Rightarrow> bool) \<Rightarrow> placeholder list \<Rightarrow> (string, converter) dict
     \<Rightarrow> (string, converter) dict res" where
  "collect_converters env keep [] d = Inr d"
| "collect_converters env keep (p # ps) d =
     (case ph_spec p of
        None \<Rightarrow> collect_converters env keep ps d
      | Some spec \<Rightarrow>
          if spec = [] \<or> \<not> keep spec then collect_converters env keep ps d
          else res_bind (parse_converter env spec) (\<lambda>c.
                 collect_converters env keep ps (dict_set (ph_name p) c d)))"

definition extract_regex_converters :: "conv_env \<Rightarrow> string \<Rightarrow> (string, converter) dict res" where
  "extract_regex_converters env path =
     collect_converters env
       (\<lambda>spec. spec \<in> set builtin_names \<or> is_parametrized_spec spec \<or> is_any_spec spec)
       (iter_placeholders path) []"

definition path_param_converters :: "conv_env \<Rightarrow> string \<Rightarrow> (string, converter) dict res" where
  "path_param_converters env template =
     collect_converters env
       (\<lambda>spec. \<not> (\<not> is_any_spec spec \<and> \<not> is_parametrized_spec spec \<and> looks_like_regex spec))
       (iter_placeholders template) []"

section \<open>Facts about matching\<close>

lemma int_match_superscript:
  assumes "v \<noteq> []" "length v \<le> 20" "list_all is_digit v" "\<not> list_all is_decimal v"
  shows "int_match mn mx signed v = Inl ValueError"
proof -
  have nominus: "\<not> starts_with ''-'' v"
    using assms(1,3) by (cases v) (auto simp: starts_with_def is_digit_def is_decimal_def)
  then have "int_check v = v" by (simp add: int_check_def)
  then show ?thesis
    using assms nominus py_int_superscript
    by (simp add: int_match_def str_isdigit_def max_int_digits_def)
qed

lemma py_int_minus:
  assumes "ds \<noteq> []" "list_all is_decimal ds"
  shows "py_int (CHR ''-'' # ds) = Inr (- int (digits_val 0 ds))"
proof -
  have "is_decimal (last ds)" using assms by (auto simp: list_all_iff)
  then have "str_strip (CHR ''-'' # ds) = CHR ''-'' # ds"
    using assms(1) is_decimal_not_space [of "last ds"]
    by (intro str_strip_no_space_ends) (simp_all add: is_space_def)
  moreover have "filter is_decimal ds = ds" using assms(2) by (simp add: list_all_iff)
  moreover have "digit_run False ds" using assms by (simp add: digit_run_decimal)
  ultimately show ?thesis by (simp add: py_int_def Let_def)
qed

lemma py_int_signed:
  assumes "starts_with ''-'' v" "str_isdigit (int_check v)" "list_all is_decimal (int_check v)"
  shows "py_int v = Inr (- int (digits_val 0 (int_check v)))"
proof -
  obtain ds where v: "v = CHR ''-'' # ds"
    using assms(1) by (cases v) (auto simp: starts_with_def)
  show ?thesis
    using assms py_int_minus [of ds] by (simp add: v int_check_def str_isdigit_def)
qed

lemma int_match_ascii_ok:
  assumes "list_all is_ascii v"
  shows "\<exists>r. int_match mn mx signed v = Inr r"
proof -
  have sub: "set (int_check v) \<subseteq> set v"
    by (auto simp: int_check_def dest: in_set_dropD)
  have dec: "list_all is_decimal (int_check v)" if "str_isdigit (int_check v)"
    using that assms sub is_digit_ascii by (auto simp: list_all_iff str_isdigit_def)
  show ?thesis
  proof (cases "str_isdigit (int_check v)")
    case False
    then show ?thesis by (simp add: int_match_def)
  next
    case True
    show ?thesis
    proof (cases "starts_with ''-'' v")
      case sw: True
      show ?thesis
        using py_int_signed [OF sw True dec [OF True]] by (auto simp: int_match_def)
    next
      case sw: False
      then have "int_check v = v" by (simp add: int_check_def)
      then have "py_int v = Inr (int (digits_val 0 v))"
        using True dec by (intro py_int_decimal) (auto simp: str_isdigit_def)
      then show ?thesis by (auto simp: int_match_def)
    qed
  qed
qed

lemma int_match_bounds:
  assumes "int_match mn mx signed v = Inr (Some x)"
  obtains i where "x = PInt i" "py_int v = Inr i"
    "\<And>m. mn = Some m \<Longrightarrow> m \<le> i" "\<And>m. mx = Some m \<Longrightarrow> i \<le> m"
    "signed \<or> \<not> starts_with ''-'' v"
  using assms
  by (auto simp: int_match_def res_bind_Inr_iff split: if_splits option.splits)

end
