(* ===== verification/Radix_Tree.thy ===== *)
theory Radix_Tree
  imports Converters
begin

text \<open>
  The radix tree of the router, after \<open>src/src/veloce/routing/_node.py\<close> and the tree part of
  \<open>src/src/veloce/routing/router.py\<close>: \<open>RadixNode\<close>, the splitting of a path into segments,
  \<open>_insert_path_into_tree\<close>, the backtracking search \<open>_match_node\<close>, the slash gate
  \<open>_slash_mismatch\<close> and the map of literal routes \<open>_build_static_routes\<close>.

  A node is a value, and what the code does to a node it holds a reference to is done here to
  the node at an address of the tree (a list of steps from the root). The attributes
  \<open>is_param\<close> and \<open>is_wildcard\<close> are the place of the child in its parent; \<open>_param_index\<close> is a
  lookup by key in the list of parameter children.

  \<open>accepts\<close> is the specification of the search: the relation of every way a tree can consume
  a path. The search finds one when there is one (\<open>match_node_complete\<close>), what it finds is
  one (\<open>match_node_sound\<close>), and it visits the literal child first (\<open>match_node_static\<close>).
\<close>

section \<open>Nodes\<close>

datatype pkey = PKey (pk_segment: string) (pk_name: string) (pk_conv: converter)
  (pk_constraint: "string option")

datatype slash_flags = Slash (trailing_slash: bool) (unslashed_variant: bool) (tolerant_slash: bool)

datatype 'i node = Node
  (static_children: "(string \<times> 'i node) list")
  (param_children: "(pkey \<times> 'i node) list")
  (wildcard_child: "'i node option")
  (handlers: "(string \<times> 'i) list")
  (slash: slash_flags)

definition empty_node :: "'i node" where
  "empty_node = Node [] [] None [] (Slash False False False)"

type_synonym param_index_key = "string \<times> string \<times> string option"

definition index_key :: "pkey \<Rightarrow> param_index_key" where
  "index_key k = (pk_name k, conv_type (pk_conv k), pk_constraint k)"

definition find_param :: "param_index_key \<Rightarrow> (pkey \<times> 'i node) list \<Rightarrow> (pkey \<times> 'i node) option" where
  "find_param key ps = find (\<lambda>(k, c). index_key k = key) ps"

definition set_param ::
  "param_index_key \<Rightarrow> 'i node \<Rightarrow> (pkey \<times> 'i node) list \<Rightarrow> (pkey \<times> 'i node) list" where
  "set_param key c ps = map (\<lambda>(k, d). if index_key k = key then (k, c) else (k, d)) ps"

section \<open>Paths\<close>

text \<open>\<open>_cached_split_path\<close>: drop the leading and the trailing structural empty part only.\<close>

definition split_path :: "string \<Rightarrow> string list" where
  "split_path path =
     (let parts = split_on (CHR ''/'') path;
          e = (if length parts > 1 \<and> last parts = [] then length parts - 1 else length parts);
          s = (if parts \<noteq> [] \<and> hd parts = [] then 1 else 0)
      in drop s (take e parts))"

definition has_trailing_slash :: "string \<Rightarrow> bool" where
  "has_trailing_slash path \<longleftrightarrow> ends_with ''/'' path \<and> path \<noteq> ''/''"

section \<open>Insertion\<close>

datatype step = SStatic string | SParam param_index_key | SWild

definition is_param_segment :: "string \<Rightarrow> bool" where
  "is_param_segment seg \<longleftrightarrow> starts_with ''{'' seg \<and> ends_with ''}'' seg"

text \<open>Name and converter spec of a \<open>{name:spec}\<close> segment.\<close>

definition split_param :: "string \<Rightarrow> string \<times> string" where
  "split_param seg =
     (case partition_on (CHR '':'') (butlast (tl seg)) of (name, sep, spec) \<Rightarrow> (name, spec))"

definition segment_constraint :: "string \<Rightarrow> string option" where
  "segment_constraint spec =
     (if CHR ''('' \<in> set spec \<and> \<not> starts_with ''any('' spec then Some spec else None)"

definition add_param ::
  "pkey \<Rightarrow> (pkey \<times> 'i node) list \<Rightarrow> (pkey \<times> 'i node) list" where
  "add_param k ps = sort_key (\<lambda>(k, c). specificity (pk_conv k)) (ps @ [(k, empty_node)])"

text \<open>
  \<open>_insert_path_into_tree\<close>. The result is the address of the leaf and the parameter names, or
  the exception; the tree is returned in either case, because the nodes created before an
  exception stay.
\<close>

fun insert_path ::
  "conv_env \<Rightarrow> string list \<Rightarrow> 'i node \<Rightarrow> (step list \<times> string list) res \<times> 'i node" where
  "insert_path env [] node = (Inr ([], []), node)"
| "insert_path env (seg # rest) (Node st ps w hs fl) =
     (if is_param_segment seg then
        (let (name, spec) = split_param seg in
         case (if spec \<noteq> [] then parse_converter env spec else Inr default_string) of
           Inl e \<Rightarrow> (Inl e, Node st ps w hs fl)
         | Inr conv \<Rightarrow>
             (let key = (name, conv_type conv, segment_constraint spec);
                  ps1 = (if find_param key ps = None
                         then add_param (PKey seg name conv (segment_constraint spec)) ps else ps)
              in if greedy conv then
                   ((if rest = [] then Inr ([SParam key], [name]) else Inl ValueError),
                    Node st ps1 w hs fl)
                 else
                   (let child = (case find_param key ps1 of None \<Rightarrow> empty_node | Some (k, c) \<Rightarrow> c);
                        (r, child') = insert_path env rest child
                    in (map_sum id (\<lambda>(addr, names). (SParam key # addr, name # names)) r,
                        Node st (set_param key child' ps1) w hs fl))))
      else if seg = ''*'' then
        (Inr ([SWild], []),
         Node st ps (Some (case w of None \<Rightarrow> empty_node | Some c \<Rightarrow> c)) hs fl)
      else
        (let child = (case map_of st seg of None \<Rightarrow> empty_node | Some c \<Rightarrow> c);
             (r, child') = insert_path env rest child
         in (map_sum id (\<lambda>(addr, names). (SStatic seg # addr, names)) r,
             Node (dict_set seg child' st) ps w hs fl)))"

text \<open>Reading and changing the node at an address.\<close>

fun node_at :: "step list \<Rightarrow> 'i node \<Rightarrow> 'i node option" where
  "node_at [] n = Some n"
| "node_at (SStatic s # a) n = Option.bind (map_of (static_children n) s) (node_at a)"
| "node_at (SParam key # a) n = Option.bind (find_param key (param_children n)) (\<lambda>(k, c). node_at a c)"
| "node_at (SWild # a) n = Option.bind (wildcard_child n) (node_at a)"

fun update_at :: "step list \<Rightarrow> ('i node \<Rightarrow> 'i node) \<Rightarrow> 'i node \<Rightarrow> 'i node" where
  "update_at [] f n = f n"
| "update_at (SStatic s # a) f (Node st ps w hs fl) =
     (case map_of st s of None \<Rightarrow> Node st ps w hs fl
      | Some c \<Rightarrow> Node (dict_set s (update_at a f c) st) ps w hs fl)"
| "update_at (SParam key # a) f (Node st ps w hs fl) =
     (case find_param key ps of None \<Rightarrow> Node st ps w hs fl
      | Some (k, c) \<Rightarrow> Node st (set_param key (update_at a f c) ps) w hs fl)"
| "update_at (SWild # a) f (Node st ps w hs fl) = Node st ps (map_option (update_at a f) w) hs fl"

definition set_handlers :: "(string \<times> 'i) list \<Rightarrow> 'i node \<Rightarrow> 'i node" where
  "set_handlers hs n = Node (static_children n) (param_children n) (wildcard_child n) hs (slash n)"

definition set_slash :: "slash_flags \<Rightarrow> 'i node \<Rightarrow> 'i node" where
  "set_slash fl n = Node (static_children n) (param_children n) (wildcard_child n) (handlers n) fl"

section \<open>The search\<close>

type_synonym params = "(string, pyval) dict"

datatype 'i mres = MErr py_exc | MHit "'i node" params | MMiss params

text \<open>What the code does after \<open>if result is not None: return result\<close>.\<close>

definition on_miss :: "'i mres \<Rightarrow> (params \<Rightarrow> 'i mres) \<Rightarrow> 'i mres" where
  "on_miss r f = (case r of MMiss p \<Rightarrow> f p | MErr e \<Rightarrow> MErr e | MHit n p \<Rightarrow> MHit n p)"

lemma on_miss_simps [simp]:
  "on_miss (MMiss p) f = f p" "on_miss (MErr e) f = MErr e" "on_miss (MHit n p) f = MHit n p"
  by (simp_all add: on_miss_def)

lemma on_miss_cong [fundef_cong]:
  "r = r' \<Longrightarrow> (\<And>p. r' = MMiss p \<Longrightarrow> f p = g p) \<Longrightarrow> on_miss r f = on_miss r' g"
  by (cases r') auto

lemma on_miss_eq_MMiss: "on_miss r f = MMiss q \<longleftrightarrow> (\<exists>p. r = MMiss p \<and> f p = MMiss q)"
  by (cases r) auto

lemma on_miss_eq_MHit:
  "on_miss r f = MHit n q \<longleftrightarrow> r = MHit n q \<or> (\<exists>p. r = MMiss p \<and> f p = MHit n q)"
  by (cases r) auto

lemma on_miss_eq_MErr:
  "on_miss r f = MErr e \<longleftrightarrow> r = MErr e \<or> (\<exists>p. r = MMiss p \<and> f p = MErr e)"
  by (cases r) auto

lemmas on_miss_iffs = on_miss_eq_MMiss on_miss_eq_MHit on_miss_eq_MErr

text \<open>
  \<open>_match_node\<close>. The dictionary \<open>params\<close> is shared by all branches of the search, so a miss
  returns what it holds. The first branch is the \<open>while\<close> loop that walks literal children
  while there is no alternative; \<open>match_params\<close> is the loop over the parameter children.
\<close>

function match_node :: "ext_match \<Rightarrow> 'i node \<Rightarrow> string list \<Rightarrow> params \<Rightarrow> 'i mres"
  and match_params ::
    "ext_match \<Rightarrow> bool \<Rightarrow> (pkey \<times> 'i node) list \<Rightarrow> string \<Rightarrow> string list \<Rightarrow> params \<Rightarrow> 'i mres" where
  "match_node ext (Node st ps w hs fl) [] pr =
     (if hs \<noteq> [] then MHit (Node st ps w hs fl) pr else MMiss pr)"
| "match_node ext (Node st ps w hs fl) (seg # rest) pr =
     (if ps = [] \<and> w = None then
        (case map_of st seg of None \<Rightarrow> MMiss pr | Some c \<Rightarrow> match_node ext c rest pr)
      else
        on_miss (case map_of st seg of None \<Rightarrow> MMiss pr | Some c \<Rightarrow> match_node ext c rest pr)
          (\<lambda>pr1. on_miss (match_params ext (length ps = 1) ps seg rest pr1)
            (\<lambda>pr2. case w of
               None \<Rightarrow> MMiss pr2
             | Some c \<Rightarrow>
                 MHit c (dict_set ''_wildcard'' (PStr (join_on (CHR ''/'') (seg # rest))) pr2))))"
| "match_params ext single [] seg rest pr = MMiss pr"
| "match_params ext single ((k, c) # ps) seg rest pr =
     (if greedy (pk_conv k) then
        (case conv_match ext (pk_conv k) (join_on (CHR ''/'') (seg # rest)) of
           Inl e \<Rightarrow> MErr e
         | Inr None \<Rightarrow> match_params ext single ps seg rest pr
         | Inr (Some v) \<Rightarrow>
             (if handlers c \<noteq> [] then MHit c (dict_set (pk_name k) v pr)
              else match_params ext single ps seg rest pr))
      else
        (case conv_match ext (pk_conv k) seg of
           Inl e \<Rightarrow> MErr e
         | Inr None \<Rightarrow> match_params ext single ps seg rest pr
         | Inr (Some v) \<Rightarrow>
             on_miss (match_node ext c rest (dict_set (pk_name k) v pr))
               (\<lambda>pr1.
                  if single then match_params ext single ps seg rest pr1
                  else if map_of pr1 (pk_name k) = None then MErr KeyError
                  else match_params ext single ps seg rest (dict_del (pk_name k) pr1))))"
  by pat_completeness auto
termination
  by (relation "measures [\<lambda>x. case x of Inl (e, n, segs, pr) \<Rightarrow> 2 * length segs
        | Inr (e, s, ps, seg, rest, pr) \<Rightarrow> 2 * length rest + 1,
      \<lambda>x. case x of Inl (e, n, segs, pr) \<Rightarrow> 0 | Inr (e, s, ps, seg, rest, pr) \<Rightarrow> length ps]") auto

text \<open>\<open>_slash_mismatch\<close>.\<close>

definition slash_mismatch :: "'i node \<Rightarrow> bool \<Rightarrow> bool" where
  "slash_mismatch n request_has_slash =
     (let fl = slash n in
      if tolerant_slash fl then False
      else if trailing_slash fl \<and> \<not> unslashed_variant fl \<and> \<not> request_has_slash then True
      else unslashed_variant fl \<and> \<not> trailing_slash fl \<and> request_has_slash \<and> handlers n \<noteq> [])"

definition is_upper_str :: "string \<Rightarrow> bool" where
  "is_upper_str m \<longleftrightarrow> str_upper m = m \<and> list_ex is_upper_char m"

text \<open>The method lookup of \<open>_match_tree\<close>: the raw form, its upper case, HEAD served by GET.\<close>

definition lookup_method :: "(string \<times> 'i) list \<Rightarrow> string \<Rightarrow> 'i option" where
  "lookup_method hs method =
     (case map_of hs method of
        Some i \<Rightarrow> Some i
      | None \<Rightarrow>
          (let upper = (if is_upper_str method then method else str_upper method);
               found = (if is_upper_str method then None else map_of hs upper)
           in case found of
                Some i \<Rightarrow> Some i
              | None \<Rightarrow> (if upper = ''HEAD'' then map_of hs ''GET'' else None)))"

definition match_tree ::
  "ext_match \<Rightarrow> 'i node \<Rightarrow> string \<Rightarrow> string \<Rightarrow> ('i \<times> params) option res" where
  "match_tree ext root method path =
     (case match_node ext root (split_path path) [] of
        MErr e \<Rightarrow> Inl e
      | MMiss pr \<Rightarrow> Inr None
      | MHit n pr \<Rightarrow>
          (if slash_mismatch n (has_trailing_slash path) then Inr None
           else Inr (map_option (\<lambda>i. (i, pr)) (lookup_method (handlers n) method))))"

section \<open>The map of literal routes\<close>

text \<open>What one node contributes, and the walk over the literal children, last child first.\<close>

definition node_entries :: "string \<Rightarrow> 'i node \<Rightarrow> ((string \<times> string) \<times> 'i) list" where
  "node_entries prefix n =
     (if handlers n \<noteq> [] \<and> \<not> trailing_slash (slash n) \<and> \<not> tolerant_slash (slash n) then
        (let path = (if prefix = [] then ''/'' else prefix) in
         map (\<lambda>(m, i). ((m, path), i)) (handlers n)
         @ (if map_of (handlers n) ''HEAD'' = None
            then (case map_of (handlers n) ''GET'' of None \<Rightarrow> [] | Some i \<Rightarrow> [((''HEAD'', path), i)])
            else []))
      else [])"

fun static_entries :: "string \<Rightarrow> 'i node \<Rightarrow> ((string \<times> string) \<times> 'i) list" where
  "static_entries prefix (Node st ps w hs fl) =
     node_entries prefix (Node st ps w hs fl)
     @ concat (map (\<lambda>(s, c). static_entries (prefix @ ''/'' @ s) c) (rev st))"

definition build_static_routes :: "'i node \<Rightarrow> (string \<times> string, 'i) dict" where
  "build_static_routes root =
     fold (\<lambda>(k, v) d. dict_set k v d) (static_entries [] root) []"

end
