(* ===== verification/Radix_Search.thy ===== *)
theory Radix_Search
  imports Radix_Tree
begin

text \<open>
  The search of the radix tree against its specification: \<open>accepts\<close> is the relation of every
  way a tree can consume a list of segments, with the parameters bound on the way.
  Soundness and completeness of the backtracking search, the frame of the shared parameter
  dictionary, freedom from \<open>KeyError\<close>, and the literal routes.
\<close>

section \<open>The specification of the search\<close>

inductive accepts ::
  "ext_match \<Rightarrow> 'i node \<Rightarrow> string list \<Rightarrow> (string \<times> pyval) list \<Rightarrow> 'i node \<Rightarrow> bool"
  for ext where
  acc_here: "handlers n \<noteq> [] \<Longrightarrow> accepts ext n [] [] n"
| acc_static: "map_of (static_children n) seg = Some c \<Longrightarrow> accepts ext c rest bs m \<Longrightarrow>
     accepts ext n (seg # rest) bs m"
| acc_param: "(k, c) \<in> set (param_children n) \<Longrightarrow> \<not> greedy (pk_conv k) \<Longrightarrow>
     conv_match ext (pk_conv k) seg = Inr (Some v) \<Longrightarrow> accepts ext c rest bs m \<Longrightarrow>
     accepts ext n (seg # rest) ((pk_name k, v) # bs) m"
| acc_greedy: "(k, c) \<in> set (param_children n) \<Longrightarrow> greedy (pk_conv k) \<Longrightarrow>
     conv_match ext (pk_conv k) (join_on (CHR ''/'') (seg # rest)) = Inr (Some v) \<Longrightarrow>
     handlers c \<noteq> [] \<Longrightarrow> accepts ext n (seg # rest) [(pk_name k, v)] c"
| acc_wild: "wildcard_child n = Some c \<Longrightarrow>
     accepts ext n (seg # rest)
       [(''_wildcard'', PStr (join_on (CHR ''/'') (seg # rest)))] c"

inductive_cases accepts_NilE: "accepts ext n [] bs m"
inductive_cases accepts_ConsE: "accepts ext n (seg # rest) bs m"

text \<open>The same choices, restricted to one list of parameter children.\<close>

definition accepts_params ::
  "ext_match \<Rightarrow> (pkey \<times> 'i node) list \<Rightarrow> string \<Rightarrow> string list \<Rightarrow> (string \<times> pyval) list \<Rightarrow> 'i node \<Rightarrow> bool" where
  "accepts_params ext ps seg rest bs m \<longleftrightarrow>
     (\<exists>k c. (k, c) \<in> set ps \<and>
       (if greedy (pk_conv k) then
          (\<exists>v. conv_match ext (pk_conv k) (join_on (CHR ''/'') (seg # rest)) = Inr (Some v)
             \<and> handlers c \<noteq> [] \<and> bs = [(pk_name k, v)] \<and> m = c)
        else (\<exists>v bs'. conv_match ext (pk_conv k) seg = Inr (Some v)
             \<and> accepts ext c rest bs' m \<and> bs = (pk_name k, v) # bs')))"

lemma accepts_params_Nil [simp]: "\<not> accepts_params ext [] seg rest bs m"
  by (simp add: accepts_params_def)

lemma accepts_params_Cons:
  "accepts_params ext ((k, c) # ps) seg rest bs m \<longleftrightarrow>
     accepts_params ext [(k, c)] seg rest bs m \<or> accepts_params ext ps seg rest bs m"
  unfolding accepts_params_def by (simp only: set_simps) blast

lemma accepts_params_single:
  "accepts_params ext [(k, c)] seg rest bs m \<longleftrightarrow>
     (if greedy (pk_conv k) then
        (\<exists>v. conv_match ext (pk_conv k) (join_on (CHR ''/'') (seg # rest)) = Inr (Some v)
           \<and> handlers c \<noteq> [] \<and> bs = [(pk_name k, v)] \<and> m = c)
      else (\<exists>v bs'. conv_match ext (pk_conv k) seg = Inr (Some v)
           \<and> accepts ext c rest bs' m \<and> bs = (pk_name k, v) # bs'))"
  by (simp add: accepts_params_def)

lemma accepts_Nil_iff: "accepts ext n [] bs m \<longleftrightarrow> handlers n \<noteq> [] \<and> bs = [] \<and> m = n"
  by (auto elim: accepts_NilE intro: acc_here)

lemma accepts_params_plainI:
  "(k, c) \<in> set ps \<Longrightarrow> \<not> greedy (pk_conv k) \<Longrightarrow> conv_match ext (pk_conv k) seg = Inr (Some v) \<Longrightarrow>
     accepts ext c rest bs m \<Longrightarrow> accepts_params ext ps seg rest ((pk_name k, v) # bs) m"
  unfolding accepts_params_def by (intro exI [of _ k] exI [of _ c]) simp

lemma accepts_params_greedyI:
  "(k, c) \<in> set ps \<Longrightarrow> greedy (pk_conv k) \<Longrightarrow>
     conv_match ext (pk_conv k) (join_on (CHR ''/'') (seg # rest)) = Inr (Some v) \<Longrightarrow>
     handlers c \<noteq> [] \<Longrightarrow> accepts_params ext ps seg rest [(pk_name k, v)] c"
  unfolding accepts_params_def by (intro exI [of _ k] exI [of _ c]) simp

lemma accepts_paramsE:
  assumes "accepts_params ext ps seg rest bs m"
  obtains k c v bs' where "(k, c) \<in> set ps" "\<not> greedy (pk_conv k)"
      "conv_match ext (pk_conv k) seg = Inr (Some v)" "accepts ext c rest bs' m"
      "bs = (pk_name k, v) # bs'"
    | k c v where "(k, c) \<in> set ps" "greedy (pk_conv k)"
      "conv_match ext (pk_conv k) (join_on (CHR ''/'') (seg # rest)) = Inr (Some v)"
      "handlers c \<noteq> []" "bs = [(pk_name k, v)]" "m = c"
proof -
  obtain k c where kc: "(k, c) \<in> set ps" "if greedy (pk_conv k) then
      (\<exists>v. conv_match ext (pk_conv k) (join_on (CHR ''/'') (seg # rest)) = Inr (Some v)
         \<and> handlers c \<noteq> [] \<and> bs = [(pk_name k, v)] \<and> m = c)
    else (\<exists>v bs'. conv_match ext (pk_conv k) seg = Inr (Some v)
         \<and> accepts ext c rest bs' m \<and> bs = (pk_name k, v) # bs')"
    using assms unfolding accepts_params_def by blast
  then show thesis using that by (cases "greedy (pk_conv k)") (simp_all, blast+)
qed

lemma accepts_Cons_iff:
  "accepts ext n (seg # rest) bs m \<longleftrightarrow>
     (\<exists>c. map_of (static_children n) seg = Some c \<and> accepts ext c rest bs m)
     \<or> accepts_params ext (param_children n) seg rest bs m
     \<or> (\<exists>c. wildcard_child n = Some c
          \<and> bs = [(''_wildcard'', PStr (join_on (CHR ''/'') (seg # rest)))] \<and> m = c)"
    (is "?L \<longleftrightarrow> ?R")
proof
  assume ?L
  then show ?R
    by (rule accepts_ConsE) (metis accepts_params_plainI accepts_params_greedyI)+
next
  assume ?R
  then show ?L
    by (elim disjE exE conjE accepts_paramsE) (auto intro: accepts.intros)
qed

section \<open>Names bound in a tree\<close>

fun tree_names :: "'i node \<Rightarrow> string set" where
  "tree_names (Node st ps w hs fl) =
     \<Union> (set (map (\<lambda>(s, c). tree_names c) st))
     \<union> \<Union> (set (map (\<lambda>(k, c). insert (pk_name k) (tree_names c)) ps))"

fun names_distinct :: "'i node \<Rightarrow> bool" where
  "names_distinct (Node st ps w hs fl) \<longleftrightarrow>
     list_all (\<lambda>(s, c). names_distinct c) st
     \<and> list_all (\<lambda>(k, c). pk_name k \<notin> tree_names c \<and> names_distinct c) ps"

text \<open>The converters outside the model raise on no ASCII segment; the built-in ones never do.\<close>

definition ext_total :: "ext_match \<Rightarrow> bool" where
  "ext_total ext \<longleftrightarrow> (\<forall>c s e. list_all is_ascii s \<longrightarrow> ext c s \<noteq> Inl e)"

lemma conv_match_ascii:
  assumes "ext_total ext" "list_all is_ascii s"
  shows "conv_match ext c s \<noteq> Inl e"
  using assms int_match_ascii_ok [OF assms(2)]
  by (cases c) (auto simp: ext_total_def, metis Inl_Inr_False)

definition params_names :: "(pkey \<times> 'i node) list \<Rightarrow> string set" where
  "params_names ps = \<Union> (set (map (\<lambda>(k, c). insert (pk_name k) (tree_names c)) ps))"

lemma params_names_Cons [simp]:
  "params_names ((k, c) # ps) = insert (pk_name k) (tree_names c) \<union> params_names ps"
  by (simp add: params_names_def)

lemma tree_names_static:
  "map_of st seg = Some c \<Longrightarrow> tree_names c \<subseteq> tree_names (Node st ps w hs fl)"
  by (auto dest!: map_of_SomeD)

lemma names_distinct_static:
  "names_distinct (Node st ps w hs fl) \<Longrightarrow> map_of st seg = Some c \<Longrightarrow> names_distinct c"
  by (auto dest!: map_of_SomeD simp: list_all_iff)

section \<open>Induction over the search\<close>

text \<open>The loop over literal children is an instance of the general step.\<close>

lemma match_node_Cons:
  "match_node ext (Node st ps w hs fl) (seg # rest) pr =
     on_miss (case map_of st seg of None \<Rightarrow> MMiss pr | Some c \<Rightarrow> match_node ext c rest pr)
       (\<lambda>pr1. on_miss (match_params ext (length ps = 1) ps seg rest pr1)
         (\<lambda>pr2. case w of
            None \<Rightarrow> MMiss pr2
          | Some c \<Rightarrow>
              MHit c (dict_set ''_wildcard'' (PStr (join_on (CHR ''/'') (seg # rest))) pr2)))"
proof (cases "ps = [] \<and> w = None")
  case True
  then have "on_miss r (\<lambda>pr1. on_miss (match_params ext (length ps = 1) ps seg rest pr1)
      (\<lambda>pr2. case w of None \<Rightarrow> MMiss pr2
        | Some c \<Rightarrow> MHit c (dict_set ''_wildcard'' (PStr (join_on (CHR ''/'') (seg # rest))) pr2))) = r"
    for r :: "'a mres"
    by (cases r) auto
  with True show ?thesis by simp
next
  case False
  then show ?thesis by (simp only: match_node.simps if_False)
qed

lemma match_params_Cons:
  "match_params ext single ((k, c) # ps) seg rest pr =
     (case conv_match ext (pk_conv k)
             (if greedy (pk_conv k) then join_on (CHR ''/'') (seg # rest) else seg) of
        Inl e \<Rightarrow> MErr e
      | Inr None \<Rightarrow> match_params ext single ps seg rest pr
      | Inr (Some v) \<Rightarrow>
          if greedy (pk_conv k) then
            (if handlers c \<noteq> [] then MHit c (dict_set (pk_name k) v pr)
             else match_params ext single ps seg rest pr)
          else on_miss (match_node ext c rest (dict_set (pk_name k) v pr))
            (\<lambda>pr1.
               if single then match_params ext single ps seg rest pr1
               else if map_of pr1 (pk_name k) = None then MErr KeyError
               else match_params ext single ps seg rest (dict_del (pk_name k) pr1)))"
  by (cases "greedy (pk_conv k)") (simp_all split: sum.split option.split)

lemmas match_node_Nil = match_node.simps(1)

declare match_node.simps [simp del] match_params.simps(2) [simp del]

lemma search_induct [case_names here params_nil params_cons cons]:
  fixes P :: "'i node \<Rightarrow> string list \<Rightarrow> bool"
    and Q :: "(pkey \<times> 'i node) list \<Rightarrow> string \<Rightarrow> string list \<Rightarrow> bool"
  assumes here: "\<And>n. P n []"
    and params_nil: "\<And>seg rest. Q [] seg rest"
    and params_cons: "\<And>k c ps seg rest. P c rest \<Longrightarrow> Q ps seg rest \<Longrightarrow> Q ((k, c) # ps) seg rest"
    and cons: "\<And>st ps w hs fl seg rest. (\<And>c. map_of st seg = Some c \<Longrightarrow> P c rest) \<Longrightarrow>
      Q ps seg rest \<Longrightarrow> P (Node st ps w hs fl) (seg # rest)"
  shows "P n segs"
proof (induction segs arbitrary: n)
  case Nil
  show ?case by (rule here)
next
  case (Cons seg rest)
  have "Q ps seg rest" for ps
  proof (induction ps)
    case Nil
    show ?case by (rule params_nil)
  next
    case (Cons kc ps)
    obtain k c where "kc = (k, c)" by (cases kc)
    with Cons.IH \<open>\<And>n. P n rest\<close> show ?case by (simp add: params_cons)
  qed
  with Cons.IH show ?case by (cases n) (auto intro: cons)
qed

section \<open>How a step of the search ends\<close>

lemma match_node_missE:
  assumes "match_node ext (Node st ps w hs fl) (seg # rest) pr = MMiss q"
  obtains pr1 where
    "case map_of st seg of None \<Rightarrow> pr1 = pr | Some c \<Rightarrow> match_node ext c rest pr = MMiss pr1"
    "match_params ext (length ps = 1) ps seg rest pr1 = MMiss q" "w = None"
  using assms unfolding match_node_Cons on_miss_iffs
  by (cases w; cases "map_of st seg") auto

lemma match_node_hitE:
  assumes "match_node ext (Node st ps w hs fl) (seg # rest) pr = MHit m q"
  obtains (static) c where "map_of st seg = Some c" "match_node ext c rest pr = MHit m q"
    | (params) pr1 where
      "case map_of st seg of None \<Rightarrow> pr1 = pr | Some c \<Rightarrow> match_node ext c rest pr = MMiss pr1"
      "match_params ext (length ps = 1) ps seg rest pr1 = MHit m q"
    | (wild) pr1 pr2 where
      "case map_of st seg of None \<Rightarrow> pr1 = pr | Some c \<Rightarrow> match_node ext c rest pr = MMiss pr1"
      "match_params ext (length ps = 1) ps seg rest pr1 = MMiss pr2" "w = Some m"
      "q = dict_set ''_wildcard'' (PStr (join_on (CHR ''/'') (seg # rest))) pr2"
  using assms unfolding match_node_Cons on_miss_iffs
  by (cases w; cases "map_of st seg") auto

lemma match_node_errE:
  assumes "match_node ext (Node st ps w hs fl) (seg # rest) pr = MErr e"
  obtains (static) c where "map_of st seg = Some c" "match_node ext c rest pr = MErr e"
    | (params) pr1 where "match_params ext (length ps = 1) ps seg rest pr1 = MErr e"
  using assms unfolding match_node_Cons on_miss_iffs
  by (cases w; cases "map_of st seg") auto

text \<open>One round of the loop over the parameter children.\<close>

lemma match_params_round:
  obtains (raised) e where
      "conv_match ext (pk_conv k) (if greedy (pk_conv k) then join_on (CHR ''/'') (seg # rest) else seg) = Inl e"
      "match_params ext single ((k, c) # ps) seg rest pr = MErr e"
    | (skip) "match_params ext single ((k, c) # ps) seg rest pr = match_params ext single ps seg rest pr"
      "conv_match ext (pk_conv k) (if greedy (pk_conv k) then join_on (CHR ''/'') (seg # rest) else seg)
         = Inr None \<or> greedy (pk_conv k) \<and> handlers c = []"
    | (greedy) v where "greedy (pk_conv k)"
      "conv_match ext (pk_conv k) (join_on (CHR ''/'') (seg # rest)) = Inr (Some v)"
      "handlers c \<noteq> []"
      "match_params ext single ((k, c) # ps) seg rest pr = MHit c (dict_set (pk_name k) v pr)"
    | (child) v r where "\<not> greedy (pk_conv k)" "conv_match ext (pk_conv k) seg = Inr (Some v)"
      "match_node ext c rest (dict_set (pk_name k) v pr) = r"
      "match_params ext single ((k, c) # ps) seg rest pr = r" "\<forall>pr1. r \<noteq> MMiss pr1"
    | (no_key) v pr1 where "match_node ext c rest (dict_set (pk_name k) v pr) = MMiss pr1"
      "map_of pr1 (pk_name k) = None"
      "match_params ext single ((k, c) # ps) seg rest pr = MErr KeyError"
    | (later) v pr1 pr2 where "\<not> greedy (pk_conv k)" "conv_match ext (pk_conv k) seg = Inr (Some v)"
      "match_node ext c rest (dict_set (pk_name k) v pr) = MMiss pr1"
      "pr2 = pr1 \<or> pr2 = dict_del (pk_name k) pr1"
      "match_params ext single ((k, c) # ps) seg rest pr = match_params ext single ps seg rest pr2"
proof -
  let ?text = "if greedy (pk_conv k) then join_on (CHR ''/'') (seg # rest) else seg"
  note unf = match_params_Cons [of ext single k c ps seg rest pr]
  show thesis
  proof (cases "conv_match ext (pk_conv k) ?text")
    case (Inl e)
    with unf show thesis by (intro raised [of e]) simp_all
  next
    case (Inr o')
    show thesis
    proof (cases o')
      case None
      with Inr unf show thesis by (intro skip) simp_all
    next
      case (Some v)
      show thesis
      proof (cases "greedy (pk_conv k)")
        case True
        with Inr Some unf show thesis
          by (cases "handlers c = []") (use skip greedy in simp_all)
      next
        case False
        with Inr Some have conv: "conv_match ext (pk_conv k) seg = Inr (Some v)" by simp
        show thesis
        proof (cases "match_node ext c rest (dict_set (pk_name k) v pr)")
          case (MMiss pr1)
          show thesis
          proof (cases "single")
            case True
            with MMiss conv False unf show thesis by (intro later [of v pr1 pr1]) simp_all
          next
            case nsingle: False
            show thesis
            proof (cases "map_of pr1 (pk_name k)")
              case None
              with MMiss conv False nsingle unf show thesis by (intro no_key [of v pr1]) simp_all
            next
              case (Some y)
              with MMiss conv False nsingle unf show thesis
                by (intro later [of v pr1 "dict_del (pk_name k) pr1"]) simp_all
            qed
          qed
        next
          case (MErr e)
          show thesis
            by (rule child [of v "MErr e"]) (use MErr conv False unf in simp_all)
        next
          case (MHit m q)
          show thesis
            by (rule child [of v "MHit m q"]) (use MHit conv False unf in simp_all)
        qed
      qed
    qed
  qed
qed

lemma match_params_missE:
  assumes "match_params ext single ((k, c) # ps) seg rest pr = MMiss q"
  obtains (skip)
      "conv_match ext (pk_conv k) (if greedy (pk_conv k) then join_on (CHR ''/'') (seg # rest) else seg)
         = Inr None \<or> greedy (pk_conv k) \<and> handlers c = []"
      "match_params ext single ps seg rest pr = MMiss q"
    | (later) v pr1 pr2 where "\<not> greedy (pk_conv k)" "conv_match ext (pk_conv k) seg = Inr (Some v)"
      "match_node ext c rest (dict_set (pk_name k) v pr) = MMiss pr1"
      "pr2 = pr1 \<or> pr2 = dict_del (pk_name k) pr1"
      "match_params ext single ps seg rest pr2 = MMiss q"
proof (rule match_params_round [where ext = ext and k = k and single = single and c = c and ps = ps and seg = seg and rest = rest and pr = pr])
  fix r
  assume "match_params ext single ((k, c) # ps) seg rest pr = r" "\<forall>pr1. r \<noteq> MMiss pr1"
  with assms show thesis by blast
qed (use assms that in simp_all)

lemma match_params_hitE:
  assumes "match_params ext single ((k, c) # ps) seg rest pr = MHit m q"
  obtains (skip) "match_params ext single ps seg rest pr = MHit m q"
    | (greedy) v where "greedy (pk_conv k)"
      "conv_match ext (pk_conv k) (join_on (CHR ''/'') (seg # rest)) = Inr (Some v)"
      "handlers c \<noteq> []" "m = c" "q = dict_set (pk_name k) v pr"
    | (child) v where "\<not> greedy (pk_conv k)" "conv_match ext (pk_conv k) seg = Inr (Some v)"
      "match_node ext c rest (dict_set (pk_name k) v pr) = MHit m q"
    | (later) v pr1 pr2 where
      "match_node ext c rest (dict_set (pk_name k) v pr) = MMiss pr1"
      "pr2 = pr1 \<or> pr2 = dict_del (pk_name k) pr1"
      "match_params ext single ps seg rest pr2 = MHit m q"
  by (rule match_params_round [where ext = ext and k = k and single = single and c = c and ps = ps and seg = seg and rest = rest and pr = pr]) (use assms that in simp_all)

lemma match_params_errE:
  assumes "match_params ext single ((k, c) # ps) seg rest pr = MErr e"
  obtains (conv)
      "conv_match ext (pk_conv k) (if greedy (pk_conv k) then join_on (CHR ''/'') (seg # rest) else seg) = Inl e"
    | (tail) pr' where "match_params ext single ps seg rest pr' = MErr e"
    | (child) pr' where "match_node ext c rest pr' = MErr e"
    | (no_key) v pr1 where "match_node ext c rest (dict_set (pk_name k) v pr) = MMiss pr1"
      "map_of pr1 (pk_name k) = None"
  by (rule match_params_round [where ext = ext and k = k and single = single and c = c and ps = ps and seg = seg and rest = rest and pr = pr]) (use assms that in simp_all)

section \<open>The frame of the shared dictionary\<close>

text \<open>A search that fails leaves every name that its subtree does not bind as it was.\<close>

lemma match_miss_frame:
  "\<forall>pr q. match_node ext n segs pr = MMiss q \<longrightarrow> x \<notin> tree_names n \<longrightarrow> map_of q x = map_of pr x"
proof (induction n segs rule: search_induct
    [where Q = "\<lambda>ps seg rest. \<forall>single pr q. match_params ext single ps seg rest pr = MMiss q \<longrightarrow>
        x \<notin> params_names ps \<longrightarrow> map_of q x = map_of pr x"])
  case (here n)
  then show ?case by (cases n) (simp add: match_node_Nil)
next
  case (params_cons k c ps seg rest)
  show ?case
  proof (intro allI impI)
    fix single pr q
    assume m: "match_params ext single ((k, c) # ps) seg rest pr = MMiss q"
      and x: "x \<notin> params_names ((k, c) # ps)"
    from m show "map_of q x = map_of pr x"
    proof (cases rule: match_params_missE)
      case (later v pr1 pr2)
      then have "map_of pr1 x = map_of (dict_set (pk_name k) v pr) x"
        using params_cons(1) x by simp
      moreover have "map_of pr2 x = map_of pr1 x"
        using later(4) x by (auto simp: py_dict_simps)
      moreover have "map_of q x = map_of pr2 x"
        using later(5) params_cons(2) x by simp
      ultimately show ?thesis using x by (simp add: py_dict_simps)
    qed (use params_cons(2) x in simp_all)
  qed
next
  case (cons st ps w hs fl seg rest)
  have ps: "params_names ps \<subseteq> tree_names (Node st ps w hs fl)" by (auto simp: params_names_def)
  show ?case
  proof (intro allI impI)
    fix pr q
    assume m: "match_node ext (Node st ps w hs fl) (seg # rest) pr = MMiss q"
      and x: "x \<notin> tree_names (Node st ps w hs fl)"
    from m obtain pr1 where
      pr1: "case map_of st seg of None \<Rightarrow> pr1 = pr | Some c \<Rightarrow> match_node ext c rest pr = MMiss pr1"
      and pr2: "match_params ext (length ps = 1) ps seg rest pr1 = MMiss q"
      by (rule match_node_missE)
    have "map_of pr1 x = map_of pr x"
      using pr1 cons(1) x tree_names_static by (cases "map_of st seg") (auto, blast)
    moreover have "map_of q x = map_of pr1 x"
      using pr2 cons(2) x ps by blast
    ultimately show "map_of q x = map_of pr x" by simp
  qed
qed simp

lemma params_miss_frame:
  "match_params ext single ps seg rest pr = MMiss q \<Longrightarrow> x \<notin> params_names ps \<Longrightarrow>
     map_of q x = map_of pr x"
proof (induction ps arbitrary: pr)
  case (Cons kc ps)
  obtain k c where kc: "kc = (k, c)" by (cases kc)
  from Cons.prems(1)[unfolded kc] show ?case
  proof (cases rule: match_params_missE)
    case (later v pr1 pr2)
    then have "map_of pr1 x = map_of (dict_set (pk_name k) v pr) x"
      using match_miss_frame [of ext c rest x] Cons.prems(2) kc by simp
    then show ?thesis
      using later(4,5) Cons.IH Cons.prems(2) kc by (auto simp: py_dict_simps)
  qed (use Cons kc in simp_all)
qed simp

lemma static_miss_frame:
  "(case map_of st seg of None \<Rightarrow> pr1 = pr | Some c \<Rightarrow> match_node ext c rest pr = MMiss pr1) \<Longrightarrow>
     x \<notin> tree_names (Node st ps w hs fl) \<Longrightarrow> map_of pr1 x = map_of pr x"
  using match_miss_frame tree_names_static by (cases "map_of st seg") (simp, simp, blast)

text \<open>A search that succeeds leaves every other name as it was, the wildcard's apart.\<close>

lemma match_hit_frame:
  "\<forall>pr q. match_node ext n segs pr = MHit m q \<longrightarrow> x \<notin> tree_names n \<longrightarrow> x \<noteq> ''_wildcard'' \<longrightarrow>
     map_of q x = map_of pr x"
proof (induction n segs rule: search_induct
    [where Q = "\<lambda>ps seg rest. \<forall>single pr q. match_params ext single ps seg rest pr = MHit m q \<longrightarrow>
        x \<notin> params_names ps \<longrightarrow> x \<noteq> ''_wildcard'' \<longrightarrow> map_of q x = map_of pr x"])
  case (here n)
  then show ?case by (cases n) (simp add: match_node_Nil)
next
  case (params_cons k c ps seg rest)
  show ?case
  proof (intro allI impI)
    fix single pr q
    assume m: "match_params ext single ((k, c) # ps) seg rest pr = MHit m q"
      and x: "x \<notin> params_names ((k, c) # ps)" and xw: "x \<noteq> ''_wildcard''"
    from m show "map_of q x = map_of pr x"
    proof (cases rule: match_params_hitE)
      case (later v pr1 pr2)
      then have "map_of pr1 x = map_of (dict_set (pk_name k) v pr) x"
        using match_miss_frame [of ext c rest x] x by simp
      moreover have "map_of pr2 x = map_of pr1 x" using later(2) x by (auto simp: py_dict_simps)
      moreover have "map_of q x = map_of pr2 x" using later(3) params_cons(2) x xw by simp
      ultimately show ?thesis using x by (simp add: py_dict_simps)
    next
      case (child v)
      then have "map_of q x = map_of (dict_set (pk_name k) v pr) x"
        using params_cons(1) x xw by simp
      with x show ?thesis by (simp add: py_dict_simps)
    qed (use params_cons(2) x xw in \<open>simp_all add: py_dict_simps\<close>)
  qed
next
  case (cons st ps w hs fl seg rest)
  let ?n = "Node st ps w hs fl"
  have ps: "params_names ps \<subseteq> tree_names ?n" by (auto simp: params_names_def)
  show ?case
  proof (intro allI impI)
    fix pr q
    assume m: "match_node ext ?n (seg # rest) pr = MHit m q"
      and x: "x \<notin> tree_names ?n" and xw: "x \<noteq> ''_wildcard''"
    from x ps have xp: "x \<notin> params_names ps" by blast
    from m show "map_of q x = map_of pr x"
    proof (cases rule: match_node_hitE)
      case (static c)
      with cons(1) x xw tree_names_static [OF static(1)] show ?thesis by blast
    next
      case (params pr1)
      then have "map_of q x = map_of pr1 x" using cons(2) xp xw by blast
      with static_miss_frame [OF params(1) x] show ?thesis by simp
    next
      case (wild pr1 pr2)
      have "map_of pr2 x = map_of pr1 x" by (rule params_miss_frame [OF wild(2) xp])
      with static_miss_frame [OF wild(1) x] wild(4) xw show ?thesis by (simp add: py_dict_simps)
    qed
  qed
qed simp

section \<open>No KeyError\<close>

text \<open>
  Where no path binds a name twice and no converter raises, the rollback
  \<open>del params[pname]\<close> finds its key and the search returns normally.
\<close>

lemma join_on_ascii: "\<forall>s \<in> set segs. list_all is_ascii s \<Longrightarrow> list_all is_ascii (join_on (CHR ''/'') segs)"
proof (induction segs)
  case (Cons s segs)
  then show ?case by (cases segs) (auto simp: is_ascii_def)
qed simp

lemma match_no_error:
  assumes ext: "ext_total ext"
  shows "names_distinct n \<longrightarrow> (\<forall>s \<in> set segs. list_all is_ascii s) \<longrightarrow> (\<forall>pr e. match_node ext n segs pr \<noteq> MErr e)"
proof (induction n segs rule: search_induct
    [where Q = "\<lambda>ps seg rest. list_all (\<lambda>(k, c). pk_name k \<notin> tree_names c \<and> names_distinct c) ps \<longrightarrow>
        (\<forall>s \<in> set (seg # rest). list_all is_ascii s) \<longrightarrow>
        (\<forall>single pr e. match_params ext single ps seg rest pr \<noteq> MErr e)"])
  case (here n)
  then show ?case by (cases n) (simp add: match_node_Nil)
next
  case (params_cons k c ps seg rest)
  show ?case
  proof (intro allI impI notI)
    fix single pr e
    assume nd: "list_all (\<lambda>(k, c). pk_name k \<notin> tree_names c \<and> names_distinct c) ((k, c) # ps)"
      and asc: "\<forall>s \<in> set (seg # rest). list_all is_ascii s"
      and m: "match_params ext single ((k, c) # ps) seg rest pr = MErr e"
    from m show False
    proof (cases rule: match_params_errE)
      case conv
      moreover have "list_all is_ascii (if greedy (pk_conv k) then join_on (CHR ''/'') (seg # rest) else seg)"
        using join_on_ascii [OF asc] asc by simp
      ultimately show False using conv_match_ascii [OF ext] by blast
    next
      case (no_key v pr1)
      then have "map_of pr1 (pk_name k) = Some v"
        using match_miss_frame [of ext c rest "pk_name k"] nd by (auto simp: py_dict_simps)
      with no_key(2) show False by simp
    qed (use params_cons nd asc in auto)
  qed
next
  case (cons st ps w hs fl seg rest)
  show ?case
  proof (intro allI impI notI)
    fix pr e
    assume nd: "names_distinct (Node st ps w hs fl)" and asc: "\<forall>s \<in> set (seg # rest). list_all is_ascii s"
      and m: "match_node ext (Node st ps w hs fl) (seg # rest) pr = MErr e"
    from m show False
    proof (cases rule: match_node_errE)
      case (static c)
      then show False using cons(1) names_distinct_static nd asc by simp blast
    next
      case (params pr1)
      then show False using cons(2) nd asc by simp
    qed
  qed
qed simp

section \<open>Soundness and completeness\<close>

lemma match_node_sound:
  "\<forall>pr q. match_node ext n segs pr = MHit m q \<longrightarrow>
     (\<exists>bs. accepts ext n segs bs m
        \<and> (names_distinct n \<and> ''_wildcard'' \<notin> tree_names n \<longrightarrow>
             (\<forall>(x, v) \<in> set bs. map_of q x = Some v)))"
proof (induction n segs rule: search_induct
    [where Q = "\<lambda>ps seg rest. \<forall>single pr q. match_params ext single ps seg rest pr = MHit m q \<longrightarrow>
        (\<exists>bs. accepts_params ext ps seg rest bs m
          \<and> (list_all (\<lambda>(k, c). pk_name k \<notin> tree_names c \<and> names_distinct c) ps
               \<and> ''_wildcard'' \<notin> params_names ps \<longrightarrow> (\<forall>(x, v) \<in> set bs. map_of q x = Some v)))"])
  case (here n)
  then show ?case by (cases n) (auto simp: match_node_Nil accepts_Nil_iff split: if_splits)
next
  case (params_cons k c ps seg rest)
  show ?case
  proof (intro allI impI)
    fix single pr q
    assume m: "match_params ext single ((k, c) # ps) seg rest pr = MHit m q"
    from m show "\<exists>bs. accepts_params ext ((k, c) # ps) seg rest bs m
        \<and> (list_all (\<lambda>(k, c). pk_name k \<notin> tree_names c \<and> names_distinct c) ((k, c) # ps)
             \<and> ''_wildcard'' \<notin> params_names ((k, c) # ps) \<longrightarrow> (\<forall>(x, v) \<in> set bs. map_of q x = Some v))"
    proof (cases rule: match_params_hitE)
      case skip
      then obtain bs where bs: "accepts_params ext ps seg rest bs m"
        "list_all (\<lambda>(k, c). pk_name k \<notin> tree_names c \<and> names_distinct c) ps
           \<and> ''_wildcard'' \<notin> params_names ps \<longrightarrow> (\<forall>(x, v) \<in> set bs. map_of q x = Some v)"
        using params_cons(2) by blast
      then have "accepts_params ext ((k, c) # ps) seg rest bs m"
        unfolding accepts_params_Cons [of ext k c ps] by blast
      with bs(2) show ?thesis by (intro exI [of _ bs]) simp
    next
      case (later v pr1 pr2)
      then obtain bs where bs: "accepts_params ext ps seg rest bs m"
        "list_all (\<lambda>(k, c). pk_name k \<notin> tree_names c \<and> names_distinct c) ps
           \<and> ''_wildcard'' \<notin> params_names ps \<longrightarrow> (\<forall>(x, v) \<in> set bs. map_of q x = Some v)"
        using params_cons(2) by blast
      then have "accepts_params ext ((k, c) # ps) seg rest bs m"
        unfolding accepts_params_Cons [of ext k c ps] by blast
      with bs(2) show ?thesis by (intro exI [of _ bs]) simp
    next
      case (greedy v)
      then have "accepts_params ext [(k, c)] seg rest [(pk_name k, v)] m"
        by (simp add: accepts_params_single)
      then have "accepts_params ext ((k, c) # ps) seg rest [(pk_name k, v)] m"
        unfolding accepts_params_Cons [of ext k c ps] by blast
      with greedy(5) show ?thesis
        by (intro exI [of _ "[(pk_name k, v)]"]) (simp add: py_dict_simps)
    next
      case (child v)
      then obtain bs where bs: "accepts ext c rest bs m"
        "names_distinct c \<and> ''_wildcard'' \<notin> tree_names c \<longrightarrow> (\<forall>(x, v) \<in> set bs. map_of q x = Some v)"
        using params_cons(1) by blast
      have "map_of q (pk_name k) = Some v"
        if "pk_name k \<notin> tree_names c" "pk_name k \<noteq> ''_wildcard''"
        using match_hit_frame [of ext c rest m "pk_name k"] child(3) that by (simp add: py_dict_simps)
      moreover have "accepts_params ext [(k, c)] seg rest ((pk_name k, v) # bs) m"
        using bs(1) child(1,2) by (simp add: accepts_params_single)
      then have "accepts_params ext ((k, c) # ps) seg rest ((pk_name k, v) # bs) m"
        unfolding accepts_params_Cons [of ext k c ps] by blast
      ultimately show ?thesis using bs(2) by (intro exI [of _ "(pk_name k, v) # bs"]) auto
    qed
  qed
next
  case (cons st ps w hs fl seg rest)
  let ?n = "Node st ps w hs fl"
  have sub: "params_names ps \<subseteq> tree_names ?n" by (auto simp: params_names_def)
  show ?case
  proof (intro allI impI)
    fix pr q
    assume m: "match_node ext ?n (seg # rest) pr = MHit m q"
    from m show "\<exists>bs. accepts ext ?n (seg # rest) bs m
        \<and> (names_distinct ?n \<and> ''_wildcard'' \<notin> tree_names ?n \<longrightarrow> (\<forall>(x, v) \<in> set bs. map_of q x = Some v))"
    proof (cases rule: match_node_hitE)
      case (static c)
      then obtain bs where bs: "accepts ext c rest bs m"
        "names_distinct c \<and> ''_wildcard'' \<notin> tree_names c \<longrightarrow> (\<forall>(x, v) \<in> set bs. map_of q x = Some v)"
        using cons(1) by blast
      then have "accepts ext ?n (seg # rest) bs m" using static(1) by (auto intro: acc_static)
      moreover have "names_distinct ?n \<longrightarrow> names_distinct c"
        using names_distinct_static static(1) by blast
      ultimately show ?thesis
        using bs(2) tree_names_static [OF static(1)] by blast
    next
      case (params pr1)
      then obtain bs where bs: "accepts_params ext ps seg rest bs m"
        "list_all (\<lambda>(k, c). pk_name k \<notin> tree_names c \<and> names_distinct c) ps
           \<and> ''_wildcard'' \<notin> params_names ps \<longrightarrow> (\<forall>(x, v) \<in> set bs. map_of q x = Some v)"
        using cons(2) by blast
      then have "accepts ext ?n (seg # rest) bs m" by (simp add: accepts_Cons_iff)
      with bs(2) sub show ?thesis by (intro exI [of _ bs]) (simp, blast)
    next
      case (wild pr1 pr2)
      then have "accepts ext ?n (seg # rest)
          [(''_wildcard'', PStr (join_on (CHR ''/'') (seg # rest)))] m"
        by (simp add: accepts_Cons_iff)
      with wild(4) show ?thesis by (intro exI) (auto simp: py_dict_simps)
    qed
  qed
qed simp

lemma match_node_complete:
  "\<forall>pr q. match_node ext n segs pr = MMiss q \<longrightarrow> (\<forall>bs m. \<not> accepts ext n segs bs m)"
proof (induction n segs rule: search_induct
    [where Q = "\<lambda>ps seg rest. \<forall>single pr q. match_params ext single ps seg rest pr = MMiss q \<longrightarrow>
        (\<forall>bs m. \<not> accepts_params ext ps seg rest bs m)"])
  case (here n)
  then show ?case by (cases n) (auto simp: match_node_Nil accepts_Nil_iff)
next
  case (params_cons k c ps seg rest)
  show ?case
  proof (intro allI impI)
    fix single pr q bs m
    assume miss: "match_params ext single ((k, c) # ps) seg rest pr = MMiss q"
    then have "\<not> accepts_params ext [(k, c)] seg rest bs m"
    proof (cases rule: match_params_missE)
      case skip
      then show ?thesis by (auto simp: accepts_params_single split: if_splits)
    next
      case (later v pr1 pr2)
      then have "\<not> accepts ext c rest bs' m" for bs' using params_cons(1) by blast
      with later(1) show ?thesis by (simp add: accepts_params_single)
    qed
    moreover obtain pr' where "match_params ext single ps seg rest pr' = MMiss q"
      using miss by (rule match_params_missE) blast+
    then have "\<not> accepts_params ext ps seg rest bs m" using params_cons(2) by blast
    ultimately show "\<not> accepts_params ext ((k, c) # ps) seg rest bs m"
      unfolding accepts_params_Cons [of ext k c ps] by blast
  qed
next
  case (cons st ps w hs fl seg rest)
  show ?case
  proof (intro allI impI)
    fix pr q bs m
    assume miss: "match_node ext (Node st ps w hs fl) (seg # rest) pr = MMiss q"
    from miss obtain pr1 where
      pr1: "case map_of st seg of None \<Rightarrow> pr1 = pr | Some c \<Rightarrow> match_node ext c rest pr = MMiss pr1"
      and ps: "match_params ext (length ps = 1) ps seg rest pr1 = MMiss q" and w: "w = None"
      by (rule match_node_missE)
    have "\<not> accepts_params ext ps seg rest bs m" using ps cons(2) by blast
    moreover have "\<not> accepts ext c rest bs m" if "map_of st seg = Some c" for c
    proof -
      from pr1 that have "match_node ext c rest pr = MMiss pr1" by simp
      with cons(1) [OF that] show ?thesis by blast
    qed
    ultimately show "\<not> accepts ext (Node st ps w hs fl) (seg # rest) bs m"
      using w by (simp add: accepts_Cons_iff)
  qed
qed simp

section \<open>Literal paths\<close>

fun static_walk :: "'i node \<Rightarrow> string list \<Rightarrow> 'i node option" where
  "static_walk n [] = Some n"
| "static_walk n (s # segs) = Option.bind (map_of (static_children n) s) (\<lambda>c. static_walk c segs)"

text \<open>Literal children are tried first, so a literal node with handlers is what the search finds.\<close>

lemma match_node_static:
  "static_walk n segs = Some m \<Longrightarrow> handlers m \<noteq> [] \<Longrightarrow> match_node ext n segs pr = MHit m pr"
proof (induction segs arbitrary: n)
  case Nil
  then show ?case by (cases m) (simp add: match_node_Nil)
next
  case (Cons s segs)
  then show ?case by (cases n) (auto simp: match_node_Cons bind_eq_Some_conv)
qed

end
