(* ===== verification/Route_Info.thy ===== *)
theory Route_Info
  imports Radix_Tree
begin

text \<open>
  The record of a route, after \<open>src/src/veloce/routing/route_info.py\<close> and the parts of
  \<open>routing/router.py\<close> that build, compare and classify it: \<open>MCPRouteOptions.build\<close>,
  \<open>RouteInfo.__init__\<close>, \<open>_split_exclusions\<close>, \<open>_allow_duplicate\<close>,
  \<open>_build_merged_route_info\<close> and \<open>_finalize_plans\<close>.

  A Python object the router only stores and compares (a response model, a dependency, a
  class, a schema) is a number, equal for objects that compare equal. A dictionary is an
  association list, compared without regard to order by \<open>dict_eq\<close>. Slots derived from the
  response model by libraries the source calls (\<open>response_model_origin\<close>,
  \<open>response_model_backend\<close>) and the per-request middleware cache are left out. The handler's
  and the dependencies' plans are built by \<open>_handler_plan.py\<close>, which is the parameter
  \<open>plan_env\<close> here.
\<close>

section \<open>MCP options\<close>

type_synonym pyobj = nat

definition dict_eq :: "('k, 'v) dict \<Rightarrow> ('k, 'v) dict \<Rightarrow> bool" where
  "dict_eq a b \<longleftrightarrow> list_all (\<lambda>k. map_of a k = map_of b k) (map fst a @ map fst b)"

definition opt_dict_eq :: "('k, 'v) dict option \<Rightarrow> ('k, 'v) dict option \<Rightarrow> bool" where
  "opt_dict_eq a b =
     (case (a, b) of (None, None) \<Rightarrow> True | (Some x, Some y) \<Rightarrow> dict_eq x y | _ \<Rightarrow> False)"

lemma dict_eq_map_of: "dict_eq a b \<longleftrightarrow> map_of a = map_of b"
proof
  assume eq: "dict_eq a b"
  have "map_of a k = map_of b k" for k
  proof (cases "k \<in> set (map fst a @ map fst b)")
    case True
    with eq show ?thesis unfolding dict_eq_def list_all_iff by blast
  next
    case False
    then have "map_of a k = None" "map_of b k = None" by (auto simp: map_of_eq_None_iff)
    then show ?thesis by simp
  qed
  then show "map_of a = map_of b" by blast
qed (simp add: dict_eq_def list_all_iff)

lemma dict_eq_refl [simp]: "dict_eq a a" by (simp add: dict_eq_map_of)

lemma opt_dict_eq_refl [simp]: "opt_dict_eq a a" by (simp add: opt_dict_eq_def split: option.split)

record mcp_options =
  expose_as_mcp_tool :: bool
  mcp_description :: "string option"
  expose_as_mcp_resource :: bool
  mcp_resource_uri :: "string option"
  mcp_resource_mime_type :: "string option"
  mcp_meta :: "(string, pyobj) dict option"
  mcp_resource_size :: "int option"
  mcp_resource_annotations :: "(string, pyobj) dict option"
  mcp_scopes :: "string set option"
  mcp_icons :: "pyobj list option"
  mcp_task_support :: bool

definition no_mcp :: mcp_options where
  "no_mcp = \<lparr>expose_as_mcp_tool = False, mcp_description = None, expose_as_mcp_resource = False,
     mcp_resource_uri = None, mcp_resource_mime_type = None, mcp_meta = None,
     mcp_resource_size = None, mcp_resource_annotations = None, mcp_scopes = None,
     mcp_icons = None, mcp_task_support = False\<rparr>"

text \<open>Python's truth value of an optional container, and \<open>x or None\<close> on one.\<close>

definition opt_true :: "'a list option \<Rightarrow> bool" where
  "opt_true x \<longleftrightarrow> x \<noteq> None \<and> x \<noteq> Some []"

text \<open>\<open>MCPRouteOptions.build\<close>: no record when every option is falsy.\<close>

definition mcp_build :: "mcp_options \<Rightarrow> mcp_options option" where
  "mcp_build o' =
     (if expose_as_mcp_tool o' \<or> opt_true (mcp_description o') \<or> expose_as_mcp_resource o'
         \<or> opt_true (mcp_resource_uri o') \<or> opt_true (mcp_resource_mime_type o')
         \<or> opt_true (mcp_meta o') \<or> (mcp_resource_size o' \<noteq> None \<and> mcp_resource_size o' \<noteq> Some 0)
         \<or> opt_true (mcp_resource_annotations o')
         \<or> (mcp_scopes o' \<noteq> None \<and> mcp_scopes o' \<noteq> Some {})
         \<or> opt_true (mcp_icons o') \<or> mcp_task_support o'
      then Some (o'\<lparr>mcp_scopes := (if mcp_scopes o' = Some {} then None else mcp_scopes o'),
                    mcp_icons := (if mcp_icons o' = Some [] then None else mcp_icons o')\<rparr>)
      else None)"

text \<open>The properties of \<open>RouteInfo\<close> that read the options, with the default of a missing record.\<close>

definition mcp_read :: "mcp_options option \<Rightarrow> mcp_options" where
  "mcp_read m = (case m of None \<Rightarrow> no_mcp | Some o' \<Rightarrow> o')"

definition mcp_eq :: "mcp_options \<Rightarrow> mcp_options \<Rightarrow> bool" where
  "mcp_eq a b \<longleftrightarrow>
     expose_as_mcp_tool a = expose_as_mcp_tool b \<and> mcp_description a = mcp_description b
     \<and> expose_as_mcp_resource a = expose_as_mcp_resource b
     \<and> mcp_resource_uri a = mcp_resource_uri b
     \<and> mcp_resource_mime_type a = mcp_resource_mime_type b
     \<and> opt_dict_eq (mcp_meta a) (mcp_meta b)
     \<and> mcp_resource_size a = mcp_resource_size b
     \<and> opt_dict_eq (mcp_resource_annotations a) (mcp_resource_annotations b)
     \<and> mcp_scopes a = mcp_scopes b \<and> mcp_icons a = mcp_icons b
     \<and> mcp_task_support a = mcp_task_support b"

section \<open>The route record\<close>

record pyfun =
  fn_id :: nat
  fn_name :: string
  fn_doc :: "string option"

text \<open>The slots that \<open>__init__\<close> stores as given.\<close>

record route_doc =
  deprecated :: bool
  response_description :: string
  response_model_exclude_unset :: bool
  response_model_exclude_defaults :: bool
  response_model_by_alias :: bool
  response_model_exclude_none :: bool
  include_in_schema :: bool
  operation_id :: "string option"
  openapi_extra :: "pyobj option"
  callbacks :: "pyobj option"
  subdomain :: "string option"

text \<open>The arguments of \<open>RouteInfo\<close> that \<open>__init__\<close> normalises.\<close>

record route_args =
  a_handler :: pyfun
  a_param_names :: "string list"
  a_dependencies :: "pyobj list option"
  a_response_model :: "pyobj option"
  a_tags :: "string list option"
  a_summary :: "string option"
  a_name :: "string option"
  a_path_template :: string
  a_description :: "string option"
  a_status_code :: int
  a_response_class :: "pyobj option"
  a_include :: "string set option"
  a_exclude :: "string set option"
  a_responses :: "(int, pyobj) dict option"
  a_defaults :: "(string, pyobj) dict option"
  a_host :: "string option"
  a_mcp :: mcp_options
  a_excluded :: "(string set \<times> pyobj list) option"
  a_doc :: route_doc

datatype dump_value = DTrue | DFields "string set"

record plan_slot =
  slot_kind :: nat
  slot_name :: string

record handler_plan =
  plan_slots :: "plan_slot list"
  plan_is_coro :: bool

record route_info =
  ri_handler :: pyfun
  ri_param_names :: "string list"
  ri_dependencies :: "pyobj list"
  ri_response_model :: "pyobj option"
  ri_tags :: "string list"
  ri_summary :: string
  ri_name :: string
  ri_path_template :: string
  ri_description :: string
  ri_status_code :: int
  ri_response_class :: "pyobj option"
  ri_include :: "string set option"
  ri_exclude :: "string set option"
  ri_dump_kwargs :: "(string, dump_value) dict"
  ri_responses :: "(int, pyobj) dict"
  ri_defaults :: "(string, pyobj) dict"
  ri_host :: "string option"
  ri_mcp :: "mcp_options option"
  ri_excluded :: "(string set \<times> pyobj list) option"
  ri_doc :: route_doc
  ri_plan :: "handler_plan option"
  ri_dep_plans :: "pyobj list"
  ri_trivial :: bool
  ri_request_only :: bool
  ri_request_param :: string
  ri_fast :: bool
  ri_stream :: bool
  ri_strict_slashes :: "bool option"

definition or_empty :: "'a list option \<Rightarrow> 'a list" where
  "or_empty x = (case x of None \<Rightarrow> [] | Some l \<Rightarrow> l)"

definition nonempty_set :: "'a set option \<Rightarrow> 'a set option" where
  "nonempty_set x = (if x = Some {} then None else x)"

text \<open>\<open>response_dump_kwargs\<close>: a falsy option is left out.\<close>

definition dump_kwargs :: "route_args \<Rightarrow> (string, dump_value) dict" where
  "dump_kwargs a =
     (if response_model_exclude_unset (a_doc a) then [(''exclude_unset'', DTrue)] else [])
     @ (if response_model_exclude_defaults (a_doc a) then [(''exclude_defaults'', DTrue)] else [])
     @ (if response_model_by_alias (a_doc a) then [(''by_alias'', DTrue)] else [])
     @ (if response_model_exclude_none (a_doc a) then [(''exclude_none'', DTrue)] else [])
     @ (case nonempty_set (a_include a) of None \<Rightarrow> [] | Some s \<Rightarrow> [(''include'', DFields s)])
     @ (case nonempty_set (a_exclude a) of None \<Rightarrow> [] | Some s \<Rightarrow> [(''exclude'', DFields s)])"

definition route_init :: "route_args \<Rightarrow> route_info" where
  "route_init a = \<lparr>
     ri_handler = a_handler a, ri_param_names = a_param_names a,
     ri_dependencies = or_empty (a_dependencies a), ri_response_model = a_response_model a,
     ri_tags = or_empty (a_tags a), ri_summary = or_empty (a_summary a),
     ri_name = (if opt_true (a_name a) then the (a_name a) else fn_name (a_handler a)),
     ri_path_template = a_path_template a,
     ri_description = (if opt_true (a_description a) then the (a_description a)
                       else or_empty (fn_doc (a_handler a))),
     ri_status_code = a_status_code a, ri_response_class = a_response_class a,
     ri_include = nonempty_set (a_include a), ri_exclude = nonempty_set (a_exclude a),
     ri_dump_kwargs = dump_kwargs a, ri_responses = or_empty (a_responses a),
     ri_defaults = or_empty (a_defaults a), ri_host = map_option str_lower (a_host a),
     ri_mcp = mcp_build (a_mcp a), ri_excluded = a_excluded a, ri_doc = a_doc a,
     ri_plan = None, ri_dep_plans = [], ri_trivial = False, ri_request_only = False,
     ri_request_param = ''request'', ri_fast = False, ri_stream = False,
     ri_strict_slashes = None\<rparr>"

section \<open>Exclusions, identity and classification\<close>

text \<open>An entry of \<open>exclude_middleware\<close>: a name, a \<open>Middleware\<close> subclass, anything else.\<close>

datatype exclusion = ExName string | ExType pyobj | ExOther pyobj

fun split_entries :: "exclusion list \<Rightarrow> (string set \<times> pyobj list) res" where
  "split_entries [] = Inr ({}, [])"
| "split_entries (ExName n # es) = res_bind (split_entries es) (\<lambda>(ns, ts). Inr (insert n ns, ts))"
| "split_entries (ExType t # es) = res_bind (split_entries es) (\<lambda>(ns, ts). Inr (ns, t # ts))"
| "split_entries (ExOther x # es) = Inl TypeError"

definition split_exclusions :: "exclusion list option \<Rightarrow> (string set \<times> pyobj list) option res" where
  "split_exclusions es =
     (if opt_true es then res_bind (split_entries (the es)) (\<lambda>p. Inr (Some p)) else Inr None)"

text \<open>\<open>_allow_duplicate\<close>: the same handler, and \<open>_ROUTE_IDENTITY_SLOTS\<close> compare equal.\<close>

definition allow_duplicate :: "route_info \<Rightarrow> route_info \<Rightarrow> bool" where
  "allow_duplicate e i \<longleftrightarrow>
     fn_id (ri_handler e) = fn_id (ri_handler i)
     \<and> ri_param_names e = ri_param_names i \<and> ri_dependencies e = ri_dependencies i
     \<and> ri_response_model e = ri_response_model i \<and> ri_tags e = ri_tags i
     \<and> ri_summary e = ri_summary i \<and> ri_name e = ri_name i
     \<and> ri_path_template e = ri_path_template i \<and> ri_description e = ri_description i
     \<and> ri_status_code e = ri_status_code i \<and> ri_response_class e = ri_response_class i
     \<and> ri_include e = ri_include i \<and> ri_exclude e = ri_exclude i
     \<and> ri_doc e = ri_doc i
     \<and> dict_eq (ri_responses e) (ri_responses i) \<and> dict_eq (ri_defaults e) (ri_defaults i)
     \<and> ri_host e = ri_host i \<and> mcp_eq (mcp_read (ri_mcp e)) (mcp_read (ri_mcp i))
     \<and> ri_excluded e = ri_excluded i"

record plan_env =
  build_plan :: "pyfun \<Rightarrow> bool \<Rightarrow> string list \<Rightarrow> handler_plan res"
  build_dep_plans :: "pyobj list \<Rightarrow> bool \<Rightarrow> string list \<Rightarrow> pyobj list res"

definition k_request :: nat where "k_request = 0"

text \<open>\<open>_finalize_plans\<close>, with the plan of the source route on a merge.\<close>

definition finalize_plans ::
  "plan_env \<Rightarrow> bool \<Rightarrow> handler_plan option \<Rightarrow> route_info \<Rightarrow> route_info res" where
  "finalize_plans env is_ws reuse ri =
     res_bind (case reuse of Some p \<Rightarrow> Inr p
               | None \<Rightarrow> build_plan env (ri_handler ri) is_ws (ri_param_names ri)) (\<lambda>plan.
     res_bind (build_dep_plans env (ri_dependencies ri) is_ws (ri_param_names ri)) (\<lambda>deps.
     let slots = plan_slots plan;
         trivial = (slots = [] \<and> deps = []);
         request_only = (length slots = 1 \<and> slot_kind (hd slots) = k_request \<and> deps = [])
     in Inr (ri\<lparr>ri_plan := Some plan, ri_dep_plans := deps, ri_trivial := trivial,
          ri_request_only := request_only,
          ri_request_param := (if request_only then slot_name (hd slots) else ri_request_param ri),
          ri_fast := (\<not> is_ws \<and> plan_is_coro plan \<and> (trivial \<or> request_only)
            \<and> ri_response_model ri = None \<and> ri_response_class ri = None
            \<and> ri_status_code ri = 200 \<and> subdomain (ri_doc ri) = None \<and> ri_host ri = None
            \<and> ri_defaults ri = [] \<and> ri_excluded ri = None)\<rparr>)))"

text \<open>\<open>{**router_responses, **responses}\<close>, or \<open>None\<close> when both are empty.\<close>

definition overlay_responses ::
  "(int, pyobj) dict \<Rightarrow> (int, pyobj) dict \<Rightarrow> (int, pyobj) dict option" where
  "overlay_responses base over =
     (if base = [] \<and> over = [] then None
      else Some (fold (\<lambda>(k, v) d. dict_set k v d) over base))"

definition or_class :: "pyobj option \<Rightarrow> pyobj option \<Rightarrow> pyobj option" where
  "or_class a b = (case a of None \<Rightarrow> b | Some c \<Rightarrow> Some c)"

text \<open>\<open>_build_merged_route_info\<close>: the router's dependencies, tags, responses, response class.\<close>

definition build_merged ::
  "pyobj list \<Rightarrow> string list \<Rightarrow> (int, pyobj) dict \<Rightarrow> pyobj option \<Rightarrow> route_info \<Rightarrow> string list
     \<Rightarrow> string \<Rightarrow> route_info" where
  "build_merged deps tags responses dflt_class info names full_path =
     (route_init \<lparr>
        a_handler = ri_handler info, a_param_names = names,
        a_dependencies = Some (deps @ ri_dependencies info),
        a_response_model = ri_response_model info, a_tags = Some (ri_tags info @ tags),
        a_summary = Some (ri_summary info), a_name = Some (ri_name info),
        a_path_template = full_path, a_description = Some (ri_description info),
        a_status_code = ri_status_code info,
        a_response_class = or_class (ri_response_class info) dflt_class,
        a_include = ri_include info, a_exclude = ri_exclude info,
        a_responses = overlay_responses responses (ri_responses info),
        a_defaults = Some (ri_defaults info), a_host = ri_host info,
        a_mcp = mcp_read (ri_mcp info), a_excluded = ri_excluded info, a_doc = ri_doc info\<rparr>)
       \<lparr>ri_stream := ri_stream info, ri_strict_slashes := ri_strict_slashes info\<rparr>"

lemma finalize_plans_fields:
  assumes "finalize_plans env ws reuse ri = Inr ri'"
  shows "ri_name ri' = ri_name ri" "ri_path_template ri' = ri_path_template ri"
    "ri_param_names ri' = ri_param_names ri" "ri_handler ri' = ri_handler ri"
  using assms by (auto simp: finalize_plans_def res_bind_Inr_iff Let_def)

lemma allow_duplicate_refl [simp]: "allow_duplicate i i"
  by (simp add: allow_duplicate_def mcp_eq_def)

end
