(* ===== verification/Router.thy ===== *)
theory Router
  imports Radix_Search Route_Info
begin

text \<open>
  The router, after \<open>src/src/veloce/routing/router.py\<close> and \<open>routing/_regex.py\<close>: registration
  (\<open>add_route\<close>), the merge of a sub-router (\<open>include_router\<close>), matching (\<open>match\<close>: literal map,
  tree, regex fallback), \<open>get_allowed_methods\<close> and the collection of all routes.

  An operation returns its result or exception together with the router it leaves, because
  the code mutates the router before it may raise. A handler table is named by where it is:
  a node's address in the tree or the index of a regex route. Log messages are not modelled.
  Compiling and matching a regular expression, the plans and the resolution of a handler's
  return annotation are the parameters of \<open>route_env\<close>.
\<close>

section \<open>State\<close>

record regex_route =
  rr_template :: string
  rr_pattern :: string
  rr_param_names :: "string list"
  rr_handlers :: "(string, route_info) dict"
  rr_converters :: "(string, converter) dict"
  rr_tolerant :: bool

record router =
  rt_prefix :: string
  rt_on_duplicate :: string
  rt_tags :: "string list"
  rt_response_class :: "pyobj option"
  rt_dependencies :: "pyobj list"
  rt_responses :: "(int, pyobj) dict"
  rt_root :: "route_info node"
  rt_static :: "(string \<times> string, route_info) dict option"
  rt_named :: "(string, string \<times> string list) dict"
  rt_reverse :: "(string, (string, converter) dict) dict"
  rt_regex :: "regex_route list"

text \<open>
  \<open>re_compile\<close> is \<open>re.compile\<close> reduced to the group names of the pattern in order;
  \<open>re_match\<close> is \<open>pattern.match\<close> reduced to \<open>groupdict\<close>.
\<close>

record route_env =
  env_conv :: conv_env
  env_ext :: ext_match
  env_plan :: plan_env
  re_compile :: "string \<Rightarrow> string list res"
  re_match :: "string \<Rightarrow> string \<Rightarrow> (string, string) dict option"
  env_contract :: "pyfun \<Rightarrow> pyobj option"

definition router_init ::
  "string \<Rightarrow> string list option \<Rightarrow> pyobj option \<Rightarrow> pyobj list option \<Rightarrow> (int, pyobj) dict option
     \<Rightarrow> string \<Rightarrow> router res" where
  "router_init prefix tags rclass deps responses on_duplicate =
     (if on_duplicate \<notin> {''error'', ''warn'', ''override''} then Inl ValueError
      else Inr \<lparr>rt_prefix = rstrip_char (CHR ''/'') prefix, rt_on_duplicate = on_duplicate,
        rt_tags = or_empty tags, rt_response_class = rclass, rt_dependencies = or_empty deps,
        rt_responses = or_empty responses, rt_root = empty_node, rt_static = None,
        rt_named = [], rt_reverse = [], rt_regex = []\<rparr>)"

text \<open>Steps on the router that return a result: the exception stops, the state stays.\<close>

type_synonym 'a step_res = "'a res \<times> router"

definition and_then :: "'a step_res \<Rightarrow> ('a \<Rightarrow> router \<Rightarrow> 'b step_res) \<Rightarrow> 'b step_res" where
  "and_then x f = (case x of (Inl e, r) \<Rightarrow> (Inl e, r) | (Inr v, r) \<Rightarrow> f v r)"

lemma and_then_simps [simp]:
  "and_then (Inl e, r) f = (Inl e, r)" "and_then (Inr v, r) f = f v r"
  by (simp_all add: and_then_def)

lemma and_then_cong [fundef_cong]:
  "x = x' \<Longrightarrow> (\<And>v r. x' = (Inr v, r) \<Longrightarrow> f v r = g v r) \<Longrightarrow> and_then x f = and_then x' g"
  by (auto simp: and_then_def split: prod.split sum.split)

lemma and_then_Inr_iff:
  "and_then x f = (Inr y, r') \<longleftrightarrow> (\<exists>v r. x = (Inr v, r) \<and> f v r = (Inr y, r'))"
  by (auto simp: and_then_def split: prod.splits sum.splits)

lemma and_then_Inl_iff:
  "and_then x f = (Inl e, r') \<longleftrightarrow> x = (Inl e, r') \<or> (\<exists>v r. x = (Inr v, r) \<and> f v r = (Inl e, r'))"
  by (auto simp: and_then_def split: prod.splits sum.splits)

section \<open>Handler tables\<close>

datatype table = TreeTable "step list" | RegexTable nat

definition handlers_at :: "router \<Rightarrow> table \<Rightarrow> (string, route_info) dict" where
  "handlers_at r t =
     (case t of
        TreeTable a \<Rightarrow> (case node_at a (rt_root r) of None \<Rightarrow> [] | Some n \<Rightarrow> handlers n)
      | RegexTable i \<Rightarrow> (if i < length (rt_regex r) then rr_handlers (rt_regex r ! i) else []))"

definition put_handler :: "table \<Rightarrow> string \<Rightarrow> route_info \<Rightarrow> router \<Rightarrow> router" where
  "put_handler t m info r =
     (case t of
        TreeTable a \<Rightarrow>
          r\<lparr>rt_root := update_at a (\<lambda>n. set_handlers (dict_set m info (handlers n)) n) (rt_root r)\<rparr>
      | RegexTable i \<Rightarrow>
          (if i < length (rt_regex r) then
             r\<lparr>rt_regex := (rt_regex r)[i := (rt_regex r ! i)
                 \<lparr>rr_handlers := dict_set m info (rr_handlers (rt_regex r ! i))\<rparr>]\<rparr>
           else r))"

text \<open>\<open>_iter_live_handlers\<close>: every handler with the table it is in.\<close>

fun live_node :: "step list \<Rightarrow> 'i node \<Rightarrow> (step list \<times> string \<times> 'i) list" where
  "live_node a (Node st ps w hs fl) =
     map (\<lambda>(m, i). (a, m, i)) hs
     @ concat (map (\<lambda>(s, c). live_node (a @ [SStatic s]) c) st)
     @ concat (map (\<lambda>(k, c). live_node (a @ [SParam (index_key k)]) c) ps)
     @ (case w of None \<Rightarrow> [] | Some c \<Rightarrow> live_node (a @ [SWild]) c)"

definition live_handlers :: "router \<Rightarrow> (table \<times> string \<times> route_info) list" where
  "live_handlers r =
     map (\<lambda>(a, m, i). (TreeTable a, m, i)) (live_node [] (rt_root r))
     @ concat (map (\<lambda>(j, rr). map (\<lambda>(m, i). (RegexTable j, m, i)) (rr_handlers rr))
         (enumerate 0 (rt_regex r)))"

definition name_still_live :: "router \<Rightarrow> string \<Rightarrow> table \<Rightarrow> string \<Rightarrow> bool" where
  "name_still_live r name t m \<longleftrightarrow>
     list_ex (\<lambda>(t', m', i). \<not> (t' = t \<and> m' = m) \<and> ri_name i = name) (live_handlers r)"

definition drop_replaced_name ::
  "route_info \<Rightarrow> string \<Rightarrow> table \<Rightarrow> string \<Rightarrow> router \<Rightarrow> router" where
  "drop_replaced_name replaced winning t m r =
     (let old = ri_name replaced in
      if old = [] \<or> old = winning then r
      else if name_still_live r old t m then r
      else r\<lparr>rt_named := dict_del old (rt_named r), rt_reverse := dict_del old (rt_reverse r)\<rparr>)"

text \<open>\<open>_on_duplicate_route\<close>, with \<open>warn\<close> only logging.\<close>

definition on_duplicate_route :: "string \<Rightarrow> unit res" where
  "on_duplicate_route policy =
     (if policy = ''override'' then Inr () else if policy = ''warn'' then Inr ()
      else Inl DuplicateRouteError)"

section \<open>Registration\<close>

definition py_keywords :: "string list" where
  "py_keywords = [''False'', ''None'', ''True'', ''and'', ''as'', ''assert'', ''async'', ''await'',
     ''break'', ''class'', ''continue'', ''def'', ''del'', ''elif'', ''else'', ''except'',
     ''finally'', ''for'', ''from'', ''global'', ''if'', ''import'', ''in'', ''is'', ''lambda'',
     ''nonlocal'', ''not'', ''or'', ''pass'', ''raise'', ''return'', ''try'', ''while'', ''with'',
     ''yield'']"

text \<open>\<open>_check_duplicate_params\<close>.\<close>

fun check_names :: "string list \<Rightarrow> placeholder list \<Rightarrow> unit res" where
  "check_names seen [] = Inr ()"
| "check_names seen (p # ps) =
     (if \<not> str_isidentifier (ph_name p) \<or> ph_name p \<in> set py_keywords then Inl ValueError
      else if ph_name p \<in> set seen then Inl ValueError
      else check_names (ph_name p # seen) ps)"

definition check_duplicate_params :: "string \<Rightarrow> unit res" where
  "check_duplicate_params full_path = check_names [] (iter_placeholders full_path)"

text \<open>\<open>_insert_path_into_tree\<close> at the root; it drops the literal map first.\<close>

definition insert_into_tree :: "route_env \<Rightarrow> string \<Rightarrow> router \<Rightarrow> (step list \<times> string list) step_res" where
  "insert_into_tree env path r =
     (let (res, root) = insert_path (env_conv env) (split_path path) (rt_root r)
      in (res, r\<lparr>rt_static := None, rt_root := root\<rparr>))"

text \<open>\<open>re.escape\<close> on Latin-1 text, and \<open>build_route_regex\<close>.\<close>

definition re_special :: "char \<Rightarrow> bool" where
  "re_special c \<longleftrightarrow> c \<in> set ''()[]{}?*+-|^$.&~# '' \<or> code c \<in> {92, 9, 10, 11, 12, 13}"

definition re_escape :: "string \<Rightarrow> string" where
  "re_escape s = concat (map (\<lambda>c. if re_special c then [CHR 0x5C, c] else [c]) s)"

text \<open>\<open>_BUILTIN_REGEX\<close>; \<open>rx_d\<close> is the class of digits.\<close>

definition rx_d :: string where "rx_d = [CHR 0x5C, CHR ''d'']"

definition rx_dot :: string where "rx_dot = [CHR 0x5C, CHR ''.'']"

definition rx_hex :: "string \<Rightarrow> string" where "rx_hex n = ''[0-9a-fA-F]{'' @ n @ ''}''"

definition builtin_regex :: "(string \<times> string) list" where
  "builtin_regex = [
     (''str'', ''[^/]+''), (''string'', ''[^/]+''), (''int'', ''-?'' @ rx_d @ ''+''),
     (''float'', ''[+-]?(?:'' @ rx_d @ ''+'' @ rx_dot @ rx_d @ ''*|'' @ rx_dot @ rx_d @ ''+)''),
     (''uuid'', rx_hex ''8'' @ ''-'' @ rx_hex ''4'' @ ''-'' @ rx_hex ''4'' @ ''-'' @ rx_hex ''4''
        @ ''-'' @ rx_hex ''12''),
     (''path'', ''.+''),
     (''date'', rx_d @ ''{4}-'' @ rx_d @ ''{2}-'' @ rx_d @ ''{2}''),
     (''datetime'', rx_d @ ''{4}-'' @ rx_d @ ''{2}-'' @ rx_d @ ''{2}[T ]['' @ rx_d @ '':.]+(?:[+-]['' @ rx_d
        @ '':]+|Z)?''),
     (''time'', rx_d @ ''{2}:'' @ rx_d @ ''{2}(?::'' @ rx_d @ ''{2}(?:'' @ rx_dot @ rx_d
        @ ''+)?)?(?:[+-]['' @ rx_d @ '':]+|Z)?''),
     (''timedelta'', ''P(?:'' @ rx_d @ ''+D)?(?:T(?:'' @ rx_d @ ''+H)?(?:'' @ rx_d @ ''+M)?(?:'' @ rx_d
        @ ''+(?:'' @ rx_dot @ rx_d @ ''+)?S)?)?''),
     (''decimal'', ''[+-]?'' @ rx_d @ ''+(?:'' @ rx_dot @ rx_d @ ''+)?'')]"

definition emit_placeholder :: "placeholder \<Rightarrow> string" where
  "emit_placeholder p =
     ''(?P<'' @ ph_name p @ ''>'' @
     (case ph_spec p of
        None \<Rightarrow> ''[^/]+''
      | Some conv \<Rightarrow>
          (case map_of builtin_regex conv of
             Some frag \<Rightarrow> frag
           | None \<Rightarrow>
               if is_any_spec conv then
                 join_on (CHR ''|'')
                   (map (\<lambda>c. re_escape (str_strip c)) (split_on (CHR '','') (drop 4 (butlast conv))))
               else
                 (case param_spec conv of
                    Some (name, body) \<Rightarrow>
                      if name \<in> set parametrized_names
                      then (case map_of builtin_regex name of Some frag \<Rightarrow> frag | None \<Rightarrow> conv)
                      else conv
                  | None \<Rightarrow> conv))) @ '')''"

fun regex_parts :: "string \<Rightarrow> nat \<Rightarrow> placeholder list \<Rightarrow> string" where
  "regex_parts path pos [] = re_escape (drop pos path)"
| "regex_parts path pos (p # ps) =
     re_escape (take (ph_start p - pos) (drop pos path)) @ emit_placeholder p
     @ regex_parts path (ph_end p) ps"

definition build_route_regex :: "string \<Rightarrow> string" where
  "build_route_regex path = ''^'' @ regex_parts path 0 (iter_placeholders path) @ ''$''"

text \<open>\<open>_get_or_create_regex_route\<close>: the index by template is a search of the list.\<close>

definition find_regex :: "string \<Rightarrow> regex_route list \<Rightarrow> nat option" where
  "find_regex path rrs =
     map_option fst (find (\<lambda>(i, rr). rr_template rr = path) (enumerate 0 rrs))"

definition get_or_create_regex :: "route_env \<Rightarrow> string \<Rightarrow> router \<Rightarrow> (nat \<times> string list) step_res" where
  "get_or_create_regex env path r =
     (case find_regex path (rt_regex r) of
        Some i \<Rightarrow> (Inr (i, rr_param_names (rt_regex r ! i)), r)
      | None \<Rightarrow>
          (case re_compile env (build_route_regex path) of
             Inl e \<Rightarrow> (Inl e, r)
           | Inr names \<Rightarrow>
               (case extract_regex_converters (env_conv env) path of
                  Inl e \<Rightarrow> (Inl e, r)
                | Inr convs \<Rightarrow>
                    (Inr (length (rt_regex r), names),
                     r\<lparr>rt_regex := rt_regex r @ [\<lparr>rr_template = path,
                         rr_pattern = build_route_regex path, rr_param_names = names,
                         rr_handlers = [], rr_converters = convs, rr_tolerant = False\<rparr>]\<rparr>))))"

definition set_regex_tolerant :: "nat \<Rightarrow> router \<Rightarrow> router" where
  "set_regex_tolerant i r =
     r\<lparr>rt_regex := (rt_regex r)[i := (rt_regex r ! i)\<lparr>rr_tolerant := True\<rparr>]\<rparr>"

text \<open>The slash flags a registration adds to the leaf, and \<open>_classify_route_path\<close>.\<close>

definition add_flags :: "bool \<Rightarrow> bool \<Rightarrow> bool \<Rightarrow> 'i node \<Rightarrow> 'i node" where
  "add_flags trailing unslashed tolerant n =
     set_slash (Slash (trailing_slash (slash n) \<or> trailing)
       (unslashed_variant (slash n) \<or> unslashed) (tolerant_slash (slash n) \<or> tolerant)) n"

definition classify_route_path ::
  "route_env \<Rightarrow> string \<Rightarrow> bool option \<Rightarrow> router \<Rightarrow> (table \<times> string list) step_res" where
  "classify_route_path env path strict r =
     (case is_regex_path (env_conv env) path of
        Inl e \<Rightarrow> (Inl e, r)
      | Inr True \<Rightarrow>
          and_then (get_or_create_regex env path r) (\<lambda>(i, names) r1.
            (Inr (RegexTable i, names),
             if strict = Some False then set_regex_tolerant i r1 else r1))
      | Inr False \<Rightarrow>
          and_then (insert_into_tree env path r) (\<lambda>(a, names) r1.
            (Inr (TreeTable a, names),
             r1\<lparr>rt_root := update_at a
                 (add_flags (has_trailing_slash path) (\<not> has_trailing_slash path)
                   (strict = Some False)) (rt_root r1)\<rparr>)))"

text \<open>\<open>_commit_route_methods\<close>: the first pass only reads.\<close>

fun commit_check ::
  "string \<Rightarrow> (string, route_info) dict \<Rightarrow> route_info \<Rightarrow> string list
     \<Rightarrow> (string \<times> route_info) list res" where
  "commit_check policy tbl info [] = Inr []"
| "commit_check policy tbl info (m # ms) =
     (case map_of tbl (str_upper m) of
        None \<Rightarrow> commit_check policy tbl info ms
      | Some existing \<Rightarrow>
          if allow_duplicate existing info then commit_check policy tbl info ms
          else res_bind (on_duplicate_route policy) (\<lambda>_.
                 res_bind (commit_check policy tbl info ms) (\<lambda>rs.
                   Inr ((str_upper m, existing) # rs))))"

definition commit_route_methods ::
  "string list \<Rightarrow> table \<Rightarrow> route_info \<Rightarrow> string \<Rightarrow> router \<Rightarrow> unit step_res" where
  "commit_route_methods methods t info name r =
     (case commit_check (rt_on_duplicate r) (handlers_at r t) info methods of
        Inl e \<Rightarrow> (Inl e, r)
      | Inr replaceable \<Rightarrow>
          (let r1 = fold (\<lambda>(m, existing). drop_replaced_name existing name t m) replaceable r
           in (Inr (), fold (\<lambda>m. put_handler t (str_upper m) info) methods r1)))"

text \<open>The arguments of \<open>add_route\<close> beside the path and the methods.\<close>

record add_args =
  aa_route :: route_args
  aa_infer_model :: bool
  aa_strict_slashes :: "bool option"
  aa_exclude :: "exclusion list option"
  aa_stream :: bool

definition add_route_info ::
  "route_env \<Rightarrow> router \<Rightarrow> string \<Rightarrow> string list \<Rightarrow> add_args \<Rightarrow> route_info res" where
  "add_route_info env r full_path names a =
     res_bind (split_exclusions (aa_exclude a)) (\<lambda>excl.
     let ra = aa_route a in
     Inr ((route_init (ra\<lparr>
        a_param_names := names,
        a_dependencies := Some (rt_dependencies r @ or_empty (a_dependencies ra)),
        a_response_model := (if aa_infer_model a then env_contract env (a_handler ra)
                             else a_response_model ra),
        a_tags := Some (or_empty (a_tags ra) @ rt_tags r),
        a_path_template := full_path,
        a_response_class := or_class (a_response_class ra) (rt_response_class r),
        a_responses := overlay_responses (rt_responses r) (or_empty (a_responses ra)),
        a_excluded := excl\<rparr>))
      \<lparr>ri_stream := aa_stream a, ri_strict_slashes := aa_strict_slashes a\<rparr>))"

definition set_named :: "string \<Rightarrow> string \<Rightarrow> string list \<Rightarrow> router \<Rightarrow> router" where
  "set_named name path names r =
     r\<lparr>rt_named := dict_set name (path, names) (rt_named r), rt_reverse := dict_del name (rt_reverse r)\<rparr>"

definition is_websocket :: "string \<Rightarrow> bool" where
  "is_websocket m \<longleftrightarrow> str_upper m = ''WEBSOCKET''"

definition add_route ::
  "route_env \<Rightarrow> string \<Rightarrow> string list \<Rightarrow> add_args \<Rightarrow> router \<Rightarrow> unit step_res" where
  "add_route env path methods a r =
     (let full_path = rt_prefix r @ path in
      case check_duplicate_params full_path of
        Inl e \<Rightarrow> (Inl e, r)
      | Inr _ \<Rightarrow>
          and_then (classify_route_path env full_path (aa_strict_slashes a) r) (\<lambda>(t, names) r1.
            case res_bind (add_route_info env r1 full_path names a)
                   (finalize_plans (env_plan env) (list_ex is_websocket methods) None) of
              Inl e \<Rightarrow> (Inl e, r1)
            | Inr info \<Rightarrow>
                (let name = (if opt_true (a_name (aa_route a)) then the (a_name (aa_route a))
                             else fn_name (a_handler (aa_route a))) in
                 and_then (commit_route_methods methods t info name r1) (\<lambda>_ r2.
                   (Inr (), set_named name full_path names r2)))))"

section \<open>Merging a sub-router\<close>

definition commit_merged_method ::
  "table \<Rightarrow> string \<Rightarrow> route_info \<Rightarrow> string \<Rightarrow> string \<Rightarrow> string list \<Rightarrow> router \<Rightarrow> unit step_res" where
  "commit_merged_method t m info name path names r =
     (case map_of (handlers_at r t) m of
        Some existing \<Rightarrow>
          (if allow_duplicate existing info
           then (Inr (), set_named name path names (put_handler t m info r))
           else (case on_duplicate_route (rt_on_duplicate r) of
                   Inl e \<Rightarrow> (Inl e, r)
                 | Inr _ \<Rightarrow>
                     (Inr (), set_named name path names
                       (put_handler t m info (drop_replaced_name existing name t m r)))))
      | None \<Rightarrow> (Inr (), set_named name path names (put_handler t m info r)))"

definition merged_info ::
  "route_env \<Rightarrow> router \<Rightarrow> string \<Rightarrow> route_info \<Rightarrow> string list \<Rightarrow> string \<Rightarrow> route_info res" where
  "merged_info env r m info names path =
     finalize_plans (env_plan env) (is_websocket m) (ri_plan info)
       (build_merged (rt_dependencies r) (rt_tags r) (rt_responses r) (rt_response_class r)
          info names path)"

definition merge_path :: "string \<Rightarrow> string list \<Rightarrow> string" where
  "merge_path prefix segs =
     (let seg_path = join_on (CHR ''/'') segs in
      if seg_path \<noteq> [] then prefix @ ''/'' @ seg_path
      else if prefix \<noteq> [] then prefix else ''/'')"

fun merge_methods ::
  "route_env \<Rightarrow> string \<Rightarrow> slash_flags \<Rightarrow> (string \<times> route_info) list \<Rightarrow> router \<Rightarrow> unit step_res" where
  "merge_methods env path fl [] r = (Inr (), r)"
| "merge_methods env path fl ((m, info) # hs) r =
     and_then (insert_into_tree env path r) (\<lambda>(a, names) r1.
       case merged_info env r1 m info names path of
         Inl e \<Rightarrow> (Inl e, r1)
       | Inr info' \<Rightarrow>
           (let r2 = r1\<lparr>rt_root := update_at a
                (add_flags (trailing_slash fl) (unslashed_variant fl) (tolerant_slash fl)) (rt_root r1)\<rparr>
            in and_then (commit_merged_method (TreeTable a) m info' (ri_name info) path names r2)
                 (\<lambda>_. merge_methods env path fl hs)))"

fun merge_node :: "route_env \<Rightarrow> string \<Rightarrow> string list \<Rightarrow> route_info node \<Rightarrow> router \<Rightarrow> unit step_res"
  and merge_static ::
    "route_env \<Rightarrow> string \<Rightarrow> string list \<Rightarrow> (string \<times> route_info node) list \<Rightarrow> router \<Rightarrow> unit step_res"
  and merge_params ::
    "route_env \<Rightarrow> string \<Rightarrow> string list \<Rightarrow> (pkey \<times> route_info node) list \<Rightarrow> router \<Rightarrow> unit step_res" where
  "merge_node env prefix segs (Node st ps w hs fl) r =
     and_then (merge_methods env (merge_path prefix segs) fl hs r) (\<lambda>_ r1.
     and_then (merge_static env prefix segs st r1) (\<lambda>_ r2.
     and_then (merge_params env prefix segs ps r2) (\<lambda>_ r3.
       case w of None \<Rightarrow> (Inr (), r3) | Some c \<Rightarrow> merge_node env prefix (segs @ [''*'']) c r3)))"
| "merge_static env prefix segs [] r = (Inr (), r)"
| "merge_static env prefix segs ((s, c) # st) r =
     and_then (merge_node env prefix (segs @ [s]) c r) (\<lambda>_. merge_static env prefix segs st)"
| "merge_params env prefix segs [] r = (Inr (), r)"
| "merge_params env prefix segs ((k, c) # ps) r =
     and_then (merge_node env prefix (segs @ [pk_segment k]) c r) (\<lambda>_. merge_params env prefix segs ps)"

fun merge_regex_methods ::
  "route_env \<Rightarrow> string \<Rightarrow> nat \<Rightarrow> string list \<Rightarrow> (string \<times> route_info) list \<Rightarrow> router \<Rightarrow> unit step_res" where
  "merge_regex_methods env path i names [] r = (Inr (), r)"
| "merge_regex_methods env path i names ((m, info) # hs) r =
     (case merged_info env r m info names path of
        Inl e \<Rightarrow> (Inl e, r)
      | Inr info' \<Rightarrow>
          and_then (commit_merged_method (RegexTable i) m info' (ri_name info) path names r)
            (\<lambda>_. merge_regex_methods env path i names hs))"

fun merge_regex_routes :: "route_env \<Rightarrow> string \<Rightarrow> regex_route list \<Rightarrow> router \<Rightarrow> unit step_res" where
  "merge_regex_routes env prefix [] r = (Inr (), r)"
| "merge_regex_routes env prefix (src # srcs) r =
     and_then (get_or_create_regex env (prefix @ rr_template src) r) (\<lambda>(i, names) r1.
     let r2 = (if rr_tolerant src then set_regex_tolerant i r1 else r1) in
     and_then (merge_regex_methods env (prefix @ rr_template src) i names (rr_handlers src) r2)
       (\<lambda>_. merge_regex_routes env prefix srcs))"

definition include_router :: "route_env \<Rightarrow> router \<Rightarrow> string \<Rightarrow> router \<Rightarrow> unit step_res" where
  "include_router env src prefix r =
     (let extra = rstrip_char (CHR ''/'') prefix in
      and_then (merge_node env extra [] (rt_root src) r) (\<lambda>_.
        merge_regex_routes env extra (rt_regex src)))"

section \<open>Matching\<close>

definition regex_route_match :: "route_env \<Rightarrow> regex_route \<Rightarrow> string \<Rightarrow> (string, string) dict option" where
  "regex_route_match env rr path =
     (case re_match env (rr_pattern rr) path of
        Some g \<Rightarrow> Some g
      | None \<Rightarrow>
          if rr_tolerant rr
          then re_match env (rr_pattern rr)
                 (if has_trailing_slash path then butlast path else path @ ''/'')
          else None)"

fun coerce_regex_params ::
  "ext_match \<Rightarrow> (string, converter) dict \<Rightarrow> (string, string) dict \<Rightarrow> params option res" where
  "coerce_regex_params ext convs [] = Inr (Some [])"
| "coerce_regex_params ext convs ((name, value) # g) =
     (case map_of convs name of
        None \<Rightarrow> map_sum id (map_option (Cons (name, PStr value))) (coerce_regex_params ext convs g)
      | Some conv \<Rightarrow>
          res_bind (conv_match ext conv value) (\<lambda>v.
            case v of
              None \<Rightarrow> Inr None
            | Some x \<Rightarrow> map_sum id (map_option (Cons (name, x))) (coerce_regex_params ext convs g)))"

text \<open>The lookup of \<open>_match_regex\<close>, by the upper-case method.\<close>

definition lookup_upper :: "(string, 'i) dict \<Rightarrow> string \<Rightarrow> 'i option" where
  "lookup_upper hs upper =
     (case map_of hs upper of
        Some i \<Rightarrow> Some i
      | None \<Rightarrow> if upper = ''HEAD'' then map_of hs ''GET'' else None)"

fun match_regex ::
  "route_env \<Rightarrow> string \<Rightarrow> string \<Rightarrow> regex_route list \<Rightarrow> (route_info \<times> params) option res" where
  "match_regex env method path [] = Inr None"
| "match_regex env method path (rr # rrs) =
     (case regex_route_match env rr path of
        None \<Rightarrow> match_regex env method path rrs
      | Some g \<Rightarrow>
          (case lookup_upper (rr_handlers rr) (str_upper method) of
             None \<Rightarrow> match_regex env method path rrs
           | Some info \<Rightarrow>
               res_bind (coerce_regex_params (env_ext env) (rr_converters rr) g) (\<lambda>p.
                 case p of
                   None \<Rightarrow> match_regex env method path rrs
                 | Some params \<Rightarrow> Inr (Some (info, params)))))"

text \<open>The dispatch without the literal map, and \<open>match\<close> with it.\<close>

definition dispatch :: "route_env \<Rightarrow> string \<Rightarrow> string \<Rightarrow> router \<Rightarrow> (route_info \<times> params) option res" where
  "dispatch env method path r =
     res_bind (match_tree (env_ext env) (rt_root r) method path) (\<lambda>m.
       case m of
         Some x \<Rightarrow> Inr (Some x)
       | None \<Rightarrow> if rt_regex r \<noteq> [] then match_regex env method path (rt_regex r) else Inr None)"

definition static_map :: "router \<Rightarrow> (string \<times> string, route_info) dict" where
  "static_map r = (case rt_static r of Some m \<Rightarrow> m | None \<Rightarrow> build_static_routes (rt_root r))"

definition match_route ::
  "route_env \<Rightarrow> string \<Rightarrow> string \<Rightarrow> router \<Rightarrow> (route_info \<times> params) option step_res" where
  "match_route env method path r =
     (let smap = static_map r; r1 = r\<lparr>rt_static := Some smap\<rparr> in
      case map_of smap (method, path) of
        Some info \<Rightarrow> (Inr (Some (info, [])), r1)
      | None \<Rightarrow> (dispatch env method path r1, r1))"

text \<open>\<open>get_allowed_methods\<close>: an ordered set of methods.\<close>

fun regex_methods ::
  "route_env \<Rightarrow> string \<Rightarrow> regex_route list \<Rightarrow> string list \<Rightarrow> string list res" where
  "regex_methods env path [] acc = Inr acc"
| "regex_methods env path (rr # rrs) acc =
     (case regex_route_match env rr path of
        None \<Rightarrow> regex_methods env path rrs acc
      | Some g \<Rightarrow>
          res_bind (coerce_regex_params (env_ext env) (rr_converters rr) g) (\<lambda>p.
            case p of
              None \<Rightarrow> regex_methods env path rrs acc
            | Some params \<Rightarrow>
                regex_methods env path rrs
                  (acc @ filter (\<lambda>m. m \<notin> set acc) (map fst (rr_handlers rr)))))"

definition get_allowed_methods :: "route_env \<Rightarrow> string \<Rightarrow> router \<Rightarrow> string list res" where
  "get_allowed_methods env path r =
     (case match_node (env_ext env) (rt_root r) (split_path path) [] of
        MErr e \<Rightarrow> Inl e
      | MHit n pr \<Rightarrow>
          regex_methods env path (rt_regex r)
            (if handlers n \<noteq> [] \<and> \<not> slash_mismatch n (has_trailing_slash path)
             then map fst (handlers n) else [])
      | MMiss pr \<Rightarrow> regex_methods env path (rt_regex r) [])"

section \<open>Introspection\<close>

text \<open>\<open>_path_shape\<close>: every \<open>{...}\<close> without braces inside becomes \<open>{}\<close>.\<close>

function path_shape :: "string \<Rightarrow> string" where
  "path_shape [] = []"
| "path_shape (c # s) =
     (let body = takeWhile (\<lambda>x. x \<noteq> CHR ''{'' \<and> x \<noteq> CHR ''}'') s;
          rest = dropWhile (\<lambda>x. x \<noteq> CHR ''{'' \<and> x \<noteq> CHR ''}'') s
      in if c = CHR ''{'' \<and> rest \<noteq> [] \<and> hd rest = CHR ''}''
         then ''{}'' @ path_shape (tl rest) else c # path_shape s)"
  by pat_completeness auto
termination
proof (relation "measure length")
  fix c :: char and s x xa
  assume "xa = dropWhile (\<lambda>x. x \<noteq> CHR ''{'' \<and> x \<noteq> CHR ''}'') s"
  then have "length xa \<le> length s" by (simp add: length_dropWhile_le)
  then show "(tl xa, c # s) \<in> measure length" by simp
qed auto

definition is_listed :: "bool \<Rightarrow> string \<Rightarrow> route_info \<Rightarrow> bool" where
  "is_listed hidden m info \<longleftrightarrow> hidden \<or> m \<noteq> ''WEBSOCKET'' \<and> include_in_schema (ri_doc info)"

fun walk_tree ::
  "bool \<Rightarrow> string list \<Rightarrow> route_info node \<Rightarrow> (string \<times> string \<times> route_info) list" where
  "walk_tree hidden parts (Node st ps w hs fl) =
     (let path = (if parts \<noteq> [] then ''/'' @ join_on (CHR ''/'') parts else ''/'') in
      map (\<lambda>(m, i). (m, path, i)) (filter (\<lambda>(m, i). is_listed hidden m i) hs))
     @ concat (map (\<lambda>(s, c). walk_tree hidden (parts @ [s]) c) st)
     @ concat (map (\<lambda>(k, c). walk_tree hidden (parts @ [''{'' @ pk_name k @ ''}'']) c) ps)
     @ (case w of None \<Rightarrow> [] | Some c \<Rightarrow> walk_tree hidden (parts @ [''{path}'']) c)"

definition collect_all_routes :: "bool \<Rightarrow> router \<Rightarrow> (string \<times> string \<times> route_info) list" where
  "collect_all_routes hidden r =
     (let tree = walk_tree hidden [] (rt_root r);
          owned = (if hidden then [] else map (\<lambda>(m, p, i). (m, path_shape p)) tree)
      in tree @ concat (map (\<lambda>rr.
           let path = openapi_path_from_template (rr_template rr) in
           map (\<lambda>(m, i). (m, path, i))
             (filter (\<lambda>(m, i). is_listed hidden m i \<and> (m, path_shape path) \<notin> set owned)
               (rr_handlers rr))) (rt_regex r)))"

end
