(* ===== verification/Radix_Wf.thy ===== *)
theory Radix_Wf
  imports Radix_Search "HOL-Library.Multiset"
begin

text \<open>
  The shape every tree the router builds has (\<open>wf_tree\<close>), that insertion and the changes at a
  leaf keep it, what insertion leaves of the rest of the tree, and the map of literal routes
  against the search.
\<close>

section \<open>Paths and segments\<close>

definition path_of :: "string list \<Rightarrow> string" where
  "path_of segs = concat (map (\<lambda>s. CHR ''/'' # s) segs)"

lemma path_of_simps [simp]:
  "path_of [] = []" "path_of (s # segs) = CHR ''/'' # s @ path_of segs"
  "path_of (segs @ [s]) = path_of segs @ CHR ''/'' # s"
  by (simp_all add: path_of_def)

lemma split_on_path_of:
  "\<forall>s \<in> set segs. CHR ''/'' \<notin> set s \<Longrightarrow> split_on (CHR ''/'') (path_of segs) = [] # segs"
proof (induction segs)
  case (Cons s segs)
  have "split_on (CHR ''/'') (s @ path_of segs) = s # segs" if "CHR ''/'' \<notin> set s" for s
    using that
  proof (induction s)
    case Nil
    then show ?case using Cons by simp
  next
    case (Cons c s)
    then show ?case by auto
  qed
  with Cons.prems show ?case by simp
qed simp

lemma split_path_path_of:
  assumes "\<forall>s \<in> set segs. CHR ''/'' \<notin> set s" "segs \<noteq> [] \<Longrightarrow> last segs \<noteq> []"
  shows "split_path (path_of segs) = segs"
  unfolding split_path_def split_on_path_of [OF assms(1)] Let_def
  using assms(2) by (cases segs) simp_all

lemma split_path_no_sep: "s \<in> set (split_path p) \<Longrightarrow> CHR ''/'' \<notin> set s"
  unfolding split_path_def Let_def by (meson in_set_dropD in_set_takeD split_on_no_sep)

lemma ends_with_last: "p \<noteq> [] \<Longrightarrow> ends_with [c] p \<longleftrightarrow> last p = c"
  by (induction p rule: rev_induct) (simp_all add: ends_with_def)

lemma last_split_on: "p \<noteq> [] \<Longrightarrow> last (split_on d p) = [] \<longleftrightarrow> last p = d"
proof (induction p)
  case (Cons c p)
  show ?case
  proof (cases "p = []")
    case True
    then show ?thesis by simp
  next
    case False
    then have ih: "last (split_on d p) = [] \<longleftrightarrow> last p = d" using Cons.IH by simp
    obtain x xs where x: "split_on d p = x # xs" by (cases "split_on d p") simp_all
    show ?thesis
    proof (cases "c = d")
      case True
      with ih x False show ?thesis by simp
    next
      case neq: False
      show ?thesis
      proof (cases xs)
        case Nil
        have "d \<notin> set p"
          using length_split_on [of d p] x Nil by (simp add: filter_empty_conv) blast
        with False have "last p \<noteq> d" using last_in_set by metis
        with neq x Nil False show ?thesis by simp
      next
        case (Cons y ys)
        with neq ih x False show ?thesis by simp
      qed
    qed
  qed
qed simp

text \<open>A path whose last segment is empty was written with a trailing slash.\<close>

lemma split_path_last_empty:
  assumes "split_path p \<noteq> []" "last (split_path p) = []"
  shows "has_trailing_slash p"
proof -
  let ?parts = "split_on (CHR ''/'') p"
  have p: "p \<noteq> []" "p \<noteq> ''/''" using assms(1) by (auto simp: split_path_def)
  have "last ?parts = []"
  proof (rule ccontr)
    assume n: "last ?parts \<noteq> []"
    then have "split_path p = drop (if hd ?parts = [] then 1 else 0) ?parts"
      by (simp add: split_path_def)
    with assms n show False by (auto split: if_splits)
  qed
  with p show ?thesis by (simp add: has_trailing_slash_def last_split_on ends_with_last)
qed

section \<open>Well-formed trees\<close>

text \<open>
  The literal children are a dictionary keyed by segments, the parameter children are indexed
  by distinct keys, and a node reached by an empty segment (a path ending in two slashes)
  has handlers only with the trailing-slash flag; the flag \<open>e\<close> says the node is one.
\<close>

definition seg_ok :: "pkey \<Rightarrow> bool" where
  "seg_ok k \<longleftrightarrow> pk_segment k \<noteq> [] \<and> CHR ''/'' \<notin> set (pk_segment k)"

fun wf_tree :: "bool \<Rightarrow> 'i node \<Rightarrow> bool" where
  "wf_tree e (Node st ps w hs fl) \<longleftrightarrow>
     dict_ok st \<and> dict_ok hs \<and> distinct (map (\<lambda>(k, c). index_key k) ps)
     \<and> (e \<longrightarrow> hs \<noteq> [] \<longrightarrow> trailing_slash fl)
     \<and> list_all (\<lambda>(s, c). CHR ''/'' \<notin> set s \<and> wf_tree (s = []) c) st
     \<and> list_all (\<lambda>(k, c). seg_ok k \<and> wf_tree False c) ps
     \<and> (case w of None \<Rightarrow> True | Some c \<Rightarrow> wf_tree False c)"

lemma wf_empty [simp]: "wf_tree e empty_node"
  by (simp add: empty_node_def dict_ok_def)

lemma wf_mono: "wf_tree e n \<Longrightarrow> wf_tree False n"
  by (cases n) simp

lemma wf_static_child:
  "wf_tree e (Node st ps w hs fl) \<Longrightarrow> map_of st s = Some c \<Longrightarrow> wf_tree (s = []) c"
  by (auto dest!: map_of_SomeD simp: list_all_iff)

lemma find_param_Some:
  "find_param key ps = Some (k, c) \<Longrightarrow> (k, c) \<in> set ps \<and> index_key k = key"
  unfolding find_param_def find_Some_iff by (auto, metis nth_mem)

lemma find_param_None: "find_param key ps = None \<longleftrightarrow> key \<notin> set (map (\<lambda>(k, c). index_key k) ps)"
  by (auto simp: find_param_def find_None_iff)

lemma index_keys_set_param [simp]:
  "map (\<lambda>(k, c). index_key k) (set_param key c ps) = map (\<lambda>(k, c). index_key k) ps"
  by (simp add: set_param_def o_def case_prod_unfold if_distrib cong: if_cong)

lemma list_all_set_param:
  "list_all (\<lambda>(k, c). Q k \<and> P c) ps \<Longrightarrow> P c \<Longrightarrow>
     list_all (\<lambda>(k, c). Q k \<and> P c) (set_param key c ps)"
  by (auto simp: set_param_def list_all_iff split: if_splits)

lemma list_all_dict_set:
  "list_all (\<lambda>(s, c). P s c) st \<Longrightarrow> P s c \<Longrightarrow> list_all (\<lambda>(s, c). P s c) (dict_set s c st)"
  using set_dict_set [of s c st] by (fastforce simp: list_all_iff)

lemma set_add_param: "set (add_param k ps) = insert (k, empty_node) (set ps)"
  by (simp add: add_param_def)

lemma distinct_add_param:
  assumes "find_param (index_key k) ps = None" "distinct (map (\<lambda>(k, c). index_key k) ps)"
  shows "distinct (map (\<lambda>(k, c). index_key k) (add_param k ps))"
proof -
  have "mset (map (\<lambda>(k, c). index_key k) (add_param k ps))
      = mset (map (\<lambda>(k, c). index_key k) (ps @ [(k, empty_node)]))"
    by (simp only: add_param_def mset_map mset_sort)
  then have "distinct (map (\<lambda>(k, c). index_key k) (add_param k ps))
      \<longleftrightarrow> distinct (map (\<lambda>(k, c). index_key k) (ps @ [(k, empty_node)]))"
    by (rule mset_eq_imp_distinct_iff)
  with assms show ?thesis by (simp add: find_param_None)
qed

lemma find_add_param:
  assumes "find_param (index_key k) ps = None"
  shows "find_param (index_key k) (add_param k ps) = Some (k, empty_node)"
proof -
  obtain k' c where "find_param (index_key k) (add_param k ps) = Some (k', c)"
    by (cases "find_param (index_key k) (add_param k ps)")
      (auto simp: find_param_None set_add_param)
  moreover from this have "(k', c) \<in> insert (k, empty_node) (set ps)" "index_key k' = index_key k"
    using find_param_Some set_add_param by metis+
  moreover have "(k', c) \<notin> set ps" if "index_key k' = index_key k"
    using assms that by (force simp: find_param_None)
  ultimately show ?thesis by simp
qed

section \<open>Insertion\<close>

text \<open>The list of parameter children an insertion works on, and its child for a key.\<close>

definition ensure_param :: "pkey \<Rightarrow> (pkey \<times> 'i node) list \<Rightarrow> (pkey \<times> 'i node) list" where
  "ensure_param k ps = (if find_param (index_key k) ps = None then add_param k ps else ps)"

lemma ensure_param_props:
  shows "distinct (map (\<lambda>(k, c). index_key k) ps) \<Longrightarrow>
      distinct (map (\<lambda>(k, c). index_key k) (ensure_param k ps))"
    and "list_all (\<lambda>(k, c). Q k \<and> P c) ps \<Longrightarrow> Q k \<Longrightarrow> P empty_node \<Longrightarrow>
      list_all (\<lambda>(k, c). Q k \<and> P c) (ensure_param k ps)"
    and "\<exists>k' c. find_param (index_key k) (ensure_param k ps) = Some (k', c) \<and> index_key k' = index_key k"
    and "set ps \<subseteq> set (ensure_param k ps)"
    and "set (ensure_param k ps) \<subseteq> insert (k, empty_node) (set ps)"
  by (auto simp: ensure_param_def distinct_add_param set_add_param list_all_iff find_add_param
      dest: find_param_Some)

lemma insert_param_unfold:
  assumes "is_param_segment seg" "split_param seg = (name, spec)"
    "(if spec \<noteq> [] then parse_converter env spec else Inr default_string) = Inr conv"
  shows "insert_path env (seg # rest) (Node st ps w hs fl) =
     (let k = PKey seg name conv (segment_constraint spec);
          key = index_key k; ps1 = ensure_param k ps
      in if greedy conv then
           ((if rest = [] then Inr ([SParam key], [name]) else Inl ValueError), Node st ps1 w hs fl)
         else
           (let child = (case find_param key ps1 of None \<Rightarrow> empty_node | Some (k, c) \<Rightarrow> c);
                (r, child') = insert_path env rest child
            in (map_sum id (\<lambda>(addr, names). (SParam key # addr, name # names)) r,
                Node st (set_param key child' ps1) w hs fl)))"
  using assms by (simp add: ensure_param_def index_key_def Let_def)

declare insert_path.simps(2) [simp del]

text \<open>
  The cases of one step of \<open>_insert_path_into_tree\<close>, as an induction rule for what insertion
  does to a tree.
\<close>

lemma insert_path_cases:
  assumes "insert_path env (seg # rest) (Node st ps w hs fl) = (r, n')"
  obtains (bad_spec) e where "is_param_segment seg" "r = Inl e" "n' = Node st ps w hs fl"
    | (greedy) k where "is_param_segment seg" "pk_segment k = seg" "pk_name k = fst (split_param seg)"
        "n' = Node st (ensure_param k ps) w hs fl"
        "r = (if rest = [] then Inr ([SParam (index_key k)], [pk_name k]) else Inl ValueError)"
    | (param) k k' c r' c' where "is_param_segment seg" "pk_segment k = seg"
        "pk_name k = fst (split_param seg)"
        "find_param (index_key k) (ensure_param k ps) = Some (k', c)"
        "insert_path env rest c = (r', c')"
        "n' = Node st (set_param (index_key k) c' (ensure_param k ps)) w hs fl"
        "r = map_sum id (\<lambda>(addr, names). (SParam (index_key k) # addr, pk_name k # names)) r'"
    | (wild) "seg = ''*''" "r = Inr ([SWild], [])"
        "n' = Node st ps (Some (case w of None \<Rightarrow> empty_node | Some c \<Rightarrow> c)) hs fl"
    | (static) r' c' where "\<not> is_param_segment seg" "seg \<noteq> ''*''"
        "insert_path env rest (case map_of st seg of None \<Rightarrow> empty_node | Some c \<Rightarrow> c) = (r', c')"
        "n' = Node (dict_set seg c' st) ps w hs fl"
        "r = map_sum id (\<lambda>(addr, names). (SStatic seg # addr, names)) r'"
proof (cases "is_param_segment seg")
  case True
  obtain name spec where split: "split_param seg = (name, spec)" by (cases "split_param seg")
  show thesis
  proof (cases "if spec \<noteq> [] then parse_converter env spec else Inr default_string")
    case (Inl e)
    with assms True split show thesis
      by (intro bad_spec [of e]) (auto simp: insert_path.simps(2))
  next
    case (Inr conv)
    let ?k = "PKey seg name conv (segment_constraint spec)"
    note unf = insert_param_unfold [OF True split Inr, of rest st ps w hs fl]
    show thesis
    proof (cases "greedy conv")
      case g: True
      with assms unf split show thesis
        by (intro greedy [of ?k]) (auto simp: Let_def True)
    next
      case False
      obtain k' c where f: "find_param (index_key ?k) (ensure_param ?k ps) = Some (k', c)"
        using ensure_param_props(3) by blast
      obtain r' c' where "insert_path env rest c = (r', c')" by (cases "insert_path env rest c")
      with assms unf split False f show thesis
        by (intro param [of ?k k' c r' c']) (simp_all add: Let_def True)
    qed
  qed
next
  case False
  show thesis
  proof (cases "seg = ''*''")
    case True
    with assms False show thesis by (intro wild) (simp_all add: insert_path.simps(2))
  next
    case nw: False
    let ?c = "case map_of st seg of None \<Rightarrow> empty_node | Some c \<Rightarrow> c"
    obtain r' c' where "insert_path env rest ?c = (r', c')" by (cases "insert_path env rest ?c")
    with assms False nw show thesis
      by (intro static [of r' c']) (simp_all add: insert_path.simps(2) Let_def)
  qed
qed

lemma is_param_seg_ok:
  "is_param_segment (pk_segment k) \<Longrightarrow> CHR ''/'' \<notin> set (pk_segment k) \<Longrightarrow> seg_ok k"
  by (auto simp: seg_ok_def is_param_segment_def starts_with_def)

lemma insert_wf:
  "insert_path env segs n = (r, n') \<Longrightarrow> wf_tree e n \<Longrightarrow> \<forall>s \<in> set segs. CHR ''/'' \<notin> set s \<Longrightarrow>
     wf_tree e n'"
proof (induction segs arbitrary: n r n' e)
  case (Cons seg rest)
  obtain st ps w hs fl where n: "n = Node st ps w hs fl" by (cases n)
  from Cons.prems(1)[unfolded n] show ?case
  proof (cases rule: insert_path_cases)
    case (greedy k)
    then have "seg_ok k" using Cons.prems(3) by (rule_tac is_param_seg_ok) simp_all
    with greedy Cons.prems(2) n show ?thesis by (simp add: ensure_param_props)
  next
    case (param k k' c r' c')
    then have k: "seg_ok k" using Cons.prems(3) by (rule_tac is_param_seg_ok) simp_all
    with Cons.prems(2) n have all: "list_all (\<lambda>(k, c). seg_ok k \<and> wf_tree False c) (ensure_param k ps)"
      by (simp add: ensure_param_props)
    then have "wf_tree False c"
      using find_param_Some [OF param(4)] by (auto simp: list_all_iff)
    then have "wf_tree False c'" using Cons.IH [OF param(5)] Cons.prems(3) by simp
    with Cons.prems(2) n param(6) all show ?thesis
      by (simp add: ensure_param_props list_all_set_param)
  next
    case wild
    with Cons.prems(2) n show ?thesis by (simp split: option.splits)
  next
    case (static r' c')
    have "wf_tree (seg = []) (case map_of st seg of None \<Rightarrow> empty_node | Some c \<Rightarrow> c)"
      using Cons.prems(2) n wf_static_child by (cases "map_of st seg") (simp, simp only: option.case)
    then have "wf_tree (seg = []) c'" using Cons.IH [OF static(3)] Cons.prems(3) by simp
    with Cons.prems n static(4) show ?thesis by (simp add: list_all_dict_set dict_ok_set)
  qed (use Cons.prems n in simp)
qed simp

text \<open>The address an insertion returns is that of a node, and says how the path ended.\<close>

fun addr_flag :: "bool \<Rightarrow> step list \<Rightarrow> bool" where
  "addr_flag e [] = e"
| "addr_flag e (SStatic s # a) = addr_flag (s = []) a"
| "addr_flag e (SParam key # a) = addr_flag False a"
| "addr_flag e (SWild # a) = addr_flag False a"

lemma find_set_param:
  "find_param key ps = Some (k, c) \<Longrightarrow> find_param key (set_param key d ps) = Some (k, d)"
  by (induction ps) (auto simp: find_param_def set_param_def split: if_splits)

lemma insert_addr:
  "insert_path env segs n = (Inr (a, names), n') \<Longrightarrow> \<exists>leaf. node_at a n' = Some leaf"
proof (induction segs arbitrary: n a names n')
  case (Cons seg rest)
  obtain st ps w hs fl where n: "n = Node st ps w hs fl" by (cases n)
  from Cons.prems[unfolded n] show ?case
  proof (cases rule: insert_path_cases)
    case (greedy k)
    then show ?thesis
      using ensure_param_props(3) [of k ps] by (auto split: if_splits)
  next
    case (param k k' c r' c')
    then obtain a' names' where r': "r' = Inr (a', names')" "a = SParam (index_key k) # a'"
      by (cases r') auto
    with Cons.IH param(5) obtain leaf where "node_at a' c' = Some leaf" by blast
    with r' param(4,6) show ?thesis by (simp add: find_set_param)
  next
    case (static r' c')
    then obtain a' names' where r': "r' = Inr (a', names')" "a = SStatic seg # a'"
      by (cases r') auto
    with Cons.IH static(3) obtain leaf where "node_at a' c' = Some leaf" by blast
    with r' static(4) show ?thesis by (simp add: py_dict_simps)
  qed auto
qed simp

lemma insert_addr_flag:
  "insert_path env segs n = (Inr (a, names), n') \<Longrightarrow> addr_flag e a \<Longrightarrow>
     if segs = [] then e else last segs = []"
proof (induction segs arbitrary: n a names n' e)
  case (Cons seg rest)
  obtain st ps w hs fl where n: "n = Node st ps w hs fl" by (cases n)
  from Cons.prems(1)[unfolded n] show ?case
  proof (cases rule: insert_path_cases)
    case (param k k' c r' c')
    then obtain a' names' where r': "r' = Inr (a', names')" "a = SParam (index_key k) # a'"
      by (cases r') auto
    with Cons.IH [of c a' names' c' False] param(5) Cons.prems(2) show ?thesis
      by (simp split: if_splits)
  next
    case (static r' c')
    then obtain a' names' where r': "r' = Inr (a', names')" "a = SStatic seg # a'"
      by (cases r') auto
    with Cons.IH static(3) Cons.prems(2) show ?thesis by (fastforce split: if_splits)
  qed (use Cons.prems(2) in \<open>auto split: if_splits\<close>)
qed simp

lemma wf_update:
  "wf_tree e n \<Longrightarrow> (\<And>m. node_at a n = Some m \<Longrightarrow> wf_tree (addr_flag e a) m \<Longrightarrow>
     wf_tree (addr_flag e a) (f m)) \<Longrightarrow> wf_tree e (update_at a f n)"
proof (induction a f n arbitrary: e rule: update_at.induct)
  case (2 s a f st ps w hs fl)
  show ?case
  proof (cases "map_of st s")
    case (Some c)
    have "wf_tree (s = []) (update_at a f c)"
      using 2(1) [OF Some, of "s = []"] 2(2,3) wf_static_child [OF 2(2) Some] Some by simp
    moreover have "CHR ''/'' \<notin> set s"
      using 2(2) map_of_SomeD [OF Some] by (auto simp: list_all_iff)
    ultimately show ?thesis using 2(2) Some
      by (simp add: dict_ok_set list_all_dict_set)
  qed (use 2(2) in simp)
next
  case (3 key a f st ps w hs fl)
  show ?case
  proof (cases "find_param key ps")
    case (Some kc)
    obtain k c where kc: "kc = (k, c)" by (cases kc)
    have "wf_tree False c"
      using 3(2) find_param_Some [OF Some[unfolded kc]] by (auto simp: list_all_iff)
    then have "wf_tree False (update_at a f c)"
      using 3(1) [OF Some kc [symmetric], of False] 3(3) Some kc by simp
    then show ?thesis using 3(2) Some kc by (simp add: list_all_set_param)
  qed (use 3(2) in simp)
next
  case (4 a f st ps w hs fl)
  then show ?case by (cases w) simp_all
qed simp

lemma node_at_update: "node_at a n = Some m \<Longrightarrow> node_at a (update_at a f n) = Some (f m)"
proof (induction a f n rule: update_at.induct)
  case (3 key a f st ps w hs fl)
  then show ?case by (cases "find_param key ps") (auto simp: find_set_param)
qed (auto simp: py_dict_simps bind_eq_Some_conv)

section \<open>What the rest of the tree keeps\<close>

text \<open>Every handler of a tree, with its method.\<close>

fun all_handlers :: "'i node \<Rightarrow> (string \<times> 'i) list" where
  "all_handlers (Node st ps w hs fl) =
     hs @ concat (map (\<lambda>(s, c). all_handlers c) st) @ concat (map (\<lambda>(k, c). all_handlers c) ps)
     @ (case w of None \<Rightarrow> [] | Some c \<Rightarrow> all_handlers c)"

text \<open>The handlers at an address.\<close>

definition table_at :: "'i node \<Rightarrow> step list \<Rightarrow> (string \<times> 'i) list" where
  "table_at n a = (case node_at a n of None \<Rightarrow> [] | Some m \<Rightarrow> handlers m)"

lemma table_at_empty [simp]: "table_at empty_node a = []"
proof (cases a)
  case (Cons x a')
  then show ?thesis by (cases x) (simp_all add: table_at_def empty_node_def find_param_def)
qed (simp add: table_at_def empty_node_def)

lemma table_at_simps:
  "table_at n [] = handlers n"
  "table_at n (SStatic s # a) = (case map_of (static_children n) s of None \<Rightarrow> [] | Some c \<Rightarrow> table_at c a)"
  "table_at n (SParam key # a) =
     (case find_param key (param_children n) of None \<Rightarrow> [] | Some (k, c) \<Rightarrow> table_at c a)"
  "table_at n (SWild # a) = (case wildcard_child n of None \<Rightarrow> [] | Some c \<Rightarrow> table_at c a)"
  by (auto simp: table_at_def split: option.split)

lemma find_ensure_param:
  assumes "distinct (map (\<lambda>(k, c). index_key k) ps)"
  shows "find_param key (ensure_param k ps) =
     (case find_param key ps of
        Some x \<Rightarrow> Some x
      | None \<Rightarrow> if key = index_key k then Some (k, empty_node) else None)"
proof (cases "find_param key ps")
  case None
  show ?thesis
  proof (cases "key = index_key k")
    case True
    with None show ?thesis by (simp add: ensure_param_def find_add_param)
  next
    case False
    with None have "find_param key (ensure_param k ps) = None"
      using ensure_param_props(5) [of k ps] by (fastforce simp: find_param_None)
    with None False show ?thesis by simp
  qed
next
  case (Some x)
  obtain k' c where x: "x = (k', c)" by (cases x)
  have mem: "(k', c) \<in> set (ensure_param k ps)" "index_key k' = key"
    using find_param_Some [OF Some[unfolded x]] ensure_param_props(4) [of ps k] by auto
  have dist: "distinct (map (\<lambda>(k, c). index_key k) (ensure_param k ps))"
    by (rule ensure_param_props(1) [OF assms])
  obtain k2 c2 where f: "find_param key (ensure_param k ps) = Some (k2, c2)"
    using mem by (cases "find_param key (ensure_param k ps)") (force simp: find_param_None)+
  then have "(k2, c2) \<in> set (ensure_param k ps)" "index_key k2 = key" using find_param_Some by blast+
  with mem dist have "(k2, c2) = (k', c)"
    by (auto simp: distinct_map inj_on_def)
  with f Some x show ?thesis by simp
qed

lemma find_set_param_other:
  "find_param key (set_param key' d ps) =
     (case find_param key ps of None \<Rightarrow> None
      | Some (k, c) \<Rightarrow> Some (k, if key = key' then d else c))"
proof (induction ps)
  case (Cons kc ps)
  obtain k c where kc: "kc = (k, c)" by (cases kc)
  show ?case
  proof (cases "index_key k = key")
    case True
    with kc show ?thesis by (simp add: find_param_def set_param_def)
  next
    case False
    with kc Cons.IH show ?thesis by (auto simp: find_param_def set_param_def)
  qed
qed (simp add: find_param_def set_param_def)

text \<open>Insertion moves no handler: every table is what it was.\<close>

lemma insert_table:
  "insert_path env segs n = (r, n') \<Longrightarrow> wf_tree e n \<Longrightarrow> table_at n' a = table_at n a"
proof (induction segs arbitrary: n r n' e a)
  case (Cons seg rest)
  obtain st ps w hs fl where n: "n = Node st ps w hs fl" by (cases n)
  have dist: "distinct (map (\<lambda>(k, c). index_key k) ps)" using Cons.prems(2) n by simp
  note ens = find_ensure_param [OF dist]
  from Cons.prems(1)[unfolded n] show ?case
  proof (cases rule: insert_path_cases)
    case (greedy k)
    show ?thesis
    proof (cases a)
      case (Cons x a')
      with greedy n show ?thesis
        by (cases x) (auto simp: table_at_simps ens split: option.split)
    qed (use greedy n in \<open>simp add: table_at_simps\<close>)
  next
    case (param k k' c r' c')
    have "wf_tree False c"
      using Cons.prems(2) n find_param_Some [OF param(4)] ensure_param_props(5) [of k ps]
      by (fastforce simp: list_all_iff)
    then have ih: "table_at c' a' = table_at c a'" for a' using Cons.IH [OF param(5)] by blast
    show ?thesis
    proof (cases a)
      case (Cons x a')
      show ?thesis
      proof (cases x)
        case (SParam key)
        with Cons param(4,6) n show ?thesis
          by (auto simp: table_at_simps ens find_set_param_other ih split: option.splits if_splits)
      qed (use Cons param(6) n in \<open>simp_all add: table_at_simps\<close>)
    qed (use param(6) n in \<open>simp add: table_at_simps\<close>)
  next
    case wild
    show ?thesis
    proof (cases a)
      case (Cons x a')
      with wild n show ?thesis by (cases x) (simp_all add: table_at_simps split: option.split)
    qed (use wild n in \<open>simp add: table_at_simps\<close>)
  next
    case (static r' c')
    let ?c = "case map_of st seg of None \<Rightarrow> empty_node | Some c \<Rightarrow> c"
    have "wf_tree (seg = []) ?c"
      using Cons.prems(2) n wf_static_child by (cases "map_of st seg") (simp, simp only: option.case)
    then have ih: "table_at c' a' = table_at ?c a'" for a' using Cons.IH [OF static(3)] by blast
    show ?thesis
    proof (cases a)
      case (Cons x a')
      with static(4) n ih show ?thesis
        by (cases x) (auto simp: table_at_simps py_dict_simps split: option.split)
    qed (use static(4) n in \<open>simp add: table_at_simps\<close>)
  qed (use n in simp)
qed simp

lemma update_table:
  assumes "\<And>m. handlers (f m) = g (handlers m)"
    "\<And>m. static_children (f m) = static_children m" "\<And>m. param_children (f m) = param_children m"
    "\<And>m. wildcard_child (f m) = wildcard_child m"
  shows "node_at a n \<noteq> None \<Longrightarrow>
     table_at (update_at a f n) b = (if b = a then g (table_at n b) else table_at n b)"
proof (induction a arbitrary: n b)
  case Nil
  show ?case
  proof (cases b)
    case (Cons x b')
    then show ?thesis by (cases x) (simp_all add: table_at_simps assms)
  qed (simp add: table_at_simps assms(1))
next
  case (Cons x a)
  obtain st ps w hs fl where n: "n = Node st ps w hs fl" by (cases n)
  show ?case
  proof (cases x)
    case (SStatic s)
    with Cons.prems n obtain c where c: "map_of st s = Some c" "node_at a c \<noteq> None"
      by (cases "map_of st s") auto
    note ih = Cons.IH [OF c(2)]
    show ?thesis
    proof (cases b)
      case (Cons y b')
      with SStatic n c(1) ih show ?thesis by (cases y) (auto simp: table_at_simps py_dict_simps)
    qed (use SStatic n c(1) in \<open>simp add: table_at_simps\<close>)
  next
    case (SParam key)
    with Cons.prems n obtain k c where c: "find_param key ps = Some (k, c)" "node_at a c \<noteq> None"
      by (cases "find_param key ps") auto
    note ih = Cons.IH [OF c(2)]
    show ?thesis
    proof (cases b)
      case (Cons y b')
      with SParam n c(1) ih show ?thesis
        by (cases y) (auto simp: table_at_simps find_set_param_other split: option.split)
    qed (use SParam n c(1) in \<open>simp add: table_at_simps\<close>)
  next
    case SWild
    with Cons.prems n obtain c where c: "w = Some c" "node_at a c \<noteq> None" by (cases w) auto
    note ih = Cons.IH [OF c(2)]
    show ?thesis
    proof (cases b)
      case (Cons y b')
      with SWild n c(1) ih show ?thesis by (cases y) (auto simp: table_at_simps)
    qed (use SWild n c(1) in \<open>simp add: table_at_simps\<close>)
  qed
qed

section \<open>The map of literal routes\<close>

lemma static_walk_append:
  "static_walk n (segs @ [s]) =
     Option.bind (static_walk n segs) (\<lambda>m. map_of (static_children m) s)"
  by (induction segs arbitrary: n) (auto split: Option.bind_split)

lemma wf_static_walk:
  "static_walk n segs = Some m \<Longrightarrow> wf_tree e n \<Longrightarrow>
     wf_tree (if segs = [] then e else last segs = []) m \<and> (\<forall>s \<in> set segs. CHR ''/'' \<notin> set s)"
proof (induction segs arbitrary: n e)
  case (Cons s segs)
  obtain st ps w hs fl where n: "n = Node st ps w hs fl" by (cases n)
  with Cons.prems(1) obtain c where c: "map_of st s = Some c" "static_walk c segs = Some m"
    by (auto simp: bind_eq_Some_conv)
  have "wf_tree (s = []) c" using wf_static_child Cons.prems(2) n c(1) by blast
  moreover have "CHR ''/'' \<notin> set s"
    using Cons.prems(2) n map_of_SomeD [OF c(1)] by (auto simp: list_all_iff)
  ultimately show ?case using Cons.IH [OF c(2)] by auto
qed simp

text \<open>An entry of the map comes from a node that literal segments lead to.\<close>

lemma static_entries_origin:
  "(k, i) \<in> set (static_entries prefix n) \<Longrightarrow> wf_tree e n \<Longrightarrow>
     \<exists>segs m. static_walk n segs = Some m \<and> (k, i) \<in> set (node_entries (prefix @ path_of segs) m)"
proof (induction prefix n arbitrary: e rule: static_entries.induct)
  case (1 prefix st ps w hs fl)
  let ?n = "Node st ps w hs fl"
  show ?case
  proof (cases "(k, i) \<in> set (node_entries prefix ?n)")
    case True
    then show ?thesis by (intro exI [of _ "[]"]) simp
  next
    case False
    with 1(2) obtain s c where sc: "(s, c) \<in> set st"
      "(k, i) \<in> set (static_entries (prefix @ CHR ''/'' # s) c)" by auto
    have c: "map_of st s = Some c" using 1(3) sc(1) by (simp add: dict_in_set_iff)
    then have wf: "wf_tree (s = []) c" using wf_static_child 1(3) by blast
    have "\<exists>segs m. static_walk c segs = Some m \<and>
        (k, i) \<in> set (node_entries ((prefix @ ''/'' @ s) @ path_of segs) m)"
      using 1(1) [of "(s, c)" s c, OF _ refl _ wf] sc by simp
    then obtain segs m where "static_walk c segs = Some m"
      "(k, i) \<in> set (node_entries (prefix @ path_of (s # segs)) m)" by auto
    with c show ?thesis by (intro exI [of _ "s # segs"] exI [of _ m]) simp
  qed
qed

lemma map_of_fold_dict_set:
  "map_of (fold (\<lambda>(k, v) d. dict_set k v d) es d) k = Some v \<Longrightarrow>
     (k, v) \<in> set es \<or> map_of d k = Some v"
  by (induction es arbitrary: d) (fastforce simp: py_dict_simps split: if_splits)+

lemma build_static_origin:
  assumes "map_of (build_static_routes root) (m, p) = Some i" "wf_tree e root"
  obtains segs n where "static_walk root segs = Some n" "((m, p), i) \<in> set (node_entries (path_of segs) n)"
proof -
  have "((m, p), i) \<in> set (static_entries [] root)"
    using map_of_fold_dict_set [of "static_entries [] root" "[]" "(m, p)" i] assms(1)
    by (simp add: build_static_routes_def)
  with static_entries_origin [OF _ assms(2)] that show thesis by fastforce
qed

lemma is_upper_HEAD: "is_upper_str ''HEAD''"
  by code_simp

lemma lookup_method_alias:
  "map_of hs m = Some i \<or> m = ''HEAD'' \<and> map_of hs ''HEAD'' = None \<and> map_of hs ''GET'' = Some i
     \<Longrightarrow> lookup_method hs m = Some i"
  using is_upper_HEAD by (elim disjE) (simp_all add: lookup_method_def Let_def)

text \<open>What the map answers, the search of the tree answers.\<close>

lemma static_map_sound:
  assumes wf: "wf_tree False root" and hit: "map_of (build_static_routes root) (m, p) = Some i"
  shows "match_tree ext root m p = Inr (Some (i, []))"
proof -
  obtain segs n where walk: "static_walk root segs = Some n"
    and entry: "((m, p), i) \<in> set (node_entries (path_of segs) n)"
    using build_static_origin [OF hit wf] .
  have cond: "handlers n \<noteq> [] \<and> \<not> trailing_slash (slash n) \<and> \<not> tolerant_slash (slash n)"
    using entry unfolding node_entries_def by (rule contrapos_pp) (simp only: if_False list.set empty_iff not_False_eq_True)
  then have hs: "handlers n \<noteq> []" "\<not> trailing_slash (slash n)" "\<not> tolerant_slash (slash n)"
    by simp_all
  have p: "p = (if path_of segs = [] then ''/'' else path_of segs)"
    using entry cond unfolding node_entries_def Let_def
    by (cases "map_of (handlers n) ''GET''"; cases "map_of (handlers n) ''HEAD''") auto
  have nwf: "wf_tree (if segs = [] then False else last segs = []) n"
    and seps: "\<forall>s \<in> set segs. CHR ''/'' \<notin> set s"
    using wf_static_walk [OF walk wf] by simp_all
  have last: "last segs \<noteq> []" if "segs \<noteq> []"
    using nwf hs that by (cases n) auto
  have ok: "dict_ok (handlers n)" using nwf by (cases n) simp
  have split: "split_path p = segs"
  proof (cases "segs = []")
    case True
    with p show ?thesis by (simp add: split_path_def)
  next
    case False
    with p have "p = path_of segs" by (cases segs) simp_all
    with split_path_path_of [OF seps last] False show ?thesis by simp
  qed
  have nslash: "\<not> has_trailing_slash p"
  proof (cases "segs = []")
    case True
    with p show ?thesis by (simp add: has_trailing_slash_def)
  next
    case False
    then obtain ss s where segs: "segs = ss @ [s]" by (metis rev_exhaust)
    with last seps have s: "s \<noteq> []" "CHR ''/'' \<notin> set s" by auto
    then have "last p \<noteq> CHR ''/''" "p \<noteq> []"
      using p segs by (auto simp: last_in_set) (metis last_in_set)
    then show ?thesis by (simp add: has_trailing_slash_def ends_with_last)
  qed
  have node: "match_node ext root (split_path p) [] = MHit n []"
    using match_node_static [OF walk hs(1)] split by simp
  have "map_of (handlers n) m = Some i \<or>
      m = ''HEAD'' \<and> map_of (handlers n) ''HEAD'' = None \<and> map_of (handlers n) ''GET'' = Some i"
    using entry cond ok unfolding node_entries_def Let_def
    by (cases "map_of (handlers n) ''GET''"; cases "map_of (handlers n) ''HEAD''")
      (auto simp: dict_in_set_iff)
  then have "lookup_method (handlers n) m = Some i" by (rule lookup_method_alias)
  with node hs nslash show ?thesis by (simp add: match_tree_def slash_mismatch_def Let_def)
qed

section \<open>The names on a path\<close>

definition seg_names :: "string list \<Rightarrow> string list" where
  "seg_names segs = map (\<lambda>s. fst (split_param s)) (filter is_param_segment segs)"

lemma names_empty [simp]: "tree_names empty_node = {}" "names_distinct empty_node"
  by (simp_all add: empty_node_def)

lemma tree_names_ensure:
  "tree_names (Node st (ensure_param k ps) w hs fl) \<subseteq> insert (pk_name k) (tree_names (Node st ps w hs fl))"
  using ensure_param_props(5) [of k ps] by fastforce

lemma insert_names:
  "insert_path env segs n = (r, n') \<Longrightarrow> tree_names n' \<subseteq> tree_names n \<union> set (seg_names segs)"
proof (induction segs arbitrary: n r n')
  case (Cons seg rest)
  obtain st ps w hs fl where n: "n = Node st ps w hs fl" by (cases n)
  from Cons.prems(1)[unfolded n] show ?case
  proof (cases rule: insert_path_cases)
    case (greedy k)
    with n tree_names_ensure [of st k ps w hs fl] show ?thesis by (auto simp: seg_names_def)
  next
    case (param k k' c r' c')
    have c: "(k', c) \<in> set (ensure_param k ps)" using find_param_Some [OF param(4)] by simp
    have "tree_names n' \<subseteq> tree_names (Node st (ensure_param k ps) w hs fl) \<union> tree_names c'"
      using param(6) by (fastforce simp: set_param_def split: if_splits)
    moreover have "tree_names c \<subseteq> tree_names (Node st (ensure_param k ps) w hs fl)"
      using c by fastforce
    moreover have "tree_names (Node st (ensure_param k ps) w hs fl) \<subseteq> insert (pk_name k) (tree_names n)"
      using tree_names_ensure n by blast
    moreover have "tree_names c' \<subseteq> tree_names c \<union> set (seg_names rest)" by (rule Cons.IH [OF param(5)])
    moreover have "set (seg_names (seg # rest)) = insert (pk_name k) (set (seg_names rest))"
      using param(1,3) by (simp add: seg_names_def)
    ultimately show ?thesis by blast
  next
    case (static r' c')
    let ?c = "case map_of st seg of None \<Rightarrow> empty_node | Some c \<Rightarrow> c"
    have "tree_names c' \<subseteq> tree_names ?c \<union> set (seg_names rest)" by (rule Cons.IH [OF static(3)])
    moreover have "tree_names ?c \<subseteq> tree_names n"
      using n by (cases "map_of st seg") (auto dest: map_of_SomeD)
    moreover have "tree_names n' \<subseteq> tree_names n \<union> tree_names c'"
      using static(4) n set_dict_set [of seg c' st] by fastforce
    ultimately show ?thesis using static(1) by (auto simp: seg_names_def)
  qed (use n in auto)
qed simp

lemma list_all_set_param_key:
  "list_all (\<lambda>(k, c). P k c) ps \<Longrightarrow> (\<And>k. index_key k = key \<Longrightarrow> P k d) \<Longrightarrow>
     list_all (\<lambda>(k, c). P k c) (set_param key d ps)"
  by (induction ps) (auto simp: set_param_def split: if_splits)

text \<open>A path that binds no name twice keeps the names along every path of the tree distinct.\<close>

lemma insert_names_distinct:
  "insert_path env segs n = (r, n') \<Longrightarrow> names_distinct n \<Longrightarrow> distinct (seg_names segs) \<Longrightarrow>
     names_distinct n'"
proof (induction segs arbitrary: n r n')
  case (Cons seg rest)
  obtain st ps w hs fl where n: "n = Node st ps w hs fl" by (cases n)
  have ens: "list_all (\<lambda>(k, c). pk_name k \<notin> tree_names c \<and> names_distinct c) (ensure_param k ps)" for k
    using ensure_param_props(5) [of k ps] Cons.prems(2) n by (fastforce simp: list_all_iff)
  from Cons.prems(1)[unfolded n] show ?case
  proof (cases rule: insert_path_cases)
    case (greedy k)
    with ens Cons.prems(2) n show ?thesis by simp
  next
    case (param k k' c r' c')
    have c: "(k', c) \<in> set (ensure_param k ps)" "index_key k' = index_key k"
      using find_param_Some [OF param(4)] by simp_all
    then have name: "pk_name k' = pk_name k" by (simp add: index_key_def)
    from c ens [of k] have cc: "pk_name k \<notin> tree_names c" "names_distinct c"
      using name by (auto simp: list_all_iff)
    have dist: "pk_name k \<notin> set (seg_names rest)" "distinct (seg_names rest)"
      using Cons.prems(3) param(1,3) by (auto simp: seg_names_def)
    have "names_distinct c'" by (rule Cons.IH [OF param(5) cc(2) dist(2)])
    moreover have "pk_name k \<notin> tree_names c'" using insert_names [OF param(5)] cc(1) dist(1) by blast
    ultimately have "list_all (\<lambda>(k, c). pk_name k \<notin> tree_names c \<and> names_distinct c)
        (set_param (index_key k) c' (ensure_param k ps))"
      by (intro list_all_set_param_key [OF ens]) (simp add: index_key_def)
    with param(6) Cons.prems(2) n show ?thesis by simp
  next
    case (static r' c')
    have "names_distinct (case map_of st seg of None \<Rightarrow> empty_node | Some c \<Rightarrow> c)"
      using Cons.prems(2) n names_distinct_static
      by (cases "map_of st seg") (simp, simp only: option.case)
    moreover have "distinct (seg_names rest)"
      using Cons.prems(3) by (auto simp: seg_names_def split: if_splits)
    ultimately have "names_distinct c'" by (rule Cons.IH [OF static(3)])
    with Cons.prems(2) n static(4) show ?thesis by (simp add: list_all_dict_set)
  qed (use Cons.prems n in simp_all)
qed simp

end
