(* ===== verification/Router_Inv.thy ===== *)
theory Router_Inv
  imports Router Radix_Wf
begin

text \<open>
  The invariant of the router: its tree is well formed and the map of literal routes, when it
  is there, is the one of the tree. Every registration keeps it, the ones that raise included.
\<close>

definition router_wf :: "router \<Rightarrow> bool" where
  "router_wf r \<longleftrightarrow> wf_tree False (rt_root r)
     \<and> (\<forall>m. rt_static r = Some m \<longrightarrow> m = build_static_routes (rt_root r))"

text \<open>What holds between the placing of a path and the commit of its handlers.\<close>

definition flagged :: "step list \<Rightarrow> 'i node \<Rightarrow> bool" where
  "flagged a root \<longleftrightarrow> (\<exists>m. node_at a root = Some m \<and> (addr_flag False a \<longrightarrow> trailing_slash (slash m)))"

definition ready :: "table \<Rightarrow> router \<Rightarrow> bool" where
  "ready t r \<longleftrightarrow>
     (case t of
        TreeTable a \<Rightarrow> wf_tree False (rt_root r) \<and> rt_static r = None \<and> flagged a (rt_root r)
      | RegexTable i \<Rightarrow> router_wf r)"

lemma ready_wf: "ready t r \<Longrightarrow> router_wf r"
  by (cases t) (simp_all add: ready_def router_wf_def)

lemma router_wf_init: "router_init p t c d s o' = Inr r \<Longrightarrow> router_wf r"
  by (auto simp: router_init_def router_wf_def split: if_splits)

lemma set_handlers_simps [simp]:
  "static_children (set_handlers hs n) = static_children n"
  "param_children (set_handlers hs n) = param_children n"
  "wildcard_child (set_handlers hs n) = wildcard_child n"
  "handlers (set_handlers hs n) = hs" "slash (set_handlers hs n) = slash n"
  by (simp_all add: set_handlers_def)

lemma add_flags_simps [simp]:
  "static_children (add_flags x y z n) = static_children n"
  "param_children (add_flags x y z n) = param_children n"
  "wildcard_child (add_flags x y z n) = wildcard_child n"
  "handlers (add_flags x y z n) = handlers n"
  "trailing_slash (slash (add_flags x y z n)) = (trailing_slash (slash n) \<or> x)"
  "unslashed_variant (slash (add_flags x y z n)) = (unslashed_variant (slash n) \<or> y)"
  "tolerant_slash (slash (add_flags x y z n)) = (tolerant_slash (slash n) \<or> z)"
  by (simp_all add: add_flags_def set_slash_def)

lemma wf_set_handlers:
  "wf_tree e m \<Longrightarrow> dict_ok hs \<Longrightarrow> (e \<longrightarrow> trailing_slash (slash m)) \<Longrightarrow> wf_tree e (set_handlers hs m)"
  by (cases m) (simp add: set_handlers_def)

lemma wf_add_flags: "wf_tree e m \<Longrightarrow> wf_tree e (add_flags x y z m)"
  by (cases m) (simp add: add_flags_def set_slash_def)

lemma wf_handlers_ok: "wf_tree e m \<Longrightarrow> dict_ok (handlers m)"
  by (cases m) simp

lemma ready_put_handler:
  assumes "ready t r"
  shows "ready t (put_handler t m info r)"
proof (cases t)
  case (TreeTable a)
  let ?f = "\<lambda>n. set_handlers (dict_set m info (handlers n)) n"
  from assms TreeTable obtain leaf where wf: "wf_tree False (rt_root r)" and
    leaf: "node_at a (rt_root r) = Some leaf" "addr_flag False a \<longrightarrow> trailing_slash (slash leaf)"
    and st: "rt_static r = None"
    by (auto simp: ready_def flagged_def)
  have "wf_tree False (update_at a ?f (rt_root r))"
    using wf leaf by (intro wf_update) (auto intro!: wf_set_handlers dict_ok_set wf_handlers_ok)
  moreover have "flagged a (update_at a ?f (rt_root r))"
    unfolding flagged_def using node_at_update [OF leaf(1), of ?f] leaf(2) by simp
  ultimately show ?thesis using TreeTable st by (simp add: ready_def put_handler_def)
next
  case (RegexTable i)
  with assms show ?thesis by (simp add: ready_def put_handler_def router_wf_def)
qed

lemma drop_replaced_parts [simp]:
  "rt_root (drop_replaced_name x n t m r) = rt_root r"
  "rt_static (drop_replaced_name x n t m r) = rt_static r"
  "rt_regex (drop_replaced_name x n t m r) = rt_regex r"
  by (simp_all add: drop_replaced_name_def Let_def)

lemma set_named_parts [simp]:
  "rt_root (set_named n p ns r) = rt_root r" "rt_static (set_named n p ns r) = rt_static r"
  "rt_regex (set_named n p ns r) = rt_regex r"
  by (simp_all add: set_named_def)

lemma set_regex_tolerant_parts [simp]:
  "rt_root (set_regex_tolerant i r) = rt_root r" "rt_static (set_regex_tolerant i r) = rt_static r"
  by (simp_all add: set_regex_tolerant_def)

lemma ready_same:
  "ready t r \<Longrightarrow> rt_root r' = rt_root r \<Longrightarrow> rt_static r' = rt_static r \<Longrightarrow> ready t r'"
  by (cases t) (simp_all add: ready_def router_wf_def)

lemma router_wf_same:
  "router_wf r \<Longrightarrow> rt_root r' = rt_root r \<Longrightarrow> rt_static r' = rt_static r \<Longrightarrow> router_wf r'"
  by (simp add: router_wf_def)

lemma ready_drops: "ready t r \<Longrightarrow> ready t (fold (\<lambda>(m, e). drop_replaced_name e name t m) reps r)"
proof (induction reps arbitrary: r)
  case (Cons me reps)
  have "ready t (drop_replaced_name e name t m r)" for e m
    by (rule ready_same [OF Cons.prems]) simp_all
  with Cons.IH show ?case by (simp add: case_prod_unfold)
qed simp

lemma ready_puts: "ready t r \<Longrightarrow> ready t (fold (\<lambda>m. put_handler t (str_upper m) info) ms r)"
  by (induction ms arbitrary: r) (auto intro: ready_put_handler)

lemma ready_commit:
  "ready t r \<Longrightarrow> commit_route_methods ms t info name r = (x, r') \<Longrightarrow> ready t r'"
  by (auto simp: commit_route_methods_def Let_def ready_puts ready_drops split: sum.splits)

lemma insert_into_tree_wf:
  assumes "insert_into_tree env path r = (x, r')" "router_wf r"
  shows "wf_tree False (rt_root r')" "rt_static r' = None"
    "x = Inr (a, names) \<Longrightarrow> \<exists>leaf. node_at a (rt_root r') = Some leaf"
    "x = Inr (a, names) \<Longrightarrow> addr_flag False a \<Longrightarrow> split_path path \<noteq> [] \<and> last (split_path path) = []"
    "rt_regex r' = rt_regex r" "rt_named r' = rt_named r" "rt_reverse r' = rt_reverse r"
    "rt_on_duplicate r' = rt_on_duplicate r" "rt_prefix r' = rt_prefix r"
proof -
  obtain res root where ins: "insert_path (env_conv env) (split_path path) (rt_root r) = (res, root)"
    by (cases "insert_path (env_conv env) (split_path path) (rt_root r)")
  with assms(1) have eq: "x = res" "r' = r\<lparr>rt_static := None, rt_root := root\<rparr>"
    by (auto simp: insert_into_tree_def)
  then show "rt_static r' = None" "rt_regex r' = rt_regex r" "rt_named r' = rt_named r"
    "rt_reverse r' = rt_reverse r" "rt_on_duplicate r' = rt_on_duplicate r" "rt_prefix r' = rt_prefix r"
    by simp_all
  show "wf_tree False (rt_root r')"
    using insert_wf [OF ins, of False] assms(2) eq split_path_no_sep by (auto simp: router_wf_def)
  show "\<exists>leaf. node_at a (rt_root r') = Some leaf" if "x = Inr (a, names)"
    using insert_addr ins eq that by fastforce
  show "split_path path \<noteq> [] \<and> last (split_path path) = []"
    if "x = Inr (a, names)" "addr_flag False a"
    using insert_addr_flag [of "env_conv env" "split_path path" "rt_root r" a names root False]
      ins eq that by (auto split: if_splits)
qed

lemma ready_add_flags:
  assumes "wf_tree False (rt_root r)" "rt_static r = None" "node_at a (rt_root r) = Some leaf"
    "addr_flag False a \<Longrightarrow> x"
  shows "ready (TreeTable a) (r\<lparr>rt_root := update_at a (add_flags x y z) (rt_root r)\<rparr>)"
proof -
  have "wf_tree False (update_at a (add_flags x y z) (rt_root r))"
    using assms(1) by (intro wf_update wf_add_flags)
  moreover have "flagged a (update_at a (add_flags x y z) (rt_root r))"
    unfolding flagged_def using node_at_update [OF assms(3), of "add_flags x y z"] assms(4) by simp
  ultimately show ?thesis using assms(2) by (simp add: ready_def)
qed

lemma get_or_create_regex_parts:
  assumes "get_or_create_regex env path r = (x, r')"
  shows "rt_root r' = rt_root r" "rt_static r' = rt_static r" "rt_named r' = rt_named r"
    "rt_on_duplicate r' = rt_on_duplicate r"
  using assms by (auto simp: get_or_create_regex_def split: option.splits sum.splits)

lemma classify_ready:
  assumes "classify_route_path env path strict r = (x, r')" "router_wf r"
  shows "router_wf r' \<and> (\<forall>t names. x = Inr (t, names) \<longrightarrow> ready t r')"
proof (cases "is_regex_path (env_conv env) path")
  case (Inl e)
  with assms show ?thesis by (auto simp: classify_route_path_def)
next
  case (Inr b)
  show ?thesis
  proof (cases b)
    case True
    obtain y r1 where y: "get_or_create_regex env path r = (y, r1)"
      by (cases "get_or_create_regex env path r")
    then have "router_wf r1"
      using get_or_create_regex_parts assms(2) router_wf_same by metis
    moreover have "router_wf (set_regex_tolerant i r1)" for i
      by (rule router_wf_same [OF \<open>router_wf r1\<close>]) simp_all
    ultimately show ?thesis using assms(1) Inr True y
      by (cases y) (auto simp: classify_route_path_def ready_def split: if_splits)
  next
    case False
    obtain y r1 where y: "insert_into_tree env path r = (y, r1)" by (cases "insert_into_tree env path r")
    note ins = insert_into_tree_wf [OF y assms(2)]
    show ?thesis
    proof (cases y)
      case (Inl e)
      with assms(1) Inr False y ins(1,2) show ?thesis
        by (auto simp: classify_route_path_def router_wf_def)
    next
      case y': (Inr an)
      obtain a names where an: "an = (a, names)" by (cases an)
      from ins(3) y' an obtain leaf where leaf: "node_at a (rt_root r1) = Some leaf" by blast
      have "has_trailing_slash path" if "addr_flag False a"
        using ins(4) y' an that split_path_last_empty by blast
      with ready_add_flags [OF ins(1,2) leaf]
      have "ready (TreeTable a) (r1\<lparr>rt_root := update_at a (add_flags (has_trailing_slash path)
          (\<not> has_trailing_slash path) (strict = Some False)) (rt_root r1)\<rparr>)" by blast
      with assms(1) Inr False y y' an show ?thesis
        using ready_wf by (auto simp: classify_route_path_def)
    qed
  qed
qed

lemma add_route_wf:
  assumes "router_wf r"
  shows "router_wf (snd (add_route env path methods a r))"
proof (cases "check_duplicate_params (rt_prefix r @ path)")
  case (Inr u)
  obtain x r1 where c: "classify_route_path env (rt_prefix r @ path) (aa_strict_slashes a) r = (x, r1)"
    by (cases "classify_route_path env (rt_prefix r @ path) (aa_strict_slashes a) r")
  note cr = classify_ready [OF c assms]
  show ?thesis
  proof (cases x)
    case x: (Inr tn)
    obtain t names where tn: "tn = (t, names)" by (cases tn)
    with cr x have "ready t r1" by blast
    then have "router_wf (snd (and_then (commit_route_methods methods t info name r1)
        (\<lambda>_ r2. (Inr (), set_named name' p ns r2))))" for info name name' p ns
      using ready_commit [of t r1 methods info name]
      by (cases "commit_route_methods methods t info name r1"; cases "fst (commit_route_methods methods t info name r1)")
        (auto intro: router_wf_same ready_wf)
    with Inr c x tn cr show ?thesis
      by (simp add: add_route_def Let_def split: sum.split)
  qed (use Inr c cr in \<open>simp add: add_route_def\<close>)
qed (use assms in \<open>simp add: add_route_def\<close>)

section \<open>The merge\<close>

lemma join_on_last:
  "\<forall>s \<in> set segs. d \<notin> set s \<Longrightarrow> join_on d segs \<noteq> [] \<Longrightarrow> last (join_on d segs) = d \<Longrightarrow>
     segs \<noteq> [] \<and> last segs = []"
proof (induction segs)
  case (Cons s segs)
  show ?case
  proof (cases "segs = []")
    case True
    with Cons.prems show ?thesis by (auto dest: last_in_set)
  next
    case False
    then obtain t ts where segs: "segs = t # ts" by (cases segs) simp_all
    show ?thesis
    proof (cases "join_on d segs = []")
      case True
      with segs have "segs = [[]]" by (cases ts) simp_all
      then show ?thesis by simp
    next
      case nonempty: False
      with Cons False segs show ?thesis by (auto split: if_splits)
    qed
  qed
qed simp

lemma rstrip_char_last: "rstrip_char d s \<noteq> [] \<Longrightarrow> last (rstrip_char d s) \<noteq> d"
  unfolding rstrip_char_def
  by (metis (full_types) hd_dropWhile last_rev rev_is_Nil_conv)

lemma merge_path_flag:
  assumes "\<forall>s \<in> set segs. CHR ''/'' \<notin> set s" "prefix \<noteq> [] \<Longrightarrow> last prefix \<noteq> CHR ''/''"
    "split_path (merge_path prefix segs) \<noteq> []" "last (split_path (merge_path prefix segs)) = []"
  shows "segs \<noteq> [] \<and> last segs = []"
proof -
  have slash: "has_trailing_slash (merge_path prefix segs)" by (rule split_path_last_empty [OF assms(3,4)])
  have nonempty: "merge_path prefix segs \<noteq> []" by (simp add: merge_path_def Let_def)
  with slash have p: "merge_path prefix segs \<noteq> ''/''" "last (merge_path prefix segs) = CHR ''/''"
    using ends_with_last [OF nonempty] by (simp_all add: has_trailing_slash_def)
  show ?thesis
  proof (cases "join_on (CHR ''/'') segs = []")
    case True
    with p assms(2) show ?thesis by (auto simp: merge_path_def split: if_splits)
  next
    case False
    with p(2) have "last (join_on (CHR ''/'') segs) = CHR ''/''"
      by (simp add: merge_path_def Let_def)
    with join_on_last [OF assms(1) False] show ?thesis by blast
  qed
qed

lemma commit_merged_ready:
  assumes "ready t r" "commit_merged_method t m info name path names r = (x, r')"
  shows "router_wf r'"
proof -
  have put: "router_wf (set_named name path names (put_handler t m info r1))"
    if "ready t r1" for r1
    using ready_wf [OF ready_put_handler [OF that]] by (rule router_wf_same) simp_all
  have drop: "ready t (drop_replaced_name e name t m r)" for e
    by (rule ready_same [OF assms(1)]) simp_all
  show ?thesis
    using assms(2) put [OF assms(1)] put [OF drop] ready_wf [OF assms(1)]
    by (auto simp: commit_merged_method_def split: option.splits if_splits sum.splits)
qed

lemma merge_methods_wf:
  "router_wf r \<Longrightarrow> merge_methods env path fl hs r = (x, r') \<Longrightarrow>
     (hs \<noteq> [] \<Longrightarrow> split_path path \<noteq> [] \<Longrightarrow> last (split_path path) = [] \<Longrightarrow> trailing_slash fl) \<Longrightarrow>
     router_wf r'"
proof (induction hs arbitrary: r)
  case (Cons mi hs)
  obtain m info where mi: "mi = (m, info)" by (cases mi)
  obtain y r1 where y: "insert_into_tree env path r = (y, r1)" by (cases "insert_into_tree env path r")
  note ins = insert_into_tree_wf [OF y Cons.prems(1)]
  have wf1: "router_wf r1" using ins(1,2) by (simp add: router_wf_def)
  show ?case
  proof (cases y)
    case (Inl e)
    with Cons.prems(2) mi y wf1 show ?thesis by simp
  next
    case y': (Inr an)
    obtain a names where an: "an = (a, names)" by (cases an)
    show ?thesis
    proof (cases "merged_info env r1 m info names path")
      case (Inl e)
      with Cons.prems(2) mi y y' an wf1 show ?thesis by simp
    next
      case (Inr info')
      let ?r2 = "r1\<lparr>rt_root := update_at a
          (add_flags (trailing_slash fl) (unslashed_variant fl) (tolerant_slash fl)) (rt_root r1)\<rparr>"
      from ins(3) y' an obtain leaf where leaf: "node_at a (rt_root r1) = Some leaf" by blast
      have "trailing_slash fl" if "addr_flag False a"
        using ins(4) y' an that Cons.prems(3) by blast
      with ready_add_flags [OF ins(1,2) leaf] have ready: "ready (TreeTable a) ?r2" by blast
      obtain z r3 where z: "commit_merged_method (TreeTable a) m info' (ri_name info) path names ?r2 = (z, r3)"
        by (cases "commit_merged_method (TreeTable a) m info' (ri_name info) path names ?r2")
      have wf3: "router_wf r3" by (rule commit_merged_ready [OF ready z])
      from Cons.prems(2) mi y y' an Inr z
      have "and_then (z, r3) (\<lambda>_. merge_methods env path fl hs) = (x, r')" by (simp add: Let_def)
      then show ?thesis
        using Cons.IH [OF wf3] Cons.prems(3) wf3 by (cases z) simp_all
    qed
  qed
qed simp

lemma and_then_wf:
  assumes "and_then y f = (x, r')" "router_wf (snd y)" "\<And>v. router_wf (snd y) \<Longrightarrow> router_wf (snd (f v (snd y)))"
  shows "router_wf r'"
  using assms by (cases y; cases "fst y") (auto, metis snd_conv)

lemma merge_node_wf:
  "wf_tree e n \<Longrightarrow> router_wf r \<Longrightarrow> (prefix \<noteq> [] \<Longrightarrow> last prefix \<noteq> CHR ''/'') \<Longrightarrow>
     \<forall>s \<in> set segs. CHR ''/'' \<notin> set s \<Longrightarrow> (segs \<noteq> [] \<Longrightarrow> last segs = [] \<Longrightarrow> e) \<Longrightarrow>
     router_wf (snd (merge_node env prefix segs n r))"
  "list_all (\<lambda>(s, c). CHR ''/'' \<notin> set s \<and> wf_tree (s = []) c) st \<Longrightarrow> router_wf r \<Longrightarrow>
     (prefix \<noteq> [] \<Longrightarrow> last prefix \<noteq> CHR ''/'') \<Longrightarrow> \<forall>s \<in> set segs. CHR ''/'' \<notin> set s \<Longrightarrow>
     router_wf (snd (merge_static env prefix segs st r))"
  "list_all (\<lambda>(k, c). seg_ok k \<and> wf_tree False c) ps \<Longrightarrow> router_wf r \<Longrightarrow>
     (prefix \<noteq> [] \<Longrightarrow> last prefix \<noteq> CHR ''/'') \<Longrightarrow> \<forall>s \<in> set segs. CHR ''/'' \<notin> set s \<Longrightarrow>
     router_wf (snd (merge_params env prefix segs ps r))"
proof (induction env prefix segs n r and env prefix segs st r and env prefix segs ps r
    arbitrary: e and and rule: merge_node_merge_static_merge_params.induct)
  case (1 env prefix segs st ps w hs fl r)
  obtain x1 r1 where s1: "merge_methods env (merge_path prefix segs) fl hs r = (x1, r1)"
    by (cases "merge_methods env (merge_path prefix segs) fl hs r")
  have "trailing_slash fl"
    if "hs \<noteq> []" "split_path (merge_path prefix segs) \<noteq> []" "last (split_path (merge_path prefix segs)) = []"
    using merge_path_flag [OF 1(7,6) that(2,3)] 1(4,8) that(1) by simp
  then have w1: "router_wf r1" using merge_methods_wf [OF 1(5) s1] by blast
  show ?case
  proof (cases x1)
    case x1: (Inr u1)
    obtain x2 r2 where s2: "merge_static env prefix segs st r1 = (x2, r2)"
      by (cases "merge_static env prefix segs st r1")
    have w2: "router_wf r2" using 1(1) [OF s1[unfolded x1] _ w1 1(6,7)] 1(4) s2 by simp
    show ?thesis
    proof (cases x2)
      case x2: (Inr u2)
      obtain x3 r3 where s3: "merge_params env prefix segs ps r2 = (x3, r3)"
        by (cases "merge_params env prefix segs ps r2")
      have w3: "router_wf r3"
        using 1(2) [OF s1[unfolded x1] s2[unfolded x2] _ w2 1(6,7)] 1(4) s3 by simp
      show ?thesis
      proof (cases x3)
        case x3: (Inr u3)
        show ?thesis
        proof (cases w)
          case (Some c)
          have "router_wf (snd (merge_node env prefix (segs @ [''*'']) c r3))"
            using 1(3) [OF s1[unfolded x1] s2[unfolded x2]
                s3[unfolded x3] Some, of False] 1(4,6,7) w3 Some by simp
          with s1 s2 s3 x1 x2 x3 Some show ?thesis by simp
        qed (use s1 s2 s3 x1 x2 x3 w3 in simp)
      qed (use s1 s2 s3 x1 x2 w3 in simp)
    qed (use s1 s2 x1 w2 in simp)
  qed (use s1 w1 in simp)
next
  case (3 env prefix segs s c st r)
  obtain x1 r1 where s1: "merge_node env prefix (segs @ [s]) c r = (x1, r1)"
    by (cases "merge_node env prefix (segs @ [s]) c r")
  have "router_wf r1" using 3(1) [of "s = []"] 3(3-6) s1 by simp
  with 3(2) 3(3-6) s1 show ?case by (cases x1) auto
next
  case (5 env prefix segs k c ps r)
  obtain x1 r1 where s1: "merge_node env prefix (segs @ [pk_segment k]) c r = (x1, r1)"
    by (cases "merge_node env prefix (segs @ [pk_segment k]) c r")
  have "router_wf r1" using 5(1) [of False] 5(3-6) s1 by (simp add: seg_ok_def)
  with 5(2) 5(3-6) s1 show ?case by (cases x1) auto
qed simp_all

lemma merge_regex_methods_wf:
  "router_wf r \<Longrightarrow> router_wf (snd (merge_regex_methods env path i names hs r))"
proof (induction hs arbitrary: r)
  case (Cons mi hs)
  obtain m info where mi: "mi = (m, info)" by (cases mi)
  show ?case
  proof (cases "merged_info env r m info names path")
    case (Inr info')
    obtain z r1 where z: "commit_merged_method (RegexTable i) m info' (ri_name info) path names r = (z, r1)"
      by (cases "commit_merged_method (RegexTable i) m info' (ri_name info) path names r")
    have "ready (RegexTable i) r" using Cons.prems by (simp add: ready_def)
    then have "router_wf r1" using commit_merged_ready z by blast
    with mi Inr z Cons.IH show ?thesis by (cases z) simp_all
  qed (use mi Cons.prems in simp)
qed simp

lemma merge_regex_routes_wf:
  "router_wf r \<Longrightarrow> router_wf (snd (merge_regex_routes env prefix srcs r))"
proof (induction srcs arbitrary: r)
  case (Cons src srcs)
  obtain x r1 where x: "get_or_create_regex env (prefix @ rr_template src) r = (x, r1)"
    by (cases "get_or_create_regex env (prefix @ rr_template src) r")
  have w1: "router_wf r1" by (rule router_wf_same [OF Cons.prems]) (rule get_or_create_regex_parts [OF x])+
  show ?case
  proof (cases x)
    case (Inr iv)
    obtain i names where iv: "iv = (i, names)" by (cases iv)
    let ?r2 = "if rr_tolerant src then set_regex_tolerant i r1 else r1"
    have "router_wf (set_regex_tolerant i r1)" by (rule router_wf_same [OF w1]) simp_all
    with w1 have w2: "router_wf ?r2" by simp
    obtain y r3 where y: "merge_regex_methods env (prefix @ rr_template src) i names (rr_handlers src) ?r2 = (y, r3)"
      by (cases "merge_regex_methods env (prefix @ rr_template src) i names (rr_handlers src) ?r2")
    have "router_wf r3" using merge_regex_methods_wf [OF w2] y by (metis snd_conv)
    with x Inr iv y Cons.IH show ?thesis by (cases y) (simp_all add: Let_def)
  qed (use x w1 in simp)
qed simp

lemma include_router_wf:
  assumes "router_wf r" "router_wf src"
  shows "router_wf (snd (include_router env src prefix r))"
proof -
  let ?p = "rstrip_char (CHR ''/'') prefix"
  have "router_wf (snd (merge_node env ?p [] (rt_root src) r))"
    using assms by (intro merge_node_wf(1) [of False]) (auto simp: router_wf_def rstrip_char_last)
  then show ?thesis
    using merge_regex_routes_wf
    by (cases "merge_node env ?p [] (rt_root src) r"; cases "fst (merge_node env ?p [] (rt_root src) r)")
      (auto simp: include_router_def Let_def)
qed

lemma match_route_wf: "router_wf r \<Longrightarrow> router_wf (snd (match_route env m p r))"
  by (auto simp: match_route_def Let_def router_wf_def static_map_def split: option.splits)

section \<open>Reachable routers\<close>

text \<open>The routers a program can build: constructed, registered on, included into, matched.\<close>

inductive reachable :: "router \<Rightarrow> bool" where
  reach_new: "router_init p t c d s o' = Inr r \<Longrightarrow> reachable r"
| reach_add: "reachable r \<Longrightarrow> reachable (snd (add_route env path ms a r))"
| reach_include: "reachable r \<Longrightarrow> reachable src \<Longrightarrow> reachable (snd (include_router env src prefix r))"
| reach_match: "reachable r \<Longrightarrow> reachable (snd (match_route env m path r))"

lemma reachable_wf: "reachable r \<Longrightarrow> router_wf r"
  by (induction rule: reachable.induct)
    (simp_all add: router_wf_init add_route_wf include_router_wf match_route_wf)

lemma match_route_dispatch:
  assumes "router_wf r"
  shows "fst (match_route env m p r) = dispatch env m p r"
proof -
  have static: "static_map r = build_static_routes (rt_root r)" and wf: "wf_tree False (rt_root r)"
    using assms by (auto simp: router_wf_def static_map_def split: option.split)
  have same: "dispatch env m p (r\<lparr>rt_static := x\<rparr>) = dispatch env m p r" for x
    by (cases "match_tree (env_ext env) (rt_root r) m p") (simp_all add: dispatch_def split: option.split)
  show ?thesis
  proof (cases "map_of (static_map r) (m, p)")
    case None
    then show ?thesis by (simp add: match_route_def Let_def same)
  next
    case (Some i)
    then have "match_tree (env_ext env) (rt_root r) m p = Inr (Some (i, []))"
      using static_map_sound [OF wf] static by simp
    with Some show ?thesis by (simp add: match_route_def Let_def dispatch_def)
  qed
qed

end
