(* ===== verification/Router_Props.thy ===== *)
theory Router_Props
  imports Router_Inv
begin

text \<open>
  What the router promises: the map of literal routes changes no answer, a registered literal
  route is reached at its own path, the \<open>Allow\<close> header names the methods that would match, a
  refused registration leaves every handler and every name, and what a replacement does to
  the names.
\<close>

section \<open>Literal routes\<close>

definition literal_segment :: "string \<Rightarrow> bool" where
  "literal_segment s \<longleftrightarrow> CHR ''{'' \<notin> set s \<and> CHR ''}'' \<notin> set s \<and> s \<noteq> ''*''"

definition literal_path :: "string \<Rightarrow> bool" where
  "literal_path p \<longleftrightarrow> list_all literal_segment (split_on (CHR ''/'') p)"

lemma literal_not_param: "literal_segment s \<Longrightarrow> \<not> is_param_segment s"
  by (cases s) (auto simp: literal_segment_def is_param_segment_def starts_with_def)

lemma insert_static:
  "list_all literal_segment segs \<Longrightarrow> insert_path env segs n = (r, n') \<Longrightarrow> r = Inr (map SStatic segs, [])"
proof (induction segs arbitrary: n r n')
  case (Cons seg segs)
  obtain st ps w hs fl where n: "n = Node st ps w hs fl" by (cases n)
  have lit: "\<not> is_param_segment seg" "seg \<noteq> ''*''"
    using Cons.prems(1) literal_not_param by (simp_all add: literal_segment_def)
  from Cons.prems(2)[unfolded n] show ?case
  proof (cases rule: insert_path_cases)
    case (static r' c')
    with Cons.IH [OF _ static(3)] Cons.prems(1) show ?thesis by simp
  qed (use lit in auto)
qed simp

lemma static_walk_node_at: "static_walk n segs = node_at (map SStatic segs) n"
proof (induction segs arbitrary: n)
  case (Cons s segs)
  then show ?case by (cases "map_of (static_children n) s") simp_all
qed simp

lemma split_path_subset: "set (split_path p) \<subseteq> set (split_on (CHR ''/'') p)"
  unfolding split_path_def Let_def by (meson in_set_dropD in_set_takeD subsetI)

lemma literal_split: "literal_path p \<Longrightarrow> list_all literal_segment (split_path p)"
  using split_path_subset by (auto simp: literal_path_def list_all_iff)

lemma no_brace_placeholders: "CHR ''{'' \<notin> set s \<Longrightarrow> scan_placeholders pos s = []"
  by (induction s arbitrary: pos) auto

lemma literal_not_regex:
  assumes "literal_path p"
  shows "is_regex_path env p = Inr False"
proof -
  have "\<not> any_forces_regex env segs" if "list_all literal_segment segs" for segs
    using that
    by (induction segs)
      (auto simp: segment_forces_regex_def literal_segment_def iter_placeholders_def no_brace_placeholders)
  then show ?thesis using assms
    by (simp add: is_regex_path_def Let_def literal_path_def list_all_iff)
qed

lemma classify_literal:
  assumes "literal_path p" "router_wf r"
  shows "\<exists>leaf r'. classify_route_path env p strict r = (Inr (TreeTable (map SStatic (split_path p)), []), r')
     \<and> node_at (map SStatic (split_path p)) (rt_root r') = Some leaf
     \<and> (if has_trailing_slash p then trailing_slash (slash leaf) else unslashed_variant (slash leaf))
     \<and> ready (TreeTable (map SStatic (split_path p))) r'"
proof -
  obtain x r1 where x: "insert_into_tree env p r = (x, r1)" by (cases "insert_into_tree env p r")
  let ?a = "map SStatic (split_path p)"
  have xa: "x = Inr (?a, [])"
    using x insert_static [OF literal_split [OF assms(1)], of "env_conv env" "rt_root r"]
    by (cases "insert_path (env_conv env) (split_path p) (rt_root r)") (simp add: insert_into_tree_def)
  obtain leaf where leaf: "node_at ?a (rt_root r1) = Some leaf"
    using insert_into_tree_wf(3) [OF x assms(2) xa] by blast
  let ?f = "add_flags (has_trailing_slash p) (\<not> has_trailing_slash p) (strict = Some False)"
  let ?r2 = "r1\<lparr>rt_root := update_at ?a ?f (rt_root r1)\<rparr>"
  have c: "classify_route_path env p strict r = (Inr (TreeTable ?a, []), ?r2)"
    using literal_not_regex [OF assms(1)] x xa by (simp add: classify_route_path_def)
  moreover have "node_at ?a (rt_root ?r2) = Some (?f leaf)" using node_at_update [OF leaf] by simp
  moreover have "ready (TreeTable ?a) ?r2" using classify_ready [OF c assms(2)] by blast
  ultimately show ?thesis by fastforce
qed

section \<open>The commit\<close>

lemma put_node:
  assumes "node_at a (rt_root r) = Some leaf"
  shows "node_at a (rt_root (put_handler (TreeTable a) m info r)) =
     Some (set_handlers (dict_set m info (handlers leaf)) leaf)"
  using node_at_update [OF assms, of "\<lambda>n. set_handlers (dict_set m info (handlers n)) n"]
  by (simp add: put_handler_def)

lemma puts_node:
  "node_at a (rt_root r) = Some leaf \<Longrightarrow>
     \<exists>leaf'. node_at a (rt_root (fold (\<lambda>m. put_handler (TreeTable a) (str_upper m) info) ms r)) = Some leaf'
       \<and> slash leaf' = slash leaf
       \<and> (\<forall>k. map_of (handlers leaf') k =
            (if k \<in> str_upper ` set ms then Some info else map_of (handlers leaf) k))"
proof (induction ms arbitrary: r leaf)
  case (Cons m ms)
  let ?r1 = "put_handler (TreeTable a) (str_upper m) info r"
  let ?leaf1 = "set_handlers (dict_set (str_upper m) info (handlers leaf)) leaf"
  from Cons.IH [OF put_node [OF Cons.prems, of "str_upper m" info]] obtain leaf' where
    "node_at a (rt_root (fold (\<lambda>m. put_handler (TreeTable a) (str_upper m) info) ms ?r1)) = Some leaf'"
    "slash leaf' = slash leaf"
    "\<forall>k. map_of (handlers leaf') k =
      (if k \<in> str_upper ` set ms then Some info else map_of (handlers ?leaf1) k)" by auto
  then show ?case by (auto simp: py_dict_simps)
qed simp

lemma drops_root [simp]:
  "rt_root (fold (\<lambda>(m, e). drop_replaced_name e name t m) reps r) = rt_root r"
  by (induction reps arbitrary: r) (simp_all add: case_prod_unfold)

lemma commit_node:
  assumes "commit_route_methods ms (TreeTable a) info name r = (Inr (), r')"
    "node_at a (rt_root r) = Some leaf"
  shows "\<exists>leaf'. node_at a (rt_root r') = Some leaf' \<and> slash leaf' = slash leaf
       \<and> (\<forall>k. map_of (handlers leaf') k =
            (if k \<in> str_upper ` set ms then Some info else map_of (handlers leaf) k))"
proof -
  obtain reps where reps: "commit_check (rt_on_duplicate r) (handlers_at r (TreeTable a)) info ms = Inr reps"
    using assms(1) by (auto simp: commit_route_methods_def split: sum.splits)
  let ?r1 = "fold (\<lambda>(m, e). drop_replaced_name e name (TreeTable a) m) reps r"
  have "node_at a (rt_root ?r1) = Some leaf" using assms(2) by simp
  from puts_node [OF this, of info ms] assms(1) reps show ?thesis
    by (simp add: commit_route_methods_def Let_def)
qed

text \<open>A literal node with a handler for the method and the right flag answers the request.\<close>

lemma dispatch_literal:
  assumes "node_at (map SStatic (split_path p)) (rt_root r) = Some leaf"
    "map_of (handlers leaf) m = Some info"
    "if has_trailing_slash p then trailing_slash (slash leaf) else unslashed_variant (slash leaf)"
  shows "dispatch env m p r = Inr (Some (info, []))"
proof -
  have hs: "handlers leaf \<noteq> []" using assms(2) by auto
  have "match_node (env_ext env) (rt_root r) (split_path p) [] = MHit leaf []"
    using match_node_static [OF _ hs] assms(1) by (simp add: static_walk_node_at)
  moreover have "\<not> slash_mismatch leaf (has_trailing_slash p)"
    using assms(3) by (auto simp: slash_mismatch_def Let_def split: if_splits)
  moreover have "lookup_method (handlers leaf) m = Some info"
    using assms(2) by (simp add: lookup_method_def)
  ultimately show ?thesis by (simp add: dispatch_def match_tree_def)
qed

lemma add_route_literal:
  assumes "router_wf r" "add_route env path ms a r = (Inr (), r')" "literal_path (rt_prefix r @ path)"
  obtains leaf info where
    "node_at (map SStatic (split_path (rt_prefix r @ path))) (rt_root r') = Some leaf"
    "if has_trailing_slash (rt_prefix r @ path) then trailing_slash (slash leaf)
     else unslashed_variant (slash leaf)"
    "\<forall>m \<in> set ms. map_of (handlers leaf) (str_upper m) = Some info"
    "ri_handler info = a_handler (aa_route a)" "ri_path_template info = rt_prefix r @ path"
proof -
  let ?p = "rt_prefix r @ path"
  let ?t = "TreeTable (map SStatic (split_path ?p))"
  obtain leaf r1 where c: "classify_route_path env ?p (aa_strict_slashes a) r = (Inr (?t, []), r1)"
    and leaf: "node_at (map SStatic (split_path ?p)) (rt_root r1) = Some leaf"
    and slash: "if has_trailing_slash ?p then trailing_slash (slash leaf)
      else unslashed_variant (slash leaf)"
    using classify_literal [OF assms(3,1)] by blast
  from assms(2) c obtain info name r2 where
    info: "res_bind (add_route_info env r1 ?p [] a)
        (finalize_plans (env_plan env) (list_ex is_websocket ms) None) = Inr info"
    and commit: "commit_route_methods ms ?t info name r1 = (Inr (), r2)"
    and r': "r' = set_named name ?p [] r2"
    by (auto simp: add_route_def Let_def and_then_Inr_iff split: sum.splits)
  from info obtain info0 where "add_route_info env r1 ?p [] a = Inr info0"
    "finalize_plans (env_plan env) (list_ex is_websocket ms) None info0 = Inr info"
    by (auto simp: res_bind_Inr_iff)
  then have "ri_handler info = a_handler (aa_route a)" "ri_path_template info = ?p"
    by (auto simp: finalize_plans_fields add_route_info_def res_bind_Inr_iff Let_def route_init_def)
  moreover obtain leaf' where "node_at (map SStatic (split_path ?p)) (rt_root r2) = Some leaf'"
    "slash leaf' = slash leaf" "\<forall>k. map_of (handlers leaf') k =
      (if k \<in> str_upper ` set ms then Some info else map_of (handlers leaf) k)"
    using commit_node [OF commit leaf] by blast
  ultimately show thesis using that [of leaf' info] slash r' by simp
qed

section \<open>What a refused registration leaves\<close>

lemma handlers_at_tree: "handlers_at r (TreeTable a) = table_at (rt_root r) a"
  by (simp add: handlers_at_def table_at_def)

lemma get_or_create_handlers:
  assumes "get_or_create_regex env path r = (x, r')"
  shows "handlers_at r' t = handlers_at r t"
    "x = Inr (i, names) \<Longrightarrow> i < length (rt_regex r')"
proof -
  show "handlers_at r' t = handlers_at r t"
    using assms
    by (cases t) (auto simp: get_or_create_regex_def handlers_at_def nth_append
        split: option.splits sum.splits if_splits)
  show "x = Inr (i, names) \<Longrightarrow> i < length (rt_regex r')"
    using assms
    by (auto simp: get_or_create_regex_def find_regex_def find_Some_iff nth_enumerate_eq
        split: option.splits sum.splits)
qed

lemma tolerant_handlers: "handlers_at (set_regex_tolerant i r) t = handlers_at r t"
proof (cases t)
  case (RegexTable j)
  then show ?thesis
    by (cases "j = i") (simp_all add: handlers_at_def set_regex_tolerant_def)
qed (simp add: handlers_at_def)

lemma set_regex_tolerant_names [simp]:
  "rt_named (set_regex_tolerant i r) = rt_named r" "rt_reverse (set_regex_tolerant i r) = rt_reverse r"
  "rt_on_duplicate (set_regex_tolerant i r) = rt_on_duplicate r"
  by (simp_all add: set_regex_tolerant_def)

text \<open>Placing a path moves no handler and no name, whatever comes of it.\<close>

lemma classify_frame:
  assumes "classify_route_path env path strict r = (x, r')" "router_wf r"
  shows "handlers_at r' t = handlers_at r t" "rt_named r' = rt_named r"
    "rt_on_duplicate r' = rt_on_duplicate r"
proof -
  have "handlers_at r' t = handlers_at r t \<and> rt_named r' = rt_named r
      \<and> rt_on_duplicate r' = rt_on_duplicate r"
  proof (cases "is_regex_path (env_conv env) path")
    case (Inr b)
    show ?thesis
    proof (cases b)
      case True
      obtain y r1 where y: "get_or_create_regex env path r = (y, r1)"
        by (cases "get_or_create_regex env path r")
      with assms(1) Inr True have "r' = r1 \<or> (\<exists>i. r' = set_regex_tolerant i r1)"
        by (cases y) (auto simp: classify_route_path_def split: if_splits)
      then show ?thesis
        using get_or_create_handlers(1) [OF y] get_or_create_regex_parts [OF y] tolerant_handlers by auto
    next
      case False
      obtain y r1 where y: "insert_into_tree env path r = (y, r1)"
        by (cases "insert_into_tree env path r")
      note ins = insert_into_tree_wf [OF y assms(2)]
      have tbl: "handlers_at r1 t = handlers_at r t" for t
      proof (cases t)
        case (TreeTable a)
        with y assms(2) insert_table show ?thesis
          by (auto simp: insert_into_tree_def handlers_at_tree router_wf_def split: prod.splits)
      qed (simp add: handlers_at_def ins(5))
      show ?thesis
      proof (cases y)
        case (Inl e)
        with assms(1) Inr False y tbl ins show ?thesis by (simp add: classify_route_path_def)
      next
        case y': (Inr an)
        obtain a names where an: "an = (a, names)" by (cases an)
        let ?f = "add_flags (has_trailing_slash path) (\<not> has_trailing_slash path) (strict = Some False)"
        have r': "r' = r1\<lparr>rt_root := update_at a ?f (rt_root r1)\<rparr>"
          using assms(1) Inr False y y' an by (simp add: classify_route_path_def)
        have "table_at (update_at a ?f (rt_root r1)) b = table_at (rt_root r1) b" for b
          using update_table [of ?f "\<lambda>h. h"] ins(3) y' an by auto
        then have "handlers_at r' t = handlers_at r1 t"
          by (cases t) (simp_all add: r' handlers_at_tree, simp add: handlers_at_def)
        with tbl ins r' show ?thesis by simp
      qed
    qed
  qed (use assms in \<open>simp add: classify_route_path_def\<close>)
  then show "handlers_at r' t = handlers_at r t" "rt_named r' = rt_named r"
    "rt_on_duplicate r' = rt_on_duplicate r" by simp_all
qed

lemma add_route_error_frame:
  assumes "router_wf r" "add_route env path ms a r = (Inl e, r')"
  shows "handlers_at r' t = handlers_at r t" "rt_named r' = rt_named r"
proof -
  have "handlers_at r' t = handlers_at r t \<and> rt_named r' = rt_named r"
  proof (cases "check_duplicate_params (rt_prefix r @ path)")
    case (Inr u)
    obtain x r1 where c: "classify_route_path env (rt_prefix r @ path) (aa_strict_slashes a) r = (x, r1)"
      by (cases "classify_route_path env (rt_prefix r @ path) (aa_strict_slashes a) r")
    have "r' = r1"
    proof (cases x)
      case x: (Inr tn)
      obtain t' names where tn: "tn = (t', names)" by (cases tn)
      show ?thesis
      proof (cases "res_bind (add_route_info env r1 (rt_prefix r @ path) names a)
          (finalize_plans (env_plan env) (list_ex is_websocket ms) None)")
        case info: (Inr info)
        with assms(2) Inr c x tn show ?thesis
          by (cases "commit_check (rt_on_duplicate r1) (handlers_at r1 t') info ms")
            (simp_all add: add_route_def commit_route_methods_def Let_def)
      qed (use assms(2) Inr c x tn in \<open>simp add: add_route_def\<close>)
    qed (use assms(2) Inr c in \<open>simp add: add_route_def\<close>)
    with classify_frame [OF c assms(1)] show ?thesis by simp
  qed (use assms(2) in \<open>simp add: add_route_def\<close>)
  then show "handlers_at r' t = handlers_at r t" "rt_named r' = rt_named r" by simp_all
qed

section \<open>The Allow header\<close>

lemma regex_methods_acc:
  "regex_methods env path rrs acc = Inr ms \<Longrightarrow> set acc \<subseteq> set ms"
proof (induction rrs arbitrary: acc)
  case (Cons rr rrs)
  show ?case
  proof (cases "regex_route_match env rr path")
    case None
    with Cons show ?thesis by simp
  next
    case (Some g)
    with Cons.prems obtain p where "coerce_regex_params (env_ext env) (rr_converters rr) g = Inr p"
      "(case p of None \<Rightarrow> regex_methods env path rrs acc
        | Some params \<Rightarrow> regex_methods env path rrs
            (acc @ filter (\<lambda>m. m \<notin> set acc) (map fst (rr_handlers rr)))) = Inr ms"
      by (auto simp: res_bind_Inr_iff)
    then show ?thesis using Cons.IH by (cases p) force+
  qed
qed simp

text \<open>The methods the regex routes add are those for which one of them answers.\<close>

lemma lookup_upper_iff:
  "lookup_upper hs m \<noteq> None \<longleftrightarrow> m \<in> fst ` set hs \<or> m = ''HEAD'' \<and> ''GET'' \<in> fst ` set hs"
proof -
  have key: "map_of hs k \<noteq> None \<longleftrightarrow> k \<in> fst ` set hs" for k by (simp add: map_of_eq_None_iff)
  show ?thesis
    using key [of m] key [of "''GET''"] by (cases "map_of hs m") (simp_all add: lookup_upper_def)
qed

lemma regex_methods_match:
  assumes "regex_methods env path rrs acc = Inr ms"
  shows "\<exists>x. match_regex env m path rrs = Inr x
     \<and> (x \<noteq> None \<longleftrightarrow> (\<exists>rr \<in> set rrs. \<exists>g p. regex_route_match env rr path = Some g
           \<and> coerce_regex_params (env_ext env) (rr_converters rr) g = Inr (Some p)
           \<and> lookup_upper (rr_handlers rr) (str_upper m) \<noteq> None))"
    and "set ms = set acc \<union> {k. \<exists>rr \<in> set rrs. \<exists>g p. regex_route_match env rr path = Some g
           \<and> coerce_regex_params (env_ext env) (rr_converters rr) g = Inr (Some p)
           \<and> k \<in> fst ` set (rr_handlers rr)}"
  using assms
proof (induction rrs arbitrary: acc)
  case (Cons rr rrs)
  case 1
  show ?case
  proof (cases "regex_route_match env rr path")
    case None
    with 1 Cons.IH(1) show ?thesis by simp
  next
    case (Some g)
    with 1 obtain p where p: "coerce_regex_params (env_ext env) (rr_converters rr) g = Inr p"
      "(case p of None \<Rightarrow> regex_methods env path rrs acc
        | Some params \<Rightarrow> regex_methods env path rrs
            (acc @ filter (\<lambda>m. m \<notin> set acc) (map fst (rr_handlers rr)))) = Inr ms"
      by (auto simp: res_bind_Inr_iff)
    then obtain acc' where "regex_methods env path rrs acc' = Inr ms" by (cases p) auto
    from Cons.IH(1) [OF this] p(1) Some show ?thesis
      by (cases p; cases "lookup_upper (rr_handlers rr) (str_upper m)") auto
  qed
next
  case (Cons rr rrs)
  case 2
  show ?case
  proof (cases "regex_route_match env rr path")
    case None
    with 2 Cons.IH(2) show ?thesis by simp
  next
    case (Some g)
    with 2 obtain p where p: "coerce_regex_params (env_ext env) (rr_converters rr) g = Inr p"
      "(case p of None \<Rightarrow> regex_methods env path rrs acc
        | Some params \<Rightarrow> regex_methods env path rrs
            (acc @ filter (\<lambda>m. m \<notin> set acc) (map fst (rr_handlers rr)))) = Inr ms"
      by (auto simp: res_bind_Inr_iff)
    show ?thesis
    proof (cases p)
      case None
      with p Cons.IH(2) [of acc] Some show ?thesis by simp
    next
      case (Some params)
      with p have "set ms = set (acc @ filter (\<lambda>m. m \<notin> set acc) (map fst (rr_handlers rr))) \<union>
        {k. \<exists>rr \<in> set rrs. \<exists>g p. regex_route_match env rr path = Some g
           \<and> coerce_regex_params (env_ext env) (rr_converters rr) g = Inr (Some p)
           \<and> k \<in> fst ` set (rr_handlers rr)}"
        using Cons.IH(2) by simp
      with p(1) Some \<open>regex_route_match env rr path = Some g\<close> show ?thesis by auto
    qed
  qed
qed simp_all

lemma lookup_method_iff:
  assumes "is_upper_str m"
  shows "lookup_method hs m \<noteq> None \<longleftrightarrow> m \<in> fst ` set hs \<or> m = ''HEAD'' \<and> ''GET'' \<in> fst ` set hs"
proof -
  have key: "map_of hs k \<noteq> None \<longleftrightarrow> k \<in> fst ` set hs" for k by (simp add: map_of_eq_None_iff)
  show ?thesis
    using key [of m] key [of "''GET''"] assms
    by (cases "map_of hs m") (simp_all add: lookup_method_def Let_def)
qed

lemma tree_methods:
  fixes env :: route_env and r :: router and path :: string
  assumes "is_upper_str m"
  defines "acc \<equiv> (case match_node (env_ext env) (rt_root r) (split_path path) [] of
      MHit n pr \<Rightarrow> (if handlers n \<noteq> [] \<and> \<not> slash_mismatch n (has_trailing_slash path)
         then map fst (handlers n) else [])
    | _ \<Rightarrow> [])"
  shows "\<not> (\<exists>e. match_node (env_ext env) (rt_root r) (split_path path) [] = MErr e) \<Longrightarrow>
    \<exists>t. match_tree (env_ext env) (rt_root r) m path = Inr t
      \<and> (t \<noteq> None \<longleftrightarrow> m \<in> set acc \<or> m = ''HEAD'' \<and> ''GET'' \<in> set acc)"
proof (cases "match_node (env_ext env) (rt_root r) (split_path path) []")
  case (MHit n pr)
  show ?thesis
  proof (cases "slash_mismatch n (has_trailing_slash path)")
    case False
    have "handlers n = [] \<Longrightarrow> lookup_method (handlers n) m = None"
      using lookup_method_iff [OF assms(1), of "[]"] by auto
    with False MHit lookup_method_iff [OF assms(1), of "handlers n"] show ?thesis
      by (cases "handlers n = []") (auto simp: match_tree_def acc_def)
  qed (use MHit in \<open>simp add: match_tree_def acc_def\<close>)
qed (simp_all add: match_tree_def acc_def)

lemma allowed_methods_iff:
  assumes "get_allowed_methods env path r = Inr ms" "is_upper_str m"
  shows "(\<exists>x. dispatch env m path r = Inr (Some x)) \<longleftrightarrow>
     m \<in> set ms \<or> m = ''HEAD'' \<and> ''GET'' \<in> set ms"
proof -
  let ?mn = "match_node (env_ext env) (rt_root r) (split_path path) []"
  define acc where "acc = (case ?mn of
      MHit n pr \<Rightarrow> (if handlers n \<noteq> [] \<and> \<not> slash_mismatch n (has_trailing_slash path)
         then map fst (handlers n) else [])
    | _ \<Rightarrow> [])"
  have noerr: "\<not> (\<exists>e. ?mn = MErr e)" and rm: "regex_methods env path (rt_regex r) acc = Inr ms"
    using assms(1) by (auto simp: get_allowed_methods_def acc_def split: mres.splits)
  define K where "K = {k. \<exists>rr \<in> set (rt_regex r). \<exists>g p. regex_route_match env rr path = Some g
      \<and> coerce_regex_params (env_ext env) (rr_converters rr) g = Inr (Some p)
      \<and> k \<in> fst ` set (rr_handlers rr)}"
  obtain t where t: "match_tree (env_ext env) (rt_root r) m path = Inr t"
    "t \<noteq> None \<longleftrightarrow> m \<in> set acc \<or> m = ''HEAD'' \<and> ''GET'' \<in> set acc"
    using tree_methods [OF assms(2), of env r path] noerr unfolding acc_def by blast
  obtain x where x: "match_regex env m path (rt_regex r) = Inr x"
    "x \<noteq> None \<longleftrightarrow> m \<in> K \<or> m = ''HEAD'' \<and> ''GET'' \<in> K"
  proof -
    have up: "str_upper m = m" using assms(2) by (simp add: is_upper_str_def)
    show thesis
      using regex_methods_match(1) [OF rm, of m] that
      unfolding K_def lookup_upper_iff up by blast
  qed
  have ms: "set ms = set acc \<union> K" using regex_methods_match(2) [OF rm] by (simp add: K_def)
  have "dispatch env m path r = (case t of Some y \<Rightarrow> Inr (Some y) | None \<Rightarrow> Inr x)"
    using t(1) x(1) by (cases t; cases "rt_regex r") (simp_all add: dispatch_def)
  then have "(\<exists>y. dispatch env m path r = Inr (Some y)) \<longleftrightarrow> t \<noteq> None \<or> x \<noteq> None"
    by (cases t; cases x) simp_all
  with t(2) x(2) ms show ?thesis by blast
qed

section \<open>Concrete routers\<close>

text \<open>An environment for the witnesses: no regular expressions, no dependencies.\<close>

definition wit_env :: route_env where
  "wit_env = \<lparr>env_conv = \<lparr>float_lit = (\<lambda>_. False), ext_init = (\<lambda>_ _. Inl ValueError), custom_reg = []\<rparr>,
     env_ext = (\<lambda>_ _. Inr None),
     env_plan = \<lparr>build_plan = (\<lambda>_ _ _. Inr \<lparr>plan_slots = [], plan_is_coro = True\<rparr>),
                 build_dep_plans = (\<lambda>d _ _. Inr d)\<rparr>,
     re_compile = (\<lambda>_. Inr []), re_match = (\<lambda>_ _. None), env_contract = (\<lambda>_. None)\<rparr>"

definition wit_doc :: route_doc where
  "wit_doc = \<lparr>deprecated = False, response_description = [], response_model_exclude_unset = False,
     response_model_exclude_defaults = False, response_model_by_alias = False,
     response_model_exclude_none = False, include_in_schema = True, operation_id = None,
     openapi_extra = None, callbacks = None, subdomain = None\<rparr>"

definition wit_args :: "nat \<Rightarrow> string \<Rightarrow> bool option \<Rightarrow> add_args" where
  "wit_args fid name strict = \<lparr>
     aa_route = \<lparr>a_handler = \<lparr>fn_id = fid, fn_name = name, fn_doc = None\<rparr>, a_param_names = [],
       a_dependencies = None, a_response_model = None, a_tags = None, a_summary = None,
       a_name = None, a_path_template = [], a_description = None, a_status_code = 200,
       a_response_class = None, a_include = None, a_exclude = None, a_responses = None,
       a_defaults = None, a_host = None, a_mcp = no_mcp, a_excluded = None, a_doc = wit_doc\<rparr>,
     aa_infer_model = False, aa_strict_slashes = strict, aa_exclude = None, aa_stream = False\<rparr>"

definition wit_router :: "string \<Rightarrow> router" where
  "wit_router policy = (case router_init [] None None None None policy of Inr r \<Rightarrow> r | Inl _ \<Rightarrow> undefined)"

lemma split_path_ascii: "list_all is_ascii p \<Longrightarrow> \<forall>s \<in> set (split_path p). list_all is_ascii s"
proof -
  assume p: "list_all is_ascii p"
  have "set s \<subseteq> set p" if "s \<in> set (split_on d p)" for s d
    using that
  proof (induction p arbitrary: s)
    case (Cons a p)
    then show ?case by (fastforce split: list.splits if_splits)
  qed simp
  with p split_path_subset show ?thesis by (fastforce simp: list_all_iff)
qed

lemma wit_child:
  "\<exists>c. map_of (static_children (rt_root (snd (add_route wit_env ''/a'' [''GET''] (wit_args 1 ''get_a'' None)
        (wit_router ''error''))))) ''a'' = Some c \<and> handlers c \<noteq> []"
proof -
  have "map_option (\<lambda>c. handlers c \<noteq> []) (map_of (static_children (rt_root (snd (add_route wit_env ''/a'' [''GET'']
      (wit_args 1 ''get_a'' None) (wit_router ''error''))))) ''a'') = Some True"
    by code_simp
  then show ?thesis by auto
qed

end
