(* ===== verification/Router_Claims.thy ===== *)
theory Router_Claims
  imports Router_Props
begin

text \<open>The properties of the router, each with its witness, over the lemmas of the theories it imports.\<close>

section \<open>Example routers\<close>

definition app_a :: router where
  "app_a = snd (add_route wit_env ''/a'' [''GET''] (wit_args 1 ''get_a'' None) (wit_router ''error''))"

definition app_names :: router where
  "app_names = snd (add_route wit_env ''/a'' [''GET'', ''POST''] (wit_args 1 ''old'' None) (wit_router ''override''))"

definition app_params :: router where
  "app_params = snd (add_route wit_env ''/{y}/c/d'' [''GET''] (wit_args 2 ''two'' None)
     (snd (add_route wit_env ''/a/{x}/b'' [''GET''] (wit_args 1 ''one'' None) (wit_router ''error''))))"

definition app_any :: router where
  "app_any = snd (add_route wit_env ''/t/{c:any(blue)}/b'' [''GET''] (wit_args 2 ''two'' None)
     (snd (add_route wit_env ''/t/{c:any(red)}/a'' [''GET''] (wit_args 1 ''one'' None) (wit_router ''error''))))"

lemma router_init_ok:
  assumes "policy \<in> {''error'', ''warn'', ''override''}"
  shows "router_init [] None None None None policy = Inr (wit_router policy)"
  unfolding wit_router_def router_init_def
  by (simp only: assms not_True_eq_False if_False sum.case)

lemma reachable_wit: "policy \<in> {''error'', ''warn'', ''override''} \<Longrightarrow> reachable (wit_router policy)"
  by (rule reach_new [OF router_init_ok])

lemma reachable_apps: "reachable app_a" "reachable app_names" "reachable app_params"
  unfolding app_a_def app_names_def app_params_def by (intro reach_add reachable_wit; simp)+

lemmas wit_defs = app_a_def app_names_def app_params_def app_any_def

section \<open>Properties\<close>

text \<open>C1: On every router a program can build, the map of literal routes is only an
  optimisation: \<open>match\<close> gives, for every method and path, the result or exception of the
  search of the tree followed by the regex routes.\<close>

theorem static_map_transparent:
  assumes "reachable r"
  shows "fst (match_route env m p r) = dispatch env m p r"
  by (rule match_route_dispatch [OF reachable_wf [OF assms]])

theorem static_map_transparent_witness:
  "fst (match_route wit_env ''GET'' ''/a'' app_a) = dispatch wit_env ''GET'' ''/a'' app_a"
  by (rule static_map_transparent [OF reachable_apps(1)])

text \<open>A registration of a literal path that succeeds is reached: \<open>match\<close> on the path as
  registered (with its trailing slash or without) and any of the methods answers with the
  handler just registered and no path parameters, whatever else the router holds.\<close>

theorem literal_route_reached:
  assumes "reachable r" "add_route env path ms a r = (Inr (), r')"
    "literal_path (rt_prefix r @ path)" "m \<in> set ms"
  shows "\<exists>info. fst (match_route env (str_upper m) (rt_prefix r @ path) r') = Inr (Some (info, []))
     \<and> ri_handler info = a_handler (aa_route a) \<and> ri_path_template info = rt_prefix r @ path"
proof -
  have wf: "router_wf r" by (rule reachable_wf [OF assms(1)])
  obtain leaf info where
    "node_at (map SStatic (split_path (rt_prefix r @ path))) (rt_root r') = Some leaf"
    "if has_trailing_slash (rt_prefix r @ path) then trailing_slash (slash leaf)
     else unslashed_variant (slash leaf)"
    "\<forall>m \<in> set ms. map_of (handlers leaf) (str_upper m) = Some info"
    and info: "ri_handler info = a_handler (aa_route a)" "ri_path_template info = rt_prefix r @ path"
    by (rule add_route_literal [OF wf assms(2,3)])
  then have "dispatch env (str_upper m) (rt_prefix r @ path) r' = Inr (Some (info, []))"
    using assms(4) by (intro dispatch_literal) auto
  moreover have "router_wf r'" using add_route_wf [OF wf, of env path ms a] assms(2) by simp
  ultimately show ?thesis using info match_route_dispatch by metis
qed

theorem literal_route_reached_witness:
  "\<exists>info. fst (match_route wit_env (str_upper ''get'') (rt_prefix (wit_router ''error'') @ ''/a/b/'')
       (snd (add_route wit_env ''/a/b/'' [''get''] (wit_args 1 ''h'' None) (wit_router ''error''))))
       = Inr (Some (info, [])) \<and> fn_id (ri_handler info) = 1"
proof -
  have "\<exists>info. fst (match_route wit_env (str_upper ''get'') (rt_prefix (wit_router ''error'') @ ''/a/b/'')
       (snd (add_route wit_env ''/a/b/'' [''get''] (wit_args 1 ''h'' None) (wit_router ''error''))))
       = Inr (Some (info, [])) \<and> ri_handler info = a_handler (aa_route (wit_args 1 ''h'' None))
       \<and> ri_path_template info = rt_prefix (wit_router ''error'') @ ''/a/b/''"
  proof (rule literal_route_reached [of _ _ _ "[''get'']"])
    show "reachable (wit_router ''error'')" by (simp add: reachable_wit)
    show "add_route wit_env ''/a/b/'' [''get''] (wit_args 1 ''h'' None) (wit_router ''error'') =
      (Inr (), snd (add_route wit_env ''/a/b/'' [''get''] (wit_args 1 ''h'' None) (wit_router ''error'')))"
      by (rule prod_eqI) (simp_all, code_simp)
    show "literal_path (rt_prefix (wit_router ''error'') @ ''/a/b/'')" by code_simp
  qed simp
  then show ?thesis by (auto simp: wit_args_def)
qed

text \<open>C19: The \<open>Allow\<close> header is exact: when \<open>get_allowed_methods\<close> returns for a path, an upper-case
  method is answered by \<open>match\<close> on that path if and only if it is in the list, HEAD also when
  GET is.\<close>

theorem allow_header_exact:
  assumes "reachable r" "get_allowed_methods env path r = Inr ms" "is_upper_str m"
  shows "(\<exists>x. fst (match_route env m path r) = Inr (Some x)) \<longleftrightarrow>
     m \<in> set ms \<or> m = ''HEAD'' \<and> ''GET'' \<in> set ms"
  using allowed_methods_iff [OF assms(2,3)] match_route_dispatch [OF reachable_wf [OF assms(1)]]
  by simp

theorem allow_header_exact_witness:
  "get_allowed_methods wit_env ''/a'' app_a = Inr [''GET'']
   \<and> (\<exists>x. fst (match_route wit_env ''HEAD'' ''/a'' app_a) = Inr (Some x))
   \<and> \<not> (\<exists>x. fst (match_route wit_env ''POST'' ''/a'' app_a) = Inr (Some x))"
proof -
  have ms: "get_allowed_methods wit_env ''/a'' app_a = Inr [''GET'']"
    unfolding app_a_def by code_simp
  have up: "is_upper_str ''HEAD''" "is_upper_str ''POST''" by code_simp+
  show ?thesis
    using allow_header_exact [OF reachable_apps(1) ms up(1)] allow_header_exact [OF reachable_apps(1) ms up(2)]
      ms by simp
qed

text \<open>A registration that raises (a bad or duplicate parameter name, a bad converter, a
  regular expression that does not compile, a duplicate route, ...) leaves every handler
  table and the table of names as they were.\<close>

theorem refused_registration_frame:
  assumes "reachable r" "add_route env path ms a r = (Inl e, r')"
  shows "handlers_at r' t = handlers_at r t \<and> rt_named r' = rt_named r"
  using add_route_error_frame [OF reachable_wf [OF assms(1)] assms(2)] by simp

theorem refused_registration_frame_witness:
  "fst (add_route wit_env ''/a/'' [''POST'', ''GET''] (wit_args 2 ''other'' None) app_a) = Inl DuplicateRouteError
   \<and> (\<forall>t. handlers_at (snd (add_route wit_env ''/a/'' [''POST'', ''GET''] (wit_args 2 ''other'' None) app_a)) t
          = handlers_at app_a t)
   \<and> rt_named (snd (add_route wit_env ''/a/'' [''POST'', ''GET''] (wit_args 2 ''other'' None) app_a))
       = rt_named app_a"
proof -
  let ?x = "add_route wit_env ''/a/'' [''POST'', ''GET''] (wit_args 2 ''other'' None) app_a"
  have fst: "fst ?x = Inl DuplicateRouteError" unfolding app_a_def by code_simp
  then have "?x = (Inl DuplicateRouteError, snd ?x)" by (intro prod_eqI) simp_all
  from refused_registration_frame [OF reachable_apps(1) this] fst show ?thesis by blast
qed

text \<open>A refused registration is still not invisible to requests: after \<open>GET /a\<close>, the
  registration of another handler for \<open>GET /a/\<close> raises \<open>DuplicateRouteError\<close>, but the slash
  flags are set before the check, and \<open>GET /a/\<close>, unanswered before, is then answered by the
  first handler.\<close>

theorem refused_registration_changes_matching:
  "fst (match_route wit_env ''GET'' ''/a/'' app_a) = Inr None
   \<and> fst (add_route wit_env ''/a/'' [''GET''] (wit_args 2 ''other'' None) app_a) = Inl DuplicateRouteError
   \<and> map_sum id (map_option (\<lambda>(i, p). ri_name i)) (fst (match_route wit_env ''GET'' ''/a/''
       (snd (add_route wit_env ''/a/'' [''GET''] (wit_args 2 ''other'' None) app_a)))) = Inr (Some ''get_a'')"
  unfolding app_a_def by (intro conjI; code_simp)

text \<open>Overriding every method of a route at once leaves its name behind: no live route carries
  the name, and the table \<open>url_for\<close> reads still has it, because each method's check sees the
  slot of the other, which is written only afterwards.\<close>

theorem replaced_name_survives:
  "fst (add_route wit_env ''/a'' [''GET'', ''POST''] (wit_args 2 ''new'' None) app_names) = Inr ()
   \<and> list_all (\<lambda>(t, m, i). ri_name i = ''new'') (live_handlers
       (snd (add_route wit_env ''/a'' [''GET'', ''POST''] (wit_args 2 ''new'' None) app_names)))
   \<and> map_of (rt_named (snd (add_route wit_env ''/a'' [''GET'', ''POST''] (wit_args 2 ''new'' None) app_names)))
       ''old'' = Some (''/a'', [])"
  unfolding app_names_def by (intro conjI; code_simp)

text \<open>A capture of an abandoned branch survives into the answer of another route: with
  \<open>/a/{x}/b\<close> and \<open>/{y}/c/d\<close>, the request \<open>/a/c/d\<close> is answered by the second route with the
  parameter \<open>x\<close> of the first beside its own \<open>y\<close>.\<close>

theorem abandoned_capture_leaks:
  "map_sum id (map_option (\<lambda>(i, p). (ri_param_names i, p))) (fst (match_route wit_env ''GET'' ''/a/c/d'' app_params))
     = Inr (Some ([''y''], [(''x'', PStr ''c''), (''y'', PStr ''a'')]))"
  unfolding app_params_def by code_simp

text \<open>Two \<open>any(...)\<close> parameters of the same name at the same place share the first one's
  choices: after \<open>/t/{c:any(red)}/a\<close>, the route \<open>/t/{c:any(blue)}/b\<close> never answers
  \<open>/t/blue/b\<close>, and answers \<open>/t/red/b\<close>.\<close>

theorem any_choices_shared:
  "fst (match_route wit_env ''GET'' ''/t/blue/b'' app_any) = Inr None
   \<and> map_sum id (map_option (\<lambda>(i, p). (ri_name i, p))) (fst (match_route wit_env ''GET'' ''/t/red/b'' app_any))
       = Inr (Some (''two'', [(''c'', PStr ''red'')]))"
  unfolding app_any_def by (intro conjI; code_simp)

text \<open>Soundness of the tree search: what a request is answered with is a handler, for the
  method, of a node that accepts the segments of the path by the specification \<open>accepts\<close>, with
  the slash policy respected; and where no path binds a name twice, every parameter of the
  accepting path has in the result the value its converter gave it.\<close>

theorem tree_search_sound:
  assumes "match_tree ext root m p = Inr (Some (i, pr))"
  shows "\<exists>n bs. accepts ext root (split_path p) bs n \<and> lookup_method (handlers n) m = Some i
     \<and> \<not> slash_mismatch n (has_trailing_slash p)
     \<and> (names_distinct root \<and> ''_wildcard'' \<notin> tree_names root \<longrightarrow>
          (\<forall>(x, v) \<in> set bs. map_of pr x = Some v))"
proof -
  obtain n where n: "match_node ext root (split_path p) [] = MHit n pr"
    "\<not> slash_mismatch n (has_trailing_slash p)" "lookup_method (handlers n) m = Some i"
    using assms by (auto simp: match_tree_def split: mres.splits if_splits)
  from n(1) match_node_sound [of ext root "split_path p" n] n(2,3) show ?thesis by blast
qed

theorem tree_search_sound_witness:
  "\<exists>n bs. accepts (env_ext wit_env) (rt_root app_params) [''a'', ''q'', ''b''] bs n
     \<and> (\<forall>(x, v) \<in> set bs. map_of [(''x'', PStr ''q'')] x = Some v)"
proof -
  obtain i where i: "match_tree (env_ext wit_env) (rt_root app_params) ''GET'' ''/a/q/b''
      = Inr (Some (i, [(''x'', PStr ''q'')]))"
  proof -
    have "map_sum id (map_option snd) (match_tree (env_ext wit_env) (rt_root app_params) ''GET'' ''/a/q/b'')
        = Inr (Some [(''x'', PStr ''q'')])"
      unfolding app_params_def by code_simp
    then show thesis using that
      by (cases "match_tree (env_ext wit_env) (rt_root app_params) ''GET'' ''/a/q/b''") auto
  qed
  have "names_distinct (rt_root app_params)" "''_wildcard'' \<notin> tree_names (rt_root app_params)"
    "split_path ''/a/q/b'' = [''a'', ''q'', ''b'']"
    unfolding app_params_def by code_simp+
  with tree_search_sound [OF i] show ?thesis by auto
qed

text \<open>C20: Completeness of the tree search: if any way of consuming the segments exists, the
  backtracking search finds one, for an ASCII path and a tree that binds no name twice on a
  path.\<close>

theorem tree_search_complete:
  assumes "accepts ext root (split_path p) bs n" "names_distinct root" "ext_total ext"
    "list_all is_ascii p"
  shows "\<exists>n' pr bs'. match_node ext root (split_path p) [] = MHit n' pr \<and> accepts ext root (split_path p) bs' n'"
proof (cases "match_node ext root (split_path p) []")
  case (MErr e)
  with match_no_error [OF assms(3)] assms(2) split_path_ascii [OF assms(4)] show ?thesis by blast
next
  case (MHit n' pr)
  with match_node_sound [of ext root "split_path p" n'] show ?thesis by blast
next
  case (MMiss q)
  with match_node_complete [of ext root "split_path p"] assms(1) show ?thesis by blast
qed

theorem tree_search_complete_witness:
  "\<exists>n' pr bs'. match_node (env_ext wit_env) (rt_root app_a) [''a''] [] = MHit n' pr
     \<and> accepts (env_ext wit_env) (rt_root app_a) [''a''] bs' n'"
proof -
  have split: "split_path ''/a'' = [''a'']" by code_simp
  have walk: "\<exists>c. map_of (static_children (rt_root app_a)) ''a'' = Some c \<and> handlers c \<noteq> []"
    unfolding app_a_def by (rule wit_child)
  then obtain c where "map_of (static_children (rt_root app_a)) ''a'' = Some c" "handlers c \<noteq> []" by blast
  then have "accepts (env_ext wit_env) (rt_root app_a) (split_path ''/a'') [] c"
    unfolding split by (auto intro: accepts.intros)
  moreover have "names_distinct (rt_root app_a)" unfolding app_a_def by code_simp
  moreover have "ext_total (env_ext wit_env)" by (simp add: ext_total_def wit_env_def)
  moreover have "list_all is_ascii ''/a''" by code_simp
  ultimately show ?thesis using tree_search_complete split by metis
qed

text \<open>The rollback \<open>del params[pname]\<close> never raises \<open>KeyError\<close> and no converter raises: the
  search of a tree that binds no name twice on a path returns, for an ASCII path, under the
  assumption that the registered converters raise on no ASCII segment.\<close>

theorem search_returns:
  assumes "names_distinct root" "ext_total ext" "list_all is_ascii p"
  shows "\<exists>x. match_tree ext root m p = Inr x"
  using match_no_error [OF assms(2), of root "split_path p"] assms(1) split_path_ascii [OF assms(3)]
  by (auto simp: match_tree_def split: mres.split)

theorem search_returns_witness:
  "\<exists>x. match_tree (env_ext wit_env) (rt_root app_params) ''GET'' ''/a/c/z'' = Inr x"
proof (rule search_returns)
  show "names_distinct (rt_root app_params)" unfolding app_params_def by code_simp
  show "list_all is_ascii ''/a/c/z''" by code_simp
qed (simp add: ext_total_def wit_env_def)

text \<open>Inserting a path that binds no name twice keeps that no path of the tree binds a name
  twice, keeps every handler where it was, and binds no names but the path's.\<close>

theorem insert_keeps_names:
  assumes "insert_path env (split_path p) n = (r, n')" "names_distinct n"
    "distinct (seg_names (split_path p))" "wf_tree e n"
  shows "names_distinct n' \<and> tree_names n' \<subseteq> tree_names n \<union> set (seg_names (split_path p))
     \<and> (\<forall>a. table_at n' a = table_at n a)"
  using insert_names_distinct [OF assms(1-3)] insert_names [OF assms(1)] insert_table [OF assms(1,4)]
  by blast

theorem insert_keeps_names_witness:
  "names_distinct (snd (insert_path (env_conv wit_env) (split_path ''/u/{id:int}/{slug}'') (empty_node :: nat node)))"
proof -
  let ?n = "empty_node :: nat node"
  have "insert_path (env_conv wit_env) (split_path ''/u/{id:int}/{slug}'') ?n
      = (fst (insert_path (env_conv wit_env) (split_path ''/u/{id:int}/{slug}'') ?n),
         snd (insert_path (env_conv wit_env) (split_path ''/u/{id:int}/{slug}'') ?n))" by simp
  moreover have "distinct (seg_names (split_path ''/u/{id:int}/{slug}''))" by code_simp
  ultimately show ?thesis using insert_keeps_names [where e = False] by fastforce
qed

text \<open>Every tree a program can build is well formed: literal children keyed by segments
  without a slash, parameter children with distinct index keys, and handlers reached by an
  empty last segment only behind the trailing-slash flag; mounting sub-routers, refused
  registrations and matching included.\<close>

theorem reachable_tree_wf:
  assumes "reachable r"
  shows "wf_tree False (rt_root r) \<and> (\<forall>m. rt_static r = Some m \<longrightarrow> m = build_static_routes (rt_root r))"
  using reachable_wf [OF assms] by (simp add: router_wf_def)

theorem reachable_tree_wf_witness: "wf_tree False (rt_root (snd (include_router wit_env app_params ''/api/'' app_a)))"
  using reachable_tree_wf [OF reach_include [OF reachable_apps(1) reachable_apps(3)]] by blast

end
