(* ===== verification/Ttl_Store.thy ===== *)
theory Ttl_Store
  imports Complex_Main Py_Base
begin

text \<open>
  A dictionary of values with an expiry time, bounded in size, as \<open>InMemoryCache\<close> and
  \<open>InMemoryRateLimitBackend\<close> keep it: entries in insertion order, and an eviction that drops
  the expired entries first and the oldest one if that made no room. Times are rationals,
  the exact values of the clock's floats.
\<close>

type_synonym time = rat

type_synonym ('k, 'v) ttl_dict = "('k, 'v \<times> time) dict"

definition drop_expired :: "time \<Rightarrow> ('k, 'v) ttl_dict \<Rightarrow> ('k, 'v) ttl_dict" where
  "drop_expired now d = filter (\<lambda>(k, v, e). \<not> e \<le> now) d"

text \<open>\<open>del d[next(iter(d))]\<close>: the oldest entry.\<close>

definition evict_oldest :: "nat \<Rightarrow> time \<Rightarrow> ('k, 'v) ttl_dict \<Rightarrow> ('k, 'v) ttl_dict" where
  "evict_oldest cap now d =
     (let d' = drop_expired now d in if length d' \<ge> cap then tl d' else d')"

definition store_bounded ::
  "(time \<Rightarrow> ('k, 'v) ttl_dict \<Rightarrow> ('k, 'v) ttl_dict) \<Rightarrow> nat \<Rightarrow> 'k \<Rightarrow> 'v \<Rightarrow> time \<Rightarrow> time
     \<Rightarrow> ('k, 'v) ttl_dict \<Rightarrow> ('k, 'v) ttl_dict" where
  "store_bounded evict cap k v expiry now d =
     dict_set k (v, expiry)
       (if map_of d k = None \<and> length d \<ge> cap then evict now d else d)"

section \<open>What eviction keeps\<close>

lemma dict_ok_drop_expired [simp]: "dict_ok d \<Longrightarrow> dict_ok (drop_expired now d)"
  by (simp add: drop_expired_def dict_ok_filter)

lemma dict_ok_tl: "dict_ok d \<Longrightarrow> dict_ok (tl d)"
  by (cases d) (auto simp: dict_ok_def)

lemma dict_ok_evict [simp]: "dict_ok d \<Longrightarrow> dict_ok (evict_oldest cap now d)"
  by (simp add: evict_oldest_def Let_def dict_ok_tl)

lemma dict_ok_store:
  "dict_ok d \<Longrightarrow> (\<And>d. dict_ok d \<Longrightarrow> dict_ok (evict now d)) \<Longrightarrow> dict_ok (store_bounded evict cap k v e now d)"
  by (simp add: store_bounded_def dict_ok_set)

lemma map_of_drop_expired:
  "dict_ok d \<Longrightarrow> map_of (drop_expired now d) k =
     (case map_of d k of None \<Rightarrow> None | Some (v, e) \<Rightarrow> if e \<le> now then None else Some (v, e))"
proof (induction d)
  case (Cons x d)
  obtain k' v e where x: "x = (k', v, e)" by (cases x)
  have "map_of (drop_expired now d) k' = None"
    using Cons.prems x by (auto simp: drop_expired_def dict_ok_def map_of_eq_None_iff)
  with Cons x show ?case by (auto simp: drop_expired_def dict_ok_def split: option.splits)
qed (simp add: drop_expired_def)

lemma map_of_tl_subset: "dict_ok d \<Longrightarrow> map_of (tl d) k = Some x \<Longrightarrow> map_of d k = Some x"
  by (cases d) (auto simp: dict_ok_def dest: map_of_SomeD intro: rev_image_eqI)

lemma map_of_drop_subset: "dict_ok d \<Longrightarrow> map_of (drop_expired now d) k = Some x \<Longrightarrow> map_of d k = Some x"
  by (auto simp: map_of_drop_expired split: option.splits if_splits)

lemma map_of_evict_subset:
  assumes "dict_ok d" "map_of (evict_oldest cap now d) k = Some x"
  shows "map_of d k = Some x"
proof -
  have "map_of (drop_expired now d) k = Some x"
    using assms(2) map_of_tl_subset [OF dict_ok_drop_expired [OF assms(1)]]
    by (auto simp: evict_oldest_def Let_def split: if_splits)
  then show ?thesis by (rule map_of_drop_subset [OF assms(1)])
qed

lemma length_evict:
  "0 < cap \<Longrightarrow> length d \<le> cap \<Longrightarrow> length (evict_oldest cap now d) < cap"
proof -
  assume "0 < cap" "length d \<le> cap"
  moreover have "length (drop_expired now d) \<le> length d" by (simp add: drop_expired_def)
  ultimately show ?thesis by (auto simp: evict_oldest_def Let_def)
qed

lemma length_store:
  assumes "0 < cap" "length d \<le> cap"
  shows "length (store_bounded (evict_oldest cap) cap k v e now d) \<le> cap"
  using assms length_evict [OF assms, of now]
  by (auto simp: store_bounded_def length_dict_set split: if_splits)

lemma map_of_store_same [simp]: "map_of (store_bounded evict cap k v e now d) k = Some (v, e)"
  by (simp add: store_bounded_def py_dict_simps)

lemma map_of_store_other:
  "dict_ok d \<Longrightarrow> k' \<noteq> k \<Longrightarrow> map_of (store_bounded (evict_oldest cap) cap k v e now d) k' = Some x \<Longrightarrow>
     map_of d k' = Some x"
  by (auto simp: store_bounded_def py_dict_simps dest: map_of_evict_subset split: if_splits)

lemma map_of_store_room:
  "length d < cap \<Longrightarrow> map_of (store_bounded evict cap k v e now d) k' =
     (if k' = k then Some (v, e) else map_of d k')"
  by (simp add: store_bounded_def py_dict_simps)

end
