(* ===== verification/Result_Cache.thy ===== *)
theory Result_Cache
  imports Ttl_Store
begin

text \<open>
  The result cache, after \<open>src/src/veloce/cache.py\<close>: the backend interface \<open>Cache\<close> as a locale,
  \<open>InMemoryCache\<close> as its instance, and the wrapper of \<open>cached\<close> as a client of the interface.
  The clock \<open>time.monotonic()\<close> is an argument of each operation. Encoding and decoding JSON
  (\<open>dumps\<close>, \<open>loads\<close>) and the key of a call are arguments of the wrapper.
\<close>

section \<open>The interface\<close>

text \<open>
  \<open>content c now k\<close> is what the cache holds for \<open>k\<close> at \<open>now\<close>. A backend may forget, but it never
  invents a value, and never serves one after its time.
\<close>

locale cache_backend =
  fixes inv :: "'c \<Rightarrow> bool"
    and content :: "'c \<Rightarrow> time \<Rightarrow> string \<Rightarrow> 'v option"
    and get :: "string \<Rightarrow> time \<Rightarrow> 'c \<Rightarrow> 'v option \<times> 'c"
    and put :: "string \<Rightarrow> 'v \<Rightarrow> int \<Rightarrow> time \<Rightarrow> 'c \<Rightarrow> 'c"
    and delete :: "string \<Rightarrow> 'c \<Rightarrow> 'c"
  assumes get_result: "inv c \<Longrightarrow> fst (get k now c) = content c now k"
    and get_inv: "inv c \<Longrightarrow> inv (snd (get k now c))"
    and get_content: "inv c \<Longrightarrow> now \<le> now' \<Longrightarrow> content (snd (get k now c)) now' k' = content c now' k'"
    and put_inv: "inv c \<Longrightarrow> inv (put k v ttl now c)"
    and put_same: "inv c \<Longrightarrow> content (put k v ttl now c) now' k =
        (if now' < now + of_int ttl then Some v else None)"
    and put_other: "inv c \<Longrightarrow> k' \<noteq> k \<Longrightarrow> content (put k v ttl now c) now' k' = Some w \<Longrightarrow>
        content c now' k' = Some w"
    and delete_inv: "inv c \<Longrightarrow> inv (delete k c)"
    and delete_content: "inv c \<Longrightarrow> content (delete k c) now k' = (if k' = k then None else content c now k')"
begin

lemma get_after_put: "inv c \<Longrightarrow> now' < now + of_int ttl \<Longrightarrow> fst (get k now' (put k v ttl now c)) = Some v"
  by (simp add: get_result put_inv put_same)

lemma get_after_expiry: "inv c \<Longrightarrow> now + of_int ttl \<le> now' \<Longrightarrow> fst (get k now' (put k v ttl now c)) = None"
  by (simp add: get_result put_inv put_same)

lemma get_after_delete: "inv c \<Longrightarrow> fst (get k now (delete k c)) = None"
  by (simp add: get_result delete_inv delete_content)

end

section \<open>InMemoryCache\<close>

record 'v mem_cache =
  mc_entries :: "(string, 'v) ttl_dict"
  mc_max :: nat

definition mc_init :: "nat \<Rightarrow> 'v mem_cache res" where
  "mc_init max_entries =
     (if max_entries < 1 then Inl ValueError else Inr \<lparr>mc_entries = [], mc_max = max_entries\<rparr>)"

definition mc_get :: "string \<Rightarrow> time \<Rightarrow> 'v mem_cache \<Rightarrow> 'v option \<times> 'v mem_cache" where
  "mc_get k now c =
     (case map_of (mc_entries c) k of
        None \<Rightarrow> (None, c)
      | Some (value, expires_at) \<Rightarrow>
          if expires_at \<le> now then (None, c\<lparr>mc_entries := dict_del k (mc_entries c)\<rparr>)
          else (Some value, c))"

definition mc_evict :: "nat \<Rightarrow> time \<Rightarrow> (string, 'v) ttl_dict \<Rightarrow> (string, 'v) ttl_dict" where
  "mc_evict cap now d = evict_oldest cap now d"

definition mc_set :: "string \<Rightarrow> 'v \<Rightarrow> int \<Rightarrow> time \<Rightarrow> 'v mem_cache \<Rightarrow> 'v mem_cache" where
  "mc_set k v ttl now c =
     c\<lparr>mc_entries := store_bounded (mc_evict (mc_max c)) (mc_max c) k v (now + of_int ttl) now (mc_entries c)\<rparr>"

definition mc_delete :: "string \<Rightarrow> 'v mem_cache \<Rightarrow> 'v mem_cache" where
  "mc_delete k c = c\<lparr>mc_entries := dict_del k (mc_entries c)\<rparr>"

definition mc_inv :: "'v mem_cache \<Rightarrow> bool" where
  "mc_inv c \<longleftrightarrow> dict_ok (mc_entries c) \<and> length (mc_entries c) \<le> mc_max c \<and> 0 < mc_max c"

definition mc_content :: "'v mem_cache \<Rightarrow> time \<Rightarrow> string \<Rightarrow> 'v option" where
  "mc_content c now k =
     (case map_of (mc_entries c) k of None \<Rightarrow> None | Some (v, e) \<Rightarrow> if e \<le> now then None else Some v)"

lemma mc_evict_fun [simp]: "mc_evict cap = evict_oldest cap"
  by (simp add: mc_evict_def fun_eq_iff)

lemma mc_inv_init: "mc_init n = Inr c \<Longrightarrow> mc_inv c"
  by (auto simp: mc_init_def mc_inv_def split: if_splits)

lemma mc_inv_set: "mc_inv c \<Longrightarrow> mc_inv (mc_set k v ttl now c)"
  by (simp add: mc_inv_def mc_set_def dict_ok_store length_store)

lemma mc_inv_del: "mc_inv c \<Longrightarrow> mc_inv (c\<lparr>mc_entries := dict_del k (mc_entries c)\<rparr>)"
  using length_dict_del_le [of k "mc_entries c"] by (simp add: mc_inv_def dict_ok_del)

interpretation mem_cache: cache_backend mc_inv mc_content mc_get mc_set mc_delete
proof unfold_locales
  fix c :: "'v mem_cache" and k k' now now'
  assume inv: "mc_inv c"
  show "fst (mc_get k now c) = mc_content c now k"
    by (auto simp: mc_get_def mc_content_def split: option.split)
  show "mc_inv (snd (mc_get k now c))"
    using inv mc_inv_del by (auto simp: mc_get_def split: option.split)
  show "mc_inv (mc_delete k c)" using inv mc_inv_del by (simp add: mc_delete_def)
  show "mc_content (mc_delete k c) now k' = (if k' = k then None else mc_content c now k')"
    by (simp add: mc_delete_def mc_content_def py_dict_simps)
  show "mc_inv (mc_set k v ttl now c)" for v ttl by (rule mc_inv_set [OF inv])
  show "mc_content (mc_set k v ttl now c) now' k = (if now' < now + of_int ttl then Some v else None)" for v ttl
    by (auto simp: mc_set_def mc_content_def)
  show "mc_content (snd (mc_get k now c)) now' k' = mc_content c now' k'" if "now \<le> now'"
    using that by (auto simp: mc_get_def mc_content_def py_dict_simps split: option.splits)
  show "mc_content c now' k' = Some w"
    if "k' \<noteq> k" "mc_content (mc_set k v ttl now c) now' k' = Some w" for v ttl w
  proof -
    from that(2) obtain e where "map_of (mc_entries (mc_set k v ttl now c)) k' = Some (w, e)" "\<not> e \<le> now'"
      by (auto simp: mc_content_def split: option.splits if_splits)
    moreover have "dict_ok (mc_entries c)" using inv by (simp add: mc_inv_def)
    ultimately show ?thesis
      using map_of_store_other [OF _ that(1)] by (fastforce simp: mc_set_def mc_content_def)
  qed
qed

section \<open>cached\<close>

text \<open>
  One call of the wrapper: a hit is decoded, a miss calls the function (its result is the
  argument \<open>result\<close>, and \<open>stored\<close> the clock when it has returned) and stores the encoding.
  A result that cannot be encoded raises. \<open>cached_guard\<close> is the decorator's own check.
\<close>

definition cached_guard :: "int \<Rightarrow> bool \<Rightarrow> unit res" where
  "cached_guard ttl is_async =
     (if ttl < 1 then Inl ValueError else if \<not> is_async then Inl TypeError else Inr ())"

definition cached_call ::
  "(string \<Rightarrow> time \<Rightarrow> 'c \<Rightarrow> 'b option \<times> 'c) \<Rightarrow> (string \<Rightarrow> 'b \<Rightarrow> int \<Rightarrow> time \<Rightarrow> 'c \<Rightarrow> 'c)
     \<Rightarrow> ('r \<Rightarrow> 'b res) \<Rightarrow> ('b \<Rightarrow> 'r) \<Rightarrow> int \<Rightarrow> string \<Rightarrow> time \<Rightarrow> time \<Rightarrow> 'r \<Rightarrow> 'c \<Rightarrow> 'r res \<times> 'c" where
  "cached_call get put dumps loads ttl key now stored result c =
     (case get key now c of
        (Some hit, c1) \<Rightarrow> (Inr (loads hit), c1)
      | (None, c1) \<Rightarrow>
          (case dumps result of
             Inl e \<Rightarrow> (Inl TypeError, c1)
           | Inr payload \<Rightarrow> (Inr result, put key payload ttl stored c1)))"

text \<open>A run of calls: for which key, when, and what the function would return then.\<close>

fun cached_run ::
  "(string \<Rightarrow> time \<Rightarrow> 'c \<Rightarrow> 'b option \<times> 'c) \<Rightarrow> (string \<Rightarrow> 'b \<Rightarrow> int \<Rightarrow> time \<Rightarrow> 'c \<Rightarrow> 'c)
     \<Rightarrow> ('r \<Rightarrow> 'b res) \<Rightarrow> ('b \<Rightarrow> 'r) \<Rightarrow> int \<Rightarrow> (string \<times> time \<times> time \<times> 'r) list \<Rightarrow> 'c \<Rightarrow> 'r res list" where
  "cached_run get put dumps loads ttl [] c = []"
| "cached_run get put dumps loads ttl ((k, now, stored, result) # calls) c =
     (let (r, c1) = cached_call get put dumps loads ttl k now stored result c
      in r # cached_run get put dumps loads ttl calls c1)"

text \<open>The times of a run, in the order the clock is read.\<close>

fun call_times :: "(string \<times> time \<times> time \<times> 'r) list \<Rightarrow> time list" where
  "call_times [] = []"
| "call_times ((k, now, stored, result) # calls) = now # stored # call_times calls"

text \<open>
  The contract of a result: it is what the function returns now, or the decoded encoding of
  what it returned for the same key in an earlier call less than \<open>ttl\<close> ago.
\<close>

definition fresh ::
  "('r \<Rightarrow> 'b res) \<Rightarrow> ('b \<Rightarrow> 'r) \<Rightarrow> int \<Rightarrow> (string \<times> time \<times> time \<times> 'r) list \<Rightarrow> string \<times> time \<times> time \<times> 'r \<Rightarrow> 'r res \<Rightarrow> bool" where
  "fresh dumps loads ttl seen call r \<longleftrightarrow>
     (case call of (k, now, stored, result) \<Rightarrow>
        r = (case dumps result of Inl e \<Rightarrow> Inl TypeError | Inr b \<Rightarrow> Inr result)
        \<or> list_ex (\<lambda>(k', s, t, v). k' = k \<and> now < t + of_int ttl
              \<and> (case dumps v of Inl e \<Rightarrow> False | Inr b \<Rightarrow> r = Inr (loads b))) seen)"

fun fresh_run ::
  "('r \<Rightarrow> 'b res) \<Rightarrow> ('b \<Rightarrow> 'r) \<Rightarrow> int \<Rightarrow> (string \<times> time \<times> time \<times> 'r) list \<Rightarrow> (string \<times> time \<times> time \<times> 'r) list
     \<Rightarrow> 'r res list \<Rightarrow> bool" where
  "fresh_run dumps loads ttl seen [] rs = (rs = [])"
| "fresh_run dumps loads ttl seen (call # calls) rs =
     (case rs of [] \<Rightarrow> False
      | r # rs' \<Rightarrow> fresh dumps loads ttl seen call r \<and> fresh_run dumps loads ttl (seen @ [call]) calls rs')"

context cache_backend
begin

text \<open>Every entry was stored by an earlier call that would still be fresh.\<close>

definition accounted :: "('r \<Rightarrow> 'v res) \<Rightarrow> int \<Rightarrow> (string \<times> time \<times> time \<times> 'r) list \<Rightarrow> time \<Rightarrow> 'c \<Rightarrow> bool" where
  "accounted dumps ttl seen start c \<longleftrightarrow>
     (\<forall>k now b. start \<le> now \<longrightarrow> content c now k = Some b \<longrightarrow>
        (\<exists>s t v. (k, s, t, v) \<in> set seen \<and> now < t + of_int ttl \<and> dumps v = Inr b))"

lemma cached_call_step:
  assumes inv: "inv c" and acc: "accounted dumps ttl seen start c" and now: "start \<le> now" "now \<le> stored"
    and call: "cached_call get put dumps loads ttl k now stored result c = (r, c')"
  shows "fresh dumps loads ttl seen (k, now, stored, result) r" "inv c'"
    "accounted dumps ttl (seen @ [(k, now, stored, result)]) stored c'"
proof -
  obtain x c1 where x: "get k now c = (x, c1)" by (cases "get k now c")
  have xc: "x = content c now k" using get_result [OF inv, of k now] x by simp
  have inv1: "inv c1" using get_inv [OF inv, of k now] x by simp
  have c1: "content c1 now' k' = content c now' k'" if "now \<le> now'" for now' k'
    using get_content [OF inv that, of k k'] x by simp
  have acc1: "accounted dumps ttl (seen @ [(k, now, stored, result)]) stored c1"
    unfolding accounted_def
  proof (intro allI impI)
    fix k' now' b
    assume "stored \<le> now'" and b: "content c1 now' k' = Some b"
    then have now': "now \<le> now'" using now by simp
    from b have "content c now' k' = Some b" using c1 [OF now'] by simp
    moreover have "start \<le> now'" using now now' by simp
    ultimately obtain s t v where "(k', s, t, v) \<in> set seen" "now' < t + of_int ttl" "dumps v = Inr b"
      using acc unfolding accounted_def by blast
    then show "\<exists>s t v. (k', s, t, v) \<in> set (seen @ [(k, now, stored, result)]) \<and> now' < t + of_int ttl \<and> dumps v = Inr b"
      by (intro exI [of _ s] exI [of _ t] exI [of _ v]) simp
  qed
  have "fresh dumps loads ttl seen (k, now, stored, result) r \<and> inv c'
      \<and> accounted dumps ttl (seen @ [(k, now, stored, result)]) stored c'"
  proof (cases x)
    case (Some hit)
    with call x have r: "r = Inr (loads hit)" "c' = c1" by (simp_all add: cached_call_def)
    obtain s t v where "(k, s, t, v) \<in> set seen" "now < t + of_int ttl" "dumps v = Inr hit"
      using acc now xc Some unfolding accounted_def by metis
    then have "fresh dumps loads ttl seen (k, now, stored, result) r"
      using r(1) by (auto simp: fresh_def list_ex_iff intro!: bexI [of _ "(k, s, t, v)"])
    with inv1 acc1 r(2) show ?thesis by simp
  next
    case None
    show ?thesis
    proof (cases "dumps result")
      case (Inl e)
      with call x None inv1 acc1 show ?thesis by (simp add: cached_call_def fresh_def)
    next
      case (Inr b)
      with call x None have r: "r = Inr result" "c' = put k b ttl stored c1"
        by (simp_all add: cached_call_def)
      have "accounted dumps ttl (seen @ [(k, now, stored, result)]) stored c'"
        unfolding accounted_def r(2)
      proof (intro allI impI)
        fix k' now' b'
        assume now': "stored \<le> now'" and b': "content (put k b ttl stored c1) now' k' = Some b'"
        show "\<exists>s t v. (k', s, t, v) \<in> set (seen @ [(k, now, stored, result)]) \<and> now' < t + of_int ttl \<and> dumps v = Inr b'"
        proof (cases "k' = k")
          case True
          with b' put_same [OF inv1] Inr show ?thesis by (auto split: if_splits)
        next
          case False
          with put_other [OF inv1 False b'] acc1 now' show ?thesis unfolding accounted_def by blast
        qed
      qed
      with r Inr inv1 put_inv show ?thesis by (simp add: fresh_def)
    qed
  qed
  then show "fresh dumps loads ttl seen (k, now, stored, result) r" "inv c'"
    "accounted dumps ttl (seen @ [(k, now, stored, result)]) stored c'" by simp_all
qed

lemma cached_run_fresh:
  "inv c \<Longrightarrow> accounted dumps ttl seen start c \<Longrightarrow> sorted (start # call_times calls) \<Longrightarrow>
     fresh_run dumps loads ttl seen calls (cached_run get put dumps loads ttl calls c)"
proof (induction calls arbitrary: c seen start)
  case (Cons call calls)
  obtain k now stored result where call: "call = (k, now, stored, result)" by (cases call)
  obtain r c' where r: "cached_call get put dumps loads ttl k now stored result c = (r, c')"
    by (cases "cached_call get put dumps loads ttl k now stored result c")
  have now: "start \<le> now" "now \<le> stored" using Cons.prems(3) call by simp_all
  note step = cached_call_step [OF Cons.prems(1,2) now r]
  have "fresh_run dumps loads ttl (seen @ [call]) calls (cached_run get put dumps loads ttl calls c')"
    using Cons.IH [OF step(2,3)] Cons.prems(3) call by simp
  with step(1) r call show ?case by simp
qed simp

end

section \<open>Properties\<close>

definition cache0 :: "string mem_cache" where
  "cache0 = \<lparr>mc_entries = [], mc_max = 2\<rparr>"

text \<open>The in-memory cache never exceeds \<open>max_entries\<close> and keeps one entry per key, through any
  set, get and delete.\<close>

theorem mem_cache_bounded:
  assumes "mc_inv c"
  shows "mc_inv (mc_set k v ttl now c) \<and> mc_inv (snd (mc_get k now c)) \<and> mc_inv (mc_delete k c)
     \<and> length (mc_entries (mc_set k v ttl now c)) \<le> mc_max c"
  using mem_cache.put_inv [OF assms, of k v ttl now] mem_cache.get_inv [OF assms, of k now]
    mem_cache.delete_inv [OF assms, of k]
  by (auto simp: mc_inv_def mc_set_def)

theorem mem_cache_bounded_witness:
  "mc_inv (mc_set ''k'' ''v'' 5 0 cache0) \<and> length (mc_entries (mc_set ''k'' ''v'' 5 0 cache0)) \<le> 2"
proof -
  have "mc_inv cache0" by (simp add: mc_inv_def cache0_def)
  from mem_cache_bounded [OF this, of "''k''" "''v''" 5 0] show ?thesis by (simp add: cache0_def)
qed

text \<open>A value set with a time to live is read back until it expires and never after, and a
  deleted one is gone.\<close>

theorem mem_cache_get_set:
  assumes "mc_inv c"
  shows "fst (mc_get k now' (mc_set k v ttl now c)) = (if now' < now + of_int ttl then Some v else None)
     \<and> fst (mc_get k now' (mc_delete k c)) = None"
  using mem_cache.get_after_put [OF assms] mem_cache.get_after_expiry [OF assms]
    mem_cache.get_after_delete [OF assms] by auto

theorem mem_cache_get_set_witness:
  "fst (mc_get ''k'' 4 (mc_set ''k'' ''v'' 5 0 cache0)) = Some ''v''
   \<and> fst (mc_get ''k'' 5 (mc_set ''k'' ''v'' 5 0 cache0)) = None"
proof -
  have inv: "mc_inv cache0" by (simp add: mc_inv_def cache0_def)
  show ?thesis
    using mem_cache_get_set [OF inv, of "''k''" 4 "''v''" 5 0]
      mem_cache_get_set [OF inv, of "''k''" 5 "''v''" 5 0] by simp
qed

text \<open>C26: Through any run of calls on a monotonic clock, what a function under \<open>cached\<close> returns is
  its own result, or the decoded encoding of what it returned for the same key in an earlier
  call that ended less than \<open>ttl\<close> seconds ago; a result that cannot be encoded is a \<open>TypeError\<close>.\<close>

theorem cached_results_fresh:
  assumes "mc_init n = Inr c" "sorted (start # call_times calls)"
  shows "fresh_run dumps loads ttl [] calls (cached_run mc_get mc_set dumps loads ttl calls c)"
  using assms mc_inv_init [OF assms(1)]
  by (intro mem_cache.cached_run_fresh [of _ _ _ _ start])
    (auto simp: mem_cache.accounted_def mc_init_def mc_content_def split: if_splits)

theorem cached_results_fresh_witness:
  "fresh_run Inr (\<lambda>v. v) 5 [] [(''k'', 0, 1, ''a''), (''k'', 3, 4, ''b''), (''k'', 6, 7, ''c'')]
     (cached_run mc_get mc_set Inr (\<lambda>v. v) 5 [(''k'', 0, 1, ''a''), (''k'', 3, 4, ''b''), (''k'', 6, 7, ''c'')] cache0)
   \<and> cached_run mc_get mc_set Inr (\<lambda>v. v) 5 [(''k'', 0, 1, ''a''), (''k'', 3, 4, ''b''), (''k'', 6, 7, ''c'')] cache0
       = [Inr ''a'', Inr ''a'', Inr ''c'']"
proof
  show "fresh_run Inr (\<lambda>v. v) 5 [] [(''k'', 0, 1, ''a''), (''k'', 3, 4, ''b''), (''k'', 6, 7, ''c'')]
     (cached_run mc_get mc_set Inr (\<lambda>v. v) 5 [(''k'', 0, 1, ''a''), (''k'', 3, 4, ''b''), (''k'', 6, 7, ''c'')] cache0)"
    by (rule cached_results_fresh [where n = 2 and start = 0]) (simp_all add: mc_init_def cache0_def)
qed (simp add: cached_call_def mc_get_def mc_set_def cache0_def store_bounded_def)

end
