(* ===== verification/Rate_Limit.thy ===== *)
theory Rate_Limit
  imports Ttl_Store
begin

text \<open>
  Rate limiting, after \<open>src/src/veloce/ratelimit.py\<close>: the strategies \<open>FixedWindow\<close>,
  \<open>SlidingWindow\<close> and \<open>TokenBucket\<close> as state transitions, and \<open>InMemoryRateLimitBackend\<close>.

  The contract between a strategy and a backend is the locale \<open>rate_strategy\<close>: a state that has
  outlived the time to live the strategy gave it decides as no state does. In it, the
  in-memory backend is a refinement of a table that forgets nothing. The numbers of Python
  are exact rationals and integers here; the Lua scripts for Redis are not modelled.
\<close>

record rl_result =
  allowed :: bool
  rl_limit :: int
  remaining :: int
  retry_after :: int
  rl_reset :: int

text \<open>Python's \<open>int(x)\<close> on a float truncates towards zero.\<close>

definition py_trunc :: "rat \<Rightarrow> int" where
  "py_trunc x = (if x < 0 then \<lceil>x\<rceil> else \<lfloor>x\<rfloor>)"

section \<open>FixedWindow\<close>

record fixed_window =
  fw_limit :: int
  fw_window :: int

record fw_state =
  fws_window :: int
  fws_count :: int

definition fw_init :: "int \<Rightarrow> int \<Rightarrow> fixed_window res" where
  "fw_init limit window =
     (if limit < 1 then Inl ValueError else if window < 1 then Inl ValueError
      else Inr \<lparr>fw_limit = limit, fw_window = window\<rparr>)"

definition window_of :: "int \<Rightarrow> time \<Rightarrow> int" where
  "window_of width now = \<lfloor>now / of_int width\<rfloor>"

definition window_reset :: "int \<Rightarrow> time \<Rightarrow> int" where
  "window_reset width now = width - py_trunc now mod width"

definition fw_evaluate ::
  "fixed_window \<Rightarrow> fw_state option \<Rightarrow> time \<Rightarrow> rl_result \<times> fw_state \<times> int" where
  "fw_evaluate fw st now =
     (let window = window_of (fw_window fw) now;
          count = (case st of
             None \<Rightarrow> 1
           | Some s \<Rightarrow> if fws_window s = window then fws_count s + 1 else 1);
          ok = (count \<le> fw_limit fw);
          rest = max 0 (fw_limit fw - count);
          reset = window_reset (fw_window fw) now
      in (\<lparr>allowed = ok, rl_limit = fw_limit fw, remaining = rest,
           retry_after = (if ok then 0 else reset), rl_reset = reset\<rparr>,
          \<lparr>fws_window = window, fws_count = count\<rparr>, fw_window fw))"

section \<open>SlidingWindow\<close>

record sw_state =
  sws_window :: int
  sws_prev :: int
  sws_curr :: int

definition sw_init :: "int \<Rightarrow> int \<Rightarrow> fixed_window res" where
  "sw_init limit window =
     (if limit < 1 then Inl ValueError else if window < 1 then Inl ValueError
      else Inr \<lparr>fw_limit = limit, fw_window = window\<rparr>)"

definition sw_counts :: "sw_state option \<Rightarrow> int \<Rightarrow> int \<times> int" where
  "sw_counts st window =
     (case st of
        None \<Rightarrow> (0, 0)
      | Some s \<Rightarrow>
          if sws_window s = window then (sws_prev s, sws_curr s)
          else if sws_window s = window - 1 then (sws_curr s, 0) else (0, 0))"

definition sw_evaluate ::
  "fixed_window \<Rightarrow> sw_state option \<Rightarrow> time \<Rightarrow> rl_result \<times> sw_state \<times> int" where
  "sw_evaluate sw st now =
     (let width = fw_window sw;
          window = window_of width now;
          fraction = (now - of_int width * of_int window) / of_int width;
          (prev, cur) = sw_counts st window;
          estimate = of_int prev * (1 - fraction) + of_int cur;
          ok = (estimate < of_int (fw_limit sw));
          cur' = (if ok then cur + 1 else cur);
          rest = max 0 (py_trunc (of_int (fw_limit sw) - (of_int prev * (1 - fraction) + of_int cur')));
          reset = window_reset width now
      in (\<lparr>allowed = ok, rl_limit = fw_limit sw, remaining = rest,
           retry_after = (if ok then 0 else max 1 reset), rl_reset = reset\<rparr>,
          \<lparr>sws_window = window, sws_prev = prev, sws_curr = cur'\<rparr>, width * 2))"

section \<open>TokenBucket\<close>

record token_bucket =
  tb_rate :: int
  tb_per :: rat
  tb_burst :: int

record tb_state =
  tbs_tokens :: rat
  tbs_ts :: time

definition tb_init :: "int \<Rightarrow> rat \<Rightarrow> int option \<Rightarrow> token_bucket res" where
  "tb_init rate per burst =
     (if rate < 1 then Inl ValueError else if per \<le> 0 then Inl ValueError
      else if (case burst of None \<Rightarrow> False | Some b \<Rightarrow> b < 1) then Inl ValueError
      else Inr \<lparr>tb_rate = rate, tb_per = per, tb_burst = (case burst of None \<Rightarrow> rate | Some b \<Rightarrow> b)\<rparr>)"

definition tb_refill :: "token_bucket \<Rightarrow> rat" where
  "tb_refill tb = of_int (tb_rate tb) / tb_per tb"

definition tb_tokens :: "token_bucket \<Rightarrow> tb_state option \<Rightarrow> time \<Rightarrow> rat" where
  "tb_tokens tb st now =
     (case st of
        Some s \<Rightarrow> min (of_int (tb_burst tb)) (tbs_tokens s + (now - tbs_ts s) * tb_refill tb)
      | None \<Rightarrow> of_int (tb_burst tb))"

definition tb_ttl :: "token_bucket \<Rightarrow> int" where
  "tb_ttl tb = \<lceil>of_int (tb_burst tb) / tb_refill tb\<rceil> + 1"

definition tb_evaluate ::
  "token_bucket \<Rightarrow> tb_state option \<Rightarrow> time \<Rightarrow> rl_result \<times> tb_state \<times> int" where
  "tb_evaluate tb st now =
     (let tokens0 = tb_tokens tb st now;
          ok = (tokens0 \<ge> 1);
          tokens = (if ok then tokens0 - 1 else tokens0);
          retry = (if ok then 0 else max 1 \<lceil>(1 - tokens) / tb_refill tb\<rceil>);
          reset = (if tokens < of_int (tb_burst tb)
                   then \<lceil>(of_int (tb_burst tb) - tokens) / tb_refill tb\<rceil> else 0)
      in (\<lparr>allowed = ok, rl_limit = tb_burst tb, remaining = py_trunc tokens,
           retry_after = retry, rl_reset = reset\<rparr>,
          \<lparr>tbs_tokens = tokens, tbs_ts = now\<rparr>, tb_ttl tb))"

section \<open>The in-memory backend\<close>

record 's rl_backend =
  be_states :: "(string, 's) ttl_dict"
  be_max_keys :: nat

definition be_init :: "nat \<Rightarrow> 's rl_backend res" where
  "be_init max_keys =
     (if max_keys < 1 then Inl ValueError else Inr \<lparr>be_states = [], be_max_keys = max_keys\<rparr>)"

definition be_evict :: "nat \<Rightarrow> time \<Rightarrow> (string, 's) ttl_dict \<Rightarrow> (string, 's) ttl_dict" where
  "be_evict cap now d = evict_oldest cap now d"

lemma be_evict_fun [simp]: "be_evict cap = evict_oldest cap"
  by (simp add: be_evict_def fun_eq_iff)

definition be_state :: "string \<Rightarrow> time \<Rightarrow> 's rl_backend \<Rightarrow> 's option" where
  "be_state key now b =
     (case map_of (be_states b) key of
        None \<Rightarrow> None
      | Some (s, expires_at) \<Rightarrow> if expires_at > now then Some s else None)"

definition be_evaluate ::
  "('s option \<Rightarrow> time \<Rightarrow> rl_result \<times> 's \<times> int) \<Rightarrow> string \<Rightarrow> time \<Rightarrow> 's rl_backend
     \<Rightarrow> rl_result \<times> 's rl_backend" where
  "be_evaluate evaluate key now b =
     (let (result, new_state, ttl) = evaluate (be_state key now b) now
      in (result, b\<lparr>be_states := store_bounded (be_evict (be_max_keys b)) (be_max_keys b) key new_state
            (now + of_int ttl) now (be_states b)\<rparr>))"

text \<open>A run of requests, each key under a strategy of its own, and the run under one strategy.\<close>

fun be_run_by ::
  "(string \<Rightarrow> 's option \<Rightarrow> time \<Rightarrow> rl_result \<times> 's \<times> int) \<Rightarrow> (string \<times> time) list \<Rightarrow> 's rl_backend
     \<Rightarrow> rl_result list" where
  "be_run_by ev [] b = []"
| "be_run_by ev ((key, now) # reqs) b =
     (let (r, b') = be_evaluate (ev key) key now b in r # be_run_by ev reqs b')"

abbreviation be_run ::
  "('s option \<Rightarrow> time \<Rightarrow> rl_result \<times> 's \<times> int) \<Rightarrow> (string \<times> time) list \<Rightarrow> 's rl_backend
     \<Rightarrow> rl_result list" where
  "be_run evaluate \<equiv> be_run_by (\<lambda>_. evaluate)"

section \<open>The specification: a table that forgets nothing\<close>

fun ideal_run_by ::
  "(string \<Rightarrow> 's option \<Rightarrow> time \<Rightarrow> rl_result \<times> 's \<times> int) \<Rightarrow> (string \<times> time) list \<Rightarrow> (string \<Rightarrow> 's option)
     \<Rightarrow> rl_result list" where
  "ideal_run_by ev [] m = []"
| "ideal_run_by ev ((key, now) # reqs) m =
     (let (r, s, ttl) = ev key (m key) now in r # ideal_run_by ev reqs (m(key \<mapsto> s)))"

abbreviation ideal_run ::
  "('s option \<Rightarrow> time \<Rightarrow> rl_result \<times> 's \<times> int) \<Rightarrow> (string \<times> time) list \<Rightarrow> (string \<Rightarrow> 's option)
     \<Rightarrow> rl_result list" where
  "ideal_run evaluate \<equiv> ideal_run_by (\<lambda>_. evaluate)"

text \<open>One client alone.\<close>

fun client_run ::
  "('s option \<Rightarrow> time \<Rightarrow> rl_result \<times> 's \<times> int) \<Rightarrow> time list \<Rightarrow> 's option \<Rightarrow> rl_result list" where
  "client_run evaluate [] st = []"
| "client_run evaluate (now # ts) st =
     (let (r, s, ttl) = evaluate st now in r # client_run evaluate ts (Some s))"

text \<open>How many requests a run admits among those that satisfy \<open>P\<close>.\<close>

fun admitted :: "('a \<Rightarrow> bool) \<Rightarrow> 'a list \<Rightarrow> rl_result list \<Rightarrow> nat" where
  "admitted P (x # xs) (r # rs) = (if P x \<and> allowed r then 1 else 0) + admitted P xs rs"
| "admitted P _ _ = 0"

lemma ideal_run_length: "length (ideal_run_by ev reqs m) = length reqs"
  by (induction reqs arbitrary: m) (auto simp: Let_def split: prod.splits)

lemma ideal_run_client_answers:
  "map snd (filter (\<lambda>((k, t), r). k = key) (zip reqs (ideal_run_by ev reqs m)))
     = client_run (ev key) (map snd (filter (\<lambda>(k, t). k = key) reqs)) (m key)"
proof (induction reqs arbitrary: m)
  case (Cons kt reqs)
  obtain k t where kt: "kt = (k, t)" by (cases kt)
  obtain r s ttl where ev: "ev k (m k) t = (r, s, ttl)" by (cases "ev k (m k) t")
  with kt Cons.IH [of "m(k \<mapsto> s)"] show ?case by (cases "k = key") (simp_all add: fun_upd_def)
qed simp

lemma ideal_run_client:
  "admitted (\<lambda>(k, t). k = key \<and> P t) reqs (ideal_run_by ev reqs m)
     = admitted P (map snd (filter (\<lambda>(k, t). k = key) reqs))
         (client_run (ev key) (map snd (filter (\<lambda>(k, t). k = key) reqs)) (m key))"
proof (induction reqs arbitrary: m)
  case (Cons kt reqs)
  obtain k t where kt: "kt = (k, t)" by (cases kt)
  obtain r s ttl where ev: "ev k (m k) t = (r, s, ttl)" by (cases "ev k (m k) t")
  show ?case
  proof (cases "k = key")
    case True
    with kt ev Cons.IH [of "m(key \<mapsto> s)"] show ?thesis by (simp add: fun_upd_def)
  next
    case False
    with kt ev Cons.IH [of "m(k \<mapsto> s)"] show ?thesis by (simp add: fun_upd_def)
  qed
qed simp

lemma window_of_later:
  assumes "1 \<le> width" "t + of_int (n * width) \<le> now"
  shows "window_of width t + n \<le> window_of width now"
proof -
  have w: "(0::rat) < of_int width" using assms(1) by simp
  have "t / of_int width + of_int n = (t + of_int (n * width)) / of_int width"
    using w by (simp add: add_divide_distrib)
  also have "\<dots> \<le> now / of_int width" using assms(2) w by (simp add: divide_right_mono)
  finally have "\<lfloor>t / of_int width + of_int n\<rfloor> \<le> \<lfloor>now / of_int width\<rfloor>" by (rule floor_mono)
  then show ?thesis by (simp add: window_of_def)
qed

lemma window_of_mono: "1 \<le> width \<Longrightarrow> t \<le> now \<Longrightarrow> window_of width t \<le> window_of width now"
  using window_of_later [of width t 0 now] by simp

lemma admitted_none: "(\<And>x. x \<in> set xs \<Longrightarrow> \<not> P x) \<Longrightarrow> admitted P xs rs = 0"
proof (induction xs arbitrary: rs)
  case (Cons x xs)
  then show ?case by (cases rs) simp_all
qed simp

section \<open>The contract of a strategy\<close>

locale rate_strategy =
  fixes ok :: "'p \<Rightarrow> bool"
    and evaluate :: "'p \<Rightarrow> 's option \<Rightarrow> time \<Rightarrow> rl_result \<times> 's \<times> int"
    and inv :: "'p \<Rightarrow> 's \<Rightarrow> time \<Rightarrow> bool"
    and ttl :: "'p \<Rightarrow> int"
  assumes ttl_const: "ok p \<Longrightarrow> snd (snd (evaluate p st now)) = ttl p"
    and inv_next: "ok p \<Longrightarrow> (\<And>s. st = Some s \<Longrightarrow> \<exists>t \<le> now. inv p s t) \<Longrightarrow>
        inv p (fst (snd (evaluate p st now))) now"
    and forget: "ok p \<Longrightarrow> inv p s t \<Longrightarrow> t + of_int (ttl p) \<le> now \<Longrightarrow>
        evaluate p (Some s) now = evaluate p None now"
begin

definition mirrors :: "(string \<Rightarrow> 'p) \<Rightarrow> 's rl_backend \<Rightarrow> (string \<Rightarrow> 's option) \<Rightarrow> time \<Rightarrow> string set \<Rightarrow> bool" where
  "mirrors f b m now K \<longleftrightarrow> dict_ok (be_states b) \<and> fst ` set (be_states b) \<subseteq> K
     \<and> (\<forall>k. m k = None \<longrightarrow> map_of (be_states b) k = None)
     \<and> (\<forall>k s. m k = Some s \<longrightarrow>
          (\<exists>t \<le> now. inv (f k) s t \<and> map_of (be_states b) k = Some (s, t + of_int (ttl (f k)))))"

lemma mirrors_state:
  assumes "ok (f key)" "mirrors f b m now0 K" "now0 \<le> now"
  shows "evaluate (f key) (be_state key now b) now = evaluate (f key) (m key) now"
proof (cases "m key")
  case None
  with assms have "map_of (be_states b) key = None"
    unfolding mirrors_def by blast
  with None show ?thesis by (simp add: be_state_def)
next
  case (Some s)
  with assms obtain t where t: "inv (f key) s t" "map_of (be_states b) key = Some (s, t + of_int (ttl (f key)))"
    unfolding mirrors_def by blast
  show ?thesis
  proof (cases "t + of_int (ttl (f key)) > now")
    case True
    with t Some show ?thesis by (simp add: be_state_def)
  next
    case False
    with t Some forget [OF assms(1) t(1), of now] show ?thesis by (simp add: be_state_def)
  qed
qed

lemma mirrors_room:
  assumes "mirrors f b m now0 K" "finite K" "card K \<le> be_max_keys b" "key \<in> K"
    "map_of (be_states b) key = None"
  shows "length (be_states b) < be_max_keys b"
proof -
  have "distinct (map fst (be_states b))" "fst ` set (be_states b) \<subseteq> K - {key}"
    using assms(1,5) by (auto simp: mirrors_def dict_ok_def map_of_eq_None_iff)
  then have "length (be_states b) \<le> card (K - {key})"
    by (metis assms(2) card_mono distinct_card finite_Diff length_map list.set_map)
  moreover have "card (K - {key}) < card K" using assms(2,4) by (rule card_Diff1_less)
  ultimately show ?thesis using assms(3) by simp
qed

lemma mirrors_step:
  assumes ok: "ok (f key)" and mir: "mirrors f b m now0 K" and fin: "finite K" and card: "card K \<le> be_max_keys b"
    and key: "key \<in> K" and now: "now0 \<le> now" and ev: "evaluate (f key) (m key) now = (r, s, l)"
  shows "be_evaluate (evaluate (f key)) key now b = (r, b\<lparr>be_states := dict_set key (s, now + of_int (ttl (f key))) (be_states b)\<rparr>)"
    "mirrors f (b\<lparr>be_states := dict_set key (s, now + of_int (ttl (f key))) (be_states b)\<rparr>) (m(key \<mapsto> s)) now K"
proof -
  have l: "l = ttl (f key)" using ttl_const [OF ok, of "m key" now] ev by simp
  have "store_bounded (be_evict (be_max_keys b)) (be_max_keys b) key s e now (be_states b)
      = dict_set key (s, e) (be_states b)" for e
    using mirrors_room [OF mir fin card key] by (auto simp: store_bounded_def)
  with mirrors_state [OF ok mir now] ev l
  show "be_evaluate (evaluate (f key)) key now b = (r, b\<lparr>be_states := dict_set key (s, now + of_int (ttl (f key))) (be_states b)\<rparr>)"
    by (simp add: be_evaluate_def)
  have "\<exists>t \<le> now. inv (f key) s' t" if "m key = Some s'" for s'
  proof -
    obtain t where "t \<le> now0" "inv (f key) s' t" using mir \<open>m key = Some s'\<close> unfolding mirrors_def by blast
    with now show ?thesis by (intro exI [of _ t]) simp
  qed
  then have inv: "inv (f key) s now" using inv_next [OF ok, of "m key" now] ev by simp
  let ?d = "dict_set key (s, now + of_int (ttl (f key))) (be_states b)"
  have ok: "dict_ok ?d" using mir by (simp add: mirrors_def dict_ok_set)
  have sub: "fst ` set ?d \<subseteq> K"
    using mir key set_dict_set [of key "(s, now + of_int (ttl (f key)))" "be_states b"]
    by (fastforce simp: mirrors_def)
  have none: "map_of ?d k = None" if "(m(key \<mapsto> s)) k = None" for k
    using that mir by (auto simp: mirrors_def py_dict_simps split: if_splits)
  have some: "\<exists>t \<le> now. inv (f k) s' t \<and> map_of ?d k = Some (s', t + of_int (ttl (f k)))"
    if k: "(m(key \<mapsto> s)) k = Some s'" for k s'
  proof (cases "k = key")
    case True
    with inv k show ?thesis by (auto simp: py_dict_simps)
  next
    case False
    with k have "m k = Some s'" by simp
    then obtain t where "t \<le> now0" "inv (f k) s' t" "map_of (be_states b) k = Some (s', t + of_int (ttl (f k)))"
      using mir unfolding mirrors_def by blast
    with False now show ?thesis by (intro exI [of _ t]) (simp add: py_dict_simps)
  qed
  show "mirrors f (b\<lparr>be_states := ?d\<rparr>) (m(key \<mapsto> s)) now K"
    unfolding mirrors_def using ok sub none some by simp
qed

text \<open>With room for the clients of a run, the backend decides as the table that forgets nothing.\<close>

lemma backend_refines:
  "(\<And>k. k \<in> K \<Longrightarrow> ok (f k)) \<Longrightarrow> mirrors f b m now0 K \<Longrightarrow> finite K \<Longrightarrow> card K \<le> be_max_keys b \<Longrightarrow> fst ` set reqs \<subseteq> K \<Longrightarrow>
     sorted (now0 # map snd reqs) \<Longrightarrow> be_run_by (\<lambda>k. evaluate (f k)) reqs b = ideal_run_by (\<lambda>k. evaluate (f k)) reqs m"
proof (induction reqs arbitrary: b m now0)
  case (Cons kt reqs)
  obtain key now where kt: "kt = (key, now)" by (cases kt)
  obtain r s l where ev: "evaluate (f key) (m key) now = (r, s, l)" by (cases "evaluate (f key) (m key) now")
  have key: "key \<in> K" and now: "now0 \<le> now" using Cons.prems(5,6) kt by simp_all
  note step = mirrors_step [OF Cons.prems(1) [OF key] Cons.prems(2-4) key now ev]
  have "be_run_by (\<lambda>k. evaluate (f k)) reqs (b\<lparr>be_states := dict_set key (s, now + of_int (ttl (f key))) (be_states b)\<rparr>)
      = ideal_run_by (\<lambda>k. evaluate (f k)) reqs (m(key \<mapsto> s))"
    by (rule Cons.IH [OF Cons.prems(1) step(2)]) (use Cons.prems kt in auto)
  with step(1) kt ev show ?case by simp
qed simp

lemma fresh_backend_refines_by:
  assumes "\<And>k. k \<in> fst ` set reqs \<Longrightarrow> ok (f k)" "be_init n = Inr b" "card (fst ` set reqs) \<le> n" "sorted (map snd reqs)"
  shows "be_run_by (\<lambda>k. evaluate (f k)) reqs b = ideal_run_by (\<lambda>k. evaluate (f k)) reqs (\<lambda>_. None)"
proof (cases reqs)
  case (Cons kt reqs')
  have "mirrors f b (\<lambda>_. None) (snd kt) (fst ` set reqs)"
    using assms(2) by (auto simp: be_init_def mirrors_def split: if_splits)
  with assms(1) show ?thesis
    by (rule backend_refines) (use assms Cons in \<open>auto simp: be_init_def split: if_splits\<close>)
qed simp

lemma fresh_backend_refines:
  assumes "ok p" "be_init n = Inr b" "card (fst ` set reqs) \<le> n" "sorted (map snd reqs)"
  shows "be_run (evaluate p) reqs b = ideal_run (evaluate p) reqs (\<lambda>_. None)"
  by (rule fresh_backend_refines_by) (use assms in simp_all)

end

text \<open>
  A strategy that counts per window: \<open>used w st\<close> is what the state says of the window \<open>w\<close>. It
  never admits more than its limit in one window.
\<close>

locale window_strategy = rate_strategy ok evaluate inv ttl
  for ok :: "'p \<Rightarrow> bool" and evaluate :: "'p \<Rightarrow> 's option \<Rightarrow> time \<Rightarrow> rl_result \<times> 's \<times> int"
    and inv :: "'p \<Rightarrow> 's \<Rightarrow> time \<Rightarrow> bool" and ttl :: "'p \<Rightarrow> int" +
  fixes width :: "'p \<Rightarrow> int" and cap :: "'p \<Rightarrow> int" and used :: "int \<Rightarrow> 's option \<Rightarrow> int"
  assumes width_pos: "ok p \<Longrightarrow> 1 \<le> width p"
    and used_none: "used w None = 0"
    and used_nonneg: "inv p s t \<Longrightarrow> 0 \<le> used w (Some s)"
    and used_other: "inv p s t \<Longrightarrow> window_of (width p) t \<noteq> w \<Longrightarrow> used w (Some s) = 0"
    and used_now: "ok p \<Longrightarrow> (\<And>s. st = Some s \<Longrightarrow> \<exists>t \<le> now. inv p s t) \<Longrightarrow>
        evaluate p st now = (r, s, l) \<Longrightarrow>
        used (window_of (width p) now) st + (if allowed r then 1 else 0)
          \<le> used (window_of (width p) now) (Some s)
        \<and> (allowed r \<longrightarrow> used (window_of (width p) now) (Some s) \<le> cap p)"
begin

lemma window_admits:
  assumes ok: "ok p"
  shows "sorted ts \<Longrightarrow> (\<And>s. st = Some s \<Longrightarrow> \<exists>t0. inv p s t0 \<and> (\<forall>t \<in> set ts. t0 \<le> t)) \<Longrightarrow>
     int (admitted (\<lambda>t. window_of (width p) t = w) ts (client_run (evaluate p) ts st))
       \<le> max 0 (cap p - used w st)"
proof (induction ts arbitrary: st)
  case (Cons t ts)
  obtain r s l where ev: "evaluate p st t = (r, s, l)" by (cases "evaluate p st t")
  let ?adm = "int (admitted (\<lambda>t. window_of (width p) t = w) ts (client_run (evaluate p) ts (Some s)))"
  have st: "\<exists>t0 \<le> t. inv p s0 t0" if "st = Some s0" for s0
    using Cons.prems(2) [OF that] by auto
  have "inv p (fst (snd (evaluate p st t))) t" by (rule inv_next [OF ok]) (rule st)
  then have inv: "inv p s t" using ev by simp
  have ex: "\<exists>t0. inv p s t0 \<and> (\<forall>t' \<in> set ts. t0 \<le> t')" using inv Cons.prems(1) by auto
  have ih: "?adm \<le> max 0 (cap p - used w (Some s))"
    by (rule Cons.IH) (use Cons.prems(1) ex in auto)
  note now = used_now [OF ok st ev]
  show ?case
  proof (cases "window_of (width p) t" w rule: linorder_cases)
    case equal
    with now ih ev show ?thesis by (auto simp: max_def split: if_splits)
  next
    case less
    have "used w st = 0"
    proof (cases st)
      case (Some s0)
      then obtain t0 where t0: "t0 \<le> t" "inv p s0 t0" using st by blast
      then have "window_of (width p) t0 \<noteq> w"
        using window_of_mono [OF width_pos [OF ok] t0(1)] less by simp
      with used_other [OF t0(2)] Some show ?thesis by simp
    qed (simp add: used_none)
    moreover have "used w (Some s) = 0" using used_other [OF inv] less by simp
    ultimately show ?thesis using ih ev less by simp
  next
    case greater
    have "window_of (width p) t' \<noteq> w" if "t' \<in> set ts" for t'
      using Cons.prems(1) that window_of_mono [OF width_pos [OF ok], of t t'] greater by auto
    then have "admitted (\<lambda>t. window_of (width p) t = w) ts (client_run (evaluate p) ts (Some s)) = 0"
      by (rule admitted_none)
    with ev greater show ?thesis by simp
  qed
qed simp

lemma backend_window_limit:
  assumes "ok p" "be_init n = Inr b" "card (fst ` set reqs) \<le> n" "sorted (map snd reqs)"
  shows "int (admitted (\<lambda>(k, t). k = key \<and> window_of (width p) t = w) reqs (be_run (evaluate p) reqs b))
     \<le> max 0 (cap p)"
proof -
  have "sorted (map snd (filter (\<lambda>(k, t). k = key) reqs))"
    using assms(4) by (rule sorted_filter)
  from window_admits [OF assms(1) this, of None w] show ?thesis
    unfolding fresh_backend_refines [OF assms] ideal_run_client by (simp add: used_none)
qed

end

section \<open>The three strategies\<close>

definition window_ok :: "fixed_window \<Rightarrow> bool" where
  "window_ok fw \<longleftrightarrow> 1 \<le> fw_limit fw \<and> 1 \<le> fw_window fw"

definition bucket_ok :: "token_bucket \<Rightarrow> bool" where
  "bucket_ok tb \<longleftrightarrow> 1 \<le> tb_rate tb \<and> 0 < tb_per tb \<and> 1 \<le> tb_burst tb"

lemma init_ok:
  "fw_init limit window = Inr fw \<Longrightarrow> window_ok fw"
  "sw_init limit window = Inr fw \<Longrightarrow> window_ok fw"
  "tb_init rate per burst = Inr tb \<Longrightarrow> bucket_ok tb"
  by (auto simp: fw_init_def sw_init_def tb_init_def window_ok_def bucket_ok_def split: if_splits option.splits)

definition fw_inv :: "fixed_window \<Rightarrow> fw_state \<Rightarrow> time \<Rightarrow> bool" where
  "fw_inv fw s t \<longleftrightarrow> fws_window s = window_of (fw_window fw) t \<and> 0 \<le> fws_count s"

definition fw_used :: "int \<Rightarrow> fw_state option \<Rightarrow> int" where
  "fw_used w st = (case st of None \<Rightarrow> 0 | Some s \<Rightarrow> if fws_window s = w then fws_count s else 0)"

interpretation fixed_window: window_strategy window_ok fw_evaluate fw_inv fw_window fw_window fw_limit fw_used
proof unfold_locales
  fix p :: fixed_window and st now s t
  show "snd (snd (fw_evaluate p st now)) = fw_window p" by (simp add: fw_evaluate_def Let_def)
  show "fw_inv p (fst (snd (fw_evaluate p st now))) now" if "\<And>s. st = Some s \<Longrightarrow> \<exists>t \<le> now. fw_inv p s t"
    using that by (cases st) (auto simp: fw_evaluate_def fw_inv_def Let_def)
  show "window_ok p \<Longrightarrow> 1 \<le> fw_window p" by (simp add: window_ok_def)
  show "fw_used w None = 0" for w by (simp add: fw_used_def)
  show "fw_inv p s t \<Longrightarrow> 0 \<le> fw_used w (Some s)" for w by (simp add: fw_used_def fw_inv_def)
  show "fw_inv p s t \<Longrightarrow> window_of (fw_window p) t \<noteq> w \<Longrightarrow> fw_used w (Some s) = 0" for w
    by (simp add: fw_used_def fw_inv_def)
  show "fw_used (window_of (fw_window p) now) st + (if allowed r then 1 else 0)
          \<le> fw_used (window_of (fw_window p) now) (Some s)
        \<and> (allowed r \<longrightarrow> fw_used (window_of (fw_window p) now) (Some s) \<le> fw_limit p)"
    if "fw_evaluate p st now = (r, s, l)" for r l
    using that by (auto simp: fw_evaluate_def fw_used_def Let_def split: option.splits if_splits)
  assume ok: "window_ok p" and inv: "fw_inv p s t" and late: "t + of_int (fw_window p) \<le> now"
  have "fws_window s \<noteq> window_of (fw_window p) now"
    using window_of_later [of "fw_window p" t 1 now] ok inv late by (simp add: window_ok_def fw_inv_def)
  then show "fw_evaluate p (Some s) now = fw_evaluate p None now" by (simp add: fw_evaluate_def)
qed

definition sw_inv :: "fixed_window \<Rightarrow> sw_state \<Rightarrow> time \<Rightarrow> bool" where
  "sw_inv sw s t \<longleftrightarrow> sws_window s = window_of (fw_window sw) t \<and> 0 \<le> sws_prev s \<and> 0 \<le> sws_curr s"

definition sw_used :: "int \<Rightarrow> sw_state option \<Rightarrow> int" where
  "sw_used w st = (case st of None \<Rightarrow> 0 | Some s \<Rightarrow> if sws_window s = w then sws_curr s else 0)"

definition window_fraction :: "int \<Rightarrow> time \<Rightarrow> rat" where
  "window_fraction width now = (now - of_int width * of_int (window_of width now)) / of_int width"

lemma window_fraction_bounds:
  assumes "1 \<le> width"
  shows "0 \<le> window_fraction width now" "window_fraction width now < 1"
proof -
  have w: "(0::rat) < of_int width" using assms by simp
  have eq: "window_fraction width now = now / of_int width - of_int \<lfloor>now / of_int width\<rfloor>"
    using w by (simp add: window_fraction_def window_of_def diff_divide_distrib)
  show "0 \<le> window_fraction width now" unfolding eq by simp
  show "window_fraction width now < 1" unfolding eq by linarith
qed

lemma sw_allowed_iff:
  "fst (snd (sw_evaluate p st now)) = s \<Longrightarrow> sw_counts st (window_of (fw_window p) now) = (prev, cur) \<Longrightarrow>
     allowed (fst (sw_evaluate p st now)) =
       (of_int prev * (1 - window_fraction (fw_window p) now) + of_int cur < (of_int (fw_limit p) :: rat))
     \<and> sws_window s = window_of (fw_window p) now \<and> sws_prev s = prev
     \<and> sws_curr s = (if allowed (fst (sw_evaluate p st now)) then cur + 1 else cur)"
  by (auto simp: sw_evaluate_def window_fraction_def Let_def)

definition sw_ttl :: "fixed_window \<Rightarrow> int" where
  "sw_ttl sw = fw_window sw * 2"

interpretation sliding_window: window_strategy window_ok sw_evaluate sw_inv sw_ttl fw_window fw_limit sw_used
proof unfold_locales
  fix p :: fixed_window and st now s t
  show "snd (snd (sw_evaluate p st now)) = sw_ttl p"
    by (simp add: sw_evaluate_def sw_ttl_def Let_def split: prod.split)
  obtain prev cur where pc: "sw_counts st (window_of (fw_window p) now) = (prev, cur)"
    by (cases "sw_counts st (window_of (fw_window p) now)")
  have nonneg: "0 \<le> prev \<and> 0 \<le> cur" if "\<And>s. st = Some s \<Longrightarrow> \<exists>t \<le> now. sw_inv p s t"
    using that pc by (cases st) (auto simp: sw_counts_def sw_inv_def split: if_splits)
  show "sw_inv p (fst (snd (sw_evaluate p st now))) now" if "\<And>s. st = Some s \<Longrightarrow> \<exists>t \<le> now. sw_inv p s t"
    using nonneg [OF that] sw_allowed_iff [OF refl pc] by (simp add: sw_inv_def)
  show "window_ok p \<Longrightarrow> 1 \<le> fw_window p" by (simp add: window_ok_def)
  show "sw_used w None = 0" for w by (simp add: sw_used_def)
  show "sw_inv p s t \<Longrightarrow> 0 \<le> sw_used w (Some s)" for w by (simp add: sw_used_def sw_inv_def)
  show "sw_inv p s t \<Longrightarrow> window_of (fw_window p) t \<noteq> w \<Longrightarrow> sw_used w (Some s) = 0" for w
    by (simp add: sw_used_def sw_inv_def)
  show "sw_used (window_of (fw_window p) now) st + (if allowed r then 1 else 0)
          \<le> sw_used (window_of (fw_window p) now) (Some s)
        \<and> (allowed r \<longrightarrow> sw_used (window_of (fw_window p) now) (Some s) \<le> fw_limit p)"
    if ok: "window_ok p" and st: "\<And>s. st = Some s \<Longrightarrow> \<exists>t \<le> now. sw_inv p s t"
      and ev: "sw_evaluate p st now = (r, s, l)" for r l
  proof -
    have s: "allowed r = (of_int prev * (1 - window_fraction (fw_window p) now) + of_int cur < (of_int (fw_limit p) :: rat))"
      "sws_window s = window_of (fw_window p) now" "sws_curr s = (if allowed r then cur + 1 else cur)"
      using sw_allowed_iff [OF refl pc] ev by simp_all
    have "cur < fw_limit p" if "allowed r"
    proof -
      have "(0::rat) \<le> of_int prev * (1 - window_fraction (fw_window p) now)"
        using nonneg [OF st] window_fraction_bounds(2) [of "fw_window p" now] ok
        by (simp add: window_ok_def)
      with s(1) that have "(of_int cur :: rat) < of_int (fw_limit p)" by linarith
      then show ?thesis by simp
    qed
    moreover have "sw_used (window_of (fw_window p) now) st \<le> cur"
      using pc nonneg [OF st] by (auto simp: sw_used_def sw_counts_def split: option.splits if_splits)
    ultimately show ?thesis using s(2,3) by (auto simp: sw_used_def)
  qed
  assume ok: "window_ok p" and inv: "sw_inv p s t" and late: "t + of_int (sw_ttl p) \<le> now"
  have "sws_window s + 2 \<le> window_of (fw_window p) now"
    using window_of_later [of "fw_window p" t 2 now] ok inv late
    by (simp add: window_ok_def sw_inv_def sw_ttl_def mult.commute)
  then have "sw_counts (Some s) (window_of (fw_window p) now) = sw_counts None (window_of (fw_window p) now)"
    by (simp add: sw_counts_def)
  then show "sw_evaluate p (Some s) now = sw_evaluate p None now" by (simp add: sw_evaluate_def)
qed

definition tb_inv :: "token_bucket \<Rightarrow> tb_state \<Rightarrow> time \<Rightarrow> bool" where
  "tb_inv tb s t \<longleftrightarrow> tbs_ts s = t \<and> 0 \<le> tbs_tokens s \<and> tbs_tokens s \<le> of_int (tb_burst tb)"

lemma refill_pos: "bucket_ok tb \<Longrightarrow> 0 < tb_refill tb"
  by (simp add: bucket_ok_def tb_refill_def)

lemma tb_tokens_bounds:
  assumes "bucket_ok tb" "\<And>s. st = Some s \<Longrightarrow> \<exists>t \<le> now. tb_inv tb s t"
  shows "0 \<le> tb_tokens tb st now" "tb_tokens tb st now \<le> of_int (tb_burst tb)"
proof -
  have b: "(0::rat) \<le> of_int (tb_burst tb)" using assms(1) by (simp add: bucket_ok_def)
  show "0 \<le> tb_tokens tb st now"
  proof (cases st)
    case (Some s)
    with assms(2) have "0 \<le> tbs_tokens s" "0 \<le> now - tbs_ts s" by (auto simp: tb_inv_def)
    then have "0 \<le> tbs_tokens s + (now - tbs_ts s) * tb_refill tb"
      using refill_pos [OF assms(1)] by simp
    with b Some show ?thesis by (simp add: tb_tokens_def)
  qed (use b in \<open>simp add: tb_tokens_def\<close>)
  show "tb_tokens tb st now \<le> of_int (tb_burst tb)" by (simp add: tb_tokens_def split: option.split)
qed

interpretation token_bucket: rate_strategy bucket_ok tb_evaluate tb_inv tb_ttl
proof unfold_locales
  fix p :: token_bucket and st now s t
  show "snd (snd (tb_evaluate p st now)) = tb_ttl p" by (simp add: tb_evaluate_def Let_def)
  assume ok: "bucket_ok p"
  show "tb_inv p (fst (snd (tb_evaluate p st now))) now"
    if "\<And>s. st = Some s \<Longrightarrow> \<exists>t \<le> now. tb_inv p s t"
  proof -
    have "0 \<le> tb_tokens p st now" "tb_tokens p st now \<le> of_int (tb_burst p)"
      using tb_tokens_bounds [OF ok that] by blast+
    then show ?thesis by (simp add: tb_evaluate_def tb_inv_def Let_def)
  qed
  assume inv: "tb_inv p s t" and late: "t + of_int (tb_ttl p) \<le> now"
  have r: "0 < tb_refill p" by (rule refill_pos [OF ok])
  have "of_int (tb_burst p) / tb_refill p \<le> of_int (tb_ttl p)"
    by (simp add: tb_ttl_def) (use le_of_int_ceiling [of "of_int (tb_burst p) / tb_refill p"] in linarith)
  then have "of_int (tb_burst p) / tb_refill p \<le> now - t" using late by linarith
  then have "of_int (tb_burst p) \<le> (now - t) * tb_refill p" using r by (simp add: pos_divide_le_eq)
  then have "tb_tokens p (Some s) now = tb_tokens p None now"
    using inv by (auto simp: tb_tokens_def tb_inv_def)
  then show "tb_evaluate p (Some s) now = tb_evaluate p None now" by (simp add: tb_evaluate_def)
qed

section \<open>What the bucket admits\<close>

lemma tb_admits:
  assumes ok: "bucket_ok tb"
  shows "sorted ts \<Longrightarrow> (\<And>t. t \<in> set ts \<Longrightarrow> t \<le> last_t) \<Longrightarrow> 0 \<le> tbs_tokens s \<Longrightarrow>
     (\<And>t. t \<in> set ts \<Longrightarrow> tbs_ts s \<le> t) \<Longrightarrow> tbs_ts s \<le> last_t \<Longrightarrow>
     rat_of_nat (admitted (\<lambda>_. True) ts (client_run (tb_evaluate tb) ts (Some s)))
       \<le> tbs_tokens s + (last_t - tbs_ts s) * tb_refill tb"
proof (induction ts arbitrary: s)
  case Nil
  with refill_pos [OF ok] show ?case by simp
next
  case (Cons t ts)
  obtain r s' ttl where ev: "tb_evaluate tb (Some s) t = (r, s', ttl)" by (cases "tb_evaluate tb (Some s) t")
  let ?tok = "tb_tokens tb (Some s) t"
  have r: "allowed r \<longleftrightarrow> 1 \<le> ?tok" and s': "tbs_ts s' = t" "tbs_tokens s' = (if 1 \<le> ?tok then ?tok - 1 else ?tok)"
    using ev by (auto simp: tb_evaluate_def Let_def)
  have t: "tbs_ts s \<le> t" "t \<le> last_t" using Cons.prems(2,4) by simp_all
  have tok: "?tok \<le> tbs_tokens s + (t - tbs_ts s) * tb_refill tb" by (simp add: tb_tokens_def)
  have "0 \<le> tbs_tokens s + (t - tbs_ts s) * tb_refill tb"
    using Cons.prems(3) t(1) refill_pos [OF ok] by simp
  then have "0 \<le> ?tok" using ok by (simp add: tb_tokens_def bucket_ok_def)
  then have nn: "0 \<le> tbs_tokens s'" using s'(2) by simp
  have "rat_of_nat (admitted (\<lambda>_. True) ts (client_run (tb_evaluate tb) ts (Some s')))
      \<le> tbs_tokens s' + (last_t - tbs_ts s') * tb_refill tb"
    using Cons.IH [OF _ _ nn] Cons.prems(1,2) s'(1) t(2) by simp
  moreover have "(t - tbs_ts s) * tb_refill tb + (last_t - t) * tb_refill tb = (last_t - tbs_ts s) * tb_refill tb"
    by (simp add: algebra_simps)
  ultimately show ?case using ev r s' tok by (auto split: if_splits)
qed

lemma tb_admits_fresh:
  assumes ok: "bucket_ok tb" and sorted: "sorted (t0 # ts)" and last: "\<And>t. t \<in> set (t0 # ts) \<Longrightarrow> t \<le> last_t"
  shows "rat_of_nat (admitted (\<lambda>_. True) (t0 # ts) (client_run (tb_evaluate tb) (t0 # ts) None))
       \<le> of_int (tb_burst tb) + (last_t - t0) * tb_refill tb"
proof -
  obtain r s ttl where ev: "tb_evaluate tb None t0 = (r, s, ttl)" by (cases "tb_evaluate tb None t0")
  have r: "allowed r" "tbs_ts s = t0" "tbs_tokens s = of_int (tb_burst tb) - 1"
    using ev ok by (auto simp: tb_evaluate_def tb_tokens_def Let_def bucket_ok_def)
  have "rat_of_nat (admitted (\<lambda>_. True) ts (client_run (tb_evaluate tb) ts (Some s)))
      \<le> tbs_tokens s + (last_t - tbs_ts s) * tb_refill tb"
    using sorted last r ok by (intro tb_admits) (auto simp: bucket_ok_def)
  with ev r show ?thesis by simp
qed

section \<open>Properties\<close>

definition two_per_minute :: fixed_window where
  "two_per_minute = \<lparr>fw_limit = 2, fw_window = 60\<rparr>"

definition small_bucket :: token_bucket where
  "small_bucket = \<lparr>tb_rate = 1, tb_per = 10, tb_burst = 2\<rparr>"

definition no_clients :: "'s rl_backend" where
  "no_clients = \<lparr>be_states = [], be_max_keys = 10\<rparr>"

lemma be_init_ten: "be_init 10 = Inr no_clients" by (simp add: be_init_def no_clients_def)

text \<open>C21: With \<open>FixedWindow\<close>, the in-memory backend never admits more than \<open>limit\<close> requests of one
  client in one window, whatever the other clients send, on a clock that does not go back and
  with room for the clients of the run.\<close>

theorem fixed_window_limit:
  assumes "fw_init limit width = Inr fw" "be_init n = Inr b"
    "card (fst ` set reqs) \<le> n" "sorted (map snd reqs)"
  shows "int (admitted (\<lambda>(k, t). k = key \<and> window_of width t = w) reqs (be_run (fw_evaluate fw) reqs b)) \<le> limit"
  using fixed_window.backend_window_limit [OF init_ok(1) [OF assms(1)] assms(2-4), of key w] assms(1)
  by (auto simp: fw_init_def split: if_splits)

theorem fixed_window_limit_witness:
  "int (admitted (\<lambda>(k, t). k = ''a'' \<and> window_of 60 t = 0) [(''a'', 0), (''b'', 1), (''a'', 2), (''a'', 3)]
     (be_run (fw_evaluate two_per_minute) [(''a'', 0), (''b'', 1), (''a'', 2), (''a'', 3)] no_clients)) \<le> 2"
  by (rule fixed_window_limit [OF _ be_init_ten]) (simp_all add: fw_init_def two_per_minute_def card_insert_if)

text \<open>With \<open>SlidingWindow\<close>, the same bound holds in every window: weighting the previous window
  only ever refuses more.\<close>

theorem sliding_window_limit:
  assumes "sw_init limit width = Inr sw" "be_init n = Inr b"
    "card (fst ` set reqs) \<le> n" "sorted (map snd reqs)"
  shows "int (admitted (\<lambda>(k, t). k = key \<and> window_of width t = w) reqs (be_run (sw_evaluate sw) reqs b)) \<le> limit"
  using sliding_window.backend_window_limit [OF init_ok(2) [OF assms(1)] assms(2-4), of key w] assms(1)
  by (auto simp: sw_init_def split: if_splits)

theorem sliding_window_limit_witness:
  "int (admitted (\<lambda>(k, t). k = ''a'' \<and> window_of 60 t = 0) [(''a'', 0), (''b'', 1), (''a'', 2), (''a'', 3)]
     (be_run (sw_evaluate two_per_minute) [(''a'', 0), (''b'', 1), (''a'', 2), (''a'', 3)] no_clients)) \<le> 2"
  by (rule sliding_window_limit [OF _ be_init_ten]) (simp_all add: sw_init_def two_per_minute_def card_insert_if)

text \<open>C22: With \<open>TokenBucket\<close>, between the first request of a client at \<open>t0\<close> and any later time the
  backend admits at most \<open>burst\<close> requests plus \<open>rate\<close> per \<open>per\<close> seconds elapsed.\<close>

theorem token_bucket_rate:
  assumes "tb_init rate per burst = Inr tb" "be_init n = Inr b"
    "card (fst ` set reqs) \<le> n" "sorted (map snd reqs)"
    "map snd (filter (\<lambda>(k, t). k = key) reqs) = t0 # ts" "\<forall>(k, t) \<in> set reqs. t \<le> last_t"
  shows "rat_of_nat (admitted (\<lambda>(k, t). k = key) reqs (be_run (tb_evaluate tb) reqs b))
     \<le> of_int (tb_burst tb) + (last_t - t0) * of_int rate / per"
proof -
  have ok: "bucket_ok tb" by (rule init_ok(3) [OF assms(1)])
  have "sorted (map snd (filter (\<lambda>(k, t). k = key) reqs))" using assms(4) by (rule sorted_filter)
  then have sorted: "sorted (t0 # ts)" using assms(5) by simp
  have "set (t0 # ts) \<subseteq> snd ` set reqs" unfolding assms(5) [symmetric] by auto
  moreover have "\<forall>t \<in> snd ` set reqs. t \<le> last_t" using assms(6) by auto
  ultimately have last: "t \<le> last_t" if "t \<in> set (t0 # ts)" for t using that by blast
  have "tb_refill tb = of_int rate / per" using assms(1) by (auto simp: tb_init_def tb_refill_def split: if_splits)
  then show ?thesis
    using tb_admits_fresh [OF ok sorted last] ideal_run_client [of key "\<lambda>_. True" reqs "\<lambda>_. tb_evaluate tb" "\<lambda>_. None"]
    unfolding token_bucket.fresh_backend_refines [OF ok assms(2-4)] by (simp add: assms(5))
qed

theorem token_bucket_rate_witness:
  "rat_of_nat (admitted (\<lambda>(k, t :: time). k = ''a'') [(''a'', 0), (''b'', 1), (''a'', 2), (''a'', 3), (''a'', 20)]
     (be_run (tb_evaluate small_bucket) [(''a'', 0), (''b'', 1), (''a'', 2), (''a'', 3), (''a'', 20)] no_clients))
   \<le> of_int (tb_burst small_bucket) + (20 - 0) * of_int 1 / 10"
  by (rule token_bucket_rate [where rate = 1 and per = 10 and burst = "Some 2" and ts = "[2, 3, 20]", OF _ be_init_ten])
    (simp_all add: tb_init_def small_bucket_def card_insert_if)



text \<open>\<open>Retry-After\<close> of a token bucket is honest: a refused client that stays quiet for
  \<open>retry_after\<close> seconds is admitted.\<close>

theorem token_bucket_retry_after:
  assumes "bucket_ok tb" "tb_evaluate tb st now = (r, s, ttl)" "\<not> allowed r"
    "now + of_int (retry_after r) \<le> later"
  shows "allowed (fst (tb_evaluate tb (Some s) later))"
proof -
  let ?tok = "tb_tokens tb st now"
  have refill: "0 < tb_refill tb" by (rule refill_pos [OF assms(1)])
  have s: "tbs_tokens s = ?tok" "tbs_ts s = now" and tok: "?tok < 1"
    and retry: "retry_after r = max 1 \<lceil>(1 - ?tok) / tb_refill tb\<rceil>"
    using assms(2,3) by (auto simp: tb_evaluate_def Let_def split: if_splits)
  have "(1 - ?tok) / tb_refill tb \<le> of_int \<lceil>(1 - ?tok) / tb_refill tb\<rceil>" by (rule le_of_int_ceiling)
  also have "\<dots> \<le> of_int (retry_after r)" using retry by simp
  also have "\<dots> \<le> later - now" using assms(4) by simp
  finally have "1 - ?tok \<le> (later - now) * tb_refill tb" using refill by (simp add: pos_divide_le_eq)
  moreover have "(1::rat) \<le> of_int (tb_burst tb)" using assms(1) by (simp add: bucket_ok_def)
  ultimately have "1 \<le> tb_tokens tb (Some s) later" using s by (simp add: tb_tokens_def)
  then show ?thesis by (simp add: tb_evaluate_def Let_def)
qed

theorem token_bucket_retry_after_witness:
  "allowed (fst (tb_evaluate small_bucket
     (Some (fst (snd (tb_evaluate small_bucket (Some \<lparr>tbs_tokens = 0, tbs_ts = 0\<rparr>) 1)))) 10))"
proof (rule token_bucket_retry_after)
  show "bucket_ok small_bucket" by (simp add: bucket_ok_def small_bucket_def)
  show "tb_evaluate small_bucket (Some \<lparr>tbs_tokens = 0, tbs_ts = 0\<rparr>) 1 =
    (fst (tb_evaluate small_bucket (Some \<lparr>tbs_tokens = 0, tbs_ts = 0\<rparr>) 1),
     fst (snd (tb_evaluate small_bucket (Some \<lparr>tbs_tokens = 0, tbs_ts = 0\<rparr>) 1)), tb_ttl small_bucket)"
    by (simp add: tb_evaluate_def Let_def)
  show "\<not> allowed (fst (tb_evaluate small_bucket (Some \<lparr>tbs_tokens = 0, tbs_ts = 0\<rparr>) 1))"
    by (simp add: tb_evaluate_def Let_def tb_tokens_def tb_refill_def small_bucket_def)
  show "1 + rat_of_int (retry_after (fst (tb_evaluate small_bucket (Some \<lparr>tbs_tokens = 0, tbs_ts = 0\<rparr>) 1))) \<le> 10"
    by (simp add: tb_evaluate_def Let_def tb_tokens_def tb_refill_def small_bucket_def ceiling_eq_iff)
qed

text \<open>\<open>Retry-After\<close> of a sliding window is not: with one request per minute, a client admitted at 0
  and refused at 0 is told to retry after 60 seconds, and is refused again at 60.\<close>

theorem sliding_window_retry_after_too_short:
  "let sw = \<lparr>fw_limit = 1, fw_window = 60\<rparr>;
       (r1, s1, t1) = sw_evaluate sw None 0;
       (r2, s2, t2) = sw_evaluate sw (Some s1) 0;
       (r3, s3, t3) = sw_evaluate sw (Some s2) (0 + of_int (retry_after r2))
   in allowed r1 \<and> \<not> allowed r2 \<and> retry_after r2 = 60 \<and> \<not> allowed r3"
  by (simp add: sw_evaluate_def sw_counts_def window_of_def window_reset_def py_trunc_def Let_def)

text \<open>The backend's memory is bounded: evaluating a request leaves at most \<open>max_keys\<close> states, one
  per client.\<close>

theorem backend_bounded:
  assumes "dict_ok (be_states b)" "length (be_states b) \<le> be_max_keys b" "0 < be_max_keys b"
  shows "dict_ok (be_states (snd (be_evaluate ev key now b)))
     \<and> length (be_states (snd (be_evaluate ev key now b))) \<le> be_max_keys (snd (be_evaluate ev key now b))"
  using assms length_store [OF assms(3,2)]
  by (auto simp: be_evaluate_def dict_ok_store split: prod.split)

theorem backend_bounded_witness:
  "length (be_states (snd (be_evaluate (fw_evaluate two_per_minute) ''c'' 5
     \<lparr>be_states = [(''a'', \<lparr>fws_window = 0, fws_count = 1\<rparr>, 60), (''b'', \<lparr>fws_window = 0, fws_count = 1\<rparr>, 61)],
       be_max_keys = 2\<rparr>))) \<le> 2"
proof -
  let ?b = "\<lparr>be_states = [(''a'', \<lparr>fws_window = 0, fws_count = 1\<rparr>, 60), (''b'', \<lparr>fws_window = 0, fws_count = 1\<rparr>, 61)],
       be_max_keys = 2\<rparr>"
  have "dict_ok (be_states ?b)" "length (be_states ?b) \<le> be_max_keys ?b" "0 < be_max_keys ?b"
    by (simp_all add: dict_ok_def)
  from backend_bounded [OF this, of "fw_evaluate two_per_minute" "''c''" 5]
  show ?thesis by (simp add: be_evaluate_def split: prod.splits)
qed

end
