(* ===== verification/Header_Parsing.thy ===== *)
theory Header_Parsing
  imports Py_Base
begin

text \<open>
  The header walkers, after \<open>src/src/veloce/_header_parsing.py\<close>: \<open>split_outside_quotes_checked\<close>,
  \<open>unquote_value\<close>, \<open>parse_header_params\<close> and \<open>parse_media_type_params\<close>; the quoting of
  \<open>_internal._quote_header_value\<close> and the emission of parameters by \<open>Headers.add\<close>. The position
  \<open>i\<close> of the Python loops is the rest of the text, the list \<open>buf\<close> is kept in reading order.
\<close>

abbreviation dquote :: char where "dquote \<equiv> CHR 0x22"
abbreviation backslash :: char where "backslash \<equiv> CHR 0x5C"

section \<open>Splitting outside quotes\<close>

fun split_scan :: "char \<Rightarrow> bool \<Rightarrow> string \<Rightarrow> string \<Rightarrow> string list \<times> bool" where
  "split_scan d in_quotes buf [] = ([buf], in_quotes)"
| "split_scan d in_quotes buf (ch # rest) =
     (if in_quotes \<and> ch = backslash \<and> rest \<noteq> [] then split_scan d in_quotes (buf @ [ch, hd rest]) (tl rest)
      else if ch = dquote then split_scan d (\<not> in_quotes) (buf @ [ch]) rest
      else if ch = d \<and> \<not> in_quotes then
        (let (parts, open_quote) = split_scan d in_quotes [] rest in (buf # parts, open_quote))
      else split_scan d in_quotes (buf @ [ch]) rest)"

definition split_outside_quotes_checked :: "string \<Rightarrow> char \<Rightarrow> string list \<times> bool" where
  "split_outside_quotes_checked v d = split_scan d False [] v"

definition split_outside_quotes :: "string \<Rightarrow> char \<Rightarrow> string list" where
  "split_outside_quotes v d = fst (split_outside_quotes_checked v d)"

definition unquote_value :: "string \<Rightarrow> string" where
  "unquote_value v = strip_char dquote (str_strip v)"

section \<open>The quoted-string walker\<close>

text \<open>A token: its text without the quotes, where the first quote opened and the last one
  closed, \<open>-1\<close> where there was none.\<close>

record hp_token =
  raw_token :: string
  quote_open :: int
  quote_close :: int

fun header_tokens :: "char \<Rightarrow> bool \<Rightarrow> bool \<Rightarrow> string \<Rightarrow> int \<Rightarrow> int \<Rightarrow> string \<Rightarrow> hp_token list" where
  "header_tokens d unescape in_quotes buf first_open last_close [] =
     [\<lparr>raw_token = buf, quote_open = first_open, quote_close = last_close\<rparr>]"
| "header_tokens d unescape in_quotes buf first_open last_close (ch # rest) =
     (if in_quotes then
        (if ch = backslash \<and> rest \<noteq> [] then
           header_tokens d unescape True (if unescape then buf @ [hd rest] else buf @ [ch, hd rest])
             first_open last_close (tl rest)
         else if ch = dquote then header_tokens d unescape False buf first_open (int (length buf)) rest
         else header_tokens d unescape True (buf @ [ch]) first_open last_close rest)
      else if ch = dquote then
        header_tokens d unescape True buf (if first_open < 0 then int (length buf) else first_open) last_close rest
      else if ch = d then
        \<lparr>raw_token = buf, quote_open = first_open, quote_close = last_close\<rparr>
          # header_tokens d unescape False [] (-1) (-1) rest
      else header_tokens d unescape False (buf @ [ch]) first_open last_close rest)"

text \<open>The value of one \<open>key=value\<close> token; \<open>val\<close> is what follows the first \<open>=\<close>.\<close>

definition token_value :: "hp_token \<Rightarrow> string \<Rightarrow> string" where
  "token_value t val =
     (if quote_close t < 0 then str_strip val
      else (let offset = int (length (raw_token t)) - int (length val);
                head_end = nat (max (quote_open t - offset) 0);
                tail_start = nat (max (quote_close t - offset) 0);
                quoted = take (tail_start - head_end) (drop head_end val)
            in str_lstrip (take head_end val) @ quoted @ str_rstrip (drop tail_start val)))"

fun collect_params :: "bool \<Rightarrow> string \<Rightarrow> (string, string) dict \<Rightarrow> hp_token list \<Rightarrow> string \<times> (string, string) dict" where
  "collect_params first prefix params [] = (prefix, params)"
| "collect_params first prefix params (t # ts) =
     (let (key, eq, val) = partition_on (CHR ''='') (raw_token t) in
      if \<not> eq then
        (let stripped = str_strip (raw_token t)
         in collect_params False (if stripped \<noteq> [] \<and> first then stripped else prefix) params ts)
      else
        (let k = str_lower (str_strip key)
         in if k = [] then collect_params False prefix params ts
            else collect_params False prefix (dict_set k (token_value t val) params) ts))"

definition parse_header_params :: "string \<Rightarrow> char \<Rightarrow> bool \<Rightarrow> string \<times> (string, string) dict" where
  "parse_header_params v d unescape =
     collect_params True [] [] (header_tokens d unescape False [] (-1) (-1) v)"

text \<open>The pairs a media type yields, in order: without a quote a plain split is taken.\<close>

definition chunk_params :: "string \<Rightarrow> (string \<times> string) list" where
  "chunk_params chunk =
     (let (key, eq, val) = partition_on (CHR ''='') chunk; k = str_lower (str_strip key)
      in if \<not> eq then [] else if k \<noteq> [] then [(k, str_strip val)] else [])"

definition plain_params :: "string \<Rightarrow> (string \<times> string) list" where
  "plain_params rest = concat (map chunk_params (split_on (CHR '';'') rest))"

definition parse_media_type_params :: "string \<Rightarrow> (string \<times> string) list" where
  "parse_media_type_params rest =
     (if dquote \<notin> set rest then plain_params rest
      else snd (parse_header_params rest (CHR '';'') True))"

section \<open>Emission of parameters\<close>

definition quote_header_value :: "string \<Rightarrow> string" where
  "quote_header_value s =
     concat (map (\<lambda>c. if c = dquote then [backslash, dquote] else [c])
       (concat (map (\<lambda>c. if c = backslash then [backslash, backslash] else [c]) s)))"

definition quote_triggers :: "char list" where
  "quote_triggers = [CHR '' '', CHR '';'', CHR '','', dquote, backslash]"

definition wire_name :: "string \<Rightarrow> string" where
  "wire_name pk = map (\<lambda>c. if c = CHR ''_'' then CHR ''-'' else c) pk"

definition needs_quotes :: "string \<Rightarrow> bool" where
  "needs_quotes v \<longleftrightarrow> list_ex (\<lambda>c. c \<in> set quote_triggers) v"

definition header_param :: "string \<times> string \<Rightarrow> string" where
  "header_param p =
     (case p of (pk, pv) \<Rightarrow>
        wire_name pk @ ''=''
        @ (if needs_quotes pv then [dquote] @ quote_header_value pv @ [dquote] else pv))"

text \<open>The value \<open>Headers.add(key, value, **params)\<close> stores.\<close>

definition add_header_value :: "string \<Rightarrow> (string \<times> string) list \<Rightarrow> string" where
  "add_header_value v params =
     (if params = [] then v else join_str ''; '' (v # map header_param params))"

section \<open>The quote state of a text\<close>

text \<open>
  Where the walker is after a text: outside any quote, inside one, or inside one just after a
  backslash. The flag the walker returns says whether it ended outside.
\<close>

datatype qstate = Outside | Inside | Escaped

fun qstep :: "qstate \<Rightarrow> char \<Rightarrow> qstate" where
  "qstep Outside c = (if c = dquote then Inside else Outside)"
| "qstep Inside c = (if c = dquote then Outside else if c = backslash then Escaped else Inside)"
| "qstep Escaped c = Inside"

abbreviation qrun :: "qstate \<Rightarrow> string \<Rightarrow> qstate" where
  "qrun q s \<equiv> foldl qstep q s"

definition balanced :: "string \<Rightarrow> bool" where
  "balanced s \<longleftrightarrow> qrun Outside s = Outside"

lemma qrun_no_quote: "dquote \<notin> set s \<Longrightarrow> qrun Outside s = Outside"
  by (induction s) auto

text \<open>Text without a backslash toggles the state at each quote, whatever state it starts in.\<close>

lemma qrun_inverted:
  "backslash \<notin> set s \<Longrightarrow> qrun Inside s = (if qrun Outside s = Outside then Inside else Outside)
     \<and> (qrun Outside s = Outside \<or> qrun Outside s = Inside)"
proof (induction s rule: rev_induct)
  case (snoc c s)
  then show ?case by (auto split: if_splits)
qed simp

lemma split_scan_nonempty [simp]: "fst (split_scan d q buf s) \<noteq> []"
  by (induction d q buf s rule: split_scan.induct) (auto split: prod.splits)

lemma split_scan_prepend:
  "split_scan d q (pre @ buf) s =
     ((pre @ hd (fst (split_scan d q buf s))) # tl (fst (split_scan d q buf s)), snd (split_scan d q buf s))"
  by (induction d q buf s rule: split_scan.induct) (auto split: prod.splits)

lemma split_scan_buf:
  "split_scan d q buf s = ((buf @ hd (fst (split_scan d q [] s))) # tl (fst (split_scan d q [] s)),
     snd (split_scan d q [] s))"
  using split_scan_prepend [of d q buf "[]"] by simp

text \<open>Whether the scan is inside a quote at the end is the state the text leaves.\<close>

lemma split_scan_state:
  "snd (split_scan d q buf s) \<longleftrightarrow> qrun (if q then Inside else Outside) s \<noteq> Outside"
proof (induction d q buf s rule: split_scan.induct)
  case (2 d q buf ch rest)
  show ?case
  proof (cases "q \<and> ch = backslash")
    case True
    then show ?thesis using 2 by (cases rest) auto
  next
    case False
    then show ?thesis using 2 by (auto split: prod.splits)
  qed
qed simp

lemma split_checked_state: "snd (split_outside_quotes_checked s d) \<longleftrightarrow> \<not> balanced s"
  by (simp add: split_outside_quotes_checked_def split_scan_state balanced_def)

lemma join_split_scan: "join_on d (fst (split_scan d q buf s)) = buf @ s"
proof (induction d q buf s rule: split_scan.induct)
  case (2 d q buf ch rest)
  then show ?case
    by (auto split: prod.splits) (metis fst_conv join_on.simps(3) list.exhaust split_scan_nonempty append_Cons)
qed simp

lemma split_scan_no_quote:
  "dquote \<notin> set s \<Longrightarrow> fst (split_scan d False [] s) = split_on d s"
proof (induction s)
  case (Cons c s)
  then show ?case
    by (auto simp: split_scan_buf [of d False "[c]"] split: prod.splits list.splits)
qed simp

text \<open>Splitting is compositional at a delimiter that stands outside quotes.\<close>

lemma split_scan_append:
  assumes "qrun (if q then Inside else Outside) a = Outside" "d \<noteq> dquote"
  shows "split_scan d q buf (a @ d # s) =
     (fst (split_scan d q buf a) @ fst (split_scan d False [] s), snd (split_scan d False [] s))"
  using assms
proof (induction d q buf a rule: split_scan.induct)
  case (1 d q buf)
  then have "\<not> q" by (cases q) simp_all
  with 1 show ?case by (simp split: prod.split)
next
  case (2 d q buf ch rest)
  show ?case
  proof (cases "q \<and> ch = backslash")
    case True
    then show ?thesis using 2 by (cases rest) simp_all
  next
    case False
    then show ?thesis using 2 by (cases q; cases "ch = dquote"; cases "ch = d") (simp_all split: prod.splits)
  qed
qed

section \<open>The plain split and the walker\<close>

abbreviation plain_token :: "string \<Rightarrow> hp_token" where
  "plain_token s \<equiv> \<lparr>raw_token = s, quote_open = -1, quote_close = -1\<rparr>"

definition dict_of :: "('k \<times> 'v) list \<Rightarrow> ('k, 'v) dict \<Rightarrow> ('k, 'v) dict" where
  "dict_of ps d0 = foldl (\<lambda>d (k, v). dict_set k v d) d0 ps"

lemma dict_of_simps [simp]:
  "dict_of [] d = d" "dict_of ((k, v) # ps) d = dict_of ps (dict_set k v d)"
  "dict_of (ps @ qs) d = dict_of qs (dict_of ps d)"
  by (simp_all add: dict_of_def)

lemma header_tokens_no_quote:
  "dquote \<notin> set s \<Longrightarrow> header_tokens d u False buf (-1) (-1) s =
     map plain_token (fst (split_scan d False buf s))"
proof (induction s arbitrary: buf)
  case (Cons c s)
  then show ?case by (auto split: prod.splits)
qed simp

lemma token_value_plain: "token_value (plain_token s) v = str_strip v"
  by (simp add: token_value_def)

lemma collect_plain:
  "snd (collect_params first prefix params (map plain_token chunks)) =
     dict_of (concat (map chunk_params chunks)) params"
proof (induction chunks arbitrary: first prefix params)
  case (Cons c cs)
  obtain key eq val where p: "partition_on (CHR ''='') c = (key, eq, val)"
    by (cases "partition_on (CHR ''='') c")
  show ?case
    by (simp add: p chunk_params_def token_value_plain Cons.IH Let_def del: split_paired_Ex)
qed simp

lemma plain_params_walker:
  assumes "dquote \<notin> set rest"
  shows "snd (parse_header_params rest (CHR '';'') u) = dict_of (plain_params rest) []"
  using assms
  by (simp add: parse_header_params_def header_tokens_no_quote collect_plain plain_params_def
      split_scan_no_quote)

section \<open>Quoted values\<close>

lemma quote_header_value_simps [simp]:
  "quote_header_value [] = []"
  "quote_header_value (c # s) =
     (if c = backslash then [backslash, backslash] else if c = dquote then [backslash, dquote] else [c])
       @ quote_header_value s"
  by (simp_all add: quote_header_value_def)

lemma header_tokens_plain_part:
  "dquote \<notin> set s \<Longrightarrow> d \<notin> set s \<Longrightarrow>
     header_tokens d u False buf fo lc (s @ rest) = header_tokens d u False (buf @ s) fo lc rest"
  by (induction s arbitrary: buf) auto

lemma header_tokens_quoted_part:
  "header_tokens d True True buf fo lc (quote_header_value s @ dquote # rest) =
     header_tokens d True False (buf @ s) fo (int (length (buf @ s))) rest"
  by (induction s arbitrary: buf) (auto simp: ac_simps)

text \<open>Quoting leaves no way out of the quoted string: the walker reads back what was quoted.\<close>

lemma quote_header_value_state: "qrun Inside (quote_header_value s) = Inside"
  by (induction s) auto

section \<open>Parameters that were added are parsed back\<close>

text \<open>A name without separators, and a value that quoting or trimming does not change.\<close>

definition param_name_ok :: "string \<Rightarrow> bool" where
  "param_name_ok k \<longleftrightarrow> k \<noteq> [] \<and>
     list_all (\<lambda>c. \<not> is_space c \<and> c \<noteq> CHR ''='' \<and> c \<noteq> CHR '';'' \<and> c \<noteq> dquote) k"

definition param_ok :: "string \<times> string \<Rightarrow> bool" where
  "param_ok p \<longleftrightarrow> (case p of (k, v) \<Rightarrow> param_name_ok k \<and> (needs_quotes v \<or> str_strip v = v))"

definition param_token :: "string \<Rightarrow> string \<times> string \<Rightarrow> hp_token" where
  "param_token buf p =
     (case p of (k, v) \<Rightarrow>
        \<lparr>raw_token = buf @ wire_name k @ CHR ''='' # v,
         quote_open = (if needs_quotes v then int (length buf + length k + 1) else -1),
         quote_close = (if needs_quotes v then int (length buf + length k + 1 + length v) else -1)\<rparr>)"

lemma length_wire_name [simp]: "length (wire_name k) = length k"
  by (simp add: wire_name_def)

lemma wire_name_ok:
  assumes "param_name_ok k"
  shows "CHR ''='' \<notin> set (wire_name k)" "CHR '';'' \<notin> set (wire_name k)" "dquote \<notin> set (wire_name k)"
    "list_all (\<lambda>c. \<not> is_space c) (wire_name k)" "wire_name k \<noteq> []"
proof -
  have ok: "\<forall>c \<in> set k. \<not> is_space c \<and> c \<noteq> CHR ''='' \<and> c \<noteq> CHR '';'' \<and> c \<noteq> dquote"
    using assms by (simp add: param_name_ok_def list_all_iff)
  have ok: "\<forall>c \<in> set (wire_name k). \<not> is_space c \<and> c \<noteq> CHR ''='' \<and> c \<noteq> CHR '';'' \<and> c \<noteq> dquote"
  proof (intro ballI)
    fix c assume "c \<in> set (wire_name k)"
    then obtain c' where c': "c' \<in> set k" "c = (if c' = CHR ''_'' then CHR ''-'' else c')"
      by (auto simp: wire_name_def)
    have dash: "\<not> is_space (CHR ''-'')" by (simp add: is_space_def)
    show "\<not> is_space c \<and> c \<noteq> CHR ''='' \<and> c \<noteq> CHR '';'' \<and> c \<noteq> dquote"
    proof (cases "c' = CHR ''_''")
      case True
      with c' dash show ?thesis by simp
    next
      case False
      with ok c' show ?thesis by simp
    qed
  qed
  show "CHR ''='' \<notin> set (wire_name k)" using ok by blast
  show "CHR '';'' \<notin> set (wire_name k)" using ok by blast
  show "dquote \<notin> set (wire_name k)" using ok by blast
  show "list_all (\<lambda>c. \<not> is_space c) (wire_name k)" using ok by (simp add: list_all_iff)
  show "wire_name k \<noteq> []" using assms by (simp add: wire_name_def param_name_ok_def)
qed

lemma needs_quotes_iff:
  "needs_quotes v \<longleftrightarrow> CHR '' '' \<in> set v \<or> CHR '';'' \<in> set v \<or> CHR '','' \<in> set v \<or> dquote \<in> set v
     \<or> backslash \<in> set v"
  by (auto simp: needs_quotes_def quote_triggers_def list_ex_iff)

lemma header_tokens_param:
  assumes "param_ok (k, v)"
  shows "header_tokens (CHR '';'') True False buf (-1) (-1) (header_param (k, v) @ rest) =
     header_tokens (CHR '';'') True False (raw_token (param_token buf (k, v)))
       (quote_open (param_token buf (k, v))) (quote_close (param_token buf (k, v))) rest"
proof -
  have k: "param_name_ok k" using assms by (simp add: param_ok_def)
  note name = header_tokens_plain_part [OF wire_name_ok(3) [OF k] wire_name_ok(2) [OF k]]
  show ?thesis
  proof (cases "needs_quotes v")
    case True
    then show ?thesis
      by (simp add: header_param_def param_token_def name header_tokens_quoted_part ac_simps)
  next
    case False
    then have "dquote \<notin> set v" "CHR '';'' \<notin> set v" by (auto simp: needs_quotes_iff)
    with False show ?thesis
      by (simp add: header_param_def param_token_def name header_tokens_plain_part)
  qed
qed

lemma header_tokens_params:
  "list_all param_ok params \<Longrightarrow>
   header_tokens (CHR '';'') True False buf fo lc (concat (map (\<lambda>p. ''; '' @ header_param p) params)) =
     \<lparr>raw_token = buf, quote_open = fo, quote_close = lc\<rparr> # map (param_token '' '') params"
proof (induction params arbitrary: buf fo lc)
  case (Cons p ps)
  obtain k v where p: "p = (k, v)" by (cases p)
  show ?case
    using Cons by (simp add: p header_tokens_param) 
qed simp

lemma strip_leading_space: "str_strip (CHR '' '' # s) = str_strip s"
  by (simp add: str_strip_def str_lstrip_def is_space_def)

lemma drop_no_space: "list_all (\<lambda>c. \<not> is_space c) s \<Longrightarrow> dropWhile is_space s = s"
  by (cases s) auto

lemma strip_no_space: "list_all (\<lambda>c. \<not> is_space c) s \<Longrightarrow> str_strip s = s"
  by (simp add: str_strip_def str_lstrip_def str_rstrip_def drop_no_space)

lemma param_key:
  "param_name_ok k \<Longrightarrow> str_strip ('' '' @ wire_name k) = wire_name k"
  by (simp add: strip_leading_space strip_no_space wire_name_ok)

lemma param_token_value:
  assumes "param_ok (k, v)"
  shows "token_value (param_token buf (k, v)) v = v"
  using assms by (auto simp: token_value_def param_token_def param_ok_def str_lstrip_def str_rstrip_def)

lemma collect_param_tokens:
  "list_all param_ok params \<Longrightarrow>
   collect_params False prefix d (map (param_token '' '') params) =
     (prefix, dict_of (map (\<lambda>(k, v). (str_lower (wire_name k), v)) params) d)"
proof (induction params arbitrary: d)
  case (Cons p ps)
  obtain k v where p: "p = (k, v)" by (cases p)
  have ok: "param_ok (k, v)" "param_name_ok k" "list_all param_ok ps"
    using Cons.prems p by (simp_all, simp add: param_ok_def)
  have raw: "raw_token (param_token '' '' (k, v)) = ('' '' @ wire_name k) @ CHR ''='' # v"
    by (simp add: param_token_def)
  have part: "partition_on (CHR ''='') (raw_token (param_token '' '' (k, v))) = ('' '' @ wire_name k, True, v)"
    unfolding raw by (rule partition_on_sep) (use wire_name_ok(1) [OF ok(2)] in simp)
  have key: "str_lower (str_strip ('' '' @ wire_name k)) \<noteq> []"
    using wire_name_ok(5) [OF ok(2)] by (simp only: param_key [OF ok(2)] str_lower_def) simp
  have "collect_params False prefix d (map (param_token '' '') (p # ps)) =
      collect_params False prefix (dict_set (str_lower (wire_name k)) v d) (map (param_token '' '') ps)"
    using key by (simp only: p list.map collect_params.simps part Let_def prod.case if_False not_True_eq_False
        param_key [OF ok(2)] param_token_value [OF ok(1)])
  then show ?case using Cons.IH [OF ok(3)] p by simp
qed simp

lemma add_header_value_append:
  "add_header_value v params = v @ concat (map (\<lambda>p. ''; '' @ header_param p) params)"
proof -
  have "join_str ''; '' (v # ws) = v @ concat (map (\<lambda>w. ''; '' @ w) ws)" for v ws
    by (induction ws arbitrary: v) simp_all
  then show ?thesis by (simp add: add_header_value_def comp_def)
qed

text \<open>The main value must be no parameter itself.\<close>

definition main_value_ok :: "string \<Rightarrow> bool" where
  "main_value_ok v \<longleftrightarrow> list_all (\<lambda>c. c \<noteq> CHR ''='' \<and> c \<noteq> CHR '';'' \<and> c \<noteq> dquote) v"

lemma add_header_parsed:
  assumes "main_value_ok v" "list_all param_ok params"
  shows "parse_header_params (add_header_value v params) (CHR '';'') True =
     (str_strip v, dict_of (map (\<lambda>(k, w). (str_lower (wire_name k), w)) params) [])"
proof -
  have v: "CHR ''='' \<notin> set v" "dquote \<notin> set v" "CHR '';'' \<notin> set v"
    using assms(1) by (simp_all only: main_value_ok_def list_all_iff) blast+
  show ?thesis
    by (simp only: parse_header_params_def add_header_value_append header_tokens_plain_part [OF v(2,3)]
        append_Nil header_tokens_params [OF assms(2)])
      (simp add: header_tokens_params [OF assms(2)] partition_on_no_sep [OF v(1)] collect_param_tokens [OF assms(2)] Let_def)
qed

section \<open>Properties\<close>

text \<open>Parameters added by \<open>Headers.add\<close> are read back by \<open>parse_header_params\<close>: whatever a value
  holds (separators, quotes, backslashes), it comes out as it went in, under the lower-cased
  wire name, and no value can smuggle in another parameter.\<close>

theorem added_params_parsed_back:
  assumes "main_value_ok v" "list_all param_ok params"
  shows "parse_header_params (add_header_value v params) (CHR '';'') True =
     (str_strip v, dict_of (map (\<lambda>(k, w). (str_lower (wire_name k), w)) params) [])"
  by (rule add_header_parsed [OF assms])

theorem added_params_parsed_back_witness:
  "parse_header_params
     (add_header_value ''attachment'' [(''file_name'', ''a\"; name=x''), (''size'', ''3'')]) (CHR '';'') True
   = (''attachment'', [(''file-name'', ''a\"; name=x''), (''size'', ''3'')])"
proof -
  have v: "main_value_ok ''attachment''" by (simp add: main_value_ok_def)
  have p: "list_all param_ok [(''file_name'', ''a\"; name=x''), (''size'', ''3'')]"
    by (simp add: param_ok_def param_name_ok_def is_space_def needs_quotes_def quote_triggers_def
        str_strip_def str_lstrip_def str_rstrip_def)
  from added_params_parsed_back [OF v p] show ?thesis
    by (simp add: str_strip_def str_lstrip_def str_rstrip_def is_space_def wire_name_def str_lower_def
        lower_char_def is_upper_char_def)
qed

text \<open>A media type without a quote takes a plain split; as a dictionary its parameters are those
  the quoted-string walker finds.\<close>

theorem media_type_split_is_walker:
  assumes "dquote \<notin> set rest"
  shows "dict_of (parse_media_type_params rest) [] = snd (parse_header_params rest (CHR '';'') True)"
  using assms by (simp add: parse_media_type_params_def plain_params_walker)

theorem media_type_split_is_walker_witness:
  "dict_of (parse_media_type_params '' Charset=utf-8; q=1; q=2'') []
   = snd (parse_header_params '' Charset=utf-8; q=1; q=2'' (CHR '';'') True)
   \<and> snd (parse_header_params '' Charset=utf-8; q=1; q=2'' (CHR '';'') True)
     = [(''charset'', ''utf-8''), (''q'', ''2'')]"
proof
  show "dict_of (parse_media_type_params '' Charset=utf-8; q=1; q=2'') []
   = snd (parse_header_params '' Charset=utf-8; q=1; q=2'' (CHR '';'') True)"
    by (rule media_type_split_is_walker) simp
  show "snd (parse_header_params '' Charset=utf-8; q=1; q=2'' (CHR '';'') True)
     = [(''charset'', ''utf-8''), (''q'', ''2'')]"
    by code_simp
qed

text \<open>Splitting outside quotes loses nothing: the parts joined by the delimiter are the text, the
  flag says whether a quote is left open, and a text without quotes splits at every delimiter.\<close>

theorem split_outside_quotes_lossless:
  "join_on d (split_outside_quotes v d) = v
   \<and> (snd (split_outside_quotes_checked v d) \<longleftrightarrow> \<not> balanced v)
   \<and> (dquote \<in> set v \<or> split_outside_quotes v d = split_on d v)"
  using join_split_scan [of d False "[]" v] split_scan_no_quote [of v d] split_checked_state [of v d]
  by (auto simp: split_outside_quotes_def split_outside_quotes_checked_def)

theorem split_outside_quotes_lossless_witness:
  "join_on (CHR '','') (split_outside_quotes ''a=\"x,y\",b'' (CHR '','')) = ''a=\"x,y\",b''
   \<and> split_outside_quotes ''a=\"x,y\",b'' (CHR '','') = [''a=\"x,y\"'', ''b'']"
  using split_outside_quotes_lossless [of "CHR '',''" "''a=\"x,y\",b''"]
  by (simp add: split_outside_quotes_def split_outside_quotes_checked_def)

end
