(* ===== verification/Proxy_Fix.thy ===== *)
theory Proxy_Fix
  imports Header_Parsing
begin

text \<open>
  Trust in reverse-proxy headers, after \<open>src/src/veloce/middleware/proxy_fix.py\<close>, with
  \<open>_extract_host\<close> and \<open>_reject_header_crlf\<close> of \<open>src/src/veloce/_internal.py\<close>. The header
  multidict is third-party code: its type is a parameter, and \<open>getall\<close> (the values of a name in
  received order) and \<open>setitem\<close> are arguments. Of the request, the record keeps what the
  middleware writes.
\<close>

section \<open>State\<close>

record proxy_fix =
  x_for :: int
  x_proto :: int
  x_host :: int
  x_port :: int
  x_prefix :: int
  trust_forwarded :: bool

text \<open>\<open>px_scheme\<close> is \<open>scope["scheme"]\<close>, \<open>None\<close> where the scope is no dictionary; \<open>px_url_cached\<close> says
  whether \<open>_url\<close> holds a derived URL.\<close>

record 'h px_request =
  px_headers :: 'h
  px_client :: "string option"
  px_port :: "int option"
  px_prefix :: "string option"
  px_applied :: bool
  px_scheme :: "string option"
  px_url_cached :: bool

definition px_init :: "int \<Rightarrow> int \<Rightarrow> int \<Rightarrow> int \<Rightarrow> int \<Rightarrow> bool \<Rightarrow> proxy_fix res" where
  "px_init xfor xproto xhost xport xprefix trust =
     (if list_ex (\<lambda>v. v < 0) [xfor, xproto, xhost, xport, xprefix] then Inl ValueError
      else Inr \<lparr>x_for = xfor, x_proto = xproto, x_host = xhost, x_port = xport, x_prefix = xprefix,
                trust_forwarded = trust\<rparr>)"

section \<open>Reading the headers\<close>

definition hop_header :: "string list \<Rightarrow> string option" where
  "hop_header values = (if values = [] then None else Some (join_str '', '' values))"

text \<open>\<open>parts[-hops]\<close> after the length test.\<close>

definition from_right :: "int \<Rightarrow> 'a list \<Rightarrow> 'a option" where
  "from_right hops parts =
     (if hops \<le> 0 \<or> int (length parts) < hops then None else Some (parts ! (length parts - nat hops)))"

definition pick_hop :: "string option \<Rightarrow> int \<Rightarrow> string option" where
  "pick_hop header_value hops =
     (case header_value of
        None \<Rightarrow> None
      | Some v \<Rightarrow> if v = [] then None
                  else from_right hops (filter (\<lambda>p. p \<noteq> []) (map str_strip (split_on (CHR '','') v))))"

definition extract_host :: "string \<Rightarrow> bool \<Rightarrow> string" where
  "extract_host raw lower =
     (let host =
        (if CHR ''['' \<in> set raw then drop 1 (takeWhile (\<lambda>c. c \<noteq> CHR '']'') raw)
         else if 2 \<le> length (filter (\<lambda>c. c = CHR '':'') raw) then raw
         else takeWhile (\<lambda>c. c \<noteq> CHR '':'') raw)
      in if lower then str_lower host else host)"

section \<open>The Forwarded header\<close>

fun element_pairs :: "(string, string) dict \<Rightarrow> string list \<Rightarrow> (string, string) dict" where
  "element_pairs result [] = result"
| "element_pairs result (p # ps) =
     (let pair = str_strip p; (k0, eq, v0) = partition_on (CHR ''='') pair in
      if \<not> eq then element_pairs result ps
      else
        (let k = str_lower (str_strip k0); v1 = unquote_value v0;
             v = (if k \<in> {''for'', ''by''} \<and> starts_with ''['' v1 \<and> CHR '']'' \<in> set v1
                  then drop 1 (takeWhile (\<lambda>c. c \<noteq> CHR '']'') v1) else v1)
         in element_pairs (dict_set k v result) ps))"

definition parse_forwarded_element :: "string \<Rightarrow> (string, string) dict" where
  "parse_forwarded_element element = element_pairs [] (split_outside_quotes element (CHR '';''))"

definition forwarded_directives ::
  "(string, string) dict list \<Rightarrow> (string \<times> int) list \<Rightarrow> (string, string) dict" where
  "forwarded_directives parsed wanted =
     foldl (\<lambda>result (directive, hops).
         case from_right hops parsed of
           None \<Rightarrow> result
         | Some element \<Rightarrow>
             (case map_of element directive of
                None \<Rightarrow> result
              | Some v \<Rightarrow> if v = [] then result else dict_set directive v result))
       [] wanted"

definition parse_forwarded :: "string \<Rightarrow> int \<Rightarrow> int \<Rightarrow> int \<Rightarrow> int \<Rightarrow> (string, string) dict" where
  "parse_forwarded v xfor xproto xhost xprefix =
     (let (raw, unterminated) = split_outside_quotes_checked v (CHR '','') in
      if unterminated then []
      else forwarded_directives
             (map parse_forwarded_element (filter (\<lambda>e. str_strip e \<noteq> []) raw))
             [(''for'', xfor), (''proto'', xproto), (''host'', xhost), (''prefix'', xprefix)])"

section \<open>process\_request\<close>

text \<open>What the headers say: client, proto, host, port and prefix.\<close>

record px_picked =
  pk_client :: "string option"
  pk_proto :: "string option"
  pk_host :: "string option"
  pk_port :: "string option"
  pk_prefix :: "string option"

definition given :: "string option \<Rightarrow> bool" where
  "given v \<longleftrightarrow> (case v of None \<Rightarrow> False | Some s \<Rightarrow> s \<noteq> [])"

definition gated_hop :: "(string \<Rightarrow> string list) \<Rightarrow> string \<Rightarrow> int \<Rightarrow> string option" where
  "gated_hop getall name hops = (if hops \<noteq> 0 then pick_hop (hop_header (getall name)) hops else None)"

definition px_pick :: "proxy_fix \<Rightarrow> (string \<Rightarrow> string list) \<Rightarrow> px_picked" where
  "px_pick px getall =
     (let forwarded = (if trust_forwarded px then hop_header (getall ''forwarded'') else None);
          fwd = (if given forwarded
                 then parse_forwarded (the forwarded) (x_for px) (x_proto px) (x_host px) (x_prefix px) else []);
          named = (\<lambda>directive name hops. if given forwarded then map_of fwd directive else gated_hop getall name hops)
      in \<lparr>pk_client = named ''for'' ''X-Forwarded-For'' (x_for px),
          pk_proto = named ''proto'' ''X-Forwarded-Proto'' (x_proto px),
          pk_host = named ''host'' ''X-Forwarded-Host'' (x_host px),
          pk_port = gated_hop getall ''X-Forwarded-Port'' (x_port px),
          pk_prefix = (if given (map_of fwd ''prefix'') then map_of fwd ''prefix''
                       else gated_hop getall ''X-Forwarded-Prefix'' (x_prefix px))\<rparr>)"

definition px_port_num :: "string \<Rightarrow> int" where
  "px_port_num port = (case py_int port of Inl e \<Rightarrow> -1 | Inr n \<Rightarrow> n)"

text \<open>The five checks come before the first write, so a refused value changes nothing.\<close>

definition px_check :: "px_picked \<Rightarrow> unit res" where
  "px_check p =
     (if list_ex (\<lambda>v. case v of None \<Rightarrow> False | Some s \<Rightarrow> s \<noteq> [] \<and> header_value_has_crlf s)
           [pk_client p, pk_proto p, pk_host p, pk_port p, pk_prefix p]
      then Inl ValueError else Inr ())"

definition px_apply :: "('h \<Rightarrow> string \<Rightarrow> string \<Rightarrow> 'h) \<Rightarrow> px_picked \<Rightarrow> 'h px_request \<Rightarrow> 'h px_request" where
  "px_apply setitem p r0 =
     (let r1 = (if given (pk_client p) then r0\<lparr>px_client := Some (extract_host (the (pk_client p)) False)\<rparr> else r0);
          r2 = (if given (pk_host p) then r1\<lparr>px_headers := setitem (px_headers r1) ''host'' (the (pk_host p))\<rparr> else r1);
          r3 = (if given (pk_port p) \<and> 0 < px_port_num (the (pk_port p)) \<and> px_port_num (the (pk_port p)) \<le> 65535
                then r2\<lparr>px_port := Some (px_port_num (the (pk_port p)))\<rparr> else r2);
          r4 = (if given (pk_proto p)
                then r3\<lparr>px_headers := setitem (px_headers r3) ''X-Forwarded-Proto'' (the (pk_proto p)),
                        px_scheme := (case px_scheme r3 of None \<Rightarrow> None
                                      | Some s \<Rightarrow> Some (str_lower (the (pk_proto p))))\<rparr> else r3);
          r5 = (if given (pk_prefix p) then r4\<lparr>px_prefix := pk_prefix p\<rparr> else r4)
      in r5\<lparr>px_applied := True, px_url_cached := False\<rparr>)"

definition process_request ::
  "('h \<Rightarrow> string \<Rightarrow> string list) \<Rightarrow> ('h \<Rightarrow> string \<Rightarrow> string \<Rightarrow> 'h) \<Rightarrow> proxy_fix \<Rightarrow> 'h px_request
     \<Rightarrow> 'h px_request res" where
  "process_request getall setitem px req =
     (let p = px_pick px (getall (px_headers req))
      in res_bind (px_check p) (\<lambda>_. Inr (px_apply setitem p req)))"

section \<open>What the client cannot reach\<close>

lemma from_right_append:
  assumes "hops \<le> int (length ys)"
  shows "from_right hops (xs @ ys) = from_right hops ys"
proof (cases "hops \<le> 0")
  case False
  with assms have "nat hops \<le> length ys" "0 < nat hops" by linarith+
  then have e: "length xs + length ys - nat hops = length xs + (length ys - nat hops)" by linarith
  have "(xs @ ys) ! (length xs + length ys - nat hops) = ys ! (length ys - nat hops)"
    unfolding e by (rule nth_append_length_plus)
  with assms False show ?thesis by (simp add: from_right_def)
qed (simp add: from_right_def)

lemma from_right_map: "from_right hops (map f xs) = map_option f (from_right hops xs)"
  by (auto simp: from_right_def)

definition hops_of :: "string \<Rightarrow> string list" where
  "hops_of v = filter (\<lambda>p. p \<noteq> []) (map str_strip (split_on (CHR '','') v))"

lemma hops_of_append: "hops_of (a @ CHR '','' # t) = hops_of a @ hops_of t"
  by (simp add: hops_of_def split_on_append)

lemma pick_hop_hops:
  assumes "hops \<le> int (length (hops_of t))"
  shows "pick_hop (Some (a @ CHR '','' # t)) hops = from_right hops (hops_of t)"
  using from_right_append [OF assms] by (simp add: pick_hop_def hops_of_append flip: hops_of_def)

lemma pick_hop_own:
  "hops \<le> int (length (hops_of t)) \<Longrightarrow> pick_hop (Some t) hops = from_right hops (hops_of t)"
  by (auto simp: pick_hop_def str_strip_def str_lstrip_def str_rstrip_def from_right_def hops_of_def)

text \<open>\<open>carries t v\<close>: the trusted text \<open>t\<close> alone, or with anything a client put before it.\<close>

definition carries :: "string \<Rightarrow> string \<Rightarrow> bool" where
  "carries t v \<longleftrightarrow> v = t \<or> ends_with (CHR '','' # t) v"

lemma carries_cases:
  assumes "carries t v"
  obtains "v = t" | a where "v = a @ CHR '','' # t"
  using assms unfolding carries_def ends_with_def
  by (metis append_take_drop_id)

lemma pick_hop_carries:
  "carries t v \<Longrightarrow> hops \<le> int (length (hops_of t)) \<Longrightarrow> pick_hop (Some v) hops = from_right hops (hops_of t)"
  by (erule carries_cases) (simp_all add: pick_hop_hops pick_hop_own)

section \<open>The quote an attacker leaves open\<close>

lemma qrun_swallowed:
  assumes "backslash \<notin> set t" "balanced t" "\<not> balanced a"
  shows "\<not> balanced (a @ CHR '','' # t)"
proof -
  have "qstep (qrun Outside a) (CHR '','') = Inside"
    using assms(3) by (cases "qrun Outside a") (simp_all add: balanced_def)
  then show ?thesis
    using qrun_inverted [OF assms(1)] assms(2) by (simp add: balanced_def)
qed

definition forwarded_elements :: "string \<Rightarrow> (string, string) dict list" where
  "forwarded_elements v =
     map parse_forwarded_element (filter (\<lambda>e. str_strip e \<noteq> []) (split_outside_quotes v (CHR '','')))"

lemma parse_forwarded_elements:
  "parse_forwarded v xfor xproto xhost xprefix =
     (if balanced v then forwarded_directives (forwarded_elements v)
            [(''for'', xfor), (''proto'', xproto), (''host'', xhost), (''prefix'', xprefix)] else [])"
  using split_checked_state [of v "CHR '',''"]
  by (cases "split_outside_quotes_checked v (CHR '','')")
    (simp add: parse_forwarded_def forwarded_elements_def split_outside_quotes_def)

lemma forwarded_elements_append:
  "balanced a \<Longrightarrow> forwarded_elements (a @ CHR '','' # t) = forwarded_elements a @ forwarded_elements t"
  by (simp add: forwarded_elements_def split_outside_quotes_def split_outside_quotes_checked_def
      split_scan_append balanced_def)

lemma forwarded_directives_append:
  "list_all (\<lambda>(d, hops). hops \<le> int (length ys)) wanted \<Longrightarrow>
     forwarded_directives (xs @ ys) wanted = forwarded_directives ys wanted"
  unfolding forwarded_directives_def
  by (rule foldl_cong [OF refl refl]) (auto simp: list_all_iff from_right_append)

lemma parse_forwarded_carries:
  assumes "carries t v" "backslash \<notin> set t" "balanced t"
    and "xfor \<le> int (length (forwarded_elements t))" "xproto \<le> int (length (forwarded_elements t))"
      "xhost \<le> int (length (forwarded_elements t))" "xprefix \<le> int (length (forwarded_elements t))"
  shows "parse_forwarded v xfor xproto xhost xprefix =
     (if balanced v then parse_forwarded t xfor xproto xhost xprefix else [])"
  using assms(1)
proof (cases rule: carries_cases)
  case (2 a)
  show ?thesis
  proof (cases "balanced a")
    case True
    then have "balanced v \<longleftrightarrow> balanced t" by (simp add: 2 balanced_def)
    with True assms show ?thesis
      by (simp add: parse_forwarded_elements 2 forwarded_elements_append forwarded_directives_append)
  next
    case False
    with qrun_swallowed [OF assms(2,3)] show ?thesis by (simp add: parse_forwarded_elements 2)
  qed
qed (use assms(3) in simp)

section \<open>Two requests with the same trusted text\<close>

definition vouched :: "(string \<Rightarrow> string list) \<Rightarrow> (string \<Rightarrow> string) \<Rightarrow> string \<Rightarrow> int \<Rightarrow> bool" where
  "vouched getall trusted name hops \<longleftrightarrow>
     (hops = 0 \<or> (case hop_header (getall name) of
        None \<Rightarrow> False
      | Some v \<Rightarrow> carries (trusted name) v \<and> hops \<le> int (length (hops_of (trusted name)))))"

definition px_vouched :: "proxy_fix \<Rightarrow> (string \<Rightarrow> string list) \<Rightarrow> (string \<Rightarrow> string) \<Rightarrow> bool" where
  "px_vouched px getall trusted \<longleftrightarrow>
     vouched getall trusted ''X-Forwarded-For'' (x_for px)
     \<and> vouched getall trusted ''X-Forwarded-Proto'' (x_proto px)
     \<and> vouched getall trusted ''X-Forwarded-Host'' (x_host px)
     \<and> vouched getall trusted ''X-Forwarded-Port'' (x_port px)
     \<and> vouched getall trusted ''X-Forwarded-Prefix'' (x_prefix px)"

definition px_observed :: "'h px_request \<Rightarrow> string option \<times> int option \<times> string option \<times> bool \<times> string option" where
  "px_observed r = (px_client r, px_port r, px_prefix r, px_applied r, px_scheme r)"

lemma gated_hop_vouched:
  "vouched getall trusted name hops \<Longrightarrow>
     gated_hop getall name hops = (if hops = 0 then None else from_right hops (hops_of (trusted name)))"
  by (auto simp: vouched_def gated_hop_def pick_hop_carries split: option.splits)

lemma gated_hop_same:
  "vouched g trusted name hops \<Longrightarrow> vouched g' trusted name hops \<Longrightarrow> gated_hop g name hops = gated_hop g' name hops"
  by (simp add: gated_hop_vouched)

lemma px_pick_vouched:
  assumes "\<not> trust_forwarded px" "px_vouched px g trusted" "px_vouched px g' trusted"
  shows "px_pick px g = px_pick px g'"
proof -
  note same = gated_hop_same [of g trusted _ _ g']
  show ?thesis
    using assms(2,3) unfolding px_vouched_def
    by (simp add: px_pick_def assms(1) Let_def given_def same)
qed

lemma px_observed_apply:
  "px_observed (px_apply setitem p (r\<lparr>px_headers := h\<rparr>)) = px_observed (px_apply setitem p (r\<lparr>px_headers := h'\<rparr>))"
  by (simp add: px_observed_def px_apply_def Let_def)

section \<open>What is stored\<close>

definition no_crlf :: "string option \<Rightarrow> bool" where
  "no_crlf v \<longleftrightarrow> (case v of None \<Rightarrow> True | Some s \<Rightarrow> \<not> header_value_has_crlf s)"

lemma given_no_crlf: "given v \<Longrightarrow> no_crlf v \<Longrightarrow> \<not> header_value_has_crlf (the v)"
  by (cases v) (simp_all add: given_def no_crlf_def)

lemma px_check_ok:
  "px_check p = Inr u \<longleftrightarrow> list_all no_crlf [pk_client p, pk_proto p, pk_host p, pk_port p, pk_prefix p]"
  by (auto simp: px_check_def no_crlf_def header_value_has_crlf_def split: option.splits)

lemma crlf_subset: "set s \<subseteq> set t \<Longrightarrow> header_value_has_crlf s \<Longrightarrow> header_value_has_crlf t"
  unfolding header_value_has_crlf_def list_ex_iff by blast

lemma extract_host_subset: "set (extract_host raw False) \<subseteq> set raw"
proof -
  have "set (drop 1 (takeWhile P raw)) \<subseteq> set raw" for P
    using set_drop_subset [of 1 "takeWhile P raw"] set_takeWhileD by fastforce
  moreover have "set (takeWhile P raw) \<subseteq> set raw" for P
    by (auto dest: set_takeWhileD)
  ultimately show ?thesis by (simp add: extract_host_def Let_def)
qed

text \<open>The header fields a request ends with are those it had, after at most two writes.\<close>

definition header_writes :: "px_picked \<Rightarrow> (string \<times> string) list" where
  "header_writes p =
     (if given (pk_host p) then [(''host'', the (pk_host p))] else [])
     @ (if given (pk_proto p) then [(''X-Forwarded-Proto'', the (pk_proto p))] else [])"

lemma px_apply_headers:
  "px_headers (px_apply setitem p r) = foldl (\<lambda>h (k, v). setitem h k v) (px_headers r) (header_writes p)"
  by (simp add: px_apply_def header_writes_def Let_def)

lemma px_apply_stored:
  "px_client (px_apply setitem p r) = (if given (pk_client p) then Some (extract_host (the (pk_client p)) False) else px_client r)"
  "px_prefix (px_apply setitem p r) = (if given (pk_prefix p) then pk_prefix p else px_prefix r)"
  "px_port (px_apply setitem p r) =
     (if given (pk_port p) \<and> 0 < px_port_num (the (pk_port p)) \<and> px_port_num (the (pk_port p)) \<le> 65535
      then Some (px_port_num (the (pk_port p))) else px_port r)"
  by (simp_all add: px_apply_def Let_def)

lemma process_request_Inr:
  "process_request getall setitem px r = Inr r' \<Longrightarrow>
     (let p = px_pick px (getall (px_headers r)) in
      list_all no_crlf [pk_client p, pk_proto p, pk_host p, pk_port p, pk_prefix p] \<and> r' = px_apply setitem p r)"
  by (auto simp: process_request_def Let_def res_bind_Inr_iff px_check_ok)

lemma header_writes_no_crlf:
  "no_crlf (pk_host p) \<Longrightarrow> no_crlf (pk_proto p) \<Longrightarrow>
     list_all (\<lambda>(k, v). \<not> header_value_has_crlf v) (header_writes p) \<and> length (header_writes p) \<le> 2"
  by (simp add: header_writes_def given_no_crlf)

lemma extract_host_no_crlf:
  "given v \<Longrightarrow> no_crlf v \<Longrightarrow> no_crlf (Some (extract_host (the v) False))"
  using crlf_subset [OF extract_host_subset] by (auto simp: no_crlf_def given_def split: option.splits)

section \<open>Properties\<close>

text \<open>C27: With the \<open>X-Forwarded-*\<close> set, the client decides nothing: if every trusted field ends with as
  many hops as the configuration trusts, two requests that differ only in what stands to the
  left of them get the same client address, port, prefix and scheme, and the same header writes,
  or the same error.\<close>

theorem forwarded_hops_noninterference:
  assumes "\<not> trust_forwarded px"
    and "px_vouched px (getall h) trusted" "px_vouched px (getall h') trusted"
  shows "map_sum id px_observed (process_request getall setitem px (r\<lparr>px_headers := h\<rparr>)) =
      map_sum id px_observed (process_request getall setitem px (r\<lparr>px_headers := h'\<rparr>))
    \<and> header_writes (px_pick px (getall h)) = header_writes (px_pick px (getall h'))"
proof -
  have "px_pick px (getall h) = px_pick px (getall h')" by (rule px_pick_vouched [OF assms])
  then show ?thesis
    by (cases "px_check (px_pick px (getall h'))")
      (simp_all add: process_request_def Let_def px_observed_apply [where setitem = setitem and r = r and h = h and h' = h'])
qed

definition two_proxies :: proxy_fix where
  "two_proxies = \<lparr>x_for = 2, x_proto = 0, x_host = 0, x_port = 0, x_prefix = 0, trust_forwarded = False\<rparr>"

definition bare_request :: "string \<Rightarrow> string px_request" where
  "bare_request h = \<lparr>px_headers = h, px_client = None, px_port = None, px_prefix = None, px_applied = False,
     px_scheme = Some ''http'', px_url_cached = True\<rparr>"

theorem forwarded_hops_noninterference_witness:
  "map_sum id px_observed (process_request (\<lambda>h n. [h]) (\<lambda>h k v. h) two_proxies
       ((bare_request [])\<lparr>px_headers := ''6.6.6.6, 1.1.1.1, 10.0.0.1''\<rparr>)) =
   map_sum id px_observed (process_request (\<lambda>h n. [h]) (\<lambda>h k v. h) two_proxies
       ((bare_request [])\<lparr>px_headers := '' 1.1.1.1, 10.0.0.1''\<rparr>))
   \<and> map_sum id px_client (process_request (\<lambda>h n. [h]) (\<lambda>h k v. h) two_proxies
       (bare_request ''6.6.6.6, 1.1.1.1, 10.0.0.1'')) = Inr (Some ''1.1.1.1'')"
proof
  show "map_sum id px_observed (process_request (\<lambda>h n. [h]) (\<lambda>h k v. h) two_proxies
       ((bare_request [])\<lparr>px_headers := ''6.6.6.6, 1.1.1.1, 10.0.0.1''\<rparr>)) =
   map_sum id px_observed (process_request (\<lambda>h n. [h]) (\<lambda>h k v. h) two_proxies
       ((bare_request [])\<lparr>px_headers := '' 1.1.1.1, 10.0.0.1''\<rparr>))"
    by (rule forwarded_hops_noninterference
        [where trusted = "\<lambda>n. '' 1.1.1.1, 10.0.0.1''", THEN conjunct1]) code_simp+
qed code_simp

text \<open>With a trusted \<open>Forwarded\<close> header the same holds as long as the trusted elements are
  free of backslashes and close their quotes: whatever stands to their left, each directive is
  the one of the trusted text, or, when the client left a quote open, absent; the
  \<open>X-Forwarded-*\<close> headers are not asked.\<close>

theorem forwarded_header_trust:
  assumes "trust_forwarded px" "hop_header (getall ''forwarded'') = Some v" "v \<noteq> []"
    and "carries t v" "backslash \<notin> set t" "balanced t"
    and "list_all (\<lambda>hops. hops \<le> int (length (forwarded_elements t))) [x_for px, x_proto px, x_host px, x_prefix px]"
  shows "pk_client (px_pick px getall) =
      (if balanced v then map_of (parse_forwarded t (x_for px) (x_proto px) (x_host px) (x_prefix px)) ''for'' else None)
    \<and> pk_proto (px_pick px getall) =
      (if balanced v then map_of (parse_forwarded t (x_for px) (x_proto px) (x_host px) (x_prefix px)) ''proto'' else None)
    \<and> pk_host (px_pick px getall) =
      (if balanced v then map_of (parse_forwarded t (x_for px) (x_proto px) (x_host px) (x_prefix px)) ''host'' else None)"
proof -
  have "parse_forwarded v (x_for px) (x_proto px) (x_host px) (x_prefix px) =
     (if balanced v then parse_forwarded t (x_for px) (x_proto px) (x_host px) (x_prefix px) else [])"
    by (rule parse_forwarded_carries [OF assms(4-6)]) (use assms(7) in simp_all)
  moreover have "given (Some v)" using assms(3) by (simp add: given_def)
  ultimately show ?thesis using assms(1,2) by (simp add: px_pick_def Let_def)
qed

definition rfc7239_proxy :: proxy_fix where
  "rfc7239_proxy = \<lparr>x_for = 1, x_proto = 1, x_host = 0, x_port = 0, x_prefix = 0, trust_forwarded = True\<rparr>"

theorem forwarded_header_trust_witness:
  "pk_client (px_pick rfc7239_proxy (\<lambda>n. [''for=6.6.6.6;x=\",for=\"10.0.0.1\"''])) = None
   \<and> pk_client (px_pick rfc7239_proxy (\<lambda>n. [''for=6.6.6.6,for=\"10.0.0.1\"''])) = Some ''10.0.0.1''"
proof
  have trusted: "trust_forwarded rfc7239_proxy" "backslash \<notin> set ''for=\"10.0.0.1\"''" "balanced ''for=\"10.0.0.1\"''"
    "list_all (\<lambda>hops. hops \<le> int (length (forwarded_elements ''for=\"10.0.0.1\"'')))
       [x_for rfc7239_proxy, x_proto rfc7239_proxy, x_host rfc7239_proxy, x_prefix rfc7239_proxy]"
    by code_simp+
  have one: "hop_header [v] = Some v" for v by (simp add: hop_header_def)
  have trust: "v \<noteq> [] \<Longrightarrow> carries ''for=\"10.0.0.1\"'' v \<Longrightarrow>
      pk_client (px_pick rfc7239_proxy (\<lambda>n. [v])) =
        (if balanced v then map_of (parse_forwarded ''for=\"10.0.0.1\"'' (x_for rfc7239_proxy) (x_proto rfc7239_proxy)
           (x_host rfc7239_proxy) (x_prefix rfc7239_proxy)) ''for'' else None)" for v
    by (rule forwarded_header_trust [where t = "''for=\"10.0.0.1\"''", OF trusted(1) one _ _ trusted(2-4), THEN conjunct1])
  have "\<not> balanced ''for=6.6.6.6;x=\",for=\"10.0.0.1\"''" "carries ''for=\"10.0.0.1\"'' ''for=6.6.6.6;x=\",for=\"10.0.0.1\"''"
    by code_simp+
  with trust [of "''for=6.6.6.6;x=\",for=\"10.0.0.1\"''"]
  show "pk_client (px_pick rfc7239_proxy (\<lambda>n. [''for=6.6.6.6;x=\",for=\"10.0.0.1\"''])) = None" by simp
  have "balanced ''for=6.6.6.6,for=\"10.0.0.1\"''" "carries ''for=\"10.0.0.1\"'' ''for=6.6.6.6,for=\"10.0.0.1\"''"
    "map_of (parse_forwarded ''for=\"10.0.0.1\"'' (x_for rfc7239_proxy) (x_proto rfc7239_proxy)
       (x_host rfc7239_proxy) (x_prefix rfc7239_proxy)) ''for'' = Some ''10.0.0.1''"
    by code_simp+
  with trust [of "''for=6.6.6.6,for=\"10.0.0.1\"''"]
  show "pk_client (px_pick rfc7239_proxy (\<lambda>n. [''for=6.6.6.6,for=\"10.0.0.1\"''])) = Some ''10.0.0.1''" by simp
qed

definition escaped_element :: string where
  "escaped_element = ''for=10.0.0.1;host=\"a'' @ [backslash] @ ''\"b\"''"

text \<open>Without that condition the client wins. The trusted proxy appends one well-formed element
  whose host carries an escaped quote; the client opens a quote in an element of its own. Outside
  a quote the backslash is an ordinary character, so the quotes balance again, the commas between
  are swallowed and the client's \<open>for\<close> is the one that is trusted.\<close>

theorem forwarded_escaped_quote_spoof:
  "px_pick rfc7239_proxy (\<lambda>n. [escaped_element]) =
     \<lparr>pk_client = Some ''10.0.0.1'', pk_proto = None, pk_host = None, pk_port = None, pk_prefix = None\<rparr>
   \<and> px_pick rfc7239_proxy (\<lambda>n. [''for=6.6.6.6;proto=https;x=\"'', escaped_element]) =
     \<lparr>pk_client = Some ''6.6.6.6'', pk_proto = Some ''https'', pk_host = None, pk_port = None, pk_prefix = None\<rparr>"
  by code_simp

text \<open>Nothing the middleware stores can split a header or a log line: after a request that is not
  refused, the stored client and prefix and every header it wrote are free of CR, LF and NUL,
  and a stored port is a port.\<close>

theorem proxied_values_are_safe:
  assumes "process_request getall setitem px r = Inr r'"
    and "px_client r = None" "px_prefix r = None" "px_port r = None"
  shows "no_crlf (px_client r') \<and> no_crlf (px_prefix r')
    \<and> (px_port r' = None \<or> (\<exists>n. px_port r' = Some n \<and> 0 < n \<and> n \<le> 65535))
    \<and> (\<exists>writes. px_headers r' = foldl (\<lambda>h (k, v). setitem h k v) (px_headers r) writes
          \<and> list_all (\<lambda>(k, v). \<not> header_value_has_crlf v) writes \<and> length writes \<le> 2)
    \<and> px_applied r' \<and> \<not> px_url_cached r'"
proof -
  define p where "p = px_pick px (getall (px_headers r))"
  from process_request_Inr [OF assms(1)] have ok: "no_crlf (pk_client p)" "no_crlf (pk_proto p)" "no_crlf (pk_host p)"
    "no_crlf (pk_prefix p)" and r': "r' = px_apply setitem p r" by (simp_all add: Let_def p_def)
  have "px_applied r' \<and> \<not> px_url_cached r'" by (simp add: r' px_apply_def Let_def)
  moreover have "no_crlf (px_client r')" "no_crlf (px_prefix r')"
    using ok(1,4) assms(2,3) extract_host_no_crlf [of "pk_client p"]
    by (simp_all add: r' px_apply_stored no_crlf_def)
  ultimately show ?thesis
    using header_writes_no_crlf [OF ok(3,2)] px_apply_headers [of setitem p r] assms(4)
    by (auto simp: r' px_apply_stored)
qed

theorem proxied_values_are_safe_witness:
  "no_crlf (px_client (case process_request (\<lambda>h n. [h]) (\<lambda>h k v. h) two_proxies (bare_request ''1.1.1.1, 10.0.0.1'')
      of Inr r \<Rightarrow> r | Inl e \<Rightarrow> bare_request []))"
proof -
  have "process_request (\<lambda>h n. [h]) (\<lambda>h k v. h) two_proxies (bare_request ''1.1.1.1, 10.0.0.1'') =
      Inr ((bare_request ''1.1.1.1, 10.0.0.1'')\<lparr>px_client := Some ''1.1.1.1'', px_applied := True, px_url_cached := False\<rparr>)"
    by code_simp
  from proxied_values_are_safe [OF this] this show ?thesis by (simp add: bare_request_def)
qed

end
