(* ===== verification/Header_Set.thy ===== *)
theory Header_Set
  imports Header_Parsing
begin

text \<open>
  Ordered case-insensitive token sets, after \<open>HeaderSet\<close> in \<open>src/src/veloce/http/header_set.py\<close>,
  and their client \<open>Response.add_vary\<close> in \<open>src/src/veloce/http/response.py\<close> with the
  case-insensitive lookups \<open>header_key\<close>, \<open>header_get\<close> and \<open>header_pop\<close>. The interface of a token set
  is a locale; what the client relies on is proved from it.
\<close>

section \<open>The interface of a token set\<close>

abbreviation lowers :: "string list \<Rightarrow> string set" where
  "lowers hs \<equiv> str_lower ` set hs"

locale token_set =
  fixes ok :: "'s \<Rightarrow> bool"
    and items :: "'s \<Rightarrow> string list"
    and contains :: "string \<Rightarrow> 's \<Rightarrow> bool"
    and add :: "string \<Rightarrow> 's \<Rightarrow> 's"
    and discard :: "string \<Rightarrow> 's \<Rightarrow> 's"
  assumes ok_distinct: "ok s \<Longrightarrow> distinct (map str_lower (items s))"
    and contains_iff: "ok s \<Longrightarrow> contains h s \<longleftrightarrow> str_lower h \<in> lowers (items s)"
    and ok_add: "ok s \<Longrightarrow> ok (add h s)"
    and items_add: "ok s \<Longrightarrow> items (add h s) = (if contains h s then items s else items s @ [h])"
    and ok_discard: "ok s \<Longrightarrow> ok (discard h s)"
    and items_discard: "ok s \<Longrightarrow> items (discard h s) = filter (\<lambda>x. str_lower x \<noteq> str_lower h) (items s)"
begin

lemma contains_add: "ok s \<Longrightarrow> contains h (add g s) \<longleftrightarrow> contains h s \<or> str_lower h = str_lower g"
  by (auto simp: contains_iff ok_add items_add)

lemma contains_discard: "ok s \<Longrightarrow> contains h (discard g s) \<longleftrightarrow> contains h s \<and> str_lower h \<noteq> str_lower g"
  by (auto simp: contains_iff ok_discard items_discard)

lemma ok_adds: "ok s \<Longrightarrow> ok (fold add hs s)"
  by (induction hs arbitrary: s) (simp_all add: ok_add)

lemma contains_adds:
  "ok s \<Longrightarrow> contains h (fold add hs s) \<longleftrightarrow> contains h s \<or> str_lower h \<in> lowers hs"
  by (induction hs arbitrary: s) (auto simp: ok_add contains_add)

lemma items_adds_prefix: "ok s \<Longrightarrow> take (length (items s)) (items (fold add hs s)) = items s"
proof (induction hs arbitrary: s)
  case (Cons h hs)
  have "take (length (items s)) (items (fold add hs (add h s))) =
      take (length (items s)) (take (length (items (add h s))) (items (fold add hs (add h s))))"
    using Cons.prems by (simp add: items_add min_def)
  also have "\<dots> = items s"
    using Cons.IH [OF ok_add [OF Cons.prems, of h]] Cons.prems by (simp add: items_add)
  finally show ?case by simp
qed simp

lemma items_adds_subset: "ok s \<Longrightarrow> set (items (fold add hs s)) \<subseteq> set (items s) \<union> set hs"
proof (induction hs arbitrary: s)
  case (Cons h hs)
  have "set (items (add h s)) \<subseteq> insert h (set (items s))" using Cons.prems by (simp add: items_add) blast
  with Cons.IH [OF ok_add [OF Cons.prems, of h]] show ?case by auto
qed simp

lemma items_adds_distinct:
  "ok s \<Longrightarrow> distinct (map str_lower hs) \<Longrightarrow> lowers hs \<inter> lowers (items s) = {} \<Longrightarrow>
     items (fold add hs s) = items s @ hs"
proof (induction hs arbitrary: s)
  case (Cons h hs)
  have "\<not> contains h s" using Cons.prems by (auto simp: contains_iff)
  then have i: "items (add h s) = items s @ [h]" using Cons.prems(1) by (simp add: items_add)
  have "lowers hs \<inter> lowers (items (add h s)) = {}" using Cons.prems(2,3) i by auto
  from Cons.IH [OF ok_add [OF Cons.prems(1)] _ this] Cons.prems(2) i show ?case by simp
qed simp

end

section \<open>HeaderSet\<close>

record header_set =
  hs_items :: "string list"
  hs_lower :: "string set"

definition hs_empty :: header_set where
  "hs_empty = \<lparr>hs_items = [], hs_lower = {}\<rparr>"

definition hs_contains :: "string \<Rightarrow> header_set \<Rightarrow> bool" where
  "hs_contains h s \<longleftrightarrow> str_lower h \<in> hs_lower s"

definition hs_add :: "string \<Rightarrow> header_set \<Rightarrow> header_set" where
  "hs_add h s =
     (let key = str_lower h in
      if key \<in> hs_lower s then s
      else s\<lparr>hs_lower := insert key (hs_lower s), hs_items := hs_items s @ [h]\<rparr>)"

definition hs_discard :: "string \<Rightarrow> header_set \<Rightarrow> header_set" where
  "hs_discard h s =
     (let key = str_lower h in
      if key \<notin> hs_lower s then s
      else s\<lparr>hs_lower := hs_lower s - {key}, hs_items := filter (\<lambda>x. str_lower x \<noteq> key) (hs_items s)\<rparr>)"

definition hs_remove :: "string \<Rightarrow> header_set \<Rightarrow> header_set res" where
  "hs_remove h s = (if str_lower h \<notin> hs_lower s then Inl KeyError else Inr (hs_discard h s))"

definition hs_update :: "string list \<Rightarrow> header_set \<Rightarrow> header_set" where
  "hs_update hs s = fold hs_add hs s"

definition hs_clear :: "header_set \<Rightarrow> header_set" where
  "hs_clear s = s\<lparr>hs_items := [], hs_lower := {}\<rparr>"

definition hs_to_header :: "header_set \<Rightarrow> string" where
  "hs_to_header s = join_str '', '' (hs_items s)"

definition header_tokens_of :: "string list \<Rightarrow> string list" where
  "header_tokens_of vs = filter (\<lambda>v. v \<noteq> []) (map str_strip vs)"

text \<open>\<open>HeaderSet(value)\<close> for a string and for an iterable.\<close>

definition hs_of_string :: "string \<Rightarrow> header_set" where
  "hs_of_string v = fold hs_add (header_tokens_of (split_on (CHR '','') v)) hs_empty"

definition hs_of_list :: "string list \<Rightarrow> header_set" where
  "hs_of_list vs = fold hs_add (header_tokens_of vs) hs_empty"

definition hs_eq :: "header_set \<Rightarrow> header_set \<Rightarrow> bool" where
  "hs_eq a b \<longleftrightarrow> hs_lower a = hs_lower b"

definition hs_ok :: "header_set \<Rightarrow> bool" where
  "hs_ok s \<longleftrightarrow> hs_lower s = lowers (hs_items s) \<and> distinct (map str_lower (hs_items s))"

lemma hs_ok_empty [simp]: "hs_ok hs_empty"
  by (simp add: hs_ok_def hs_empty_def)

lemma hs_ok_clear: "hs_ok (hs_clear s)"
  by (simp add: hs_ok_def hs_clear_def)

interpretation hs: token_set hs_ok hs_items hs_contains hs_add hs_discard
proof unfold_locales
  fix s :: header_set and h
  assume ok: "hs_ok s"
  show "distinct (map str_lower (hs_items s))" using ok by (simp add: hs_ok_def)
  show "hs_contains h s \<longleftrightarrow> str_lower h \<in> lowers (hs_items s)"
    using ok by (simp add: hs_ok_def hs_contains_def)
  show "hs_ok (hs_add h s)" using ok by (simp add: hs_ok_def hs_add_def Let_def)
  show "hs_items (hs_add h s) = (if hs_contains h s then hs_items s else hs_items s @ [h])"
    by (simp add: hs_add_def hs_contains_def Let_def)
  have "filter (\<lambda>x. str_lower x \<noteq> str_lower h) (hs_items s) = hs_items s" if "str_lower h \<notin> lowers (hs_items s)"
    using that by (intro filter_True ballI) (metis imageI)
  then show "hs_items (hs_discard h s) = filter (\<lambda>x. str_lower x \<noteq> str_lower h) (hs_items s)"
    using ok by (simp add: hs_ok_def hs_discard_def Let_def)
  show "hs_ok (hs_discard h s)"
    using ok by (auto simp: hs_ok_def hs_discard_def Let_def distinct_map inj_on_def)
qed

section \<open>Tokens and their text\<close>

text \<open>A token a comma-separated list can carry.\<close>

definition list_token :: "string \<Rightarrow> bool" where
  "list_token t \<longleftrightarrow> t \<noteq> [] \<and> str_strip t = t \<and> CHR '','' \<notin> set t"

lemma str_rstrip_prefix: "\<exists>z. s = str_rstrip s @ z"
  unfolding str_rstrip_def by (metis rev_append rev_rev_ident takeWhile_dropWhile_id)

lemma str_strip_ends:
  assumes "str_strip s \<noteq> []"
  shows "\<not> is_space (hd (str_strip s))" "\<not> is_space (last (str_strip s))"
proof -
  obtain z where z: "str_lstrip s = str_strip s @ z" using str_rstrip_prefix by (metis str_strip_def)
  with assms have "str_lstrip s \<noteq> []" "hd (str_lstrip s) = hd (str_strip s)" by simp_all
  then show "\<not> is_space (hd (str_strip s))" unfolding str_lstrip_def by (metis hd_dropWhile)
  show "\<not> is_space (last (str_strip s))"
    using assms unfolding str_strip_def str_rstrip_def
    by (metis Nil_is_rev_conv hd_dropWhile last_rev)
qed

lemma str_strip_idem [simp]: "str_strip (str_strip s) = str_strip s"
proof (cases "str_strip s = []")
  case True
  have "str_strip [] = []" by (simp add: str_strip_def str_lstrip_def str_rstrip_def)
  with True show ?thesis by simp
next
  case False
  then show ?thesis using str_strip_no_space_ends [OF False] str_strip_ends [OF False] by simp
qed

lemma set_str_strip: "set (str_strip s) \<subseteq> set s"
proof
  fix c assume "c \<in> set (str_strip s)"
  then have "c \<in> set (dropWhile is_space (rev (dropWhile is_space s)))"
    by (simp add: str_strip_def str_lstrip_def str_rstrip_def)
  from set_dropWhileD [OF this] have "c \<in> set (dropWhile is_space s)" by simp
  then show "c \<in> set s" by (rule set_dropWhileD)
qed

lemma header_tokens_of_tokens: "list_all list_token (header_tokens_of (split_on (CHR '','') v))"
proof -
  have "list_token t" if "t \<in> set (header_tokens_of (split_on (CHR '','') v))" for t
  proof -
    from that obtain w where w: "w \<in> set (split_on (CHR '','') v)" "t = str_strip w" "t \<noteq> []"
      by (auto simp: header_tokens_of_def)
    with split_on_no_sep [OF w(1)] set_str_strip [of w] show ?thesis by (auto simp: list_token_def)
  qed
  then show ?thesis by (simp add: list_all_iff)
qed

lemma header_tokens_of_list: "list_all list_token ts \<Longrightarrow> header_tokens_of ts = ts"
  by (induction ts) (simp_all add: header_tokens_of_def list_token_def)

lemma split_join_tokens:
  "list_all list_token ts \<Longrightarrow> header_tokens_of (split_on (CHR '','') (join_str '', '' ts)) = ts"
proof (induction "'', ''" ts rule: join_str.induct)
  case 1
  then show ?case by (simp add: header_tokens_of_def str_strip_def str_lstrip_def str_rstrip_def)
next
  case (2 w)
  then show ?case by (simp add: header_tokens_of_def list_token_def split_on_single)
next
  case (3 w v ws)
  have w: "CHR '','' \<notin> set w" "str_strip w = w" "w \<noteq> []" using 3 by (simp_all add: list_token_def)
  obtain x xs where x: "split_on (CHR '','') (join_str '', '' (v # ws)) = x # xs"
    using split_on_nonempty by (metis list.exhaust)
  have "header_tokens_of (split_on (CHR '','') (CHR '' '' # join_str '', '' (v # ws))) =
      header_tokens_of (split_on (CHR '','') (join_str '', '' (v # ws)))"
    by (simp add: x header_tokens_of_def strip_leading_space)
  moreover have "header_tokens_of (split_on (CHR '','') (join_str '', '' (v # ws))) = v # ws" using 3 by simp
  ultimately have "header_tokens_of (split_on (CHR '','') (CHR '' '' # join_str '', '' (v # ws))) = v # ws"
    by simp
  then show ?case
    using w by (simp add: split_on_append_sep) (simp add: header_tokens_of_def)
qed

lemma hs_of_string_ok [simp]: "hs_ok (hs_of_string v)"
  unfolding hs_of_string_def by (rule hs.ok_adds) simp

lemma hs_of_string_tokens: "list_all list_token (hs_items (hs_of_string v))"
  using hs.items_adds_subset [OF hs_ok_empty, of "header_tokens_of (split_on (CHR '','') v)"]
    header_tokens_of_tokens [of v]
  by (auto simp: hs_of_string_def list_all_iff hs_empty_def)

lemma hs_items_to_header:
  assumes "hs_ok s" "list_all list_token (hs_items s)"
  shows "hs_items (hs_of_string (hs_to_header s)) = hs_items s"
proof -
  have "hs_items (fold hs_add (hs_items s) hs_empty) = hs_items hs_empty @ hs_items s"
    by (rule hs.items_adds_distinct) (use assms in \<open>simp_all add: hs_ok_def hs_empty_def\<close>)
  then show ?thesis
    by (simp add: hs_of_string_def hs_to_header_def split_join_tokens [OF assms(2)]) (simp add: hs_empty_def)
qed

section \<open>Response headers\<close>

text \<open>
  The headers of a response are a plain dictionary, so the same field can be stored under any
  casing. \<open>rs_encoded\<close> says whether the encoded form is still valid.
\<close>

type_synonym headers = "(string, string) dict"

record response =
  rs_status :: nat
  rs_body :: string
  rs_headers :: headers
  rs_encoded :: bool

definition header_key :: "headers \<Rightarrow> string \<Rightarrow> string option" where
  "header_key hdr name =
     (if map_of hdr name \<noteq> None then Some name
      else map_option fst (List.find (\<lambda>(k, v). str_lower k = str_lower name) hdr))"

definition header_get :: "headers \<Rightarrow> string \<Rightarrow> string option" where
  "header_get hdr name = (case header_key hdr name of None \<Rightarrow> None | Some k \<Rightarrow> map_of hdr k)"

definition header_pop :: "headers \<Rightarrow> string \<Rightarrow> string option \<times> headers" where
  "header_pop hdr name =
     (case header_key hdr name of None \<Rightarrow> (None, hdr) | Some k \<Rightarrow> (map_of hdr k, dict_del k hdr))"

text \<open>The module-wide memo of merges: from an existing value and the names added to the result.\<close>

type_synonym vary_memo = "(string \<times> string list, string) dict"

definition max_vary_merges :: nat where "max_vary_merges = 256"

definition vary_merge :: "string \<Rightarrow> string list \<Rightarrow> string" where
  "vary_merge existing names = hs_to_header (hs_update names (hs_of_string existing))"

definition add_vary :: "string list \<Rightarrow> response \<Rightarrow> vary_memo \<Rightarrow> string \<times> response \<times> vary_memo" where
  "add_vary names r memo =
     (let stored_key = header_key (rs_headers r) ''Vary'' in
      if length names = 1 \<and> stored_key = None then
        (hd names, r\<lparr>rs_headers := dict_set ''Vary'' (hd names) (rs_headers r), rs_encoded := False\<rparr>, memo)
      else
        (let existing = (case stored_key of None \<Rightarrow> [] | Some k \<Rightarrow> the (map_of (rs_headers r) k));
             (v, memo') =
               (case map_of memo (existing, names) of
                  Some cached \<Rightarrow> (cached, memo)
                | None \<Rightarrow>
                    (let merged = vary_merge existing names
                     in (merged, dict_set (existing, names) merged
                           (if length memo \<ge> max_vary_merges then [] else memo))));
             headers1 = (case stored_key of None \<Rightarrow> rs_headers r | Some k \<Rightarrow> dict_del k (rs_headers r))
         in (v, r\<lparr>rs_headers := dict_set ''Vary'' v headers1, rs_encoded := False\<rparr>, memo')))"

text \<open>A memo that only holds merges, within its bound.\<close>

definition memo_ok :: "vary_memo \<Rightarrow> bool" where
  "memo_ok memo \<longleftrightarrow> dict_ok memo \<and> length memo \<le> max_vary_merges
     \<and> list_all (\<lambda>((existing, names), v). v = vary_merge existing names) memo"

lemma header_key_SomeD:
  "header_key hdr name = Some k \<Longrightarrow> str_lower k = str_lower name \<and> map_of hdr k \<noteq> None"
proof -
  assume k: "header_key hdr name = Some k"
  show ?thesis
  proof (cases "map_of hdr name = None")
    case False
    with k show ?thesis by (simp add: header_key_def)
  next
    case True
    with k obtain v where "List.find (\<lambda>(k, v). str_lower k = str_lower name) hdr = Some (k, v)"
      by (auto simp: header_key_def)
    then have "(k, v) \<in> set hdr" "str_lower k = str_lower name" by (auto simp: find_Some_iff) (metis nth_mem)
    then show ?thesis by (auto simp: map_of_eq_None_iff intro: rev_image_eqI)
  qed
qed

lemma header_key_None_iff: "header_key hdr name = None \<longleftrightarrow> (\<forall>k v. (k, v) \<in> set hdr \<longrightarrow> str_lower k \<noteq> str_lower name)"
  by (auto simp: header_key_def find_None_iff map_of_eq_None_iff)

lemma header_get_set [simp]: "header_get (dict_set name v hdr) name = Some v"
  by (simp add: header_get_def header_key_def py_dict_simps)

section \<open>Merging into Vary\<close>

lemma hs_update_ok [simp]: "hs_ok (hs_update names (hs_of_string v))"
  unfolding hs_update_def by (rule hs.ok_adds) simp

lemma hs_update_tokens:
  "list_all list_token names \<Longrightarrow> list_all list_token (hs_items (hs_update names (hs_of_string v)))"
  using hs.items_adds_subset [OF hs_of_string_ok, of names v] hs_of_string_tokens [of v]
  by (auto simp: hs_update_def list_all_iff)

lemma vary_merge_items:
  "list_all list_token names \<Longrightarrow>
     hs_items (hs_of_string (vary_merge existing names)) = hs_items (hs_update names (hs_of_string existing))"
  unfolding vary_merge_def by (rule hs_items_to_header) (simp_all add: hs_update_tokens)

lemma vary_merge_contains:
  "list_all list_token names \<Longrightarrow>
     hs_contains h (hs_of_string (vary_merge existing names)) \<longleftrightarrow>
       hs_contains h (hs_of_string existing) \<or> str_lower h \<in> lowers names"
proof -
  assume "list_all list_token names"
  then have "hs_contains h (hs_of_string (vary_merge existing names)) \<longleftrightarrow>
      hs_contains h (hs_update names (hs_of_string existing))"
    by (simp add: hs.contains_iff vary_merge_items)
  then show ?thesis by (simp add: hs_update_def hs.contains_adds)
qed

lemma hs_of_string_Nil: "hs_of_string [] = hs_empty"
  by (simp add: hs_of_string_def header_tokens_of_def str_strip_def str_lstrip_def str_rstrip_def)

lemma vary_merge_single: "vary_merge [] [w] = w"
  by (simp add: vary_merge_def hs_of_string_Nil hs_update_def hs_to_header_def hs_add_def hs_empty_def)

definition vary_of :: "response \<Rightarrow> string" where
  "vary_of r = (case header_get (rs_headers r) ''Vary'' of None \<Rightarrow> [] | Some v \<Rightarrow> v)"

lemma memo_ok_lookup: "memo_ok memo \<Longrightarrow> map_of memo (e, ns) = Some v \<Longrightarrow> v = vary_merge e ns"
  by (auto simp: memo_ok_def list_all_iff dest: map_of_SomeD)

lemma memo_ok_insert:
  assumes "memo_ok memo"
  shows "memo_ok (dict_set (e, ns) (vary_merge e ns) (if length memo \<ge> max_vary_merges then [] else memo))"
proof -
  let ?m = "if length memo \<ge> max_vary_merges then [] else memo"
  have "dict_ok ?m" "length ?m < max_vary_merges" "list_all (\<lambda>((existing, names), v). v = vary_merge existing names) ?m"
    using assms by (simp_all add: memo_ok_def max_vary_merges_def)
  moreover have "set (dict_set (e, ns) (vary_merge e ns) ?m) \<subseteq> insert ((e, ns), vary_merge e ns) (set ?m)"
    by (rule set_dict_set)
  ultimately show ?thesis
    unfolding memo_ok_def
    by (auto simp: dict_ok_set length_dict_set list_all_iff)
qed

lemma add_vary_value:
  assumes "memo_ok memo"
  shows "fst (add_vary names r memo) = vary_merge (vary_of r) names" (is ?merged)
    and "memo_ok (snd (snd (add_vary names r memo)))" (is ?memo)
proof -
  have "?merged \<and> ?memo"
  proof (cases "length names = 1 \<and> header_key (rs_headers r) ''Vary'' = None")
    case True
    then obtain w where "names = [w]" by (cases names) auto
    with True assms show ?thesis
      by (simp add: add_vary_def vary_of_def header_get_def vary_merge_single)
  next
    case False
    define e where "e = (case header_key (rs_headers r) ''Vary'' of None \<Rightarrow> [] | Some k \<Rightarrow> the (map_of (rs_headers r) k))"
    have e: "e = vary_of r"
      using header_key_SomeD [of "rs_headers r" "''Vary''"]
      by (auto simp: e_def vary_of_def header_get_def split: option.splits)
    show ?thesis
    proof (cases "map_of memo (e, names)")
      case None
      with False assms memo_ok_insert [OF assms, of e names] show ?thesis
        by (simp add: add_vary_def e_def [symmetric] Let_def) (auto simp: e)
    next
      case (Some v)
      with False assms memo_ok_lookup [OF assms Some] show ?thesis
        by (simp add: add_vary_def e_def [symmetric] Let_def) (auto simp: e)
    qed
  qed
  then show ?merged ?memo by simp_all
qed

lemma add_vary_headers:
  "\<exists>old. rs_headers (fst (snd (add_vary names r memo))) = dict_set ''Vary'' (fst (add_vary names r memo)) old
     \<and> (\<forall>k. str_lower k \<noteq> str_lower ''Vary'' \<longrightarrow> map_of old k = map_of (rs_headers r) k)"
proof -
  let ?h = "rs_headers r"
  have del: "map_of (dict_del k ?h) k' = map_of ?h k'"
    if "header_key ?h ''Vary'' = Some k" "str_lower k' \<noteq> str_lower ''Vary''" for k k'
    using header_key_SomeD [OF that(1)] that(2) by (auto simp: py_dict_simps)
  show ?thesis
    by (cases "header_key ?h ''Vary''")
      (auto simp: add_vary_def Let_def del split: option.splits)
qed

section \<open>Properties\<close>

text \<open>\<open>add_vary\<close> merges: whatever the memo of earlier merges holds, the new \<open>Vary\<close> lists the old
  tokens and the added ones, once each whatever their case and the old ones first; every other
  header stays, and the memo stays true and bounded.\<close>

theorem add_vary_merges:
  assumes "memo_ok memo" "list_all list_token names"
  shows "case add_vary names r memo of (v, r', memo') \<Rightarrow>
       header_get (rs_headers r') ''Vary'' = Some v
     \<and> hs_items (hs_of_string v) = hs_items (hs_update names (hs_of_string (vary_of r)))
     \<and> (\<forall>h. hs_contains h (hs_of_string v) \<longleftrightarrow> hs_contains h (hs_of_string (vary_of r)) \<or> str_lower h \<in> lowers names)
     \<and> (\<forall>k. str_lower k \<noteq> str_lower ''Vary'' \<longrightarrow> map_of (rs_headers r') k = map_of (rs_headers r) k)
     \<and> memo_ok memo' \<and> \<not> rs_encoded r'"
proof -
  obtain v r' memo' where a: "add_vary names r memo = (v, r', memo')" by (cases "add_vary names r memo")
  obtain old where old: "rs_headers r' = dict_set ''Vary'' v old"
      "\<And>k. str_lower k \<noteq> str_lower ''Vary'' \<Longrightarrow> map_of old k = map_of (rs_headers r) k"
    using add_vary_headers [of names r memo] a by auto
  have "map_of (rs_headers r') k = map_of (rs_headers r) k" if "str_lower k \<noteq> str_lower ''Vary''" for k
    using that old by (auto simp: py_dict_simps)
  moreover have "\<not> rs_encoded r'"
    using a by (auto simp: add_vary_def Let_def split: if_splits option.splits)
  ultimately show ?thesis
    using add_vary_value [OF assms(1), of names r] a old(1)
    by (simp add: vary_merge_items [OF assms(2)] vary_merge_contains [OF assms(2)])
qed

definition plain_response :: response where
  "plain_response = \<lparr>rs_status = 200, rs_body = [], rs_headers = [(''vary'', ''Cookie'')], rs_encoded = True\<rparr>"

theorem add_vary_merges_witness:
  "header_get (rs_headers (fst (snd (add_vary [''Origin'', ''cookie''] plain_response [])))) ''Vary''
     = Some (fst (add_vary [''Origin'', ''cookie''] plain_response []))
   \<and> fst (add_vary [''Origin'', ''cookie''] plain_response []) = ''Cookie, Origin''"
proof -
  have memo: "memo_ok []" by (simp add: memo_ok_def)
  have names: "list_all list_token [''Origin'', ''cookie'']" by code_simp
  have "fst (add_vary [''Origin'', ''cookie''] plain_response []) = ''Cookie, Origin''" by code_simp
  with add_vary_merges [OF memo names, of plain_response] show ?thesis by (auto split: prod.splits)
qed

end
