(* ===== verification/Cors.thy ===== *)
theory Cors
  imports Header_Set
begin

text \<open>
  Cross-origin resource sharing, after \<open>src/src/veloce/middleware/cors.py\<close>. The request is seen
  through its method and a lookup of its headers (a third-party multidict). Regular expressions
  are a parameter: \<open>re_ok\<close> says whether a pattern compiles and \<open>fullmatch\<close> what it matches.
\<close>

section \<open>Configuration\<close>

record cors =
  allow_origins :: "string list"
  allow_origin_regex :: "string option"
  allow_methods :: "string list"
  allow_headers :: "string list"
  allow_credentials :: bool
  allow_private_network :: bool
  max_age :: int
  expose_headers :: "string list"

definition wildcard_bodies :: "string list" where
  "wildcard_bodies = [''.*'', ''.+'', ''.{0,}'', ''.{1,}'']"

definition wildcard_probes :: "string list" where
  "wildcard_probes = [''http://x.invalid'', ''null'', ''__not_an_origin__'', ''file:///etc/passwd'']"

definition is_wildcard_regex_literal :: "string \<Rightarrow> bool" where
  "is_wildcard_regex_literal pattern =
     (let body1 = (if starts_with ''^'' pattern then drop 1 pattern else pattern);
          body2 = (if ends_with ''$'' body1 then butlast body1 else body1)
      in body2 \<in> set wildcard_bodies)"

definition is_wildcard_regex :: "(string \<Rightarrow> string \<Rightarrow> bool) \<Rightarrow> string \<Rightarrow> bool" where
  "is_wildcard_regex fullmatch pattern =
     (is_wildcard_regex_literal pattern \<or> list_all (fullmatch pattern) wildcard_probes)"

text \<open>\<open>x or default\<close> for a list that may be \<open>None\<close>.\<close>

definition or_default :: "'a list option \<Rightarrow> 'a list \<Rightarrow> 'a list" where
  "or_default v d = (case v of None \<Rightarrow> d | Some xs \<Rightarrow> if xs = [] then d else xs)"

definition cors_init ::
  "(string \<Rightarrow> bool) \<Rightarrow> (string \<Rightarrow> string \<Rightarrow> bool) \<Rightarrow> string list option \<Rightarrow> string option \<Rightarrow> string list option
     \<Rightarrow> string list option \<Rightarrow> bool \<Rightarrow> bool \<Rightarrow> int \<Rightarrow> string list option \<Rightarrow> cors res" where
  "cors_init re_ok fullmatch origins regex methods hdrs credentials private_network age expose =
     (let given_regex = (case regex of None \<Rightarrow> None | Some p \<Rightarrow> if p = [] then None else Some p);
          origin_list = (case origins of Some os \<Rightarrow> os | None \<Rightarrow> if given_regex \<noteq> None then [] else [''*'']);
          header_list = or_default hdrs [''*'']
      in if (case given_regex of None \<Rightarrow> False | Some p \<Rightarrow> \<not> re_ok p) then Inl ValueError
         else if (case given_regex of None \<Rightarrow> False | Some p \<Rightarrow> credentials \<and> is_wildcard_regex fullmatch p)
           then Inl ValueError
         else if credentials \<and> (''*'' \<in> set origin_list \<or> ''*'' \<in> set header_list) then Inl ValueError
         else Inr \<lparr>allow_origins = origin_list, allow_origin_regex = given_regex,
                   allow_methods = or_default methods [''GET'', ''POST'', ''PUT'', ''DELETE'', ''PATCH'', ''OPTIONS''],
                   allow_headers = header_list, allow_credentials = credentials,
                   allow_private_network = private_network, max_age = age,
                   expose_headers = or_default expose []\<rparr>)"

definition origins_star :: "cors \<Rightarrow> bool" where "origins_star c \<longleftrightarrow> ''*'' \<in> set (allow_origins c)"

definition headers_star :: "cors \<Rightarrow> bool" where "headers_star c \<longleftrightarrow> ''*'' \<in> set (allow_headers c)"

definition varies_by_origin :: "cors \<Rightarrow> bool" where
  "varies_by_origin c \<longleftrightarrow> allow_origin_regex c \<noteq> None \<or> allow_credentials c \<or> \<not> origins_star c"

section \<open>Origin matching\<close>

definition origin_allowed :: "(string \<Rightarrow> string \<Rightarrow> bool) \<Rightarrow> cors \<Rightarrow> string \<Rightarrow> bool" where
  "origin_allowed fullmatch c origin =
     (if origin = [] then False
      else if origins_star c \<or> origin \<in> set (allow_origins c) then True
      else (case allow_origin_regex c of None \<Rightarrow> False | Some p \<Rightarrow> fullmatch p origin))"

definition resolve_allow_origin :: "(string \<Rightarrow> string \<Rightarrow> bool) \<Rightarrow> cors \<Rightarrow> string \<Rightarrow> string option" where
  "resolve_allow_origin fullmatch c origin =
     (if \<not> origin_allowed fullmatch c origin then None
      else if allow_credentials c then Some origin
      else if origins_star c then Some ''*''
      else Some origin)"

section \<open>Writing the headers\<close>

definition set_header :: "string \<Rightarrow> string \<Rightarrow> response \<Rightarrow> response" where
  "set_header k v r = r\<lparr>rs_headers := dict_set k v (rs_headers r)\<rparr>"

definition merge_exposed :: "cors \<Rightarrow> response \<Rightarrow> response" where
  "merge_exposed c r =
     (if expose_headers c = [] then r
      else (let (existing, hdrs) = header_pop (rs_headers r) ''Access-Control-Expose-Headers'';
                v = (case existing of
                       Some e \<Rightarrow> if e \<noteq> [] then hs_to_header (hs_update (expose_headers c) (hs_of_string e))
                                 else join_str '', '' (expose_headers c)
                     | None \<Rightarrow> join_str '', '' (expose_headers c))
            in r\<lparr>rs_headers := dict_set ''Access-Control-Expose-Headers'' v hdrs\<rparr>))"

definition vary_step :: "cors \<Rightarrow> response \<Rightarrow> vary_memo \<Rightarrow> response \<times> vary_memo" where
  "vary_step c r memo = (if varies_by_origin c then snd (add_vary [''Origin''] r memo) else (r, memo))"

definition preflight_step :: "cors \<Rightarrow> response \<Rightarrow> response" where
  "preflight_step c r =
     set_header ''Access-Control-Allow-Headers'' (if headers_star c then ''*'' else join_str '', '' (allow_headers c))
       (set_header ''Access-Control-Allow-Methods'' (join_str '', '' (allow_methods c)) r)"

definition qualify_step :: "cors \<Rightarrow> response \<Rightarrow> response" where
  "qualify_step c r =
     merge_exposed c (if allow_credentials c then set_header ''Access-Control-Allow-Credentials'' ''true'' r else r)"

text \<open>The last step is behind the early return for an origin that is not allowed.\<close>

definition add_cors_headers ::
  "(string \<Rightarrow> string \<Rightarrow> bool) \<Rightarrow> cors \<Rightarrow> string \<Rightarrow> bool \<Rightarrow> response \<Rightarrow> vary_memo \<Rightarrow> response \<times> vary_memo" where
  "add_cors_headers fullmatch c origin preflight r0 memo =
     (let allow_origin = resolve_allow_origin fullmatch c origin;
          r1 = (case allow_origin of None \<Rightarrow> r0 | Some v \<Rightarrow> set_header ''Access-Control-Allow-Origin'' v r0);
          step = vary_step c r1 memo;
          r3 = (if preflight then preflight_step c (fst step) else fst step)
      in (if allow_origin = None then r3 else qualify_step c r3, snd step))"

section \<open>The hooks\<close>

definition new_response :: "nat \<Rightarrow> string \<Rightarrow> response" where
  "new_response status body = \<lparr>rs_status = status, rs_body = body, rs_headers = [], rs_encoded = False\<rparr>"

definition get_or :: "(string \<Rightarrow> string option) \<Rightarrow> string \<Rightarrow> string" where
  "get_or hget name = (case hget name of None \<Rightarrow> [] | Some v \<Rightarrow> v)"

definition methods_upper :: "cors \<Rightarrow> string list" where
  "methods_upper c = map str_upper (allow_methods c)"

definition preflight_headers :: "cors \<Rightarrow> string \<Rightarrow> response \<Rightarrow> response" where
  "preflight_headers c requested r =
     (if requested = [] then r
      else if headers_star c then set_header ''Access-Control-Allow-Headers'' requested r
      else (let matched = filter (\<lambda>t. str_lower t \<in> set (map str_lower (allow_headers c)))
                            (header_tokens_of (split_on (CHR '','') requested))
            in if matched = [] then r
               else set_header ''Access-Control-Allow-Headers'' (join_str '', '' matched) r))"

text \<open>
  The request hook stores the origin it saw and answers a preflight; the response hook uses the
  stored origin, or reads the header where the request hook has not run.
\<close>

definition cors_request ::
  "(string \<Rightarrow> string \<Rightarrow> bool) \<Rightarrow> cors \<Rightarrow> string \<Rightarrow> (string \<Rightarrow> string option) \<Rightarrow> vary_memo
     \<Rightarrow> response option \<times> string \<times> vary_memo" where
  "cors_request fullmatch c request_method hget memo =
     (let origin = get_or hget ''Origin'' in
      if request_method = ''OPTIONS'' \<and> origin \<noteq> [] then
        if \<not> origin_allowed fullmatch c origin then (Some (new_response 400 ''CORS origin not allowed''), origin, memo)
        else (let requested_method = get_or hget ''Access-Control-Request-Method'' in
          if requested_method \<noteq> [] \<and> ''*'' \<notin> set (methods_upper c)
             \<and> str_upper requested_method \<notin> set (methods_upper c)
          then (Some (new_response 400 ''CORS method not allowed''), origin, memo)
          else (let (r1, memo1) = add_cors_headers fullmatch c origin True (new_response 204 []) memo;
                    r2 = preflight_headers c (get_or hget ''Access-Control-Request-Headers'') r1;
                    r3 = (if allow_private_network c \<and> hget ''Access-Control-Request-Private-Network'' = Some ''true''
                          then set_header ''Access-Control-Allow-Private-Network'' ''true'' r2 else r2)
                in (Some (set_header ''Access-Control-Max-Age'' (str_int (max_age c)) r3), origin, memo1)))
      else (None, origin, memo))"

definition cors_response ::
  "(string \<Rightarrow> string \<Rightarrow> bool) \<Rightarrow> cors \<Rightarrow> string option \<Rightarrow> (string \<Rightarrow> string option) \<Rightarrow> response \<Rightarrow> vary_memo
     \<Rightarrow> response \<times> vary_memo" where
  "cors_response fullmatch c stored hget r memo =
     (let origin = (case stored of Some cached \<Rightarrow> cached | None \<Rightarrow> get_or hget ''Origin'')
      in add_cors_headers fullmatch c origin False r memo)"

section \<open>What the writer leaves in the headers\<close>

lemma map_of_set_header [simp]:
  "map_of (rs_headers (set_header k v r)) k' = (if k' = k then Some v else map_of (rs_headers r) k')"
  by (simp add: set_header_def py_dict_simps)

lemma add_vary_other:
  assumes "add_vary names r memo = (v, r', memo')" "str_lower k \<noteq> str_lower ''Vary''"
  shows "map_of (rs_headers r') k = map_of (rs_headers r) k"
proof -
  obtain old where old: "rs_headers r' = dict_set ''Vary'' v old"
      "\<And>k. str_lower k \<noteq> str_lower ''Vary'' \<Longrightarrow> map_of old k = map_of (rs_headers r) k"
    using add_vary_headers [of names r memo] assms(1) by auto
  have "k \<noteq> ''Vary''" using assms(2) by auto
  then show ?thesis using old(2) [OF assms(2)] by (simp add: old(1) py_dict_simps)
qed

lemma add_vary_own:
  assumes "add_vary names r memo = (v, r', memo')" "memo_ok memo"
  shows "map_of (rs_headers r') ''Vary'' = Some (vary_merge (vary_of r) names)" "memo_ok memo'"
  using add_vary_headers [of names r memo] add_vary_value [OF assms(2), of names r] assms(1)
  by (auto simp: py_dict_simps)

lemma merge_exposed_other:
  assumes "str_lower k \<noteq> str_lower ''Access-Control-Expose-Headers''"
  shows "map_of (rs_headers (merge_exposed c r)) k = map_of (rs_headers r) k"
proof -
  have ne: "k \<noteq> ''Access-Control-Expose-Headers''" using assms by auto
  have "map_of (snd (header_pop (rs_headers r) ''Access-Control-Expose-Headers'')) k = map_of (rs_headers r) k"
    using header_key_SomeD [of "rs_headers r" "''Access-Control-Expose-Headers''"] assms
    by (auto simp: header_pop_def py_dict_simps split: option.split)
  with ne show ?thesis
    by (cases "header_pop (rs_headers r) ''Access-Control-Expose-Headers''")
      (simp add: merge_exposed_def Let_def py_dict_simps)
qed

lemma header_name_facts:
  "str_lower ''Access-Control-Allow-Origin'' \<noteq> str_lower ''Vary''"
  "str_lower ''Access-Control-Allow-Origin'' \<noteq> str_lower ''Access-Control-Expose-Headers''"
  "str_lower ''Access-Control-Allow-Credentials'' \<noteq> str_lower ''Vary''"
  "str_lower ''Access-Control-Allow-Credentials'' \<noteq> str_lower ''Access-Control-Expose-Headers''"
  "str_lower ''Access-Control-Allow-Headers'' \<noteq> str_lower ''Access-Control-Expose-Headers''"
  "str_lower ''Vary'' \<noteq> str_lower ''Access-Control-Expose-Headers''"
  by code_simp+

lemma vary_step_other:
  "str_lower k \<noteq> str_lower ''Vary'' \<Longrightarrow> map_of (rs_headers (fst (vary_step c r memo))) k = map_of (rs_headers r) k"
  using add_vary_other [of "[''Origin'']" r memo]
  by (cases "add_vary [''Origin''] r memo") (simp add: vary_step_def)

lemma vary_step_vary:
  "memo_ok memo \<Longrightarrow> varies_by_origin c \<Longrightarrow>
     map_of (rs_headers (fst (vary_step c r memo))) ''Vary'' = Some (vary_merge (vary_of r) [''Origin''])"
  using add_vary_own(1) [of "[''Origin'']" r memo]
  by (cases "add_vary [''Origin''] r memo") (simp add: vary_step_def)

lemma preflight_step_other:
  "k \<noteq> ''Access-Control-Allow-Headers'' \<Longrightarrow> k \<noteq> ''Access-Control-Allow-Methods'' \<Longrightarrow>
     map_of (rs_headers (preflight_step c r)) k = map_of (rs_headers r) k"
  by (simp add: preflight_step_def)

lemma qualify_step_other:
  "str_lower k \<noteq> str_lower ''Access-Control-Expose-Headers'' \<Longrightarrow>
     map_of (rs_headers (qualify_step c r)) k =
       (if allow_credentials c \<and> k = ''Access-Control-Allow-Credentials'' then Some ''true''
        else map_of (rs_headers r) k)"
  by (simp add: qualify_step_def merge_exposed_other)

lemma cors_allow_origin:
  "map_of (rs_headers (fst (add_cors_headers fullmatch c origin preflight r0 memo))) ''Access-Control-Allow-Origin'' =
     (case resolve_allow_origin fullmatch c origin of
        None \<Rightarrow> map_of (rs_headers r0) ''Access-Control-Allow-Origin'' | Some v \<Rightarrow> Some v)"
  by (cases "resolve_allow_origin fullmatch c origin"; cases preflight)
    (simp_all add: add_cors_headers_def Let_def qualify_step_other header_name_facts vary_step_other preflight_step_other)

lemma cors_allow_credentials:
  "map_of (rs_headers (fst (add_cors_headers fullmatch c origin preflight r0 memo))) ''Access-Control-Allow-Credentials'' =
     (if resolve_allow_origin fullmatch c origin \<noteq> None \<and> allow_credentials c then Some ''true''
      else map_of (rs_headers r0) ''Access-Control-Allow-Credentials'')"
  by (cases "resolve_allow_origin fullmatch c origin"; cases preflight)
    (simp_all add: add_cors_headers_def Let_def qualify_step_other header_name_facts vary_step_other preflight_step_other)

lemma header_get_exact: "map_of hdr k = Some v \<Longrightarrow> header_get hdr k = Some v"
  by (simp add: header_get_def header_key_def)

lemma origin_token: "list_all list_token [''Origin'']"
  by code_simp

lemma cors_vary:
  assumes "memo_ok memo" "varies_by_origin c"
  shows "hs_contains ''Origin'' (hs_of_string (vary_of (fst (add_cors_headers fullmatch c origin preflight r0 memo))))"
proof -
  obtain old where "map_of (rs_headers (fst (add_cors_headers fullmatch c origin preflight r0 memo))) ''Vary'' =
      Some (vary_merge old [''Origin''])"
    by (cases "resolve_allow_origin fullmatch c origin"; cases preflight)
      (simp_all add: add_cors_headers_def Let_def qualify_step_other header_name_facts
        vary_step_vary [OF assms] preflight_step_other)
  from header_get_exact [OF this] show ?thesis
    by (simp add: vary_of_def vary_merge_contains [OF origin_token])
qed

lemma cors_allow_headers:
  "map_of (rs_headers (fst (add_cors_headers fullmatch c origin True r0 memo))) ''Access-Control-Allow-Headers'' =
     Some (if headers_star c then ''*'' else join_str '', '' (allow_headers c))"
  by (cases "resolve_allow_origin fullmatch c origin")
    (simp_all add: add_cors_headers_def Let_def qualify_step_other header_name_facts preflight_step_def)

lemma resolve_constant:
  "\<not> varies_by_origin c \<Longrightarrow> origin \<noteq> [] \<Longrightarrow> resolve_allow_origin fullmatch c origin = Some ''*''"
  by (simp add: varies_by_origin_def resolve_allow_origin_def origin_allowed_def)

lemma rs_status_steps [simp]:
  "rs_status (set_header k v r) = rs_status r" "rs_status (merge_exposed c r) = rs_status r"
  "rs_status (fst (vary_step c r memo)) = rs_status r" "rs_status (preflight_headers c requested r) = rs_status r"
  by (simp_all add: set_header_def merge_exposed_def vary_step_def add_vary_def preflight_headers_def Let_def
      split: prod.split option.split)

lemma cors_status: "rs_status (fst (add_cors_headers fullmatch c origin preflight r0 memo)) = rs_status r0"
  by (simp add: add_cors_headers_def Let_def qualify_step_def preflight_step_def split: option.split)

lemma preflight_headers_other:
  "k \<noteq> ''Access-Control-Allow-Headers'' \<Longrightarrow>
     map_of (rs_headers (preflight_headers c requested r)) k = map_of (rs_headers r) k"
  by (simp add: preflight_headers_def Let_def)

text \<open>The tokens a list of allowed request headers grants.\<close>

definition grants_only :: "string list \<Rightarrow> string \<Rightarrow> bool" where
  "grants_only allowed v \<longleftrightarrow>
     list_all (\<lambda>t. str_lower t \<in> set (map str_lower allowed)) (header_tokens_of (split_on (CHR '','') v))"

lemma preflight_headers_grant:
  assumes "\<not> headers_star c" "list_all list_token (allow_headers c)"
    and "map_of (rs_headers r) ''Access-Control-Allow-Headers'' = Some (join_str '', '' (allow_headers c))"
  shows "\<exists>v. map_of (rs_headers (preflight_headers c requested r)) ''Access-Control-Allow-Headers'' = Some v
     \<and> grants_only (allow_headers c) v"
proof -
  let ?ok = "\<lambda>t. str_lower t \<in> set (map str_lower (allow_headers c))"
  let ?m = "filter ?ok (header_tokens_of (split_on (CHR '','') requested))"
  have "list_all list_token ?m" using header_tokens_of_tokens [of requested] by (simp add: list_all_iff)
  then have "grants_only (allow_headers c) (join_str '', '' ?m)"
    unfolding grants_only_def by (simp only: split_join_tokens) (simp add: list_all_iff)
  moreover have "grants_only (allow_headers c) (join_str '', '' (allow_headers c))"
    unfolding grants_only_def by (simp only: split_join_tokens [OF assms(2)]) (simp add: list_all_iff)
  ultimately show ?thesis
    using assms(1,3) by (simp add: preflight_headers_def Let_def del: set_map)
qed

section \<open>Properties\<close>


definition with_credentials :: cors where
  "with_credentials = \<lparr>allow_origins = [''https://a.example''], allow_origin_regex = None,
     allow_methods = [''GET''], allow_headers = [''Authorization''], allow_credentials = True,
     allow_private_network = False, max_age = 600, expose_headers = []\<rparr>"


text \<open>A shared cache is told what it needs: if any two origins would be answered with different
  \<open>Access-Control-Allow-Origin\<close> values, every response, that to a refused origin included,
  lists \<open>Origin\<close> in \<open>Vary\<close>.\<close>

theorem cors_vary_when_origin_matters:
  assumes "memo_ok memo" "origin_a \<noteq> []" "origin_b \<noteq> []"
    and "resolve_allow_origin fullmatch c origin_a \<noteq> resolve_allow_origin fullmatch c origin_b"
  shows "hs_contains ''Origin'' (hs_of_string (vary_of (fst (cors_response fullmatch c stored hget r memo))))"
proof -
  have "varies_by_origin c" using resolve_constant assms by metis
  then show ?thesis by (simp add: cors_response_def Let_def cors_vary [OF assms(1)])
qed

theorem cors_vary_when_origin_matters_witness:
  "hs_contains ''Origin'' (hs_of_string (vary_of (fst (cors_response (\<lambda>p s. False) with_credentials
     (Some ''https://evil.example'') (\<lambda>n. None) plain_response []))))"
  by (rule cors_vary_when_origin_matters [where origin_a = "''https://a.example''" and origin_b = "''https://b.example''"])
    code_simp+

definition allow_all :: cors where
  "allow_all = \<lparr>allow_origins = [''*''], allow_origin_regex = None,
     allow_methods = [''GET'', ''POST'', ''PUT'', ''DELETE'', ''PATCH'', ''OPTIONS''], allow_headers = [''*''],
     allow_credentials = False, allow_private_network = False, max_age = 600, expose_headers = []\<rparr>"

text \<open>That leaves one case out: with the default configuration the header depends on whether there
  is an \<open>Origin\<close> at all, and neither answer lists \<open>Origin\<close> in \<open>Vary\<close>.\<close>

theorem cors_presence_of_origin_unmarked:
  "cors_init (\<lambda>p. True) (\<lambda>p s. False) None None None None False False 600 None = Inr allow_all
   \<and> rs_headers (fst (cors_response (\<lambda>p s. False) allow_all (Some []) (\<lambda>n. None) (new_response 200 []) [])) = []
   \<and> rs_headers (fst (cors_response (\<lambda>p s. False) allow_all (Some ''https://a.example'') (\<lambda>n. None)
         (new_response 200 []) [])) = [(''Access-Control-Allow-Origin'', ''*'')]"
  by code_simp

text \<open>A preflight is answered for exactly what is configured: 400 and no headers for an origin or a
  requested method that is not allowed, else 204 with the resolved origin; and unless all request
  headers are allowed, the ones it grants are allowed ones.\<close>

theorem cors_preflight:
  assumes "get_or hget ''Origin'' = origin" "origin \<noteq> []" "list_all list_token (allow_headers c)"
  shows "\<exists>r. fst (cors_request fullmatch c ''OPTIONS'' hget memo) = Some r \<and>
     (if \<not> origin_allowed fullmatch c origin
         \<or> (get_or hget ''Access-Control-Request-Method'' \<noteq> [] \<and> ''*'' \<notin> set (methods_upper c)
            \<and> str_upper (get_or hget ''Access-Control-Request-Method'') \<notin> set (methods_upper c))
      then rs_status r = 400 \<and> rs_headers r = []
      else rs_status r = 204
         \<and> map_of (rs_headers r) ''Access-Control-Allow-Origin'' = resolve_allow_origin fullmatch c origin
         \<and> (headers_star c \<or> (\<exists>v. map_of (rs_headers r) ''Access-Control-Allow-Headers'' = Some v
                                 \<and> grants_only (allow_headers c) v)))"
proof (cases "\<not> origin_allowed fullmatch c origin
    \<or> (get_or hget ''Access-Control-Request-Method'' \<noteq> [] \<and> ''*'' \<notin> set (methods_upper c)
       \<and> str_upper (get_or hget ''Access-Control-Request-Method'') \<notin> set (methods_upper c))")
  case True
  then show ?thesis
    by (simp add: cors_request_def assms(1,2) Let_def new_response_def)
next
  case False
  define r1 where "r1 = fst (add_cors_headers fullmatch c origin True (new_response 204 []) memo)"
  define r2 where "r2 = preflight_headers c (get_or hget ''Access-Control-Request-Headers'') r1"
  define r3 where "r3 = (if allow_private_network c \<and> hget ''Access-Control-Request-Private-Network'' = Some ''true''
      then set_header ''Access-Control-Allow-Private-Network'' ''true'' r2 else r2)"
  define r4 where "r4 = set_header ''Access-Control-Max-Age'' (str_int (max_age c)) r3"
  have r: "fst (cors_request fullmatch c ''OPTIONS'' hget memo) = Some r4"
    using False by (auto simp: cors_request_def assms(1,2) Let_def r1_def r2_def r3_def r4_def split: prod.split)
  have st: "rs_status r4 = 204"
    by (simp add: r4_def r3_def r2_def r1_def cors_status) (simp add: new_response_def)
  have other: "map_of (rs_headers r4) k = map_of (rs_headers r2) k"
    if "k = ''Access-Control-Allow-Origin'' \<or> k = ''Access-Control-Allow-Headers''" for k
    using that by (auto simp: r4_def r3_def)
  have "map_of (rs_headers r4) ''Access-Control-Allow-Origin'' = resolve_allow_origin fullmatch c origin"
    using other [of "''Access-Control-Allow-Origin''"]
    by (simp add: r2_def preflight_headers_other r1_def cors_allow_origin)
      (simp add: new_response_def split: option.split)
  moreover have "\<exists>v. map_of (rs_headers r4) ''Access-Control-Allow-Headers'' = Some v \<and> grants_only (allow_headers c) v"
    if "\<not> headers_star c"
    using preflight_headers_grant [OF that assms(3), of r1 "get_or hget ''Access-Control-Request-Headers''"]
      other [of "''Access-Control-Allow-Headers''"] that
    by (simp add: r1_def [symmetric] r2_def) (simp add: r1_def cors_allow_headers)
  ultimately show ?thesis using r st False by auto
qed

theorem cors_preflight_witness:
  "\<exists>r. fst (cors_request (\<lambda>p s. False) with_credentials ''OPTIONS''
       (\<lambda>n. if n = ''Origin'' then Some ''https://a.example''
            else if n = ''Access-Control-Request-Method'' then Some ''DELETE'' else None) []) = Some r
     \<and> rs_status r = 400 \<and> rs_headers r = []"
proof -
  let ?get = "\<lambda>n. if n = ''Origin'' then Some ''https://a.example''
            else if n = ''Access-Control-Request-Method'' then Some ''DELETE'' else None"
  have "get_or ?get ''Origin'' = ''https://a.example''" by code_simp
  moreover have "list_all list_token (allow_headers with_credentials)" by code_simp
  moreover have "get_or ?get ''Access-Control-Request-Method'' \<noteq> [] \<and> ''*'' \<notin> set (methods_upper with_credentials)
     \<and> str_upper (get_or ?get ''Access-Control-Request-Method'') \<notin> set (methods_upper with_credentials)"
    by code_simp
  ultimately show ?thesis
    using cors_preflight [of ?get "''https://a.example''" with_credentials "\<lambda>p s. False" "[]"] by simp
qed

end
