(* ===== verification/Mcp_Tasks.thy ===== *)
theory Mcp_Tasks
  imports Py_Base Complex_Main
begin

text \<open>
  Background tasks of the MCP server: the registry and the \<open>tasks/*\<close> handlers of
  \<open>src/src/veloce/contrib/mcp/tasks.py\<close>, the lifecycle of \<open>_tasks.py\<close> beside it, and
  \<open>MCPServer.evict_session\<close>. The task id, the monotonic clock and the wall-clock text are
  arguments. A task object is the entry of the registry under its id, which is unique; a tool
  result is seen through its \<open>isError\<close> flag and its content.
\<close>

section \<open>Tasks\<close>

datatype task_status = Working | Input_Required | Completed | Failed | Cancelled

definition terminal_status :: "task_status \<Rightarrow> bool" where
  "terminal_status s \<longleftrightarrow> s \<notin> {Working, Input_Required}"

record call_result =
  cr_content :: string
  cr_is_error :: bool

definition text_result :: "string \<Rightarrow> bool \<Rightarrow> call_result" where
  "text_result s is_error = \<lparr>cr_content = s, cr_is_error = is_error\<rparr>"

record mcp_task =
  tk_name :: string
  tk_tool :: string
  tk_status :: task_status
  tk_message :: "string option"
  tk_created :: string
  tk_updated :: string
  tk_ttl_ms :: int
  tk_expires_at :: rat
  tk_owner :: "nat option"
  tk_result :: "call_result option"
  tk_runner :: bool
  tk_inputs :: "(string, string) dict"

text \<open>The task object a client sees; \<open>tv_modern\<close> stands for the era's field names.\<close>

record task_view =
  tv_modern :: bool
  tv_id :: string
  tv_status :: task_status
  tv_created :: string
  tv_updated :: string
  tv_ttl :: int
  tv_message :: "string option"
  tv_poll :: "int option"
  tv_result :: "call_result option"

definition describe :: "bool \<Rightarrow> mcp_task \<Rightarrow> task_view" where
  "describe modern t =
     \<lparr>tv_modern = modern, tv_id = tk_name t, tv_status = tk_status t, tv_created = tk_created t,
      tv_updated = tk_updated t, tv_ttl = tk_ttl_ms t, tv_message = tk_message t,
      tv_poll = (if tk_status t = Working then Some 500 else None),
      tv_result = (if modern \<and> tk_status t = Completed then tk_result t else None)\<rparr>"

definition is_terminal :: "mcp_task \<Rightarrow> bool" where
  "is_terminal t \<longleftrightarrow> terminal_status (tk_status t)"

definition settle :: "task_status \<Rightarrow> call_result \<Rightarrow> string option \<Rightarrow> string \<Rightarrow> mcp_task \<Rightarrow> mcp_task" where
  "settle status r message stamp t =
     (if is_terminal t then t
      else t\<lparr>tk_status := status, tk_message := message, tk_result := Some r, tk_updated := stamp,
             tk_runner := False\<rparr>)"

definition default_ttl_seconds :: int where "default_ttl_seconds = 300"
definition max_ttl_seconds :: int where "max_ttl_seconds = 3600"

text \<open>\<open>None\<close> for a \<open>ttl\<close> that is absent or no integer.\<close>

definition task_ttl_ms :: "int option \<Rightarrow> int" where
  "task_ttl_ms requested =
     (case requested of
        Some ttl \<Rightarrow> if ttl > 0 then min ttl (max_ttl_seconds * 1000) else default_ttl_seconds * 1000
      | None \<Rightarrow> default_ttl_seconds * 1000)"

definition new_task :: "string \<Rightarrow> string \<Rightarrow> int \<Rightarrow> nat option \<Rightarrow> rat \<Rightarrow> string \<Rightarrow> mcp_task" where
  "new_task uuid tool ttl_ms owner now stamp =
     \<lparr>tk_name = uuid, tk_tool = tool, tk_status = Working, tk_message = None, tk_created = stamp, tk_updated = stamp,
      tk_ttl_ms = ttl_ms, tk_expires_at = now + of_int ttl_ms / 1000, tk_owner = owner, tk_result = None,
      tk_runner = False, tk_inputs = []\<rparr>"

section \<open>The registry\<close>

type_synonym task_store = "(string, mcp_task) dict"

definition register :: "mcp_task \<Rightarrow> task_store \<Rightarrow> task_store res" where
  "register t s = (if map_of s (tk_name t) \<noteq> None then Inl ValueError else Inr (dict_set (tk_name t) t s))"

definition expired :: "rat \<Rightarrow> mcp_task \<Rightarrow> bool" where
  "expired now t \<longleftrightarrow> tk_expires_at t \<noteq> 0 \<and> now \<ge> tk_expires_at t \<and> is_terminal t"

definition evict_expired :: "rat \<Rightarrow> task_store \<Rightarrow> task_store" where
  "evict_expired now s = filter (\<lambda>(k, t). \<not> expired now t) s"

definition owned_by :: "nat option \<Rightarrow> task_store \<Rightarrow> mcp_task list" where
  "owned_by owner s = map snd (filter (\<lambda>(k, t). tk_owner t = owner) s)"

definition drop_task :: "mcp_task \<Rightarrow> task_store \<Rightarrow> task_store" where
  "drop_task t s = dict_del (tk_name t) s"

section \<open>Sessions and errors\<close>

record mcp_session =
  connection_id :: nat
  persistent :: bool
  declares_tasks :: bool

definition caller_key :: "mcp_session option \<Rightarrow> nat option" where
  "caller_key session = map_option connection_id session"

definition client_declared_tasks :: "mcp_session option \<Rightarrow> bool" where
  "client_declared_tasks session = (case session of None \<Rightarrow> False | Some s \<Rightarrow> declares_tasks s)"

datatype task_response =
    Refused py_exc
  | Created task_view
  | Status task_view
  | Tool_Result call_result
  | Task_List "task_view list"
  | Acknowledged
  | Silent

section \<open>The handlers\<close>

text \<open>\<open>_create_task\<close>: the guards, the eviction, the registration, and the detached runner.\<close>

definition create_task ::
  "bool \<Rightarrow> mcp_session option \<Rightarrow> bool \<Rightarrow> string \<Rightarrow> string \<Rightarrow> int option \<Rightarrow> rat \<Rightarrow> string \<Rightarrow> task_store
     \<Rightarrow> task_response \<times> task_store" where
  "create_task modern session task_support uuid tool requested now stamp s =
     (if \<not> task_support then (Refused InvalidParamsError, s)
      else if modern \<and> \<not> client_declared_tasks session then (Refused InvalidParamsError, s)
      else
        (let s1 = evict_expired now s in
         if (case session of None \<Rightarrow> False | Some x \<Rightarrow> \<not> persistent x) then (Refused InvalidParamsError, s1)
         else
           (let t = new_task uuid tool (task_ttl_ms requested) (caller_key session) now stamp in
            case register t s1 of
              Inl e \<Rightarrow> (Refused e, s1)
            | Inr s2 \<Rightarrow> (Created (describe modern t), dict_set uuid (t\<lparr>tk_runner := True\<rparr>) s2))))"

text \<open>\<open>_lookup\<close>: the caller's own task, expired ones evicted first.\<close>

definition lookup :: "mcp_session option \<Rightarrow> string option \<Rightarrow> rat \<Rightarrow> task_store \<Rightarrow> mcp_task res \<times> task_store" where
  "lookup session task_id now s =
     (let s1 = evict_expired now s in
      case task_id of
        None \<Rightarrow> (Inl InvalidParamsError, s1)
      | Some i \<Rightarrow>
          (case map_of s1 i of
             None \<Rightarrow> (Inl ResourceNotFoundError, s1)
           | Some t \<Rightarrow> if tk_owner t \<noteq> caller_key session then (Inl ResourceNotFoundError, s1)
                       else (Inr t, s1)))"

definition tasks_get :: "bool \<Rightarrow> mcp_session option \<Rightarrow> string option \<Rightarrow> rat \<Rightarrow> task_store \<Rightarrow> task_response \<times> task_store" where
  "tasks_get modern session task_id now s =
     (case lookup session task_id now s of
        (Inl e, s1) \<Rightarrow> (Refused e, s1) | (Inr t, s1) \<Rightarrow> (Status (describe modern t), s1))"

definition tasks_result :: "mcp_session option \<Rightarrow> string option \<Rightarrow> rat \<Rightarrow> task_store \<Rightarrow> task_response \<times> task_store" where
  "tasks_result session task_id now s =
     (case lookup session task_id now s of
        (Inl e, s1) \<Rightarrow> (Refused e, s1)
      | (Inr t, s1) \<Rightarrow>
          (case tk_result t of None \<Rightarrow> (Refused InvalidParamsError, s1) | Some r \<Rightarrow> (Tool_Result r, s1)))"

definition tasks_list :: "bool \<Rightarrow> mcp_session option \<Rightarrow> rat \<Rightarrow> task_store \<Rightarrow> task_response \<times> task_store" where
  "tasks_list modern session now s =
     (let s1 = evict_expired now s
      in (Task_List (map (describe modern) (owned_by (caller_key session) s1)), s1))"

text \<open>\<open>tasks/cancel\<close> through \<open>_cancel_task\<close>.\<close>

definition cancel_task :: "string \<Rightarrow> mcp_task \<Rightarrow> mcp_task" where
  "cancel_task stamp t =
     (if is_terminal t then t
      else settle Cancelled (text_result ''task cancelled'' True) (Some ''cancelled'') stamp t)"

definition tasks_cancel ::
  "bool \<Rightarrow> mcp_session option \<Rightarrow> string option \<Rightarrow> rat \<Rightarrow> string \<Rightarrow> task_store \<Rightarrow> task_response \<times> task_store" where
  "tasks_cancel modern session task_id now stamp s =
     (case lookup session task_id now s of
        (Inl e, s1) \<Rightarrow> (Refused e, s1)
      | (Inr t, s1) \<Rightarrow>
          (let t' = cancel_task stamp t in (Status (describe modern t'), dict_set (tk_name t) t' s1)))"

definition tasks_update ::
  "mcp_session option \<Rightarrow> string option \<Rightarrow> (string, string) dict \<Rightarrow> rat \<Rightarrow> string \<Rightarrow> task_store \<Rightarrow> task_response \<times> task_store" where
  "tasks_update session task_id responses now stamp s =
     (case lookup session task_id now s of
        (Inl e, s1) \<Rightarrow> (Refused e, s1)
      | (Inr t, s1) \<Rightarrow>
          if responses = [] then (Acknowledged, s1)
          else (Acknowledged,
                dict_set (tk_name t)
                  (t\<lparr>tk_inputs := foldl (\<lambda>d (k, v). dict_set k v d) (tk_inputs t) responses, tk_updated := stamp\<rparr>) s1))"

section \<open>The runner and the end of a session\<close>

datatype outcome = Returned call_result | Bad_Params string | Raised string | Runner_Cancelled

text \<open>The end of \<open>_run_task\<close>; the text of an exception is given.\<close>

definition finish_task :: "outcome \<Rightarrow> string \<Rightarrow> mcp_task \<Rightarrow> mcp_task" where
  "finish_task out stamp t =
     (case out of
        Runner_Cancelled \<Rightarrow> t
      | Bad_Params msg \<Rightarrow> settle Failed (text_result msg True) (Some msg) stamp t
      | Raised msg \<Rightarrow> settle Failed (text_result msg True) (Some msg) stamp t
      | Returned r \<Rightarrow> settle (if cr_is_error r then Failed else Completed) r None stamp t)"

definition run_ends :: "string \<Rightarrow> outcome \<Rightarrow> string \<Rightarrow> task_store \<Rightarrow> task_store" where
  "run_ends task_id out stamp s =
     (case map_of s task_id of None \<Rightarrow> s | Some t \<Rightarrow> dict_set task_id (finish_task out stamp t) s)"

definition evict_session :: "nat \<Rightarrow> task_store \<Rightarrow> task_store" where
  "evict_session conn s = fold drop_task (owned_by (Some conn) s) s"

section \<open>Steps\<close>

text \<open>What can happen to the registry: a request of a client, the end of a run, the end of a session.\<close>

datatype task_event =
    Create bool "mcp_session option" bool string string "int option"
  | Get bool "mcp_session option" "string option"
  | Result "mcp_session option" "string option"
  | List_Own bool "mcp_session option"
  | Cancel bool "mcp_session option" "string option"
  | Update "mcp_session option" "string option" "(string, string) dict"
  | Run_Ends string outcome
  | Session_Ends nat

fun task_step :: "task_event \<Rightarrow> rat \<Rightarrow> string \<Rightarrow> task_store \<Rightarrow> task_response \<times> task_store" where
  "task_step (Create modern session support uuid tool requested) now stamp s =
     create_task modern session support uuid tool requested now stamp s"
| "task_step (Get modern session i) now stamp s = tasks_get modern session i now s"
| "task_step (Result session i) now stamp s = tasks_result session i now s"
| "task_step (List_Own modern session) now stamp s = tasks_list modern session now s"
| "task_step (Cancel modern session i) now stamp s = tasks_cancel modern session i now stamp s"
| "task_step (Update session i responses) now stamp s = tasks_update session i responses now stamp s"
| "task_step (Run_Ends i out) now stamp s = (Silent, run_ends i out stamp s)"
| "task_step (Session_Ends conn) now stamp s = (Silent, evict_session conn s)"

text \<open>\<open>uuid4\<close> never repeats an id that is in the registry.\<close>

definition fresh_event :: "task_event \<Rightarrow> task_store \<Rightarrow> bool" where
  "fresh_event e s =
     (case e of Create modern session support uuid tool requested \<Rightarrow> map_of s uuid = None | _ \<Rightarrow> True)"

inductive task_reachable :: "rat \<Rightarrow> task_store \<Rightarrow> bool" where
  start: "task_reachable now []"
| step: "task_reachable before s \<Longrightarrow> before \<le> now \<Longrightarrow> fresh_event e s \<Longrightarrow>
     task_step e now stamp s = (r, s') \<Longrightarrow> task_reachable now s'"

section \<open>Invariant\<close>

definition task_ok :: "mcp_task \<Rightarrow> bool" where
  "task_ok t \<longleftrightarrow> (is_terminal t \<longleftrightarrow> tk_result t \<noteq> None) \<and> tk_status t \<noteq> Input_Required
     \<and> (is_terminal t \<longrightarrow> \<not> tk_runner t) \<and> 0 < tk_ttl_ms t \<and> tk_ttl_ms t \<le> max_ttl_seconds * 1000"

definition store_ok :: "task_store \<Rightarrow> bool" where
  "store_ok s \<longleftrightarrow> dict_ok s \<and> list_all (\<lambda>(k, t). tk_name t = k \<and> task_ok t) s"

lemma store_ok_map: "store_ok s \<Longrightarrow> map_of s k = Some t \<Longrightarrow> tk_name t = k \<and> task_ok t"
  by (auto simp: store_ok_def list_all_iff dest: map_of_SomeD)

lemma store_ok_evict [simp]: "store_ok s \<Longrightarrow> store_ok (evict_expired now s)"
  by (simp add: store_ok_def evict_expired_def dict_ok_filter list_all_iff)

lemma store_ok_set: "store_ok s \<Longrightarrow> tk_name t = k \<Longrightarrow> task_ok t \<Longrightarrow> store_ok (dict_set k t s)"
  using set_dict_set [of k t s] by (auto simp: store_ok_def list_all_iff dict_ok_set)

lemma store_ok_put:
  "store_ok s \<Longrightarrow> map_of s k = Some t \<Longrightarrow> tk_name t' = tk_name t \<Longrightarrow> task_ok t' \<Longrightarrow>
     store_ok (dict_set (tk_name t) t' s)"
  by (rule store_ok_set) simp_all

lemma store_ok_filter: "store_ok s \<Longrightarrow> store_ok (filter P s)"
  by (simp add: store_ok_def dict_ok_filter list_all_iff)

lemma fold_drop: "fold drop_task ts s = filter (\<lambda>(k, t). k \<notin> tk_name ` set ts) s"
  by (induction ts arbitrary: s) (auto simp: drop_task_def AList.delete_eq intro!: filter_cong)

lemma evict_session_filter:
  assumes "store_ok s"
  shows "evict_session conn s = filter (\<lambda>(k, t). tk_owner t \<noteq> Some conn) s"
proof -
  have "k \<in> tk_name ` set (owned_by (Some conn) s) \<longleftrightarrow> tk_owner t = Some conn" if kt: "(k, t) \<in> set s" for k t
  proof
    assume "k \<in> tk_name ` set (owned_by (Some conn) s)"
    then obtain k' t' where "(k', t') \<in> set s" "tk_owner t' = Some conn" "k = tk_name t'"
      by (auto simp: owned_by_def)
    moreover from this assms have "k' = k" by (auto simp: store_ok_def list_all_iff)
    ultimately have "t' = t" using kt assms by (auto simp: store_ok_def dest: eq_key_imp_eq_value simp: dict_ok_def)
    with \<open>tk_owner t' = Some conn\<close> show "tk_owner t = Some conn" by simp
  next
    assume "tk_owner t = Some conn"
    with kt have "t \<in> set (owned_by (Some conn) s)" by (force simp: owned_by_def)
    moreover have "tk_name t = k" using kt assms by (auto simp: store_ok_def list_all_iff)
    ultimately show "k \<in> tk_name ` set (owned_by (Some conn) s)" by blast
  qed
  then show ?thesis unfolding evict_session_def fold_drop by (intro filter_cong) auto
qed

lemma settle_ok: "task_ok t \<Longrightarrow> terminal_status st \<Longrightarrow> task_ok (settle st r m stamp t)"
  by (auto simp: task_ok_def settle_def is_terminal_def terminal_status_def)

lemma settle_name [simp]: "tk_name (settle st r m stamp t) = tk_name t" "tk_owner (settle st r m stamp t) = tk_owner t"
  by (simp_all add: settle_def)

lemma cancel_ok: "task_ok t \<Longrightarrow> task_ok (cancel_task stamp t)"
  by (simp add: cancel_task_def settle_ok terminal_status_def)

lemma finish_ok: "task_ok t \<Longrightarrow> task_ok (finish_task out stamp t)"
  by (simp add: finish_task_def settle_ok terminal_status_def split: outcome.split)

lemma finish_name [simp]: "tk_name (finish_task out stamp t) = tk_name t" "tk_owner (finish_task out stamp t) = tk_owner t"
  by (simp_all add: finish_task_def split: outcome.split)

lemma cancel_name [simp]: "tk_name (cancel_task stamp t) = tk_name t" "tk_owner (cancel_task stamp t) = tk_owner t"
  by (simp_all add: cancel_task_def)

lemma new_task_ok: "task_ok (new_task uuid tool (task_ttl_ms requested) owner now stamp)"
  by (auto simp: task_ok_def new_task_def is_terminal_def terminal_status_def task_ttl_ms_def
      max_ttl_seconds_def default_ttl_seconds_def split: option.split)

lemma lookup_cases:
  assumes "lookup session i now s = (r, s1)"
  obtains e where "r = Inl e" "s1 = evict_expired now s"
    | k t where "i = Some k" "r = Inr t" "s1 = evict_expired now s" "map_of s1 k = Some t" "tk_owner t = caller_key session"
  using assms by (auto simp: lookup_def Let_def split: option.splits if_splits)

section \<open>Every reachable registry is well formed\<close>

lemma store_ok_create:
  assumes "store_ok s"
  shows "store_ok (snd (create_task modern session support uuid tool requested now stamp s))"
proof -
  let ?t = "new_task uuid tool (task_ttl_ms requested) (caller_key session) now stamp"
  have t: "task_ok ?t" "tk_name ?t = uuid" using new_task_ok by (simp_all add: new_task_def)
  then have r: "task_ok (?t\<lparr>tk_runner := True\<rparr>)"
    by (simp add: task_ok_def is_terminal_def new_task_def terminal_status_def)
  have "store_ok s2" if "register ?t (evict_expired now s) = Inr s2" for s2
    using that t store_ok_evict [OF assms] store_ok_set [of "evict_expired now s" ?t uuid]
    by (auto simp: register_def split: if_splits)
  with r t show ?thesis
    using assms store_ok_set [of _ "?t\<lparr>tk_runner := True\<rparr>" uuid]
    by (auto simp: create_task_def Let_def split: sum.split)
qed

lemma store_ok_lookup: "store_ok s \<Longrightarrow> lookup session i now s = (r, s1) \<Longrightarrow> store_ok s1"
  by (erule lookup_cases) simp_all

lemma store_ok_step:
  assumes "store_ok s"
  shows "store_ok (snd (task_step e now stamp s))"
proof (cases e)
  case (Create modern session support uuid tool requested)
  with store_ok_create [OF assms] show ?thesis by simp
next
  case (Run_Ends i out)
  then show ?thesis
    using assms store_ok_map [OF assms] by (auto simp: run_ends_def finish_ok intro!: store_ok_set split: option.split)
next
  case (Session_Ends conn)
  then show ?thesis using assms by (simp add: evict_session_filter store_ok_filter)
next
  case (Cancel modern session i)
  obtain r s1 where l: "lookup session i now s = (r, s1)" by fastforce
  from l show ?thesis
  proof (cases rule: lookup_cases)
    case 1
    with assms show ?thesis by (simp add: Cancel tasks_cancel_def l)
  next
    case (2 k t)
    have "snd (task_step e now stamp s) = dict_set (tk_name t) (cancel_task stamp t) s1"
      by (simp add: Cancel tasks_cancel_def l 2(2) Let_def)
    with store_ok_put [OF store_ok_lookup [OF assms l] 2(4)] show ?thesis
      using store_ok_map [OF store_ok_lookup [OF assms l] 2(4)] by (simp add: cancel_ok)
  qed
next
  case (Update session i responses)
  obtain r s1 where l: "lookup session i now s = (r, s1)" by fastforce
  have upd: "task_ok (t\<lparr>tk_inputs := x, tk_updated := y\<rparr>)" if "task_ok t" for t x y
    using that by (simp add: task_ok_def is_terminal_def)
  from l show ?thesis
  proof (cases rule: lookup_cases)
    case 1
    with assms show ?thesis by (simp add: Update tasks_update_def l)
  next
    case (2 k t)
    show ?thesis
      using store_ok_put [OF store_ok_lookup [OF assms l] 2(4)] store_ok_lookup [OF assms l]
        store_ok_map [OF store_ok_lookup [OF assms l] 2(4)] upd
      by (simp add: Update tasks_update_def l 2(2))
  qed
qed (use assms in \<open>auto simp: tasks_get_def tasks_result_def tasks_list_def Let_def dest: store_ok_lookup
      split: prod.split sum.split option.split\<close>)

lemma reachable_store_ok: "task_reachable now s \<Longrightarrow> store_ok s"
proof (induction rule: task_reachable.induct)
  case (start now)
  then show ?case by (simp add: store_ok_def)
next
  case (step before s now e stamp r s')
  then show ?case using store_ok_step [of s e now stamp] by simp
qed

lemma reachable_after:
  "task_reachable before s \<Longrightarrow> before \<le> now \<Longrightarrow> fresh_event e s \<Longrightarrow>
     task_reachable now (snd (task_step e now stamp s))"
  by (erule (2) task_reachable.step) (rule prod.collapse [symmetric])

section \<open>A client's own registry\<close>

text \<open>The specification: each connection has a registry of its own.\<close>

definition own :: "nat option \<Rightarrow> task_store \<Rightarrow> task_store" where
  "own c s = filter (\<lambda>(k, t). tk_owner t = c) s"

definition event_caller :: "task_event \<Rightarrow> nat option option" where
  "event_caller e =
     (case e of
        Create modern session support uuid tool requested \<Rightarrow> Some (caller_key session)
      | Get modern session i \<Rightarrow> Some (caller_key session)
      | Result session i \<Rightarrow> Some (caller_key session)
      | List_Own modern session \<Rightarrow> Some (caller_key session)
      | Cancel modern session i \<Rightarrow> Some (caller_key session)
      | Update session i responses \<Rightarrow> Some (caller_key session)
      | Run_Ends i out \<Rightarrow> None
      | Session_Ends conn \<Rightarrow> None)"

lemma own_evict: "own c (evict_expired now s) = evict_expired now (own c s)"
  by (auto simp: own_def evict_expired_def intro: filter_cong)

lemma own_owned_by: "owned_by c (own c s) = owned_by c s"
  by (induction s) (auto simp: own_def owned_by_def)

lemma map_of_own: "dict_ok s \<Longrightarrow> map_of (own c s) k = (case map_of s k of None \<Rightarrow> None | Some t \<Rightarrow> if tk_owner t = c then Some t else None)"
  by (induction s) (auto simp: own_def dict_ok_def map_of_eq_None_iff split: option.splits if_splits)

lemma own_set_same:
  "dict_ok s \<Longrightarrow> map_of s k = Some t0 \<Longrightarrow> tk_owner t0 = c \<Longrightarrow> tk_owner t = c \<Longrightarrow>
     own c (dict_set k t s) = dict_set k t (own c s)"
  by (induction s) (auto simp: own_def dict_ok_def split: if_splits)

lemma own_set_other:
  "dict_ok s \<Longrightarrow> map_of s k = Some t0 \<Longrightarrow> tk_owner t0 \<noteq> c \<Longrightarrow> tk_owner t \<noteq> c \<Longrightarrow> own c (dict_set k t s) = own c s"
  by (induction s) (auto simp: own_def dict_ok_def split: if_splits)

lemma own_set_new:
  "map_of s k = None \<Longrightarrow> own c (dict_set k t s) = (if tk_owner t = c then dict_set k t (own c s) else own c s)"
  by (induction s) (auto simp: own_def split: if_splits)

lemma task_dict_ok: "store_ok s \<Longrightarrow> dict_ok s"
  by (simp add: store_ok_def)

text \<open>Looking up answers alike in the whole registry and in the caller's own.\<close>

lemma lookup_own:
  assumes "store_ok s"
  shows "lookup session i now (own (caller_key session) s) =
     (fst (lookup session i now s), own (caller_key session) (snd (lookup session i now s)))"
  using map_of_own [OF task_dict_ok [OF store_ok_evict [OF assms]], of "caller_key session" now]
  by (auto simp: lookup_def Let_def own_evict [symmetric] split: option.split)

lemma lookup_other:
  "store_ok s \<Longrightarrow> own c (snd (lookup session i now s)) = evict_expired now (own c s)"
  by (auto simp: lookup_def Let_def own_evict split: option.split)

lemma map_of_evict_None: "map_of s k = None \<Longrightarrow> map_of (evict_expired now s) k = None"
  by (auto simp: map_of_eq_None_iff evict_expired_def)

lemma new_task_owner [simp]: "tk_owner (new_task uuid tool ttl c now stamp) = c" "tk_name (new_task uuid tool ttl c now stamp) = uuid"
  by (simp_all add: new_task_def)

lemma dict_set_twice [simp]: "dict_set k v' (dict_set k v d) = dict_set k v' d"
  by (induction d) auto

lemma own_create_put:
  "map_of s uuid = None \<Longrightarrow> own c (dict_set uuid (new_task uuid tool ttl d now stamp\<lparr>tk_runner := True\<rparr>) s) =
     (if d = c then dict_set uuid (new_task uuid tool ttl d now stamp\<lparr>tk_runner := True\<rparr>) (own c s) else own c s)"
  by (simp add: own_set_new)

lemma create_own:
  assumes "store_ok s" "map_of s uuid = None"
  shows "create_task modern session support uuid tool requested now stamp (own (caller_key session) s) =
     (fst (create_task modern session support uuid tool requested now stamp s),
      own (caller_key session) (snd (create_task modern session support uuid tool requested now stamp s)))"
proof -
  let ?c = "caller_key session"
  have n: "map_of (evict_expired now s) uuid = None" using assms(2) by (rule map_of_evict_None)
  have "map_of (own ?c (evict_expired now s)) uuid = None"
    using n by (auto simp: map_of_eq_None_iff own_def)
  then show ?thesis
    by (simp add: create_task_def Let_def own_evict [symmetric] register_def n own_create_put [OF n])
qed

lemma create_other:
  assumes "map_of s uuid = None" "caller_key session \<noteq> c"
  shows "own c (snd (create_task modern session support uuid tool requested now stamp s)) \<in>
     {own c s, evict_expired now (own c s)}"
proof -
  have n: "map_of (evict_expired now s) uuid = None" using assms(1) by (rule map_of_evict_None)
  show ?thesis
    using assms(2) by (simp add: create_task_def Let_def register_def n own_create_put [OF n]) (simp add: own_evict)
qed

text \<open>A change to a task that was looked up is a change in its owner's registry only.\<close>

lemma own_put:
  assumes "store_ok s" "map_of s k = Some t" "tk_owner t' = tk_owner t"
  shows "own c (dict_set (tk_name t) t' s) = (if tk_owner t = c then dict_set (tk_name t) t' (own c s) else own c s)"
proof -
  have "tk_name t = k" "dict_ok s" using store_ok_map [OF assms(1,2)] assms(1) by (simp_all add: store_ok_def)
  then show ?thesis using assms(2,3) by (simp add: own_set_same own_set_other)
qed

lemma step_own:
  assumes "store_ok s" "fresh_event e s" "event_caller e = Some c"
  shows "task_step e now stamp (own c s) = (fst (task_step e now stamp s), own c (snd (task_step e now stamp s)))"
proof -
  have look: "lookup session i now (own c s) = (r, own c s1)"
    if "lookup session i now s = (r, s1)" "c = caller_key session" for session i r s1
    using lookup_own [OF assms(1), of session i now] that by simp
  have put: "own c (dict_set (tk_name t) t' s1) = dict_set (tk_name t) t' (own c s1)"
    if "lookup session i now s = (Inr t, s1)" "c = caller_key session" "tk_owner t' = tk_owner t" for session i t t' s1
    using that(1) by (cases rule: lookup_cases) (use own_put [of s1] assms(1) that in auto)
  show ?thesis
  proof (cases e)
    case (Create modern session support uuid tool requested)
    with assms have "caller_key session = c" "map_of s uuid = None"
      by (simp_all add: fresh_event_def event_caller_def)
    with create_own [OF assms(1), of uuid modern session] Create show ?thesis by simp
  next
    case (List_Own modern session)
    with assms(3) show ?thesis
      by (simp add: tasks_list_def Let_def event_caller_def own_evict [symmetric] own_owned_by)
  next
    case (Get modern session i)
    obtain r s1 where l: "lookup session i now s = (r, s1)" by fastforce
    with look [OF l] assms(3) Get show ?thesis
      by (cases r) (simp_all add: tasks_get_def event_caller_def)
  next
    case (Result session i)
    obtain r s1 where l: "lookup session i now s = (r, s1)" by fastforce
    with look [OF l] assms(3) Result show ?thesis
      by (cases r) (simp_all add: tasks_result_def event_caller_def split: option.split)
  next
    case (Cancel modern session i)
    obtain r s1 where l: "lookup session i now s = (r, s1)" by fastforce
    have c: "c = caller_key session" using assms(3) Cancel by (simp add: event_caller_def)
    show ?thesis
    proof (cases r)
      case (Inr t)
      with look [OF l c] put [of session i t s1 "cancel_task stamp t"] l c Cancel show ?thesis
        by (simp add: tasks_cancel_def Let_def)
    qed (use look [OF l c] l Cancel in \<open>simp add: tasks_cancel_def\<close>)
  next
    case (Update session i responses)
    obtain r s1 where l: "lookup session i now s = (r, s1)" by fastforce
    have c: "c = caller_key session" using assms(3) Update by (simp add: event_caller_def)
    show ?thesis
    proof (cases r)
      case (Inr t)
      let ?t = "t\<lparr>tk_inputs := foldl (\<lambda>d (k, v). dict_set k v d) (tk_inputs t) responses, tk_updated := stamp\<rparr>"
      from Inr look [OF l c] put [of session i t s1 ?t] l c Update show ?thesis
        by (simp add: tasks_update_def)
    qed (use look [OF l c] l Update in \<open>simp add: tasks_update_def\<close>)
  qed (use assms(3) in \<open>simp_all add: event_caller_def\<close>)
qed

lemma step_other:
  assumes "store_ok s" "fresh_event e s" "event_caller e = Some d" "d \<noteq> c"
  shows "own c (snd (task_step e now stamp s)) \<in> {own c s, evict_expired now (own c s)}"
proof -
  have look: "own c s1 = evict_expired now (own c s)" if "lookup session i now s = (r, s1)" for session i r s1
    using lookup_other [OF assms(1), of c session i now] that by simp
  have put: "own c (dict_set (tk_name t) t' s1) = own c s1"
    if "lookup session i now s = (Inr t, s1)" "d = caller_key session" "tk_owner t' = tk_owner t" for session i t t' s1
    using that(1) by (cases rule: lookup_cases) (use own_put [of s1] assms(1,4) that in auto)
  show ?thesis
  proof (cases e)
    case (Create modern session support uuid tool requested)
    with assms show ?thesis using create_other [of s uuid session c]
      by (simp add: fresh_event_def event_caller_def)
  next
    case (Get modern session i)
    obtain r s1 where l: "lookup session i now s = (r, s1)" by fastforce
    with look [OF l] Get show ?thesis by (cases r) (simp_all add: tasks_get_def)
  next
    case (Result session i)
    obtain r s1 where l: "lookup session i now s = (r, s1)" by fastforce
    with look [OF l] Result show ?thesis by (cases r) (simp_all add: tasks_result_def split: option.split)
  next
    case (Cancel modern session i)
    obtain r s1 where l: "lookup session i now s = (r, s1)" by fastforce
    with look [OF l] put assms(3) Cancel show ?thesis
      by (cases r) (simp_all add: tasks_cancel_def event_caller_def Let_def)
  next
    case (Update session i responses)
    obtain r s1 where l: "lookup session i now s = (r, s1)" by fastforce
    with look [OF l] put assms(3) Update show ?thesis
      by (cases r) (simp_all add: tasks_update_def event_caller_def)
  qed (use assms(3) in \<open>simp_all add: event_caller_def tasks_list_def own_evict Let_def\<close>)
qed

lemma own_store_ok: "store_ok s \<Longrightarrow> store_ok (own c s)"
  by (simp add: own_def store_ok_filter)

text \<open>What no client asks for acts on each registry alone.\<close>

lemma step_internal:
  assumes "store_ok s" "event_caller e = None"
  shows "own c (snd (task_step e now stamp s)) = snd (task_step e now stamp (own c s))"
proof (cases e)
  case (Run_Ends i out)
  have "tk_name t = i" if "map_of s i = Some t" for t using store_ok_map [OF assms(1) that] by simp
  then show ?thesis
    using own_put [OF assms(1), of i _ "finish_task out stamp _" c] map_of_own [OF task_dict_ok [OF assms(1)], of c i]
    by (auto simp: Run_Ends run_ends_def split: option.split)
next
  case (Session_Ends conn)
  have "own c (evict_session conn s) = evict_session conn (own c s)"
    unfolding evict_session_filter [OF assms(1)] evict_session_filter [OF own_store_ok [OF assms(1)]]
    by (auto simp: own_def intro: filter_cong)
  with Session_Ends show ?thesis by simp
qed (use assms(2) in \<open>simp_all add: event_caller_def\<close>)

section \<open>Settled once\<close>

definition same_outcome :: "mcp_task \<Rightarrow> mcp_task \<Rightarrow> bool" where
  "same_outcome t t' \<longleftrightarrow> tk_status t' = tk_status t \<and> tk_result t' = tk_result t \<and> tk_message t' = tk_message t
     \<and> tk_owner t' = tk_owner t"

lemma map_of_evict:
  "dict_ok s \<Longrightarrow> map_of (evict_expired now s) k =
     (case map_of s k of None \<Rightarrow> None | Some t \<Rightarrow> if expired now t then None else Some t)"
  unfolding evict_expired_def
  by (induction s) (auto simp: dict_ok_def map_of_eq_None_iff split: option.splits)

lemma evict_SomeD: "store_ok s \<Longrightarrow> map_of (evict_expired now s) k = Some t \<Longrightarrow> map_of s k = Some t"
  by (auto simp: map_of_evict task_dict_ok split: option.splits if_splits)

lemma terminal_same:
  "is_terminal t \<Longrightarrow> same_outcome t t" "is_terminal t \<Longrightarrow> same_outcome t (cancel_task stamp t)"
  "is_terminal t \<Longrightarrow> same_outcome t (finish_task out stamp t)" "same_outcome t (t\<lparr>tk_inputs := i, tk_updated := u\<rparr>)"
  by (simp_all add: same_outcome_def cancel_task_def finish_task_def settle_def split: outcome.split)

text \<open>What a step leaves under an id that was there is the old entry, or one with the same outcome.\<close>

lemma step_terminal:
  assumes ok: "store_ok s" and fresh: "fresh_event e s" and t: "map_of s k = Some t" "is_terminal t"
    and t': "map_of (snd (task_step e now stamp s)) k = Some t'"
  shows "same_outcome t t'"
proof -
  have put: "same_outcome t t'"
    if l: "lookup session i now s = (Inr u, s1)" and m: "map_of (dict_set (tk_name u) u' s1) k = Some t'"
      and same: "is_terminal u \<Longrightarrow> same_outcome u u'" for session i u u' s1
  proof -
    from l obtain j where j: "s1 = evict_expired now s" "map_of s1 j = Some u" by (cases rule: lookup_cases) auto
    have "tk_name u = j" using store_ok_map [of s1 j u] j ok by simp
    with m j evict_SomeD [OF ok, of now k] evict_SomeD [OF ok, of now j] t same show ?thesis
      by (auto simp: map_of_set terminal_same split: if_splits)
  qed
  have look: "same_outcome t t'" if "lookup session i now s = (r, s1)" "map_of s1 k = Some t'" for session i r s1
    using that(1) by (cases rule: lookup_cases) (use that(2) evict_SomeD [OF ok] t in \<open>auto simp: terminal_same\<close>)
  show ?thesis
  proof (cases e)
    case (Create modern session support uuid tool requested)
    then have n: "map_of s uuid = None" using fresh by (simp add: fresh_event_def)
    with map_of_evict_None [OF n] have "k \<noteq> uuid" using t by auto
    with t' n map_of_evict_None [OF n, of now] evict_SomeD [OF ok, of now k] t Create show ?thesis
      by (auto simp: create_task_def Let_def register_def map_of_set terminal_same split: if_splits)
  next
    case (List_Own modern session)
    with t' evict_SomeD [OF ok, of now k] t show ?thesis by (auto simp: tasks_list_def Let_def terminal_same)
  next
    case (Get modern session i)
    obtain r s1 where l: "lookup session i now s = (r, s1)" by fastforce
    with look [OF l] t' Get show ?thesis by (cases r) (simp_all add: tasks_get_def)
  next
    case (Result session i)
    obtain r s1 where l: "lookup session i now s = (r, s1)" by fastforce
    with look [OF l] t' Result show ?thesis by (cases r) (simp_all add: tasks_result_def split: option.splits)
  next
    case (Cancel modern session i)
    obtain r s1 where l: "lookup session i now s = (r, s1)" by fastforce
    with look [OF l] put t' Cancel terminal_same(2) show ?thesis
      by (cases r) (simp_all add: tasks_cancel_def Let_def)
  next
    case (Update session i responses)
    obtain r s1 where l: "lookup session i now s = (r, s1)" by fastforce
    with look [OF l] put t' Update terminal_same(4) show ?thesis
      by (cases r) (simp_all add: tasks_update_def split: if_splits)
  next
    case (Run_Ends i out)
    with t' t terminal_same(1) [of t] terminal_same(3) [of t out stamp] show ?thesis
      by (auto simp: run_ends_def map_of_set split: option.splits if_splits)
  next
    case (Session_Ends conn)
    have "map_of (filter (\<lambda>(k, t). tk_owner t \<noteq> Some conn) s) k = Some t' \<Longrightarrow> map_of s k = Some t'"
      using task_dict_ok [OF ok] by (simp add: map_of_filter_in dict_in_set_iff [symmetric] dict_ok_filter)
    with t' t terminal_same(1) show ?thesis by (simp add: Session_Ends evict_session_filter [OF ok])
  qed
qed

section \<open>Properties\<close>

text \<open>C29: Each connection has a registry of its own. A request is answered from the caller's tasks alone
  and changes them alone, exactly as if nobody else had any: to another connection the most it
  can do is evict settled tasks past their time. The end of a run or of a session acts on each
  connection's tasks separately.\<close>

theorem tasks_private_registry:
  assumes "task_reachable before s" "fresh_event e s"
  shows "case event_caller e of
      Some d \<Rightarrow> task_step e now stamp (own d s) = (fst (task_step e now stamp s), own d (snd (task_step e now stamp s)))
        \<and> (\<forall>c. c = d \<or> own c (snd (task_step e now stamp s)) \<in> {own c s, evict_expired now (own c s)})
    | None \<Rightarrow> \<forall>c. own c (snd (task_step e now stamp s)) = snd (task_step e now stamp (own c s))"
proof (cases "event_caller e")
  case None
  then show ?thesis using step_internal [OF reachable_store_ok [OF assms(1)]] by simp
next
  case (Some d)
  note ok = reachable_store_ok [OF assms(1)]
  have "c = d \<or> own c (snd (task_step e now stamp s)) \<in> {own c s, evict_expired now (own c s)}" for c
    using step_other [OF ok assms(2) Some, of c now stamp] by (cases "d = c") simp_all
  then show ?thesis using step_own [OF ok assms(2) Some, of now stamp] by (simp add: Some)
qed

definition client :: "nat \<Rightarrow> mcp_session option" where
  "client n = Some \<lparr>connection_id = n, persistent = True, declares_tasks = True\<rparr>"

definition two_tasks :: task_store where
  "two_tasks = snd (task_step (Create True (client 2) True ''b'' ''tool'' (Some 1000)) 1 ''t1''
     (snd (task_step (Create True (client 1) True ''a'' ''tool'' None) 0 ''t0'' [])))"

lemma two_tasks_reachable: "task_reachable 1 two_tasks"
proof -
  have "fresh_event (Create True (client 1) True ''a'' ''tool'' None) []" by (simp add: fresh_event_def)
  from reachable_after [OF task_reachable.start order_refl this, of 0 "''t0''"]
  show ?thesis unfolding two_tasks_def
    by (rule reachable_after) (simp, code_simp)
qed

theorem tasks_private_registry_witness:
  "task_step (Cancel True (client 2) (Some ''a'')) 2 ''t2'' (own (Some 2) two_tasks) =
     (fst (task_step (Cancel True (client 2) (Some ''a'')) 2 ''t2'' two_tasks),
      own (Some 2) (snd (task_step (Cancel True (client 2) (Some ''a'')) 2 ''t2'' two_tasks)))
   \<and> fst (task_step (Cancel True (client 2) (Some ''a'')) 2 ''t2'' two_tasks) = Refused ResourceNotFoundError"
proof
  have "fresh_event (Cancel True (client 2) (Some ''a'')) two_tasks" by (simp add: fresh_event_def)
  from tasks_private_registry [OF two_tasks_reachable this, of 2 "''t2''"]
  show "task_step (Cancel True (client 2) (Some ''a'')) 2 ''t2'' (own (Some 2) two_tasks) =
     (fst (task_step (Cancel True (client 2) (Some ''a'')) 2 ''t2'' two_tasks),
      own (Some 2) (snd (task_step (Cancel True (client 2) (Some ''a'')) 2 ''t2'' two_tasks)))"
    by (simp only: event_caller_def task_event.case option.case client_def caller_key_def option.map
        mcp_session.simps) 
qed code_simp

text \<open>C30: A task settles once: whatever races (a cancellation and the end of the run, two cancellations, a
  late update), a settled task keeps its status, its result and its message for as long as it
  is in the registry.\<close>

theorem task_settles_once:
  assumes "task_reachable before s" "fresh_event e s"
    and "map_of s k = Some t" "is_terminal t"
    and "map_of (snd (task_step e now stamp s)) k = Some t'"
  shows "same_outcome t t'"
  by (rule step_terminal [OF reachable_store_ok [OF assms(1)] assms(2-5)])

theorem task_settles_once_witness:
  "same_outcome
     (the (map_of (snd (task_step (Cancel True (client 1) (Some ''a'')) 2 ''t2'' two_tasks)) ''a''))
     (the (map_of (snd (task_step (Run_Ends ''a'' (Returned (text_result ''done'' False))) 3 ''t3''
        (snd (task_step (Cancel True (client 1) (Some ''a'')) 2 ''t2'' two_tasks)))) ''a''))"
proof -
  let ?s = "snd (task_step (Cancel True (client 1) (Some ''a'')) 2 ''t2'' two_tasks)"
  let ?e = "Run_Ends ''a'' (Returned (text_result ''done'' False))"
  have "task_reachable 2 ?s"
    by (rule reachable_after [OF two_tasks_reachable]) (simp_all add: fresh_event_def)
  moreover have "fresh_event ?e ?s" by (simp add: fresh_event_def)
  moreover have "map_of ?s ''a'' = Some (the (map_of ?s ''a''))" "is_terminal (the (map_of ?s ''a''))"
    "map_of (snd (task_step ?e 3 ''t3'' ?s)) ''a'' = Some (the (map_of (snd (task_step ?e 3 ''t3'' ?s)) ''a''))"
    by code_simp+
  ultimately show ?thesis by (rule task_settles_once)
qed

text \<open>Polling ends with the result: the caller's own unsettled task is never evicted for its age and
  \<open>tasks/result\<close> asks to keep polling; once settled, \<open>tasks/result\<close> gives the result, until the
  task's time is over and it is not found.\<close>

theorem task_result_polling:
  assumes "task_reachable before s" "map_of s k = Some t" "tk_owner t = caller_key session"
  shows "tasks_result session (Some k) now s =
     (if expired now t then Refused ResourceNotFoundError
      else if is_terminal t then Tool_Result (the (tk_result t)) else Refused InvalidParamsError,
      evict_expired now s)
    \<and> (is_terminal t \<or> map_of (evict_expired now s) k = Some t)"
proof -
  have ok: "store_ok s" by (rule reachable_store_ok [OF assms(1)])
  then have "is_terminal t \<longleftrightarrow> tk_result t \<noteq> None" using store_ok_map [OF ok assms(2)] by (simp add: task_ok_def)
  moreover have "map_of (evict_expired now s) k = (if expired now t then None else Some t)"
    by (simp add: map_of_evict task_dict_ok [OF ok] assms(2))
  ultimately show ?thesis
    using assms(3) by (auto simp: tasks_result_def lookup_def Let_def expired_def split: option.split)
qed

theorem task_result_polling_witness:
  "fst (tasks_result (client 1) (Some ''a'') 2 two_tasks) = Refused InvalidParamsError"
proof -
  have "map_of two_tasks ''a'' = Some (the (map_of two_tasks ''a''))"
    "tk_owner (the (map_of two_tasks ''a'')) = caller_key (client 1)" "\<not> is_terminal (the (map_of two_tasks ''a''))"
    by code_simp+
  with task_result_polling [OF two_tasks_reachable, of "''a''" _ "client 1" 2] show ?thesis
    by (simp add: expired_def)
qed

end
