(* ===== verification/Ws_Codec.thy ===== *)
theory Ws_Codec
  imports Py_Base "HOL-Library.Word"
begin

unbundle bit_operations_syntax

text \<open>
  The byte-level routines of \<open>src/src/veloce/websocket.py\<close>: big-endian integers as
  \<open>struct\<close> and \<open>int.from_bytes\<close> read them, the block-wise unmasking of \<open>_unmask\<close>, the incremental
  validator \<open>_Utf8Validator\<close>, and the frame header of \<open>_send_frame\<close>. Each is proved equal to its
  specification: byte-wise XOR, and the encoding of Unicode scalar values.
\<close>

type_synonym byte = "8 word"
type_synonym bytes = "byte list"

section \<open>Big-endian integers\<close>

fun be_nat :: "nat \<Rightarrow> bytes \<Rightarrow> nat" where
  "be_nat acc [] = acc"
| "be_nat acc (b # bs) = be_nat (acc * 256 + unat b) bs"

definition from_bytes :: "bytes \<Rightarrow> nat" where
  "from_bytes bs = be_nat 0 bs"

fun to_bytes :: "nat \<Rightarrow> nat \<Rightarrow> bytes" where
  "to_bytes 0 x = []"
| "to_bytes (Suc n) x = to_bytes n (x div 256) @ [of_nat (x mod 256)]"

lemma unat_byte: "unat (b :: byte) < 256"
  using unsigned_less [of b, where ?'a = nat] by simp

lemma unat_of_nat_byte: "n < 256 \<Longrightarrow> unat (of_nat n :: byte) = n"
  by (simp add: unsigned_of_nat take_bit_eq_mod)

lemma be_nat_append: "be_nat acc (bs @ cs) = be_nat (be_nat acc bs) cs"
  by (induction acc bs rule: be_nat.induct) simp_all

lemma from_bytes_snoc: "from_bytes (bs @ [b]) = from_bytes bs * 256 + unat b"
  by (simp add: from_bytes_def be_nat_append)

lemma length_to_bytes [simp]: "length (to_bytes n x) = n"
  by (induction n arbitrary: x) simp_all

lemma to_from_bytes [simp]: "to_bytes (length bs) (from_bytes bs) = bs"
proof (induction bs rule: rev_induct)
  case (snoc b bs)
  have "(from_bytes bs * 256 + unat b) div 256 = from_bytes bs" "(from_bytes bs * 256 + unat b) mod 256 = unat b"
    using unat_byte [of b] by simp_all
  with snoc show ?case by (simp add: from_bytes_snoc)
qed simp

lemma from_to_bytes: "x < 256 ^ n \<Longrightarrow> from_bytes (to_bytes n x) = x"
proof (induction n arbitrary: x)
  case (Suc n)
  have "x div 256 < 256 ^ n" using Suc.prems by (simp add: less_mult_imp_div_less mult.commute)
  with Suc.IH show ?case by (simp add: from_bytes_snoc unat_of_nat_byte)
qed (simp add: from_bytes_def)

lemma from_bytes_bound: "from_bytes bs < 256 ^ length bs"
proof (induction bs rule: rev_induct)
  case (snoc b bs)
  have "from_bytes bs * 256 + unat b < (from_bytes bs + 1) * 256" using unat_byte [of b] by simp
  also have "\<dots> \<le> 256 ^ length bs * 256" using snoc by (intro mult_right_mono) simp_all
  finally show ?case by (simp add: from_bytes_snoc mult.commute)
qed (simp add: from_bytes_def)

section \<open>Unmasking\<close>

text \<open>The XOR of two byte strings as the code computes it, through two big integers.\<close>

definition xor_int :: "bytes \<Rightarrow> nat \<Rightarrow> bytes" where
  "xor_int payload m = to_bytes (length payload) (from_bytes payload XOR m)"

text \<open>\<open>(mask * ((n + 3) // 4))[:n]\<close>\<close>

definition tile_key :: "bytes \<Rightarrow> nat \<Rightarrow> bytes" where
  "tile_key key n = take n (concat (replicate ((n + 3) div 4) key))"

definition unmask_block :: nat where "unmask_block = 16 * 1024"

text \<open>The loop over full blocks; \<open>payload\<close> is what is left from \<open>pos\<close> on.\<close>

function unmask_loop :: "nat \<Rightarrow> bytes \<Rightarrow> bytes \<Rightarrow> bytes" where
  "unmask_loop block_mask key payload =
     (if length payload \<le> unmask_block
      then xor_int payload (from_bytes (tile_key key (length payload)))
      else xor_int (take unmask_block payload) block_mask @ unmask_loop block_mask key (drop unmask_block payload))"
  by pat_completeness auto
termination
  by (relation "measure (\<lambda>(m, key, payload). length payload)") (auto simp: unmask_block_def)

declare unmask_loop.simps [simp del]

definition unmask :: "bytes \<Rightarrow> bytes \<Rightarrow> bytes" where
  "unmask payload key =
     (if length payload \<le> unmask_block
      then xor_int payload (from_bytes (tile_key key (length payload)))
      else unmask_loop (from_bytes (concat (replicate (unmask_block div 4) key))) key payload)"

text \<open>The specification of RFC 6455 Sec. 5.3: octet \<open>i\<close> with octet \<open>i mod 4\<close> of the key.\<close>

definition unmask_spec :: "bytes \<Rightarrow> bytes \<Rightarrow> bytes" where
  "unmask_spec payload key = map (\<lambda>i. payload ! i XOR key ! (i mod 4)) [0..<length payload]"

lemma xor_snoc:
  assumes "x < 256" "y < 256"
  shows "(a * 256 + x) XOR (b * 256 + y) = (a XOR b) * 256 + (x XOR y :: nat)"
proof -
  let ?l = "(a * 256 + x) XOR (b * 256 + y)"
  have d: "?l div 256 = a XOR b"
  proof -
    have "drop_bit 8 ?l = drop_bit 8 (a * 256 + x) XOR drop_bit 8 (b * 256 + y)" by (rule drop_bit_xor)
    then show ?thesis using assms by (simp add: drop_bit_eq_div)
  qed
  have m: "?l mod 256 = x XOR y"
  proof -
    have "take_bit 8 ?l = take_bit 8 (a * 256 + x) XOR take_bit 8 (b * 256 + y)" by (rule take_bit_xor)
    then show ?thesis using assms by (simp add: take_bit_eq_mod)
  qed
  show ?thesis using div_mult_mod_eq [of ?l 256] unfolding d m by simp
qed

lemma from_bytes_xor:
  "length a = length b \<Longrightarrow> from_bytes a XOR from_bytes b = from_bytes (map2 (XOR) a b)"
proof (induction a b rule: rev_induct2)
  case (4 x xs y ys)
  have "unat (x XOR y) = unat x XOR unat y" by (rule unsigned_xor_eq)
  then show ?case using 4 by (simp add: from_bytes_snoc xor_snoc unat_byte)
qed (simp_all add: from_bytes_def)

lemma xor_int_map2: "length a = length b \<Longrightarrow> xor_int a (from_bytes b) = map2 (XOR) a b"
  using to_from_bytes [of "map2 (XOR) a b"] by (simp add: xor_int_def from_bytes_xor)

lemma nth_replicate_concat:
  "length key = 4 \<Longrightarrow> i < 4 * n \<Longrightarrow> concat (replicate n key) ! i = key ! (i mod 4)"
proof (induction n arbitrary: i)
  case (Suc n)
  show ?case
  proof (cases "i < 4")
    case False
    with Suc.prems Suc.IH [of "i - 4"] le_mod_geq [of 4 i] show ?thesis by (simp add: nth_append)
  qed (use Suc.prems in \<open>simp add: nth_append\<close>)
qed simp

lemma length_replicate_concat: "length (concat (replicate n key)) = n * length key"
  by (induction n) simp_all

lemma length_tile [simp]: "length key = 4 \<Longrightarrow> length (tile_key key n) = n"
  by (simp add: tile_key_def length_replicate_concat)

lemma nth_tile: "length key = 4 \<Longrightarrow> i < n \<Longrightarrow> tile_key key n ! i = key ! (i mod 4)"
  unfolding tile_key_def by (subst nth_take) (auto intro: nth_replicate_concat)

lemma length_unmask_spec [simp]: "length (unmask_spec payload key) = length payload"
  by (simp add: unmask_spec_def)

lemma nth_unmask_spec: "i < length payload \<Longrightarrow> unmask_spec payload key ! i = payload ! i XOR key ! (i mod 4)"
  by (simp add: unmask_spec_def)

lemma xor_tile_spec:
  assumes "length key = 4"
  shows "xor_int payload (from_bytes (tile_key key (length payload))) = unmask_spec payload key"
proof -
  have "map2 (XOR) payload (tile_key key (length payload)) = unmask_spec payload key"
    by (rule nth_equalityI) (use assms in \<open>simp_all add: nth_unmask_spec nth_tile\<close>)
  then show ?thesis using assms by (simp add: xor_int_map2)
qed

lemma unmask_spec_append:
  assumes "length a mod 4 = 0"
  shows "unmask_spec (a @ b) key = unmask_spec a key @ unmask_spec b key"
proof (rule nth_equalityI)
  fix i assume i: "i < length (unmask_spec (a @ b) key)"
  have "i mod 4 = (i - length a) mod 4" if "\<not> i < length a"
    using that assms mod_add_left_eq [of "length a" 4 "i - length a"] by simp
  then show "unmask_spec (a @ b) key ! i = (unmask_spec a key @ unmask_spec b key) ! i"
    using i by (simp add: nth_unmask_spec nth_append)
qed simp

lemma block_key: "length key = 4 \<Longrightarrow> concat (replicate (unmask_block div 4) key) = tile_key key unmask_block"
  by (simp add: tile_key_def unmask_block_def length_replicate_concat)

lemma unmask_loop_spec:
  "length key = 4 \<Longrightarrow> unmask_loop (from_bytes (tile_key key unmask_block)) key payload = unmask_spec payload key"
proof (induction "length payload" arbitrary: payload rule: less_induct)
  case less
  let ?m = "from_bytes (tile_key key unmask_block)"
  show ?case
  proof (cases "length payload \<le> unmask_block")
    case True
    then show ?thesis using less.prems by (simp add: unmask_loop.simps [of _ _ payload] xor_tile_spec)
  next
    case False
    let ?a = "take unmask_block payload" and ?b = "drop unmask_block payload"
    have len: "length ?a = unmask_block" "length ?b < length payload" using False by (simp_all add: unmask_block_def)
    have "xor_int ?a ?m = unmask_spec ?a key"
      using xor_tile_spec [OF less.prems, of ?a] len(1) by simp
    moreover have "unmask_loop ?m key ?b = unmask_spec ?b key" using less.hyps [OF len(2) less.prems] .
    moreover have "unmask_spec (?a @ ?b) key = unmask_spec ?a key @ unmask_spec ?b key"
      by (rule unmask_spec_append) (simp only: len(1), simp add: unmask_block_def)
    ultimately show ?thesis using False by (simp add: unmask_loop.simps [of _ _ payload])
  qed
qed

lemma unmask_eq_spec: "length key = 4 \<Longrightarrow> unmask payload key = unmask_spec payload key"
  by (simp add: unmask_def xor_tile_spec block_key unmask_loop_spec)

text \<open>Masking is its own inverse.\<close>

lemma unmask_spec_involution: "unmask_spec (unmask_spec payload key) key = payload"
  by (rule nth_equalityI) (simp_all add: nth_unmask_spec xor.assoc)

section \<open>The UTF-8 validator\<close>

record utf8_state =
  u8_need :: nat
  u8_lo :: nat
  u8_hi :: nat

definition utf8_init :: utf8_state where
  "utf8_init = \<lparr>u8_need = 0, u8_lo = 0x80, u8_hi = 0xBF\<rparr>"

definition utf8_done :: "utf8_state \<Rightarrow> bool" where
  "utf8_done st \<longleftrightarrow> u8_need st = 0"

text \<open>One byte; \<open>None\<close> where the loop returns \<open>False\<close>.\<close>

definition utf8_byte :: "utf8_state \<Rightarrow> nat \<Rightarrow> utf8_state option" where
  "utf8_byte st b =
     (if u8_need st = 0 then
        (if b < 0x80 then Some st
         else if 0xC2 \<le> b \<and> b \<le> 0xDF then Some \<lparr>u8_need = 1, u8_lo = 0x80, u8_hi = 0xBF\<rparr>
         else if b = 0xE0 then Some \<lparr>u8_need = 2, u8_lo = 0xA0, u8_hi = 0xBF\<rparr>
         else if (0xE1 \<le> b \<and> b \<le> 0xEC) \<or> b = 0xEE \<or> b = 0xEF then Some \<lparr>u8_need = 2, u8_lo = 0x80, u8_hi = 0xBF\<rparr>
         else if b = 0xED then Some \<lparr>u8_need = 2, u8_lo = 0x80, u8_hi = 0x9F\<rparr>
         else if b = 0xF0 then Some \<lparr>u8_need = 3, u8_lo = 0x90, u8_hi = 0xBF\<rparr>
         else if 0xF1 \<le> b \<and> b \<le> 0xF3 then Some \<lparr>u8_need = 3, u8_lo = 0x80, u8_hi = 0xBF\<rparr>
         else if b = 0xF4 then Some \<lparr>u8_need = 3, u8_lo = 0x80, u8_hi = 0x8F\<rparr>
         else None)
      else if b < u8_lo st \<or> b > u8_hi st then None
      else Some \<lparr>u8_need = u8_need st - 1, u8_lo = 0x80, u8_hi = 0xBF\<rparr>)"

fun utf8_feed :: "utf8_state \<Rightarrow> bytes \<Rightarrow> utf8_state option" where
  "utf8_feed st [] = Some st"
| "utf8_feed st (b # bs) = (case utf8_byte st (unat b) of None \<Rightarrow> None | Some st' \<Rightarrow> utf8_feed st' bs)"

lemma utf8_feed_append:
  "utf8_feed st (a @ b) = (case utf8_feed st a of None \<Rightarrow> None | Some st' \<Rightarrow> utf8_feed st' b)"
  by (induction st a rule: utf8_feed.induct) (auto split: option.split)

text \<open>The specification: the encoding of a sequence of Unicode scalar values (RFC 3629 Sec. 3).\<close>

definition scalar_value :: "nat \<Rightarrow> bool" where
  "scalar_value c \<longleftrightarrow> c < 0xD800 \<or> (0xE000 \<le> c \<and> c \<le> 0x10FFFF)"

definition encode_scalar :: "nat \<Rightarrow> nat list" where
  "encode_scalar c =
     (if c < 0x80 then [c]
      else if c < 0x800 then [0xC0 + c div 64, 0x80 + c mod 64]
      else if c < 0x10000 then [0xE0 + c div 4096, 0x80 + c div 64 mod 64, 0x80 + c mod 64]
      else [0xF0 + c div 262144, 0x80 + c div 4096 mod 64, 0x80 + c div 64 mod 64, 0x80 + c mod 64])"

definition encode_utf8 :: "nat list \<Rightarrow> bytes" where
  "encode_utf8 cs = map of_nat (concat (map encode_scalar cs))"

definition valid_utf8 :: "bytes \<Rightarrow> bool" where
  "valid_utf8 bs \<longleftrightarrow> (\<exists>cs. list_all scalar_value cs \<and> bs = encode_utf8 cs)"

text \<open>The automaton over numbers, to reason about both sides in arithmetic.\<close>

fun utf8_run :: "utf8_state \<Rightarrow> nat list \<Rightarrow> utf8_state option" where
  "utf8_run st [] = Some st"
| "utf8_run st (b # bs) = (case utf8_byte st b of None \<Rightarrow> None | Some st' \<Rightarrow> utf8_run st' bs)"

lemma utf8_feed_run: "utf8_feed st bs = utf8_run st (map unat bs)"
  by (induction st bs rule: utf8_feed.induct) (auto split: option.split)

text \<open>Between two characters the bounds do not matter.\<close>

abbreviation ready :: utf8_state where
  "ready \<equiv> \<lparr>u8_need = 0, u8_lo = 0x80, u8_hi = 0xBF\<rparr>"

lemma run_ascii: "c < 0x80 \<Longrightarrow> utf8_run ready (c # bs) = utf8_run ready bs"
  by (simp add: utf8_byte_def)

lemma run_two:
  "0xC2 \<le> a \<Longrightarrow> a \<le> 0xDF \<Longrightarrow> utf8_run ready (a # bs) = utf8_run \<lparr>u8_need = 1, u8_lo = 0x80, u8_hi = 0xBF\<rparr> bs"
  by (simp add: utf8_byte_def)

lemma run_last:
  "0x80 \<le> b \<Longrightarrow> b \<le> 0xBF \<Longrightarrow>
     utf8_run \<lparr>u8_need = 1, u8_lo = 0x80, u8_hi = 0xBF\<rparr> (b # bs) = utf8_run ready bs"
  by (simp add: utf8_byte_def)

lemma run_more:
  "lo \<le> b \<Longrightarrow> b \<le> hi \<Longrightarrow>
     utf8_run \<lparr>u8_need = Suc n, u8_lo = lo, u8_hi = hi\<rparr> (b # bs) =
       utf8_run \<lparr>u8_need = n, u8_lo = 0x80, u8_hi = 0xBF\<rparr> bs"
  by (simp add: utf8_byte_def)

lemma mod64_le: "(n::nat) mod 64 \<le> 63"
  using mod_less_divisor [of 64 n] by linarith

lemma digits64:
  "(c::nat) = c div 4096 * 4096 + c div 64 mod 64 * 64 + c mod 64"
  "(c::nat) = c div 262144 * 262144 + c div 4096 mod 64 * 4096 + c div 64 mod 64 * 64 + c mod 64"
proof -
  have a: "c = c div 64 * 64 + c mod 64" and b: "c div 64 = c div 64 div 64 * 64 + c div 64 mod 64"
    and d: "c div 64 div 64 = c div 64 div 64 div 64 * 64 + c div 64 div 64 mod 64" by simp_all
  have e: "c div 4096 = c div 64 div 64" "c div 262144 = c div 64 div 64 div 64" by (simp_all add: div_mult2_eq [symmetric])
  show "c = c div 4096 * 4096 + c div 64 mod 64 * 64 + c mod 64" unfolding e using a b by linarith
  show "c = c div 262144 * 262144 + c div 4096 mod 64 * 4096 + c div 64 mod 64 * 64 + c mod 64"
    unfolding e using a b d by linarith
qed

lemma run_encode_scalar:
  assumes "scalar_value c"
  shows "utf8_run ready (encode_scalar c @ bs) = utf8_run ready bs"
proof -
  consider "c < 0x80" | "0x80 \<le> c" "c < 0x800" | "0x800 \<le> c" "c < 0x10000" | "0x10000 \<le> c" by linarith
  then show ?thesis
  proof cases
    case 1
    then show ?thesis by (simp add: encode_scalar_def utf8_byte_def)
  next
    case 2
    have "0xC2 \<le> 0xC0 + c div 64" "0xC0 + c div 64 \<le> 0xDF" "c mod 64 \<le> 63" using 2 mod64_le [of c] by linarith+
    with 2 show ?thesis by (simp add: encode_scalar_def utf8_byte_def)
  next
    case 3
    define x y z where xyz: "x = c div 4096" "y = c div 64 mod 64" "z = c mod 64"
    have c: "c = x * 4096 + y * 64 + z" "y \<le> 63" "z \<le> 63" "x \<le> 15" unfolding xyz using 3 digits64(1) [of c] by (linarith, simp add: mod64_le, simp add: mod64_le, linarith)
    have e: "encode_scalar c = [0xE0 + x, 0x80 + y, 0x80 + z]" using 3 by (simp add: encode_scalar_def xyz)
    have lead: "x = 0 \<Longrightarrow> 32 \<le> y" using 3 c by linarith
    have surr: "x = 13 \<Longrightarrow> y \<le> 31" using assms 3 c unfolding scalar_value_def by linarith
    show ?thesis unfolding e using c(2-4) lead surr by (auto simp: utf8_byte_def)
  next
    case 4
    define w x y z where wxyz: "w = c div 262144" "x = c div 4096 mod 64" "y = c div 64 mod 64" "z = c mod 64"
    have c: "c = w * 262144 + x * 4096 + y * 64 + z" "x \<le> 63" "y \<le> 63" "z \<le> 63" unfolding wxyz using digits64(2) [of c] by (linarith, simp_all add: mod64_le)
    have e: "encode_scalar c = [0xF0 + w, 0x80 + x, 0x80 + y, 0x80 + z]" using 4 by (simp add: encode_scalar_def wxyz)
    have top: "c \<le> 0x10FFFF" using assms 4 unfolding scalar_value_def by linarith
    have lead: "w = 0 \<Longrightarrow> 16 \<le> x" using 4 c by linarith
    have high: "w \<le> 4" "w = 4 \<Longrightarrow> x \<le> 15" using top c by linarith+
    show ?thesis unfolding e using c(2-4) lead high by (auto simp: utf8_byte_def)
  qed
qed

lemma run_encode: "list_all scalar_value cs \<Longrightarrow> utf8_run ready (concat (map encode_scalar cs)) = Some ready"
  by (induction cs) (simp_all add: run_encode_scalar)

lemma run_need:
  assumes "utf8_run \<lparr>u8_need = Suc n, u8_lo = lo, u8_hi = hi\<rparr> ns = Some st" "u8_need st = 0"
  obtains b r where "ns = b # r" "lo \<le> b" "b \<le> hi" "utf8_run \<lparr>u8_need = n, u8_lo = 0x80, u8_hi = 0xBF\<rparr> r = Some st"
proof (cases ns)
  case (Cons b r)
  with assms that show ?thesis by (auto simp: utf8_byte_def split: if_splits)
qed (use assms in auto)

lemma lead_byte_cases:
  assumes "utf8_byte ready b = Some st"
  obtains "b < 0x80" "st = ready"
    | "0xC2 \<le> b" "b \<le> 0xDF" "st = \<lparr>u8_need = 1, u8_lo = 0x80, u8_hi = 0xBF\<rparr>"
    | lo hi where "0xE0 \<le> b" "b \<le> 0xEF" "st = \<lparr>u8_need = 2, u8_lo = lo, u8_hi = hi\<rparr>" "0x80 \<le> lo" "hi \<le> 0xBF"
        "b = 0xE0 \<Longrightarrow> 0xA0 \<le> lo" "b = 0xED \<Longrightarrow> hi \<le> 0x9F"
    | lo hi where "0xF0 \<le> b" "b \<le> 0xF4" "st = \<lparr>u8_need = 3, u8_lo = lo, u8_hi = hi\<rparr>" "0x80 \<le> lo" "hi \<le> 0xBF"
        "b = 0xF0 \<Longrightarrow> 0x90 \<le> lo" "b = 0xF4 \<Longrightarrow> hi \<le> 0x8F"
  using assms by (auto simp: utf8_byte_def split: if_splits)

lemma digit64: "(z::nat) \<le> 63 \<Longrightarrow> (k * 64 + z) div 64 = k \<and> (k * 64 + z) mod 64 = z"
  by simp

lemma div_4096: "(c::nat) div 4096 = c div 64 div 64" "(c::nat) div 262144 = c div 64 div 64 div 64"
  by (simp_all add: div_mult2_eq [symmetric])

lemma encode_two:
  assumes "0xC2 \<le> a" "a \<le> 0xDF" "0x80 \<le> b" "b \<le> 0xBF"
  shows "\<exists>c. scalar_value c \<and> encode_scalar c = [a, b]"
proof -
  define x y where d: "x = a - 0xC0" "y = b - 0x80"
  have xy: "a = 0xC0 + x" "b = 0x80 + y" using assms by (simp_all add: d)
  have r: "2 \<le> x" "x \<le> 31" "y \<le> 63" using assms xy by linarith+
  have "(x * 64 + y) div 64 = x" "(x * 64 + y) mod 64 = y" using digit64 [OF r(3)] by simp_all
  moreover have "\<not> x * 64 + y < 0x80" "x * 64 + y < 0x800" using r by linarith+
  ultimately have "encode_scalar (x * 64 + y) = [a, b]" "scalar_value (x * 64 + y)"
    by (simp_all add: encode_scalar_def scalar_value_def xy)
  then show ?thesis by blast
qed

lemma encode_three:
  assumes "0xE0 \<le> a" "a \<le> 0xEF" "0x80 \<le> b" "b \<le> 0xBF" "0x80 \<le> d" "d \<le> 0xBF"
    and "a = 0xE0 \<Longrightarrow> 0xA0 \<le> b" "a = 0xED \<Longrightarrow> b \<le> 0x9F"
  shows "\<exists>c. scalar_value c \<and> encode_scalar c = [a, b, d]"
proof -
  define x y z where xyz: "x = a - 0xE0" "y = b - 0x80" "z = d - 0x80"
  have e: "a = 0xE0 + x" "b = 0x80 + y" "d = 0x80 + z" using assms(1,3,5) by (simp_all add: xyz)
  have r: "x \<le> 15" "y \<le> 63" "z \<le> 63" "x = 0 \<Longrightarrow> 32 \<le> y" "x = 13 \<Longrightarrow> y \<le> 31"
    using assms e by linarith+
  define c where "c = x * 4096 + y * 64 + z"
  have cc: "c = (x * 64 + y) * 64 + z" by (simp add: c_def)
  have d: "c div 64 = x * 64 + y" "c mod 64 = z" using digit64 [OF r(3), of "x * 64 + y", folded cc] by blast+
  have d2: "c div 4096 = x" and d3: "c div 64 mod 64 = y" using digit64 [OF r(2), of x] by (simp_all add: div_4096 d)
  have "\<not> c < 0x800" "c < 0x10000" using r unfolding c_def by (cases "x = 0"; linarith)+
  then have "encode_scalar c = [a, b, d]" using d2 d3 d(2) by (simp add: encode_scalar_def e)
  moreover have "scalar_value c"
    using r unfolding scalar_value_def c_def by (cases "x \<le> 12"; cases "x = 13"; linarith)
  ultimately show ?thesis by blast
qed

lemma encode_four:
  assumes "0xF0 \<le> a" "a \<le> 0xF4" "0x80 \<le> b" "b \<le> 0xBF" "0x80 \<le> d" "d \<le> 0xBF" "0x80 \<le> e" "e \<le> 0xBF"
    and "a = 0xF0 \<Longrightarrow> 0x90 \<le> b" "a = 0xF4 \<Longrightarrow> b \<le> 0x8F"
  shows "\<exists>c. scalar_value c \<and> encode_scalar c = [a, b, d, e]"
proof -
  define w x y z where wxyz: "w = a - 0xF0" "x = b - 0x80" "y = d - 0x80" "z = e - 0x80"
  have e: "a = 0xF0 + w" "b = 0x80 + x" "d = 0x80 + y" "e = 0x80 + z" using assms(1,3,5,7) by (simp_all add: wxyz)
  have r: "w \<le> 4" "x \<le> 63" "y \<le> 63" "z \<le> 63" "w = 0 \<Longrightarrow> 16 \<le> x" "w = 4 \<Longrightarrow> x \<le> 15"
    using assms e by linarith+
  define c where "c = w * 262144 + x * 4096 + y * 64 + z"
  have cc: "c = ((w * 64 + x) * 64 + y) * 64 + z" by (simp add: c_def)
  have d: "c div 64 = (w * 64 + x) * 64 + y" "c mod 64 = z" using digit64 [OF r(4), of "(w * 64 + x) * 64 + y", folded cc] by blast+
  have d2: "c div 4096 = w * 64 + x" and d4: "c div 64 mod 64 = y"
    using digit64 [OF r(3), of "w * 64 + x"] by (simp_all only: div_4096 d)
  have d3: "c div 262144 = w" and d5: "c div 4096 mod 64 = x"
    using digit64 [OF r(2), of w] d2 by (simp_all only: div_4096)
  have "\<not> c < 0x10000" "c \<le> 0x10FFFF" using r unfolding c_def by (cases "w = 0"; cases "w = 4"; linarith)+
  then have "encode_scalar c = [a, b, d, e]" "scalar_value c"
    using d3 d4 d5 d(2) by (simp_all add: encode_scalar_def scalar_value_def e)
  then show ?thesis by blast
qed

lemma run_first_char:
  assumes "utf8_run ready (b # ns) = Some st" "u8_need st = 0"
  shows "\<exists>c r. scalar_value c \<and> b # ns = encode_scalar c @ r \<and> utf8_run ready r = Some st"
proof -
  obtain s1 where s1: "utf8_byte ready b = Some s1" "utf8_run s1 ns = Some st"
    using assms(1) by (auto split: option.splits)
  from s1(1) show ?thesis
  proof (cases rule: lead_byte_cases)
    case 1
    then have "scalar_value b" "encode_scalar b = [b]" by (simp_all add: scalar_value_def encode_scalar_def)
    with s1(2) 1 show ?thesis by (intro exI [of _ b] exI [of _ ns]) simp
  next
    case 2
    from s1(2) 2 run_need [of 0 "0x80" "0xBF" ns st] assms(2) obtain b1 r where
      r: "ns = b1 # r" "0x80 \<le> b1" "b1 \<le> 0xBF" "utf8_run ready r = Some st" by auto
    from encode_two [OF 2(1,2) r(2,3)] obtain c where "scalar_value c" "encode_scalar c = [b, b1]" by blast
    with r show ?thesis by (intro exI [of _ c] exI [of _ r]) simp
  next
    case (3 lo hi)
    from s1(2) 3 run_need [of 1 lo hi ns st] assms(2) obtain b1 r where
      r: "ns = b1 # r" "lo \<le> b1" "b1 \<le> hi" "utf8_run \<lparr>u8_need = 1, u8_lo = 0x80, u8_hi = 0xBF\<rparr> r = Some st"
      by (auto simp: numeral_2_eq_2)
    from r(4) run_need [of 0 "0x80" "0xBF" r st] assms(2) obtain b2 q where
      q: "r = b2 # q" "0x80 \<le> b2" "b2 \<le> 0xBF" "utf8_run ready q = Some st" by auto
    have "0x80 \<le> b1" "b1 \<le> 0xBF" "b = 0xE0 \<Longrightarrow> 0xA0 \<le> b1" "b = 0xED \<Longrightarrow> b1 \<le> 0x9F" using 3 r by auto
    from encode_three [OF 3(1,2) this(1,2) q(2,3) this(3,4)] obtain c
      where "scalar_value c" "encode_scalar c = [b, b1, b2]" by blast
    with r q show ?thesis by (intro exI [of _ c] exI [of _ q]) simp
  next
    case (4 lo hi)
    from s1(2) 4 run_need [of 2 lo hi ns st] assms(2) obtain b1 r where
      r: "ns = b1 # r" "lo \<le> b1" "b1 \<le> hi" "utf8_run \<lparr>u8_need = 2, u8_lo = 0x80, u8_hi = 0xBF\<rparr> r = Some st"
      by (auto simp: numeral_3_eq_3 numeral_2_eq_2)
    from r(4) run_need [of 1 "0x80" "0xBF" r st] assms(2) obtain b2 q where
      q: "r = b2 # q" "0x80 \<le> b2" "b2 \<le> 0xBF" "utf8_run \<lparr>u8_need = 1, u8_lo = 0x80, u8_hi = 0xBF\<rparr> q = Some st"
      by (auto simp: numeral_2_eq_2)
    from q(4) run_need [of 0 "0x80" "0xBF" q st] assms(2) obtain b3 p where
      p: "q = b3 # p" "0x80 \<le> b3" "b3 \<le> 0xBF" "utf8_run ready p = Some st" by auto
    have "0x80 \<le> b1" "b1 \<le> 0xBF" "b = 0xF0 \<Longrightarrow> 0x90 \<le> b1" "b = 0xF4 \<Longrightarrow> b1 \<le> 0x8F" using 4 r by auto
    from encode_four [OF 4(1,2) this(1,2) q(2,3) p(2,3) this(3,4)] obtain c
      where "scalar_value c" "encode_scalar c = [b, b1, b2, b3]" by blast
    with r q p show ?thesis by (intro exI [of _ c] exI [of _ p]) simp
  qed
qed

lemma run_decode:
  "utf8_run ready ns = Some st \<Longrightarrow> u8_need st = 0 \<Longrightarrow>
     \<exists>cs. list_all scalar_value cs \<and> ns = concat (map encode_scalar cs)"
proof (induction "length ns" arbitrary: ns rule: less_induct)
  case less
  show ?case
  proof (cases ns)
    case Nil
    then show ?thesis by (intro exI [of _ "[]"]) simp
  next
    case (Cons b bs)
    from run_first_char [of b bs st] less.prems Cons obtain c r where
      r: "scalar_value c" "ns = encode_scalar c @ r" "utf8_run ready r = Some st" by auto
    have "encode_scalar c \<noteq> []" by (simp add: encode_scalar_def)
    then have "length r < length ns" using r(2) by simp
    from less.hyps [OF this r(3) less.prems(2)] obtain cs where "list_all scalar_value cs" "r = concat (map encode_scalar cs)"
      by blast
    with r show ?thesis by (intro exI [of _ "c # cs"]) simp
  qed
qed

lemma encode_scalar_bytes: "scalar_value c \<Longrightarrow> list_all (\<lambda>b. b < 256) (encode_scalar c)"
proof -
  assume "scalar_value c"
  then have "c < 0x800 \<Longrightarrow> c div 64 < 32" "c < 0x10000 \<Longrightarrow> c div 4096 < 16" "c div 262144 < 5"
    unfolding scalar_value_def by linarith+
  moreover have "c mod 64 < 128" "c div 64 mod 64 < 128" "c div 4096 mod 64 < 128"
    by (rule less_trans [of _ 64]; simp)+
  ultimately show ?thesis by (auto simp: encode_scalar_def)
qed

lemma map_unat_of_nat: "list_all (\<lambda>b. b < 256) ns \<Longrightarrow> map unat (map of_nat ns :: bytes) = ns"
  by (induction ns) (simp_all add: unat_of_nat_byte)

lemma map_of_nat_unat: "map of_nat (map unat bs) = (bs :: bytes)"
  by (induction bs) simp_all

lemma unat_encode_utf8:
  "list_all scalar_value cs \<Longrightarrow> map unat (encode_utf8 cs) = concat (map encode_scalar cs)"
  unfolding encode_utf8_def
  by (rule map_unat_of_nat) (use encode_scalar_bytes in \<open>auto simp: list_all_iff\<close>)

lemma utf8_accepts_iff:
  "(\<exists>st. utf8_feed utf8_init bs = Some st \<and> utf8_done st) \<longleftrightarrow> valid_utf8 bs"
proof
  assume "\<exists>st. utf8_feed utf8_init bs = Some st \<and> utf8_done st"
  then obtain st where "utf8_run ready (map unat bs) = Some st" "u8_need st = 0"
    by (auto simp: utf8_feed_run utf8_init_def utf8_done_def)
  from run_decode [OF this] obtain cs where cs: "list_all scalar_value cs" "map unat bs = concat (map encode_scalar cs)"
    by blast
  have "bs = encode_utf8 cs"
    using map_of_nat_unat [of bs] unfolding cs(2) encode_utf8_def by simp
  with cs(1) show "valid_utf8 bs" by (auto simp: valid_utf8_def)
next
  assume "valid_utf8 bs"
  then obtain cs where "list_all scalar_value cs" "bs = encode_utf8 cs" by (auto simp: valid_utf8_def)
  then have "utf8_feed utf8_init bs = Some ready"
    using run_encode [of cs] by (simp add: utf8_feed_run unat_encode_utf8 utf8_init_def)
  then show "\<exists>st. utf8_feed utf8_init bs = Some st \<and> utf8_done st" by (simp add: utf8_done_def)
qed

text \<open>A state the automaton can be in, and bytes that complete the character it is in.\<close>

definition utf8_ok :: "utf8_state \<Rightarrow> bool" where
  "utf8_ok st \<longleftrightarrow> 0x80 \<le> u8_lo st \<and> u8_lo st \<le> u8_hi st \<and> u8_hi st \<le> 0xBF"

lemma utf8_ok_byte: "utf8_ok st \<Longrightarrow> utf8_byte st b = Some st' \<Longrightarrow> utf8_ok st'"
  by (auto simp: utf8_ok_def utf8_byte_def split: if_splits)

lemma utf8_ok_feed: "utf8_ok st \<Longrightarrow> utf8_feed st bs = Some st' \<Longrightarrow> utf8_ok st'"
  by (induction st bs rule: utf8_feed.induct) (auto dest: utf8_ok_byte split: option.splits)

lemma utf8_completable:
  "utf8_ok st \<Longrightarrow> \<exists>more st'. utf8_feed st more = Some st' \<and> utf8_done st'"
proof (induction "u8_need st" arbitrary: st)
  case 0
  then show ?case by (intro exI [of _ "[]"] exI [of _ st]) (simp add: utf8_done_def)
next
  case (Suc n)
  let ?st = "\<lparr>u8_need = n, u8_lo = 0x80, u8_hi = 0xBF\<rparr>"
  have b: "unat (of_nat (u8_lo st) :: byte) = u8_lo st" using Suc.prems by (simp add: utf8_ok_def unat_of_nat_byte)
  have "utf8_byte st (u8_lo st) = Some ?st"
    using Suc.prems Suc.hyps(2) [symmetric] by (simp add: utf8_byte_def utf8_ok_def)
  moreover obtain more st' where "utf8_feed ?st more = Some st'" "utf8_done st'"
    using Suc.hyps(1) [of ?st] by (auto simp: utf8_ok_def)
  ultimately show ?case by (intro exI [of _ "of_nat (u8_lo st) # more"] exI [of _ st']) (simp add: b)
qed

lemma utf8_feed_prefix_iff: "utf8_feed utf8_init bs = None \<longleftrightarrow> (\<forall>more. \<not> valid_utf8 (bs @ more))"
proof
  assume "utf8_feed utf8_init bs = None"
  then have "utf8_feed utf8_init (bs @ more) = None" for more by (simp add: utf8_feed_append)
  then show "\<forall>more. \<not> valid_utf8 (bs @ more)" by (simp flip: utf8_accepts_iff)
next
  assume no: "\<forall>more. \<not> valid_utf8 (bs @ more)"
  show "utf8_feed utf8_init bs = None"
  proof (rule ccontr)
    assume "utf8_feed utf8_init bs \<noteq> None"
    then obtain st where st: "utf8_feed utf8_init bs = Some st" by blast
    have "utf8_ok utf8_init" by (simp add: utf8_ok_def utf8_init_def)
    from utf8_completable [OF utf8_ok_feed [OF this st]] obtain more st' where
      "utf8_feed st more = Some st'" "utf8_done st'" by blast
    with st have "utf8_feed utf8_init (bs @ more) = Some st'" by (simp add: utf8_feed_append)
    with \<open>utf8_done st'\<close> no show False using utf8_accepts_iff [of "bs @ more"] by auto
  qed
qed

section \<open>Frame headers\<close>

text \<open>The bytes \<open>_send_frame\<close> writes: FIN and the opcode, the length in its shortest form, the data.\<close>

definition send_frame_bytes :: "bytes \<Rightarrow> nat \<Rightarrow> bytes" where
  "send_frame_bytes payload opcode =
     (let n = length payload in
      [of_nat (128 + opcode)]
      @ (if n < 126 then [of_nat n]
         else if n < 65536 then 126 # to_bytes 2 n
         else 127 # to_bytes 8 n)
      @ payload)"

section \<open>Properties\<close>

text \<open>Unmasking by one big-integer XOR per 16 KiB block is the octet-wise transformation of RFC 6455
  Sec. 5.3 for every payload, and applying it twice gives the payload back.\<close>

theorem unmask_is_octetwise:
  assumes "length key = 4"
  shows "unmask payload key = unmask_spec payload key \<and> unmask (unmask payload key) key = payload"
  using assms by (simp add: unmask_eq_spec unmask_spec_involution)

theorem unmask_is_octetwise_witness:
  "unmask [0x7f, 0x9f, 0x4d, 0x51, 0x58] [0x37, 0xfa, 0x21, 0x3d] = [0x48, 0x65, 0x6c, 0x6c, 0x6f]"
proof -
  have "unmask [0x7f, 0x9f, 0x4d, 0x51, 0x58] [0x37, 0xfa, 0x21, 0x3d]
      = unmask_spec [0x7f, 0x9f, 0x4d, 0x51, 0x58] [0x37, 0xfa, 0x21, 0x3d]"
    by (rule unmask_is_octetwise [THEN conjunct1]) simp
  also have "\<dots> = [0x48, 0x65, 0x6c, 0x6c, 0x6f]" by (simp add: unmask_spec_def upt_rec)
  finally show ?thesis .
qed

text \<open>The incremental validator decides exactly UTF-8: a text is accepted and complete if and only if
  it encodes a sequence of Unicode scalar values (no overlong form, no surrogate, nothing above
  U+10FFFF); a byte is rejected as soon as no continuation could be valid, and how the text is
  cut into fragments makes no difference.\<close>

theorem utf8_validator_exact:
  "((\<exists>st. utf8_feed utf8_init bs = Some st \<and> utf8_done st) \<longleftrightarrow> valid_utf8 bs)
   \<and> (utf8_feed utf8_init bs = None \<longleftrightarrow> (\<forall>more. \<not> valid_utf8 (bs @ more)))
   \<and> utf8_feed utf8_init (bs @ rest) =
       (case utf8_feed utf8_init bs of None \<Rightarrow> None | Some st \<Rightarrow> utf8_feed st rest)"
  by (intro conjI utf8_accepts_iff utf8_feed_prefix_iff utf8_feed_append)

end
