(* ===== verification/Web_Socket.thy ===== *)
theory Web_Socket
  imports Ws_Codec Py_Base
begin

text \<open>
  The built-in server's WebSocket over a raw transport (\<open>src/src/veloce/websocket.py\<close>): frame
  parsing, reassembly of fragmented messages, the close handshake, the heartbeat and the bounded
  receive queue. A connection is a record; an operation of the object returns it updated. The
  coroutine \<open>close\<close> is split at its await into \<open>close_begin\<close> and \<open>close_end\<close>. The transport
  accepts every write (the code suppresses its failures where it writes control frames) and keeps
  what was written as a list of frames; the write gate of the protocol is a function of it.
\<close>

section \<open>The connection\<close>

datatype received = Message bytes | Disconnected

record ws =
  ws_handshake_sent :: bool
  ws_handshake :: "string option"
  ws_subprotocol :: "string option"
  ws_accepted :: bool
  ws_closed :: bool
  ws_peer_closed :: bool
  ws_close_sent :: bool
  ws_peer_event :: "bool option"
  ws_frag_opcode :: "nat option"
  ws_frag_buffer :: bytes
  ws_validator :: "utf8_state option"
  ws_code :: "nat option"
  ws_reason :: bytes
  ws_buffer :: bytes
  ws_queue :: "received list"
  ws_maxsize :: nat
  ws_written :: "(nat \<times> bytes) list"
  ws_dropped :: bool
  ws_pending :: "bytes option"
  ws_heartbeat :: bool
  ws_handle :: bool
  ws_token :: "nat option"
  ws_next_token :: nat
  ws_saw_inbound :: bool

text \<open>\<open>__init__\<close> and \<open>_init_common\<close> (\<open>from_transport\<close> when the handshake was sent); \<open>heartbeat\<close> tells
  whether one is configured, and the reason of a close is kept in UTF-8.\<close>

definition default_maxsize :: nat where "default_maxsize = 64"

definition ws_init :: "bool \<Rightarrow> bool \<Rightarrow> nat option \<Rightarrow> ws" where
  "ws_init handshake_sent heartbeat maxsize =
     \<lparr>ws_handshake_sent = handshake_sent, ws_handshake = None, ws_subprotocol = None, ws_accepted = False, ws_closed = False, ws_peer_closed = False, ws_close_sent = False, ws_peer_event = None,
      ws_frag_opcode = None, ws_frag_buffer = [], ws_validator = None, ws_code = None, ws_reason = [],
      ws_buffer = [], ws_queue = [], 
      ws_maxsize = (case maxsize of None \<Rightarrow> default_maxsize | Some n \<Rightarrow> n), ws_written = [], ws_dropped = False,
      ws_pending = None, ws_heartbeat = heartbeat, ws_handle = False, ws_token = None, ws_next_token = 0,
      ws_saw_inbound = False\<rparr>"

definition max_frame_size :: nat where "max_frame_size = 16 * 1024 * 1024"
definition max_message_size :: nat where "max_message_size = 16 * 1024 * 1024"

definition start_heartbeat :: "ws \<Rightarrow> ws" where
  "start_heartbeat w =
     (if \<not> ws_heartbeat w \<or> ws_closed w then w
      else if ws_handle w then w else w\<lparr>ws_handle := True\<rparr>)"

text \<open>\<open>_send_frame\<close>; its bytes are \<open>send_frame_bytes\<close>.\<close>

definition send_frame :: "bytes \<Rightarrow> nat \<Rightarrow> ws \<Rightarrow> ws" where
  "send_frame payload opcode w = w\<lparr>ws_written := ws_written w @ [(opcode, payload)]\<rparr>"

text \<open>The bytes on the wire.\<close>

definition wire :: "ws \<Rightarrow> bytes" where
  "wire w = concat (map (\<lambda>(opcode, payload). send_frame_bytes payload opcode) (ws_written w))"

section \<open>Closing\<close>

text \<open>\<open>asyncio.Queue\<close>: a size of 0 means no bound.\<close>

definition queue_full :: "ws \<Rightarrow> bool" where
  "queue_full w \<longleftrightarrow> ws_maxsize w > 0 \<and> length (ws_queue w) \<ge> ws_maxsize w"

definition wake_receiver :: "ws \<Rightarrow> ws" where
  "wake_receiver w = (if queue_full w then w else w\<lparr>ws_queue := ws_queue w @ [Disconnected]\<rparr>)"

definition cancel_heartbeat :: "ws \<Rightarrow> ws" where
  "cancel_heartbeat w = w\<lparr>ws_handle := False, ws_token := None, ws_saw_inbound := False\<rparr>"

definition terminate_raw :: "nat \<Rightarrow> bool \<Rightarrow> ws \<Rightarrow> ws" where
  "terminate_raw cd record_code w =
     (let w1 = cancel_heartbeat (send_frame (to_bytes 2 cd) 8 w);
          w2 = (if record_code then w1\<lparr>ws_code := Some cd\<rparr> else w1);
          w3 = wake_receiver (w2\<lparr>ws_closed := True, ws_close_sent := True\<rparr>)
      in w3\<lparr>ws_dropped := True\<rparr>)"

definition close_control :: "nat \<Rightarrow> ws \<Rightarrow> ws" where
  "close_control cd w = terminate_raw cd True w"

definition close_too_big :: "ws \<Rightarrow> ws" where "close_too_big = close_control 1009"
definition close_protocol_error :: "ws \<Rightarrow> ws" where "close_protocol_error = close_control 1002"
definition close_invalid_payload :: "ws \<Rightarrow> ws" where "close_invalid_payload = close_control 1007"

definition echo_close :: "nat \<Rightarrow> ws \<Rightarrow> ws" where
  "echo_close cd w = terminate_raw cd False w"

definition peer_close_codes :: "nat list" where
  "peer_close_codes = [1000, 1001, 1002, 1003, 1007, 1008, 1009, 1010, 1011, 1012, 1013, 1014]"

definition bad_close_code :: "nat \<Rightarrow> bool" where
  "bad_close_code cd \<longleftrightarrow> cd > 4999 \<or> (cd < 3000 \<and> cd \<notin> set peer_close_codes)"

text \<open>\<open>bytes.decode("utf-8")\<close> succeeds exactly on UTF-8.\<close>

definition decodes :: "bytes \<Rightarrow> bool" where
  "decodes bs \<longleftrightarrow> (case utf8_feed utf8_init bs of None \<Rightarrow> False | Some st \<Rightarrow> utf8_done st)"

definition handle_close_frame :: "bytes \<Rightarrow> ws \<Rightarrow> ws" where
  "handle_close_frame payload w =
     (if length payload = 0 then echo_close 1000 (w\<lparr>ws_code := Some 1005\<rparr>)
      else if length payload = 1 then close_protocol_error w
      else
        (let cd = from_bytes (take 2 payload) in
         if bad_close_code cd then close_protocol_error w
         else if \<not> decodes (drop 2 payload) then close_invalid_payload w
         else echo_close cd (w\<lparr>ws_code := Some cd, ws_reason := drop 2 payload\<rparr>)))"

definition enqueue_or_close :: "bytes \<Rightarrow> ws \<Rightarrow> ws" where
  "enqueue_or_close payload w =
     (if queue_full w then close_too_big w else w\<lparr>ws_queue := ws_queue w @ [Message payload]\<rparr>)"

section \<open>Frames\<close>

text \<open>The first part of \<open>_parse_frame\<close>: what the bytes from \<open>start\<close> hold, before any effect.\<close>

datatype parsed =
    Incomplete
  | Violation nat
  | Frame bool nat bytes nat

definition frame_payload :: "bool \<Rightarrow> nat \<Rightarrow> nat \<Rightarrow> nat \<Rightarrow> bytes \<Rightarrow> parsed" where
  "frame_payload fin opcode payload_len offset buf =
     (if payload_len > max_frame_size then Violation 1009
      else if opcode \<in> {8, 9, 10} \<and> (payload_len > 125 \<or> \<not> fin) then Violation 1002
      else if length buf < offset + 4 then Incomplete
      else
        (let mask = take 4 (drop offset buf);
             frame_len = offset + 4 + payload_len in
         if length buf < frame_len then Incomplete
         else
           (let payload = take payload_len (drop (offset + 4) buf) in
            Frame fin opcode (if payload_len > 0 then unmask payload mask else payload) frame_len)))"

text \<open>The length field: 7 bits, or 16 or 64 bits that follow.\<close>

definition frame_extended :: "bool \<Rightarrow> nat \<Rightarrow> nat \<Rightarrow> bytes \<Rightarrow> parsed" where
  "frame_extended fin opcode payload_len buf =
     (if payload_len = 126 then
        (if length buf < 4 then Incomplete
         else frame_payload fin opcode (from_bytes (take 2 (drop 2 buf))) 4 buf)
      else if payload_len = 127 then
        (if length buf < 10 then Incomplete
         else frame_payload fin opcode (from_bytes (take 8 (drop 2 buf))) 10 buf)
      else frame_payload fin opcode payload_len 2 buf)"

text \<open>The bits of the first two bytes: FIN, RSV1-3 and the opcode; MASK and the 7-bit length.\<close>

definition frame_of :: "bytes \<Rightarrow> parsed" where
  "frame_of buf =
     (if length buf < 2 then Incomplete
      else
        (let b0 = unat (buf ! 0);
             b1 = unat (buf ! 1);
             fin = (b0 div 128 = 1);
             opcode = b0 mod 16;
             masked = (b1 div 128 = 1);
             payload_len = b1 mod 128 in
         if b0 mod 128 div 16 \<noteq> 0 then Violation 1002
         else if \<not> masked then Violation 1002
         else frame_extended fin opcode payload_len buf))"

text \<open>The bytes a frame took (\<open>0\<close> when nothing was), or the exception that left the parser.\<close>

datatype frame_step = Took nat | Raised_Disconnect nat

definition feed_validator :: "utf8_state option \<Rightarrow> bytes \<Rightarrow> utf8_state option option" where
  "feed_validator v payload =
     (case v of None \<Rightarrow> Some None
      | Some st \<Rightarrow> (case utf8_feed st payload of None \<Rightarrow> None | Some st' \<Rightarrow> Some (Some st')))"

definition validator_done :: "utf8_state option \<Rightarrow> bool" where
  "validator_done v = (case v of None \<Rightarrow> True | Some st \<Rightarrow> utf8_done st)"

definition reset_fragments :: "ws \<Rightarrow> ws" where
  "reset_fragments w = w\<lparr>ws_frag_opcode := None, ws_frag_buffer := [], ws_validator := None\<rparr>"

definition open_message :: "bool \<Rightarrow> nat \<Rightarrow> bytes \<Rightarrow> nat \<Rightarrow> ws \<Rightarrow> frame_step \<times> ws" where
  "open_message fin opcode payload frame_len w =
     (if ws_frag_opcode w \<noteq> None then (Took 0, close_protocol_error w)
      else
        (case feed_validator (if opcode = 1 then Some utf8_init else None) payload of
           None \<Rightarrow> (Took 0, close_invalid_payload w)
         | Some v \<Rightarrow>
             if fin then
               (if \<not> validator_done v then (Took 0, close_invalid_payload w)
                else (Took frame_len, enqueue_or_close payload (reset_fragments w)))
             else
               (let w1 = w\<lparr>ws_frag_opcode := Some opcode, ws_frag_buffer := payload, ws_validator := v\<rparr> in
                if length payload > max_message_size then (Took 0, close_too_big w1) else (Took frame_len, w1))))"

definition continue_message :: "bool \<Rightarrow> bytes \<Rightarrow> nat \<Rightarrow> ws \<Rightarrow> frame_step \<times> ws" where
  "continue_message fin payload frame_len w =
     (if ws_frag_opcode w = None then (Took 0, close_protocol_error w)
      else
        (case feed_validator (ws_validator w) payload of
           None \<Rightarrow> (Took 0, close_invalid_payload w)
         | Some v \<Rightarrow>
             (let w1 = w\<lparr>ws_validator := v, ws_frag_buffer := ws_frag_buffer w @ payload\<rparr> in
              if length (ws_frag_buffer w1) > max_message_size then (Took 0, close_too_big w1)
              else if fin then
                (if \<not> validator_done v then (Took 0, close_invalid_payload w1)
                 else (Took frame_len, reset_fragments (enqueue_or_close (ws_frag_buffer w1) w1)))
              else (Took frame_len, w1))))"

text \<open>\<open>close_code or WS_1000_NORMAL_CLOSURE\<close>.\<close>

definition disconnect_code :: "ws \<Rightarrow> nat" where
  "disconnect_code w = (case ws_code w of None \<Rightarrow> 1000 | Some c \<Rightarrow> if c = 0 then 1000 else c)"

definition note_peer_close :: "ws \<Rightarrow> ws" where
  "note_peer_close w = w\<lparr>ws_peer_closed := True, ws_peer_event := map_option (\<lambda>_. True) (ws_peer_event w)\<rparr>"

text \<open>The second part of \<open>_parse_frame\<close>: what a whole frame does.\<close>

definition apply_frame ::
  "((nat \<times> bytes) list \<Rightarrow> bool) \<Rightarrow> bool \<Rightarrow> nat \<Rightarrow> bytes \<Rightarrow> nat \<Rightarrow> ws \<Rightarrow> frame_step \<times> ws" where
  "apply_frame gate fin opcode payload frame_len w =
     (if opcode = 8 then
        (let w2 = handle_close_frame payload (note_peer_close w) in
         (Raised_Disconnect (disconnect_code w2), w2))
      else if opcode = 9 then
        (Took frame_len,
         if gate (ws_written w) then send_frame payload 10 w else w\<lparr>ws_pending := Some payload\<rparr>)
      else if opcode = 10 then
        (Took frame_len,
         (case ws_token w of None \<Rightarrow> w
          | Some tok \<Rightarrow> if payload = to_bytes 4 tok then w\<lparr>ws_token := None\<rparr> else w))
      else if opcode = 1 \<or> opcode = 2 then open_message fin opcode payload frame_len w
      else if opcode = 0 then continue_message fin payload frame_len w
      else (Took frame_len, w))"

definition parse_frame :: "((nat \<times> bytes) list \<Rightarrow> bool) \<Rightarrow> nat \<Rightarrow> ws \<Rightarrow> frame_step \<times> ws" where
  "parse_frame gate start w =
     (case frame_of (drop start (ws_buffer w)) of
        Incomplete \<Rightarrow> (Took 0, w)
      | Violation cd \<Rightarrow> (Took 0, close_control cd w)
      | Frame fin opcode payload frame_len \<Rightarrow> apply_frame gate fin opcode payload frame_len w)"

section \<open>Feeding bytes\<close>

definition note_inbound :: "ws \<Rightarrow> ws" where
  "note_inbound w = (if ws_heartbeat w \<and> ws_handle w then w\<lparr>ws_saw_inbound := True\<rparr> else w)"

lemma buffer_send_frame [simp]: "ws_buffer (send_frame p o' w) = ws_buffer w"
  by (simp add: send_frame_def)

lemma buffer_terminate [simp]: "ws_buffer (terminate_raw cd r w) = ws_buffer w"
  by (simp add: terminate_raw_def Let_def cancel_heartbeat_def wake_receiver_def)

lemma buffer_close [simp]:
  "ws_buffer (close_control cd w) = ws_buffer w" "ws_buffer (close_too_big w) = ws_buffer w"
  "ws_buffer (close_protocol_error w) = ws_buffer w" "ws_buffer (close_invalid_payload w) = ws_buffer w"
  "ws_buffer (echo_close cd w) = ws_buffer w" "ws_buffer (handle_close_frame p w) = ws_buffer w"
  by (simp_all add: close_control_def close_too_big_def close_protocol_error_def close_invalid_payload_def
      echo_close_def handle_close_frame_def Let_def)

lemma buffer_enqueue [simp]: "ws_buffer (enqueue_or_close p w) = ws_buffer w"
  by (simp add: enqueue_or_close_def)

lemma buffer_reset [simp]: "ws_buffer (reset_fragments w) = ws_buffer w"
  by (simp add: reset_fragments_def)

lemma buffer_peer_close [simp]: "ws_buffer (note_peer_close w) = ws_buffer w"
  by (simp add: note_peer_close_def)

lemma buffer_open: "ws_buffer (snd (open_message fin opc p n w)) = ws_buffer w"
  by (simp add: open_message_def Let_def split: option.split)

lemma buffer_continue: "ws_buffer (snd (continue_message fin p n w)) = ws_buffer w"
  by (simp add: continue_message_def Let_def split: option.split)

lemma buffer_apply: "ws_buffer (snd (apply_frame gate fin opc p n w)) = ws_buffer w"
  by (simp add: apply_frame_def Let_def buffer_open buffer_continue split: option.split)

lemma took_open: "fst (open_message fin opc p n w) \<in> {Took 0, Took n}"
  by (simp add: open_message_def Let_def split: option.split)

lemma took_continue: "fst (continue_message fin p n w) \<in> {Took 0, Took n}"
  by (simp add: continue_message_def Let_def split: option.split)

lemma took_apply: "fst (apply_frame gate fin opc p n w) = Took k \<Longrightarrow> k = 0 \<or> k = n"
  using took_open [of fin opc p n w] took_continue [of fin p n w]
  by (auto simp: apply_frame_def Let_def split: if_splits)

lemma frame_payload_length:
  "frame_payload fin opc len offset buf = Frame f o' p n \<Longrightarrow> n = offset + 4 + len \<and> n \<le> length buf"
  by (simp add: frame_payload_def Let_def split: if_splits)

lemma frame_of_length: "frame_of buf = Frame f o' p n \<Longrightarrow> 6 \<le> n \<and> n \<le> length buf"
  by (auto simp: frame_of_def frame_extended_def Let_def split: if_splits dest!: frame_payload_length)

lemma parse_frame_buffer: "parse_frame gate start w = (r, w') \<Longrightarrow> ws_buffer w' = ws_buffer w"
  using buffer_apply by (auto simp: parse_frame_def split: parsed.splits) (metis snd_conv)

lemma parse_frame_took:
  assumes "parse_frame gate start w = (Took k, w')" "k \<noteq> 0"
  shows "6 \<le> k \<and> k \<le> length (ws_buffer w) - start"
proof -
  obtain fin opc p n where f: "frame_of (drop start (ws_buffer w)) = Frame fin opc p n"
    "apply_frame gate fin opc p n w = (Took k, w')"
    using assms by (auto simp: parse_frame_def split: parsed.splits)
  then have "k = n" using took_apply [of gate fin opc p n w k] assms(2) by simp
  with frame_of_length [OF f(1)] show ?thesis by simp
qed

text \<open>The loop of \<open>feed_data\<close>: the exception that left it, the position reached and the connection.\<close>

function feed_loop :: "((nat \<times> bytes) list \<Rightarrow> bool) \<Rightarrow> nat \<Rightarrow> ws \<Rightarrow> nat option \<times> nat \<times> ws" where
  "feed_loop gate pos w =
     (if ws_closed w then (None, pos, w)
      else
        (case parse_frame gate pos w of
           (Raised_Disconnect cd, w') \<Rightarrow> (Some cd, pos, w')
         | (Took k, w') \<Rightarrow> if k = 0 then (None, pos, w') else feed_loop gate (pos + k) w'))"
  by pat_completeness auto
termination
proof (relation "measure (\<lambda>(gate, pos, w). length (ws_buffer w) - pos)", simp, goal_cases)
  case (1 gate pos w st w' k)
  then have "parse_frame gate pos w = (Took k, w')" by simp
  from parse_frame_took [OF this 1(4)] parse_frame_buffer [OF this] show ?case by auto
qed

declare feed_loop.simps [simp del]

definition feed_data :: "((nat \<times> bytes) list \<Rightarrow> bool) \<Rightarrow> bytes \<Rightarrow> ws \<Rightarrow> nat option \<times> ws" where
  "feed_data gate data w =
     (if data = [] then (None, w)
      else
        (let w1 = note_inbound w in
         case feed_loop gate 0 (w1\<lparr>ws_buffer := ws_buffer w1 @ data\<rparr>) of
           (r, pos, w2) \<Rightarrow> (r, w2\<lparr>ws_buffer := drop pos (ws_buffer w2)\<rparr>)))"

section \<open>The other operations\<close>

datatype ws_error = Runtime_Error | Value_Error | Disconnect nat

definition accept_response :: "string \<Rightarrow> string option \<Rightarrow> (string \<times> string) list option \<Rightarrow> string" where
  "accept_response accept_key subprotocol headers =
     (let crlf = [CHR 0x0D, CHR 0x0A];
          lines = [''HTTP/1.1 101 Switching Protocols'', ''Upgrade: websocket'', ''Connection: Upgrade'',
                   ''Sec-WebSocket-Accept: '' @ accept_key]
            @ (case subprotocol of None \<Rightarrow> [] | Some p \<Rightarrow> if p = [] then [] else [''Sec-WebSocket-Protocol: '' @ p])
            @ (case headers of None \<Rightarrow> [] | Some hs \<Rightarrow> map (\<lambda>(k, v). k @ '': '' @ v) hs)
      in concat (map (\<lambda>l. l @ crlf) lines) @ crlf)"

text \<open>\<open>accept\<close> on a raw transport; \<open>accept_key\<close> is \<open>compute_accept\<close> of the client's key.\<close>

definition accept ::
  "string \<Rightarrow> string option \<Rightarrow> (string \<times> string) list option \<Rightarrow> ws \<Rightarrow> ws_error option \<times> ws" where
  "accept accept_key subprotocol headers w =
     (if ws_accepted w \<or> ws_closed w then (Some Runtime_Error, w)
      else if (case subprotocol of None \<Rightarrow> False | Some p \<Rightarrow> header_value_has_crlf p)
           \<or> (case headers of None \<Rightarrow> False
              | Some hs \<Rightarrow> list_ex (\<lambda>(k, v). header_value_has_crlf k \<or> header_value_has_crlf v) hs)
        then (Some Value_Error, w)
      else if ws_handshake_sent w then
        (if subprotocol \<noteq> None \<or> headers \<noteq> None then (Some Runtime_Error, w) else (None, w\<lparr>ws_accepted := True\<rparr>))
      else
        (None, start_heartbeat
           (w\<lparr>ws_handshake := Some (accept_response accept_key subprotocol headers),
              ws_subprotocol := subprotocol, ws_accepted := True\<rparr>)))"

text \<open>\<open>send_text\<close> and \<open>send_bytes\<close> check the state, wait for the transport, and write.\<close>

definition send_check :: "ws \<Rightarrow> ws_error option" where
  "send_check w =
     (if \<not> ws_accepted w then Some Runtime_Error else if ws_closed w then Some (Disconnect 1000) else None)"

definition raw_send :: "bytes \<Rightarrow> nat \<Rightarrow> ws \<Rightarrow> ws" where
  "raw_send payload opcode w = send_frame payload opcode w"

text \<open>A receive checks the state and takes from the queue, where it parks when the queue is empty;
  \<open>take_message\<close> is what it does when it gets its item, at once or later.\<close>

definition check_can_receive :: "ws \<Rightarrow> ws_error option" where
  "check_can_receive w =
     (if \<not> ws_accepted w then Some Runtime_Error
      else if ws_closed w then Some (Disconnect (disconnect_code w)) else None)"

datatype got = Parked | Failed_With ws_error | Got bytes

definition take_message :: "ws \<Rightarrow> got \<times> ws" where
  "take_message w =
     (case ws_queue w of
        [] \<Rightarrow> (Parked, w)
      | Message m # q \<Rightarrow> (Got m, w\<lparr>ws_queue := q\<rparr>)
      | Disconnected # q \<Rightarrow> (Failed_With (Disconnect (disconnect_code w)), w\<lparr>ws_queue := q\<rparr>))"

definition receive_raw :: "ws \<Rightarrow> got \<times> ws" where
  "receive_raw w = (case check_can_receive w of Some e \<Rightarrow> (Failed_With e, w) | None \<Rightarrow> take_message w)"

definition flush_pending_pong :: "ws \<Rightarrow> ws" where
  "flush_pending_pong w =
     (case ws_pending w of None \<Rightarrow> w\<lparr>ws_pending := None\<rparr>
      | Some p \<Rightarrow> send_frame p 10 (w\<lparr>ws_pending := None\<rparr>))"

text \<open>\<open>_sanitise_close\<close>; the reason is UTF-8 and the code any integer.\<close>

fun walk_back :: "bytes \<Rightarrow> bytes" where
  "walk_back [] = []"
| "walk_back (b # bs) = (if decodes (b # bs) then b # bs else walk_back (butlast (b # bs)))"

definition sanitise_close :: "int \<Rightarrow> bytes \<Rightarrow> nat \<times> bytes" where
  "sanitise_close cd reason =
     (let c = (if cd < 0 \<or> bad_close_code (nat cd) then 1000 else nat cd) in
      (c, if reason = [] then [] else if length reason \<le> 123 then reason else walk_back (take 123 reason)))"

text \<open>\<open>close\<close> up to its await, and after it; whether it waits is the first component.\<close>

definition close_begin :: "int \<Rightarrow> bytes \<Rightarrow> ws \<Rightarrow> bool \<times> ws" where
  "close_begin cd reason w =
     (if ws_close_sent w then (False, w)
      else
        (let (c, r) = sanitise_close cd reason;
             peer_started = ws_peer_closed w;
             w1 = cancel_heartbeat (w\<lparr>ws_closed := True, ws_close_sent := True\<rparr>);
             w2 = (if peer_started then w1 else w1\<lparr>ws_peer_event := Some False\<rparr>);
             w3 = send_frame (to_bytes 2 c @ r) 8 w2
         in if \<not> peer_started then (True, w3) else (False, w3\<lparr>ws_dropped := True\<rparr>)))"

text \<open>The wait ends at once when the event is set, and at the timeout when it is not.\<close>

definition close_ready :: "ws \<Rightarrow> bool" where
  "close_ready w \<longleftrightarrow> ws_peer_event w = Some True"

definition close_end :: "ws \<Rightarrow> ws" where
  "close_end w = w\<lparr>ws_dropped := True\<rparr>"

section \<open>The heartbeat\<close>

definition close_heartbeat_timeout :: "ws \<Rightarrow> ws" where
  "close_heartbeat_timeout w =
     (wake_receiver ((cancel_heartbeat w)\<lparr>ws_closed := True, ws_code := Some 1006\<rparr>))\<lparr>ws_dropped := True\<rparr>"

definition heartbeat_tick :: "ws \<Rightarrow> ws" where
  "heartbeat_tick w0 =
     (let w = w0\<lparr>ws_handle := False\<rparr> in
      if ws_closed w then w
      else if ws_saw_inbound w then w\<lparr>ws_saw_inbound := False, ws_token := None, ws_handle := True\<rparr>
      else if ws_token w \<noteq> None then close_heartbeat_timeout w
      else
        (let tok = ws_next_token w in
         (send_frame (to_bytes 4 tok) 9
            (w\<lparr>ws_next_token := (tok + 1) mod 2 ^ 32, ws_token := Some tok\<rparr>))\<lparr>ws_handle := True\<rparr>))"

end
