(* ===== verification/Ws_Feed.thy ===== *)
theory Ws_Feed
  imports Web_Socket
begin

text \<open>
  Feeding bytes to a WebSocket: the loop of \<open>feed_data\<close> over positions in the receive buffer is a
  run over the bytes that are left, which makes the way the transport cuts the stream irrelevant,
  and a message that a client cuts into fragments, with pings between them, is delivered whole.
\<close>

section \<open>The bytes that are left\<close>

text \<open>What the loop does, as a function of the bytes from the current position on.\<close>

function run :: "((nat \<times> bytes) list \<Rightarrow> bool) \<Rightarrow> bytes \<Rightarrow> ws \<Rightarrow> nat option \<times> bytes \<times> ws" where
  "run gate bs w =
     (if ws_closed w then (None, bs, w)
      else
        (case frame_of bs of
           Incomplete \<Rightarrow> (None, bs, w)
         | Violation cd \<Rightarrow> (None, bs, close_control cd w)
         | Frame fin opcode payload n \<Rightarrow>
             (case apply_frame gate fin opcode payload n w of
                (Raised_Disconnect cd, w') \<Rightarrow> (Some cd, bs, w')
              | (Took k, w') \<Rightarrow> if k = 0 then (None, bs, w') else run gate (drop k bs) w')))"
  by pat_completeness auto
termination
proof (relation "measure (\<lambda>(gate, bs, w). length bs)", simp, goal_cases)
  case (1 gate bs w fin opcode payload n st w' k)
  then have "frame_of bs = Frame fin opcode payload n" "fst (apply_frame gate fin opcode payload n w) = Took k"
    by (simp_all add: prod_eq_iff)
  moreover from took_apply [OF this(2)] 1 have "k = n" by auto
  ultimately show ?case using frame_of_length [of bs] 1 by fastforce
qed

declare run.simps [simp del]

lemma run_closed: "ws_closed w \<Longrightarrow> run gate bs w = (None, bs, w)"
  by (subst run.simps) simp

lemma run_open:
  "\<not> ws_closed w \<Longrightarrow> run gate bs w =
     (case frame_of bs of
        Incomplete \<Rightarrow> (None, bs, w)
      | Violation cd \<Rightarrow> (None, bs, close_control cd w)
      | Frame fin opcode payload n \<Rightarrow>
          (case apply_frame gate fin opcode payload n w of
             (Raised_Disconnect cd, w') \<Rightarrow> (Some cd, bs, w')
           | (Took k, w') \<Rightarrow> if k = 0 then (None, bs, w') else run gate (drop k bs) w'))"
  by (subst run.simps) simp

lemma feed_loop_run:
  "feed_loop gate pos w = (r, pos', w') \<Longrightarrow>
     run gate (drop pos (ws_buffer w)) w = (r, drop pos' (ws_buffer w), w')"
proof (induction gate pos w arbitrary: r pos' w' rule: feed_loop.induct)
  case (1 gate pos w)
  show ?case
  proof (cases "ws_closed w")
    case True
    with 1(2) show ?thesis by (auto simp: feed_loop.simps [of gate pos] run_closed run_open)
  next
    case False
    show ?thesis
    proof (cases "frame_of (drop pos (ws_buffer w))")
      case (Frame fin opcode payload n)
      obtain st u where a: "apply_frame gate fin opcode payload n w = (st, u)" by fastforce
      with Frame have p: "parse_frame gate pos w = (st, u)" by (simp add: parse_frame_def)
      show ?thesis
      proof (cases st)
        case (Raised_Disconnect cd)
        with 1(2) False Frame a p show ?thesis
          by (auto simp: feed_loop.simps [of gate pos] run_closed run_open)
      next
        case (Took k)
        show ?thesis
        proof (cases "k = 0")
          case True
          with Took 1(2) False Frame a p show ?thesis
            by (auto simp: feed_loop.simps [of gate pos] run_closed run_open)
        next
          case k: False
          have "feed_loop gate (pos + k) u = (r, pos', w')"
            using 1(2) False p Took k by (simp add: feed_loop.simps [of gate pos])
          from 1(1) [OF False p [symmetric] Took k this]
          have "run gate (drop (pos + k) (ws_buffer u)) u = (r, drop pos' (ws_buffer u), w')" .
          moreover have "ws_buffer u = ws_buffer w" by (rule parse_frame_buffer [OF p])
          ultimately show ?thesis using False Frame a Took k
            by (simp add: run_open add.commute)
        qed
      qed
    qed (use 1(2) False in \<open>simp_all add: feed_loop.simps [of gate pos] run_open parse_frame_def\<close>)
  qed
qed

text \<open>The receive buffer plays no part in what a frame does.\<close>

abbreviation with_buffer :: "bytes \<Rightarrow> ws \<Rightarrow> ws" where
  "with_buffer x w \<equiv> w\<lparr>ws_buffer := x\<rparr>"

lemmas ws_closing = close_too_big_def close_protocol_error_def close_invalid_payload_def close_control_def
  echo_close_def terminate_raw_def cancel_heartbeat_def wake_receiver_def queue_full_def send_frame_def

lemma open_with_buffer:
  "open_message fin opc p n (with_buffer x w) = apsnd (with_buffer x) (open_message fin opc p n w)"
  by (cases "feed_validator (if opc = 1 then Some utf8_init else None) p")
    (simp_all add: open_message_def Let_def enqueue_or_close_def reset_fragments_def ws_closing)

lemma continue_with_buffer:
  "continue_message fin p n (with_buffer x w) = apsnd (with_buffer x) (continue_message fin p n w)"
  by (cases "feed_validator (ws_validator w) p")
    (simp_all add: continue_message_def Let_def enqueue_or_close_def reset_fragments_def ws_closing)

lemma handle_close_with_buffer:
  "handle_close_frame p (with_buffer x w) = with_buffer x (handle_close_frame p w)"
  by (simp add: handle_close_frame_def Let_def ws_closing)

lemma disconnect_with_buffer: "disconnect_code (with_buffer x w) = disconnect_code w"
  by (simp add: disconnect_code_def)

lemma peer_close_with_buffer: "note_peer_close (with_buffer x w) = with_buffer x (note_peer_close w)"
  by (simp add: note_peer_close_def)

lemma apply_with_buffer:
  "apply_frame gate fin opc p n (with_buffer x w) = apsnd (with_buffer x) (apply_frame gate fin opc p n w)"
proof (cases "opc = 8")
  case True
  then show ?thesis
    by (simp add: apply_frame_def handle_close_with_buffer disconnect_with_buffer peer_close_with_buffer Let_def)
next
  case False
  then show ?thesis
    by (simp add: apply_frame_def open_with_buffer continue_with_buffer send_frame_def split: option.split)
qed

lemma close_control_with_buffer: "close_control cd (with_buffer x w) = with_buffer x (close_control cd w)"
  by (simp add: ws_closing Let_def)

lemma run_with_buffer:
  "run gate bs (with_buffer x w) = (case run gate bs w of (r, rest, w') \<Rightarrow> (r, rest, with_buffer x w'))"
proof (induction gate bs w rule: run.induct)
  case (1 gate bs w)
  show ?case
  proof (cases "ws_closed w")
    case False
    show ?thesis
    proof (cases "frame_of bs")
      case (Frame fin opcode payload n)
      obtain st u where a: "apply_frame gate fin opcode payload n w = (st, u)" by fastforce
      then show ?thesis
        using False Frame 1(1) [OF False Frame a [symmetric]]
        by (cases st) (simp_all add: run_open apply_with_buffer)
    qed (use False in \<open>simp_all add: run_open close_control_with_buffer\<close>)
  qed (simp add: run_closed)
qed

lemma close_closed [simp]: "ws_closed (close_control cd w)"
  by (simp add: ws_closing Let_def)

lemma close_kinds_closed [simp]:
  "ws_closed (close_too_big w)" "ws_closed (close_protocol_error w)" "ws_closed (close_invalid_payload w)"
  "ws_closed (echo_close cd w)"
  by (simp_all add: ws_closing Let_def)

lemma open_zero: "open_message fin opc p n w = (Took 0, w') \<Longrightarrow> n > 0 \<Longrightarrow> ws_closed w'"
  by (cases "feed_validator (if opc = 1 then Some utf8_init else None) p")
    (auto simp: open_message_def Let_def split: if_splits)

lemma continue_zero: "continue_message fin p n w = (Took 0, w') \<Longrightarrow> n > 0 \<Longrightarrow> ws_closed w'"
  by (cases "feed_validator (ws_validator w) p") (auto simp: continue_message_def Let_def split: if_splits)

lemma took_zero_closed:
  assumes "apply_frame gate fin opc p n w = (Took 0, w')" "n > 0"
  shows "ws_closed w'"
  using assms open_zero [of fin opc p n w w'] continue_zero [of fin p n w w']
  by (simp add: apply_frame_def Let_def split: if_splits)

section \<open>The way the stream is cut\<close>

lemma frame_payload_append:
  assumes "frame_payload fin opc len offset bs \<noteq> Incomplete"
  shows "frame_payload fin opc len offset (bs @ later) = frame_payload fin opc len offset bs"
proof -
  have "len > max_frame_size \<or> (opc \<in> {8, 9, 10} \<and> (len > 125 \<or> \<not> fin)) \<or> offset + 4 + len \<le> length bs"
    using assms by (simp add: frame_payload_def Let_def split: if_splits)
  then show ?thesis by (auto simp: frame_payload_def Let_def)
qed

lemma frame_extended_append:
  assumes "frame_extended fin opc len bs \<noteq> Incomplete"
  shows "frame_extended fin opc len (bs @ later) = frame_extended fin opc len bs"
proof -
  have "take 2 (drop 2 (bs @ later)) = take 2 (drop 2 bs)" if "4 \<le> length bs" using that by simp
  moreover have "take 8 (drop 2 (bs @ later)) = take 8 (drop 2 bs)" if "10 \<le> length bs" using that by simp
  ultimately show ?thesis using assms by (auto simp: frame_extended_def frame_payload_append split: if_splits)
qed

lemma frame_of_append:
  assumes "frame_of bs \<noteq> Incomplete"
  shows "frame_of (bs @ later) = frame_of bs"
proof -
  have two: "2 \<le> length bs" using assms by (rule contrapos_np) (simp add: frame_of_def)
  have at: "(bs @ later) ! 0 = bs ! 0" "(bs @ later) ! 1 = bs ! 1" using two by (auto simp: nth_append)
  show ?thesis using two assms unfolding frame_of_def [of bs] frame_of_def [of "bs @ later"] Let_def at
    by (auto simp: frame_extended_append)
qed

lemma run_append:
  "run gate (bs @ later) w =
     (case run gate bs w of
        (Some cd, rest, w') \<Rightarrow> (Some cd, rest @ later, w')
      | (None, rest, w') \<Rightarrow> run gate (rest @ later) w')"
proof (induction gate bs w rule: run.induct)
  case (1 gate bs w)
  show ?case
  proof (cases "ws_closed w")
    case False
    show ?thesis
    proof (cases "frame_of bs")
      case (Frame fin opcode payload n)
      obtain st u where a: "apply_frame gate fin opcode payload n w = (st, u)" by fastforce
      have n: "6 \<le> n" "n \<le> length bs" using frame_of_length [OF Frame] by simp_all
      have f: "frame_of (bs @ later) = Frame fin opcode payload n" using frame_of_append [of bs later] Frame by simp
      show ?thesis
      proof (cases st)
        case (Raised_Disconnect cd)
        with a f False Frame show ?thesis by (simp add: run_open)
      next
        case (Took k)
        show ?thesis
        proof (cases "k = 0")
          case True
          with took_zero_closed [of gate fin opcode payload n w u] a Took n have "ws_closed u" by simp
          with True Took a f False Frame show ?thesis by (simp add: run_open run_closed)
        next
          case k: False
          with took_apply [of gate fin opcode payload n w k] a Took have "k = n" by simp
          with k Took a f False Frame n 1(1) [OF False Frame a [symmetric] Took k] show ?thesis
            by (simp add: run_open)
        qed
      qed
    qed (use False frame_of_append [of bs later] in \<open>simp_all add: run_open run_closed\<close>)
  qed (simp add: run_closed)
qed

lemma handle_close_closed: "ws_closed (handle_close_frame p w)"
  by (simp add: handle_close_frame_def Let_def)

lemma raised_closed:
  assumes "apply_frame gate fin opc p n w = (Raised_Disconnect cd, w')"
  shows "ws_closed w'"
  using assms took_open [of fin opc p n w] took_continue [of fin p n w] handle_close_closed
  by (auto simp: apply_frame_def Let_def split: if_splits)

lemma run_raised_closed: "run gate bs w = (Some cd, rest, w') \<Longrightarrow> ws_closed w'"
proof (induction gate bs w rule: run.induct)
  case (1 gate bs w)
  have op: "\<not> ws_closed w" using 1(2) by (rule contrapos_pn) (simp add: run_closed)
  then obtain fin opcode payload n where f: "frame_of bs = Frame fin opcode payload n"
    using 1(2) by (cases "frame_of bs") (simp_all add: run_open)
  obtain st u where a: "apply_frame gate fin opcode payload n w = (st, u)" by fastforce
  show ?case
  proof (cases st)
    case (Raised_Disconnect c)
    with a raised_closed [of gate fin opcode payload n w c u] 1(2) op f show ?thesis by (simp add: run_open)
  next
    case (Took k)
    with a f op 1(2) 1(1) [OF op f a [symmetric] Took] show ?thesis by (cases "k = 0") (simp_all add: run_open)
  qed
qed

text \<open>Traffic is noted once for all the frames of a read, and a closed connection has no timer.\<close>

definition noted :: "ws \<Rightarrow> bool" where
  "noted w \<longleftrightarrow> (ws_heartbeat w \<and> ws_handle w \<longrightarrow> ws_saw_inbound w)"

lemma noted_note [simp]: "noted (note_inbound w)"
  by (auto simp: noted_def note_inbound_def)

lemma note_noted: "noted w \<Longrightarrow> note_inbound w = w"
  by (cases w) (simp add: noted_def note_inbound_def)

lemma noted_update [simp]:
  "noted (w\<lparr>ws_frag_opcode := a\<rparr>) = noted w" "noted (w\<lparr>ws_frag_buffer := b\<rparr>) = noted w"
  "noted (w\<lparr>ws_validator := v\<rparr>) = noted w" "noted (w\<lparr>ws_queue := q\<rparr>) = noted w"
  "noted (w\<lparr>ws_pending := pp\<rparr>) = noted w" "noted (w\<lparr>ws_token := t\<rparr>) = noted w"
  "noted (w\<lparr>ws_buffer := x\<rparr>) = noted w" "noted (send_frame p o' w) = noted w"
  by (simp_all add: noted_def send_frame_def)

lemma noted_closing [simp]: "noted (close_control cd w)" "noted (close_too_big w)" "noted (close_protocol_error w)"
  "noted (close_invalid_payload w)" "noted (echo_close cd w)"
  by (simp_all add: noted_def ws_closing Let_def)

lemma noted_steps [simp]: "noted w \<Longrightarrow> noted (enqueue_or_close p w)" "noted (reset_fragments w) = noted w"
  by (simp_all add: enqueue_or_close_def reset_fragments_def)

lemma noted_open: "noted w \<Longrightarrow> noted (snd (open_message fin opc p n w))"
  by (cases "feed_validator (if opc = 1 then Some utf8_init else None) p") (simp_all add: open_message_def Let_def)

lemma noted_continue: "noted w \<Longrightarrow> noted (snd (continue_message fin p n w))"
  by (cases "feed_validator (ws_validator w) p") (simp_all add: continue_message_def Let_def)

lemma noted_close_frame: "noted (handle_close_frame p w)"
  by (simp add: handle_close_frame_def Let_def)

lemma noted_apply: "noted w \<Longrightarrow> noted (snd (apply_frame gate fin opc p n w))"
  by (simp add: apply_frame_def noted_close_frame noted_open noted_continue Let_def split: option.split)

lemma run_noted: "noted w \<Longrightarrow> noted (snd (snd (run gate bs w)))"
proof (induction gate bs w rule: run.induct)
  case (1 gate bs w)
  show ?case
  proof (cases "ws_closed w")
    case False
    show ?thesis
    proof (cases "frame_of bs")
      case (Frame fin opcode payload n)
      obtain st u where a: "apply_frame gate fin opcode payload n w = (st, u)" by fastforce
      then have "noted u" using noted_apply [OF 1(2), of gate fin opcode payload n] by simp
      with a False Frame 1(1) [OF False Frame a [symmetric]] show ?thesis by (cases st) (simp_all add: run_open)
    qed (use False 1(2) in \<open>simp_all add: run_open\<close>)
  qed (use 1(2) in \<open>simp add: run_closed\<close>)
qed

lemma feed_data_run:
  assumes "data \<noteq> []"
  shows "feed_data gate data w =
     (case run gate (ws_buffer w @ data) (note_inbound w) of (r, rest, w') \<Rightarrow> (r, with_buffer rest w'))"
proof -
  let ?x = "ws_buffer w @ data"
  let ?w = "with_buffer ?x (note_inbound w)"
  have b: "ws_buffer (note_inbound w) = ws_buffer w" by (simp add: note_inbound_def)
  obtain r pos w2 where l: "feed_loop gate 0 ?w = (r, pos, w2)" by (metis prod_cases3)
  have "run gate ?x ?w = (r, drop pos ?x, w2)" using feed_loop_run [OF l] by simp
  moreover obtain r' rest w' where d: "run gate ?x (note_inbound w) = (r', rest, w')" by (metis prod_cases3)
  ultimately have "r' = r" "rest = drop pos ?x" "w2 = with_buffer ?x w'" using run_with_buffer [of gate ?x ?x] by simp_all
  with d l assms b show ?thesis by (simp add: feed_data_def Let_def)
qed

lemma feed_twice:
  "feed_data gate (a @ b) w =
     (case feed_data gate a w of (r, w1) \<Rightarrow>
        (case feed_data gate b w1 of (r2, w2) \<Rightarrow> (if r = None then r2 else r, w2)))"
proof (cases "a = [] \<or> b = []")
  case True
  then show ?thesis by (auto simp: feed_data_def split: prod.split)
next
  case False
  obtain r rest w' where d: "run gate (ws_buffer w @ a) (note_inbound w) = (r, rest, w')" by (metis prod_cases3)
  have "noted w'" using run_noted [of "note_inbound w" gate "ws_buffer w @ a"] d by simp
  then have n: "note_inbound (with_buffer rest w') = with_buffer rest w'"
    by (intro note_noted) (simp add: noted_def)
  have ab: "run gate (ws_buffer w @ a @ b) (note_inbound w) =
      (case r of Some cd \<Rightarrow> (Some cd, rest @ b, w') | None \<Rightarrow> run gate (rest @ b) w')"
    using run_append [of gate "ws_buffer w @ a" b "note_inbound w"] d by (simp split: option.split)
  show ?thesis
  proof (cases r)
    case None
    with False d n ab show ?thesis
      by (simp add: feed_data_run run_with_buffer split: prod.split)
  next
    case (Some cd)
    with d have "ws_closed w'" by (auto intro: run_raised_closed)
    with Some False d n ab show ?thesis by (simp add: feed_data_run run_with_buffer run_closed)
  qed
qed

text \<open>\<open>data_received\<close> of the protocol, which suppresses the exception, once per run of bytes.\<close>

fun feed_chunks :: "((nat \<times> bytes) list \<Rightarrow> bool) \<Rightarrow> bytes list \<Rightarrow> ws \<Rightarrow> ws" where
  "feed_chunks gate [] w = w"
| "feed_chunks gate (c # cs) w = feed_chunks gate cs (snd (feed_data gate c w))"

lemma feed_chunks_concat: "feed_chunks gate cs w = snd (feed_data gate (concat cs) w)"
proof (induction cs arbitrary: w)
  case Nil
  then show ?case by (simp add: feed_data_def)
next
  case (Cons c cs)
  then show ?case by (simp add: feed_twice split: prod.split)
qed

section \<open>A client's message\<close>

text \<open>A frame as RFC 6455 has a client write it, in its shortest form.\<close>

definition client_frame :: "bool \<Rightarrow> nat \<Rightarrow> bytes \<Rightarrow> bytes \<Rightarrow> bytes" where
  "client_frame fin opcode key payload =
     (let n = length payload in
      [of_nat ((if fin then 128 else 0) + opcode)]
      @ (if n < 126 then [of_nat (128 + n)]
         else if n < 65536 then of_nat 254 # to_bytes 2 n
         else of_nat 255 # to_bytes 8 n)
      @ key @ unmask_spec payload key)"

definition frame_fits :: "bool \<Rightarrow> nat \<Rightarrow> bytes \<Rightarrow> bytes \<Rightarrow> bool" where
  "frame_fits fin opcode key payload \<longleftrightarrow>
     length key = 4 \<and> opcode < 16 \<and> length payload \<le> max_frame_size
     \<and> (opcode \<in> {8, 9, 10} \<longrightarrow> length payload \<le> 125 \<and> fin)"

lemma unmask_spec_Nil: "unmask_spec [] key = []"
  by (simp add: unmask_spec_def)

lemma frame_payload_client:
  assumes "frame_fits fin opc key p" "length hdr = offset"
  shows "frame_payload fin opc (length p) offset (hdr @ key @ unmask_spec p key @ rest)
    = Frame fin opc p (offset + 4 + length p)"
proof -
  have "drop (offset + 4) (hdr @ key @ unmask_spec p key @ rest) = unmask_spec p key @ rest"
    using assms by (simp add: frame_fits_def)
  moreover have "drop offset (hdr @ key @ unmask_spec p key @ rest) = key @ unmask_spec p key @ rest"
    using assms(2) by simp
  ultimately show ?thesis
    using assms by (auto simp: frame_payload_def frame_fits_def Let_def length_unmask_spec unmask_eq_spec
        unmask_spec_involution unmask_spec_Nil)
qed

lemma frame_of_header:
  assumes "b0 < 128 + 16" "b0 < 16 \<or> 128 \<le> b0" "len < 128"
  shows "frame_of (of_nat b0 # of_nat (128 + len) # bs)
    = frame_extended (128 \<le> b0) (b0 mod 16) len (of_nat b0 # of_nat (128 + len) # bs)"
proof -
  have "unat (of_nat b0 :: byte) = b0" "unat (of_nat (128 + len) :: byte) = 128 + len"
    using assms by (intro unat_of_nat_byte; simp)+
  moreover have "b0 mod 128 div 16 = 0" "(b0 div 128 = 1) = (128 \<le> b0)" "(128 + len) div 128 = 1"
    "(128 + len) mod 128 = len" using assms by (auto simp: mod_if div_if)
  ultimately show ?thesis unfolding frame_of_def Let_def by simp
qed

lemma frame_of_client:
  assumes "frame_fits fin opc key p"
  shows "frame_of (client_frame fin opc key p @ rest) = Frame fin opc p (length (client_frame fin opc key p))"
proof -
  let ?b0 = "(if fin then 128 else 0) + opc" and ?n = "length p" and ?body = "key @ unmask_spec p key @ rest"
  have opc: "opc < 16" "length key = 4" using assms by (simp_all add: frame_fits_def)
  have b0: "?b0 < 128 + 16" "?b0 < 16 \<or> 128 \<le> ?b0" "(128 \<le> ?b0) = fin" "?b0 mod 16 = opc"
    using opc by (auto simp: mod_if)
  have hdr: "frame_of (of_nat ?b0 # of_nat (128 + len) # ext @ ?body)
      = frame_extended fin opc len (of_nat ?b0 # of_nat (128 + len) # ext @ ?body)" if "len < 128" for len ext
    using frame_of_header [OF b0(1,2) that, of "ext @ ?body"] b0(3,4) by simp
  have body: "frame_payload fin opc ?n (2 + length ext) (of_nat ?b0 # b1 # ext @ ?body)
      = Frame fin opc p (2 + length ext + 4 + ?n)" for ext b1
    using frame_payload_client [OF assms, of "of_nat ?b0 # b1 # ext" "2 + length ext" rest] by simp
  consider "?n < 126" | "126 \<le> ?n" "?n < 65536" | "65536 \<le> ?n" by linarith
  then show ?thesis
  proof cases
    case 1
    then have "client_frame fin opc key p @ rest = of_nat ?b0 # of_nat (128 + ?n) # [] @ ?body"
      by (simp add: client_frame_def Let_def)
    with 1 hdr [of ?n "[]"] body [of "[]"] opc show ?thesis
      by (simp add: frame_extended_def client_frame_def Let_def)
  next
    case 2
    then have "client_frame fin opc key p @ rest = of_nat ?b0 # of_nat (128 + 126) # to_bytes 2 ?n @ ?body"
      by (simp add: client_frame_def Let_def)
    moreover have "from_bytes (to_bytes 2 ?n) = ?n" using 2 by (intro from_to_bytes) simp
    ultimately show ?thesis using 2 hdr [of 126 "to_bytes 2 ?n"] body [of "to_bytes 2 ?n"] opc
      by (simp add: frame_extended_def client_frame_def Let_def)
  next
    case 3
    then have "client_frame fin opc key p @ rest = of_nat ?b0 # of_nat (128 + 127) # to_bytes 8 ?n @ ?body"
      by (simp add: client_frame_def Let_def)
    moreover have "?n < 256 ^ 8" using assms by (simp add: frame_fits_def max_frame_size_def)
    then have "from_bytes (to_bytes 8 ?n) = ?n" by (intro from_to_bytes)
    ultimately show ?thesis using 3 hdr [of 127 "to_bytes 8 ?n"] body [of "to_bytes 8 ?n"] opc
      by (simp add: frame_extended_def client_frame_def Let_def)
  qed
qed

lemma run_frame:
  assumes "\<not> ws_closed w" "frame_fits fin opc key p"
    and "apply_frame gate fin opc p (length (client_frame fin opc key p)) w
      = (Took (length (client_frame fin opc key p)), w')"
  shows "run gate (client_frame fin opc key p @ rest) w = run gate rest w'"
proof -
  have "length (client_frame fin opc key p) \<noteq> 0" by (simp add: client_frame_def Let_def)
  then show ?thesis using assms by (simp add: run_open frame_of_client)
qed

text \<open>A ping is answered at once, or kept for later when the transport is not writable.\<close>

definition pong :: "((nat \<times> bytes) list \<Rightarrow> bool) \<Rightarrow> bytes \<Rightarrow> ws \<Rightarrow> ws" where
  "pong gate p w = (if gate (ws_written w) then send_frame p 10 w else w\<lparr>ws_pending := Some p\<rparr>)"

type_synonym ping = "bytes \<times> bytes"
type_synonym fragment = "bytes \<times> bytes \<times> ping list"

definition ping_frames :: "ping list \<Rightarrow> bytes" where
  "ping_frames ps = concat (map (\<lambda>(key, p). client_frame True 9 key p) ps)"

definition pings_fit :: "ping list \<Rightarrow> bool" where
  "pings_fit ps \<longleftrightarrow> list_all (\<lambda>(key, p). length key = 4 \<and> length p \<le> 125) ps"

definition pongs :: "((nat \<times> bytes) list \<Rightarrow> bool) \<Rightarrow> ping list \<Rightarrow> ws \<Rightarrow> ws" where
  "pongs gate ps w = fold (\<lambda>(key, p). pong gate p) ps w"

lemma pongs_simps [simp]:
  "pongs gate [] w = w" "pongs gate ((key, p) # ps) w = pongs gate ps (pong gate p w)"
  "pongs gate (ps @ qs) w = pongs gate qs (pongs gate ps w)"
  by (simp_all add: pongs_def)

text \<open>What a pong writes or keeps does not touch the message being assembled.\<close>

definition same_message :: "ws \<Rightarrow> ws \<Rightarrow> bool" where
  "same_message w w' \<longleftrightarrow> ws_closed w' = ws_closed w \<and> ws_frag_opcode w' = ws_frag_opcode w
     \<and> ws_frag_buffer w' = ws_frag_buffer w \<and> ws_validator w' = ws_validator w \<and> ws_queue w' = ws_queue w
     \<and> ws_maxsize w' = ws_maxsize w"

lemma same_message_pongs: "same_message w (pongs gate ps w)"
proof (induction ps arbitrary: w)
  case (Cons kp ps)
  then show ?case by (cases kp) (simp add: same_message_def pong_def send_frame_def)
qed (simp add: same_message_def)

lemma pong_frag_queue:
  "pong gate p (w\<lparr>ws_frag_opcode := o', ws_frag_buffer := b, ws_validator := v, ws_queue := q\<rparr>)
    = (pong gate p w)\<lparr>ws_frag_opcode := o', ws_frag_buffer := b, ws_validator := v, ws_queue := q\<rparr>"
  by (simp add: pong_def send_frame_def)

lemma pongs_frag_queue:
  "pongs gate ps (w\<lparr>ws_frag_opcode := o', ws_frag_buffer := b, ws_validator := v, ws_queue := q\<rparr>)
    = (pongs gate ps w)\<lparr>ws_frag_opcode := o', ws_frag_buffer := b, ws_validator := v, ws_queue := q\<rparr>"
proof (induction ps arbitrary: w)
  case (Cons kp ps)
  then show ?case by (cases kp) (simp add: pong_frag_queue)
qed simp

lemma run_pings:
  "\<not> ws_closed w \<Longrightarrow> pings_fit ps \<Longrightarrow> run gate (ping_frames ps @ rest) w = run gate rest (pongs gate ps w)"
proof (induction ps arbitrary: w)
  case (Cons kp ps)
  obtain key p where kp: "kp = (key, p)" by fastforce
  have "run gate (client_frame True 9 key p @ ping_frames ps @ rest) w
      = run gate (ping_frames ps @ rest) (pong gate p w)"
    by (rule run_frame) (use Cons.prems kp in \<open>simp_all add: pings_fit_def frame_fits_def max_frame_size_def
          apply_frame_def pong_def\<close>)
  moreover have "\<not> ws_closed (pong gate p w)" using Cons.prems by (simp add: pong_def send_frame_def)
  ultimately show ?case using Cons kp by (simp add: ping_frames_def pings_fit_def)
qed (simp add: ping_frames_def)

lemma feed_validator_append:
  "feed_validator v (a @ b) =
     (case feed_validator v a of None \<Rightarrow> None | Some v1 \<Rightarrow> feed_validator v1 b)"
  by (simp add: feed_validator_def utf8_feed_append split: option.split)

fun client_message :: "nat \<Rightarrow> fragment list \<Rightarrow> bytes" where
  "client_message opcode [] = []"
| "client_message opcode ((key, p, ps) # fs) =
     client_frame (fs = []) opcode key p @ ping_frames ps @ client_message 0 fs"

definition payload_of :: "fragment list \<Rightarrow> bytes" where
  "payload_of fs = concat (map (fst \<circ> snd) fs)"

definition pings_of :: "fragment list \<Rightarrow> ping list" where
  "pings_of fs = concat (map (snd \<circ> snd) fs)"

definition keys_fit :: "fragment list \<Rightarrow> bool" where
  "keys_fit fs \<longleftrightarrow> list_all (\<lambda>(key, p, ps). length key = 4 \<and> pings_fit ps) fs"

lemma fragment_simps [simp]:
  "payload_of [] = []" "payload_of ((key, p, ps) # fs) = p @ payload_of fs"
  "pings_of [] = []" "pings_of ((key, p, ps) # fs) = ps @ pings_of fs"
  "keys_fit []" "keys_fit ((key, p, ps) # fs) \<longleftrightarrow> length key = 4 \<and> pings_fit ps \<and> keys_fit fs"
  by (simp_all add: payload_of_def pings_of_def keys_fit_def)

text \<open>The connection once the message is there: queued, with nothing being assembled.\<close>

definition delivered :: "bytes \<Rightarrow> ws \<Rightarrow> ws" where
  "delivered m w = w\<lparr>ws_frag_opcode := None, ws_frag_buffer := [], ws_validator := None,
     ws_queue := ws_queue w @ [Message m]\<rparr>"

lemma pongs_delivered: "pongs gate ps (delivered m w) = delivered m (pongs gate ps w)"
  using same_message_pongs [of w gate ps] by (simp add: delivered_def pongs_frag_queue same_message_def)

lemma continue_last:
  assumes "\<not> queue_full w" "ws_frag_opcode w = Some opc" "feed_validator (ws_validator w) p = Some v" "validator_done v"
    and "length (ws_frag_buffer w @ p) \<le> max_message_size"
  shows "continue_message True p n w = (Took n, delivered (ws_frag_buffer w @ p) w)"
  using assms
  by (auto simp: continue_message_def Let_def enqueue_or_close_def queue_full_def reset_fragments_def delivered_def)

lemma continue_more:
  assumes "ws_frag_opcode w = Some opc" "feed_validator (ws_validator w) p = Some v"
    and "length (ws_frag_buffer w @ p) \<le> max_message_size"
  shows "continue_message False p n w
    = (Took n, w\<lparr>ws_validator := v, ws_frag_buffer := ws_frag_buffer w @ p\<rparr>)"
  using assms by (simp add: continue_message_def Let_def)

lemma feed_validator_Nil [simp]: "feed_validator v [] = Some v"
  by (simp add: feed_validator_def split: option.split)

lemma run_continuations:
  assumes "\<not> ws_closed w" "\<not> queue_full w" "ws_frag_opcode w = Some opc" "fs \<noteq> []" "keys_fit fs"
    and "length (ws_frag_buffer w @ payload_of fs) \<le> max_message_size"
    and "feed_validator (ws_validator w) (payload_of fs) = Some v" "validator_done v"
  shows "run gate (client_message 0 fs @ rest) w
    = run gate rest (pongs gate (pings_of fs) (delivered (ws_frag_buffer w @ payload_of fs) w))"
  using assms
proof (induction fs arbitrary: w)
  case (Cons f fs)
  obtain key p ps where f: "f = (key, p, ps)" by (cases f)
  have fits: "frame_fits (fs = []) 0 key p" using Cons.prems(5,6) f
    by (simp add: frame_fits_def max_frame_size_def max_message_size_def)
  obtain v1 where v1: "feed_validator (ws_validator w) p = Some v1" "feed_validator v1 (payload_of fs) = Some v"
    using Cons.prems(7) f by (auto simp: feed_validator_append split: option.splits)
  show ?case
  proof (cases "fs = []")
    case True
    have "run gate (client_frame True 0 key p @ ping_frames ps @ rest) w
        = run gate (ping_frames ps @ rest) (delivered (ws_frag_buffer w @ p) w)"
      using Cons.prems f True v1 fits continue_last [of w opc p v]
      by (intro run_frame) (simp_all add: apply_frame_def)
    moreover have "\<not> ws_closed (delivered (ws_frag_buffer w @ p) w)" using Cons.prems by (simp add: delivered_def)
    ultimately show ?thesis using run_pings Cons.prems(5) f True by simp
  next
    case rest: False
    let ?w1 = "w\<lparr>ws_validator := v1, ws_frag_buffer := ws_frag_buffer w @ p\<rparr>"
    let ?w2 = "pongs gate ps ?w1"
    have "run gate (client_frame False 0 key p @ ping_frames ps @ client_message 0 fs @ rest) w
        = run gate (ping_frames ps @ client_message 0 fs @ rest) ?w1"
      using Cons.prems f rest v1 fits continue_more [of w opc p v1]
      by (intro run_frame) (simp_all add: apply_frame_def)
    also have "\<dots> = run gate (client_message 0 fs @ rest) ?w2"
      using run_pings [of ?w1 ps] Cons.prems f by simp
    also have "\<dots> = run gate rest (pongs gate (pings_of fs) (delivered (ws_frag_buffer ?w2 @ payload_of fs) ?w2))"
      using Cons.prems f rest v1 same_message_pongs [of ?w1 gate ps]
      by (intro Cons.IH) (simp_all add: same_message_def queue_full_def)
    also have "delivered (ws_frag_buffer ?w2 @ payload_of fs) ?w2
        = pongs gate ps (delivered (ws_frag_buffer w @ p @ payload_of fs) w)"
    proof -
      have "ws_frag_buffer ?w2 = ws_frag_buffer w @ p" using same_message_pongs [of ?w1 gate ps] by (simp add: same_message_def)
      moreover have "delivered m ?w1 = delivered m w" for m by (simp add: delivered_def)
      ultimately show ?thesis by (metis pongs_delivered append.assoc)
    qed
    finally show ?thesis using f rest by simp
  qed
qed simp

lemma open_last:
  assumes "\<not> queue_full w" "ws_frag_opcode w = None" "validator_done v"
    and "feed_validator (if opc = 1 then Some utf8_init else None) p = Some v"
  shows "open_message True opc p n w = (Took n, delivered p w)"
  using assms
  by (auto simp: open_message_def Let_def enqueue_or_close_def queue_full_def reset_fragments_def delivered_def)

lemma open_more:
  assumes "ws_frag_opcode w = None" "length p \<le> max_message_size"
    and "feed_validator (if opc = 1 then Some utf8_init else None) p = Some v"
  shows "open_message False opc p n w
    = (Took n, w\<lparr>ws_frag_opcode := Some opc, ws_frag_buffer := p, ws_validator := v\<rparr>)"
  using assms by (simp add: open_message_def Let_def)

lemma text_validator:
  assumes "opc = 1 \<longrightarrow> valid_utf8 m"
  obtains v where "feed_validator (if opc = 1 then Some utf8_init else None) m = Some v" "validator_done v"
  using assms utf8_accepts_iff [of m] that
  by (cases "opc = 1") (auto simp: feed_validator_def validator_done_def)

lemma run_message:
  assumes "\<not> ws_closed w" "\<not> queue_full w" "ws_frag_opcode w = None" "opc = 1 \<or> opc = 2"
    and "fs \<noteq> []" "keys_fit fs" "length (payload_of fs) \<le> max_message_size"
    and "opc = 1 \<longrightarrow> valid_utf8 (payload_of fs)"
  shows "run gate (client_message opc fs @ rest) w
    = run gate rest (pongs gate (pings_of fs) (delivered (payload_of fs) w))"
proof -
  obtain v where v: "feed_validator (if opc = 1 then Some utf8_init else None) (payload_of fs) = Some v" "validator_done v"
    using text_validator [OF assms(8)] .
  obtain key p ps fs' where f: "fs = (key, p, ps) # fs'" using assms(5) by (cases fs) auto
  have fits: "frame_fits (fs' = []) opc key p" using assms(4,6,7) f
    by (auto simp: frame_fits_def max_frame_size_def max_message_size_def)
  obtain v1 where v1: "feed_validator (if opc = 1 then Some utf8_init else None) p = Some v1"
    "feed_validator v1 (payload_of fs') = Some v"
    using v(1) f by (auto simp: feed_validator_append split: option.splits)
  show ?thesis
  proof (cases "fs' = []")
    case True
    have "run gate (client_frame True opc key p @ ping_frames ps @ rest) w
        = run gate (ping_frames ps @ rest) (delivered p w)"
    proof (intro run_frame [OF assms(1)])
      show "frame_fits True opc key p" using fits True by simp
      have "feed_validator (if opc = 1 then Some utf8_init else None) p = Some v" using v(1) f True by simp
      from open_last [OF assms(2,3) v(2) this] assms(4)
      show "apply_frame gate True opc p (length (client_frame True opc key p)) w
          = (Took (length (client_frame True opc key p)), delivered p w)"
        by (elim disjE) (simp_all add: apply_frame_def)
    qed
    moreover have "\<not> ws_closed (delivered p w)" using assms by (simp add: delivered_def)
    ultimately show ?thesis using run_pings assms(6) f True by simp
  next
    case False
    let ?w1 = "w\<lparr>ws_frag_opcode := Some opc, ws_frag_buffer := p, ws_validator := v1\<rparr>"
    let ?w2 = "pongs gate ps ?w1"
    have same: "same_message ?w1 ?w2" by (rule same_message_pongs)
    have "run gate (client_frame False opc key p @ ping_frames ps @ client_message 0 fs' @ rest) w
        = run gate (ping_frames ps @ client_message 0 fs' @ rest) ?w1"
    proof (rule run_frame [OF assms(1)])
      show "frame_fits False opc key p" using fits False by simp
      have "length p \<le> max_message_size" using assms(7) f by simp
      from open_more [OF assms(3) this v1(1)] assms(4)
      show "apply_frame gate False opc p (length (client_frame False opc key p)) w
          = (Took (length (client_frame False opc key p)), ?w1)"
        by (elim disjE) (simp_all add: apply_frame_def)
    qed
    also have "\<dots> = run gate (client_message 0 fs' @ rest) ?w2"
      using run_pings [of ?w1 ps] assms f by simp
    also have "\<dots> = run gate rest (pongs gate (pings_of fs') (delivered (ws_frag_buffer ?w2 @ payload_of fs') ?w2))"
      using assms f False v v1 same
      by (intro run_continuations) (simp_all add: same_message_def queue_full_def)
    also have "delivered (ws_frag_buffer ?w2 @ payload_of fs') ?w2 = pongs gate ps (delivered (p @ payload_of fs') w)"
    proof -
      have "ws_frag_buffer ?w2 = p" using same by (simp add: same_message_def)
      moreover have "delivered m ?w1 = delivered m w" for m by (simp add: delivered_def)
      ultimately show ?thesis by (metis pongs_delivered)
    qed
    finally show ?thesis using f False by simp
  qed
qed

lemma pongs_open: "\<not> ws_closed w \<Longrightarrow> \<not> ws_closed (pongs gate ps (delivered m w))"
  using same_message_pongs [of "delivered m w" gate ps] by (simp add: same_message_def delivered_def)

lemma run_nothing: "run gate [] w = (None, [], w)"
  by (cases "ws_closed w") (simp_all add: run_closed run_open frame_of_def)

section \<open>Properties\<close>

text \<open>C31: TCP may cut the byte stream anywhere: feeding the bytes in any pieces leaves the connection in
  the state (queue, replies, close code, partial message, unparsed rest) of feeding them at once.\<close>

theorem chunking_transparent:
  "feed_chunks gate chunks w = snd (feed_data gate (concat chunks) w)"
  by (rule feed_chunks_concat)

text \<open>C32: A message a client sends in any number of fragments, masked with any keys and with pings after
  any of them, and however TCP cuts it, arrives as one message with the bytes of the fragments in
  order; every ping is answered (or the latest kept while the transport is not writable), nothing
  is left in the buffers, and the connection stays open.\<close>

theorem fragmented_message_delivered:
  assumes "\<not> ws_closed w" "\<not> queue_full w" "ws_frag_opcode w = None" "ws_buffer w = []" "opc = 1 \<or> opc = 2"
    and "fs \<noteq> []" "keys_fit fs" "length (payload_of fs) \<le> max_message_size"
    and "opc = 1 \<longrightarrow> valid_utf8 (payload_of fs)"
    and "concat chunks = client_message opc fs"
  shows "feed_chunks gate chunks w
    = with_buffer [] (pongs gate (pings_of fs) (delivered (payload_of fs) (note_inbound w)))"
proof -
  let ?w = "note_inbound w"
  have n: "\<not> ws_closed ?w" "\<not> queue_full ?w" "ws_frag_opcode ?w = None"
    using assms by (simp_all add: note_inbound_def queue_full_def)
  have "client_message opc fs \<noteq> []" using assms(6) by (cases fs) (auto simp: client_frame_def Let_def)
  then have "feed_data gate (client_message opc fs) w =
      (case run gate (client_message opc fs @ []) ?w of (r, rest, w') \<Rightarrow> (r, with_buffer rest w'))"
    using feed_data_run [of "client_message opc fs" gate w] unfolding assms(4) by simp
  also have "\<dots> = (None, with_buffer [] (pongs gate (pings_of fs) (delivered (payload_of fs) ?w)))"
    unfolding run_message [OF n assms(5-9)] run_nothing by simp
  finally show ?thesis unfolding feed_chunks_concat assms(10) by simp
qed

text \<open>A text "Hi!" in two fragments with a ping between them, cut in the middle of a header.\<close>

theorem fragmented_message_delivered_witness:
  "ws_queue (feed_chunks (\<lambda>_. True)
      [take 3 (client_message 1 [([1, 2, 3, 4], [0x48], [([5, 6, 7, 8], [9])]), ([0, 0, 0, 1], [0x69, 0x21], [])]),
       drop 3 (client_message 1 [([1, 2, 3, 4], [0x48], [([5, 6, 7, 8], [9])]), ([0, 0, 0, 1], [0x69, 0x21], [])])]
      (ws_init True True None)) = [Message [0x48, 0x69, 0x21]]"
proof -
  let ?fs = "[([1, 2, 3, 4], [0x48], [([5, 6, 7, 8], [9])]), ([0, 0, 0, 1], [0x69, 0x21], [])] :: fragment list"
  have "valid_utf8 (payload_of ?fs)" unfolding valid_utf8_def
    by (rule exI [of _ "[0x48, 0x69, 0x21]"]) (simp add: scalar_value_def encode_utf8_def encode_scalar_def)
  moreover have "keys_fit ?fs" by (simp add: pings_fit_def)
  moreover have "length (payload_of ?fs) \<le> max_message_size" by (simp add: max_message_size_def)
  moreover have "concat [take 3 (client_message 1 ?fs), drop 3 (client_message 1 ?fs)] = client_message 1 ?fs"
    by (simp only: concat.simps append_Nil2 append_take_drop_id)
  ultimately have "feed_chunks (\<lambda>_. True) [take 3 (client_message 1 ?fs), drop 3 (client_message 1 ?fs)] (ws_init True True None)
      = with_buffer [] (pongs (\<lambda>_. True) (pings_of ?fs) (delivered (payload_of ?fs) (note_inbound (ws_init True True None))))"
    by (intro fragmented_message_delivered) (simp_all add: ws_init_def queue_full_def default_maxsize_def)
  then show ?thesis
    by (simp add: pong_def send_frame_def delivered_def note_inbound_def ws_init_def)
qed

end
