(* ===== verification/Ws_Lifecycle.thy ===== *)
theory Ws_Lifecycle
  imports Ws_Feed
begin

text \<open>
  The life of a raw-transport WebSocket as steps: what the transport, the timer and the handler's
  coroutines can do in any order, a send suspended while the transport drains, a receive parked on
  the empty queue and a close that waits for the peer included. Its invariants: the bounds on what
  is buffered, one Close frame, legal control frames, and UTF-8 in every text message.
\<close>

section \<open>Steps\<close>

record conn =
  cn_ws :: ws
  cn_sends :: "(nat \<times> bytes) list"
  cn_parked :: bool
  cn_waiting :: bool

datatype ws_event =
    Read bytes
  | Timer
  | Accept string "string option" "(string \<times> string) list option"
  | Send nat bytes
  | Drained nat
  | Receive
  | Wake
  | Close int bytes
  | Close_Wait_Ends
  | Writable

definition remove_nth :: "nat \<Rightarrow> 'a list \<Rightarrow> 'a list" where
  "remove_nth i xs = take i xs @ drop (Suc i) xs"

fun conn_step :: "((nat \<times> bytes) list \<Rightarrow> bool) \<Rightarrow> ws_event \<Rightarrow> conn \<Rightarrow> conn" where
  "conn_step gate (Read d) c = c\<lparr>cn_ws := snd (feed_data gate d (cn_ws c))\<rparr>"
| "conn_step gate Timer c =
     (if ws_handle (cn_ws c) then c\<lparr>cn_ws := heartbeat_tick (cn_ws c)\<rparr> else c)"
| "conn_step gate (Accept key sub hs) c = c\<lparr>cn_ws := snd (accept key sub hs (cn_ws c))\<rparr>"
| "conn_step gate (Send opc d) c =
     (if opc \<in> {1, 2} \<and> send_check (cn_ws c) = None then c\<lparr>cn_sends := cn_sends c @ [(opc, d)]\<rparr> else c)"
| "conn_step gate (Drained i) c =
     (if i < length (cn_sends c)
      then c\<lparr>cn_ws := raw_send (snd (cn_sends c ! i)) (fst (cn_sends c ! i)) (cn_ws c),
             cn_sends := remove_nth i (cn_sends c)\<rparr>
      else c)"
| "conn_step gate Receive c =
     (if cn_parked c then c
      else (case receive_raw (cn_ws c) of
              (Parked, w) \<Rightarrow> c\<lparr>cn_ws := w, cn_parked := True\<rparr> | (_, w) \<Rightarrow> c\<lparr>cn_ws := w\<rparr>))"
| "conn_step gate Wake c =
     (if \<not> cn_parked c then c
      else (case take_message (cn_ws c) of
              (Parked, w) \<Rightarrow> c | (_, w) \<Rightarrow> c\<lparr>cn_ws := w, cn_parked := False\<rparr>))"
| "conn_step gate (Close cd reason) c =
     (if decodes reason then
        (case close_begin cd reason (cn_ws c) of (waits, w) \<Rightarrow> c\<lparr>cn_ws := w, cn_waiting := cn_waiting c \<or> waits\<rparr>)
      else c)"
| "conn_step gate Close_Wait_Ends c =
     (if cn_waiting c then c\<lparr>cn_ws := close_end (cn_ws c), cn_waiting := False\<rparr> else c)"
| "conn_step gate Writable c = c\<lparr>cn_ws := flush_pending_pong (cn_ws c)\<rparr>"

definition conn_init :: "bool \<Rightarrow> bool \<Rightarrow> nat option \<Rightarrow> conn" where
  "conn_init handshake_sent heartbeat maxsize =
     \<lparr>cn_ws = ws_init handshake_sent heartbeat maxsize, cn_sends = [], cn_parked = False, cn_waiting = False\<rparr>"

inductive ws_reachable :: "conn \<Rightarrow> bool" where
  start: "ws_reachable (conn_init handshake_sent heartbeat maxsize)"
| step: "ws_reachable c \<Longrightarrow> ws_reachable (conn_step gate e c)"

section \<open>What goes on the wire\<close>

definition close_payload_ok :: "bytes \<Rightarrow> bool" where
  "close_payload_ok p \<longleftrightarrow> 2 \<le> length p \<and> length p \<le> 125 \<and> \<not> bad_close_code (from_bytes (take 2 p))
     \<and> valid_utf8 (drop 2 p)"

definition frame_ok :: "nat \<times> bytes \<Rightarrow> bool" where
  "frame_ok f \<longleftrightarrow> (case f of (opc, p) \<Rightarrow>
     opc \<in> {1, 2, 8, 9, 10} \<and> (opc \<ge> 8 \<longrightarrow> length p \<le> 125) \<and> (opc = 8 \<longrightarrow> close_payload_ok p))"

definition closes :: "(nat \<times> bytes) list \<Rightarrow> nat" where
  "closes fs = length (filter (\<lambda>(opc, p). opc = 8) fs)"

definition ws_inv :: "ws \<Rightarrow> bool" where
  "ws_inv w \<longleftrightarrow> (ws_maxsize w > 0 \<longrightarrow> length (ws_queue w) \<le> ws_maxsize w)
     \<and> list_all frame_ok (ws_written w)
     \<and> closes (ws_written w) = (if ws_close_sent w then 1 else 0)
     \<and> (ws_close_sent w \<longrightarrow> ws_closed w)
     \<and> (\<forall>p. ws_pending w = Some p \<longrightarrow> length p \<le> 125)"

lemma decodes_iff: "decodes bs \<longleftrightarrow> valid_utf8 bs"
  using utf8_accepts_iff [of bs] by (auto simp: decodes_def split: option.splits)

lemma valid_utf8_Nil [simp]: "valid_utf8 []"
  unfolding valid_utf8_def by (rule exI [of _ "[]"]) (simp add: encode_utf8_def)

lemma closes_append [simp]: "closes (fs @ [(opc, p)]) = closes fs + (if opc = 8 then 1 else 0)"
  by (simp add: closes_def)

lemma bad_code_bound: "\<not> bad_close_code cd \<Longrightarrow> cd < 256 ^ 2"
  by (simp add: bad_close_code_def)

lemma close_payload_code:
  "\<not> bad_close_code cd \<Longrightarrow> valid_utf8 r \<Longrightarrow> length r \<le> 123 \<Longrightarrow> close_payload_ok (to_bytes 2 cd @ r)"
  using from_to_bytes [of cd 2] bad_code_bound [of cd] by (simp add: close_payload_ok_def)

lemma good_codes [simp]: "\<not> bad_close_code 1000" "\<not> bad_close_code 1002" "\<not> bad_close_code 1007" "\<not> bad_close_code 1009"
  by (simp_all add: bad_close_code_def peer_close_codes_def)

lemma ws_inv_terminate:
  assumes "ws_inv w" "\<not> ws_close_sent w" "\<not> bad_close_code cd"
  shows "ws_inv (terminate_raw cd rc w)"
proof -
  have "close_payload_ok (to_bytes 2 cd)" using close_payload_code [of cd "[]"] assms(3) by simp
  then have "frame_ok (8, to_bytes 2 cd)" by (simp add: frame_ok_def)
  with assms show ?thesis
    by (auto simp: ws_inv_def terminate_raw_def Let_def cancel_heartbeat_def wake_receiver_def queue_full_def send_frame_def)
qed

lemma ws_inv_closings:
  assumes "ws_inv w" "\<not> ws_close_sent w"
  shows "ws_inv (close_too_big w)" "ws_inv (close_protocol_error w)" "ws_inv (close_invalid_payload w)"
    "\<not> bad_close_code cd \<Longrightarrow> ws_inv (echo_close cd w)" "\<not> bad_close_code cd \<Longrightarrow> ws_inv (close_control cd w)"
  using assms by (simp_all add: close_too_big_def close_protocol_error_def close_invalid_payload_def
      close_control_def echo_close_def ws_inv_terminate)

lemma ws_inv_update [simp]:
  "ws_inv (w\<lparr>ws_frag_opcode := a\<rparr>) = ws_inv w" "ws_inv (w\<lparr>ws_frag_buffer := b\<rparr>) = ws_inv w"
  "ws_inv (w\<lparr>ws_validator := v\<rparr>) = ws_inv w" "ws_inv (w\<lparr>ws_token := t\<rparr>) = ws_inv w"
  "ws_inv (w\<lparr>ws_buffer := x\<rparr>) = ws_inv w" "ws_inv (w\<lparr>ws_code := cd\<rparr>) = ws_inv w"
  "ws_inv (w\<lparr>ws_reason := r\<rparr>) = ws_inv w" "ws_inv (reset_fragments w) = ws_inv w"
  "ws_inv (note_peer_close w) = ws_inv w" "ws_inv (note_inbound w) = ws_inv w"
  by (simp_all add: ws_inv_def reset_fragments_def note_peer_close_def note_inbound_def)

lemma ws_inv_enqueue: "ws_inv w \<Longrightarrow> \<not> ws_close_sent w \<Longrightarrow> ws_inv (enqueue_or_close p w)"
  unfolding enqueue_or_close_def using ws_inv_closings(1) [of w]
  by (auto simp: ws_inv_def queue_full_def)

lemma ws_inv_handle_close: "ws_inv w \<Longrightarrow> \<not> ws_close_sent w \<Longrightarrow> ws_inv (handle_close_frame p w)"
  by (simp add: handle_close_frame_def Let_def ws_inv_closings)

lemma ws_inv_open: "ws_inv w \<Longrightarrow> \<not> ws_close_sent w \<Longrightarrow> ws_inv (snd (open_message fin opc p n w))"
  by (cases "feed_validator (if opc = 1 then Some utf8_init else None) p")
    (simp_all add: open_message_def Let_def ws_inv_closings ws_inv_enqueue reset_fragments_def)

lemma ws_inv_continue: "ws_inv w \<Longrightarrow> \<not> ws_close_sent w \<Longrightarrow> ws_inv (snd (continue_message fin p n w))"
  by (cases "feed_validator (ws_validator w) p")
    (simp_all add: continue_message_def Let_def ws_inv_closings ws_inv_enqueue)

lemma ws_inv_send: "ws_inv w \<Longrightarrow> opc \<in> {1, 2, 9, 10} \<Longrightarrow> (opc \<ge> 8 \<Longrightarrow> length p \<le> 125) \<Longrightarrow> ws_inv (send_frame p opc w)"
  by (auto simp: ws_inv_def send_frame_def frame_ok_def)

lemma ws_inv_apply:
  assumes "ws_inv w" "\<not> ws_close_sent w" "opc \<in> {8, 9, 10} \<Longrightarrow> length p \<le> 125"
  shows "ws_inv (snd (apply_frame gate fin opc p n w))"
proof -
  have "ws_inv (w\<lparr>ws_pending := Some p\<rparr>)" if "opc = 9" using assms that by (simp add: ws_inv_def)
  moreover have "\<not> ws_close_sent (note_peer_close w)" using assms by (simp add: note_peer_close_def)
  ultimately show ?thesis
    using assms ws_inv_send [of w 10 p] ws_inv_open ws_inv_continue
    by (simp add: apply_frame_def Let_def ws_inv_handle_close split: option.split)
qed

section \<open>Invariants of a read\<close>

lemma frame_payload_fits:
  "frame_payload fin opc len offset bs = Frame f o' p n \<Longrightarrow>
     f = fin \<and> o' = opc \<and> (opc \<in> {8, 9, 10} \<longrightarrow> length p \<le> 125 \<and> fin) \<and> length p \<le> max_frame_size"
  by (auto simp: frame_payload_def Let_def unmask_eq_spec split: if_splits)

lemma frame_of_fits:
  assumes "frame_of bs = Frame fin opc p n"
  shows "(opc \<in> {8, 9, 10} \<longrightarrow> length p \<le> 125 \<and> fin) \<and> length p \<le> max_frame_size"
  using assms by (auto simp: frame_of_def frame_extended_def Let_def split: if_splits dest!: frame_payload_fits)

lemma frame_payload_violation: "frame_payload fin opc len offset bs = Violation cd \<Longrightarrow> cd = 1002 \<or> cd = 1009"
  by (auto simp: frame_payload_def Let_def split: if_splits)

lemma frame_of_violation: "frame_of bs = Violation cd \<Longrightarrow> cd = 1002 \<or> cd = 1009"
  by (auto simp: frame_of_def frame_extended_def Let_def split: if_splits dest!: frame_payload_violation)

lemma run_invariant [case_names start violation frame]:
  assumes "P w"
    and "\<And>w cd. P w \<Longrightarrow> \<not> ws_closed w \<Longrightarrow> cd = 1002 \<or> cd = 1009 \<Longrightarrow> P (close_control cd w)"
    and "\<And>w bs fin opc p n. P w \<Longrightarrow> \<not> ws_closed w \<Longrightarrow> frame_of bs = Frame fin opc p n \<Longrightarrow>
           P (snd (apply_frame gate fin opc p n w))"
  shows "P (snd (snd (run gate bs w)))"
  using assms(1,3)
proof (induction gate bs w rule: run.induct)
  case (1 gate bs w)
  show ?case
  proof (cases "ws_closed w")
    case False
    show ?thesis
    proof (cases "frame_of bs")
      case (Frame fin opcode payload n)
      obtain st u where a: "apply_frame gate fin opcode payload n w = (st, u)" by fastforce
      then have "P u" using 1(3) [OF 1(2) False Frame] by simp
      with a 1 False Frame show ?thesis by (cases st) (simp_all add: run_open)
    qed (use False 1(2) assms(2) frame_of_violation in \<open>simp_all add: run_open\<close>)
  qed (use 1 in \<open>simp add: run_closed\<close>)
qed

lemma feed_data_invariant [consumes 1, case_names buffer inbound violation frame]:
  assumes "P w" "\<And>w x. P w \<Longrightarrow> P (with_buffer x w)" "\<And>w. P w \<Longrightarrow> P (note_inbound w)"
    and "\<And>w cd. P w \<Longrightarrow> \<not> ws_closed w \<Longrightarrow> cd = 1002 \<or> cd = 1009 \<Longrightarrow> P (close_control cd w)"
    and "\<And>w bs fin opc p n. P w \<Longrightarrow> \<not> ws_closed w \<Longrightarrow> frame_of bs = Frame fin opc p n \<Longrightarrow>
           P (snd (apply_frame gate fin opc p n w))"
  shows "P (snd (feed_data gate d w))"
proof (cases "d = []")
  case False
  obtain r rest w' where r: "run gate (ws_buffer w @ d) (note_inbound w) = (r, rest, w')" by (metis prod_cases3)
  have "P (snd (snd (run gate (ws_buffer w @ d) (note_inbound w))))"
    by (rule run_invariant) (use assms in auto)
  with r False assms(2) show ?thesis by (simp add: feed_data_run)
qed (use assms in \<open>simp add: feed_data_def\<close>)

lemma ws_inv_feed: "ws_inv w \<Longrightarrow> ws_inv (snd (feed_data gate d w))"
proof (induction rule: feed_data_invariant)
  case (violation w cd)
  then show ?case using ws_inv_closings(5) [of w cd] by (auto simp: ws_inv_def)
next
  case (frame w bs fin opc p n)
  then show ?case using ws_inv_apply [of w opc p] frame_of_fits [of bs fin opc p n] by (auto simp: ws_inv_def)
qed simp_all

text \<open>The message being assembled, while the connection is open.\<close>

definition frag_ok :: "nat option \<Rightarrow> bytes \<Rightarrow> utf8_state option \<Rightarrow> bool" where
  "frag_ok opcode buffer v =
     (case opcode of
        None \<Rightarrow> buffer = [] \<and> v = None
      | Some opc \<Rightarrow> (opc = 1 \<or> opc = 2) \<and> length buffer \<le> max_message_size
          \<and> feed_validator (if opc = 1 then Some utf8_init else None) buffer = Some v)"

definition frag_inv :: "ws \<Rightarrow> bool" where
  "frag_inv w \<longleftrightarrow> ws_closed w \<or> frag_ok (ws_frag_opcode w) (ws_frag_buffer w) (ws_validator w)"

lemma frag_inv_closed [simp]: "ws_closed w \<Longrightarrow> frag_inv w"
  by (simp add: frag_inv_def)

lemma frag_inv_reset [simp]: "frag_inv (reset_fragments w)"
  by (simp add: frag_inv_def frag_ok_def reset_fragments_def)

lemma frag_inv_update [simp]:
  "frag_inv (w\<lparr>ws_token := t\<rparr>) = frag_inv w" "frag_inv (w\<lparr>ws_buffer := x\<rparr>) = frag_inv w"
  "frag_inv (w\<lparr>ws_pending := pp\<rparr>) = frag_inv w" "frag_inv (w\<lparr>ws_queue := q\<rparr>) = frag_inv w"
  "frag_inv (send_frame p o' w) = frag_inv w" "frag_inv (note_inbound w) = frag_inv w"
  by (simp_all add: frag_inv_def send_frame_def note_inbound_def)

lemma frag_inv_enqueue: "frag_inv w \<Longrightarrow> frag_inv (enqueue_or_close p w)"
  by (simp add: enqueue_or_close_def)

lemma frag_inv_open: "frag_inv w \<Longrightarrow> opc = 1 \<or> opc = 2 \<Longrightarrow> frag_inv (snd (open_message fin opc p n w))"
  by (cases "feed_validator (if opc = 1 then Some utf8_init else None) p")
    (auto simp: open_message_def Let_def frag_inv_enqueue, auto simp: frag_inv_def frag_ok_def)

lemma frag_inv_continue:
  assumes "frag_inv w" "\<not> ws_closed w"
  shows "frag_inv (snd (continue_message fin p n w))"
proof (cases "ws_frag_opcode w")
  case (Some opc)
  show ?thesis
  proof (cases "feed_validator (ws_validator w) p")
    case v: (Some v)
    have "frag_inv (w\<lparr>ws_validator := v, ws_frag_buffer := ws_frag_buffer w @ p\<rparr>)"
      if "length (ws_frag_buffer w @ p) \<le> max_message_size"
      using that assms Some v by (auto simp: frag_inv_def frag_ok_def feed_validator_append)
    then show ?thesis using Some v by (simp add: continue_message_def Let_def)
  qed (simp add: continue_message_def Some)
qed (simp add: continue_message_def)

lemma frag_inv_apply: "frag_inv w \<Longrightarrow> \<not> ws_closed w \<Longrightarrow> frag_inv (snd (apply_frame gate fin opc p n w))"
  by (auto simp: apply_frame_def Let_def handle_close_closed frag_inv_open frag_inv_continue split: option.split)

lemma frag_inv_feed: "frag_inv w \<Longrightarrow> frag_inv (snd (feed_data gate d w))"
  by (induction rule: feed_data_invariant) (simp_all add: frag_inv_apply)

text \<open>What is left unparsed on an open connection is no whole frame.\<close>

definition parsed_out :: "ws \<Rightarrow> bool" where
  "parsed_out w \<longleftrightarrow> ws_closed w \<or> frame_of (ws_buffer w) = Incomplete"

lemma run_parsed_out: "run gate bs w = (r, rest, w') \<Longrightarrow> ws_closed w' \<or> frame_of rest = Incomplete"
proof (induction gate bs w arbitrary: r rest w' rule: run.induct)
  case (1 gate bs w)
  show ?case
  proof (cases "ws_closed w")
    case False
    show ?thesis
    proof (cases "frame_of bs")
      case (Frame fin opcode payload n)
      obtain st u where a: "apply_frame gate fin opcode payload n w = (st, u)" by fastforce
      show ?thesis
      proof (cases st)
        case (Took k)
        have "n > 0" using frame_of_length [OF Frame] by simp
        with took_zero_closed [of gate fin opcode payload n w u] a Took 1 False Frame show ?thesis
          by (cases "k = 0") (auto simp: run_open)
      qed (use 1(2) a False Frame raised_closed in \<open>auto simp: run_open\<close>)
    qed (use False 1(2) in \<open>auto simp: run_open\<close>)
  qed (use 1(2) in \<open>auto simp: run_closed\<close>)
qed

lemma feed_parsed_out: "parsed_out w \<Longrightarrow> parsed_out (snd (feed_data gate d w))"
proof (cases "d = []")
  case False
  obtain r rest w' where d: "run gate (ws_buffer w @ d) (note_inbound w) = (r, rest, w')" by (metis prod_cases3)
  with run_parsed_out [OF d] False show ?thesis by (simp add: feed_data_run parsed_out_def)
qed (simp add: feed_data_def)

lemma incomplete_payload_short:
  "frame_payload fin opc len offset bs = Incomplete \<Longrightarrow> length bs < offset + 4 + max_frame_size"
  by (auto simp: frame_payload_def Let_def split: if_splits)

lemma incomplete_short: "frame_of bs = Incomplete \<Longrightarrow> length bs < max_frame_size + 14"
  by (auto simp: frame_of_def frame_extended_def Let_def max_frame_size_def split: if_splits
      dest!: incomplete_payload_short)

section \<open>Invariants of the other steps\<close>

lemma walk_back_ok: "(walk_back bs = [] \<or> decodes (walk_back bs)) \<and> length (walk_back bs) \<le> length bs"
  by (induction bs rule: walk_back.induct) (auto simp del: butlast.simps)

lemma sanitise_ok:
  assumes "sanitise_close cd reason = (c, r)" "decodes reason"
  shows "\<not> bad_close_code c \<and> valid_utf8 r \<and> length r \<le> 123"
  using assms walk_back_ok [of "take 123 reason"]
  by (auto simp: sanitise_close_def Let_def decodes_iff split: if_splits)

lemma ws_inv_close_begin:
  assumes "ws_inv w" "decodes reason"
  shows "ws_inv (snd (close_begin cd reason w))"
proof (cases "ws_close_sent w")
  case False
  obtain c r where s: "sanitise_close cd reason = (c, r)" by fastforce
  from sanitise_ok [OF s assms(2)] have "close_payload_ok (to_bytes 2 c @ r)" by (intro close_payload_code) simp_all
  then have "frame_ok (8, to_bytes 2 c @ r)" by (simp add: frame_ok_def close_payload_ok_def)
  with s False assms(1) show ?thesis
    by (simp add: close_begin_def Let_def ws_inv_def send_frame_def cancel_heartbeat_def)
qed (use assms in \<open>simp add: close_begin_def\<close>)

lemma close_begin_closed: "ws_inv w \<Longrightarrow> ws_closed (snd (close_begin cd reason w))"
  by (simp add: close_begin_def Let_def send_frame_def cancel_heartbeat_def ws_inv_def split: prod.split)

lemma ws_inv_tick: "ws_inv w \<Longrightarrow> ws_inv (heartbeat_tick w)"
  by (auto simp: heartbeat_tick_def Let_def ws_inv_def close_heartbeat_timeout_def cancel_heartbeat_def
      wake_receiver_def queue_full_def send_frame_def frame_ok_def)

lemma tick_same:
  "ws_closed (heartbeat_tick w) \<or> (ws_frag_opcode (heartbeat_tick w) = ws_frag_opcode w
     \<and> ws_frag_buffer (heartbeat_tick w) = ws_frag_buffer w \<and> ws_validator (heartbeat_tick w) = ws_validator w
     \<and> ws_buffer (heartbeat_tick w) = ws_buffer w)"
  by (auto simp: heartbeat_tick_def Let_def close_heartbeat_timeout_def cancel_heartbeat_def
      wake_receiver_def queue_full_def send_frame_def)

lemma tick_closed: "ws_closed w \<Longrightarrow> ws_closed (heartbeat_tick w)"
  by (simp add: heartbeat_tick_def)

text \<open>An operation that only concerns the handler or the peer's answers leaves the parser alone.\<close>

definition same_parser :: "ws \<Rightarrow> ws \<Rightarrow> bool" where
  "same_parser w w' \<longleftrightarrow> ws_closed w' \<or> (\<not> ws_closed w \<and> ws_frag_opcode w' = ws_frag_opcode w
     \<and> ws_frag_buffer w' = ws_frag_buffer w \<and> ws_validator w' = ws_validator w \<and> ws_buffer w' = ws_buffer w)"

lemma same_parser_inv: "same_parser w w' \<Longrightarrow> frag_inv w \<and> parsed_out w \<Longrightarrow> frag_inv w' \<and> parsed_out w'"
  by (auto simp: same_parser_def frag_inv_def parsed_out_def)

lemma same_parser_refl [simp]: "same_parser w w"
  by (simp add: same_parser_def)

lemma same_parser_tick: "same_parser w (heartbeat_tick w)"
  using tick_same [of w] tick_closed [of w] by (auto simp: same_parser_def)

lemma same_parser_ops:
  "same_parser w (snd (accept key sub hs w))" "same_parser w (raw_send p opc w)"
  "same_parser w (snd (take_message w))" "same_parser w (snd (receive_raw w))"
  "same_parser w (flush_pending_pong w)" "same_parser w (close_end w)"
  by (auto simp: same_parser_def accept_def start_heartbeat_def raw_send_def send_frame_def take_message_def
      receive_raw_def flush_pending_pong_def close_end_def split: list.split received.split option.split)

lemma ws_inv_accept: "ws_inv w \<Longrightarrow> ws_inv (snd (accept key sub hs w))"
  by (auto simp: accept_def start_heartbeat_def ws_inv_def)

lemma ws_inv_take: "ws_inv w \<Longrightarrow> ws_inv (snd (take_message w))"
  by (auto simp: take_message_def ws_inv_def split: list.split received.split)

lemma ws_inv_receive: "ws_inv w \<Longrightarrow> ws_inv (snd (receive_raw w))"
  by (simp add: receive_raw_def ws_inv_take split: option.split)

lemma ws_inv_flush: "ws_inv w \<Longrightarrow> ws_inv (flush_pending_pong w)"
  by (auto simp: flush_pending_pong_def ws_inv_def send_frame_def frame_ok_def split: option.split)

definition conn_inv :: "conn \<Rightarrow> bool" where
  "conn_inv c \<longleftrightarrow> ws_inv (cn_ws c) \<and> frag_inv (cn_ws c) \<and> parsed_out (cn_ws c)
     \<and> list_all (\<lambda>(opc, d). opc \<in> {1, 2}) (cn_sends c)"

lemma conn_inv_ws:
  assumes "conn_inv c" "ws_inv w" "same_parser (cn_ws c) w"
  shows "conn_inv (c\<lparr>cn_ws := w\<rparr>)"
  using assms same_parser_inv [OF assms(3)] by (simp add: conn_inv_def)

lemma conn_inv_flags [simp]:
  "conn_inv (c\<lparr>cn_parked := b\<rparr>) = conn_inv c" "conn_inv (c\<lparr>cn_waiting := b\<rparr>) = conn_inv c"
  by (simp_all add: conn_inv_def)

lemma list_all_remove_nth: "list_all P xs \<Longrightarrow> list_all P (remove_nth i xs)"
  unfolding remove_nth_def list_all_iff by (auto dest: in_set_takeD in_set_dropD)

lemma conn_inv_step:
  assumes "conn_inv c"
  shows "conn_inv (conn_step gate e c)"
proof -
  have w: "ws_inv (cn_ws c)" using assms by (simp add: conn_inv_def)
  note [simp] = conn_inv_ws [OF assms] same_parser_ops same_parser_tick ws_inv_tick [OF w] ws_inv_accept [OF w]
  show ?thesis
  proof (cases e)
    case (Read d)
    with assms show ?thesis by (simp add: conn_inv_def ws_inv_feed frag_inv_feed feed_parsed_out)
  next
    case Timer
    with assms show ?thesis by simp
  next
    case (Accept key sub hs)
    then show ?thesis by simp
  next
    case (Send opc d)
    with assms show ?thesis by (simp add: conn_inv_def)
  next
    case (Drained i)
    show ?thesis
    proof (cases "i < length (cn_sends c)")
      case True
      let ?f = "cn_sends c ! i"
      have f: "fst ?f \<in> {1, 2}" using assms True by (auto simp: conn_inv_def list_all_length)
      then have "ws_inv (raw_send (snd ?f) (fst ?f) (cn_ws c))" unfolding raw_send_def
        by (intro ws_inv_send w) auto
      then have "conn_inv (c\<lparr>cn_ws := raw_send (snd ?f) (fst ?f) (cn_ws c)\<rparr>)" by simp
      with True Drained show ?thesis by (simp add: conn_inv_def list_all_remove_nth)
    qed (use Drained assms in simp)
  next
    case Receive
    obtain g u where g: "receive_raw (cn_ws c) = (g, u)" by fastforce
    with ws_inv_receive [OF w] same_parser_ops(4) [of "cn_ws c"] have u: "conn_inv (c\<lparr>cn_ws := u\<rparr>)" by simp
    then have "conn_inv (c\<lparr>cn_ws := u, cn_parked := True\<rparr>)" by (simp only: conn_inv_flags)
    with u g Receive assms show ?thesis by (cases g) simp_all
  next
    case Wake
    obtain g u where g: "take_message (cn_ws c) = (g, u)" by fastforce
    with ws_inv_take [OF w] same_parser_ops(3) [of "cn_ws c"] have "conn_inv (c\<lparr>cn_ws := u\<rparr>)" by simp
    then have "conn_inv (c\<lparr>cn_ws := u, cn_parked := False\<rparr>)" by (simp only: conn_inv_flags)
    with g Wake assms show ?thesis by (cases g) simp_all
  next
    case (Close cd reason)
    obtain b u where b: "close_begin cd reason (cn_ws c) = (b, u)" by fastforce
    have "same_parser (cn_ws c) u"
      using close_begin_closed [OF w, of cd reason] b by (simp add: same_parser_def)
    then have "conn_inv (c\<lparr>cn_ws := u\<rparr>)" if "decodes reason"
      using ws_inv_close_begin [OF w that, of cd] b by simp
    then have "conn_inv (c\<lparr>cn_ws := u, cn_waiting := v\<rparr>)" if "decodes reason" for v
      using that by (simp only: conn_inv_flags)
    with b Close assms show ?thesis by simp
  next
    case Close_Wait_Ends
    have "ws_inv (close_end (cn_ws c))" using w by (simp add: close_end_def ws_inv_def)
    then have "conn_inv (c\<lparr>cn_ws := close_end (cn_ws c)\<rparr>)" by simp
    then have "conn_inv (c\<lparr>cn_ws := close_end (cn_ws c), cn_waiting := False\<rparr>)" by (simp only: conn_inv_flags)
    with Close_Wait_Ends assms show ?thesis by simp
  next
    case Writable
    with ws_inv_flush [OF w] show ?thesis by simp
  qed
qed

lemma reachable_inv: "ws_reachable c \<Longrightarrow> conn_inv c"
proof (induction rule: ws_reachable.induct)
  case (start handshake_sent heartbeat maxsize)
  then show ?case by (simp add: conn_inv_def conn_init_def ws_init_def ws_inv_def closes_def frag_inv_def
        frag_ok_def parsed_out_def frame_of_def)
next
  case (step c gate e)
  then show ?case by (simp add: conn_inv_step)
qed

section \<open>Lemmas for the properties\<close>

lemma reachable_conn_step: "ws_reachable c \<Longrightarrow> ws_reachable (fold (conn_step gate) es c)"
  by (induction es arbitrary: c) (auto intro: ws_reachable.step)

text \<open>A completed text message passed the validator.\<close>

lemma validator_text:
  "feed_validator (Some utf8_init) m = Some v \<Longrightarrow> validator_done v \<Longrightarrow> valid_utf8 m"
  using utf8_accepts_iff [of m] by (auto simp: feed_validator_def validator_done_def split: option.splits)

lemma terminate_queue:
  "ws_queue (terminate_raw cd rc w) = ws_queue w @ [Message m] \<Longrightarrow> False"
  by (simp add: terminate_raw_def Let_def cancel_heartbeat_def wake_receiver_def queue_full_def send_frame_def
      split: if_splits)

lemma enqueue_queue: "ws_queue (enqueue_or_close p w) = ws_queue w @ [Message m] \<Longrightarrow> m = p"
  using terminate_queue [of 1009 True w m]
  by (simp add: enqueue_or_close_def close_too_big_def close_control_def split: if_splits)

lemma closings_keep:
  assumes "ws_queue u = ws_queue w"
  shows "ws_queue (close_too_big u) \<noteq> ws_queue w @ [Message m]"
    "ws_queue (close_protocol_error u) \<noteq> ws_queue w @ [Message m]"
    "ws_queue (close_invalid_payload u) \<noteq> ws_queue w @ [Message m]"
  using terminate_queue [of _ _ u m] assms
  by (auto simp: close_too_big_def close_protocol_error_def close_invalid_payload_def close_control_def)

lemma open_text:
  assumes "ws_queue (snd (open_message fin 1 p n w)) = ws_queue w @ [Message m]"
  shows "valid_utf8 m"
proof -
  have "\<exists>v. feed_validator (Some utf8_init) p = Some v \<and> validator_done v \<and> m = p"
    using assms closings_keep [of _ w] enqueue_queue [of p "reset_fragments w" m]
    by (auto simp: open_message_def Let_def reset_fragments_def split: if_splits option.splits)
  then show ?thesis using validator_text by blast
qed

lemma continue_text:
  assumes "frag_inv w" "\<not> ws_closed w" "ws_frag_opcode w = Some 1"
    and "ws_queue (snd (continue_message fin p n w)) = ws_queue w @ [Message m]"
  shows "valid_utf8 m"
proof -
  let ?b = "ws_frag_buffer w @ p"
  obtain v where v: "feed_validator (ws_validator w) p = Some v"
    using assms closings_keep [of _ w] by (auto simp: continue_message_def Let_def split: option.splits)
  have all: "feed_validator (Some utf8_init) ?b = Some v"
    using assms v by (auto simp: frag_inv_def frag_ok_def feed_validator_append)
  have "validator_done v \<and> m = ?b"
    using assms(3,4) v closings_keep [of "w\<lparr>ws_validator := v, ws_frag_buffer := ?b\<rparr>" w m]
      enqueue_queue [of ?b "w\<lparr>ws_validator := v, ws_frag_buffer := ?b\<rparr>" m]
    by (simp add: continue_message_def Let_def reset_fragments_def split: if_splits)
  with all validator_text show ?thesis by blast
qed

end
