(* ===== verification/Ws_Claims.thy ===== *)
theory Ws_Claims
  imports Ws_Lifecycle
begin

text \<open>
  The properties of the raw-transport WebSocket that hold on every reachable connection, whatever
  the transport, the timer, the handler and the peer do, and what they show of the closing
  handshake and of the heartbeat.
\<close>

section \<open>Closing and the heartbeat\<close>

definition close_pending :: "ws \<Rightarrow> bool" where
  "close_pending w \<longleftrightarrow> ws_closed w \<and> ws_close_sent w \<and> ws_peer_event w = Some False"

lemma close_pending_feed: "close_pending w \<Longrightarrow> close_pending (snd (feed_data gate d w))"
  by (cases "d = []") (simp add: feed_data_def, simp add: feed_data_run run_closed close_pending_def note_inbound_def)

lemma close_pending_step:
  assumes "close_pending (cn_ws c)"
  shows "close_pending (cn_ws (conn_step gate e c))"
proof (cases e)
  case (Read d)
  with assms show ?thesis by (simp add: close_pending_feed)
next
  case Receive
  obtain g u where "receive_raw (cn_ws c) = (g, u)" by fastforce
  moreover from this assms have "close_pending u"
    by (simp add: receive_raw_def check_can_receive_def close_pending_def split: if_splits)
  ultimately show ?thesis using Receive assms by (cases g) simp_all
next
  case Wake
  obtain g u where "take_message (cn_ws c) = (g, u)" by fastforce
  moreover from this assms have "close_pending u"
    by (auto simp: take_message_def close_pending_def split: list.splits received.splits)
  ultimately show ?thesis using Wake assms by (cases g) simp_all
next
  case (Close cd reason)
  with assms show ?thesis by (simp add: close_begin_def close_pending_def)
qed (use assms in \<open>simp_all add: close_pending_def heartbeat_tick_def accept_def raw_send_def send_frame_def
      close_end_def flush_pending_pong_def split: option.split\<close>)

lemma close_pending_steps:
  "close_pending (cn_ws c) \<Longrightarrow> close_pending (cn_ws (fold (\<lambda>(gate, e). conn_step gate e) steps c))"
  by (induction steps arbitrary: c) (auto simp: close_pending_step)

definition armed :: "ws \<Rightarrow> bool" where
  "armed w \<longleftrightarrow> ws_heartbeat w \<and> ws_handle w \<and> \<not> ws_closed w \<and> \<not> ws_saw_inbound w \<and> ws_token w = None"

definition heard :: "ws \<Rightarrow> bool" where
  "heard w \<longleftrightarrow> ws_closed w \<or> (ws_heartbeat w \<and> ws_handle w \<and> ws_saw_inbound w)"

lemma heard_steps [simp]:
  "heard (w\<lparr>ws_frag_opcode := a\<rparr>) = heard w" "heard (w\<lparr>ws_frag_buffer := b\<rparr>) = heard w"
  "heard (w\<lparr>ws_validator := v\<rparr>) = heard w" "heard (w\<lparr>ws_token := t\<rparr>) = heard w"
  "heard (w\<lparr>ws_pending := pp\<rparr>) = heard w" "heard (w\<lparr>ws_queue := q\<rparr>) = heard w"
  "heard (with_buffer x w) = heard w" "heard (send_frame p o' w) = heard w" "heard (reset_fragments w) = heard w"
  "ws_closed w \<Longrightarrow> heard w" "heard w \<Longrightarrow> heard (enqueue_or_close p w)"
  by (simp_all add: heard_def send_frame_def reset_fragments_def enqueue_or_close_def)

lemma heard_open: "heard w \<Longrightarrow> heard (snd (open_message fin opc p n w))"
  by (cases "feed_validator (if opc = 1 then Some utf8_init else None) p") (simp_all add: open_message_def Let_def)

lemma heard_continue: "heard w \<Longrightarrow> heard (snd (continue_message fin p n w))"
  by (cases "feed_validator (ws_validator w) p") (simp_all add: continue_message_def Let_def)

lemma heard_apply: "heard w \<Longrightarrow> heard (snd (apply_frame gate fin opc p n w))"
  by (simp add: apply_frame_def handle_close_closed heard_open heard_continue Let_def split: option.split)

lemma heard_feed:
  assumes "ws_heartbeat w" "ws_handle w" "d \<noteq> []"
  shows "heard (snd (feed_data gate d w))"
proof -
  have "heard (note_inbound w)" using assms by (simp add: heard_def note_inbound_def)
  then have "heard (snd (snd (run gate (ws_buffer w @ d) (note_inbound w))))"
    by (rule run_invariant) (simp_all add: heard_apply)
  then show ?thesis using assms(3) by (cases "run gate (ws_buffer w @ d) (note_inbound w)") (simp add: feed_data_run)
qed

section \<open>A connection to try them on\<close>

definition greeted :: conn where
  "greeted = conn_step (\<lambda>_. True) (Accept ''key'' None None) (conn_init False True None)"

lemma greeted_reachable: "ws_reachable greeted"
  unfolding greeted_def by (rule ws_reachable.step [OF ws_reachable.start])

lemma greeted_ws:
  "cn_ws greeted = (ws_init False True None)
     \<lparr>ws_handshake := Some (accept_response ''key'' None None), ws_accepted := True, ws_handle := True\<rparr>"
  by (simp add: greeted_def conn_init_def accept_def start_heartbeat_def ws_init_def)

section \<open>Properties\<close>



text \<open>C34: However the ways to close race (a violation, the peer's Close, \<open>close()\<close>, the heartbeat), at most
  one Close frame is ever written, exactly when \<open>_close_frame_sent\<close> says so; its status code is one
  that may appear on the wire, its reason is UTF-8, and every control frame fits in 125 bytes.\<close>

theorem ws_one_close_frame:
  assumes "ws_reachable c"
  shows "closes (ws_written (cn_ws c)) = (if ws_close_sent (cn_ws c) then 1 else 0)
    \<and> (ws_close_sent (cn_ws c) \<longrightarrow> ws_closed (cn_ws c))
    \<and> (\<forall>opc p. (opc, p) \<in> set (ws_written (cn_ws c)) \<longrightarrow>
         (opc \<ge> 8 \<longrightarrow> length p \<le> 125) \<and> (opc = 8 \<longrightarrow> close_payload_ok p))"
  using reachable_inv [OF assms] by (auto simp: conn_inv_def ws_inv_def frame_ok_def list_all_iff)

theorem ws_one_close_frame_witness:
  "closes (ws_written (cn_ws (conn_step (\<lambda>_. True) (Close 1000 []) greeted))) = 1"
proof -
  have "ws_close_sent (cn_ws (conn_step (\<lambda>_. True) (Close 1000 []) greeted))"
    by (simp add: greeted_ws ws_init_def decodes_def utf8_init_def utf8_done_def close_begin_def sanitise_close_def
        Let_def send_frame_def cancel_heartbeat_def)
  with ws_one_close_frame [OF ws_reachable.step [OF greeted_reachable], of "\<lambda>_. True" "Close 1000 []"] show ?thesis
    by simp
qed

text \<open>C35: A text message that reaches the handler is UTF-8, whole or assembled from fragments, so that
  \<open>receive_text\<close> never fails to decode it.\<close>

theorem ws_text_messages_utf8:
  assumes "ws_reachable c" "\<not> ws_closed (cn_ws c)"
    and "opc = 1 \<or> (opc = 0 \<and> ws_frag_opcode (cn_ws c) = Some 1)"
    and "ws_queue (snd (apply_frame gate fin opc payload n (cn_ws c))) = ws_queue (cn_ws c) @ [Message m]"
  shows "valid_utf8 m"
proof -
  have "frag_inv (cn_ws c)" using reachable_inv [OF assms(1)] by (simp add: conn_inv_def)
  with assms(2-4) show ?thesis
    using open_text [of fin payload n "cn_ws c" m] continue_text [of "cn_ws c" fin payload n m]
    by (auto simp: apply_frame_def)
qed

theorem ws_text_messages_utf8_witness: "valid_utf8 [0xC3, 0xA9]"
proof (rule ws_text_messages_utf8 [OF greeted_reachable])
  show "\<not> ws_closed (cn_ws greeted)" by (simp add: greeted_ws ws_init_def)
  show "(1::nat) = 1 \<or> ((1::nat) = 0 \<and> ws_frag_opcode (cn_ws greeted) = Some 1)" by simp
  show "ws_queue (snd (apply_frame (\<lambda>_. True) True 1 [0xC3, 0xA9] 8 (cn_ws greeted)))
      = ws_queue (cn_ws greeted) @ [Message [0xC3, 0xA9]]"
    by (simp add: apply_frame_def open_message_def feed_validator_def utf8_init_def utf8_byte_def validator_done_def
        utf8_done_def enqueue_or_close_def reset_fragments_def queue_full_def greeted_ws ws_init_def default_maxsize_def)
qed

text \<open>A close that the server starts waits for the peer's Close frame in vain: \<open>close()\<close> sets \<open>_closed\<close>
  before it waits, and \<open>feed_data\<close> parses nothing on a closed connection, so that whatever the peer
  sends and whatever else happens the event is never set and the wait only ends at its timeout.\<close>

theorem server_close_never_answered:
  assumes "\<not> ws_peer_closed (cn_ws c)" "\<not> ws_close_sent (cn_ws c)"
    and "close_begin cd reason (cn_ws c) = (waits, w1)"
  shows "waits \<and> \<not> close_ready (cn_ws (fold (\<lambda>(gate, e). conn_step gate e) steps (c\<lparr>cn_ws := w1\<rparr>)))"
proof -
  have "close_pending w1" using assms
    by (auto simp: close_begin_def Let_def close_pending_def send_frame_def cancel_heartbeat_def split: prod.splits)
  then have "close_pending (cn_ws (fold (\<lambda>(gate, e). conn_step gate e) steps (c\<lparr>cn_ws := w1\<rparr>)))"
    by (intro close_pending_steps) simp
  moreover have waits using assms by (auto simp: close_begin_def Let_def split: prod.splits)
  ultimately show ?thesis by (simp add: close_pending_def close_ready_def)
qed

theorem server_close_never_answered_witness:
  "\<not> close_ready (cn_ws (conn_step (\<lambda>_. True) (Read (client_frame True 8 [1, 2, 3, 4] [3, 232]))
     (greeted\<lparr>cn_ws := snd (close_begin 1000 [] (cn_ws greeted))\<rparr>)))"
proof -
  have "\<not> ws_peer_closed (cn_ws greeted)" "\<not> ws_close_sent (cn_ws greeted)" by (simp_all add: greeted_ws ws_init_def)
  from server_close_never_answered [OF this, of 1000 "[]" "fst (close_begin 1000 [] (cn_ws greeted))"
      "snd (close_begin 1000 [] (cn_ws greeted))" "[(\<lambda>_. True, Read (client_frame True 8 [1, 2, 3, 4] [3, 232]))]"]
  show ?thesis by simp
qed

text \<open>The heartbeat finds a dead peer and spares a live one: a window without any byte sends one ping, a
  second one drops the connection with 1006; any byte that comes in between keeps the connection
  open and opens a new window.\<close>

theorem heartbeat_windows:
  assumes "armed w"
  shows "ws_written (heartbeat_tick w) = ws_written w @ [(9, to_bytes 4 (ws_next_token w))]
    \<and> \<not> ws_closed (heartbeat_tick w)
    \<and> ws_closed (heartbeat_tick (heartbeat_tick w)) \<and> ws_dropped (heartbeat_tick (heartbeat_tick w))
    \<and> ws_code (heartbeat_tick (heartbeat_tick w)) = Some 1006
    \<and> (\<forall>d gate w2. d \<noteq> [] \<longrightarrow> w2 = snd (feed_data gate d (heartbeat_tick w)) \<longrightarrow> \<not> ws_closed w2 \<longrightarrow>
         armed (heartbeat_tick w2))"
proof -
  have t: "ws_heartbeat (heartbeat_tick w)" "ws_handle (heartbeat_tick w)"
    using assms by (simp_all add: armed_def heartbeat_tick_def send_frame_def Let_def)
  have "armed (heartbeat_tick w2)" if "d \<noteq> []" "w2 = snd (feed_data gate d (heartbeat_tick w))" "\<not> ws_closed w2" for d gate w2
    using heard_feed [OF t that(1), of gate] that by (simp add: heard_def armed_def heartbeat_tick_def Let_def)
  moreover have "ws_written (heartbeat_tick w) = ws_written w @ [(9, to_bytes 4 (ws_next_token w))]
    \<and> \<not> ws_closed (heartbeat_tick w)
    \<and> ws_closed (heartbeat_tick (heartbeat_tick w)) \<and> ws_dropped (heartbeat_tick (heartbeat_tick w))
    \<and> ws_code (heartbeat_tick (heartbeat_tick w)) = Some 1006"
    using assms by (simp add: armed_def heartbeat_tick_def send_frame_def Let_def close_heartbeat_timeout_def
        cancel_heartbeat_def wake_receiver_def)
  ultimately show ?thesis by blast
qed

theorem heartbeat_windows_witness:
  "ws_code (heartbeat_tick (heartbeat_tick (cn_ws greeted))) = Some 1006"
proof -
  have "armed (cn_ws greeted)" by (simp add: armed_def greeted_ws ws_init_def)
  from heartbeat_windows [OF this] show ?thesis by simp
qed

text \<open>A send that waits for the transport to drain is not checked again: its data frame can follow the
  Close frame that \<open>close()\<close> wrote in the meantime.\<close>

theorem data_frame_after_close:
  "map fst (ws_written (cn_ws (fold (conn_step (\<lambda>_. True)) [Send 2 [7], Close 1000 [], Drained 0] greeted))) = [8, 2]"
  by (simp add: greeted_def conn_init_def accept_def start_heartbeat_def ws_init_def send_check_def decodes_def
      utf8_init_def utf8_done_def close_begin_def sanitise_close_def Let_def send_frame_def cancel_heartbeat_def
      raw_send_def)

end
