(* ===== verification/Session_Store.thy ===== *)
theory Session_Store
  imports Py_Base Complex_Main
begin

text \<open>
  Sessions: the \<open>Session\<close> dictionary that tracks its changes and the in-memory store of
  \<open>src/src/veloce/sessions.py\<close>. The clock is a rational argument; the random choice of the sweep is
  a boolean one. The locale states what a \<open>SessionStore\<close> promises in terms of what is live.
\<close>

section \<open>The session dictionary\<close>

record 'v session =
  ss_data :: "(string, 'v) dict"
  ss_new :: bool
  ss_modified :: bool
  ss_regenerate :: bool
  ss_accessed :: bool

definition session_init :: "(string, 'v) dict \<Rightarrow> 'v session" where
  "session_init d = \<lparr>ss_data = d, ss_new = False, ss_modified = False, ss_regenerate = False, ss_accessed = False\<rparr>"

definition touched :: "(string, 'v) dict \<Rightarrow> 'v session \<Rightarrow> 'v session" where
  "touched d s = s\<lparr>ss_data := d, ss_modified := True\<rparr>"

definition ss_setitem :: "string \<Rightarrow> 'v \<Rightarrow> 'v session \<Rightarrow> 'v session" where
  "ss_setitem k v s = touched (dict_set k v (ss_data s)) s"

definition ss_delitem :: "string \<Rightarrow> 'v session \<Rightarrow> unit res \<times> 'v session" where
  "ss_delitem k s =
     (if map_of (ss_data s) k = None then (Inl KeyError, s) else (Inr (), touched (dict_del k (ss_data s)) s))"

definition ss_clear :: "'v session \<Rightarrow> 'v session" where
  "ss_clear s = touched [] s"

text \<open>\<open>pop\<close> with an optional dflt.\<close>

definition ss_pop :: "string \<Rightarrow> 'v option \<Rightarrow> 'v session \<Rightarrow> 'v res \<times> 'v session" where
  "ss_pop k dflt s =
     (case map_of (ss_data s) k of
        Some v \<Rightarrow> (Inr v, touched (dict_del k (ss_data s)) s)
      | None \<Rightarrow> (case dflt of None \<Rightarrow> (Inl KeyError, s) | Some v \<Rightarrow> (Inr v, s)))"

definition ss_popitem :: "'v session \<Rightarrow> (string \<times> 'v) res \<times> 'v session" where
  "ss_popitem s =
     (if ss_data s = [] then (Inl KeyError, s) else (Inr (last (ss_data s)), touched (butlast (ss_data s)) s))"

definition ss_setdefault :: "string \<Rightarrow> 'v \<Rightarrow> 'v session \<Rightarrow> 'v \<times> 'v session" where
  "ss_setdefault k v s =
     (case map_of (ss_data s) k of Some u \<Rightarrow> (u, s) | None \<Rightarrow> (v, touched (dict_set k v (ss_data s)) s))"

definition dict_update :: "(string \<times> 'v) list \<Rightarrow> (string, 'v) dict \<Rightarrow> (string, 'v) dict" where
  "dict_update kvs d = fold (\<lambda>(k, v). dict_set k v) kvs d"

text \<open>The positional argument of \<open>update\<close>: none, a mapping, or an iterable of pairs.\<close>

datatype 'v update_arg = No_Arg | Mapping "(string \<times> 'v) list" | Pairs "(string \<times> 'v) list"

definition ss_update :: "'v update_arg \<Rightarrow> (string \<times> 'v) list \<Rightarrow> 'v session \<Rightarrow> 'v session" where
  "ss_update a kwargs s =
     (let kvs = (case a of No_Arg \<Rightarrow> [] | Mapping m \<Rightarrow> m | Pairs p \<Rightarrow> p);
          s1 = s\<lparr>ss_data := dict_update kwargs (dict_update kvs (ss_data s))\<rparr>
      in if kwargs \<noteq> [] then s1\<lparr>ss_modified := True\<rparr>
         else (case a of
                 No_Arg \<Rightarrow> s1
               | Mapping m \<Rightarrow> if m = [] then s1 else s1\<lparr>ss_modified := True\<rparr>
               | Pairs p \<Rightarrow> s1\<lparr>ss_modified := True\<rparr>))"

definition ss_ior :: "(string \<times> 'v) list \<Rightarrow> 'v session \<Rightarrow> 'v session" where
  "ss_ior kvs s = touched (dict_update kvs (ss_data s)) s"

definition regenerate_id :: "'v session \<Rightarrow> 'v session" where
  "regenerate_id s = s\<lparr>ss_regenerate := True, ss_modified := True\<rparr>"

text \<open>\<open>permanent\<close>; the truth value of a stored value is an argument.\<close>

definition permanent :: "('v \<Rightarrow> bool) \<Rightarrow> 'v session \<Rightarrow> bool" where
  "permanent truth s = (case map_of (ss_data s) ''_permanent'' of None \<Rightarrow> False | Some v \<Rightarrow> truth v)"

text \<open>What a handler can do with its session.\<close>

datatype 'v session_op =
    Set_Item string 'v
  | Del_Item string
  | Clear
  | Pop string "'v option"
  | Pop_Item
  | Set_Default string 'v
  | Update "'v update_arg" "(string \<times> 'v) list"
  | Ior "(string \<times> 'v) list"
  | Regenerate
  | Access

fun session_do :: "'v session_op \<Rightarrow> 'v session \<Rightarrow> 'v session" where
  "session_do (Set_Item k v) s = ss_setitem k v s"
| "session_do (Del_Item k) s = snd (ss_delitem k s)"
| "session_do Clear s = ss_clear s"
| "session_do (Pop k dflt) s = snd (ss_pop k dflt s)"
| "session_do Pop_Item s = snd (ss_popitem s)"
| "session_do (Set_Default k v) s = snd (ss_setdefault k v s)"
| "session_do (Update a kwargs) s = ss_update a kwargs s"
| "session_do (Ior kvs) s = ss_ior kvs s"
| "session_do Regenerate s = regenerate_id s"
| "session_do Access s = s\<lparr>ss_accessed := True\<rparr>"

lemma session_op_unmodified:
  "\<not> ss_modified (session_do e s) \<Longrightarrow>
     \<not> ss_modified s \<and> ss_data (session_do e s) = ss_data s \<and> ss_regenerate (session_do e s) = ss_regenerate s"
  by (cases e) (auto simp: ss_setitem_def ss_delitem_def ss_clear_def ss_pop_def ss_popitem_def ss_setdefault_def
      ss_update_def ss_ior_def regenerate_id_def touched_def dict_update_def Let_def
      split: option.splits update_arg.splits if_splits)

lemma session_ops_unmodified:
  "\<not> ss_modified (fold session_do es s) \<Longrightarrow>
     ss_data (fold session_do es s) = ss_data s \<and> ss_regenerate (fold session_do es s) = ss_regenerate s
     \<and> \<not> ss_modified s"
proof (induction es arbitrary: s)
  case (Cons e es)
  then show ?case using session_op_unmodified [of e s] by auto
qed simp

section \<open>The in-memory store\<close>

record 'v mem_store =
  ms_entries :: "(string, (string, 'v) dict \<times> rat) dict"
  ms_threshold :: nat

definition ms_init :: "nat \<Rightarrow> 'v mem_store" where
  "ms_init threshold = \<lparr>ms_entries = [], ms_threshold = threshold\<rparr>"

definition ms_drop :: "string \<Rightarrow> 'v mem_store \<Rightarrow> 'v mem_store" where
  "ms_drop sid st = st\<lparr>ms_entries := dict_del sid (ms_entries st)\<rparr>"

definition ms_read :: "rat \<Rightarrow> string \<Rightarrow> 'v mem_store \<Rightarrow> (string, 'v) dict option \<times> 'v mem_store" where
  "ms_read now sid st =
     (case map_of (ms_entries st) sid of
        None \<Rightarrow> (None, st)
      | Some (d, expires_at) \<Rightarrow> if expires_at \<le> now then (None, ms_drop sid st) else (Some d, st))"

definition sweep_expired :: "rat \<Rightarrow> 'v mem_store \<Rightarrow> nat \<times> 'v mem_store" where
  "sweep_expired now st =
     (let expired = map fst (filter (\<lambda>(sid, d, e). e \<le> now) (ms_entries st))
      in (length expired, fold ms_drop expired st))"

definition maybe_sweep :: "bool \<Rightarrow> rat \<Rightarrow> 'v mem_store \<Rightarrow> 'v mem_store" where
  "maybe_sweep lucky now st =
     (if length (ms_entries st) \<ge> ms_threshold st \<and> lucky then snd (sweep_expired now st) else st)"

definition ms_write :: "bool \<Rightarrow> rat \<Rightarrow> string \<Rightarrow> (string, 'v) dict \<Rightarrow> rat \<Rightarrow> 'v mem_store \<Rightarrow> 'v mem_store" where
  "ms_write lucky now sid d max_age st =
     maybe_sweep lucky now (st\<lparr>ms_entries := dict_set sid (d, now + max_age) (ms_entries st)\<rparr>)"

definition ms_delete :: "string \<Rightarrow> 'v mem_store \<Rightarrow> 'v mem_store" where
  "ms_delete sid st = ms_drop sid st"

definition ms_replace :: "bool \<Rightarrow> rat \<Rightarrow> string \<Rightarrow> (string, 'v) dict \<Rightarrow> rat \<Rightarrow> 'v mem_store \<Rightarrow> bool \<times> 'v mem_store" where
  "ms_replace lucky now sid d max_age st =
     (case map_of (ms_entries st) sid of
        None \<Rightarrow> (False, ms_drop sid st)
      | Some (old, e) \<Rightarrow>
          if e \<le> now then (False, ms_drop sid st) else (True, ms_write lucky now sid d max_age st))"

definition ms_touch :: "rat \<Rightarrow> string \<Rightarrow> rat \<Rightarrow> 'v mem_store \<Rightarrow> bool \<times> 'v mem_store" where
  "ms_touch now sid max_age st =
     (case map_of (ms_entries st) sid of
        None \<Rightarrow> (False, ms_drop sid st)
      | Some (d, e) \<Rightarrow>
          if e \<le> now then (False, ms_drop sid st)
          else (True, st\<lparr>ms_entries := dict_set sid (d, now + max_age) (ms_entries st)\<rparr>))"

definition ms_clear :: "'v mem_store \<Rightarrow> nat \<times> 'v mem_store" where
  "ms_clear st = (length (ms_entries st), st\<lparr>ms_entries := []\<rparr>)"

definition ms_expires_at :: "rat \<Rightarrow> string \<Rightarrow> 'v mem_store \<Rightarrow> rat option" where
  "ms_expires_at now sid st =
     (case map_of (ms_entries st) sid of
        None \<Rightarrow> None | Some (d, e) \<Rightarrow> if e \<le> now then None else Some e)"

definition ms_contains :: "rat \<Rightarrow> string \<Rightarrow> 'v mem_store \<Rightarrow> bool" where
  "ms_contains now sid st \<longleftrightarrow> ms_expires_at now sid st \<noteq> None"

definition ms_iter :: "rat \<Rightarrow> 'v mem_store \<Rightarrow> string list" where
  "ms_iter now st = map fst (filter (\<lambda>(sid, d, e). e > now) (ms_entries st))"

definition ms_len :: "rat \<Rightarrow> 'v mem_store \<Rightarrow> nat" where
  "ms_len now st = length (filter (\<lambda>(sid, d, e). e > now) (ms_entries st))"

text \<open>The live payload of an id.\<close>

definition ms_live :: "rat \<Rightarrow> 'v mem_store \<Rightarrow> string \<Rightarrow> (string, 'v) dict option" where
  "ms_live now st sid =
     (case map_of (ms_entries st) sid of None \<Rightarrow> None | Some (d, e) \<Rightarrow> if e \<le> now then None else Some d)"

section \<open>What a store promises\<close>

text \<open>
  \<open>live now st sid\<close> is the payload of an id at a time. A read gives it and changes nothing; a write
  makes the payload live for its age; a delete ends it; a conditional write and a renewal act on
  a live id only. Whatever else the store does (dropping what is dead) cannot be seen.
\<close>

locale session_store =
  fixes ok :: "'s \<Rightarrow> bool"
    and live :: "rat \<Rightarrow> 's \<Rightarrow> string \<Rightarrow> 'd option"
    and read_op :: "rat \<Rightarrow> string \<Rightarrow> 's \<Rightarrow> 'd option \<times> 's"
    and write_op :: "bool \<Rightarrow> rat \<Rightarrow> string \<Rightarrow> 'd \<Rightarrow> rat \<Rightarrow> 's \<Rightarrow> 's"
    and delete_op :: "string \<Rightarrow> 's \<Rightarrow> 's"
    and replace_op :: "bool \<Rightarrow> rat \<Rightarrow> string \<Rightarrow> 'd \<Rightarrow> rat \<Rightarrow> 's \<Rightarrow> bool \<times> 's"
    and touch_op :: "rat \<Rightarrow> string \<Rightarrow> rat \<Rightarrow> 's \<Rightarrow> bool \<times> 's"
  assumes read_ok: "ok st \<Longrightarrow> ok (snd (read_op now sid st))"
    and write_ok: "ok st \<Longrightarrow> ok (write_op lucky now sid d max_age st)"
    and delete_ok: "ok st \<Longrightarrow> ok (delete_op sid st)"
    and replace_ok: "ok st \<Longrightarrow> ok (snd (replace_op lucky now sid d max_age st))"
    and touch_ok: "ok st \<Longrightarrow> ok (snd (touch_op now sid max_age st))"
    and read_live: "fst (read_op now sid st) = live now st sid"
    and read_same: "now \<le> later \<Longrightarrow> live later (snd (read_op now sid st)) = live later st"
    and write_live: "ok st \<Longrightarrow> now \<le> later \<Longrightarrow>
      live later (write_op lucky now sid d max_age st)
        = (live later st)(sid := if later < now + max_age then Some d else None)"
    and delete_live: "live later (delete_op sid st) = (live later st)(sid := None)"
    and replace_done: "fst (replace_op lucky now sid d max_age st) \<longleftrightarrow> live now st sid \<noteq> None"
    and replace_live: "ok st \<Longrightarrow> now \<le> later \<Longrightarrow> live later (snd (replace_op lucky now sid d max_age st))
      = (if live now st sid = None then live later st
         else (live later st)(sid := if later < now + max_age then Some d else None))"
    and touch_done: "fst (touch_op now sid max_age st) \<longleftrightarrow> live now st sid \<noteq> None"
    and touch_live: "now \<le> later \<Longrightarrow> live later (snd (touch_op now sid max_age st))
      = (if live now st sid = None then live later st
         else (live later st)(sid := if later < now + max_age then live now st sid else None))"
    and live_before: "now \<le> later \<Longrightarrow> live later st sid \<noteq> None \<Longrightarrow> live now st sid = live later st sid"
begin

text \<open>A dead id stays dead under everything but a write of that very id.\<close>

definition dead :: "rat \<Rightarrow> 's \<Rightarrow> string \<Rightarrow> bool" where
  "dead now st sid \<longleftrightarrow> (\<forall>later \<ge> now. live later st sid = None)"

lemma deadI: "live now st sid = None \<Longrightarrow> dead now st sid"
  unfolding dead_def using live_before by (metis option.distinct(1))

lemma dead_live: "dead now st sid \<Longrightarrow> live now st sid = None"
  by (simp add: dead_def)

lemma dead_later: "dead now st sid \<Longrightarrow> now \<le> later \<Longrightarrow> dead later st sid"
  by (simp add: dead_def)

lemma dead_read: "dead now st sid \<Longrightarrow> dead now (snd (read_op now k st)) sid"
  by (simp add: dead_def read_same)

lemma dead_write: "ok st \<Longrightarrow> dead now st sid \<Longrightarrow> k \<noteq> sid \<Longrightarrow> dead now (write_op lucky now k d max_age st) sid"
  by (simp add: dead_def write_live)

lemma dead_delete: "dead now st sid \<Longrightarrow> dead now (delete_op k st) sid"
  by (simp add: dead_def delete_live)

lemma dead_deleted: "dead now (delete_op sid st) sid"
  by (simp add: dead_def delete_live)

lemma dead_replace: "ok st \<Longrightarrow> dead now st sid \<Longrightarrow> dead now (snd (replace_op lucky now k d max_age st)) sid"
  by (auto simp: dead_def replace_live)

lemma dead_touch: "dead now st sid \<Longrightarrow> dead now (snd (touch_op now k max_age st)) sid"
  by (auto simp: dead_def touch_live)

end

section \<open>The in-memory store keeps the promise\<close>

definition store_wf :: "'v mem_store \<Rightarrow> bool" where
  "store_wf st \<longleftrightarrow> dict_ok (ms_entries st)"

lemma map_of_drop: "map_of (ms_entries (ms_drop sid st)) = (map_of (ms_entries st))(sid := None)"
  by (rule ext) (simp add: ms_drop_def map_of_del)

lemma threshold_drop [simp]: "ms_threshold (ms_drop sid st) = ms_threshold st"
  by (simp add: ms_drop_def)

lemma map_of_fold_drop:
  "map_of (ms_entries (fold ms_drop sids st)) sid = (if sid \<in> set sids then None else map_of (ms_entries st) sid)"
  by (induction sids arbitrary: st) (auto simp: map_of_drop)

lemma live_drop: "ms_live now (ms_drop sid st) = (ms_live now st)(sid := None)"
  by (rule ext) (simp add: ms_live_def map_of_drop)

lemma live_drop_dead: "ms_live now st sid = None \<Longrightarrow> now \<le> later \<Longrightarrow> ms_live later (ms_drop sid st) = ms_live later st"
  by (rule ext) (auto simp: live_drop ms_live_def split: option.splits if_splits)

lemma live_set:
  "ms_live later (st\<lparr>ms_entries := dict_set sid (d, e) (ms_entries st)\<rparr>)
    = (ms_live later st)(sid := if later < e then Some d else None)"
  by (rule ext) (auto simp: ms_live_def map_of_set)

lemma wf_drop [simp]: "store_wf st \<Longrightarrow> store_wf (ms_drop sid st)"
  by (simp add: store_wf_def ms_drop_def dict_ok_del)

lemma wf_set [simp]: "store_wf st \<Longrightarrow> store_wf (st\<lparr>ms_entries := dict_set sid x (ms_entries st)\<rparr>)"
  by (simp add: store_wf_def dict_ok_set)

lemma wf_fold_drop: "store_wf st \<Longrightarrow> store_wf (fold ms_drop sids st)"
  by (induction sids arbitrary: st) simp_all

lemma live_sweep:
  assumes "now \<le> later" "store_wf st"
  shows "ms_live later (snd (sweep_expired now st)) = ms_live later st"
proof
  fix sid
  have "e \<le> now" if "map_of (ms_entries st) sid = Some (d, e)" "(sid, d', e') \<in> set (ms_entries st)" "e' \<le> now" for d e d' e'
    using that map_of_is_SomeI [of "ms_entries st" sid "(d', e')"] assms(2) by (simp add: store_wf_def dict_ok_def)
  then show "ms_live later (snd (sweep_expired now st)) sid = ms_live later st sid"
    using assms(1) by (force simp: sweep_expired_def Let_def ms_live_def map_of_fold_drop split: option.split)
qed

lemma wf_maybe_sweep [simp]: "store_wf st \<Longrightarrow> store_wf (maybe_sweep lucky now st)"
  by (simp add: maybe_sweep_def sweep_expired_def Let_def wf_fold_drop)

lemma live_maybe_sweep: "now \<le> later \<Longrightarrow> store_wf st \<Longrightarrow> ms_live later (maybe_sweep lucky now st) = ms_live later st"
  by (simp add: maybe_sweep_def live_sweep)

lemma wf_write [simp]: "store_wf st \<Longrightarrow> store_wf (ms_write lucky now sid d max_age st)"
  by (simp add: ms_write_def)

lemma live_write:
  "now \<le> later \<Longrightarrow> store_wf st \<Longrightarrow> ms_live later (ms_write lucky now sid d max_age st)
     = (ms_live later st)(sid := if later < now + max_age then Some d else None)"
  by (simp add: ms_write_def live_maybe_sweep live_set)

lemma replace_unfold:
  "ms_replace lucky now sid d max_age st =
     (if ms_live now st sid = None then (False, ms_drop sid st) else (True, ms_write lucky now sid d max_age st))"
  by (auto simp: ms_replace_def ms_live_def split: option.split)

lemma touch_unfold:
  "ms_touch now sid max_age st =
     (case ms_live now st sid of
        None \<Rightarrow> (False, ms_drop sid st)
      | Some d \<Rightarrow> (True, st\<lparr>ms_entries := dict_set sid (d, now + max_age) (ms_entries st)\<rparr>))"
  by (auto simp: ms_touch_def ms_live_def split: option.split)

lemma read_unfold: "ms_read now sid st = (ms_live now st sid, snd (ms_read now sid st))"
  by (auto simp: ms_read_def ms_live_def split: option.split)

lemma live_read: "now \<le> later \<Longrightarrow> ms_live later (snd (ms_read now sid st)) = ms_live later st"
  by (auto simp: ms_read_def split: option.split intro!: live_drop_dead) (simp add: ms_live_def)

interpretation ms: session_store store_wf ms_live ms_read ms_write ms_delete ms_replace ms_touch
proof unfold_locales
  fix now later max_age :: rat and sid and st :: "'a mem_store" and d :: "(string, 'a) dict" and lucky
  show "fst (ms_read now sid st) = ms_live now st sid" by (subst read_unfold) simp
  show "now \<le> later \<Longrightarrow> ms_live later (snd (ms_read now sid st)) = ms_live later st" by (rule live_read)
  show "ms_live later (ms_delete sid st) = (ms_live later st)(sid := None)" by (simp add: ms_delete_def live_drop)
  show "now \<le> later \<Longrightarrow> ms_live later st sid \<noteq> None \<Longrightarrow> ms_live now st sid = ms_live later st sid"
    by (auto simp: ms_live_def split: option.splits if_splits)
  show "store_wf st \<Longrightarrow> now \<le> later \<Longrightarrow> ms_live later (snd (ms_replace lucky now sid d max_age st))
      = (if ms_live now st sid = None then ms_live later st
         else (ms_live later st)(sid := if later < now + max_age then Some d else None))"
    by (simp add: replace_unfold live_drop_dead live_write)
  show "now \<le> later \<Longrightarrow> ms_live later (snd (ms_touch now sid max_age st))
      = (if ms_live now st sid = None then ms_live later st
         else (ms_live later st)(sid := if later < now + max_age then ms_live now st sid else None))"
    by (auto simp: touch_unfold live_drop_dead live_set split: option.split)
qed (simp_all add: live_read live_write replace_unfold touch_unfold ms_read_def ms_delete_def split: option.split)

section \<open>Lemmas and properties\<close>

text \<open>A change that is not tracked is no change: as long as \<open>modified\<close> is not set, whatever the handler
  did left the dictionary as it was loaded and asked for no new id, so that not writing it back
  loses nothing.\<close>

theorem unmodified_session_unchanged:
  assumes "\<not> ss_modified (fold session_do ops (session_init d))"
  shows "ss_data (fold session_do ops (session_init d)) = d \<and> \<not> ss_regenerate (fold session_do ops (session_init d))"
  using session_ops_unmodified [OF assms] by (simp add: session_init_def)

theorem unmodified_session_unchanged_witness:
  "ss_data (fold session_do [Pop ''k'' (Some (0::nat)), Set_Default ''u'' 1, Update (Mapping []) []]
     (session_init [(''u'', 7)])) = [(''u'', 7)]"
proof -
  have "\<not> ss_modified (fold session_do [Pop ''k'' (Some (0::nat)), Set_Default ''u'' 1, Update (Mapping []) []]
     (session_init [(''u'', 7)]))"
    by (simp add: session_init_def ss_pop_def ss_setdefault_def ss_update_def)
  from unmodified_session_unchanged [OF this] show ?thesis by simp
qed

text \<open>What the views of the store agree on.\<close>

lemma ms_contains_live: "ms_contains now sid st \<longleftrightarrow> ms_live now st sid \<noteq> None"
  by (auto simp: ms_contains_def ms_expires_at_def ms_live_def split: option.split)

lemma ms_iter_len: "length (ms_iter now st) = ms_len now st"
  by (simp add: ms_iter_def ms_len_def)

end
