(* ===== verification/Server_Session.thy ===== *)
theory Server_Session
  imports Session_Store
begin

text \<open>
  \<open>ServerSessionMiddleware\<close> of \<open>src/src/veloce/middleware/sessions.py\<close> over the in-memory store: the
  cookie carries an id, the store the payload. Requests are in flight together; a request loads its
  session when it arrives, its handler changes it, and its response saves it. The middleware never
  suspends between the calls of one phase on this store, so a phase is one step.
\<close>

section \<open>The middleware\<close>

record sv_config =
  sv_max_age :: int
  sv_permanent_lifetime :: int
  sv_vary_on_cookie :: bool
  sv_policy :: "(int \<Rightarrow> bool) option"
  sv_renew :: bool

record 'v sv_request =
  rq_session :: "'v session option"
  rq_session_id :: "string option"

datatype cookie_change = No_Change | Set_Id string int | Drop_Cookie

record sv_response =
  sr_cookie :: cookie_change
  sr_vary :: bool

definition should_persist :: "(int \<Rightarrow> bool) option \<Rightarrow> int \<Rightarrow> bool" where
  "should_persist policy status = (case policy of None \<Rightarrow> status < 500 | Some p \<Rightarrow> p status)"

definition cookie_lifetime :: "('v \<Rightarrow> bool) \<Rightarrow> sv_config \<Rightarrow> 'v session \<Rightarrow> int" where
  "cookie_lifetime truth cfg s = (if permanent truth s then sv_permanent_lifetime cfg else sv_max_age cfg)"

text \<open>\<open>_begin_session_response\<close>: the flags, and whether \<open>Vary: Cookie\<close> is added.\<close>

definition begin_session_response :: "sv_config \<Rightarrow> 'v session \<Rightarrow> bool \<times> bool \<times> bool" where
  "begin_session_response cfg s =
     (ss_accessed s, ss_modified s, sv_vary_on_cookie cfg \<and> (ss_accessed s \<or> ss_modified s))"

definition load_session ::
  "rat \<Rightarrow> string option \<Rightarrow> 'v mem_store \<Rightarrow> 'v sv_request \<times> 'v mem_store" where
  "load_session now cookie st =
     (let (d, st1) = (case cookie of
                        None \<Rightarrow> (None, st)
                      | Some sid \<Rightarrow> if sid = [] then (None, st) else ms_read now sid st)
      in (case d of
            Some x \<Rightarrow> (\<lparr>rq_session = Some (session_init x), rq_session_id = cookie\<rparr>, st1)
          | None \<Rightarrow> (\<lparr>rq_session = Some ((session_init [])\<lparr>ss_new := True\<rparr>), rq_session_id = None\<rparr>, st1)))"

definition renew_session ::
  "('v \<Rightarrow> bool) \<Rightarrow> sv_config \<Rightarrow> rat \<Rightarrow> 'v session \<Rightarrow> string option \<Rightarrow> 'v mem_store \<Rightarrow> cookie_change \<times> 'v mem_store" where
  "renew_session truth cfg now s session_id st =
     (case session_id of
        None \<Rightarrow> (No_Change, st)
      | Some sid \<Rightarrow>
          (let lifetime = cookie_lifetime truth cfg s;
               (found, st1) = ms_touch now sid (of_int lifetime) st
           in if found then (Set_Id sid lifetime, st1) else (Drop_Cookie, st1)))"

definition save_session ::
  "('v \<Rightarrow> bool) \<Rightarrow> sv_config \<Rightarrow> bool \<Rightarrow> rat \<Rightarrow> string \<Rightarrow> 'v session \<Rightarrow> string option \<Rightarrow> 'v mem_store
     \<Rightarrow> cookie_change \<times> 'v mem_store" where
  "save_session truth cfg lucky now new_id s session_id st =
     (let lifetime = cookie_lifetime truth cfg s in
      if ss_data s = [] then
        (case session_id of None \<Rightarrow> (No_Change, st) | Some sid \<Rightarrow> (Drop_Cookie, ms_delete sid st))
      else
        (case session_id of
           None \<Rightarrow> (Set_Id new_id lifetime, ms_write lucky now new_id (ss_data s) (of_int lifetime) st)
         | Some sid \<Rightarrow>
             if ss_regenerate s then
               (Set_Id new_id lifetime, ms_write lucky now new_id (ss_data s) (of_int lifetime) (ms_delete sid st))
             else
               (let (done, st1) = ms_replace lucky now sid (ss_data s) (of_int lifetime) st
                in if done then (Set_Id sid lifetime, st1) else (Drop_Cookie, st1))))"

definition finish_response ::
  "('v \<Rightarrow> bool) \<Rightarrow> sv_config \<Rightarrow> bool \<Rightarrow> rat \<Rightarrow> string \<Rightarrow> int \<Rightarrow> 'v sv_request \<Rightarrow> 'v mem_store
     \<Rightarrow> sv_response \<times> 'v mem_store" where
  "finish_response truth cfg lucky now new_id status r st =
     (case rq_session r of
        None \<Rightarrow> (\<lparr>sr_cookie = No_Change, sr_vary = False\<rparr>, st)
      | Some s \<Rightarrow>
          (let (accessed, modified, vary) = begin_session_response cfg s;
               persist = should_persist (sv_policy cfg) status;
               (change, st1) =
                 (if \<not> modified then
                    (if sv_renew cfg \<and> accessed \<and> \<not> ss_new s \<and> persist
                     then renew_session truth cfg now s (rq_session_id r) st else (No_Change, st))
                  else if \<not> persist then (No_Change, st)
                  else save_session truth cfg lucky now new_id s (rq_session_id r) st)
           in (\<lparr>sr_cookie = change, sr_vary = vary\<rparr>, st1)))"

section \<open>Requests in flight\<close>

record 'v server =
  sv_store :: "'v mem_store"
  sv_requests :: "'v sv_request list"
  sv_minted :: "string list"

datatype 'v server_event =
    Arrive "string option"
  | Handle nat "'v session_op list"
  | Respond nat int bool string
  | Revoke string

text \<open>\<open>secrets.token_urlsafe\<close> gives the new id of a response; it is an argument of the event.\<close>

definition minted_by :: "sv_response \<Rightarrow> string \<Rightarrow> string list" where
  "minted_by resp new_id =
     (case sr_cookie resp of Set_Id sid l \<Rightarrow> if sid = new_id then [new_id] else [] | _ \<Rightarrow> [])"

fun server_step :: "('v \<Rightarrow> bool) \<Rightarrow> sv_config \<Rightarrow> rat \<Rightarrow> 'v server_event \<Rightarrow> 'v server \<Rightarrow> 'v server" where
  "server_step truth cfg now (Arrive cookie) v =
     (let (r, st) = load_session now cookie (sv_store v)
      in v\<lparr>sv_store := st, sv_requests := sv_requests v @ [r]\<rparr>)"
| "server_step truth cfg now (Handle i ops) v =
     (if i < length (sv_requests v) then
        v\<lparr>sv_requests := (sv_requests v)
           [i := (sv_requests v ! i)
              \<lparr>rq_session := map_option (fold session_do ops) (rq_session (sv_requests v ! i))\<rparr>]\<rparr>
      else v)"
| "server_step truth cfg now (Respond i status lucky new_id) v =
     (if i < length (sv_requests v) then
        (let (resp, st) = finish_response truth cfg lucky now new_id status (sv_requests v ! i) (sv_store v)
         in v\<lparr>sv_store := st, sv_requests := take i (sv_requests v) @ drop (Suc i) (sv_requests v),
              sv_minted := sv_minted v @ minted_by resp new_id\<rparr>)
      else v)"
| "server_step truth cfg now (Revoke sid) v = v\<lparr>sv_store := ms_delete sid (sv_store v)\<rparr>"

definition fresh_id :: "'v server_event \<Rightarrow> 'v server \<Rightarrow> bool" where
  "fresh_id e v = (case e of Respond i status lucky new_id \<Rightarrow> new_id \<notin> set (sv_minted v) | _ \<Rightarrow> True)"

inductive server_run :: "('v \<Rightarrow> bool) \<Rightarrow> sv_config \<Rightarrow> rat \<Rightarrow> 'v server \<Rightarrow> rat \<Rightarrow> 'v server \<Rightarrow> bool"
  for truth cfg where
  stay: "server_run truth cfg now v now v"
| next_event: "server_run truth cfg now v t w \<Longrightarrow> t \<le> later \<Longrightarrow> fresh_id e w \<Longrightarrow>
     server_run truth cfg now v later (server_step truth cfg later e w)"

definition server_init :: "nat \<Rightarrow> 'v server" where
  "server_init threshold = \<lparr>sv_store = ms_init threshold, sv_requests = [], sv_minted = []\<rparr>"

section \<open>Dead ids\<close>

text \<open>What each phase does to the store, operation by operation.\<close>

lemma load_store: "snd (load_session now cookie st) = st \<or> snd (load_session now cookie st) = snd (ms_read now (the cookie) st)"
  by (cases cookie) (auto simp: load_session_def Let_def split: prod.split option.split)

lemma renew_store:
  "snd (renew_session truth cfg now s session_id st) = st
   \<or> (\<exists>age. snd (renew_session truth cfg now s session_id st) = snd (ms_touch now (the session_id) age st))"
  by (cases session_id) (auto simp: renew_session_def Let_def case_prod_unfold)

lemma save_store:
  "snd (save_session truth cfg lucky now new_id s session_id st) = st
   \<or> snd (save_session truth cfg lucky now new_id s session_id st) = ms_delete (the session_id) st
   \<or> (\<exists>d age. snd (save_session truth cfg lucky now new_id s session_id st) = ms_write lucky now new_id d age st
        \<and> fst (save_session truth cfg lucky now new_id s session_id st) = Set_Id new_id (cookie_lifetime truth cfg s))
   \<or> (\<exists>d age. snd (save_session truth cfg lucky now new_id s session_id st)
          = ms_write lucky now new_id d age (ms_delete (the session_id) st)
        \<and> fst (save_session truth cfg lucky now new_id s session_id st) = Set_Id new_id (cookie_lifetime truth cfg s))
   \<or> (\<exists>d age. snd (save_session truth cfg lucky now new_id s session_id st)
          = snd (ms_replace lucky now (the session_id) d age st))"
  by (cases session_id) (auto simp: save_session_def Let_def case_prod_unfold)

definition kept_dead :: "rat \<Rightarrow> string \<Rightarrow> 'v mem_store \<Rightarrow> bool" where
  "kept_dead now sid st \<longleftrightarrow> store_wf st \<and> ms.dead now st sid"

lemma kept_dead_ops:
  assumes "kept_dead now sid st"
  shows "kept_dead now sid (snd (ms_read now k st))" "kept_dead now sid (snd (ms_touch now k age st))"
    "kept_dead now sid (ms_delete k st)" "kept_dead now sid (snd (ms_replace lucky now k d age st))"
    "k \<noteq> sid \<Longrightarrow> kept_dead now sid (ms_write lucky now k d age st)"
  using assms unfolding kept_dead_def
  by (blast intro: ms.read_ok ms.dead_read ms.touch_ok ms.dead_touch ms.delete_ok ms.dead_delete
      ms.replace_ok ms.dead_replace ms.write_ok ms.dead_write)+

lemma kept_dead_load: "kept_dead now sid st \<Longrightarrow> kept_dead now sid (snd (load_session now cookie st))"
  using load_store [of now cookie st] kept_dead_ops(1) by metis

lemma kept_dead_finish:
  assumes "kept_dead now sid st" "new_id \<noteq> sid"
  shows "kept_dead now sid (snd (finish_response truth cfg lucky now new_id status r st))"
proof -
  have renew: "kept_dead now sid (snd (renew_session truth cfg now s sid' st))" for s sid'
    using renew_store [of truth cfg now s sid' st] kept_dead_ops(2) [OF assms(1)] assms(1) by metis
  have save: "kept_dead now sid (snd (save_session truth cfg lucky now new_id s sid' st))" for s sid'
    using save_store [of truth cfg lucky now new_id s sid' st] kept_dead_ops [OF assms(1)] assms
      kept_dead_ops(5) [OF kept_dead_ops(3) [OF assms(1)]] by metis
  show ?thesis
  proof (cases "rq_session r")
    case (Some s)
    obtain c1 st1 where 1: "renew_session truth cfg now s (rq_session_id r) st = (c1, st1)" by fastforce
    obtain c2 st2 where 2: "save_session truth cfg lucky now new_id s (rq_session_id r) st = (c2, st2)" by fastforce
    from renew [of s "rq_session_id r"] save [of s "rq_session_id r"] 1 2 assms(1) show ?thesis
      by (simp add: finish_response_def Some begin_session_response_def Let_def)
  qed (use assms in \<open>simp add: finish_response_def\<close>)
qed

text \<open>The id a response mints is recorded, so that the next one is another.\<close>

lemma kept_dead_step:
  assumes "kept_dead now sid (sv_store v)" "fresh_id e v" "sid \<in> set (sv_minted v)"
  shows "kept_dead now sid (sv_store (server_step truth cfg now e v)) \<and> sid \<in> set (sv_minted (server_step truth cfg now e v))"
proof (cases e)
  case (Arrive cookie)
  obtain r st where "load_session now cookie (sv_store v) = (r, st)" by fastforce
  with kept_dead_load [OF assms(1), of cookie] assms(3) show ?thesis by (simp add: Arrive)
next
  case (Respond i status lucky new_id)
  obtain resp st where r: "finish_response truth cfg lucky now new_id status (sv_requests v ! i) (sv_store v) = (resp, st)"
    by fastforce
  have "new_id \<noteq> sid" using assms(2,3) by (auto simp: fresh_id_def Respond)
  with kept_dead_finish [OF assms(1), of new_id truth cfg lucky status "sv_requests v ! i"] r assms show ?thesis
    by (simp add: Respond)
next
  case (Revoke k)
  with kept_dead_ops(3) [OF assms(1)] assms(3) show ?thesis by simp
qed (use assms in simp)

lemma kept_dead_run:
  assumes "server_run truth cfg now v later w" "kept_dead now sid (sv_store v)" "sid \<in> set (sv_minted v)"
  shows "kept_dead later sid (sv_store w) \<and> sid \<in> set (sv_minted w) \<and> now \<le> later"
  using assms
proof (induction rule: server_run.induct)
  case (next_event now v t w later e)
  then have "kept_dead t sid (sv_store w)" "sid \<in> set (sv_minted w)" "now \<le> t" by simp_all
  moreover from this next_event have "kept_dead later sid (sv_store w)" by (auto simp: kept_dead_def intro: ms.dead_later)
  ultimately show ?case using kept_dead_step [of later sid w e] next_event by auto
qed simp

lemma wf_finish: "store_wf st \<Longrightarrow> store_wf (snd (finish_response truth cfg lucky now new_id status r st))"
proof -
  assume wf: "store_wf st"
  have renew: "store_wf (snd (renew_session truth cfg now s sid' st))" for s sid'
    using renew_store [of truth cfg now s sid' st] ms.touch_ok [OF wf] wf by metis
  have save: "store_wf (snd (save_session truth cfg lucky now new_id s sid' st))" for s sid'
    using save_store [of truth cfg lucky now new_id s sid' st] wf ms.delete_ok [OF wf] ms.replace_ok [OF wf]
      ms.write_ok [OF wf] ms.write_ok [OF ms.delete_ok [OF wf]] by metis
  show ?thesis
  proof (cases "rq_session r")
    case (Some s)
    obtain c1 st1 where 1: "renew_session truth cfg now s (rq_session_id r) st = (c1, st1)" by fastforce
    obtain c2 st2 where 2: "save_session truth cfg lucky now new_id s (rq_session_id r) st = (c2, st2)" by fastforce
    from renew [of s "rq_session_id r"] save [of s "rq_session_id r"] 1 2 wf show ?thesis
      by (simp add: finish_response_def Some begin_session_response_def Let_def)
  qed (use wf in \<open>simp add: finish_response_def\<close>)
qed

lemma wf_step: "store_wf (sv_store v) \<Longrightarrow> store_wf (sv_store (server_step truth cfg now e v))"
proof (cases e)
  case (Arrive cookie)
  assume "store_wf (sv_store v)"
  with load_store [of now cookie "sv_store v"] have "store_wf (snd (load_session now cookie (sv_store v)))"
    using ms.read_ok by metis
  then show ?thesis by (simp add: Arrive case_prod_unfold Let_def)
next
  case (Respond i status lucky new_id)
  assume "store_wf (sv_store v)"
  then have "store_wf (snd (finish_response truth cfg lucky now new_id status (sv_requests v ! i) (sv_store v)))"
    by (rule wf_finish)
  then show ?thesis using \<open>store_wf (sv_store v)\<close> by (simp add: Respond case_prod_unfold Let_def)
qed (simp_all add: ms.delete_ok)

lemma wf_run: "server_run truth cfg now v later w \<Longrightarrow> store_wf (sv_store v) \<Longrightarrow> store_wf (sv_store w)"
  by (induction rule: server_run.induct) (simp_all add: wf_step)

lemma server_run_trans:
  "server_run truth cfg t v later w \<Longrightarrow> server_run truth cfg now u t v \<Longrightarrow> server_run truth cfg now u later w"
  by (induction rule: server_run.induct) (auto intro: server_run.intros)

section \<open>A run to try it on\<close>

definition std_config :: sv_config where
  "std_config = \<lparr>sv_max_age = 60, sv_permanent_lifetime = 600, sv_vary_on_cookie = True, sv_policy = None, sv_renew = True\<rparr>"

text \<open>A login creates the session of id \<open>a\<close>; the same client's next request is in flight.\<close>

definition logged_in :: "nat server" where
  "logged_in = fold (server_step (\<lambda>n. n \<noteq> 0) std_config 1)
     [Arrive None, Handle 0 [Set_Item ''user'' 7], Respond 0 200 False ''a'', Arrive (Some ''a'')] (server_init 1000)"

lemma run_fold:
  assumes "server_run truth cfg now v t w" "t \<le> later" "list_all (\<lambda>e. \<forall>v. fresh_id e v) es"
  shows "server_run truth cfg now v later (fold (server_step truth cfg later) es w)"
  using assms
proof (induction es arbitrary: t w)
  case Nil
  have "server_run truth cfg now v later (server_step truth cfg later (Handle (length (sv_requests w)) []) w)"
    using Nil by (intro server_run.next_event [OF Nil(1,2)]) (simp add: fresh_id_def)
  then show ?case by simp
next
  case (Cons e es)
  then have "server_run truth cfg now v later (server_step truth cfg later e w)"
    by (intro server_run.next_event [OF Cons.prems(1,2)]) simp
  with Cons show ?case by simp
qed

lemma logged_in_run: "server_run (\<lambda>n. n \<noteq> 0) std_config 0 (server_init 1000) 1 logged_in"
proof -
  let ?step = "server_step (\<lambda>n. n \<noteq> (0::nat)) std_config 1"
  have "server_run (\<lambda>n. n \<noteq> 0) std_config 0 (server_init 1000) 1 (fold ?step [Arrive None, Handle 0 [Set_Item ''user'' 7]] (server_init 1000))"
    by (rule run_fold [OF server_run.stay]) (simp_all add: fresh_id_def)
  then have "server_run (\<lambda>n. n \<noteq> 0) std_config 0 (server_init 1000) 1
      (?step (Respond 0 200 False ''a'') (fold ?step [Arrive None, Handle 0 [Set_Item ''user'' 7]] (server_init 1000)))"
    by (rule server_run.next_event) (simp_all add: fresh_id_def server_init_def load_session_def)
  then have "server_run (\<lambda>n. n \<noteq> 0) std_config 0 (server_init 1000) 1
      (?step (Arrive (Some ''a'')) (?step (Respond 0 200 False ''a'') (fold ?step [Arrive None, Handle 0 [Set_Item ''user'' 7]] (server_init 1000))))"
    by (rule server_run.next_event) (simp_all add: fresh_id_def)
  then show ?thesis by (simp only: logged_in_def fold_simps)
qed

section \<open>Properties\<close>

text \<open>C37: An id that was minted and is dead, revoked or expired, never resolves again, whatever requests
  were in flight when it died and however their responses, renewals and later requests interleave:
  no response writes it back, and a cookie that carries it is a fresh session.\<close>

theorem revoked_session_never_resolves:
  assumes "server_run truth cfg t0 (server_init n) t v" "server_run truth cfg t v later w"
    and "sid \<in> set (sv_minted v)" "ms_live t (sv_store v) sid = None"
  shows "ms_live later (sv_store w) sid = None
    \<and> rq_session_id (fst (load_session later (Some sid) (sv_store w))) = None
    \<and> rq_session (fst (load_session later (Some sid) (sv_store w))) = Some ((session_init [])\<lparr>ss_new := True\<rparr>)"
proof -
  have "store_wf (sv_store v)" by (rule wf_run [OF assms(1)]) (simp add: server_init_def ms_init_def store_wf_def)
  with assms(4) have "kept_dead t sid (sv_store v)" by (simp add: kept_dead_def ms.deadI)
  from kept_dead_run [OF assms(2) this assms(3)] have dead: "ms_live later (sv_store w) sid = None"
    by (simp add: kept_dead_def ms.dead_live)
  then have "ms_read later sid (sv_store w) = (None, snd (ms_read later sid (sv_store w)))" by (subst read_unfold) simp
  then have "\<exists>st. ms_read later sid (sv_store w) = (None, st)" by blast
  with dead show ?thesis by (auto simp: load_session_def Let_def)
qed

theorem revoked_session_never_resolves_witness:
  "ms_live 3 (sv_store (server_step (\<lambda>n. n \<noteq> 0) std_config 3 (Respond 0 200 False ''b'')
     (server_step (\<lambda>n. n \<noteq> 0) std_config 2 (Handle 0 [Set_Item ''user'' 8])
       (server_step (\<lambda>n. n \<noteq> 0) std_config 2 (Revoke ''a'') logged_in)))) ''a'' = None"
proof -
  let ?step = "server_step (\<lambda>n. n \<noteq> (0::nat)) std_config"
  let ?v = "?step 2 (Revoke ''a'') logged_in"
  have "server_run (\<lambda>n. n \<noteq> 0) std_config 0 (server_init 1000) 2 ?v"
    by (rule server_run.next_event [OF logged_in_run]) (simp_all add: fresh_id_def)
  moreover have "server_run (\<lambda>n. n \<noteq> 0) std_config 2 ?v 2 (?step 2 (Handle 0 [Set_Item ''user'' 8]) ?v)"
    by (rule server_run.next_event [OF server_run.stay]) (simp_all add: fresh_id_def)
  then have "server_run (\<lambda>n. n \<noteq> 0) std_config 2 ?v 3
      (?step 3 (Respond 0 200 False ''b'') (?step 2 (Handle 0 [Set_Item ''user'' 8]) ?v))"
    by (rule server_run.next_event) (simp_all add: fresh_id_def logged_in_def server_init_def load_session_def
      finish_response_def begin_session_response_def should_persist_def std_config_def save_session_def
      session_init_def ss_setitem_def touched_def cookie_lifetime_def permanent_def ms_write_def maybe_sweep_def
      ms_init_def minted_by_def ms_read_def)
  moreover have "''a'' \<in> set (sv_minted ?v)"
    by (simp add: logged_in_def server_init_def load_session_def finish_response_def begin_session_response_def
        should_persist_def std_config_def save_session_def session_init_def ss_setitem_def touched_def
        cookie_lifetime_def permanent_def minted_by_def Let_def case_prod_unfold)
  moreover have "ms_live 2 (sv_store ?v) ''a'' = None" by (simp add: ms_delete_def live_drop)
  ultimately show ?thesis using revoked_session_never_resolves by blast
qed

text \<open>But the content can come back under a new id: a request in flight that asked for a new id writes the
  session it had loaded, although the session was revoked under it.\<close>

theorem regenerated_after_revocation:
  "ms_live 3 (sv_store (fold (server_step (\<lambda>n. n \<noteq> 0) std_config 3)
     [Revoke ''a'', Handle 0 [Regenerate], Respond 0 200 False ''b''] logged_in)) ''b'' = Some [(''user'', 7)]"
  by (simp add: logged_in_def server_init_def load_session_def finish_response_def begin_session_response_def
      should_persist_def std_config_def save_session_def session_init_def ss_setitem_def touched_def regenerate_id_def
      cookie_lifetime_def permanent_def minted_by_def Let_def case_prod_unfold ms_write_def maybe_sweep_def
      ms_init_def ms_read_def ms_delete_def ms_drop_def ms_live_def)

end
