(* ===== verification/Signing.thy ===== *)
theory Signing
  imports Py_Base Ws_Codec
begin

text \<open>
  Signed values: \<open>Signer\<close> of \<open>src/src/veloce/signing.py\<close> and the unpadded base64url helpers
  \<open>_b64encode\<close> and \<open>_b64decode\<close> of \<open>src/src/veloce/_internal.py\<close>, with the lenient decoder of
  \<open>binascii\<close> that they call. The MAC (HMAC-SHA256) and the JSON functions are arguments, the clock
  is given in whole seconds.
\<close>

section \<open>Base64\<close>

definition b64_char :: "nat \<Rightarrow> char" where
  "b64_char v =
     char_of (if v < 26 then 65 + v else if v < 52 then 71 + v else if v < 62 then v - 4 else if v = 62 then 45 else 95)"

text \<open>\<open>urlsafe_b64decode\<close> translates \<open>-\<close> and \<open>_\<close> into \<open>+\<close> and \<open>/\<close>, so both alphabets are read.\<close>

definition b64_val :: "char \<Rightarrow> nat option" where
  "b64_val c =
     (let n = code c in
      if 65 \<le> n \<and> n \<le> 90 then Some (n - 65) else if 97 \<le> n \<and> n \<le> 122 then Some (n - 71)
      else if 48 \<le> n \<and> n \<le> 57 then Some (n + 4)
      else if n = 45 \<or> n = 43 then Some 62 else if n = 95 \<or> n = 47 then Some 63 else None)"

fun b64_padded :: "bytes \<Rightarrow> string" where
  "b64_padded [] = []"
| "b64_padded [a] = [b64_char (unat a div 4), b64_char (unat a mod 4 * 16), CHR ''='', CHR ''='']"
| "b64_padded [a, b] =
     [b64_char (unat a div 4), b64_char (unat a mod 4 * 16 + unat b div 16), b64_char (unat b mod 16 * 4), CHR ''='']"
| "b64_padded (a # b # c # bs) =
     [b64_char (unat a div 4), b64_char (unat a mod 4 * 16 + unat b div 16),
      b64_char (unat b mod 16 * 4 + unat c div 64), b64_char (unat c mod 64)] @ b64_padded bs"

definition b64encode :: "bytes \<Rightarrow> string" where
  "b64encode bs = rev (dropWhile ((=) (CHR ''='')) (rev (b64_padded bs)))"

text \<open>\<open>binascii.a2b_base64\<close>: characters outside the alphabet are skipped, and a complete padding ends the
  input. \<open>quad\<close> is the position in the group of four, \<open>left\<close> the bits that are pending.\<close>

fun a2b :: "nat \<Rightarrow> nat \<Rightarrow> nat \<Rightarrow> string \<Rightarrow> bytes option" where
  "a2b quad left pads [] = (if quad = 0 then Some [] else None)"
| "a2b quad left pads (c # cs) =
     (if c = CHR ''='' then
        (if quad \<ge> 2 then (if quad + pads + 1 \<ge> 4 then Some [] else a2b quad left (pads + 1) cs)
         else a2b quad left pads cs)
      else
        (case b64_val c of
           None \<Rightarrow> a2b quad left pads cs
         | Some v \<Rightarrow>
             if quad = 0 then a2b 1 v 0 cs
             else if quad = 1 then map_option ((#) (of_nat (left * 4 + v div 16))) (a2b 2 (v mod 16) 0 cs)
             else if quad = 2 then map_option ((#) (of_nat (left * 16 + v div 4))) (a2b 3 (v mod 4) 0 cs)
             else map_option ((#) (of_nat (left * 64 + v))) (a2b 0 0 0 cs)))"

text \<open>A text that is not ASCII is a \<open>ValueError\<close>, as a bad padding is.\<close>

definition b64decode :: "string \<Rightarrow> bytes option" where
  "b64decode s =
     (if \<not> list_all is_ascii s then None
      else a2b 0 0 0 (s @ replicate ((4 - length s mod 4) mod 4) (CHR ''='')))"

section \<open>The signer\<close>

record signer =
  sg_key :: bytes
  sg_keys :: "bytes list"

definition derive_key :: "(bytes \<Rightarrow> bytes \<Rightarrow> bytes) \<Rightarrow> bytes \<Rightarrow> bytes \<Rightarrow> bytes" where
  "derive_key mac secret salt = mac secret salt"

definition signer_init :: "(bytes \<Rightarrow> bytes \<Rightarrow> bytes) \<Rightarrow> bytes \<Rightarrow> bytes \<Rightarrow> signer res" where
  "signer_init mac secret salt =
     (if secret = [] then Inl ValueError
      else Inr \<lparr>sg_key = derive_key mac secret salt, sg_keys = [derive_key mac secret salt]\<rparr>)"

definition add_fallback_secret :: "(bytes \<Rightarrow> bytes \<Rightarrow> bytes) \<Rightarrow> bytes \<Rightarrow> bytes \<Rightarrow> signer \<Rightarrow> signer res" where
  "add_fallback_secret mac secret salt s =
     (if secret = [] then Inl ValueError
      else Inr (s\<lparr>sg_keys := sg_keys s @ [derive_key mac secret salt]\<rparr>))"

definition ascii_bytes :: "string \<Rightarrow> bytes" where
  "ascii_bytes s = map of_char s"

definition signing_input :: "string \<Rightarrow> string \<Rightarrow> string" where
  "signing_input payload_b64 ts_b64 = payload_b64 @ CHR ''.'' # ts_b64"

definition token_dumps :: "(bytes \<Rightarrow> bytes \<Rightarrow> bytes) \<Rightarrow> ('d \<Rightarrow> bytes) \<Rightarrow> signer \<Rightarrow> nat \<Rightarrow> 'd \<Rightarrow> string" where
  "token_dumps mac json_dumps s now d =
     (let payload_b64 = b64encode (json_dumps d);
          ts_b64 = b64encode (to_bytes 8 now);
          inp = signing_input payload_b64 ts_b64
      in inp @ CHR ''.'' # b64encode (mac (sg_key s) (ascii_bytes inp)))"

text \<open>\<open>token.split(".", 2)\<close>; \<open>None\<close> when there are fewer than three parts.\<close>

definition split_token :: "string \<Rightarrow> (string \<times> string \<times> string) option" where
  "split_token t =
     (case partition_on (CHR ''.'') t of
        (payload, True, r) \<Rightarrow>
          (case partition_on (CHR ''.'') r of (ts, True, sig) \<Rightarrow> Some (payload, ts, sig) | _ \<Rightarrow> None)
      | _ \<Rightarrow> None)"

definition token_age :: "int option \<Rightarrow> int \<Rightarrow> int \<Rightarrow> unit res" where
  "token_age max_age now signed_at =
     (case max_age of
        None \<Rightarrow> Inr ()
      | Some m \<Rightarrow> if now - signed_at < 0 then Inl BadTimeSignature
                  else if now - signed_at > m then Inl BadTimeSignature else Inr ())"

definition token_loads ::
  "(bytes \<Rightarrow> bytes \<Rightarrow> bytes) \<Rightarrow> (bytes \<Rightarrow> 'd option) \<Rightarrow> signer \<Rightarrow> int \<Rightarrow> int option \<Rightarrow> string \<Rightarrow> 'd res" where
  "token_loads mac json_loads s now max_age tok =
     (case split_token tok of
        None \<Rightarrow> Inl BadData
      | Some (payload_b64, ts_b64, sig_b64) \<Rightarrow>
          (case b64decode sig_b64 of
             None \<Rightarrow> Inl BadData
           | Some sig \<Rightarrow>
               if \<not> list_all is_ascii (signing_input payload_b64 ts_b64) then Inl BadData
               else if \<not> list_ex (\<lambda>k. sig = mac k (ascii_bytes (signing_input payload_b64 ts_b64))) (sg_keys s)
                 then Inl BadSignature
               else
                 (case b64decode ts_b64 of
                    None \<Rightarrow> Inl BadData
                  | Some ts \<Rightarrow>
                      if length ts \<noteq> 8 then Inl BadData
                      else
                        (case token_age max_age now (int (from_bytes ts)) of
                           Inl e \<Rightarrow> Inl e
                         | Inr _ \<Rightarrow>
                             (case b64decode payload_b64 of
                                None \<Rightarrow> Inl BadData
                              | Some payload \<Rightarrow>
                                  (case json_loads payload of None \<Rightarrow> Inl BadData | Some d \<Rightarrow> Inr d))))))"

section \<open>Base64 round trip\<close>

lemma b64_char_code: "v < 64 \<Longrightarrow>
    code (b64_char v) = (if v < 26 then 65 + v else if v < 52 then 71 + v else if v < 62 then v - 4 else if v = 62 then 45 else 95)"
  by (simp add: b64_char_def)

lemma b64_alphabet:
  assumes "v < 64"
  shows "b64_val (b64_char v) = Some v" "b64_char v \<noteq> CHR ''=''" "b64_char v \<noteq> CHR ''.''" "is_ascii (b64_char v)"
proof -
  note c = b64_char_code [OF assms]
  show "b64_val (b64_char v) = Some v" using assms by (auto simp: b64_val_def c Let_def)
  show "is_ascii (b64_char v)" using assms by (auto simp: is_ascii_def c)
  have "code (b64_char v) \<noteq> code (CHR ''='')" "code (b64_char v) \<noteq> code (CHR ''.'')"
    using assms by (auto simp: c)
  then show "b64_char v \<noteq> CHR ''=''" "b64_char v \<noteq> CHR ''.''" by auto
qed

lemma a2b_char:
  assumes "v < 64"
  shows "a2b 0 l p (b64_char v # cs) = a2b (Suc 0) v 0 cs"
    "a2b (Suc 0) l p (b64_char v # cs) = map_option ((#) (of_nat (l * 4 + v div 16))) (a2b 2 (v mod 16) 0 cs)"
    "a2b 2 l p (b64_char v # cs) = map_option ((#) (of_nat (l * 16 + v div 4))) (a2b 3 (v mod 4) 0 cs)"
    "a2b 3 l p (b64_char v # cs) = map_option ((#) (of_nat (l * 64 + v))) (a2b 0 0 0 cs)"
  using b64_alphabet [OF assms] by simp_all

lemma a2b_end:
  "a2b 0 l p [] = Some []" "a2b 2 l 0 [CHR ''='', CHR ''=''] = Some []" "a2b 3 l 0 [CHR ''=''] = Some []"
  by simp_all

lemma two_digits: "q < n \<Longrightarrow> (m * n + q) div n = m" "q < n \<Longrightarrow> (m * n + q) mod n = q" for m n q :: nat
  by simp_all

lemma two_digits_less: "m < k \<Longrightarrow> q < n \<Longrightarrow> m * n + q < k * n" for m n k q :: nat
proof -
  assume "m < k" "q < n"
  then have "m * n + q < Suc m * n" "Suc m * n \<le> k * n" by (simp, intro mult_le_mono1) simp
  then show ?thesis by linarith
qed

lemma three_bytes:
  assumes "a < 256" "b < 256" "c < (256::nat)"
  shows "a div 4 < 64" "a mod 4 * 16 + b div 16 < 64" "b mod 16 * 4 + c div 64 < 64" "c mod 64 < 64"
    "a mod 4 * 16 < 64" "b mod 16 * 4 < 64"
    "a div 4 * 4 + (a mod 4 * 16 + b div 16) div 16 = a"
    "(a mod 4 * 16 + b div 16) mod 16 * 16 + (b mod 16 * 4 + c div 64) div 4 = b"
    "(b mod 16 * 4 + c div 64) mod 4 * 64 + c mod 64 = c"
    "a div 4 * 4 + (a mod 4 * 16) div 16 = a"
    "(a mod 4 * 16 + b div 16) mod 16 * 16 + (b mod 16 * 4) div 4 = b"
proof -
  have b: "b div 16 < 16" and c: "c div 64 < 4" using assms by (auto intro: less_mult_imp_div_less)
  show "a div 4 < 64" using assms by (auto intro: less_mult_imp_div_less)
  show "c mod 64 < 64" by simp
  have m: "a mod 4 < 4" "b mod 16 < 16" by simp_all
  show "a mod 4 * 16 + b div 16 < 64" using two_digits_less [OF m(1) b] by simp
  show "b mod 16 * 4 + c div 64 < 64" using two_digits_less [OF m(2) c] by simp
  show "a mod 4 * 16 < 64" "b mod 16 * 4 < 64" using m by simp_all
  show "a div 4 * 4 + (a mod 4 * 16 + b div 16) div 16 = a" using two_digits(1) [OF b, of "a mod 4"] by simp
  show "(a mod 4 * 16 + b div 16) mod 16 * 16 + (b mod 16 * 4 + c div 64) div 4 = b"
    using two_digits(2) [OF b, of "a mod 4"] two_digits(1) [OF c, of "b mod 16"] by simp
  show "(b mod 16 * 4 + c div 64) mod 4 * 64 + c mod 64 = c" using two_digits(2) [OF c, of "b mod 16"] by simp
  show "a div 4 * 4 + (a mod 4 * 16) div 16 = a" by simp
  show "(a mod 4 * 16 + b div 16) mod 16 * 16 + (b mod 16 * 4) div 4 = b"
    using two_digits(2) [OF b, of "a mod 4"] by simp
qed

lemma b64_padded_tail:
  "\<exists>cs k. b64_padded bs = cs @ replicate k (CHR ''='') \<and> CHR ''='' \<notin> set cs \<and> CHR ''.'' \<notin> set cs
     \<and> list_all is_ascii cs \<and> k = (4 - length cs mod 4) mod 4"
proof (induction bs rule: b64_padded.induct)
  case (2 a)
  have "unat a div 4 < 64" "unat a mod 4 * 16 < 64" using unat_byte [of a] three_bytes(1,5) [of "unat a" 0 0] by simp_all
  from b64_alphabet [OF this(1)] b64_alphabet [OF this(2)] show ?case
    by (intro exI [of _ "[b64_char (unat a div 4), b64_char (unat a mod 4 * 16)]"] exI [of _ 2]) (simp add: numeral_2_eq_2)
next
  case (3 a b)
  note [simp] = three_bytes [of "unat a" "unat b" 0]
  have "unat a div 4 < 64" "unat a mod 4 * 16 + unat b div 16 < 64" "unat b mod 16 * 4 < 64"
    using unat_byte [of a] unat_byte [of b] by simp_all
  from b64_alphabet [OF this(1)] b64_alphabet [OF this(2)] b64_alphabet [OF this(3)] show ?case
    by (intro exI [of _ "[b64_char (unat a div 4), b64_char (unat a mod 4 * 16 + unat b div 16), b64_char (unat b mod 16 * 4)]"]
        exI [of _ 1]) simp
next
  case (4 a b c bs)
  obtain cs k where ih: "b64_padded bs = cs @ replicate k (CHR ''='')" "CHR ''='' \<notin> set cs" "CHR ''.'' \<notin> set cs"
    "list_all is_ascii cs" "k = (4 - length cs mod 4) mod 4" using 4 by blast
  have "unat a div 4 < 64" "unat a mod 4 * 16 + unat b div 16 < 64" "unat b mod 16 * 4 + unat c div 64 < 64" "unat c mod 64 < 64"
    using unat_byte [of a] unat_byte [of b] unat_byte [of c] three_bytes [of "unat a" "unat b" "unat c"] by simp_all
  from b64_alphabet [OF this(1)] b64_alphabet [OF this(2)] b64_alphabet [OF this(3)] b64_alphabet [OF this(4)] ih show ?case
    by (intro exI [of _ "[b64_char (unat a div 4), b64_char (unat a mod 4 * 16 + unat b div 16),
          b64_char (unat b mod 16 * 4 + unat c div 64), b64_char (unat c mod 64)] @ cs"] exI [of _ k]) simp
qed simp

lemma b64encode_parts:
  "b64encode bs @ replicate ((4 - length (b64encode bs) mod 4) mod 4) (CHR ''='') = b64_padded bs"
  "CHR ''.'' \<notin> set (b64encode bs)" "list_all is_ascii (b64encode bs)" "CHR ''='' \<notin> set (b64encode bs)"
proof -
  obtain cs k where t: "b64_padded bs = cs @ replicate k (CHR ''='')" "CHR ''='' \<notin> set cs" "CHR ''.'' \<notin> set cs"
    "list_all is_ascii cs" "k = (4 - length cs mod 4) mod 4" using b64_padded_tail [of bs] by blast
  have "dropWhile ((=) (CHR ''='')) (replicate k (CHR ''='') @ rev cs) = dropWhile ((=) (CHR ''='')) (rev cs)"
    by (rule dropWhile_append2) auto
  also have "\<dots> = rev cs" using t(2) by (auto simp: dropWhile_eq_self_iff hd_rev)
  finally have "b64encode bs = cs" by (simp add: b64encode_def t(1))
  with t show "b64encode bs @ replicate ((4 - length (b64encode bs) mod 4) mod 4) (CHR ''='') = b64_padded bs"
    "CHR ''.'' \<notin> set (b64encode bs)" "list_all is_ascii (b64encode bs)" "CHR ''='' \<notin> set (b64encode bs)" by simp_all
qed

lemma a2b_padded: "a2b 0 l p (b64_padded bs) = Some bs"
proof (induction bs arbitrary: l p rule: b64_padded.induct)
  case (2 a)
  then show ?case using unat_byte [of a] three_bytes [of "unat a" 0 0] by (simp add: a2b_char a2b_end del: a2b.simps)
next
  case (3 a b)
  then show ?case using unat_byte [of a] unat_byte [of b] three_bytes [of "unat a" "unat b" 0] by (simp add: a2b_char a2b_end del: a2b.simps)
next
  case (4 a b c bs)
  then show ?case
    using unat_byte [of a] unat_byte [of b] unat_byte [of c] three_bytes [of "unat a" "unat b" "unat c"]
    by (simp add: a2b_char a2b_end del: a2b.simps)
qed simp_all

lemma b64_roundtrip: "b64decode (b64encode bs) = Some bs"
  using b64encode_parts [of bs] by (simp add: b64decode_def a2b_padded)

section \<open>Tokens\<close>

lemma split_token_parts:
  "CHR ''.'' \<notin> set p \<Longrightarrow> CHR ''.'' \<notin> set t \<Longrightarrow> split_token (signing_input p t @ CHR ''.'' # sig) = Some (p, t, sig)"
  by (simp add: split_token_def signing_input_def partition_on_sep)

lemma signing_input_ascii: "list_all is_ascii p \<Longrightarrow> list_all is_ascii t \<Longrightarrow> list_all is_ascii (signing_input p t)"
  by (simp add: signing_input_def is_ascii_def)

lemma token_loads_dumps:
  assumes "json_loads (json_dumps d) = Some d" "sg_key issuer \<in> set (sg_keys s)" "signed_at < 2 ^ 64"
  shows "token_loads mac json_loads s now max_age (token_dumps mac json_dumps issuer signed_at d)
    = (case token_age max_age now (int signed_at) of Inl e \<Rightarrow> Inl e | Inr _ \<Rightarrow> Inr d)"
proof -
  let ?p = "b64encode (json_dumps d)" and ?t = "b64encode (to_bytes 8 signed_at)"
  let ?i = "signing_input ?p ?t"
  have "split_token (token_dumps mac json_dumps issuer signed_at d) = Some (?p, ?t, b64encode (mac (sg_key issuer) (ascii_bytes ?i)))"
    unfolding token_dumps_def Let_def by (rule split_token_parts) (simp_all add: b64encode_parts)
  moreover have "list_all is_ascii ?i" by (intro signing_input_ascii) (simp_all add: b64encode_parts)
  moreover have "list_ex (\<lambda>k. mac (sg_key issuer) (ascii_bytes ?i) = mac k (ascii_bytes ?i)) (sg_keys s)"
    using assms(2) by (auto simp: list_ex_iff)
  moreover have "from_bytes (to_bytes 8 signed_at) = signed_at" using assms(3) by (intro from_to_bytes) simp
  ultimately show ?thesis using assms(1) by (simp add: token_loads_def b64_roundtrip split: sum.split)
qed

text \<open>The two segments that are signed are the text before the last part, and are read from it alone.\<close>

lemma split_token_input:
  "split_token tok = Some (p, t, sig) \<Longrightarrow> tok = signing_input p t @ CHR ''.'' # sig
     \<and> CHR ''.'' \<notin> set p \<and> CHR ''.'' \<notin> set t"
proof -
  assume a: "split_token tok = Some (p, t, sig)"
  obtain p1 f1 r where 1: "partition_on (CHR ''.'') tok = (p1, f1, r)" by (metis prod_cases3)
  obtain t1 f2 sig1 where 2: "partition_on (CHR ''.'') r = (t1, f2, sig1)" by (metis prod_cases3)
  have f: "f1" "f2" using a by (cases f1; cases f2; simp add: split_token_def 1 2)+
  then have "p1 = p" "t1 = t" "sig1 = sig" using a by (simp_all add: split_token_def 1 2)
  note f = f this
  from partition_on_parts [OF 1] partition_on_parts [OF 2] f show ?thesis by (simp add: signing_input_def)
qed

definition token_input :: "string \<Rightarrow> string option" where
  "token_input tok = (case split_token tok of None \<Rightarrow> None | Some (p, t, sig) \<Rightarrow> Some (signing_input p t))"

lemma signing_input_inj:
  assumes "signing_input p t = signing_input p' t'" "CHR ''.'' \<notin> set p" "CHR ''.'' \<notin> set p'"
  shows "p = p' \<and> t = t'"
proof -
  have "(p, True, t) = partition_on (CHR ''.'') (signing_input p t)"
    unfolding signing_input_def by (rule partition_on_sep [OF assms(2), symmetric])
  also have "\<dots> = (p', True, t')"
    unfolding assms(1) unfolding signing_input_def by (rule partition_on_sep [OF assms(3)])
  finally show ?thesis by simp
qed

text \<open>What a token of an issued text can carry.\<close>

lemma token_loads_issued:
  assumes "token_loads mac json_loads s now max_age tok = Inr d'"
    and "token_input tok = token_input (token_dumps mac json_dumps issuer signed_at d)"
    and "json_loads (json_dumps d) = Some d" "signed_at < 2 ^ 64"
  shows "d' = d \<and> token_age max_age now (int signed_at) = Inr ()"
proof -
  let ?p = "b64encode (json_dumps d)" and ?t = "b64encode (to_bytes 8 signed_at)"
  have "token_input (token_dumps mac json_dumps issuer signed_at d) = Some (signing_input ?p ?t)"
    unfolding token_input_def token_dumps_def Let_def by (simp add: split_token_parts b64encode_parts)
  with assms(2) obtain p t sig where tok: "split_token tok = Some (p, t, sig)" "signing_input p t = signing_input ?p ?t"
    by (auto simp: token_input_def split: option.splits)
  with split_token_input [OF tok(1)] signing_input_inj [of p t ?p ?t] have "p = ?p" "t = ?t" by (simp_all add: b64encode_parts)
  moreover have "from_bytes (to_bytes 8 signed_at) = signed_at" using assms(4) by (intro from_to_bytes) simp
  ultimately show ?thesis using assms(1,3) tok(1)
    by (auto simp: token_loads_def b64_roundtrip split: option.splits if_splits sum.splits)
qed

section \<open>The lenient decoder\<close>

lemma a2b_skip: "b64_val c = None \<Longrightarrow> c \<noteq> CHR ''='' \<Longrightarrow> a2b q l p (s @ c # t) = a2b q l p (s @ t)"
  by (induction q l p s rule: a2b.induct) (simp_all split: option.split)

lemma a2b_pads: "a2b 0 l p (replicate k (CHR ''='')) = Some []"
  by (induction k) simp_all

lemma a2b_more_padding:
  "a2b q l p (s @ [CHR ''='']) = Some r \<Longrightarrow> a2b q l p (s @ CHR ''='' # replicate k (CHR ''='')) = Some r"
proof (induction s arbitrary: q l p r)
  case Nil
  then show ?case using a2b_pads [of l p k] by (auto split: if_splits)
next
  case (Cons c s)
  show ?case
  proof (cases "c = CHR ''=''")
    case True
    with Cons show ?thesis by (auto split: if_splits)
  next
    case False
    with Cons show ?thesis by (cases "b64_val c") (auto split: if_splits)
  qed
qed

lemma length_b64_padded: "length (b64_padded bs) = 4 * ((length bs + 2) div 3)"
proof (induction bs rule: b64_padded.induct)
  case (4 a b c bs)
  have "(length (a # b # c # bs) + 2) div 3 = Suc ((length bs + 2) div 3)" by simp
  with 4 show ?case by simp
qed simp_all

lemma count_padding: "length (filter ((=) (CHR ''='')) (b64_padded bs)) = (3 - length bs mod 3) mod 3"
proof (induction bs rule: b64_padded.induct)
  case (2 a)
  have "unat a div 4 < 64" "unat a mod 4 * 16 < 64" using unat_byte [of a] three_bytes(1,5) [of "unat a" 0 0] by simp_all
  from b64_alphabet(2) [OF this(1)] b64_alphabet(2) [OF this(2)] show ?case by auto
next
  case (3 a b)
  have "unat a div 4 < 64" "unat a mod 4 * 16 + unat b div 16 < 64" "unat b mod 16 * 4 < 64"
    using unat_byte [of a] unat_byte [of b] three_bytes [of "unat a" "unat b" 0] by simp_all
  from b64_alphabet(2) [OF this(1)] b64_alphabet(2) [OF this(2)] b64_alphabet(2) [OF this(3)] show ?case by auto
next
  case (4 a b c bs)
  have "unat a div 4 < 64" "unat a mod 4 * 16 + unat b div 16 < 64" "unat b mod 16 * 4 + unat c div 64 < 64" "unat c mod 64 < 64"
    using unat_byte [of a] unat_byte [of b] unat_byte [of c] three_bytes [of "unat a" "unat b" "unat c"] by simp_all
  from b64_alphabet(2) [OF this(1)] b64_alphabet(2) [OF this(2)] b64_alphabet(2) [OF this(3)] b64_alphabet(2) [OF this(4)] 4
  show ?case by auto
qed simp

lemma b64decode_dots:
  assumes "length sig = 32"
  shows "b64decode (b64encode sig @ ''..'') = Some sig"
proof -
  let ?e = "b64encode sig"
  let ?k = "(4 - length ?e mod 4) mod 4"
  have e: "?e @ replicate ?k (CHR ''='') = b64_padded sig" by (rule b64encode_parts(1))
  have "filter ((=) (CHR ''='')) ?e = []" using b64encode_parts(4) [of sig] by (auto simp: filter_empty_conv)
  then have "length (filter ((=) (CHR ''='')) (?e @ replicate ?k (CHR ''=''))) = ?k" by simp
  then have k: "?k = 1" unfolding e count_padding assms by simp
  have "length (?e @ replicate ?k (CHR ''='')) = 44" unfolding e length_b64_padded assms by simp
  then have l: "length ?e = 43" unfolding k by simp
  from e have "?e @ [CHR ''=''] = b64_padded sig" unfolding k by simp
  then have "a2b 0 0 0 (?e @ [CHR ''='']) = Some sig" by (simp only: a2b_padded)
  from a2b_more_padding [OF this, of 2]
  have three: "a2b 0 0 0 (?e @ replicate 3 (CHR ''='')) = Some sig" by (simp only: replicate_Suc numeral_3_eq_3 numeral_2_eq_2)
  have dot: "b64_val (CHR ''.'') = None" "CHR ''.'' \<noteq> CHR ''=''" by (simp_all add: b64_val_def)
  have "a2b 0 0 0 (?e @ CHR ''.'' # CHR ''.'' # replicate 3 (CHR ''='')) = Some sig"
    unfolding a2b_skip [OF dot] by (rule three)
  moreover have "(?e @ ''..'') @ replicate ((4 - length (?e @ ''..'') mod 4) mod 4) (CHR ''='')
      = ?e @ CHR ''.'' # CHR ''.'' # replicate 3 (CHR ''='')"
    by (simp add: l)
  moreover have "list_all is_ascii (?e @ ''..'')" using b64encode_parts(3) [of sig] by (simp add: is_ascii_def)
  ultimately show ?thesis by (simp only: b64decode_def not_True_eq_False if_False)
qed

text \<open>Two dots after a token change nothing: the decoder skips them and the padding that is added fits.\<close>

theorem trailing_dots_accepted:
  assumes "\<And>k m. length (mac k m) = 32"
  shows "token_loads mac json_loads s now max_age (token_dumps mac json_dumps issuer signed_at d @ ''..'')
    = token_loads mac json_loads s now max_age (token_dumps mac json_dumps issuer signed_at d)"
proof -
  let ?p = "b64encode (json_dumps d)" and ?t = "b64encode (to_bytes 8 signed_at)"
  let ?sig = "mac (sg_key issuer) (ascii_bytes (signing_input ?p ?t))"
  have "split_token (token_dumps mac json_dumps issuer signed_at d) = Some (?p, ?t, b64encode ?sig)"
    unfolding token_dumps_def Let_def by (rule split_token_parts) (simp_all add: b64encode_parts)
  moreover have "split_token (token_dumps mac json_dumps issuer signed_at d @ ''..'') = Some (?p, ?t, b64encode ?sig @ ''..'')"
    unfolding token_dumps_def Let_def append.assoc append_Cons
    by (rule split_token_parts) (simp_all add: b64encode_parts)
  ultimately show ?thesis using b64decode_dots [OF assms] by (simp add: token_loads_def b64_roundtrip)
qed

section \<open>Properties\<close>

text \<open>C36: A signed token gives its value back: to every signer that accepts the key it was signed with, the
  primary or a fallback kept during a rotation, within \<open>max_age\<close> of the second it was signed in; a
  future-dated or older one is \<open>BadTimeSignature\<close>. And a token over the same signed text, whatever
  its third part, can carry nothing but that value at that age.\<close>

theorem signed_token_roundtrip:
  assumes "json_loads (json_dumps d) = Some d" "signed_at < 2 ^ 64" "sg_key issuer \<in> set (sg_keys s)"
  shows "token_loads mac json_loads s now max_age (token_dumps mac json_dumps issuer signed_at d)
      = (case max_age of
           None \<Rightarrow> Inr d
         | Some m \<Rightarrow> if int signed_at \<le> now \<and> now \<le> int signed_at + m then Inr d else Inl BadTimeSignature)
    \<and> (token_loads mac json_loads s now max_age tok = Inr d' \<longrightarrow>
         token_input tok = token_input (token_dumps mac json_dumps issuer signed_at d) \<longrightarrow>
         d' = d \<and> (\<forall>m. max_age = Some m \<longrightarrow> int signed_at \<le> now \<and> now \<le> int signed_at + m))"
proof (intro conjI impI)
  show "token_loads mac json_loads s now max_age (token_dumps mac json_dumps issuer signed_at d)
      = (case max_age of
           None \<Rightarrow> Inr d
         | Some m \<Rightarrow> if int signed_at \<le> now \<and> now \<le> int signed_at + m then Inr d else Inl BadTimeSignature)"
    using token_loads_dumps [where json_loads = json_loads and json_dumps = json_dumps and d = d, OF assms(1,3,2), of mac now max_age]
    by (simp add: token_age_def split: option.split)
next
  assume *: "token_loads mac json_loads s now max_age tok = Inr d'"
    "token_input tok = token_input (token_dumps mac json_dumps issuer signed_at d)"
  from token_loads_issued [where json_loads = json_loads and json_dumps = json_dumps and d = d, OF * assms(1,2)]
  show "d' = d" "\<forall>m. max_age = Some m \<longrightarrow> int signed_at \<le> now \<and> now \<le> int signed_at + m"
    by (auto simp: token_age_def split: if_splits)
qed

theorem signed_token_roundtrip_witness:
  "token_loads (\<lambda>k m. k @ m) (\<lambda>bs. Some bs) \<lparr>sg_key = [2], sg_keys = [[2], [1]]\<rparr> 130 (Some 60)
     (token_dumps (\<lambda>k m. k @ m) (\<lambda>bs. bs) \<lparr>sg_key = [1], sg_keys = [[1]]\<rparr> 100 [7]) = Inr [7]"
proof -
  let ?j = "(\<lambda>bs. bs) :: bytes \<Rightarrow> bytes"
  have a: "(\<lambda>bs. Some bs) (?j [7]) = Some [7]" and b: "(100::nat) < 2 ^ 64"
    and c: "sg_key \<lparr>sg_key = [1], sg_keys = [[1]]\<rparr> \<in> set (sg_keys \<lparr>sg_key = [2], sg_keys = [[2], [1]]\<rparr>)" by simp_all
  from signed_token_roundtrip [where json_loads = "\<lambda>bs. Some bs" and json_dumps = ?j and d = "[7]", OF a b c,
      of "\<lambda>k m. k @ m" 130 "Some 60"] show ?thesis by simp
qed

end
