(* ===== verification/Pagination.thy ===== *)
theory Pagination
  imports Signing
begin

text \<open>
  Cursor pagination of the MCP list methods: \<open>src/src/veloce/contrib/mcp/pagination.py\<close> and the
  listing of \<open>MCPServer\<close> that pages a catalogue after its two filters. \<open>str.encode\<close> and
  \<open>bytes.decode\<close> are arguments, since strings here are 8-bit; of them only the round trip is used.
\<close>

section \<open>Cursors\<close>

definition encode_cursor :: "(string \<Rightarrow> bytes) \<Rightarrow> nat \<Rightarrow> string \<Rightarrow> string" where
  "encode_cursor enc index key = b64_padded (enc (str_nat index @ CHR '':'' # key))"

definition decode_cursor :: "(bytes \<Rightarrow> string option) \<Rightarrow> string \<Rightarrow> (nat \<times> string) res" where
  "decode_cursor dec cursor =
     (if \<not> list_all is_ascii cursor then Inl InvalidParamsError
      else
        (case a2b 0 0 0 cursor of
           None \<Rightarrow> Inl InvalidParamsError
         | Some raw \<Rightarrow>
             (case dec raw of
                None \<Rightarrow> Inl InvalidParamsError
              | Some text \<Rightarrow>
                  (case partition_on (CHR '':'') text of
                     (index_text, found, key) \<Rightarrow>
                       if \<not> found then Inl InvalidParamsError
                       else
                         (case py_int index_text of
                            Inl e \<Rightarrow> Inl InvalidParamsError
                          | Inr i \<Rightarrow> if i < 0 then Inl InvalidParamsError else Inr (nat i, key))))))"

text \<open>The loop of \<open>_resume_at\<close> over the entries from \<open>position\<close> on.\<close>

fun find_key :: "('a \<Rightarrow> string) \<Rightarrow> string \<Rightarrow> nat \<Rightarrow> 'a list \<Rightarrow> nat option" where
  "find_key key_of key position [] = None"
| "find_key key_of key position (x # xs) =
     (if key_of x = key then Some position else find_key key_of key (position + 1) xs)"

definition resume_at :: "(bytes \<Rightarrow> string option) \<Rightarrow> 'a list \<Rightarrow> ('a \<Rightarrow> string) \<Rightarrow> string \<Rightarrow> nat res" where
  "resume_at dec entries key_of cursor =
     (case decode_cursor dec cursor of
        Inl e \<Rightarrow> Inl e
      | Inr (index, key) \<Rightarrow>
          if index < length entries \<and> key_of (entries ! index) = key then Inr (index + 1)
          else (case find_key key_of key 0 entries of
                  Some position \<Rightarrow> Inr (position + 1)
                | None \<Rightarrow> Inr (min index (length entries))))"

definition paginate ::
  "(string \<Rightarrow> bytes) \<Rightarrow> (bytes \<Rightarrow> string option) \<Rightarrow> 'a list \<Rightarrow> ('a \<Rightarrow> string) \<Rightarrow> string option \<Rightarrow> nat option
     \<Rightarrow> ('a list \<times> string option) res" where
  "paginate enc dec items key_of cursor size_opt =
     (case size_opt of
        None \<Rightarrow> if cursor \<noteq> None then Inl InvalidParamsError else Inr (items, None)
      | Some sz \<Rightarrow>
          (case (case cursor of None \<Rightarrow> Inr 0 | Some c \<Rightarrow> resume_at dec items key_of c) of
             Inl e \<Rightarrow> Inl e
           | Inr start \<Rightarrow>
               (let window = take sz (drop start items) in
                if window = [] \<or> start + sz \<ge> length items then Inr (window, None)
                else Inr (window, Some (encode_cursor enc (start + sz - 1) (key_of (last window)))))))"

text \<open>\<open>_readable\<close> and \<open>_listing\<close>: entries whose scopes the caller lacks are left out when any entry has
  scopes, then the entries hidden from the connection, then one page is taken.\<close>

definition readable :: "('a \<Rightarrow> bool) \<Rightarrow> bool \<Rightarrow> 'a list \<Rightarrow> 'a list" where
  "readable lacks any_scoped items = (if \<not> any_scoped then items else filter (\<lambda>x. \<not> lacks x) items)"

definition listing ::
  "(string \<Rightarrow> bytes) \<Rightarrow> (bytes \<Rightarrow> string option) \<Rightarrow> string list option \<Rightarrow> nat option \<Rightarrow> ('a \<Rightarrow> string) \<Rightarrow> ('a \<Rightarrow> 'b)
     \<Rightarrow> string option \<Rightarrow> 'a list \<Rightarrow> ('b list \<times> string option) res" where
  "listing enc dec hidden size_opt key_of describe cursor items =
     (let shown = (case hidden of
                     None \<Rightarrow> items
                   | Some hs \<Rightarrow> if hs = [] then items else filter (\<lambda>x. key_of x \<notin> set hs) items)
      in case paginate enc dec shown key_of cursor size_opt of
           Inl e \<Rightarrow> Inl e
         | Inr (page, next_cursor) \<Rightarrow> Inr (map describe page, next_cursor))"

section \<open>Cursors name what they were made for\<close>

definition codec :: "(string \<Rightarrow> bytes) \<Rightarrow> (bytes \<Rightarrow> string option) \<Rightarrow> bool" where
  "codec enc dec \<longleftrightarrow> (\<forall>s. dec (enc s) = Some s)"

lemma b64_padded_ascii: "list_all is_ascii (b64_padded bs)"
proof -
  obtain cs k where "b64_padded bs = cs @ replicate k (CHR ''='')" "list_all is_ascii cs"
    using b64_padded_tail [of bs] by blast
  then show ?thesis by (auto simp: list_all_iff is_ascii_def)
qed

lemma decimal_no_colon: "CHR '':'' \<notin> set (str_nat n)"
proof
  assume "CHR '':'' \<in> set (str_nat n)"
  with str_nat_decimal [of n] have "is_decimal (CHR '':'')" by (simp add: list_all_iff)
  then show False by (simp add: is_decimal_def)
qed

lemma cursor_roundtrip: "codec enc dec \<Longrightarrow> decode_cursor dec (encode_cursor enc index key) = Inr (index, key)"
  by (simp add: decode_cursor_def encode_cursor_def b64_padded_ascii a2b_padded codec_def
      partition_on_sep [OF decimal_no_colon])

lemma find_key_Some: "find_key key_of key p xs = Some q \<Longrightarrow> p \<le> q \<and> q < p + length xs \<and> key_of (xs ! (q - p)) = key"
  by (induction key_of key p xs rule: find_key.induct) (auto split: if_splits simp: Suc_diff_le nth_Cons' )

lemma find_key_None: "find_key key_of key p xs = None \<longleftrightarrow> key \<notin> key_of ` set xs"
  by (induction key_of key p xs rule: find_key.induct) auto

lemma find_key_distinct:
  assumes "distinct (map key_of xs)" "i < length xs"
  shows "find_key key_of (key_of (xs ! i)) 0 xs = Some i"
proof -
  have "find_key key_of (key_of (xs ! i)) 0 xs \<noteq> None" using assms(2) by (simp add: find_key_None)
  then obtain q where q: "find_key key_of (key_of (xs ! i)) 0 xs = Some q" by blast
  from find_key_Some [OF q] have "q < length xs" "key_of (xs ! q) = key_of (xs ! i)" by simp_all
  with assms have "q = i" using nth_eq_iff_index_eq [of "map key_of xs" q i] by simp
  with q show ?thesis by simp
qed

text \<open>Where the last item emitted is now, whatever else came or went; if only it went, where it was.\<close>

lemma resume_here: "codec enc dec \<Longrightarrow> i < length xs \<Longrightarrow> resume_at dec xs key_of (encode_cursor enc i (key_of (xs ! i))) = Inr (i + 1)"
  by (simp add: resume_at_def cursor_roundtrip)

lemma resume_moved:
  assumes "codec enc dec" "distinct (map key_of xs)" "i < length xs"
  shows "resume_at dec xs key_of (encode_cursor enc j (key_of (xs ! i))) = Inr (i + 1)"
proof (cases "j < length xs \<and> key_of (xs ! j) = key_of (xs ! i)")
  case True
  with assms have "j = i" using nth_eq_iff_index_eq [of "map key_of xs" j i] by simp
  with assms show ?thesis by (simp add: resume_here)
next
  case False
  with assms show ?thesis by (auto simp: resume_at_def cursor_roundtrip find_key_distinct)
qed

lemma resume_gone:
  assumes "codec enc dec" "key \<notin> key_of ` set xs" "j \<le> length xs"
  shows "resume_at dec xs key_of (encode_cursor enc j key) = Inr j"
proof -
  have "\<not> (j < length xs \<and> key_of (xs ! j) = key)" using assms(2) by auto
  moreover have "find_key key_of key 0 xs = None" using assms(2) by (simp add: find_key_None)
  ultimately show ?thesis using assms by (auto simp: resume_at_def cursor_roundtrip)
qed

section \<open>Following the cursors\<close>

text \<open>A client that asks for the next page as long as there is a cursor, with a bound on its requests.\<close>

fun walk ::
  "(string option \<Rightarrow> ('b list \<times> string option) res) \<Rightarrow> nat \<Rightarrow> string option \<Rightarrow> 'b list list option" where
  "walk ask 0 cursor = None"
| "walk ask (Suc fuel) cursor =
     (case ask cursor of
        Inl e \<Rightarrow> None
      | Inr (page, None) \<Rightarrow> Some [page]
      | Inr (page, Some c) \<Rightarrow> map_option ((#) page) (walk ask fuel (Some c)))"

function pages_of :: "nat \<Rightarrow> 'a list \<Rightarrow> 'a list list" where
  "pages_of sz xs = (if sz = 0 \<or> length xs \<le> sz then [xs] else take sz xs # pages_of sz (drop sz xs))"
  by pat_completeness auto
termination by (relation "measure (\<lambda>(sz, xs). length xs)") auto

declare pages_of.simps [simp del]

lemma concat_pages_of: "concat (pages_of sz xs) = xs"
  by (induction sz xs rule: pages_of.induct) (subst pages_of.simps, simp)

lemma pages_of_lengths: "0 < sz \<Longrightarrow> p \<in> set (pages_of sz xs) \<Longrightarrow> length p \<le> sz"
  by (induction sz xs rule: pages_of.induct) (subst (asm) (2) pages_of.simps, auto split: if_splits)

lemma length_pages_of: "0 < sz \<Longrightarrow> length (pages_of sz xs) = max 1 ((length xs + sz - 1) div sz)"
proof (induction sz xs rule: pages_of.induct)
  case (1 sz xs)
  show ?case
  proof (cases "length xs \<le> sz")
    case True
    then have "(length xs + sz - 1) div sz \<le> 1" using 1(2) by (auto simp: div_le_mono less_mult_imp_div_less intro!: less_Suc_eq_le [THEN iffD1] div_less_iff_less_mult [THEN iffD2])
    with True 1(2) show ?thesis by (subst pages_of.simps) (simp add: max_def)
  next
    case False
    then have "length (drop sz xs) + sz - 1 = length xs - 1" "0 < length xs - sz" by auto
    moreover have "(length xs + sz - 1) div sz = Suc ((length xs - 1) div sz)"
      using False 1(2) div_add_self2 [of sz "length xs - 1"] by simp
    moreover have "1 \<le> (length xs - 1) div sz" using False 1(2) by (simp add: div_greater_zero_iff Suc_le_eq)
    ultimately show ?thesis using False 1 by (subst pages_of.simps) (simp add: max_def)
  qed
qed

definition shown_to :: "string list option \<Rightarrow> ('a \<Rightarrow> string) \<Rightarrow> 'a list \<Rightarrow> 'a list" where
  "shown_to hidden key_of items =
     (case hidden of None \<Rightarrow> items | Some hs \<Rightarrow> filter (\<lambda>x. key_of x \<notin> set hs) items)"

lemma listing_shown:
  "listing enc dec hidden size_opt key_of describe cursor items =
     (case paginate enc dec (shown_to hidden key_of items) key_of cursor size_opt of
        Inl e \<Rightarrow> Inl e | Inr (page, next_cursor) \<Rightarrow> Inr (map describe page, next_cursor))"
  by (simp add: listing_def shown_to_def Let_def split: option.split)

text \<open>One request at the cursor of the item before \<open>start\<close>.\<close>

definition cursor_at :: "(string \<Rightarrow> bytes) \<Rightarrow> ('a \<Rightarrow> string) \<Rightarrow> 'a list \<Rightarrow> nat \<Rightarrow> string option" where
  "cursor_at enc key_of xs start = (if start = 0 then None else Some (encode_cursor enc (start - 1) (key_of (xs ! (start - 1)))))"

lemma paginate_at:
  assumes "codec enc dec" "start \<le> length xs" "0 < sz"
  shows "paginate enc dec xs key_of (cursor_at enc key_of xs start) (Some sz) =
    Inr (take sz (drop start xs), if length xs \<le> start + sz then None else cursor_at enc key_of xs (start + sz))"
proof -
  have "(case cursor_at enc key_of xs start of None \<Rightarrow> Inr 0 | Some c \<Rightarrow> resume_at dec xs key_of c) = Inr start"
    using assms resume_here [of enc dec "start - 1" xs key_of] by (simp add: cursor_at_def)
  moreover have "last (take sz (drop start xs)) = xs ! (start + sz - 1)" if "start + sz < length xs"
    using that assms(3) by (simp add: last_conv_nth)
  ultimately show ?thesis using assms by (simp add: paginate_def Let_def cursor_at_def)
qed

lemma walk_pages:
  assumes "codec enc dec" "0 < sz" "start \<le> length (shown_to hidden key_of items)"
    and "length (shown_to hidden key_of items) - start < fuel"
  shows "walk (\<lambda>c. listing enc dec hidden (Some sz) key_of describe c items) fuel
      (cursor_at enc key_of (shown_to hidden key_of items) start)
    = Some (map (map describe) (pages_of sz (drop start (shown_to hidden key_of items))))"
  using assms(3,4)
proof (induction fuel arbitrary: start)
  case (Suc fuel)
  let ?xs = "shown_to hidden key_of items"
  note page = paginate_at [OF assms(1) Suc.prems(1) assms(2), of key_of]
  show ?case
  proof (cases "length ?xs \<le> start + sz")
    case True
    then have "pages_of sz (drop start ?xs) = [drop start ?xs]"
      by (subst pages_of.simps) (auto simp: le_diff_conv)
    with page True show ?thesis by (simp add: listing_shown)
  next
    case False
    obtain c where c: "cursor_at enc key_of ?xs (start + sz) = Some c"
      using assms(2) by (simp add: cursor_at_def)
    with Suc.IH [of "start + sz"] Suc.prems False assms(2)
    have "walk (\<lambda>c. listing enc dec hidden (Some sz) key_of describe c items) fuel (Some c)
        = Some (map (map describe) (pages_of sz (drop (start + sz) ?xs)))" by simp
    moreover have "pages_of sz (drop start ?xs) = take sz (drop start ?xs) # pages_of sz (drop (start + sz) ?xs)"
      using False assms(2) pages_of.simps [of sz "drop start ?xs"] by (auto simp: add.commute)
    ultimately show ?thesis using page False c by (simp add: listing_shown)
  qed
qed simp

section \<open>Properties\<close>

text \<open>C40: A client that follows \<open>nextCursor\<close> over a catalogue that stays the same gets every entry it may see
  exactly once and in order, none that is hidden from its connection, in the least number of
  pages, each of at most the page size: it stops after that many requests, of which there are at
  most as many as entries and one.\<close>

theorem pagination_walk_complete:
  assumes "codec enc dec" "0 < sz"
  shows "\<exists>pages. walk (\<lambda>c. listing enc dec hidden (Some sz) key_of describe c items)
        (Suc (length items)) None = Some (map (map describe) pages)
    \<and> concat pages = shown_to hidden key_of items
    \<and> length pages = max 1 ((length (shown_to hidden key_of items) + sz - 1) div sz)
    \<and> list_all (\<lambda>p. length p \<le> sz) pages"
proof -
  let ?xs = "shown_to hidden key_of items"
  have "length ?xs \<le> length items" by (simp add: shown_to_def split: option.split)
  then have "walk (\<lambda>c. listing enc dec hidden (Some sz) key_of describe c items) (Suc (length items)) None
      = Some (map (map describe) (pages_of sz ?xs))"
    using walk_pages [OF assms, of 0 hidden key_of items "Suc (length items)" describe]
    by (simp add: cursor_at_def)
  then show ?thesis using assms(2)
    by (intro exI [of _ "pages_of sz ?xs"]) (simp add: concat_pages_of length_pages_of list_all_iff pages_of_lengths)
qed

theorem pagination_walk_complete_witness:
  "\<exists>pages. walk (\<lambda>c. listing ascii_bytes (\<lambda>bs. Some (map (char_of \<circ> unat) bs)) (Some [''b'']) (Some 2) id id c
        [''a'', ''b'', ''c'', ''d'']) 5 None = Some (map (map id) pages) \<and> concat pages = [''a'', ''c'', ''d''] \<and> length pages = 2"
proof -
  have "unat (of_char c :: byte) = of_char c" for c :: char
    by (metis nat_of_char_less_256 of_nat_of_char unat_of_nat_byte)
  then have "codec ascii_bytes (\<lambda>bs. Some (map (char_of \<circ> unat) bs))" by (simp add: codec_def ascii_bytes_def comp_def)
  from pagination_walk_complete [OF this, of 2 "Some [''b'']" id id "[''a'', ''b'', ''c'', ''d'']"]
  obtain pages where "walk (\<lambda>c. listing ascii_bytes (\<lambda>bs. Some (map (char_of \<circ> unat) bs)) (Some [''b'']) (Some 2) id id c
        [''a'', ''b'', ''c'', ''d'']) (Suc (length [''a'', ''b'', ''c'', ''d''])) None = Some (map (map id) pages)"
    "concat pages = [''a'', ''c'', ''d'']" "length pages = max 1 ((length [''a'', ''c'', ''d''] + 2 - 1) div 2)"
    by (auto simp: shown_to_def simp del: walk.simps)
  moreover have "Suc (length [''a'', ''b'', ''c'', ''d'']) = 5" "max 1 ((length [''a'', ''c'', ''d''] + 2 - 1) div 2) = (2 :: nat)"
    by simp_all
  ultimately show ?thesis by metis
qed

end
