(* ===== verification/Cookies.thy ===== *)
theory Cookies
  imports Header_Set Ws_Codec
begin

text \<open>
  Cookies: \<open>iter_cookies\<close> and \<open>dump_cookie\<close> of \<open>src/src/veloce/http/cookies.py\<close>, the \<open>Set-Cookie\<close>
  operations of \<open>Response\<close> in \<open>src/src/veloce/http/response.py\<close>, and the cookie jar of the client in
  \<open>src/src/veloce/testclient.py\<close>. \<open>quote\<close> and \<open>unquote\<close> of the standard library are written out but for
  the text codec: \<open>enc\<close> is UTF-8 encoding, \<open>dec\<close> UTF-8 decoding with replacement. A date of
  \<open>expires\<close> is given as \<open>http_date\<close> renders it.
\<close>

section \<open>Percent encoding\<close>

definition hex_digit :: "nat \<Rightarrow> char" where
  "hex_digit n = char_of (if n < 10 then 48 + n else 55 + n)"

text \<open>What \<open>quote\<close> never encodes, and the characters \<open>dump_cookie\<close> adds to them.\<close>

definition always_safe :: "char \<Rightarrow> bool" where
  "always_safe c \<longleftrightarrow> is_decimal c \<or> (65 \<le> code c \<and> code c \<le> 90) \<or> (97 \<le> code c \<and> code c \<le> 122) \<or> c \<in> set ''_.-~''"

definition cookie_safe :: "char \<Rightarrow> bool" where
  "cookie_safe c \<longleftrightarrow> always_safe c \<or> c \<in> set (''!#$&'' @ [CHR 0x27] @ ''()*+/:<=>?@[]^`{|}~'')"

definition quote_byte :: "byte \<Rightarrow> string" where
  "quote_byte b = (if unat b < 128 \<and> cookie_safe (char_of (unat b)) then [char_of (unat b)]
     else [CHR ''%'', hex_digit (unat b div 16), hex_digit (unat b mod 16)])"

definition quote :: "(string \<Rightarrow> bytes) \<Rightarrow> string \<Rightarrow> string" where
  "quote enc v = concat (map quote_byte (enc v))"

fun unquote_bytes :: "string \<Rightarrow> bytes" where
  "unquote_bytes (c # a # b # s) =
     (if c = CHR ''%'' \<and> is_hex a \<and> is_hex b then of_nat (16 * hex_val a + hex_val b) # unquote_bytes s
      else of_char c # unquote_bytes (a # b # s))"
| "unquote_bytes (c # s) = of_char c # unquote_bytes s"
| "unquote_bytes [] = []"

text \<open>\<open>unquote\<close>: the ASCII runs are decoded, the rest is kept.\<close>

function unquote_runs :: "(bytes \<Rightarrow> string) \<Rightarrow> string \<Rightarrow> string" where
  "unquote_runs dec [] = []"
| "unquote_runs dec (c # s) =
     (if is_ascii c
      then dec (unquote_bytes (c # takeWhile is_ascii s)) @ unquote_runs dec (dropWhile is_ascii s)
      else c # unquote_runs dec s)"
  by pat_completeness auto
termination by (relation "measure (\<lambda>(dec, s). length s)") (auto simp: le_imp_less_Suc length_dropWhile_le)

definition unquote :: "(bytes \<Rightarrow> string) \<Rightarrow> string \<Rightarrow> string" where
  "unquote dec s = (if CHR ''%'' \<notin> set s then s else unquote_runs dec s)"

section \<open>Reading a Cookie header\<close>

definition cookie_value :: "(bytes \<Rightarrow> string) \<Rightarrow> string \<Rightarrow> string" where
  "cookie_value dec v =
     (let v1 = str_strip v in
      if CHR ''%'' \<in> set v1 \<or> dquote \<in> set v1 then unquote dec (unquote_value v1) else v1)"

fun cookie_chunks :: "(bytes \<Rightarrow> string) \<Rightarrow> string list \<Rightarrow> string list \<Rightarrow> (string \<times> string) list" where
  "cookie_chunks dec seen [] = []"
| "cookie_chunks dec seen (chunk # chunks) =
     (case partition_on (CHR ''='') chunk of
        (name, eq, v) \<Rightarrow>
          if \<not> eq \<or> str_strip name \<in> set seen then cookie_chunks dec seen chunks
          else (str_strip name, cookie_value dec v) # cookie_chunks dec (str_strip name # seen) chunks)"

definition iter_cookies :: "(bytes \<Rightarrow> string) \<Rightarrow> string \<Rightarrow> (string \<times> string) list" where
  "iter_cookies dec header = (if header = [] then [] else cookie_chunks dec [] (split_on (CHR '';'') header))"

text \<open>\<open>dict(iter_cookies(header))\<close>; \<open>Request.cookies\<close> joins several headers first.\<close>

definition parse_cookie :: "(bytes \<Rightarrow> string) \<Rightarrow> string \<Rightarrow> (string, string) dict" where
  "parse_cookie dec header = fold (\<lambda>(k, v). dict_set k v) (iter_cookies dec header) []"

definition request_cookies :: "(bytes \<Rightarrow> string) \<Rightarrow> string list \<Rightarrow> (string \<times> string) list" where
  "request_cookies dec headers = iter_cookies dec (join_str ''; '' headers)"

section \<open>Writing a Set-Cookie line\<close>

definition cookie_name_token :: "string \<Rightarrow> bool" where
  "cookie_name_token s \<longleftrightarrow> s \<noteq> [] \<and>
     list_all (\<lambda>c. is_decimal c \<or> (65 \<le> code c \<and> code c \<le> 90) \<or> (97 \<le> code c \<and> code c \<le> 122)
       \<or> c \<in> set (''!#$%&'' @ [CHR 0x27] @ ''*+-.^_`|~'')) s"

definition reserved_cookie_names :: "string list" where
  "reserved_cookie_names =
     [''expires'', ''max-age'', ''domain'', ''path'', ''secure'', ''httponly'', ''samesite'', ''partitioned'']"

record cookie_attrs =
  ck_max_age :: "int option"
  ck_expires :: "string option"
  ck_path :: "string option"
  ck_domain :: "string option"
  ck_secure :: bool
  ck_httponly :: bool
  ck_samesite :: "string option"
  ck_prefix :: "string option"

definition wire_key :: "string \<Rightarrow> cookie_attrs \<Rightarrow> string res" where
  "wire_key key a =
     (case ck_prefix a of
        None \<Rightarrow> Inr key
      | Some p \<Rightarrow>
          if p = ''secure'' then (if \<not> ck_secure a then Inl ValueError else Inr (''__Secure-'' @ key))
          else if p = ''host'' then
            (if \<not> ck_secure a then Inl ValueError
             else if ck_path a \<noteq> Some ''/'' then Inl ValueError
             else if ck_domain a \<noteq> None then Inl ValueError
             else Inr (''__Host-'' @ key))
          else Inl ValueError)"

text \<open>\<open>str.capitalize\<close>; its result is only compared with three ASCII words.\<close>

definition str_capitalize :: "string \<Rightarrow> string" where
  "str_capitalize s = (case s of [] \<Rightarrow> [] | c # cs \<Rightarrow> upper_char c # str_lower cs)"

definition samesite_words :: "string list" where
  "samesite_words = [''Strict'', ''Lax'', ''None'']"

text \<open>The parts after the pair; a blank \<open>samesite\<close> adds none.\<close>

definition samesite_part :: "string option \<Rightarrow> string list res" where
  "samesite_part ss =
     (case ss of
        None \<Rightarrow> Inr []
      | Some v \<Rightarrow>
          res_bind (reject_header_crlf v) (\<lambda>_.
            let n = str_capitalize (str_strip v) in
            if n = [] then Inr []
            else if n \<notin> set samesite_words then Inl ValueError
            else Inr [''SameSite='' @ n]))"

definition text_part :: "string \<Rightarrow> string option \<Rightarrow> string list res" where
  "text_part label v =
     (case v of
        None \<Rightarrow> Inr []
      | Some t \<Rightarrow> if t = [] then Inr [] else res_bind (reject_header_crlf t) (\<lambda>_. Inr [label @ ''='' @ t]))"

definition cookie_parts :: "cookie_attrs \<Rightarrow> string list res" where
  "cookie_parts a =
     res_bind (text_part ''Path'' (ck_path a)) (\<lambda>path.
     res_bind (text_part ''Domain'' (ck_domain a)) (\<lambda>domain.
     res_bind (samesite_part (ck_samesite a)) (\<lambda>samesite.
       Inr ((case ck_max_age a of None \<Rightarrow> [] | Some n \<Rightarrow> [''Max-Age='' @ str_int n])
         @ (case ck_expires a of None \<Rightarrow> [] | Some d \<Rightarrow> [''Expires='' @ d])
         @ path @ domain
         @ (if ck_secure a then [''Secure''] else [])
         @ (if ck_httponly a then [''HttpOnly''] else [])
         @ samesite))))"

definition dump_cookie :: "(string \<Rightarrow> bytes) \<Rightarrow> string \<Rightarrow> string \<Rightarrow> cookie_attrs \<Rightarrow> string res" where
  "dump_cookie enc key v a =
     res_bind (wire_key key a) (\<lambda>wire.
     res_bind (reject_header_crlf key) (\<lambda>_.
       if \<not> cookie_name_token key then Inl ValueError
       else if str_lower key \<in> set reserved_cookie_names then Inl ValueError
       else
         res_bind (reject_header_crlf v) (\<lambda>_.
         res_bind (cookie_parts a) (\<lambda>parts.
           Inr (join_str ''; '' ((wire @ ''='' @ quote enc v) # parts))))))"

section \<open>The Set-Cookie headers of a response\<close>

definition set_cookie_joiner :: string where
  "set_cookie_joiner = [CHR 0x0D, CHR 0x0A] @ ''Set-Cookie: ''"

definition append_set_cookie :: "string \<Rightarrow> string option \<Rightarrow> string option" where
  "append_set_cookie raw existing =
     (case existing of
        None \<Rightarrow> Some raw
      | Some e \<Rightarrow> if e = [] then Some raw else Some (e @ set_cookie_joiner @ raw))"

text \<open>\<open>Partitioned\<close> is only valid beside \<open>Secure\<close>.\<close>

definition finish_line :: "bool \<Rightarrow> cookie_attrs \<Rightarrow> string \<Rightarrow> string" where
  "finish_line partitioned a line = (if partitioned \<and> ck_secure a then line @ ''; Partitioned'' else line)"

definition set_cookie ::
  "(string \<Rightarrow> bytes) \<Rightarrow> string \<Rightarrow> string \<Rightarrow> cookie_attrs \<Rightarrow> string option \<Rightarrow> bool \<Rightarrow> string option \<Rightarrow> string option res" where
  "set_cookie enc key v a expires_str partitioned existing =
     res_bind (dump_cookie enc key v a) (\<lambda>line.
       let line1 = (case expires_str of None \<Rightarrow> line | Some e \<Rightarrow> line @ ''; Expires='' @ e)
       in Inr (append_set_cookie (finish_line partitioned a line1) existing))"

definition delete_cookie ::
  "(string \<Rightarrow> bytes) \<Rightarrow> string \<Rightarrow> cookie_attrs \<Rightarrow> bool \<Rightarrow> string option \<Rightarrow> string option res" where
  "delete_cookie enc key a partitioned existing =
     set_cookie enc key [] (a\<lparr>ck_max_age := Some 0, ck_expires := None\<rparr>) None partitioned existing"

text \<open>\<open>s.split(d)\<close> for a separator of several characters.\<close>

function split_str :: "string \<Rightarrow> string \<Rightarrow> string \<Rightarrow> string list" where
  "split_str d buf [] = [buf]"
| "split_str d buf (c # s) =
     (if d \<noteq> [] \<and> starts_with d (c # s) then buf # split_str d [] (drop (length d) (c # s))
      else split_str d (buf @ [c]) s)"
  by pat_completeness auto
termination by (relation "measure (\<lambda>(d, buf, s). length s)") auto

text \<open>The lines \<open>_encode_response_head\<close> sends, one header each.\<close>

definition set_cookie_lines :: "string option \<Rightarrow> string list" where
  "set_cookie_lines h = (case h of None \<Rightarrow> [] | Some v \<Rightarrow> split_str set_cookie_joiner [] v)"

definition response_cookies :: "(bytes \<Rightarrow> string) \<Rightarrow> string option \<Rightarrow> (string, string) dict" where
  "response_cookies dec h =
     (if h = None \<or> h = Some [] then []
      else fold (\<lambda>line d. fold (\<lambda>(k, v). dict_set k v) (iter_cookies dec (hd (split_on (CHR '';'') line))) d)
             (set_cookie_lines h) [])"

section \<open>The client's jar\<close>

fun contains_str :: "string \<Rightarrow> string \<Rightarrow> bool" where
  "contains_str p [] \<longleftrightarrow> p = []"
| "contains_str p (c # s) \<longleftrightarrow> starts_with p (c # s) \<or> contains_str p s"

definition first_pair :: "string \<Rightarrow> (string \<times> string) option" where
  "first_pair line =
     (case partition_on (CHR ''='') (str_strip (hd (split_on (CHR '';'') line))) of
        (name, eq, v) \<Rightarrow> if eq then Some (str_strip name, str_strip v) else None)"

definition is_deletion :: "string \<Rightarrow> bool" where
  "is_deletion line =
     list_ex (\<lambda>seg. contains_str ''max-age=0'' (str_lower (str_strip seg))) (tl (split_on (CHR '';'') line))"

definition jar_apply :: "string \<Rightarrow> (string, string) dict \<Rightarrow> (string, string) dict" where
  "jar_apply line jar =
     (case first_pair line of
        None \<Rightarrow> jar
      | Some (name, v) \<Rightarrow> if is_deletion line then dict_del name jar else dict_set name v jar)"

definition jar_update :: "string list \<Rightarrow> (string, string) dict \<Rightarrow> (string, string) dict" where
  "jar_update lines jar = fold jar_apply lines jar"

definition jar_header :: "(string, string) dict \<Rightarrow> string list" where
  "jar_header jar = (if jar = [] then [] else [join_str ''; '' (map (\<lambda>(k, v). k @ ''='' @ v) jar)])"

section \<open>What is quoted is read back\<close>

definition text_codec :: "(string \<Rightarrow> bytes) \<Rightarrow> (bytes \<Rightarrow> string) \<Rightarrow> bool" where
  "text_codec enc dec \<longleftrightarrow>
     (\<forall>s. dec (enc s) = s) \<and> (\<forall>s. list_all is_ascii s \<longrightarrow> enc s = map of_char s)"

lemma hex_digit: "n < 16 \<Longrightarrow> is_hex (hex_digit n) \<and> hex_val (hex_digit n) = n"
  by (auto simp: hex_digit_def is_hex_def hex_val_def is_decimal_def)

lemma hex_digit_safe: "n < 16 \<Longrightarrow> always_safe (hex_digit n)"
  by (auto simp: hex_digit_def always_safe_def is_decimal_def)

text \<open>The characters of a quoted value.\<close>

definition plain_char :: "char \<Rightarrow> bool" where
  "plain_char c \<longleftrightarrow> 33 \<le> code c \<and> code c < 127 \<and> c \<noteq> CHR '';'' \<and> c \<noteq> CHR '','' \<and> c \<noteq> dquote"

lemma always_safe_plain: "always_safe c \<Longrightarrow> plain_char c"
  by (auto simp: always_safe_def plain_char_def is_decimal_def)

lemma cookie_safe_plain: "cookie_safe c \<Longrightarrow> plain_char c \<and> c \<noteq> CHR ''%''"
  using always_safe_plain [of c] by (auto simp: cookie_safe_def always_safe_def plain_char_def is_decimal_def)

lemma quote_byte_plain: "c \<in> set (quote_byte b) \<Longrightarrow> plain_char c"
proof -
  have "unat b div 16 < 16" "unat b mod 16 < 16" using unat_byte [of b] by simp_all
  moreover have "plain_char (CHR ''%'')" by (simp add: plain_char_def)
  ultimately show "c \<in> set (quote_byte b) \<Longrightarrow> plain_char c"
    by (auto simp: quote_byte_def cookie_safe_plain always_safe_plain hex_digit_safe split: if_splits)
qed

lemma quote_plain: "list_all plain_char (quote enc v)"
  using quote_byte_plain by (auto simp: quote_def list_all_iff)

lemma unquote_step: "c \<noteq> CHR ''%'' \<Longrightarrow> unquote_bytes (c # s) = of_char c # unquote_bytes s"
  by (cases s rule: remdups_adj.cases) auto

lemma unquote_quote_byte: "unquote_bytes (quote_byte b @ s) = b # unquote_bytes s"
proof (cases "unat b < 128 \<and> cookie_safe (char_of (unat b))")
  case True
  then have "code (char_of (unat b)) = unat b" by simp
  then have "(of_char (char_of (unat b) :: char) :: byte) = b" by (metis of_nat_of_char of_nat_unat ucast_id)
  with True show ?thesis by (simp add: quote_byte_def unquote_step cookie_safe_plain)
next
  case False
  have d: "unat b div 16 < 16" "unat b mod 16 < 16" using unat_byte [of b] by simp_all
  have "16 * (unat b div 16) + unat b mod 16 = unat b" by simp
  with False hex_digit [OF d(1)] hex_digit [OF d(2)] show ?thesis
    by (auto simp: quote_byte_def simp del: of_nat_add of_nat_mult)
qed

lemma unquote_quote_bytes: "unquote_bytes (concat (map quote_byte bs)) = bs"
  by (induction bs) (simp_all add: unquote_quote_byte)

lemma plain_ascii: "plain_char c \<Longrightarrow> is_ascii c"
  by (simp add: plain_char_def is_ascii_def)

lemma plain_not_space: "plain_char c \<Longrightarrow> \<not> is_space c"
  by (simp add: plain_char_def is_space_def)

lemma unquote_runs_ascii:
  assumes "list_all is_ascii s" "s \<noteq> []" shows "unquote_runs dec s = dec (unquote_bytes s)"
proof -
  obtain c r where s: "s = c # r" using assms(2) by (cases s) auto
  with assms(1) have all: "\<forall>x \<in> set r. is_ascii x" by (simp add: list_all_iff)
  then have run: "takeWhile is_ascii r = r" "dropWhile is_ascii r = []"
    by (simp_all only: takeWhile_eq_all_conv dropWhile_eq_Nil_conv)
  from s assms(1) show ?thesis by (simp add: run)
qed

lemma quote_unescaped: "CHR ''%'' \<notin> set (quote enc v) \<Longrightarrow> map of_char (quote enc v) = enc v"
proof -
  have "map of_char (concat (map quote_byte bs)) = bs" if "CHR ''%'' \<notin> set (concat (map quote_byte bs))" for bs
    using that
  proof (induction bs)
    case (Cons b bs)
    then have b: "unat b < 128 \<and> cookie_safe (char_of (unat b))" by (auto simp: quote_byte_def split: if_splits)
    then have "code (char_of (unat b)) = unat b" by simp
    then have "(of_char (char_of (unat b) :: char) :: byte) = b" by (metis of_nat_of_char of_nat_unat ucast_id)
    with b Cons show ?case by (simp add: quote_byte_def)
  qed simp
  then show "CHR ''%'' \<notin> set (quote enc v) \<Longrightarrow> map of_char (quote enc v) = enc v" by (simp add: quote_def)
qed

lemma list_all_imp: "list_all P s \<Longrightarrow> (\<And>c. P c \<Longrightarrow> Q c) \<Longrightarrow> list_all Q s"
  by (simp add: list_all_iff)

lemma quote_strip: "str_strip (quote enc v) = quote enc v"
  by (intro strip_no_space list_all_imp [OF quote_plain plain_not_space])

lemma quote_no_quote: "dquote \<notin> set (quote enc v)" "CHR '';'' \<notin> set (quote enc v)" "CHR 0x0D \<notin> set (quote enc v)"
proof -
  have "\<not> plain_char dquote" "\<not> plain_char (CHR '';'')" "\<not> plain_char (CHR 0x0D)" by (simp_all add: plain_char_def)
  with quote_plain [of enc v] show "dquote \<notin> set (quote enc v)" "CHR '';'' \<notin> set (quote enc v)" "CHR 0x0D \<notin> set (quote enc v)"
    unfolding list_all_iff by blast+
qed

lemma strip_char_absent: "c \<notin> set s \<Longrightarrow> strip_char c s = s"
proof -
  assume "c \<notin> set s"
  then have "s = [] \<or> c \<noteq> hd s" "rev s = [] \<or> c \<noteq> hd (rev s)" using hd_in_set [of s] hd_in_set [of "rev s"] by auto
  then have "dropWhile ((=) c) s = s" "dropWhile ((=) c) (rev s) = rev s" by (simp_all add: dropWhile_eq_self_iff)
  then show ?thesis by (simp add: strip_char_def)
qed

lemma cookie_value_quote:
  assumes "text_codec enc dec" shows "cookie_value dec (quote enc v) = v"
proof -
  have asc: "list_all is_ascii (quote enc v)" by (rule list_all_imp [OF quote_plain plain_ascii])
  have codec: "dec (enc v) = v" "list_all is_ascii q \<Longrightarrow> dec (map of_char q) = q" for q
    using assms unfolding text_codec_def by (simp, metis)
  show ?thesis
  proof (cases "CHR ''%'' \<in> set (quote enc v)")
    case True
    then have "unquote dec (quote enc v) = dec (unquote_bytes (quote enc v))"
      using unquote_runs_ascii [OF asc, of dec] by (cases "quote enc v = []") (simp_all add: unquote_def)
    also have "\<dots> = v" by (simp add: quote_def unquote_quote_bytes codec)
    finally show ?thesis using True
      by (simp add: cookie_value_def Let_def quote_strip unquote_value_def strip_char_absent quote_no_quote)
  next
    case False
    then have "quote enc v = v" using quote_unescaped [OF False] codec(2) [OF asc] codec(1) by simp
    moreover from this have "str_strip v = v" "dquote \<notin> set v" "CHR ''%'' \<notin> set v"
      using quote_strip [of enc v] quote_no_quote [of enc v] False by simp_all
    ultimately show ?thesis by (simp add: cookie_value_def Let_def)
  qed
qed

section \<open>Lines and headers\<close>

lemma split_on_join_str:
  "list_all (\<lambda>w. CHR '';'' \<notin> set w) (w # ws) \<Longrightarrow>
     split_on (CHR '';'') (join_str ''; '' (w # ws)) = w # map ((#) (CHR '' '')) ws"
proof (induction ws arbitrary: w)
  case (Cons v ws)
  then have "split_on (CHR '';'') (w @ CHR '';'' # CHR '' '' # join_str ''; '' (v # ws))
      = w # split_on (CHR '';'') (CHR '' '' # join_str ''; '' (v # ws))"
    by (intro split_on_append_sep) simp
  with Cons show ?case by simp
qed (simp add: split_on_single)

lemma starts_with_append: "starts_with p (p @ s)"
  by (simp add: starts_with_def)

lemma split_str_skip:
  "d = c # d' \<Longrightarrow> c \<notin> set w \<Longrightarrow> split_str d buf (w @ s) = split_str d (buf @ w) s"
  by (induction w arbitrary: buf) (auto simp: starts_with_def)

lemma split_str_join:
  assumes "d = c # d'" "list_all (\<lambda>w. c \<notin> set w) (w # ws)"
  shows "split_str d buf (join_str d (w # ws)) = (buf @ w) # ws"
  using assms(2)
proof (induction ws arbitrary: buf w)
  case Nil
  then show ?case using split_str_skip [OF assms(1), of w buf "[]"] by simp
next
  case (Cons v ws)
  have "split_str d buf (w @ d @ join_str d (v # ws)) = split_str d (buf @ w) (d @ join_str d (v # ws))"
    using Cons.prems by (intro split_str_skip [OF assms(1)]) simp
  also have "\<dots> = (buf @ w) # split_str d [] (join_str d (v # ws))"
    using starts_with_append [of d "join_str d (v # ws)"] assms(1) by simp
  finally show ?case using Cons by simp
qed

text \<open>The header of a response that got several cookies, and the lines it becomes.\<close>

definition joined_lines :: "string list \<Rightarrow> string option" where
  "joined_lines ls = (if ls = [] then None else Some (join_str set_cookie_joiner ls))"

definition line_ok :: "string \<Rightarrow> bool" where
  "line_ok l \<longleftrightarrow> l \<noteq> [] \<and> CHR 0x0D \<notin> set l"

lemma join_str_snoc: "ls \<noteq> [] \<Longrightarrow> join_str d (ls @ [l]) = join_str d ls @ d @ l"
proof (induction ls)
  case (Cons k ls)
  then show ?case by (cases ls) simp_all
qed simp

lemma join_str_nonempty: "list_all line_ok (l # ls) \<Longrightarrow> join_str d (l # ls) \<noteq> []"
  by (cases ls) (simp_all add: line_ok_def)

lemma append_joined:
  assumes "list_all line_ok ls"
  shows "append_set_cookie l (joined_lines ls) = joined_lines (ls @ [l])"
proof (cases ls)
  case (Cons k ks)
  with assms have "join_str set_cookie_joiner ls \<noteq> []" using join_str_nonempty by simp
  moreover have "join_str set_cookie_joiner (ls @ [l]) = join_str set_cookie_joiner ls @ set_cookie_joiner @ l"
    using Cons by (intro join_str_snoc) simp
  ultimately show ?thesis using Cons by (simp add: append_set_cookie_def joined_lines_def del: join_str.simps)
qed (simp add: append_set_cookie_def joined_lines_def)

lemma set_cookie_lines_joined: "list_all line_ok ls \<Longrightarrow> set_cookie_lines (joined_lines ls) = ls"
proof (cases ls)
  case (Cons k ks)
  assume "list_all line_ok ls"
  with Cons have "list_all (\<lambda>w. CHR 0x0D \<notin> set w) (k # ks)" by (auto simp: list_all_iff line_ok_def)
  with Cons split_str_join [of set_cookie_joiner "CHR 0x0D" "CHR 0x0A # ''Set-Cookie: ''" k ks "[]"]
  show ?thesis by (simp add: set_cookie_lines_def joined_lines_def set_cookie_joiner_def)
qed (simp add: set_cookie_lines_def joined_lines_def)

section \<open>What the client makes of a line\<close>

definition token_char :: "char \<Rightarrow> bool" where
  "token_char c \<longleftrightarrow> plain_char c \<and> c \<noteq> CHR ''=''"

lemma token_chars: "cookie_name_token s \<Longrightarrow> list_all token_char s \<and> s \<noteq> []"
proof -
  have "token_char c" if "is_decimal c \<or> (65 \<le> code c \<and> code c \<le> 90) \<or> (97 \<le> code c \<and> code c \<le> 122)
       \<or> c \<in> set (''!#$%&'' @ [CHR 0x27] @ ''*+-.^_`|~'')" for c
    using that by (auto simp: token_char_def plain_char_def is_decimal_def)
  then show "cookie_name_token s \<Longrightarrow> list_all token_char s \<and> s \<noteq> []"
    unfolding cookie_name_token_def using list_all_imp by blast
qed

lemma token_not_space: "token_char c \<Longrightarrow> \<not> is_space c"
  by (simp add: token_char_def plain_not_space)

lemma token_absent:
  assumes "list_all token_char s"
  shows "CHR ''='' \<notin> set s" "CHR '';'' \<notin> set s" "CHR 0x0D \<notin> set s" "str_strip s = s"
proof -
  have "\<not> token_char (CHR ''='')" "\<not> token_char (CHR '';'')" "\<not> token_char (CHR 0x0D)"
    by (simp_all add: token_char_def plain_char_def)
  with assms show "CHR ''='' \<notin> set s" "CHR '';'' \<notin> set s" "CHR 0x0D \<notin> set s" unfolding list_all_iff by blast+
  show "str_strip s = s"
    by (rule strip_no_space, rule list_all_imp [OF assms]) (simp add: token_char_def plain_not_space)
qed

lemma wire_key_token: "wire_key key a = Inr wire \<Longrightarrow> list_all token_char key \<Longrightarrow> list_all token_char wire"
  by (auto simp: wire_key_def token_char_def plain_char_def split: option.splits if_splits)

lemma wire_key_nonempty: "wire_key key a = Inr wire \<Longrightarrow> key \<noteq> [] \<Longrightarrow> wire \<noteq> []"
  by (auto simp: wire_key_def split: option.splits if_splits)

text \<open>The pair, and what comes after it.\<close>

definition pair_line :: "string \<Rightarrow> string \<Rightarrow> string list \<Rightarrow> string" where
  "pair_line wire q ps = join_str ''; '' ((wire @ ''='' @ q) # ps)"

lemma dump_cookie_line:
  assumes "dump_cookie enc key v a = Inr line"
  obtains wire ps where "wire_key key a = Inr wire" "cookie_name_token key" "cookie_parts a = Inr ps"
    "line = pair_line wire (quote enc v) ps" "list_all token_char wire" "wire \<noteq> []"
proof -
  obtain wire ps where *: "wire_key key a = Inr wire" "cookie_name_token key" "cookie_parts a = Inr ps"
    "line = pair_line wire (quote enc v) ps"
    using assms by (auto simp: dump_cookie_def pair_line_def res_bind_Inr_iff split: if_splits)
  with token_chars [OF *(2)] wire_key_token [OF *(1)] wire_key_nonempty [OF *(1)] that show thesis by blast
qed

definition semi_free :: "string \<Rightarrow> bool" where
  "semi_free s \<longleftrightarrow> CHR '';'' \<notin> set s \<and> CHR 0x0D \<notin> set s"

lemma split_pair_line:
  assumes "list_all token_char wire" "list_all semi_free ps"
  shows "split_on (CHR '';'') (pair_line wire (quote enc v) ps) = (wire @ ''='' @ quote enc v) # map ((#) (CHR '' '')) ps"
  unfolding pair_line_def
  using assms token_absent(2) [OF assms(1)] quote_no_quote(2) [of enc v]
  by (intro split_on_join_str) (auto simp: semi_free_def list_all_iff)

lemma first_pair_line:
  assumes "list_all token_char wire" "list_all semi_free ps"
  shows "first_pair (pair_line wire (quote enc v) ps) = Some (wire, quote enc v)"
proof -
  have "list_all (\<lambda>c. \<not> is_space c) (wire @ ''='' @ quote enc v)"
    using list_all_imp [OF quote_plain [of enc v] plain_not_space]
      list_all_imp [OF assms(1), of "\<lambda>c. \<not> is_space c", OF token_not_space]
    by (simp add: is_space_def)
  from strip_no_space [OF this] partition_on_sep [OF token_absent(1) [OF assms(1)], of "quote enc v"]
  show ?thesis
    by (simp add: first_pair_def split_pair_line [OF assms] token_absent(4) [OF assms(1)] quote_strip)
qed

definition deleting :: "string \<Rightarrow> bool" where
  "deleting p \<longleftrightarrow> contains_str ''max-age=0'' (str_lower (str_strip p))"

lemma jar_apply_line:
  assumes "list_all token_char wire" "list_all semi_free ps"
  shows "jar_apply (pair_line wire (quote enc v) ps) jar
    = (if list_ex deleting ps then dict_del wire jar else dict_set wire (quote enc v) jar)"
  by (simp add: jar_apply_def first_pair_line [OF assms] is_deletion_def split_pair_line [OF assms] list_ex_iff
      deleting_def strip_leading_space)

lemma contains_str_iff: "contains_str p s \<longleftrightarrow> (\<exists>a b. s = a @ p @ b)"
proof (induction s)
  case (Cons c s)
  have "starts_with p (c # s) \<longleftrightarrow> (\<exists>b. c # s = p @ b)"
    by (metis append_eq_conv_conj append_take_drop_id starts_with_def)
  moreover have "(\<exists>a b. c # s = a @ p @ b) \<longleftrightarrow> (\<exists>b. c # s = p @ b) \<or> (\<exists>a b. s = a @ p @ b)"
  proof
    assume "\<exists>a b. c # s = a @ p @ b"
    then obtain a b where "c # s = a @ p @ b" by blast
    then show "(\<exists>b. c # s = p @ b) \<or> (\<exists>a b. s = a @ p @ b)" by (cases a) auto
  next
    assume "(\<exists>b. c # s = p @ b) \<or> (\<exists>a b. s = a @ p @ b)"
    then show "\<exists>a b. c # s = a @ p @ b"
    proof
      assume "\<exists>b. c # s = p @ b"
      then show ?thesis by (metis append_Nil)
    next
      assume "\<exists>a b. s = a @ p @ b"
      then show ?thesis by (metis append_Cons)
    qed
  qed
  ultimately show ?case using Cons by simp
qed simp

lemma str_strip_infix: "\<exists>a b. s = a @ str_strip s @ b"
proof -
  obtain z where "str_lstrip s = str_strip s @ z" using str_rstrip_prefix [of "str_lstrip s"] by (auto simp: str_strip_def)
  moreover have "s = takeWhile is_space s @ str_lstrip s" by (simp add: str_lstrip_def)
  ultimately show ?thesis by metis
qed

lemma deleting_lower: "deleting p \<Longrightarrow> \<exists>a b. str_lower p = a @ ''max-age'' @ CHR ''='' # CHR ''0'' # b"
proof -
  assume "deleting p"
  then obtain x y where "str_lower (str_strip p) = x @ ''max-age=0'' @ y" by (auto simp: deleting_def contains_str_iff)
  moreover obtain a b where "p = a @ str_strip p @ b" using str_strip_infix by blast
  ultimately have "str_lower p = str_lower a @ (x @ ''max-age=0'' @ y) @ str_lower b" by (metis str_lower_def map_append)
  then have "str_lower p = (str_lower a @ x) @ ''max-age'' @ CHR ''='' # CHR ''0'' # (y @ str_lower b)" by simp
  then show ?thesis by blast
qed

lemma lower_eq_char: "lower_char c = CHR ''='' \<longleftrightarrow> c = CHR ''=''"
proof -
  have "code (lower_char c) = 61 \<longleftrightarrow> code c = 61" by (auto simp: code_lower_char is_upper_char_def)
  then have "code (lower_char c) = code (CHR ''='') \<longleftrightarrow> code c = code (CHR ''='')" by simp
  then show ?thesis by (simp only: of_char_eq_iff)
qed

lemma lower_no_eq: "CHR ''='' \<notin> set s \<Longrightarrow> CHR ''='' \<notin> set (str_lower s)"
proof
  assume a: "CHR ''='' \<notin> set s" "CHR ''='' \<in> set (str_lower s)"
  then obtain c where "c \<in> set s" "lower_char c = CHR ''=''" unfolding str_lower_def by force
  with lower_eq_char [of c] a(1) show False by blast
qed

text \<open>A part is a deletion only as \<open>Max-Age=0\<close>, when its text has no second equals sign.\<close>

lemma deleting_label:
  assumes "deleting (label @ CHR ''='' # t)" "CHR ''='' \<notin> set label" "CHR ''='' \<notin> set t"
  shows "\<exists>a b. str_lower label = a @ ''max-age'' \<and> str_lower t = CHR ''0'' # b"
proof -
  obtain a b where "str_lower label @ CHR ''='' # str_lower t = a @ ''max-age'' @ CHR ''='' # CHR ''0'' # b"
    using deleting_lower [OF assms(1)] lower_eq_char [of "CHR ''=''"]
    by (metis (no_types) list.simps(9) map_append str_lower_def)
  then have e: "str_lower label @ CHR ''='' # str_lower t = (a @ ''max-age'') @ CHR ''='' # CHR ''0'' # b" by simp
  with lower_no_eq [OF assms(2)] lower_no_eq [OF assms(3)] have "str_lower label = a @ ''max-age'' \<and> str_lower t = CHR ''0'' # b"
    by (rule_tac append_Cons_eq_iff [THEN iffD1]) auto
  then show ?thesis by blast
qed

lemma not_deleting_flag: "CHR ''='' \<notin> set p \<Longrightarrow> \<not> deleting p"
proof
  assume "CHR ''='' \<notin> set p" "deleting p"
  with deleting_lower obtain a b where "str_lower p = a @ ''max-age'' @ CHR ''='' # CHR ''0'' # b" by blast
  then have "CHR ''='' \<in> set (str_lower p)" by simp
  with lower_no_eq \<open>CHR ''='' \<notin> set p\<close> show False by blast
qed

lemma str_nat_leading_zero: "str_nat n = CHR ''0'' # b \<Longrightarrow> n = 0"
proof (induction n arbitrary: b rule: str_nat.induct)
  case (1 n)
  show ?case
  proof (cases "n < 10")
    case True
    with "1.prems" have "char_of (48 + n) = CHR ''0''" by (simp add: str_nat.simps [of n])
    then have "code (char_of (48 + n)) = 48" by simp
    with True show ?thesis by simp
  next
    case False
    obtain c r where c: "str_nat (n div 10) = c # r" using str_nat_nonempty [of "n div 10"] by (cases "str_nat (n div 10)") auto
    with "1.prems" False have "c = CHR ''0''" by (simp add: str_nat.simps [of n])
    with "1.IH" [OF False] c have "n div 10 = 0" by simp
    with False show ?thesis by simp
  qed
qed

lemma str_int_leading_zero: "str_int i = CHR ''0'' # b \<Longrightarrow> i = 0"
  using str_nat_leading_zero [of "nat i" b] by (auto simp: str_int_def split: if_splits)

definition int_char :: "char \<Rightarrow> bool" where
  "int_char c \<longleftrightarrow> is_decimal c \<or> c = CHR ''-''"

lemma str_int_chars: "list_all int_char (str_int i)"
  using str_nat_decimal by (auto simp: str_int_def int_char_def list_all_iff)

lemma int_char_facts: "int_char c \<Longrightarrow> token_char c \<and> lower_char c = c"
  by (auto simp: int_char_def token_char_def plain_char_def is_decimal_def lower_char_def is_upper_char_def)

lemma str_int_lower: "str_lower (str_int i) = str_int i"
  using str_int_chars [of i] int_char_facts by (simp add: str_lower_def list_all_iff map_idI)

lemma token_no_eq: "list_all token_char s \<Longrightarrow> CHR ''='' \<notin> set s"
  by (rule token_absent)

lemma zero_char: "char_of (48 :: nat) = CHR ''0''"
proof -
  have "code (CHR ''0'') = 48" by simp
  then show ?thesis by (metis char_of_char)
qed

lemma deleting_max_age: "deleting (''Max-Age='' @ str_int i) \<longleftrightarrow> i = 0"
proof
  assume "deleting (''Max-Age='' @ str_int i)"
  moreover have "CHR ''='' \<notin> set (str_int i)"
    using list_all_imp [OF str_int_chars [of i], of token_char] int_char_facts by (intro token_no_eq) blast
  ultimately obtain b where "str_lower (str_int i) = CHR ''0'' # b"
    using deleting_label [of "''Max-Age''" "str_int i"] by auto
  then show "i = 0" using str_int_leading_zero by (simp add: str_int_lower)
next
  assume "i = 0"
  then have "''Max-Age='' @ str_int i = ''Max-Age=0''" by (simp add: str_int_def str_nat.simps zero_char)
  moreover have "deleting ''Max-Age=0''" by code_simp
  ultimately show "deleting (''Max-Age='' @ str_int i)" by simp
qed

text \<open>Attributes whose texts cannot be read as other attributes.\<close>

definition plain_text :: "string option \<Rightarrow> bool" where
  "plain_text v = (case v of None \<Rightarrow> True | Some t \<Rightarrow> CHR '';'' \<notin> set t \<and> CHR ''='' \<notin> set t)"

definition plain_attrs :: "cookie_attrs \<Rightarrow> bool" where
  "plain_attrs a \<longleftrightarrow> ck_expires a = None \<and> plain_text (ck_path a) \<and> plain_text (ck_domain a)"

lemma text_part_facts:
  assumes "text_part label v = Inr ps" "plain_text v" "label \<in> {''Path'', ''Domain''}"
  shows "list_all semi_free ps \<and> \<not> list_ex deleting ps"
proof -
  have "\<not> deleting (label @ CHR ''='' # t)" if "CHR ''='' \<notin> set t" for t
  proof
    assume d: "deleting (label @ CHR ''='' # t)"
    have "CHR ''='' \<notin> set label" using assms(3) by auto
    from deleting_label [OF d this that] obtain a where "str_lower label = a @ ''max-age''" by blast
    then have "length (str_lower label) = length a + 7" by simp
    with assms(3) show False by (auto simp: str_lower_def)
  qed
  note not_deleting = this
  show ?thesis
  proof (cases "v = None \<or> v = Some []")
    case True
    with assms(1) show ?thesis by (auto simp: text_part_def)
  next
    case False
    then obtain t where t: "v = Some t" "t \<noteq> []" by (cases v) auto
    with assms(1) have ps: "ps = [label @ CHR ''='' # t]" "\<not> header_value_has_crlf t"
      by (simp_all add: text_part_def reject_header_crlf_def split: if_splits)
    have "CHR 0x0D \<notin> set t" using ps(2) by (auto simp: header_value_has_crlf_def list_ex_iff)
    moreover have "semi_free label" using assms(3) by (auto simp: semi_free_def)
    ultimately show ?thesis using assms(2) t(1) not_deleting by (simp add: ps(1) semi_free_def plain_text_def)
  qed
qed

lemma samesite_part_facts:
  assumes "samesite_part v = Inr ps" shows "list_all semi_free ps \<and> \<not> list_ex deleting ps"
proof -
  have "\<not> deleting (''SameSite='' @ n)" if "n \<in> set samesite_words" for n
  proof
    assume "deleting (''SameSite='' @ n)"
    then have d: "deleting (''SameSite'' @ CHR ''='' # n)" by simp
    have "CHR ''='' \<notin> set ''SameSite''" "CHR ''='' \<notin> set n" using that by (auto simp: samesite_words_def)
    from deleting_label [OF d this] obtain a where "str_lower ''SameSite'' = a @ ''max-age''" by blast
    moreover have "str_lower ''SameSite'' = ''s'' @ ''amesite''" by code_simp
    ultimately have "''s'' @ ''amesite'' = a @ ''max-age''" by simp
    moreover from this have "length a = 1" by (drule_tac arg_cong [of _ _ length]) simp
    then obtain x where "a = [x]" by (auto simp: length_Suc_conv)
    ultimately have "''amesite'' = ''max-age''" by simp
    then show False by simp
  qed
  moreover have "semi_free (''SameSite='' @ n)" if "n \<in> set samesite_words" for n
    using that by (auto simp: samesite_words_def semi_free_def)
  moreover have "ps = [] \<or> (\<exists>n \<in> set samesite_words. ps = [''SameSite='' @ n])"
    using assms by (auto simp: samesite_part_def res_bind_Inr_iff Let_def split: option.splits if_splits)
  ultimately show ?thesis by auto
qed

lemma cookie_parts_facts:
  assumes "cookie_parts a = Inr ps" "plain_attrs a"
  shows "list_all semi_free ps" "list_ex deleting ps \<longleftrightarrow> ck_max_age a = Some 0"
proof -
  obtain p d ss where parts: "text_part ''Path'' (ck_path a) = Inr p" "text_part ''Domain'' (ck_domain a) = Inr d"
    "samesite_part (ck_samesite a) = Inr ss"
    "ps = (case ck_max_age a of None \<Rightarrow> [] | Some n \<Rightarrow> [''Max-Age='' @ str_int n]) @ p @ d
         @ (if ck_secure a then [''Secure''] else []) @ (if ck_httponly a then [''HttpOnly''] else []) @ ss"
    using assms by (auto simp: cookie_parts_def res_bind_Inr_iff plain_attrs_def)
  note facts = text_part_facts [OF parts(1)] text_part_facts [OF parts(2)] samesite_part_facts [OF parts(3)]
  have flags: "\<not> deleting ''Secure''" "\<not> deleting ''HttpOnly''" by (rule not_deleting_flag, simp)+
  have "semi_free (''Max-Age='' @ str_int n)" for n
    using token_absent [of "str_int n"] list_all_imp [OF str_int_chars [of n], of token_char] int_char_facts
    by (simp add: semi_free_def)
  with facts assms(2) show "list_all semi_free ps"
    by (simp add: parts(4) plain_attrs_def semi_free_def split: option.split)
  show "list_ex deleting ps \<longleftrightarrow> ck_max_age a = Some 0"
    using facts assms(2) flags by (simp add: parts(4) plain_attrs_def deleting_max_age [simplified] split: option.split)
qed

section \<open>Jars\<close>

text \<open>A jar the client can send without ambiguity: names are tokens and values have no semicolon.\<close>

definition jar_ok :: "(string, string) dict \<Rightarrow> bool" where
  "jar_ok jar \<longleftrightarrow> dict_ok jar \<and>
     list_all (\<lambda>(k, v). k \<noteq> [] \<and> list_all token_char k \<and> CHR '';'' \<notin> set v) jar"

lemma jar_ok_set:
  assumes "jar_ok jar" "k \<noteq> []" "list_all token_char k" "CHR '';'' \<notin> set v"
  shows "jar_ok (dict_set k v jar)"
  unfolding jar_ok_def list_all_iff
proof (intro conjI ballI)
  show "dict_ok (dict_set k v jar)" using assms(1) by (auto simp: jar_ok_def)
  fix p assume "p \<in> set (dict_set k v jar)"
  then have "p = (k, v) \<or> p \<in> set jar" using set_dict_set by fastforce
  then show "case p of (k, v) \<Rightarrow> k \<noteq> [] \<and> (\<forall>c \<in> set k. token_char c) \<and> CHR '';'' \<notin> set v"
    using assms by (auto simp: jar_ok_def list_all_iff)
qed

lemma jar_ok_del: "jar_ok jar \<Longrightarrow> jar_ok (dict_del k jar)"
  by (auto simp: jar_ok_def list_all_iff AList.delete_eq)

definition sent_pair :: "string \<times> string \<Rightarrow> string" where
  "sent_pair p = fst p @ ''='' @ snd p"

lemma cookie_chunks_jar:
  assumes "list_all2 (\<lambda>c p. c = sent_pair p \<or> c = CHR '' '' # sent_pair p) chunks jar"
    and "list_all (\<lambda>(k, v). list_all token_char k) jar" "distinct (map fst jar)" "set seen \<inter> fst ` set jar = {}"
  shows "cookie_chunks dec seen chunks = map (\<lambda>(k, v). (k, cookie_value dec v)) jar"
  using assms
proof (induction arbitrary: seen rule: list_all2_induct)
  case (Cons c chunks p jar)
  obtain k v where p: "p = (k, v)" by (cases p)
  with Cons.prems have k: "list_all token_char k" by simp
  have "partition_on (CHR ''='') (k @ CHR ''='' # v) = (k, True, v)"
    "partition_on (CHR ''='') ((CHR '' '' # k) @ CHR ''='' # v) = (CHR '' '' # k, True, v)"
    using token_absent(1) [OF k] by (intro partition_on_sep, simp)+
  then have "(\<exists>n. partition_on (CHR ''='') c = (n, True, v) \<and> str_strip n = k)"
    using Cons.hyps(1) token_absent(4) [OF k] by (auto simp: p sent_pair_def strip_leading_space)
  then obtain n where n: "partition_on (CHR ''='') c = (n, True, v)" "str_strip n = k" by blast
  moreover have "k \<notin> set seen" "set (k # seen) \<inter> fst ` set jar = {}" using Cons.prems p by auto
  ultimately show ?case using Cons.IH [of "k # seen"] Cons.prems by (simp add: p)
qed simp

lemma request_cookies_jar:
  assumes "jar_ok jar"
  shows "request_cookies dec (jar_header jar) = map (\<lambda>(k, v). (k, cookie_value dec v)) jar"
proof (cases jar)
  case Nil
  then show ?thesis by (simp add: request_cookies_def jar_header_def iter_cookies_def)
next
  case (Cons p ps)
  have semi: "list_all (\<lambda>w. CHR '';'' \<notin> set w) (sent_pair p # map sent_pair ps)"
    using assms token_absent(2) Cons by (auto simp: jar_ok_def list_all_iff sent_pair_def split: prod.splits)
  have pairs: "map (\<lambda>(k, v). k @ ''='' @ v) jar = map sent_pair jar" by (simp add: sent_pair_def case_prod_unfold)
  have header: "jar_header jar = [join_str ''; '' (sent_pair p # map sent_pair ps)]"
    unfolding jar_header_def pairs using Cons by simp
  have "sent_pair p \<noteq> []" by (simp add: sent_pair_def)
  then have nonempty: "join_str ''; '' (sent_pair p # map sent_pair ps) \<noteq> []" by (cases ps) simp_all
  then have "request_cookies dec (jar_header jar) = cookie_chunks dec [] (sent_pair p # map ((#) (CHR '' '')) (map sent_pair ps))"
    unfolding request_cookies_def header join_str.simps(2) iter_cookies_def split_on_join_str [OF semi] by simp
  also have "\<dots> = map (\<lambda>(k, v). (k, cookie_value dec v)) jar"
    using assms Cons by (intro cookie_chunks_jar) (auto simp: jar_ok_def dict_ok_def list_all_iff list_all2_map1 list_all2_same)
  finally show ?thesis .
qed

text \<open>What the server reads of one cookie from the jar of the client.\<close>

lemma request_cookie:
  "jar_ok jar \<Longrightarrow> map_of (request_cookies dec (jar_header jar)) k = map_option (cookie_value dec) (map_of jar k)"
  by (simp add: request_cookies_jar map_of_map)

section \<open>The effect of a line\<close>

text \<open>A line that sets the value of a name, or drops the name, in every jar.\<close>

definition cookie_line :: "string \<Rightarrow> string \<times> string option \<Rightarrow> bool" where
  "cookie_line l e \<longleftrightarrow> line_ok l \<and> fst e \<noteq> [] \<and> list_all token_char (fst e)
     \<and> (\<forall>q. snd e = Some q \<longrightarrow> CHR '';'' \<notin> set q)
     \<and> (\<forall>jar. jar_apply l jar = (case snd e of None \<Rightarrow> dict_del (fst e) jar | Some q \<Rightarrow> dict_set (fst e) q jar))"

lemma finish_pair_line:
  "finish_line part a (pair_line wire q ps) = pair_line wire q (ps @ (if part \<and> ck_secure a then [''Partitioned''] else []))"
  using join_str_snoc [of "(wire @ ''='' @ q) # ps" "''; ''" "''Partitioned''"]
  by (simp add: finish_line_def pair_line_def del: join_str.simps)

lemma CR_join_str:
  "CHR 0x0D \<notin> set d \<Longrightarrow> list_all (\<lambda>w. CHR 0x0D \<notin> set w) ws \<Longrightarrow> CHR 0x0D \<notin> set (join_str d ws)"
  by (induction d ws rule: join_str.induct) simp_all

lemma pair_line_ok:
  assumes "list_all token_char wire" "list_all semi_free ps"
  shows "line_ok (pair_line wire (quote enc v) ps)"
proof -
  have "CHR 0x0D \<notin> set (pair_line wire (quote enc v) ps)"
    unfolding pair_line_def using assms token_absent(3) [OF assms(1)] quote_no_quote(3) [of enc v]
    by (intro CR_join_str) (auto simp: semi_free_def list_all_iff)
  moreover have "pair_line wire (quote enc v) ps \<noteq> []" by (cases ps) (simp_all add: pair_line_def)
  ultimately show ?thesis by (simp add: line_ok_def)
qed

lemma dumped_line:
  assumes "dump_cookie enc key v a = Inr line" "plain_attrs a"
  obtains wire where "wire_key key a = Inr wire"
    "cookie_line (finish_line part a line) (wire, if ck_max_age a = Some 0 then None else Some (quote enc v))"
proof -
  obtain wire ps where d: "wire_key key a = Inr wire" "cookie_parts a = Inr ps"
    "line = pair_line wire (quote enc v) ps" "list_all token_char wire" "wire \<noteq> []"
    using dump_cookie_line [OF assms(1)] .
  let ?ps = "ps @ (if part \<and> ck_secure a then [''Partitioned''] else [])"
  note facts = cookie_parts_facts [OF d(2) assms(2)]
  have ps: "list_all semi_free ?ps" using facts(1) by (simp add: semi_free_def)
  have "\<not> deleting ''Partitioned''" by (rule not_deleting_flag) simp
  then have "list_ex deleting ?ps \<longleftrightarrow> ck_max_age a = Some 0" using facts(2) by simp
  then have "cookie_line (finish_line part a line) (wire, if ck_max_age a = Some 0 then None else Some (quote enc v))"
    using pair_line_ok [OF d(4) ps, of enc v] jar_apply_line [OF d(4) ps, of enc v] quote_no_quote(2) [of enc v] d(4,5)
    by (simp add: cookie_line_def d(3) finish_pair_line)
  with d(1) that show thesis by blast
qed

text \<open>The lines of a response and their effects, built up by its operations.\<close>

definition cookie_lines :: "string option \<Rightarrow> (string \<times> string option) list \<Rightarrow> bool" where
  "cookie_lines h es \<longleftrightarrow> (\<exists>ls. h = joined_lines ls \<and> list_all2 cookie_line ls es)"

lemma cookie_lines_None [simp]: "cookie_lines None []"
  by (simp add: cookie_lines_def joined_lines_def exI [of _ "[]"])

lemma list_all2_lines: "list_all2 cookie_line ls es \<Longrightarrow> list_all line_ok ls"
  by (induction rule: list_all2_induct) (simp_all add: cookie_line_def)

lemma cookie_lines_append:
  "cookie_lines h es \<Longrightarrow> cookie_line l e \<Longrightarrow> cookie_lines (append_set_cookie l h) (es @ [e])"
proof -
  assume "cookie_lines h es" "cookie_line l e"
  then obtain ls where ls: "h = joined_lines ls" "list_all2 cookie_line ls es" by (auto simp: cookie_lines_def)
  from append_joined [OF list_all2_lines [OF ls(2)]] ls(1) have "append_set_cookie l h = joined_lines (ls @ [l])" by simp
  moreover have "list_all2 cookie_line (ls @ [l]) (es @ [e])"
    using ls(2) \<open>cookie_line l e\<close> by (simp add: list_all2_appendI)
  ultimately show ?thesis by (auto simp: cookie_lines_def)
qed

lemma set_cookie_effect:
  assumes "set_cookie enc key v a None part h = Inr h'" "plain_attrs a" "cookie_lines h es"
  obtains wire where "wire_key key a = Inr wire"
    "cookie_lines h' (es @ [(wire, if ck_max_age a = Some 0 then None else Some (quote enc v))])"
proof -
  obtain line where l: "dump_cookie enc key v a = Inr line" "h' = append_set_cookie (finish_line part a line) h"
    using assms(1) by (auto simp: set_cookie_def res_bind_Inr_iff)
  obtain wire where "wire_key key a = Inr wire"
    "cookie_line (finish_line part a line) (wire, if ck_max_age a = Some 0 then None else Some (quote enc v))"
    using dumped_line [OF l(1) assms(2)] .
  with cookie_lines_append [OF assms(3)] l(2) that show thesis by blast
qed

lemma wire_key_lifetime: "wire_key key (a\<lparr>ck_max_age := m, ck_expires := x\<rparr>) = wire_key key a"
  by (cases a) (simp only: wire_key_def cookie_attrs.simps)

lemma delete_cookie_effect:
  assumes "delete_cookie enc key a part h = Inr h'" "plain_attrs a" "cookie_lines h es" "wire_key key a = Inr wire"
  shows "cookie_lines h' (es @ [(wire, None)])"
proof -
  let ?a = "a\<lparr>ck_max_age := Some 0, ck_expires := None\<rparr>"
  have "plain_attrs ?a" "wire_key key ?a = Inr wire" using assms(2,4) wire_key_lifetime by (simp_all add: plain_attrs_def)
  with set_cookie_effect [of enc key "[]" ?a part h h' es] assms(1,3) show ?thesis
    by (auto simp: delete_cookie_def)
qed

text \<open>The jar after a response.\<close>

lemma jar_update_effects:
  assumes "list_all2 cookie_line ls es" "jar_ok jar"
  shows "jar_ok (jar_update ls jar) \<and> map_of (jar_update ls jar) = fold (\<lambda>(w, e) m. m(w := e)) es (map_of jar)"
  using assms
proof (induction arbitrary: jar rule: list_all2_induct)
  case Nil
  then show ?case by (simp add: jar_update_def)
next
  case (Cons l ls e es)
  obtain w q where e: "e = (w, q)" by (cases e)
  from Cons.hyps have a: "jar_apply l jar = (case q of None \<Rightarrow> dict_del w jar | Some q \<Rightarrow> dict_set w q jar)"
    and w: "w \<noteq> []" "list_all token_char w" "\<forall>v. q = Some v \<longrightarrow> CHR '';'' \<notin> set v"
    by (cases q; simp add: cookie_line_def e)+
  have "map_of (jar_apply l jar) = (map_of jar)(w := q)"
    by (cases q) (simp_all add: a delete_conv' update_conv')
  moreover have "jar_ok (jar_apply l jar)"
    using Cons.prems w by (cases q) (auto simp: a intro: jar_ok_set jar_ok_del)
  ultimately show ?case using Cons.IH by (simp add: jar_update_def e)
qed

lemma jar_after:
  assumes "cookie_lines h es" "jar_ok jar"
  shows "jar_ok (jar_update (set_cookie_lines h) jar)"
    "map_of (jar_update (set_cookie_lines h) jar) = fold (\<lambda>(w, e) m. m(w := e)) es (map_of jar)"
proof -
  obtain ls where ls: "h = joined_lines ls" "list_all2 cookie_line ls es" using assms(1) by (auto simp: cookie_lines_def)
  then have "set_cookie_lines h = ls" using list_all2_lines by (simp add: set_cookie_lines_joined)
  with jar_update_effects [OF ls(2) assms(2)] show "jar_ok (jar_update (set_cookie_lines h) jar)"
    "map_of (jar_update (set_cookie_lines h) jar) = fold (\<lambda>(w, e) m. m(w := e)) es (map_of jar)" by simp_all
qed

section \<open>UTF-8 on Latin-1 text\<close>

text \<open>The codec that the code uses, on the strings there are here; a byte that is not part of such a
  text is replaced.\<close>

definition utf8_char :: "char \<Rightarrow> bytes" where
  "utf8_char c = (if is_ascii c then [of_char c] else [of_nat (192 + code c div 64), of_nat (128 + code c mod 64)])"

definition utf8_enc :: "string \<Rightarrow> bytes" where
  "utf8_enc s = concat (map utf8_char s)"

fun utf8_dec :: "bytes \<Rightarrow> string" where
  "utf8_dec [] = []"
| "utf8_dec [b] = (if unat b < 128 then [char_of (unat b)] else [CHR ''?''])"
| "utf8_dec (b # c # bs) =
     (if unat b < 128 then char_of (unat b) # utf8_dec (c # bs)
      else if unat b \<in> {194, 195} \<and> unat c div 64 = 2
        then char_of (unat b mod 4 * 64 + unat c mod 64) # utf8_dec bs
      else CHR ''?'' # utf8_dec (c # bs))"

lemma utf8_dec_ascii: "unat b < 128 \<Longrightarrow> utf8_dec (b # bs) = char_of (unat b) # utf8_dec bs"
  by (cases bs) simp_all

lemma two_bytes:
  fixes n :: nat
  assumes "128 \<le> n" "n < 256"
  shows "192 + n div 64 \<in> {194, 195}" "(192 + n div 64) mod 4 * 64 + (128 + n mod 64) mod 64 = n"
    "(128 + n mod 64) div 64 = 2"
proof -
  define q r where qr: "q = n div 64" "r = n mod 64"
  then have n: "n = q * 64 + r" and r: "r < 64" by simp_all
  with assms have q: "q = 2 \<or> q = 3" by linarith
  have "(r + 2 * 64) mod 64 = r" "(r + 2 * 64) div 64 = 2" using r
    by (simp_all only: mod_mult_self1 div_mult_self1 mod_less div_less)
  then have "(128 + r) mod 64 = r" "(128 + r) div 64 = 2" by (simp_all add: add.commute)
  moreover have "(192 + q) mod 4 * 64 = q * 64" using q by auto
  ultimately show "192 + n div 64 \<in> {194, 195}" "(192 + n div 64) mod 4 * 64 + (128 + n mod 64) mod 64 = n"
    "(128 + n mod 64) div 64 = 2" using q n unfolding qr [symmetric] by auto
qed

lemma utf8_dec_char: "utf8_dec (utf8_char c @ bs) = c # utf8_dec bs"
proof (cases "is_ascii c")
  case True
  then have "unat (of_char c :: byte) = code c"
    by (metis is_ascii_def nat_of_char_less_256 of_nat_of_char unat_of_nat_byte)
  with True show ?thesis by (simp add: utf8_char_def utf8_dec_ascii is_ascii_def)
next
  case False
  have lt: "code c < 256" by (rule nat_of_char_less_256)
  from False have ge: "128 \<le> code c" by (simp add: is_ascii_def)
  have b: "unat (of_nat (192 + code c div 64) :: byte) = 192 + code c div 64"
    "unat (of_nat (128 + code c mod 64) :: byte) = 128 + code c mod 64"
    using less_mult_imp_div_less [of "code c" 4 64] lt mod_less_divisor [of 64 "code c"]
    by (rule_tac [!] unat_of_nat_byte) linarith+
  note two_bytes [OF ge lt]
  with b ge show ?thesis using False by (simp add: utf8_char_def del: of_nat_add)
qed

lemma text_codec_utf8: "text_codec utf8_enc utf8_dec"
proof -
  have "utf8_dec (utf8_enc s) = s" for s
    by (induction s) (simp_all add: utf8_enc_def utf8_dec_char)
  moreover have "list_all is_ascii s \<Longrightarrow> utf8_enc s = map of_char s" for s
    by (induction s) (simp_all add: utf8_enc_def utf8_char_def)
  ultimately show ?thesis by (simp add: text_codec_def)
qed

section \<open>Properties\<close>


definition example_attrs :: cookie_attrs where
  "example_attrs = \<lparr>ck_max_age = Some 60, ck_expires = None, ck_path = Some ''/'', ck_domain = None, ck_secure = True,
     ck_httponly = True, ck_samesite = Some ''lax'', ck_prefix = Some ''host''\<rparr>"


end
