(* ===== verification/Cookie_Session.thy ===== *)
theory Cookie_Session
  imports Cookies Signing Server_Session
begin

text \<open>
  The session middleware that keeps the session in a signed cookie, \<open>SessionMiddleware\<close> of
  \<open>src/src/veloce/middleware/sessions.py\<close>: its configuration, the split of a large value over numbered
  cookies, and the two phases of a request. A JSON value is \<open>Inl\<close> an object or \<open>Inr\<close> anything else.
  Log messages are left out.
\<close>

section \<open>Configuration\<close>

text \<open>\<open>_validate_cookie_security\<close>; the warning for a cookie that browsers drop is left out.\<close>

definition validate_cookie_security ::
  "string option \<Rightarrow> bool \<Rightarrow> string option \<Rightarrow> string \<Rightarrow> bool \<Rightarrow> string option \<Rightarrow> unit res" where
  "validate_cookie_security prefix partitioned domain path secure samesite =
     res_bind
       (case prefix of
          None \<Rightarrow> Inr ()
        | Some p \<Rightarrow>
            if p \<noteq> ''host'' \<and> p \<noteq> ''secure'' then Inl ValueError
            else if \<not> secure then Inl ValueError
            else if p = ''host'' \<and> path \<noteq> ''/'' then Inl ValueError
            else if p = ''host'' \<and> domain \<noteq> None then Inl ValueError
            else Inr ())
       (\<lambda>_. if partitioned \<and> (\<not> secure \<or> str_lower (case samesite of None \<Rightarrow> [] | Some s \<Rightarrow> s) \<noteq> ''none'')
            then Inl ValueError else Inr ())"

definition wire_cookie_name :: "string option \<Rightarrow> string \<Rightarrow> string" where
  "wire_cookie_name prefix name =
     (if prefix = Some ''host'' then ''__Host-'' @ name
      else if prefix = Some ''secure'' then ''__Secure-'' @ name else name)"

record cookie_config =
  cc_base :: sv_config
  cc_name :: string
  cc_path :: string
  cc_domain :: "string option"
  cc_httponly :: bool
  cc_secure :: bool
  cc_samesite :: "string option"
  cc_prefix :: "string option"
  cc_partitioned :: bool
  cc_wire_name :: string
  cc_max_size :: int
  cc_chunked :: bool
  cc_max_chunks :: nat

text \<open>\<open>_configure_cookie\<close>: a setting that is left out has the library's default.\<close>

definition configure_cookie ::
  "string option \<Rightarrow> string option \<Rightarrow> bool option \<Rightarrow> bool option \<Rightarrow> string option option \<Rightarrow> int \<Rightarrow> int option
     \<Rightarrow> string option \<Rightarrow> string option \<Rightarrow> bool \<Rightarrow> bool \<Rightarrow> (int \<Rightarrow> bool) option \<Rightarrow> bool \<Rightarrow> cookie_config res" where
  "configure_cookie name path httponly secure samesite max_age permanent_lifetime domain prefix partitioned vary policy renew =
     (let name1 = (case name of None \<Rightarrow> ''session'' | Some n \<Rightarrow> n);
          path1 = (case path of None \<Rightarrow> ''/'' | Some p \<Rightarrow> p);
          secure1 = (case secure of None \<Rightarrow> False | Some b \<Rightarrow> b);
          samesite1 = (case samesite of None \<Rightarrow> Some ''lax'' | Some s \<Rightarrow> s)
      in res_bind (validate_cookie_security prefix partitioned domain path1 secure1 samesite1) (\<lambda>_.
        Inr \<lparr>cc_base = \<lparr>sv_max_age = max_age,
               sv_permanent_lifetime = (case permanent_lifetime of None \<Rightarrow> 86400 * 31 | Some l \<Rightarrow> l),
               sv_vary_on_cookie = vary, sv_policy = policy, sv_renew = renew\<rparr>,
             cc_name = name1, cc_path = path1, cc_domain = domain,
             cc_httponly = (case httponly of None \<Rightarrow> True | Some b \<Rightarrow> b), cc_secure = secure1,
             cc_samesite = samesite1, cc_prefix = prefix, cc_partitioned = partitioned,
             cc_wire_name = wire_cookie_name prefix name1, cc_max_size = 4093, cc_chunked = False, cc_max_chunks = 8\<rparr>))"

text \<open>What \<open>SessionMiddleware.__init__\<close> adds; \<open>max_chunks\<close> bounds the split.\<close>

definition configure_chunks :: "int option \<Rightarrow> bool \<Rightarrow> int \<Rightarrow> cookie_config \<Rightarrow> cookie_config res" where
  "configure_chunks max_size chunked max_chunks cfg =
     (if max_chunks < 1 then Inl ValueError
      else Inr (cfg\<lparr>cc_max_size := (case max_size of None \<Rightarrow> 4093 | Some n \<Rightarrow> n), cc_chunked := chunked,
                   cc_max_chunks := nat max_chunks\<rparr>))"

text \<open>\<open>_build_signer\<close>: the first secret signs, the others are accepted.\<close>

fun add_fallbacks :: "(bytes \<Rightarrow> bytes \<Rightarrow> bytes) \<Rightarrow> bytes \<Rightarrow> bytes list \<Rightarrow> signer \<Rightarrow> signer res" where
  "add_fallbacks mac salt [] s = Inr s"
| "add_fallbacks mac salt (k # ks) s = res_bind (add_fallback_secret mac k salt s) (add_fallbacks mac salt ks)"

definition build_signer :: "(bytes \<Rightarrow> bytes \<Rightarrow> bytes) \<Rightarrow> bytes list \<Rightarrow> signer res" where
  "build_signer mac keys =
     (case keys of
        [] \<Rightarrow> Inl ValueError
      | k # ks \<Rightarrow> res_bind (signer_init mac k (ascii_bytes ''veloce.session''))
                    (add_fallbacks mac (ascii_bytes ''veloce.session'') ks))"

section \<open>Rendering\<close>

text \<open>The attributes of one line; the prefix only for the cookie under its bare name.\<close>

definition session_attrs :: "cookie_config \<Rightarrow> int option \<Rightarrow> bool \<Rightarrow> cookie_attrs" where
  "session_attrs cfg lifetime use_prefix =
     \<lparr>ck_max_age = lifetime, ck_expires = None, ck_path = Some (cc_path cfg), ck_domain = cc_domain cfg,
      ck_secure = cc_secure cfg, ck_httponly = cc_httponly cfg, ck_samesite = cc_samesite cfg,
      ck_prefix = (if use_prefix then cc_prefix cfg else None)\<rparr>"

definition render_cookie ::
  "(string \<Rightarrow> bytes) \<Rightarrow> cookie_config \<Rightarrow> string \<Rightarrow> string \<Rightarrow> int \<Rightarrow> bool \<Rightarrow> string res" where
  "render_cookie enc cfg name v lifetime use_prefix =
     (let a = session_attrs cfg (Some lifetime) use_prefix in
      res_bind (dump_cookie enc name v a) (\<lambda>line. Inr (finish_line (cc_partitioned cfg) a line)))"

definition delete_session_cookie ::
  "(string \<Rightarrow> bytes) \<Rightarrow> cookie_config \<Rightarrow> string \<Rightarrow> bool \<Rightarrow> string option \<Rightarrow> string option res" where
  "delete_session_cookie enc cfg name use_prefix h =
     delete_cookie enc name (session_attrs cfg None use_prefix) (cc_partitioned cfg) h"

definition chunk_name :: "cookie_config \<Rightarrow> nat \<Rightarrow> string" where
  "chunk_name cfg i = cc_wire_name cfg @ ''.'' @ str_nat i"

fun delete_chunks :: "(string \<Rightarrow> bytes) \<Rightarrow> cookie_config \<Rightarrow> nat list \<Rightarrow> string option \<Rightarrow> string option res" where
  "delete_chunks enc cfg [] h = Inr h"
| "delete_chunks enc cfg (i # is) h =
     res_bind (delete_session_cookie enc cfg (chunk_name cfg i) False h) (delete_chunks enc cfg is)"

definition clear_chunks :: "(string \<Rightarrow> bytes) \<Rightarrow> cookie_config \<Rightarrow> string option \<Rightarrow> string option res" where
  "clear_chunks enc cfg h = delete_chunks enc cfg [0..<cc_max_chunks cfg] h"

text \<open>The loop of \<open>_write_chunks\<close> over what is left of the value; \<open>None\<close> when it does not fit.\<close>

function chunk_loop ::
  "(string \<Rightarrow> bytes) \<Rightarrow> cookie_config \<Rightarrow> int \<Rightarrow> string \<Rightarrow> nat \<Rightarrow> string list option res" where
  "chunk_loop enc cfg lifetime v i =
     (if v = [] then Inr (Some [])
      else if i \<ge> cc_max_chunks cfg then Inr None
      else
        res_bind (render_cookie enc cfg (chunk_name cfg i) [] lifetime False) (\<lambda>empty.
          let budget = cc_max_size cfg - int (length empty) in
          if budget < 1 then Inr None
          else
            res_bind (render_cookie enc cfg (chunk_name cfg i) (take (nat budget) v) lifetime False) (\<lambda>chunk.
              res_bind (chunk_loop enc cfg lifetime (drop (nat budget) v) (i + 1)) (\<lambda>more.
                Inr (map_option ((#) chunk) more)))))"
  by pat_completeness auto
termination by (relation "measure (\<lambda>(enc, cfg, lifetime, v, i). length v)") auto

declare chunk_loop.simps [simp del]

definition write_chunks ::
  "(string \<Rightarrow> bytes) \<Rightarrow> cookie_config \<Rightarrow> string \<Rightarrow> int \<Rightarrow> string option \<Rightarrow> (bool \<times> string option) res" where
  "write_chunks enc cfg v lifetime h =
     res_bind (chunk_loop enc cfg lifetime v 0) (\<lambda>chunks.
       case chunks of
         None \<Rightarrow> Inr (False, h)
       | Some cs \<Rightarrow>
           res_bind (delete_session_cookie enc cfg (cc_name cfg) True (fold append_set_cookie cs h)) (\<lambda>h1.
           res_bind (delete_chunks enc cfg [length cs..<cc_max_chunks cfg] h1) (\<lambda>h2. Inr (True, h2))))"

section \<open>The two phases\<close>

type_synonym 'v json = "(string, 'v) dict + 'v"

definition encode_cookie ::
  "(bytes \<Rightarrow> bytes \<Rightarrow> bytes) \<Rightarrow> ('v json \<Rightarrow> bytes) \<Rightarrow> signer \<Rightarrow> nat \<Rightarrow> (string, 'v) dict \<Rightarrow> string" where
  "encode_cookie mac json_dumps sg now d = token_dumps mac json_dumps sg now (Inl d)"

definition decode_cookie ::
  "(bytes \<Rightarrow> bytes \<Rightarrow> bytes) \<Rightarrow> (bytes \<Rightarrow> 'v json option) \<Rightarrow> ('v \<Rightarrow> bool) \<Rightarrow> cookie_config \<Rightarrow> signer \<Rightarrow> int \<Rightarrow> string
     \<Rightarrow> (string, 'v) dict option" where
  "decode_cookie mac json_loads truth cfg sg now v =
     (let base = cc_base cfg; lenient = max (sv_max_age base) (sv_permanent_lifetime base) in
      case token_loads mac json_loads sg now (Some lenient) v of
        Inl e \<Rightarrow> None
      | Inr (Inr x) \<Rightarrow> None
      | Inr (Inl d) \<Rightarrow>
          (let ceiling = (if (case map_of d ''_permanent'' of None \<Rightarrow> False | Some p \<Rightarrow> truth p)
                          then sv_permanent_lifetime base else sv_max_age base) in
           if ceiling < lenient then
             (case token_loads mac json_loads sg now (Some ceiling) v of Inr (Inl d2) \<Rightarrow> Some d2 | _ \<Rightarrow> None)
           else Some d))"

fun gather_chunks :: "(string \<Rightarrow> string option) \<Rightarrow> cookie_config \<Rightarrow> nat list \<Rightarrow> string list" where
  "gather_chunks cookies cfg [] = []"
| "gather_chunks cookies cfg (i # is) =
     (case cookies (chunk_name cfg i) of None \<Rightarrow> [] | Some p \<Rightarrow> p # gather_chunks cookies cfg is)"

definition reassemble_chunks :: "(string \<Rightarrow> string option) \<Rightarrow> cookie_config \<Rightarrow> string option" where
  "reassemble_chunks cookies cfg =
     (case cookies (chunk_name cfg 0) of
        None \<Rightarrow> None
      | Some p \<Rightarrow> Some (concat (p # gather_chunks cookies cfg [1..<cc_max_chunks cfg])))"

definition load_cookie_session ::
  "(bytes \<Rightarrow> bytes \<Rightarrow> bytes) \<Rightarrow> (bytes \<Rightarrow> 'v json option) \<Rightarrow> ('v \<Rightarrow> bool) \<Rightarrow> cookie_config \<Rightarrow> signer \<Rightarrow> int
     \<Rightarrow> (string \<Rightarrow> string option) \<Rightarrow> 'v session" where
  "load_cookie_session mac json_loads truth cfg sg now cookies =
     (let whole = cookies (cc_wire_name cfg);
          found = (if (whole = None \<or> whole = Some []) \<and> cc_chunked cfg then reassemble_chunks cookies cfg else whole)
      in case (case found of None \<Rightarrow> None
               | Some v \<Rightarrow> if v = [] then None else decode_cookie mac json_loads truth cfg sg now v) of
           None \<Rightarrow> (session_init [])\<lparr>ss_new := True\<rparr>
         | Some d \<Rightarrow> session_init d)"

definition save_cookie_session ::
  "(bytes \<Rightarrow> bytes \<Rightarrow> bytes) \<Rightarrow> ('v json \<Rightarrow> bytes) \<Rightarrow> (string \<Rightarrow> bytes) \<Rightarrow> ('v \<Rightarrow> bool) \<Rightarrow> cookie_config \<Rightarrow> signer \<Rightarrow> nat
     \<Rightarrow> int \<Rightarrow> 'v session \<Rightarrow> string option \<Rightarrow> string option res" where
  "save_cookie_session mac json_dumps enc truth cfg sg now status s h =
     (let (accessed, modified, vary) = begin_session_response (cc_base cfg) s in
      if \<not> modified \<and> \<not> (sv_renew (cc_base cfg) \<and> accessed \<and> \<not> ss_new s \<and> ss_data s \<noteq> []) then Inr h
      else if \<not> should_persist (sv_policy (cc_base cfg)) status then Inr h
      else if ss_data s = [] then
        res_bind (delete_session_cookie enc cfg (cc_name cfg) True h) (\<lambda>h1.
          if cc_chunked cfg then clear_chunks enc cfg h1 else Inr h1)
      else
        (let v = encode_cookie mac json_dumps sg now (ss_data s);
             lifetime = cookie_lifetime truth (cc_base cfg) s in
         res_bind (render_cookie enc cfg (cc_name cfg) v lifetime True) (\<lambda>line.
           if int (length line) \<le> cc_max_size cfg then
             (if cc_chunked cfg then clear_chunks enc cfg (append_set_cookie line h) else Inr (append_set_cookie line h))
           else if cc_chunked cfg then
             res_bind (write_chunks enc cfg v lifetime h) (\<lambda>(done, h1).
               if done then Inr h1
               else res_bind (delete_session_cookie enc cfg (cc_name cfg) True h1) (clear_chunks enc cfg))
           else Inr h)))"

section \<open>What the lines do to a jar\<close>

text \<open>What configuration establishes, and texts that are no attributes of their own.\<close>

definition configured :: "cookie_config \<Rightarrow> bool" where
  "configured cfg \<longleftrightarrow> cc_wire_name cfg = wire_cookie_name (cc_prefix cfg) (cc_name cfg)"

definition plain_config :: "cookie_config \<Rightarrow> bool" where
  "plain_config cfg \<longleftrightarrow> plain_text (Some (cc_path cfg)) \<and> plain_text (cc_domain cfg)"

lemma configure_configured:
  "configure_cookie name path httponly secure samesite age perm domain prefix part vary policy renew = Inr cfg \<Longrightarrow>
   configure_chunks max_size chunked chunks cfg = Inr cfg' \<Longrightarrow> configured cfg'"
  by (auto simp: configure_cookie_def configure_chunks_def configured_def res_bind_Inr_iff Let_def split: if_splits)

lemma plain_session_attrs: "plain_config cfg \<Longrightarrow> plain_attrs (session_attrs cfg l p)"
  by (simp add: plain_config_def plain_attrs_def session_attrs_def)

lemma base_wire: "wire_key (cc_name cfg) (session_attrs cfg l True) = Inr w \<Longrightarrow> configured cfg \<Longrightarrow> w = cc_wire_name cfg"
  by (auto simp: wire_key_def session_attrs_def configured_def wire_name_def wire_cookie_name_def split: option.splits if_splits)

lemma bare_wire: "wire_key name (session_attrs cfg l False) = Inr name"
  by (simp add: wire_key_def session_attrs_def)

lemma render_effect:
  assumes "render_cookie enc cfg name v lifetime p = Inr line" "plain_config cfg" "lifetime \<noteq> 0"
  obtains w where "wire_key name (session_attrs cfg (Some lifetime) p) = Inr w" "cookie_line line (w, Some (quote enc v))"
proof -
  let ?a = "session_attrs cfg (Some lifetime) p"
  obtain l where l: "dump_cookie enc name v ?a = Inr l" "line = finish_line (cc_partitioned cfg) ?a l"
    using assms(1) by (auto simp: render_cookie_def Let_def res_bind_Inr_iff)
  have "ck_max_age ?a = Some lifetime" by (simp add: session_attrs_def)
  with dumped_line [OF l(1) plain_session_attrs [OF assms(2)], of "cc_partitioned cfg"] l(2) assms(3) that
  show thesis by auto
qed

lemma delete_effect:
  assumes "delete_session_cookie enc cfg name p h = Inr h'" "plain_config cfg" "cookie_lines h es"
  obtains w where "wire_key name (session_attrs cfg None p) = Inr w" "cookie_lines h' (es @ [(w, None)])"
proof -
  let ?a = "session_attrs cfg None p"
  have "wire_key name (?a\<lparr>ck_max_age := Some 0, ck_expires := None\<rparr>) = wire_key name ?a" by (rule wire_key_lifetime)
  moreover have "plain_attrs (?a\<lparr>ck_max_age := Some 0, ck_expires := None\<rparr>)"
    using plain_session_attrs [OF assms(2)] by (simp add: plain_attrs_def)
  ultimately show thesis
    using set_cookie_effect [of enc name "[]" "?a\<lparr>ck_max_age := Some 0, ck_expires := None\<rparr>" "cc_partitioned cfg" h h' es]
      assms(1,3) that by (auto simp: delete_session_cookie_def delete_cookie_def)
qed

lemma delete_base_effect:
  "delete_session_cookie enc cfg (cc_name cfg) True h = Inr h' \<Longrightarrow> plain_config cfg \<Longrightarrow> configured cfg \<Longrightarrow>
     cookie_lines h es \<Longrightarrow> cookie_lines h' (es @ [(cc_wire_name cfg, None)])"
  using delete_effect base_wire by metis

definition drops :: "cookie_config \<Rightarrow> nat list \<Rightarrow> (string \<times> string option) list" where
  "drops cfg is = map (\<lambda>i. (chunk_name cfg i, None)) is"

lemma delete_chunks_effect:
  "delete_chunks enc cfg is h = Inr h' \<Longrightarrow> plain_config cfg \<Longrightarrow> cookie_lines h es \<Longrightarrow> cookie_lines h' (es @ drops cfg is)"
proof (induction "is" arbitrary: h es)
  case (Cons i "is")
  from Cons.prems obtain h1 where h1: "delete_session_cookie enc cfg (chunk_name cfg i) False h = Inr h1"
    "delete_chunks enc cfg is h1 = Inr h'" by (auto simp: res_bind_Inr_iff)
  have "cookie_lines h1 (es @ [(chunk_name cfg i, None)])"
    using delete_effect [OF h1(1) Cons.prems(2,3)] bare_wire by (metis sum.inject(2))
  from Cons.IH [OF h1(2) Cons.prems(2) this] show ?case by (simp add: drops_def)
qed (simp add: drops_def)

lemma append_effects:
  "list_all2 cookie_line cs ces \<Longrightarrow> cookie_lines h es \<Longrightarrow> cookie_lines (fold append_set_cookie cs h) (es @ ces)"
proof (induction arbitrary: h es rule: list_all2_induct)
  case (Cons c cs e ces)
  from Cons.IH [OF cookie_lines_append [OF Cons.prems Cons.hyps(1)]] show ?case by simp
qed simp

definition sets :: "(string \<Rightarrow> bytes) \<Rightarrow> cookie_config \<Rightarrow> nat \<Rightarrow> string list \<Rightarrow> (string \<times> string option) list" where
  "sets enc cfg i ps = map (\<lambda>(j, p). (chunk_name cfg j, Some (quote enc p))) (zip [i..<i + length ps] ps)"

lemma sets_Cons: "sets enc cfg i (p # ps) = (chunk_name cfg i, Some (quote enc p)) # sets enc cfg (Suc i) ps"
  by (simp add: sets_def upt_conv_Cons del: upt_Suc)

lemma chunk_loop_effect:
  assumes "chunk_loop enc cfg lifetime v i = Inr (Some cs)" "plain_config cfg" "lifetime \<noteq> 0"
  shows "\<exists>ps. concat ps = v \<and> list_all2 cookie_line cs (sets enc cfg i ps) \<and> (ps \<noteq> [] \<longrightarrow> i + length ps \<le> cc_max_chunks cfg)"
  using assms
proof (induction enc cfg lifetime v i arbitrary: cs rule: chunk_loop.induct)
  case (1 enc cfg lifetime v i)
  show ?case
  proof (cases "v = []")
    case True
    with "1.prems" show ?thesis by (intro exI [of _ "[]"]) (simp add: chunk_loop.simps [of enc cfg lifetime "[]"] sets_def)
  next
    case False
    from "1.prems"(1) False obtain empty where e: "i < cc_max_chunks cfg"
      "render_cookie enc cfg (chunk_name cfg i) [] lifetime False = Inr empty"
      "\<not> cc_max_size cfg - int (length empty) < 1"
      by (auto simp: chunk_loop.simps [of enc cfg lifetime v] res_bind_Inr_iff Let_def split: if_splits)
    define n where "n = nat (cc_max_size cfg - int (length empty))"
    from "1.prems"(1) False e obtain chunk cs' where c: "render_cookie enc cfg (chunk_name cfg i) (take n v) lifetime False = Inr chunk"
      "chunk_loop enc cfg lifetime (drop n v) (i + 1) = Inr (Some cs')" "cs = chunk # cs'"
      by (auto simp: chunk_loop.simps [of enc cfg lifetime v] res_bind_Inr_iff Let_def n_def split: if_splits)
    have "\<not> i \<ge> cc_max_chunks cfg" using e(1) by simp
    from "1.IH" [OF False this refl e(3) c(2) [unfolded n_def] "1.prems"(2,3)]
    obtain ps where ps: "concat ps = drop n v" "list_all2 cookie_line cs' (sets enc cfg (i + 1) ps)"
      "ps \<noteq> [] \<longrightarrow> i + 1 + length ps \<le> cc_max_chunks cfg" unfolding n_def by blast
    have "cookie_line chunk (chunk_name cfg i, Some (quote enc (take n v)))"
      using render_effect [OF c(1) "1.prems"(2,3)] bare_wire by (metis sum.inject(2))
    with ps e(1) c(3) show ?thesis
      by (intro exI [of _ "take n v # ps"]) (cases ps; simp add: sets_Cons)
  qed
qed

section \<open>The cookies of the next request\<close>

lemma fold_upd_other: "k \<notin> fst ` set es \<Longrightarrow> fold (\<lambda>(w, e) m. m(w := e)) es m k = m k"
  by (induction es arbitrary: m) auto

lemma fold_upd_in: "distinct (map fst es) \<Longrightarrow> (k, e) \<in> set es \<Longrightarrow> fold (\<lambda>(w, e) m. m(w := e)) es m k = e"
proof (induction es arbitrary: m)
  case (Cons p es)
  show ?case
  proof (cases "p = (k, e)")
    case True
    with Cons.prems(1) have "k \<notin> fst ` set es" by simp
    with True show ?thesis by (simp add: fold_upd_other del: fun_upd_apply) simp
  next
    case False
    with Cons.prems have "(k, e) \<in> set es" "distinct (map fst es)" by auto
    with Cons.IH show ?thesis by (simp add: case_prod_unfold del: fun_upd_apply)
  qed
qed simp

lemma chunk_name_inj: "chunk_name cfg i = chunk_name cfg j \<longleftrightarrow> i = j"
  using str_nat_inj by (auto simp: chunk_name_def)

lemma chunk_not_whole: "chunk_name cfg i \<noteq> cc_wire_name cfg" "cc_wire_name cfg \<noteq> chunk_name cfg i"
  by (auto simp: chunk_name_def)

lemma drops_keys: "fst ` set (drops cfg is) = chunk_name cfg ` set is" "map fst (drops cfg is) = map (chunk_name cfg) is"
  by (auto simp: drops_def image_comp comp_def)

lemma sets_keys: "map fst (sets enc cfg i ps) = map (chunk_name cfg) [i..<i + length ps]"
proof (induction ps arbitrary: i)
  case (Cons p ps)
  then show ?case using upt_conv_Cons [of i "i + length (p # ps)"] by (simp add: sets_Cons del: upt_Suc)
qed (simp add: sets_def)

lemma chunk_names_distinct: "distinct is \<Longrightarrow> distinct (map (chunk_name cfg) is)"
  by (simp add: distinct_map inj_on_def chunk_name_inj)

lemma sets_in: "j < length ps \<Longrightarrow> (chunk_name cfg (i + j), Some (quote enc (ps ! j))) \<in> set (sets enc cfg i ps)"
proof (induction ps arbitrary: i j)
  case (Cons p ps)
  show ?case
  proof (cases j)
    case (Suc k)
    with Cons.prems Cons.IH [of k "Suc i"] show ?thesis by (simp add: sets_Cons)
  qed (simp add: sets_Cons)
qed simp

lemma gather_pieces:
  assumes "i + length ps \<le> n" "\<forall>j < length ps. cookies (chunk_name cfg (i + j)) = Some (ps ! j)"
    and "i + length ps < n \<Longrightarrow> cookies (chunk_name cfg (i + length ps)) = None"
  shows "gather_chunks cookies cfg [i..<n] = ps"
  using assms
proof (induction ps arbitrary: i)
  case Nil
  then show ?case by (cases "i < n") (simp_all add: upt_conv_Cons)
next
  case (Cons p ps)
  have "cookies (chunk_name cfg i) = Some p" using Cons.prems(2) by (force dest: spec [of _ 0])
  moreover have "gather_chunks cookies cfg [Suc i..<n] = ps"
  proof (rule Cons.IH)
    show "Suc i + length ps \<le> n" using Cons.prems(1) by simp
    show "\<forall>j < length ps. cookies (chunk_name cfg (Suc i + j)) = Some (ps ! j)"
      using Cons.prems(2) by (metis Suc_less_eq add_Suc add_Suc_right length_Cons nth_Cons_Suc)
    show "Suc i + length ps < n \<Longrightarrow> cookies (chunk_name cfg (Suc i + length ps)) = None" using Cons.prems(3) by simp
  qed
  ultimately show ?case using Cons.prems(1) by (simp add: upt_conv_Cons)
qed

text \<open>The value under the wire name or in chunks is what the middleware finds.\<close>

definition found_value :: "cookie_config \<Rightarrow> (string \<Rightarrow> string option) \<Rightarrow> string option" where
  "found_value cfg cookies =
     (let whole = cookies (cc_wire_name cfg) in
      if (whole = None \<or> whole = Some []) \<and> cc_chunked cfg then reassemble_chunks cookies cfg else whole)"

lemma load_found:
  "load_cookie_session mac json_loads truth cfg sg now cookies =
     (case (case found_value cfg cookies of None \<Rightarrow> None
            | Some v \<Rightarrow> if v = [] then None else decode_cookie mac json_loads truth cfg sg now v) of
        None \<Rightarrow> (session_init [])\<lparr>ss_new := True\<rparr>
      | Some d \<Rightarrow> session_init d)"
  by (simp add: load_cookie_session_def found_value_def Let_def)

definition next_cookies ::
  "(bytes \<Rightarrow> string) \<Rightarrow> string option \<Rightarrow> (string, string) dict \<Rightarrow> string \<Rightarrow> string option" where
  "next_cookies dec h jar = map_of (request_cookies dec (jar_header (jar_update (set_cookie_lines h) jar)))"

lemma next_cookies_effects:
  assumes "cookie_lines h es" "jar_ok jar"
  shows "next_cookies dec h jar k = map_option (cookie_value dec) (fold (\<lambda>(w, e) m. m(w := e)) es (map_of jar) k)"
  by (simp add: next_cookies_def request_cookie [OF jar_after(1) [OF assms]] jar_after(2) [OF assms])

lemma found_whole:
  assumes "cookie_lines h ((cc_wire_name cfg, Some (quote enc v)) # drops cfg is)" "jar_ok jar" "text_codec enc dec" "v \<noteq> []"
  shows "found_value cfg (next_cookies dec h jar) = Some v"
proof -
  have "cc_wire_name cfg \<notin> fst ` set (drops cfg is)" using chunk_not_whole by (auto simp: drops_keys)
  then have "next_cookies dec h jar (cc_wire_name cfg) = Some v"
    by (simp add: next_cookies_effects [OF assms(1,2)] fold_upd_other cookie_value_quote [OF assms(3)])
  with assms(4) show ?thesis by (simp add: found_value_def)
qed

lemma found_gone:
  assumes "cookie_lines h (es @ (cc_wire_name cfg, None) # drops cfg is)" "jar_ok jar" "cc_chunked cfg \<longrightarrow> 0 \<in> set is" "distinct is"
  shows "found_value cfg (next_cookies dec h jar) = None"
proof -
  have "cc_wire_name cfg \<notin> fst ` set (drops cfg is)" using chunk_not_whole by (auto simp: drops_keys)
  then have w: "next_cookies dec h jar (cc_wire_name cfg) = None"
    by (simp add: next_cookies_effects [OF assms(1,2)] fold_upd_other)
  show ?thesis
  proof (cases "cc_chunked cfg")
    case True
    with assms(3) have "(chunk_name cfg 0, None) \<in> set (drops cfg is)" by (auto simp: drops_def)
    then have "next_cookies dec h jar (chunk_name cfg 0) = None"
      using fold_upd_in [of "drops cfg is"] assms(4)
      by (simp add: next_cookies_effects [OF assms(1,2)] drops_keys chunk_names_distinct)
    with w True show ?thesis by (simp add: found_value_def reassemble_chunks_def)
  qed (simp add: found_value_def w)
qed

lemma found_chunks:
  assumes "cookie_lines h (sets enc cfg 0 ps @ (cc_wire_name cfg, None) # drops cfg [length ps..<cc_max_chunks cfg])"
    and "jar_ok jar" "text_codec enc dec" "ps \<noteq> []" "length ps \<le> cc_max_chunks cfg" "cc_chunked cfg"
  shows "found_value cfg (next_cookies dec h jar) = Some (concat ps)"
proof -
  let ?c = "next_cookies dec h jar" and ?d = "drops cfg [length ps..<cc_max_chunks cfg]"
  have "cc_wire_name cfg \<notin> fst ` set ?d" using chunk_not_whole by (auto simp: drops_keys)
  then have w: "?c (cc_wire_name cfg) = None" by (simp add: next_cookies_effects [OF assms(1,2)] fold_upd_other)
  have pieces: "?c (chunk_name cfg j) = Some (ps ! j)" if "j < length ps" for j
  proof -
    have "chunk_name cfg j \<notin> fst ` set ?d" using that by (auto simp: drops_keys chunk_name_inj)
    moreover have "(chunk_name cfg j, Some (quote enc (ps ! j))) \<in> set (sets enc cfg 0 ps)"
      using sets_in [OF that, of cfg 0] by simp
    ultimately show ?thesis
      using fold_upd_in [of "sets enc cfg 0 ps"] chunk_not_whole
      by (simp add: next_cookies_effects [OF assms(1,2)] fold_upd_other sets_keys chunk_names_distinct
          cookie_value_quote [OF assms(3)])
  qed
  have stop: "?c (chunk_name cfg (length ps)) = None" if "length ps < cc_max_chunks cfg"
  proof -
    have "(chunk_name cfg (length ps), None) \<in> set ?d" using that by (auto simp: drops_def)
    then show ?thesis using fold_upd_in [of ?d]
      by (simp add: next_cookies_effects [OF assms(1,2)] drops_keys chunk_names_distinct)
  qed
  obtain p qs where ps: "ps = p # qs" using assms(4) by (cases ps) auto
  have "gather_chunks ?c cfg [1..<cc_max_chunks cfg] = qs"
  proof (rule gather_pieces)
    show "\<forall>j < length qs. ?c (chunk_name cfg (1 + j)) = Some (qs ! j)" using pieces by (auto simp: ps)
  qed (use assms(5) stop in \<open>simp_all add: ps\<close>)
  moreover have "?c (chunk_name cfg 0) = Some p" using pieces [of 0] by (simp add: ps)
  ultimately show ?thesis using w assms(6) by (simp add: found_value_def reassemble_chunks_def ps)
qed

section \<open>The signed value\<close>

lemma decode_encode:
  assumes j: "json_loads (json_dumps (Inl (ss_data s))) = Some (Inl (ss_data s))"
    and "sg_key sg \<in> set (sg_keys sg)" "now < 2 ^ 64"
  shows "decode_cookie mac json_loads truth cfg sg later (encode_cookie mac json_dumps sg now (ss_data s))
    = (if int now \<le> later \<and> later \<le> int now + cookie_lifetime truth (cc_base cfg) s then Some (ss_data s) else None)"
proof -
  let ?age = "sv_max_age (cc_base cfg)" and ?perm = "sv_permanent_lifetime (cc_base cfg)"
  have "token_loads mac json_loads sg later m (encode_cookie mac json_dumps sg now (ss_data s))
      = (case token_age m later (int now) of Inl e \<Rightarrow> Inl e | Inr _ \<Rightarrow> Inr (Inl (ss_data s)))" for m
    unfolding encode_cookie_def
    using token_loads_dumps [where json_loads = json_loads and json_dumps = json_dumps and d = "Inl (ss_data s)", OF j assms(2,3)] .
  moreover have "cookie_lifetime truth (cc_base cfg) s = (if (case map_of (ss_data s) ''_permanent'' of None \<Rightarrow> False | Some p \<Rightarrow> truth p)
      then ?perm else ?age)" by (simp add: cookie_lifetime_def permanent_def)
  ultimately show ?thesis by (auto simp: decode_cookie_def Let_def token_age_def max_def)
qed

lemma encoded_nonempty: "encode_cookie mac json_dumps sg now d \<noteq> []"
  by (simp add: encode_cookie_def token_dumps_def Let_def signing_input_def)

definition new_session :: "'v session" where
  "new_session = (session_init [])\<lparr>ss_new := True\<rparr>"

text \<open>Whether the value of a session goes into one cookie, or into the allowed number of chunks.\<close>

definition session_fits :: "(string \<Rightarrow> bytes) \<Rightarrow> cookie_config \<Rightarrow> string \<Rightarrow> int \<Rightarrow> bool" where
  "session_fits enc cfg v lifetime =
     (case render_cookie enc cfg (cc_name cfg) v lifetime True of
        Inl e \<Rightarrow> False
      | Inr line \<Rightarrow>
          int (length line) \<le> cc_max_size cfg \<or>
          (cc_chunked cfg \<and> (case chunk_loop enc cfg lifetime v 0 of Inr (Some cs) \<Rightarrow> True | _ \<Rightarrow> False)))"

text \<open>What a response leaves for the next request, by the three outcomes.\<close>

lemma clear_chunks_effect:
  "clear_chunks enc cfg h = Inr h' \<Longrightarrow> plain_config cfg \<Longrightarrow> cookie_lines h es \<Longrightarrow>
     cookie_lines h' (es @ drops cfg [0..<cc_max_chunks cfg])"
  by (simp add: clear_chunks_def delete_chunks_effect)

lemma cleared_found:
  assumes "delete_session_cookie enc cfg (cc_name cfg) True h = Inr h1" "cookie_lines h es"
    and "(if cc_chunked cfg then clear_chunks enc cfg h1 else Inr h1) = Inr h2"
    and "plain_config cfg" "configured cfg" "jar_ok jar" "0 < cc_max_chunks cfg"
  shows "found_value cfg (next_cookies dec h2 jar) = None"
proof -
  note base = delete_base_effect [OF assms(1,4,5,2)]
  show ?thesis
  proof (cases "cc_chunked cfg")
    case True
    with assms(3) have "clear_chunks enc cfg h1 = Inr h2" by simp
    from clear_chunks_effect [OF this assms(4) base]
    have "cookie_lines h2 (es @ (cc_wire_name cfg, None) # drops cfg [0..<cc_max_chunks cfg])" by simp
    from found_gone [OF this assms(6)] assms(7) show ?thesis by simp
  next
    case False
    with assms(3) base have "cookie_lines h2 (es @ (cc_wire_name cfg, None) # drops cfg [])" by (simp add: drops_def)
    from found_gone [OF this assms(6)] False show ?thesis by simp
  qed
qed

lemma written_found:
  assumes "chunk_loop enc cfg lifetime v 0 = Inr (Some cs)" "write_chunks enc cfg v lifetime None = Inr (True, h)"
    and "plain_config cfg" "configured cfg" "lifetime \<noteq> 0" "jar_ok jar" "text_codec enc dec" "v \<noteq> []" "cc_chunked cfg"
  shows "found_value cfg (next_cookies dec h jar) = Some v"
proof -
  obtain ps where ps: "concat ps = v" "list_all2 cookie_line cs (sets enc cfg 0 ps)" "ps \<noteq> [] \<longrightarrow> length ps \<le> cc_max_chunks cfg"
    using chunk_loop_effect [OF assms(1,3,5)] by auto
  then have "length cs = length ps" by (auto simp: sets_def dest: list_all2_lengthD)
  moreover obtain h1 where h1: "delete_session_cookie enc cfg (cc_name cfg) True (fold append_set_cookie cs None) = Inr h1"
    "delete_chunks enc cfg [length cs..<cc_max_chunks cfg] h1 = Inr h"
    using assms(1,2) by (auto simp: write_chunks_def res_bind_Inr_iff)
  have "cookie_lines (fold append_set_cookie cs None) ([] @ sets enc cfg 0 ps)"
    using append_effects [OF ps(2) cookie_lines_None] .
  from delete_chunks_effect [OF h1(2) assms(3) delete_base_effect [OF h1(1) assms(3,4) this]]
  have "cookie_lines h (sets enc cfg 0 ps @ (cc_wire_name cfg, None) # drops cfg [length cs..<cc_max_chunks cfg])" by simp
  moreover have "ps \<noteq> []" using ps(1) assms(8) by auto
  ultimately show ?thesis using found_chunks assms(6,7,9) ps(1,3) by metis
qed

lemma whole_found:
  assumes "render_cookie enc cfg (cc_name cfg) v lifetime True = Inr line" "plain_config cfg" "configured cfg" "lifetime \<noteq> 0"
    and "(if cc_chunked cfg then clear_chunks enc cfg (append_set_cookie line None) else Inr (append_set_cookie line None)) = Inr h"
    and "jar_ok jar" "text_codec enc dec" "v \<noteq> []"
  shows "found_value cfg (next_cookies dec h jar) = Some v"
proof -
  have "cookie_line line (cc_wire_name cfg, Some (quote enc v))"
    using render_effect [OF assms(1,2,4)] base_wire assms(3) by metis
  from cookie_lines_append [OF cookie_lines_None this]
  have l: "cookie_lines (append_set_cookie line None) [(cc_wire_name cfg, Some (quote enc v))]" by simp
  show ?thesis
  proof (cases "cc_chunked cfg")
    case True
    with assms(5) have "clear_chunks enc cfg (append_set_cookie line None) = Inr h" by simp
    from clear_chunks_effect [OF this assms(2) l] found_whole assms(6-8) show ?thesis by simp
  next
    case False
    with assms(5) l have "cookie_lines h ((cc_wire_name cfg, Some (quote enc v)) # drops cfg [])" by (simp add: drops_def)
    from found_whole [OF this assms(6-8)] show ?thesis .
  qed
qed

lemma next_cookies_None: "next_cookies dec None jar = map_of (request_cookies dec (jar_header jar))"
  by (simp add: next_cookies_def set_cookie_lines_def jar_update_def)

lemma saved_session:
  assumes "save_cookie_session mac json_dumps enc truth cfg sg now status s None = Inr h"
    and "ss_modified s" "should_persist (sv_policy (cc_base cfg)) status" "ss_data s \<noteq> []"
    and "v = encode_cookie mac json_dumps sg now (ss_data s)" "lifetime = cookie_lifetime truth (cc_base cfg) s" "0 < lifetime"
    and "text_codec enc dec" "jar_ok jar" "plain_config cfg" "configured cfg" "0 < cc_max_chunks cfg"
  shows "if session_fits enc cfg v lifetime then found_value cfg (next_cookies dec h jar) = Some v
    else if cc_chunked cfg then found_value cfg (next_cookies dec h jar) = None else h = None"
proof -
  have v: "v \<noteq> []" using encoded_nonempty assms(5) by metis
  obtain line where line: "render_cookie enc cfg (cc_name cfg) v lifetime True = Inr line"
    and rest: "(if int (length line) \<le> cc_max_size cfg then
             (if cc_chunked cfg then clear_chunks enc cfg (append_set_cookie line None) else Inr (append_set_cookie line None))
           else if cc_chunked cfg then
             res_bind (write_chunks enc cfg v lifetime None) (\<lambda>(done, h1).
               if done then Inr h1
               else res_bind (delete_session_cookie enc cfg (cc_name cfg) True h1) (clear_chunks enc cfg))
           else Inr None) = Inr h"
    using assms(1-6) by (auto simp: save_cookie_session_def begin_session_response_def Let_def res_bind_Inr_iff [of "render_cookie a b c d e f" for a b c d e f])
  show ?thesis
  proof (cases "int (length line) \<le> cc_max_size cfg")
    case True
    with rest whole_found [OF line assms(10,11) _ _ assms(9,8) v] assms(7) line show ?thesis
      by (simp add: session_fits_def)
  next
    case big: False
    show ?thesis
    proof (cases "cc_chunked cfg")
      case True
      with rest big obtain d h1 where w: "write_chunks enc cfg v lifetime None = Inr (d, h1)"
        "(if d then Inr h1 else res_bind (delete_session_cookie enc cfg (cc_name cfg) True h1) (clear_chunks enc cfg)) = Inr h"
        by (auto simp: res_bind_Inr_iff [of "write_chunks a b c d e" for a b c d e])
      then obtain chunks where c: "chunk_loop enc cfg lifetime v 0 = Inr chunks" by (auto simp: write_chunks_def res_bind_Inr_iff)
      show ?thesis
      proof (cases chunks)
        case None
        with c w have n: "h1 = None" "\<not> d" by (auto simp: write_chunks_def)
        with w(2) obtain h2 where h2: "delete_session_cookie enc cfg (cc_name cfg) True None = Inr h2"
          "clear_chunks enc cfg h2 = Inr h" by (auto simp: res_bind_Inr_iff)
        from h2(2) True have "(if cc_chunked cfg then clear_chunks enc cfg h2 else Inr h2) = Inr h" by simp
        from cleared_found [OF h2(1) cookie_lines_None this assms(10,11,9,12)] True None c big line
        show ?thesis by (simp add: session_fits_def)
      next
        case (Some cs)
        with c w have "write_chunks enc cfg v lifetime None = Inr (True, h)" by (auto simp: write_chunks_def res_bind_Inr_iff)
        from written_found [OF c [unfolded Some] this assms(10,11) _ assms(9,8) v True] assms(7) Some c line True
        show ?thesis by (simp add: session_fits_def)
      qed
    next
      case False
      with rest big line show ?thesis by (simp add: session_fits_def)
    qed
  qed
qed

section \<open>Properties\<close>

text \<open>C38: A session that a response saves is the session of the client's next request, through the
  signature, the percent encoding, the split over numbered cookies and whatever the jar of the
  client held before, for exactly the lifetime of the session. One that needs more chunks than
  allowed is dropped whole, so that the next request starts a new session; without chunking, an
  oversized one leaves the client what it had.\<close>

theorem session_cookie_roundtrip:
  assumes "text_codec enc dec" "json_loads (json_dumps (Inl (ss_data s))) = Some (Inl (ss_data s))"
    and "sg_key sg \<in> set (sg_keys sg)" "now < 2 ^ 64"
    and "plain_config cfg" "configured cfg" "0 < cc_max_chunks cfg" "jar_ok jar"
    and "ss_modified s" "ss_data s \<noteq> []" "should_persist (sv_policy (cc_base cfg)) status"
    and "0 < cookie_lifetime truth (cc_base cfg) s"
    and "save_cookie_session mac json_dumps enc truth cfg sg now status s None = Inr h"
  shows "load_cookie_session mac json_loads truth cfg sg later (next_cookies dec h jar) =
    (if session_fits enc cfg (encode_cookie mac json_dumps sg now (ss_data s)) (cookie_lifetime truth (cc_base cfg) s)
     then (if int now \<le> later \<and> later \<le> int now + cookie_lifetime truth (cc_base cfg) s
           then session_init (ss_data s) else new_session)
     else if cc_chunked cfg then new_session
     else load_cookie_session mac json_loads truth cfg sg later (map_of (request_cookies dec (jar_header jar))))"
  using saved_session [OF assms(13,9,11,10) refl refl assms(12,1,8,5,6,7)]
    decode_encode [where json_loads = json_loads and json_dumps = json_dumps and s = s, OF assms(2-4), of mac truth cfg later]
    encoded_nonempty [of mac json_dumps sg now "ss_data s"]
  by (auto simp: load_found new_session_def next_cookies_None split: if_splits)

text \<open>A session that its handler emptied is gone: the next request of the client starts a new one,
  also when the jar still held chunks of an earlier session.\<close>

theorem emptied_session_gone:
  assumes "plain_config cfg" "configured cfg" "0 < cc_max_chunks cfg" "jar_ok jar"
    and "ss_modified s" "ss_data s = []" "should_persist (sv_policy (cc_base cfg)) status"
    and "save_cookie_session mac json_dumps enc truth cfg sg now status s None = Inr h"
  shows "load_cookie_session mac json_loads truth cfg sg later (next_cookies dec h jar) = new_session"
proof -
  obtain h1 where h1: "delete_session_cookie enc cfg (cc_name cfg) True None = Inr h1"
    "(if cc_chunked cfg then clear_chunks enc cfg h1 else Inr h1) = Inr h"
    using assms(5-8) by (auto simp: save_cookie_session_def begin_session_response_def res_bind_Inr_iff)
  from cleared_found [OF h1(1) cookie_lines_None h1(2) assms(1,2,4,3)] show ?thesis
    by (simp add: load_found new_session_def)
qed

definition small_config :: cookie_config where
  "small_config = \<lparr>cc_base = \<lparr>sv_max_age = 60, sv_permanent_lifetime = 60, sv_vary_on_cookie = True, sv_policy = None,
     sv_renew = False\<rparr>, cc_name = ''s'', cc_path = [], cc_domain = None, cc_httponly = False, cc_secure = False,
     cc_samesite = None, cc_prefix = None, cc_partitioned = False, cc_wire_name = ''s'', cc_max_size = 24,
     cc_chunked = True, cc_max_chunks = 2\<rparr>"

definition small_signer :: signer where
  "small_signer = \<lparr>sg_key = [7], sg_keys = [[7]]\<rparr>"

definition user_session :: "nat session" where
  "user_session = ss_setitem ''user'' 7 (session_init [])"

theorem session_cookie_roundtrip_witness:
  "\<exists>h. save_cookie_session (\<lambda>k m. k) (\<lambda>j. []) utf8_enc (\<lambda>n. n \<noteq> 0) small_config small_signer 100 200 user_session None = Inr h
     \<and> load_cookie_session (\<lambda>k m. k) (\<lambda>b. Some (Inl [(''user'', 7 :: nat)])) (\<lambda>n. n \<noteq> 0) small_config small_signer 130
         (next_cookies utf8_dec h [(''s.1'', ''old'')]) = session_init [(''user'', 7 :: nat)]"
proof -
  let ?save = "save_cookie_session (\<lambda>k m. k) (\<lambda>j. []) utf8_enc (\<lambda>n. n \<noteq> 0) small_config small_signer 100 200 user_session None"
  have "case ?save of Inl e \<Rightarrow> False | Inr h \<Rightarrow> True" by code_simp
  then obtain h where h: "?save = Inr h" by (cases ?save) auto
  have data: "ss_data user_session = [(''user'', 7 :: nat)]" "ss_data user_session \<noteq> []" "ss_modified user_session" by code_simp+
  have fits: "session_fits utf8_enc small_config (encode_cookie (\<lambda>k m. k) (\<lambda>j. []) small_signer 100 (ss_data user_session)) 60"
    by code_simp
  have life: "cookie_lifetime (\<lambda>n. n \<noteq> 0) (cc_base small_config) user_session = 60" by code_simp
  have cfg: "plain_config small_config" "configured small_config" "0 < cc_max_chunks small_config"
    "should_persist (sv_policy (cc_base small_config)) 200" "jar_ok [(''s.1'', ''old'')]" by code_simp+
  have sg: "sg_key small_signer \<in> set (sg_keys small_signer)" "(100 :: nat) < 2 ^ 64"
    by (simp_all add: small_signer_def)
  have json: "(\<lambda>b. Some (Inl [(''user'', 7 :: nat)])) ((\<lambda>j. []) (Inl (ss_data user_session))) = Some (Inl (ss_data user_session))"
    by (simp add: data)
  from session_cookie_roundtrip [where json_loads = "\<lambda>b. Some (Inl [(''user'', 7 :: nat)])" and json_dumps = "\<lambda>j. []",
      OF text_codec_utf8 json sg cfg(1-3,5) data(3,2) cfg(4) _ h, of 130] fits life data(1) h
  show ?thesis by auto
qed

theorem emptied_session_gone_witness:
  "\<exists>h. save_cookie_session (\<lambda>k m. k) (\<lambda>j. []) utf8_enc (\<lambda>n. n \<noteq> 0) small_config small_signer 100 200 (ss_clear user_session) None = Inr h
     \<and> load_cookie_session (\<lambda>k m. k) (\<lambda>b. Some (Inl [(''user'', 7 :: nat)])) (\<lambda>n. n \<noteq> 0) small_config small_signer 130
         (next_cookies utf8_dec h [(''s.0'', ''old'')]) = new_session"
proof -
  let ?save = "save_cookie_session (\<lambda>k m. k) (\<lambda>j. []) utf8_enc (\<lambda>n. n \<noteq> 0) small_config small_signer 100 200 (ss_clear user_session) None"
  have "case ?save of Inl e \<Rightarrow> False | Inr h \<Rightarrow> True" by code_simp
  then obtain h where h: "?save = Inr h" by (cases ?save) auto
  have data: "ss_modified (ss_clear user_session)" "ss_data (ss_clear user_session) = []" by code_simp+
  have cfg: "plain_config small_config" "configured small_config" "0 < cc_max_chunks small_config"
    "should_persist (sv_policy (cc_base small_config)) 200" "jar_ok [(''s.0'', ''old'')]" by code_simp+
  from emptied_session_gone [OF cfg(1-3,5) data cfg(4) h] h show ?thesis by blast
qed

end
