(* ===== verification/Sliding_Log.thy ===== *)
theory Sliding_Log
  imports Ttl_Store
begin

text \<open>
  The process-local sliding log of \<open>RateLimitMiddleware\<close> in \<open>src/src/veloce/middleware/security.py\<close>: one
  bucket of time stamps per caller, swept once a window and bounded in number. The lock of \<open>sweep\<close>
  is never held over a suspension, so a check is one step. Times are rationals.
\<close>

section \<open>The limiter\<close>

record slog =
  sl_max_requests :: int
  sl_window :: int
  sl_max_keys :: nat
  sl_buckets :: "(string, time list) dict"
  sl_last_sweep :: time

definition slog_init :: "int \<Rightarrow> int \<Rightarrow> nat \<Rightarrow> time \<Rightarrow> slog" where
  "slog_init max_requests window max_keys now =
     \<lparr>sl_max_requests = max_requests, sl_window = window, sl_max_keys = max_keys, sl_buckets = [], sl_last_sweep = now\<rparr>"

definition stale :: "time \<Rightarrow> time list \<Rightarrow> bool" where
  "stale cutoff stamps \<longleftrightarrow> stamps = [] \<or> last stamps \<le> cutoff"

definition drop_stale :: "time \<Rightarrow> (string, time list) dict \<Rightarrow> (string, time list) dict" where
  "drop_stale cutoff d = fold dict_del (map fst (filter (\<lambda>(k, s). stale cutoff s) d)) d"

definition slog_sweep :: "time \<Rightarrow> time \<Rightarrow> slog \<Rightarrow> slog" where
  "slog_sweep now cutoff l =
     (if now - sl_last_sweep l \<ge> of_int (sl_window l)
      then l\<lparr>sl_buckets := drop_stale cutoff (sl_buckets l), sl_last_sweep := now\<rparr> else l)"

text \<open>\<open>_evict\<close>: the stale buckets, then the oldest ones while there are too many.\<close>

definition slog_evict :: "time \<Rightarrow> slog \<Rightarrow> slog" where
  "slog_evict cutoff l =
     (let d = drop_stale cutoff (sl_buckets l)
      in l\<lparr>sl_buckets := drop (length d - (sl_max_keys l - 1)) d\<rparr>)"

definition slog_bucket :: "string \<Rightarrow> time \<Rightarrow> slog \<Rightarrow> time list \<times> slog" where
  "slog_bucket key cutoff l =
     (let l1 = (case map_of (sl_buckets l) key of
                  Some b \<Rightarrow> l
                | None \<Rightarrow>
                    (let l0 = (if length (sl_buckets l) \<ge> sl_max_keys l then slog_evict cutoff l else l)
                     in l0\<lparr>sl_buckets := dict_set key [] (sl_buckets l0)\<rparr>));
          bucket = dropWhile (\<lambda>s. s \<le> cutoff) (the (map_of (sl_buckets l1) key))
      in (bucket, l1\<lparr>sl_buckets := dict_set key bucket (sl_buckets l1)\<rparr>))"

definition reset_after :: "slog \<Rightarrow> time list \<Rightarrow> time \<Rightarrow> int" where
  "reset_after l bucket now =
     (case bucket of
        [] \<Rightarrow> 0
      | s # ss \<Rightarrow>
          (let remaining = \<lceil>s + of_int (sl_window l) - now\<rceil> in
           if remaining > sl_window l then sl_window l else if remaining > 0 then remaining else 0))"

text \<open>One request on the path without a tagged strategy: admitted, or refused with the value of
  \<open>Retry-After\<close> and of the reset header.\<close>

datatype slog_answer = Admitted | Refused int int

definition slog_check :: "time \<Rightarrow> string \<Rightarrow> slog \<Rightarrow> slog_answer \<times> slog" where
  "slog_check now caller l =
     (let cutoff = now - of_int (sl_window l);
          l1 = (if now - sl_last_sweep l \<ge> of_int (sl_window l) then slog_sweep now cutoff l else l);
          (bucket, l2) = slog_bucket caller cutoff l1
      in if int (length bucket) \<ge> sl_max_requests l2
         then (let reset = reset_after l2 bucket now
               in (Refused (if reset = 0 then sl_window l2 else reset) reset, l2))
         else (Admitted, l2\<lparr>sl_buckets := dict_set caller (bucket @ [now]) (sl_buckets l2)\<rparr>))"

text \<open>The headers of the response to an admitted request.\<close>

definition slog_headers :: "slog \<Rightarrow> time list \<Rightarrow> time \<Rightarrow> int \<times> int \<times> int" where
  "slog_headers l bucket now = (sl_max_requests l, max 0 (sl_max_requests l - int (length bucket)), reset_after l bucket now)"

fun slog_run :: "(time \<times> string) list \<Rightarrow> slog \<Rightarrow> slog_answer list \<times> slog" where
  "slog_run [] l = ([], l)"
| "slog_run ((now, caller) # rs) l =
     (let (a, l1) = slog_check now caller l; (as, l2) = slog_run rs l1 in (a # as, l2))"

section \<open>The reference\<close>

text \<open>A request is admitted if fewer than the limit of its caller's requests were admitted in the
  window that ends with it.\<close>

definition in_window :: "int \<Rightarrow> time \<Rightarrow> string \<Rightarrow> (time \<times> string) list \<Rightarrow> (time \<times> string) list" where
  "in_window w now caller hist = filter (\<lambda>(t, k). k = caller \<and> now - of_int w < t) hist"

fun log_run :: "int \<Rightarrow> int \<Rightarrow> (time \<times> string) list \<Rightarrow> (time \<times> string) list \<Rightarrow> bool list" where
  "log_run m w hist [] = []"
| "log_run m w hist ((now, caller) # rs) =
     (if int (length (in_window w now caller hist)) < m
      then True # log_run m w (hist @ [(now, caller)]) rs
      else False # log_run m w hist rs)"

section \<open>Refinement\<close>

definition stamps :: "slog \<Rightarrow> string \<Rightarrow> time list" where
  "stamps l k = (case map_of (sl_buckets l) k of None \<Rightarrow> [] | Some b \<Rightarrow> b)"

definition hist_of :: "string \<Rightarrow> (time \<times> string) list \<Rightarrow> time list" where
  "hist_of k hist = map fst (filter (\<lambda>(t, j). j = k) hist)"

text \<open>The buckets hold the admitted stamps of every caller, but for some that are over.\<close>

definition tracks :: "time \<Rightarrow> string set \<Rightarrow> slog \<Rightarrow> (time \<times> string) list \<Rightarrow> bool" where
  "tracks now keys l hist \<longleftrightarrow>
     dict_ok (sl_buckets l) \<and> fst ` set (sl_buckets l) \<subseteq> keys \<and>
     (\<forall>k. sorted (stamps l k) \<and> (\<forall>s \<in> set (stamps l k). s \<le> now)
        \<and> (\<forall>later \<ge> now. filter (\<lambda>s. later - of_int (sl_window l) < s) (stamps l k)
            = filter (\<lambda>s. later - of_int (sl_window l) < s) (hist_of k hist)))"

lemma map_of_fold_del: "map_of (fold dict_del ks d) k = (if k \<in> set ks then None else map_of d k)"
  by (induction ks arbitrary: d) (auto simp: map_of_del)

lemma fold_del_keys: "fst ` set (fold dict_del ks d) \<subseteq> fst ` set d"
proof (induction ks arbitrary: d)
  case (Cons k ks)
  have "fst ` set (dict_del k d) \<subseteq> fst ` set d" by (auto simp: AList.delete_eq)
  with Cons [of "dict_del k d"] show ?case by auto
qed simp

lemma fold_del_ok: "dict_ok d \<Longrightarrow> dict_ok (fold dict_del ks d)"
  by (induction ks arbitrary: d) (auto intro: dict_ok_del)

lemma map_of_drop_stale:
  "dict_ok d \<Longrightarrow> map_of (drop_stale cutoff d) k =
     (case map_of d k of None \<Rightarrow> None | Some s \<Rightarrow> if stale cutoff s then None else Some s)"
proof -
  assume "dict_ok d"
  then have "k \<in> set (map fst (filter (\<lambda>(k, s). stale cutoff s) d)) \<longleftrightarrow> (\<exists>s. map_of d k = Some s \<and> stale cutoff s)"
    by (force simp: dict_in_set_iff [symmetric])
  then show ?thesis by (auto simp: drop_stale_def map_of_fold_del split: option.split)
qed

lemma sorted_stale: "sorted s \<Longrightarrow> stale cutoff s \<Longrightarrow> filter (\<lambda>t. cutoff < t) s = []"
proof -
  assume a: "sorted s" "stale cutoff s"
  have "t \<le> last s" if "t \<in> set s" for t
    using that a(1) by (induction s) auto
  with a(2) show ?thesis by (fastforce simp: stale_def filter_empty_conv)
qed

lemma sorted_dropWhile: "sorted s \<Longrightarrow> dropWhile (\<lambda>t. t \<le> cutoff) s = filter (\<lambda>t. cutoff < t) s"
proof (induction s)
  case (Cons t s)
  then have "\<forall>u \<in> set s. cutoff < t \<longrightarrow> cutoff < u" by auto
  with Cons show ?case by (auto simp: filter_id_conv)
qed simp

lemma filter_later: "now \<le> later \<Longrightarrow> filter (\<lambda>s. later - w < s) (filter (\<lambda>s. now - w < s) xs) = filter (\<lambda>s. later - w < s) xs"
  for w :: time
  by (auto simp: filter_filter intro: filter_cong)

lemma stamps_put: "stamps (l\<lparr>sl_buckets := dict_set c b (sl_buckets l)\<rparr>) k = (if k = c then b else stamps l k)"
  by (simp add: stamps_def map_of_set)

lemma tracks_put:
  assumes "tracks now keys l hist" "c \<in> keys" "sorted b" "\<forall>s \<in> set b. s \<le> now"
    and "\<And>later. now \<le> later \<Longrightarrow> filter (\<lambda>s. later - of_int (sl_window l) < s) b
        = filter (\<lambda>s. later - of_int (sl_window l) < s) (hist_of c hist')"
    and "\<And>k. k \<noteq> c \<Longrightarrow> hist_of k hist' = hist_of k hist"
  shows "tracks now keys (l\<lparr>sl_buckets := dict_set c b (sl_buckets l)\<rparr>) hist'"
proof -
  have "fst ` set (dict_set c b (sl_buckets l)) \<subseteq> keys"
    using assms(1,2) set_dict_set [of c b "sl_buckets l"] by (fastforce simp: tracks_def)
  with assms show ?thesis unfolding tracks_def by (simp add: stamps_put dict_ok_set)
qed

lemma tracks_later: "tracks now keys l hist \<Longrightarrow> now \<le> later \<Longrightarrow> tracks later keys l hist"
  unfolding tracks_def by (meson order_trans)

lemma tracks_sweep:
  assumes "tracks now keys l hist"
  shows "tracks now keys (slog_sweep now (now - of_int (sl_window l)) l) hist"
proof (cases "now - sl_last_sweep l \<ge> of_int (sl_window l)")
  case True
  let ?c = "now - of_int (sl_window l)"
  let ?l = "l\<lparr>sl_buckets := drop_stale ?c (sl_buckets l), sl_last_sweep := now\<rparr>"
  have ok: "dict_ok (sl_buckets l)" using assms by (simp add: tracks_def)
  have s: "stamps ?l k = (if stale ?c (stamps l k) then [] else stamps l k)" for k
    by (auto simp: stamps_def map_of_drop_stale [OF ok] stale_def split: option.split)
  have "filter (\<lambda>s. later - of_int (sl_window l) < s) (stamps ?l k) = filter (\<lambda>s. later - of_int (sl_window l) < s) (stamps l k)"
    if "now \<le> later" for later k
  proof (cases "stale ?c (stamps l k)")
    case True
    have "sorted (stamps l k)" using assms by (simp add: tracks_def)
    from sorted_stale [OF this True] filter_later [OF that, of "of_int (sl_window l)" "stamps l k"] True
    show ?thesis by (simp add: s)
  qed (simp add: s)
  moreover have "fst ` set (drop_stale ?c (sl_buckets l)) \<subseteq> keys"
    using assms by (simp add: tracks_def drop_stale_def subset_trans [OF fold_del_keys])
  moreover have "dict_ok (drop_stale ?c (sl_buckets l))" unfolding drop_stale_def by (rule fold_del_ok [OF ok])
  moreover have "sorted (stamps ?l k)" "\<forall>s \<in> set (stamps ?l k). s \<le> now" for k
    using assms by (auto simp: tracks_def s)
  ultimately have "tracks now keys ?l hist" using assms unfolding tracks_def by simp
  with True show ?thesis by (simp add: slog_sweep_def)
qed (simp add: slog_sweep_def assms)

lemma sweep_config:
  "sl_window (slog_sweep now c l) = sl_window l" "sl_max_keys (slog_sweep now c l) = sl_max_keys l"
  "sl_max_requests (slog_sweep now c l) = sl_max_requests l"
  by (simp_all add: slog_sweep_def)

text \<open>The bucket of a caller, when there is room for every caller.\<close>

lemma bucket_room:
  assumes "tracks now keys l hist" "c \<in> keys" "finite keys" "card keys \<le> sl_max_keys l" "map_of (sl_buckets l) c = None"
  shows "length (sl_buckets l) < sl_max_keys l"
proof -
  have "c \<notin> fst ` set (sl_buckets l)" using assms(5) by (simp add: map_of_eq_None_iff)
  with assms(1,2) have "fst ` set (sl_buckets l) \<subset> keys" by (auto simp: tracks_def)
  then have "card (fst ` set (sl_buckets l)) < card keys" using assms(3) psubset_card_mono by blast
  moreover have "card (fst ` set (sl_buckets l)) = length (sl_buckets l)"
    using assms(1) distinct_card [of "map fst (sl_buckets l)"] by (simp add: tracks_def dict_ok_def)
  ultimately show ?thesis using assms(4) by simp
qed

lemma bucket_tracked:
  assumes "tracks now keys l hist" "c \<in> keys" "finite keys" "card keys \<le> sl_max_keys l"
  defines "cutoff \<equiv> now - of_int (sl_window l)"
  shows "\<exists>l'. slog_bucket c cutoff l = (filter (\<lambda>s. cutoff < s) (hist_of c hist), l') \<and> tracks now keys l' hist
    \<and> stamps l' c = filter (\<lambda>s. cutoff < s) (hist_of c hist)
    \<and> sl_window l' = sl_window l \<and> sl_max_keys l' = sl_max_keys l \<and> sl_max_requests l' = sl_max_requests l"
proof -
  define l1 where "l1 = (if map_of (sl_buckets l) c = None then l\<lparr>sl_buckets := dict_set c [] (sl_buckets l)\<rparr> else l)"
  have conf: "sl_window l1 = sl_window l" "sl_max_keys l1 = sl_max_keys l" "sl_max_requests l1 = sl_max_requests l"
    by (simp_all add: l1_def)
  have none: "stamps l c = []" if "map_of (sl_buckets l) c = None" using that by (simp add: stamps_def)
  have t1: "tracks now keys l1 hist"
  proof (cases "map_of (sl_buckets l) c = None")
    case True
    have "filter (\<lambda>s. later - of_int (sl_window l) < s) [] = filter (\<lambda>s. later - of_int (sl_window l) < s) (hist_of c hist)"
      if "now \<le> later" for later
      using assms(1) none [OF True] that unfolding tracks_def by metis
    then have "tracks now keys (l\<lparr>sl_buckets := dict_set c [] (sl_buckets l)\<rparr>) hist"
      by (intro tracks_put [OF assms(1,2)]) simp_all
    with True show ?thesis by (simp add: l1_def)
  next
    case False
    then have "l1 = l" unfolding l1_def by (rule if_not_P)
    with assms(1) show ?thesis by simp
  qed
  have b: "the (map_of (sl_buckets l1) c) = stamps l1 c" by (auto simp: l1_def stamps_def map_of_set)
  have srt: "sorted (stamps l1 c)" "\<forall>s \<in> set (stamps l1 c). s \<le> now" using t1 by (simp_all add: tracks_def)
  have hist: "filter (\<lambda>s. later - of_int (sl_window l) < s) (stamps l1 c) = filter (\<lambda>s. later - of_int (sl_window l) < s) (hist_of c hist)"
    if "now \<le> later" for later using t1 that conf by (simp add: tracks_def)
  define bk where "bk = filter (\<lambda>s. cutoff < s) (hist_of c hist)"
  have dw: "dropWhile (\<lambda>s. s \<le> cutoff) (stamps l1 c) = bk"
    using sorted_dropWhile [OF srt(1)] hist [of now] by (simp add: cutoff_def bk_def)
  let ?l = "l1\<lparr>sl_buckets := dict_set c bk (sl_buckets l1)\<rparr>"
  have bk: "sorted bk" "\<forall>s \<in> set bk. s \<le> now"
    using srt sorted_wrt_filter [OF srt(1)] unfolding dw [symmetric] sorted_dropWhile [OF srt(1)] by simp_all
  have "tracks now keys ?l hist"
    by (rule tracks_put [OF t1 assms(2) bk]) (use filter_later in \<open>auto simp: conf bk_def cutoff_def\<close>)
  moreover have "slog_bucket c cutoff l = (bk, ?l)"
    using bucket_room [OF assms(1-4)] b dw
    by (auto simp: slog_bucket_def Let_def l1_def split: option.splits)
  ultimately show ?thesis by (intro exI [of _ ?l]) (simp add: conf stamps_put bk_def)
qed

lemma check_tracked:
  assumes "tracks now keys l hist" "c \<in> keys" "finite keys" "card keys \<le> sl_max_keys l"
  defines "adm \<equiv> int (length (in_window (sl_window l) now c hist)) < sl_max_requests l"
  shows "\<exists>a l'. slog_check now c l = (a, l') \<and> (a = Admitted \<longleftrightarrow> adm)
    \<and> tracks now keys l' (if adm then hist @ [(now, c)] else hist)
    \<and> sl_window l' = sl_window l \<and> sl_max_keys l' = sl_max_keys l \<and> sl_max_requests l' = sl_max_requests l"
proof -
  let ?c = "now - of_int (sl_window l)"
  let ?l1 = "slog_sweep now ?c l"
  define bk where "bk = filter (\<lambda>s. ?c < s) (hist_of c hist)"
  have l1: "(if now - sl_last_sweep l \<ge> of_int (sl_window l) then ?l1 else l) = ?l1" by (simp add: slog_sweep_def)
  have len: "length bk = length (in_window (sl_window l) now c hist)"
    unfolding bk_def by (induction hist) (auto simp: hist_of_def in_window_def)
  obtain l2 where l2: "slog_bucket c ?c ?l1 = (bk, l2)" "tracks now keys l2 hist" "stamps l2 c = bk"
    and conf: "sl_window l2 = sl_window l" "sl_max_keys l2 = sl_max_keys l" "sl_max_requests l2 = sl_max_requests l"
    using bucket_tracked [OF tracks_sweep [OF assms(1)] assms(2,3)] assms(4) by (auto simp: sweep_config bk_def)
  show ?thesis
  proof (cases adm)
    case False
    then show ?thesis using l2 conf l1 len
      by (simp add: slog_check_def Let_def adm_def)
  next
    case True
    let ?l = "l2\<lparr>sl_buckets := dict_set c (bk @ [now]) (sl_buckets l2)\<rparr>"
    have srt: "sorted bk" "\<forall>s \<in> set bk. s \<le> now" using l2(2,3) unfolding tracks_def by (metis)+
    have "tracks now keys ?l (hist @ [(now, c)])"
    proof (rule tracks_put [OF l2(2) assms(2)])
      show "sorted (bk @ [now])" using srt by (simp add: sorted_append)
      show "\<forall>s \<in> set (bk @ [now]). s \<le> now" using srt by simp
      show "filter (\<lambda>s. later - of_int (sl_window l2) < s) (bk @ [now]) = filter (\<lambda>s. later - of_int (sl_window l2) < s) (hist_of c (hist @ [(now, c)]))"
        if "now \<le> later" for later
        using filter_later [OF that, of "of_int (sl_window l)"] by (simp add: hist_of_def bk_def conf)
      show "hist_of k (hist @ [(now, c)]) = hist_of k hist" if "k \<noteq> c" for k
        using that by (simp add: hist_of_def)
    qed
    with True l2 conf l1 len show ?thesis by (simp add: slog_check_def Let_def adm_def)
  qed
qed

lemma run_tracked:
  assumes "finite keys" "card keys \<le> sl_max_keys l" "snd ` set rs \<subseteq> keys" "sorted (t0 # map fst rs)" "tracks t0 keys l hist"
  shows "map (\<lambda>a. a = Admitted) (fst (slog_run rs l)) = log_run (sl_max_requests l) (sl_window l) hist rs"
  using assms
proof (induction rs arbitrary: t0 l hist)
  case (Cons r rs)
  obtain now c where r: "r = (now, c)" by (cases r)
  let ?adm = "int (length (in_window (sl_window l) now c hist)) < sl_max_requests l"
  have "tracks now keys l hist" using Cons.prems r by (intro tracks_later [OF Cons.prems(5)]) simp
  with Cons.prems r obtain a l' where c: "slog_check now c l = (a, l')" "a = Admitted \<longleftrightarrow> ?adm"
    and t: "tracks now keys l' (if ?adm then hist @ [(now, c)] else hist)"
    and conf: "sl_window l' = sl_window l" "sl_max_keys l' = sl_max_keys l" "sl_max_requests l' = sl_max_requests l"
    using check_tracked [of now keys l hist c] by auto
  have "map (\<lambda>a. a = Admitted) (fst (slog_run rs l')) = log_run (sl_max_requests l) (sl_window l) (if ?adm then hist @ [(now, c)] else hist) rs"
    using Cons.IH [of l' now, OF _ _ _ _ t] Cons.prems conf r by simp
  then show ?case using c r by (cases ?adm) (auto simp: split_beta)
qed simp

text \<open>C24: In a process of its own, the limiter admits exactly the requests it should: when there is room for
  every caller and the clock does not go back, a request passes if and only if fewer than the limit of its
  caller's requests were admitted during the window that ends with it, whatever was swept or evicted since.\<close>

theorem sliding_log_exact:
  assumes "sorted (start # map fst rs)" "card (snd ` set rs) \<le> max_keys"
  shows "map (\<lambda>a. a = Admitted) (fst (slog_run rs (slog_init max_requests window max_keys start)))
    = log_run max_requests window [] rs"
proof -
  have "tracks start (snd ` set rs) (slog_init max_requests window max_keys start) []"
    by (simp add: tracks_def slog_init_def stamps_def hist_of_def dict_ok_def)
  from run_tracked [OF _ _ _ assms(1) this] assms(2) show ?thesis by (simp add: slog_init_def)
qed

lemma sliding_log_exact_witness:
  "map (\<lambda>a. a = Admitted) (fst (slog_run [(1, ''a''), (2, ''a''), (3, ''b''), (4, ''a''), (11, ''a'')] (slog_init 1 10 2 0)))
     = [True, False, True, False, True]"
  using sliding_log_exact [of 0 "[(1, ''a''), (2, ''a''), (3, ''b''), (4, ''a''), (11, ''a'')]" 2 1 10]
  by (simp add: in_window_def card_insert_if del: slog_run.simps)

end
