(* ===== verification/Hardening.thy ===== *)
theory Hardening
  imports Cookies Proxy_Fix Header_Set
begin

text \<open>
  The hardening layers of \<open>src/src/veloce/middleware/security.py\<close> that keep no counters: the content
  security policy with its nonce, the allow-list of hosts, the upgrade to HTTPS, the default headers
  and the origin check of WebSocket handshakes, with \<open>_ws_handshake_rejection\<close> of
  \<open>src/src/veloce/_internal.py\<close>. The source of random tokens is a parameter: the tokens in the order
  in which they are drawn.
\<close>

section \<open>Content-Security-Policy\<close>

datatype csp_sources = OneSource string | SourceList "string list"

datatype csp_policy = Template string | Directives "(string, csp_sources) dict"

definition str_replace :: "string \<Rightarrow> string \<Rightarrow> string \<Rightarrow> string" where
  "str_replace old new s = join_str new (split_str old [] s)"

definition nonce_source :: string where
  "nonce_source = CHR 0x27 # ''nonce'' @ [CHR 0x27]"

definition nonce_slot_text :: string where
  "nonce_slot_text = ''{nonce}''"

fun source_list :: "csp_sources \<Rightarrow> string list" where
  "source_list (OneSource s) = [s]"
| "source_list (SourceList ss) = ss"

fun normalize_csp :: "csp_policy \<Rightarrow> string" where
  "normalize_csp (Template t) = t"
| "normalize_csp (Directives ds) =
     join_str ''; '' (map (\<lambda>(directive, sources).
       join_str '' '' (directive # map (\<lambda>s. if s = nonce_source then nonce_slot_text else s) (source_list sources))) ds)"

record csp =
  csp_enforce :: "string option"
  csp_report :: "string option"
  csp_needs_nonce :: bool

definition wants_nonce :: "string option \<Rightarrow> bool" where
  "wants_nonce t \<longleftrightarrow> (case t of None \<Rightarrow> False | Some s \<Rightarrow> contains_str nonce_slot_text s)"

definition csp_init :: "csp_policy option \<Rightarrow> csp_policy option \<Rightarrow> bool \<Rightarrow> csp res" where
  "csp_init policy report_only nonce =
     (if policy = None \<and> report_only = None then Inl ValueError
      else
        (let enforce = map_option normalize_csp policy; report = map_option normalize_csp report_only;
             references = wants_nonce enforce \<or> wants_nonce report
         in if \<not> nonce \<and> references then Inl ValueError
            else Inr \<lparr>csp_enforce = enforce, csp_report = report, csp_needs_nonce = nonce \<and> references\<rparr>))"

text \<open>The slot of a request: nothing, a factory that was not called yet, or the nonce; and the number
  of tokens drawn so far.\<close>

datatype nonce_slot = Unarmed | Armed | Minted string

type_synonym nonce_state = "nonce_slot \<times> nat"

fun csp_nonce :: "(nat \<Rightarrow> string) \<Rightarrow> nonce_state \<Rightarrow> string option \<times> nonce_state" where
  "csp_nonce mint (Unarmed, n) = (None, (Unarmed, n))"
| "csp_nonce mint (Armed, n) = (Some (mint n), (Minted (mint n), Suc n))"
| "csp_nonce mint (Minted v, n) = (Some v, (Minted v, n))"

definition csp_request :: "csp \<Rightarrow> nonce_state \<Rightarrow> nonce_state" where
  "csp_request c s = (if csp_needs_nonce c then (Armed, snd s) else s)"

definition nonce_value :: "string \<Rightarrow> string" where
  "nonce_value nonce = CHR 0x27 # ''nonce-'' @ nonce @ [CHR 0x27]"

definition csp_header ::
  "(nat \<Rightarrow> string) \<Rightarrow> string \<Rightarrow> string option \<Rightarrow> headers \<times> nonce_state \<Rightarrow> headers \<times> nonce_state" where
  "csp_header mint header template hs =
     (case (template, hs) of
        (None, _) \<Rightarrow> hs
      | (Some t, hdr, s) \<Rightarrow>
          if header_key hdr header \<noteq> None then hs
          else if contains_str nonce_slot_text t then
            (let (nonce, s1) = csp_nonce mint s;
                 (v, s2) = (case nonce of Some v \<Rightarrow> (v, s1) | None \<Rightarrow> (mint (snd s1), (Minted (mint (snd s1)), Suc (snd s1))))
             in (dict_set header (str_replace nonce_slot_text (nonce_value v) t) hdr, s2))
          else (dict_set header t hdr, s))"

definition csp_response :: "(nat \<Rightarrow> string) \<Rightarrow> csp \<Rightarrow> headers \<times> nonce_state \<Rightarrow> headers \<times> nonce_state" where
  "csp_response mint c hs =
     csp_header mint ''Content-Security-Policy-Report-Only'' (csp_report c)
       (csp_header mint ''Content-Security-Policy'' (csp_enforce c) hs)"

text \<open>What the handler and its template do meanwhile: read the nonce some times.\<close>

fun read_nonce :: "(nat \<Rightarrow> string) \<Rightarrow> nat \<Rightarrow> nonce_state \<Rightarrow> string option list \<times> nonce_state" where
  "read_nonce mint 0 s = ([], s)"
| "read_nonce mint (Suc k) s = (let (v, s1) = csp_nonce mint s; (vs, s2) = read_nonce mint k s1 in (v # vs, s2))"

section \<open>Hosts\<close>

record trusted_hosts =
  th_status :: int
  th_exact :: "string list"
  th_suffixes :: "string list"
  th_allow_all :: bool

definition th_init :: "string list \<Rightarrow> int \<Rightarrow> trusted_hosts res" where
  "th_init allowed status =
     (if \<not> (400 \<le> status \<and> status < 500) then Inl ValueError
      else
        (let exact = map str_lower (filter (\<lambda>h. \<not> starts_with ''*.'' h) allowed)
         in Inr \<lparr>th_status = status, th_exact = exact,
              th_suffixes = map (\<lambda>h. CHR ''.'' # drop 2 (str_lower h)) (filter (starts_with ''*.'') allowed),
              th_allow_all = ''*'' \<in> set exact\<rparr>))"

definition is_host_allowed :: "trusted_hosts \<Rightarrow> string \<Rightarrow> bool" where
  "is_host_allowed th host \<longleftrightarrow>
     th_allow_all th \<or> host \<in> set (th_exact th) \<or> list_ex (\<lambda>suffix. ends_with suffix host) (th_suffixes th)"

text \<open>The status and the body of the refusal, or \<open>None\<close> to go on.\<close>

definition th_request :: "trusted_hosts \<Rightarrow> bool \<Rightarrow> string option \<Rightarrow> (int \<times> string) option" where
  "th_request th is_mcp host_header =
     (if is_mcp then None
      else if \<not> is_host_allowed th (extract_host (case host_header of None \<Rightarrow> [] | Some h \<Rightarrow> h) True)
      then Some (th_status th, ''Invalid host header'') else None)"

section \<open>The upgrade to HTTPS\<close>

record upgrade_request =
  ur_mcp :: bool
  ur_secure :: bool
  ur_proxy_fixed :: bool
  ur_forwarded_proto :: "string option"
  ur_host :: "string option"
  ur_path :: string
  ur_query :: string

definition https_exempt :: "string list \<Rightarrow> bool \<Rightarrow> string list" where
  "https_exempt exempt_paths exempt_acme = exempt_paths @ (if exempt_acme then [''/.well-known/acme-challenge/''] else [])"

definition location_safe :: "char \<Rightarrow> bool" where
  "location_safe c \<longleftrightarrow> always_safe c \<or> c \<in> set (''/:?#[]@!$&'' @ [CHR 0x27] @ ''()*+,;=%~'')"

definition quote_location :: "(string \<Rightarrow> bytes) \<Rightarrow> string \<Rightarrow> string" where
  "quote_location enc url = concat (map (\<lambda>b. if unat b < 128 \<and> location_safe (char_of (unat b)) then [char_of (unat b)]
     else [CHR ''%'', hex_digit (unat b div 16), hex_digit (unat b mod 16)]) (enc url))"

text \<open>\<open>RedirectResponse\<close>: the status and the Location header.\<close>

definition redirect_response :: "(string \<Rightarrow> bytes) \<Rightarrow> string \<Rightarrow> int \<Rightarrow> (int \<times> string) res" where
  "redirect_response enc url status =
     (if header_value_has_crlf url then Inl ValueError else Inr (status, quote_location enc url))"

definition https_redirect :: "(string \<Rightarrow> bytes) \<Rightarrow> string list \<Rightarrow> upgrade_request \<Rightarrow> (int \<times> string) option res" where
  "https_redirect enc exempt r =
     (if ur_mcp r then Inr None
      else if ur_secure r then Inr None
      else if \<not> ur_proxy_fixed r \<and> str_lower (case ur_forwarded_proto r of None \<Rightarrow> [] | Some p \<Rightarrow> p) = ''https'' then Inr None
      else if list_ex (\<lambda>p. starts_with p (ur_path r)) exempt then Inr None
      else
        (let host = (case ur_host r of None \<Rightarrow> ''localhost'' | Some h \<Rightarrow> h);
             url = ''https://'' @ host @ ur_path r @ (if ur_query r = [] then [] else CHR ''?'' # ur_query r)
         in res_bind (redirect_response enc url 308) (\<lambda>x. Inr (Some x))))"

section \<open>Default headers\<close>

definition optional_header :: "string \<Rightarrow> string option \<Rightarrow> headers \<Rightarrow> headers" where
  "optional_header name v hdr = (if given v then dict_set name (the v) hdr else hdr)"

definition sh_init ::
  "string option \<Rightarrow> string option \<Rightarrow> string option \<Rightarrow> int option \<Rightarrow> bool \<Rightarrow> bool \<Rightarrow> string option \<Rightarrow> string option \<Rightarrow> headers" where
  "sh_init content_type_options frame_options referrer_policy hsts_max_age subdomains preload csp permissions =
     (let h1 = optional_header ''Referrer-Policy'' referrer_policy
                 (optional_header ''X-Frame-Options'' frame_options
                   (optional_header ''X-Content-Type-Options'' content_type_options []));
          h2 = (case hsts_max_age of
                  None \<Rightarrow> h1
                | Some age \<Rightarrow> dict_set ''Strict-Transport-Security''
                    (''max-age='' @ str_int age @ (if subdomains then ''; includeSubDomains'' else []) @ (if preload then ''; preload'' else [])) h1)
      in optional_header ''Permissions-Policy'' permissions (optional_header ''Content-Security-Policy'' csp h2))"

definition sh_response :: "headers \<Rightarrow> headers \<Rightarrow> headers" where
  "sh_response config hdr =
     (if hdr = [] then fold (\<lambda>(name, v). dict_set name v) config hdr
      else
        (let present = map (\<lambda>(k, v). str_lower k) hdr
         in fold (\<lambda>(name, v) h. if str_lower name \<notin> set present then dict_set name v h else h) config hdr))"

section \<open>Origins of WebSocket handshakes\<close>

record ws_origins =
  wo_allowed :: "string list"
  wo_allow_all :: bool
  wo_allow_missing :: bool

definition normal_origin :: "string \<Rightarrow> string" where
  "normal_origin o' = str_lower (rstrip_char (CHR ''/'') o')"

definition wo_init :: "string list \<Rightarrow> bool \<Rightarrow> ws_origins" where
  "wo_init origins allow_missing =
     (let allowed = map normal_origin origins
      in \<lparr>wo_allowed = allowed, wo_allow_all = ''*'' \<in> set allowed, wo_allow_missing = allow_missing\<rparr>)"

definition is_websocket_origin_allowed :: "ws_origins \<Rightarrow> string \<Rightarrow> bool" where
  "is_websocket_origin_allowed wo origin \<longleftrightarrow>
     (if wo_allow_all wo then True else if origin = [] then wo_allow_missing wo
      else normal_origin origin \<in> set (wo_allowed wo))"

text \<open>The gate of a handshake: of each middleware, the host and the origin predicate it has.\<close>

fun ws_handshake_rejection ::
  "((string \<Rightarrow> bool) option \<times> (string \<Rightarrow> bool) option) list \<Rightarrow> string \<Rightarrow> string \<Rightarrow> bool" where
  "ws_handshake_rejection [] host origin = False"
| "ws_handshake_rejection ((host_check, origin_check) # mws) host origin =
     (if (case host_check of None \<Rightarrow> False | Some check \<Rightarrow> \<not> check host) then True
      else if (case origin_check of None \<Rightarrow> False | Some check \<Rightarrow> \<not> check origin) then True
      else ws_handshake_rejection mws host origin)"

section \<open>Lookups under another name\<close>

lemma header_key_keys:
  "header_key hdr name = (if name \<in> set (map fst hdr) then Some name
     else List.find (\<lambda>k. str_lower k = str_lower name) (map fst hdr))"
proof -
  have "map_option fst (List.find (\<lambda>(k, v). str_lower k = str_lower name) hdr) = List.find (\<lambda>k. str_lower k = str_lower name) (map fst hdr)"
    by (induction hdr) auto
  then show ?thesis by (auto simp: header_key_def map_of_eq_None_iff)
qed

lemma find_append: "List.find P (xs @ ys) = (case List.find P xs of None \<Rightarrow> List.find P ys | Some x \<Rightarrow> Some x)"
  by (induction xs) auto

lemma keys_dict_set: "map fst (dict_set k v d) = (if k \<in> set (map fst d) then map fst d else map fst d @ [k])"
  by (induction d) auto

lemma header_key_set_other:
  "str_lower a \<noteq> str_lower name \<Longrightarrow> header_key (dict_set a v hdr) name = header_key hdr name"
  by (auto simp: header_key_keys keys_dict_set find_append split: option.split)

lemma header_get_set_other:
  assumes "str_lower a \<noteq> str_lower name"
  shows "header_get (dict_set a v hdr) name = header_get hdr name"
proof (cases "header_key hdr name")
  case (Some k)
  with header_key_SomeD [OF Some] assms have "k \<noteq> a" by auto
  with Some show ?thesis by (simp add: header_get_def header_key_set_other [OF assms] map_of_set)
qed (simp add: header_get_def header_key_set_other [OF assms])

lemma header_get_None: "header_get hdr name = None \<longleftrightarrow> header_key hdr name = None"
  using header_key_SomeD by (auto simp: header_get_def split: option.splits)

section \<open>One nonce\<close>

lemma split_str_absent: "\<not> contains_str d s \<Longrightarrow> split_str d buf s = [buf @ s]"
  by (induction d s arbitrary: buf rule: contains_str.induct) (auto simp: starts_with_def)

lemma str_replace_absent: "\<not> contains_str old s \<Longrightarrow> str_replace old new s = s"
  by (simp add: str_replace_def split_str_absent)

lemma read_minted: "read_nonce mint k (Minted v, n) = (replicate k (Some v), (Minted v, n))"
  by (induction k) simp_all

lemma read_armed:
  "read_nonce mint k (Armed, n) = (replicate k (Some (mint n)), (if k = 0 then (Armed, n) else (Minted (mint n), Suc n)))"
  by (cases k) (simp_all add: read_minted)

definition nonce_fixed :: "(nat \<Rightarrow> string) \<Rightarrow> nat \<Rightarrow> nonce_state \<Rightarrow> bool" where
  "nonce_fixed mint n s \<longleftrightarrow> s = (Armed, n) \<or> s = (Minted (mint n), Suc n)"

lemma csp_header_fixed:
  assumes "nonce_fixed mint n s"
  shows "nonce_fixed mint n (snd (csp_header mint header template (hdr, s)))
    \<and> header_get (fst (csp_header mint header template (hdr, s))) header
        = (if header_get hdr header \<noteq> None then header_get hdr header
           else map_option (str_replace nonce_slot_text (nonce_value (mint n))) template)
    \<and> (\<forall>name. str_lower name \<noteq> str_lower header \<longrightarrow>
        header_get (fst (csp_header mint header template (hdr, s))) name = header_get hdr name)"
proof (cases template)
  case None
  then show ?thesis using assms by (auto simp: csp_header_def)
next
  case (Some t)
  show ?thesis
  proof (cases "header_key hdr header = None")
    case True
    then have "header_get hdr header = None" by (simp add: header_get_None)
    with True Some assms show ?thesis
      by (auto simp: csp_header_def nonce_fixed_def str_replace_absent header_get_set_other)
  next
    case False
    then have "header_get hdr header \<noteq> None" by (simp add: header_get_None)
    with False Some assms(1) show ?thesis by (auto simp: csp_header_def)
  qed
qed

text \<open>However often the handler and its templates read the nonce of a request, they read one value, both
  policies name that value and no other, and a policy the handler set itself stands.\<close>

theorem csp_one_nonce:
  assumes "csp_init policy report_only True = Inr c" "csp_needs_nonce c"
    and "read_nonce mint k (csp_request c (slot, n)) = (reads, s)"
    and "csp_response mint c (hdr, s) = (hdr', s')"
  shows "reads = replicate k (Some (mint n)) \<and> snd s' \<le> Suc n
    \<and> header_get hdr' ''Content-Security-Policy'' =
      (if header_get hdr ''Content-Security-Policy'' \<noteq> None then header_get hdr ''Content-Security-Policy''
       else map_option (\<lambda>p. str_replace nonce_slot_text (nonce_value (mint n)) (normalize_csp p)) policy)
    \<and> header_get hdr' ''Content-Security-Policy-Report-Only'' =
      (if header_get hdr ''Content-Security-Policy-Report-Only'' \<noteq> None then header_get hdr ''Content-Security-Policy-Report-Only''
       else map_option (\<lambda>p. str_replace nonce_slot_text (nonce_value (mint n)) (normalize_csp p)) report_only)"
proof -
  let ?f = "str_replace nonce_slot_text (nonce_value (mint n))"
  let ?csp = "''Content-Security-Policy''" and ?ro = "''Content-Security-Policy-Report-Only''"
  have c: "csp_enforce c = map_option normalize_csp policy" "csp_report c = map_option normalize_csp report_only"
    using assms(1) by (auto simp: csp_init_def Let_def split: if_splits)
  have "reads = replicate k (Some (mint n))" "nonce_fixed mint n s"
    using assms(2,3) by (auto simp: csp_request_def read_armed nonce_fixed_def split: if_splits)
  moreover obtain h1 s1 where h1: "csp_header mint ?csp (csp_enforce c) (hdr, s) = (h1, s1)"
    by (cases "csp_header mint ?csp (csp_enforce c) (hdr, s)")
  have other: "str_lower ?ro \<noteq> str_lower ?csp" by (simp add: str_lower_def)
  have one: "nonce_fixed mint n s1" "header_get h1 ?csp = (if header_get hdr ?csp \<noteq> None then header_get hdr ?csp else map_option ?f (csp_enforce c))"
    "header_get h1 ?ro = header_get hdr ?ro"
    using csp_header_fixed [OF \<open>nonce_fixed mint n s\<close>, of ?csp "csp_enforce c" hdr] h1 other by auto
  have two: "csp_header mint ?ro (csp_report c) (h1, s1) = (hdr', s')" using assms(4) h1 by (simp add: csp_response_def)
  have "nonce_fixed mint n s'" "header_get hdr' ?ro = (if header_get h1 ?ro \<noteq> None then header_get h1 ?ro else map_option ?f (csp_report c))"
    "header_get hdr' ?csp = header_get h1 ?csp"
    using csp_header_fixed [OF one(1), of ?ro "csp_report c" h1] two other by auto
  moreover have "map_option ?f (map_option normalize_csp p) = map_option (\<lambda>p. ?f (normalize_csp p)) p" for p
    by (simp add: option.map_comp comp_def)
  ultimately show ?thesis using one c unfolding nonce_fixed_def by auto
qed

definition nonce_policy :: csp_policy where
  "nonce_policy = Directives [(''a'', SourceList [nonce_source])]"

theorem csp_one_nonce_witness:
  "header_get (fst (csp_response (\<lambda>n. ''k'') \<lparr>csp_enforce = Some ''a {nonce}'', csp_report = None, csp_needs_nonce = True\<rparr>
     ([], (Minted ''k'', 1)))) ''Content-Security-Policy'' =
   Some (str_replace nonce_slot_text (nonce_value ''k'') (normalize_csp nonce_policy))"
proof -
  let ?c = "\<lparr>csp_enforce = Some ''a {nonce}'', csp_report = None, csp_needs_nonce = True\<rparr>"
  let ?r = "csp_response (\<lambda>n. ''k'') ?c ([], (Minted ''k'', 1))"
  have c: "csp_init (Some nonce_policy) None True = Inr ?c" by code_simp
  have r: "read_nonce (\<lambda>n. ''k'') 2 (csp_request ?c (Unarmed, 0)) = ([Some ''k'', Some ''k''], (Minted ''k'', 1))"
    by (simp add: csp_request_def numeral_2_eq_2)
  have "csp_response (\<lambda>n. ''k'') ?c ([], (Minted ''k'', 1)) = (fst ?r, snd ?r)" by simp
  from csp_one_nonce [OF c _ r this] show ?thesis by (simp add: header_get_def header_key_def)
qed

section \<open>Trusted hosts\<close>

definition host_name :: "string \<Rightarrow> string" where
  "host_name h = str_lower (if 2 \<le> length (filter (\<lambda>c. c = CHR '':'') h) then h else takeWhile (\<lambda>c. c \<noteq> CHR '':'') h)"

lemma ends_with_iff: "ends_with p s \<longleftrightarrow> (\<exists>q. s = q @ p)"
proof
  assume "ends_with p s"
  then have "s = take (length s - length p) s @ p" by (metis append_take_drop_id ends_with_def)
  then show "\<exists>q. s = q @ p" by blast
qed (auto simp: ends_with_def)

text \<open>A host without brackets is served exactly if it is listed or is covered by a listed wildcard,
  whatever its case and its port.\<close>

theorem trusted_host_exact:
  assumes "th_init listed status = Inr th" "''*'' \<notin> set listed" "CHR ''['' \<notin> set h"
  shows "th_request th False (Some h) = None \<longleftrightarrow>
    (\<exists>a \<in> set listed. if starts_with ''*.'' a then \<exists>p. host_name h = p @ CHR ''.'' # str_lower (drop 2 a)
                       else host_name h = str_lower a)"
proof -
  have host: "extract_host h True = host_name h" using assms(3) by (simp add: extract_host_def host_name_def Let_def)
  have "''*'' \<noteq> str_lower a" if "a \<in> set listed" for a
  proof
    assume "''*'' = str_lower a"
    then obtain c where c: "a = [c]" "lower_char c = CHR ''*''" by (auto simp: str_lower_def)
    then have "c = CHR ''*''" using code_lower_char [of c] by (auto simp: lower_char_def is_upper_char_def split: if_splits)
    with c that assms(2) show False by simp
  qed
  then have "''*'' \<notin> set (map str_lower (filter (\<lambda>h. \<not> starts_with ''*.'' h) listed))" by auto
  then have all: "\<not> th_allow_all th" using assms(1) by (auto simp: th_init_def Let_def split: if_splits)
  have dr: "drop 2 (str_lower a) = str_lower (drop 2 a)" for a by (simp add: str_lower_def drop_map)
  have f: "th_exact th = map str_lower (filter (\<lambda>h. \<not> starts_with ''*.'' h) listed)"
    "th_suffixes th = map (\<lambda>h. CHR ''.'' # drop 2 (str_lower h)) (filter (starts_with ''*.'') listed)"
    using assms(1) by (auto simp: th_init_def Let_def split: if_splits)
  have "is_host_allowed th (host_name h) \<longleftrightarrow> (\<exists>a \<in> set listed. \<not> starts_with ''*.'' a \<and> host_name h = str_lower a)
     \<or> (\<exists>a \<in> set listed. starts_with ''*.'' a \<and> (\<exists>p. host_name h = p @ CHR ''.'' # str_lower (drop 2 a)))"
    using all by (auto simp: is_host_allowed_def f list_ex_iff ends_with_iff dr)
  also have "\<dots> \<longleftrightarrow> (\<exists>a \<in> set listed. if starts_with ''*.'' a then \<exists>p. host_name h = p @ CHR ''.'' # str_lower (drop 2 a)
                       else host_name h = str_lower a)"
    by metis
  finally have "is_host_allowed th (host_name h) \<longleftrightarrow> \<dots>" .
  then show ?thesis by (simp add: th_request_def host)
qed

theorem trusted_host_exact_witness:
  "\<exists>th. th_init [''*.b''] 400 = Inr th \<and> th_request th False (Some ''A.B:8'') = None \<and> th_request th False (Some ''b'') \<noteq> None"
proof -
  obtain th where th: "th_init [''*.b''] 400 = Inr th" by (auto simp: th_init_def Let_def)
  have n: "host_name ''A.B:8'' = ''a.b''" "host_name ''b'' = ''b''" by code_simp+
  have l: "starts_with ''*.'' ''*.b''" "str_lower (drop 2 ''*.b'') = ''b''" by code_simp+
  have "th_request th False (Some ''A.B:8'') = None"
    using trusted_host_exact [OF th, of "''A.B:8''"] l by (simp add: n)
  moreover have "th_request th False (Some ''b'') \<noteq> None"
    using trusted_host_exact [OF th, of "''b''"] l by (simp add: n)
  ultimately show ?thesis using th by blast
qed

text \<open>A bracket anywhere makes \<open>_extract_host\<close> drop the first character and everything from the first
  closing bracket, so any text can follow a listed name.\<close>

theorem bracketed_host_passes:
  assumes "th_init listed status = Inr th" "a \<in> set listed" "\<not> starts_with ''*.'' a" "CHR '']'' \<notin> set (c # a)"
    and "CHR ''['' \<in> set rest"
  shows "th_request th False (Some (c # a @ CHR '']'' # rest)) = None"
proof -
  have "takeWhile (\<lambda>c. c \<noteq> CHR '']'') (c # a @ CHR '']'' # rest) = c # a"
    using assms(4) by (auto intro!: takeWhile_eq_all_conv [THEN iffD2] simp: takeWhile_append)
  then have "extract_host (c # a @ CHR '']'' # rest) True = str_lower a"
    using assms(5) by (simp add: extract_host_def Let_def)
  moreover have "is_host_allowed th (str_lower a)"
    using assms(1-3) by (auto simp: th_init_def Let_def is_host_allowed_def split: if_splits)
  ultimately show ?thesis by (simp add: th_request_def)
qed

text \<open>The upgrade then sends the client where the rest of the header says.\<close>

theorem bracketed_host_redirected:
  "\<exists>th. th_init [''a.b''] 400 = Inr th \<and> th_request th False (Some ''xa.b]@evil.c/['') = None
     \<and> https_redirect (map of_char) []
         \<lparr>ur_mcp = False, ur_secure = False, ur_proxy_fixed = False, ur_forwarded_proto = None,
          ur_host = Some ''xa.b]@evil.c/['', ur_path = ''/'', ur_query = []\<rparr>
       = Inr (Some (308, ''https://xa.b]@evil.c/[/''))"
proof -
  obtain th where th: "th_init [''a.b''] 400 = Inr th" by (auto simp: th_init_def Let_def)
  have "th_request th False (Some ''xa.b]@evil.c/['') = None"
    using bracketed_host_passes [OF th, of "''a.b''" "CHR ''x''" "''@evil.c/[''"] by (simp add: starts_with_def)
  moreover have "https_redirect (map of_char) []
         \<lparr>ur_mcp = False, ur_secure = False, ur_proxy_fixed = False, ur_forwarded_proto = None,
          ur_host = Some ''xa.b]@evil.c/['', ur_path = ''/'', ur_query = []\<rparr>
       = Inr (Some (308, ''https://xa.b]@evil.c/[/''))"
    by code_simp
  ultimately show ?thesis using th by blast
qed

section \<open>Default headers stay defaults\<close>

lemma fold_missing:
  "distinct (map (\<lambda>(k, v). str_lower k) cfg) \<Longrightarrow> \<forall>(k, v) \<in> set cfg. str_lower k \<notin> P \<longrightarrow> k \<notin> set (map fst h) \<Longrightarrow>
   fold (\<lambda>(name, v) h. if str_lower name \<notin> P then dict_set name v h else h) cfg h
     = h @ filter (\<lambda>(k, v). str_lower k \<notin> P) cfg"
proof (induction cfg arbitrary: h)
  case (Cons e cfg)
  obtain k v where e: "e = (k, v)" by (cases e)
  have upd: "dict_set k v h = h @ [(k, v)]" if "k \<notin> set (map fst h)" using that by (induction h) auto
  have "k' \<noteq> k" if "(k', v') \<in> set cfg" for k' v' using Cons.prems(1) e that by force
  then have "\<forall>(k', v') \<in> set cfg. str_lower k' \<notin> P \<longrightarrow> k' \<notin> set (map fst (h @ [(k, v)]))"
    using Cons.prems(2) by fastforce
  with Cons.IH [of "h @ [(k, v)]"] Cons.IH [of h] Cons.prems e upd show ?case by simp
qed simp

lemma filter_names: "name \<in> set (map fst (filter (\<lambda>(k, v). str_lower k \<notin> P) cfg)) \<Longrightarrow> str_lower name \<notin> P"
  by auto

lemma map_of_filter_names: "str_lower k \<notin> P \<Longrightarrow> map_of (filter (\<lambda>(k, v). str_lower k \<notin> P) cfg) k = map_of cfg k"
  by (induction cfg) auto

lemma find_filter_names:
  "str_lower name \<notin> P \<Longrightarrow> List.find (\<lambda>(k, v). str_lower k = str_lower name) (filter (\<lambda>(k, v). str_lower k \<notin> P) cfg)
     = List.find (\<lambda>(k, v). str_lower k = str_lower name) cfg"
  by (induction cfg) auto

lemma sh_response_appends:
  assumes "distinct (map (\<lambda>(k, v). str_lower k) cfg)"
  shows "sh_response cfg hdr = hdr @ filter (\<lambda>(k, v). str_lower k \<notin> str_lower ` fst ` set hdr) cfg"
proof (cases "hdr = []")
  case True
  then show ?thesis using fold_missing [OF assms, of "{}" "[]"] by (simp add: sh_response_def)
next
  case False
  have p: "set (map (\<lambda>(k, v). str_lower k) hdr) = str_lower ` fst ` set hdr" by force
  have "sh_response cfg hdr = fold (\<lambda>(name, v) h. if str_lower name \<notin> set (map (\<lambda>(k, v). str_lower k) hdr) then dict_set name v h else h) cfg hdr"
    using False by (simp only: sh_response_def Let_def if_False)
  also have "\<dots> = hdr @ filter (\<lambda>(k, v). str_lower k \<notin> str_lower ` fst ` set hdr) cfg"
    unfolding p by (rule fold_missing [OF assms]) force
  finally show ?thesis .
qed

lemma lowered_names:
  "str_lower ''X-Content-Type-Options'' = ''x-content-type-options''" "str_lower ''X-Frame-Options'' = ''x-frame-options''"
  "str_lower ''Referrer-Policy'' = ''referrer-policy''" "str_lower ''Strict-Transport-Security'' = ''strict-transport-security''"
  "str_lower ''Content-Security-Policy'' = ''content-security-policy''" "str_lower ''Permissions-Policy'' = ''permissions-policy''"
  by code_simp+

lemma low_set:
  "str_lower k \<notin> set (map (\<lambda>(k, v). str_lower k) h) \<Longrightarrow>
   map (\<lambda>(k, v). str_lower k) (dict_set k v h) = map (\<lambda>(k, v). str_lower k) h @ [str_lower k]"
  by (induction h) auto

lemma low_optional:
  "str_lower k \<notin> set (map (\<lambda>(k, v). str_lower k) h) \<Longrightarrow>
   map (\<lambda>(k, v). str_lower k) (optional_header k v h) = map (\<lambda>(k, v). str_lower k) h @ (if given v then [str_lower k] else [])"
  using low_set [of k h] by (simp add: optional_header_def)

lemma sh_init_distinct: "distinct (map (\<lambda>(k, v). str_lower k) (sh_init a b c d e f g h))"
  by (cases d) (simp_all add: sh_init_def Let_def low_optional low_set lowered_names del: set_map)

text \<open>C1: The hardening headers are defaults: a field the response already carries, under any casing, keeps
  its value, every other configured field is sent with the configured one, and nothing else changes.\<close>

theorem hardening_defaults:
  "header_get (sh_response (sh_init a b c d e f g h) hdr) name =
    (case header_get hdr name of Some v \<Rightarrow> Some v | None \<Rightarrow> header_get (sh_init a b c d e f g h) name)"
proof -
  define cfg where "cfg = sh_init a b c d e f g h"
  have app: "sh_response cfg hdr = hdr @ filter (\<lambda>(k, v). str_lower k \<notin> str_lower ` fst ` set hdr) cfg"
    using sh_init_distinct by (simp add: sh_response_appends cfg_def)
  have "header_get (sh_response cfg hdr) name = (case header_get hdr name of Some v \<Rightarrow> Some v | None \<Rightarrow> header_get cfg name)"
  proof (cases "header_key hdr name")
    case (Some k)
    have "k \<in> fst ` set hdr" using header_key_SomeD [OF Some] by (simp add: map_of_eq_None_iff)
    then have "str_lower name \<in> str_lower ` fst ` set hdr" using header_key_SomeD [OF Some] by (metis imageI)
    then have "name \<notin> set (map fst (filter (\<lambda>(k, v). str_lower k \<notin> str_lower ` fst ` set hdr) cfg))"
      using filter_names by blast
    with Some have "header_key (sh_response cfg hdr) name = Some k"
      by (simp add: app header_key_keys find_append split: if_splits)
    moreover have "map_of hdr k \<noteq> None" using header_key_SomeD [OF Some] by simp
    ultimately show ?thesis using Some by (auto simp: header_get_def app map_add_Some_iff)
  next
    case None
    then have no: "str_lower name \<notin> str_lower ` fst ` set hdr" by (force simp: header_key_None_iff)
    let ?f = "filter (\<lambda>(k, v). str_lower k \<notin> str_lower ` fst ` set hdr) cfg"
    have m: "map_of (hdr @ ?f) k = map_of cfg k" if "str_lower k = str_lower name" for k
    proof -
      have "str_lower k \<notin> str_lower ` fst ` set hdr" using no that by simp
      then have "map_of ?f k = map_of cfg k" by (rule map_of_filter_names)
      moreover have "k \<notin> fst ` set hdr" using no that by (metis imageI)
      then have "map_of hdr k = None" by (simp add: map_of_eq_None_iff)
      ultimately show ?thesis by (simp add: map_add_def)
    qed
    have "List.find (\<lambda>(k, v). str_lower k = str_lower name) (hdr @ ?f) = List.find (\<lambda>(k, v). str_lower k = str_lower name) cfg"
    proof -
      have "List.find (\<lambda>(k, v). str_lower k = str_lower name) hdr = None" using None by (auto simp: find_None_iff header_key_None_iff)
      moreover have "List.find (\<lambda>(k, v). str_lower k = str_lower name) ?f = List.find (\<lambda>(k, v). str_lower k = str_lower name) cfg"
        using no by (rule find_filter_names)
      ultimately show ?thesis by (simp add: find_append)
    qed
    then have "header_key (hdr @ ?f) name = header_key cfg name" by (simp add: header_key_def m del: map_of_append)
    moreover have "map_of (hdr @ ?f) k = map_of cfg k" if "header_key cfg name = Some k" for k
      using header_key_SomeD [OF that] m by simp
    moreover have "header_get hdr name = None" using None by (simp add: header_get_None)
    ultimately show ?thesis by (auto simp: header_get_def app split: option.split simp del: map_of_append)
  qed
  then show ?thesis unfolding cfg_def .
qed

section \<open>WebSocket origins\<close>

lemma gate_all:
  "ws_handshake_rejection mws host origin \<longleftrightarrow>
     (\<exists>m \<in> set mws. (case fst m of None \<Rightarrow> False | Some check \<Rightarrow> \<not> check host)
       \<or> (case snd m of None \<Rightarrow> False | Some check \<Rightarrow> \<not> check origin))"
  by (induction mws) (auto simp del: split_paired_Ex)

text \<open>A handshake that carries an origin reaches the application only if every origin middleware lists that
  origin, up to case and trailing slashes, and every host middleware admits the host.\<close>

theorem ws_gate_lists_origin:
  assumes "\<not> ws_handshake_rejection mws (extract_host host True) origin" "origin \<noteq> []"
  shows "(\<forall>listed missing. (None, Some (is_websocket_origin_allowed (wo_init listed missing))) \<in> set mws \<longrightarrow>
      normal_origin origin \<in> normal_origin ` set listed \<or> ''*'' \<in> normal_origin ` set listed)
    \<and> (\<forall>listed status th. th_init listed status = Inr th \<longrightarrow> (Some (is_host_allowed th), None) \<in> set mws \<longrightarrow>
      th_request th False (Some host) = None)"
proof (intro conjI allI impI)
  fix listed missing
  assume "(None, Some (is_websocket_origin_allowed (wo_init listed missing))) \<in> set mws"
  with assms(1) have "is_websocket_origin_allowed (wo_init listed missing) origin" unfolding gate_all by fastforce
  with assms(2) show "normal_origin origin \<in> normal_origin ` set listed \<or> ''*'' \<in> normal_origin ` set listed"
    by (auto simp: is_websocket_origin_allowed_def wo_init_def Let_def split: if_splits)
next
  fix listed status th
  assume "(Some (is_host_allowed th), None) \<in> set mws"
  with assms(1) have "is_host_allowed th (extract_host host True)" unfolding gate_all by fastforce
  then show "th_request th False (Some host) = None" by (simp add: th_request_def)
qed

end
