(* ===== verification/Rate_Middleware.thy ===== *)
theory Rate_Middleware
  imports Rate_Limit Sliding_Log Header_Set
begin

text \<open>
  \<open>RateLimitMiddleware\<close> of \<open>src/src/veloce/middleware/security.py\<close> around its limiters: how a caller is
  named, which strategy a route has, under which key the backend counts, and what a refusal looks
  like. SHA-256, the fresh identifiers and the answer of an error handler are parameters. The
  strategies are those of one class at a time, as the contract \<open>rate_strategy\<close> has them.
\<close>

section \<open>The caller\<close>

text \<open>What a \<open>key_func\<close> answers: \<open>None\<close>, a string, bytes, or another object.\<close>

datatype 'o named = NoName | TextName string | BytesName string | OtherName 'o

record rl_request =
  rq_client :: "string option"
  rq_forwarded :: "string option"
  rq_agent :: "string option"
  rq_subject :: "string option"
  rq_anon :: "string option"

text \<open>\<open>rq_subject\<close> is the subject of the current principal if the request is a replayed MCP call. The
  second result is the slot \<open>_rl_anon_id\<close> of the request afterwards.\<close>

definition header_text :: "string option \<Rightarrow> string" where
  "header_text v = (case v of None \<Rightarrow> [] | Some s \<Rightarrow> s)"

definition bucket_key :: "(string \<Rightarrow> string) \<Rightarrow> string \<Rightarrow> rl_request \<Rightarrow> string \<times> string option" where
  "bucket_key sha256_hex fresh r =
     (let client = header_text (rq_client r); xff = header_text (rq_forwarded r);
          hop = str_strip (last (split_on (CHR '','') xff)); ua = header_text (rq_agent r)
      in if client \<noteq> [] then (''host:'' @ client, rq_anon r)
         else if xff \<noteq> [] \<and> hop \<noteq> [] then (''xff:'' @ hop, rq_anon r)
         else if ua \<noteq> [] then (''ua:'' @ take 16 (sha256_hex ua), rq_anon r)
         else case rq_subject r of
                Some subject \<Rightarrow> (''sub:'' @ subject, rq_anon r)
              | None \<Rightarrow>
                  (let anon = (case rq_anon r of None \<Rightarrow> fresh | Some a \<Rightarrow> a) in (''scope:'' @ anon, Some anon)))"

definition limiter_caller ::
  "('o \<Rightarrow> string) \<Rightarrow> (string \<Rightarrow> string) \<Rightarrow> (string \<Rightarrow> string) \<Rightarrow> string \<Rightarrow> 'o named option \<Rightarrow> rl_request \<Rightarrow> string \<times> string option" where
  "limiter_caller show_other show_bytes sha256_hex fresh supplied r =
     (case supplied of
        None \<Rightarrow> bucket_key sha256_hex fresh r
      | Some NoName \<Rightarrow> bucket_key sha256_hex fresh r
      | Some (TextName s) \<Rightarrow> if s = [] then bucket_key sha256_hex fresh r else (''key:'' @ s, rq_anon r)
      | Some (BytesName b) \<Rightarrow>
          if b = [] then bucket_key sha256_hex fresh r
          else (''key:'' @ show_bytes b, rq_anon r)
      | Some (OtherName x) \<Rightarrow> (''key:'' @ show_other x, rq_anon r))"

section \<open>The strategy of a route\<close>

text \<open>The per-route map and the generation of the route table it was built from.\<close>

record 'p route_strategies =
  rs_map :: "(string, 'p) dict option"
  rs_gen :: int

text \<open>The routes of the application: each template with the strategy its handler is tagged with.\<close>

definition collect_route_strategies :: "(string \<times> 'p option) list \<Rightarrow> (string, 'p) dict" where
  "collect_route_strategies routes =
     foldl (\<lambda>d (template, tag). case tag of None \<Rightarrow> d | Some p \<Rightarrow> dict_set template p d) [] routes"

definition build_route_strategies ::
  "(string, 'p) dict option \<Rightarrow> (string \<times> 'p option) list \<Rightarrow> (string, 'p) dict" where
  "build_route_strategies overrides routes =
     (let combined = collect_route_strategies routes
      in case overrides of None \<Rightarrow> combined | Some ov \<Rightarrow> foldl (\<lambda>d (k, p). dict_set k p d) combined ov)"

definition route_override ::
  "(string, 'p) dict option \<Rightarrow> (int \<times> (string \<times> 'p option) list) option \<Rightarrow> string option
     \<Rightarrow> 'p route_strategies \<Rightarrow> 'p option \<times> 'p route_strategies" where
  "route_override overrides app url_rule st =
     (let (per_route, st1) =
            (if rs_map st = None \<or> map_option fst app \<noteq> Some (rs_gen st)
             then case app of
                    None \<Rightarrow> ([], st)
                  | Some (gen, routes) \<Rightarrow>
                      (let combined = build_route_strategies overrides routes
                       in (combined, st\<lparr>rs_map := Some combined, rs_gen := gen\<rparr>))
             else (the (rs_map st), st))
      in (case url_rule of None \<Rightarrow> None | Some rule \<Rightarrow> map_of per_route rule, st1))"

section \<open>The request\<close>

text \<open>The key in the backend and the strategy, once the override of the route is known.\<close>

definition budget_key :: "'p option \<Rightarrow> string option \<Rightarrow> string \<Rightarrow> string" where
  "budget_key override url_rule caller =
     (case override of None \<Rightarrow> caller | Some p \<Rightarrow> the url_rule @ CHR 0x00 # caller)"

definition process_strategy ::
  "('p \<Rightarrow> 's option \<Rightarrow> time \<Rightarrow> rl_result \<times> 's \<times> int) \<Rightarrow> 'p option \<Rightarrow> string option \<Rightarrow> 'p \<Rightarrow> string \<Rightarrow> time
     \<Rightarrow> 's rl_backend \<Rightarrow> rl_result \<times> 's rl_backend" where
  "process_strategy evaluate override url_rule strategy caller now b =
     be_evaluate (evaluate (case override of None \<Rightarrow> strategy | Some p \<Rightarrow> p))
       (budget_key override url_rule caller) now b"

text \<open>The 429: the answer of an error handler, or the plain one, with the headers that say when to come
  back.\<close>

definition apply_headers :: "int \<Rightarrow> int \<Rightarrow> int \<Rightarrow> headers \<Rightarrow> headers" where
  "apply_headers limit rest reset hdr =
     dict_set ''X-RateLimit-Reset'' (str_int reset)
       (dict_set ''X-RateLimit-Remaining'' (str_int rest) (dict_set ''X-RateLimit-Limit'' (str_int limit) hdr))"

definition refuse :: "response option \<Rightarrow> int \<Rightarrow> int \<Rightarrow> int \<Rightarrow> response" where
  "refuse handled retry limit reset =
     (let rejected = (case handled of
            Some r \<Rightarrow> r
          | None \<Rightarrow> \<lparr>rs_status = 429, rs_body = ''Too Many Requests'', rs_headers = [], rs_encoded = False\<rparr>);
          hdr = (if \<not> (300 \<le> rs_status rejected \<and> rs_status rejected < 400)
                 then dict_set ''Retry-After'' (str_int retry) (rs_headers rejected) else rs_headers rejected)
      in rejected\<lparr>rs_headers := apply_headers limit 0 reset hdr\<rparr>)"

text \<open>The middleware: one of the two limiters, and the backend of the tagged routes.\<close>

record ('p, 's) rate_mw =
  mw_strategy :: "'p option"
  mw_overrides :: "(string, 'p) dict option"
  mw_routes :: "'p route_strategies"
  mw_backend :: "'s rl_backend option"
  mw_log :: "slog option"

definition mw_init ::
  "int \<Rightarrow> int \<Rightarrow> 'p option \<Rightarrow> 's rl_backend option \<Rightarrow> (string, 'p) dict option \<Rightarrow> nat \<Rightarrow> time \<Rightarrow> ('p, 's) rate_mw res" where
  "mw_init max_requests window strategy backend overrides max_keys now =
     (if max_keys < 1 then Inl ValueError
      else
        (let m = \<lparr>mw_strategy = strategy, mw_overrides = None, mw_routes = \<lparr>rs_map = None, rs_gen = -1\<rparr>,
                  mw_backend = None, mw_log = None\<rparr>
         in case strategy of
              None \<Rightarrow>
                if backend \<noteq> None then Inl ValueError else if overrides \<noteq> None then Inl ValueError
                else Inr (m\<lparr>mw_log := Some (slog_init max_requests window max_keys now)\<rparr>)
            | Some p \<Rightarrow>
                let ov = (if overrides = None \<or> overrides = Some [] then None else overrides)
                in case backend of
                     None \<Rightarrow> res_bind (be_init max_keys) (\<lambda>b. Inr (m\<lparr>mw_backend := Some b, mw_overrides := ov\<rparr>))
                   | Some b \<Rightarrow> if max_keys \<noteq> 100000 then Inl ValueError
                              else Inr (m\<lparr>mw_backend := Some b, mw_overrides := ov\<rparr>)))"

text \<open>An admitted request carries its result, or the bucket of the log, to the response; a refused one the
  arguments of the refusal: the seconds to wait, the limit and the reset.\<close>

datatype mw_answer = Passed rl_result | PassedLog string | Rejected int int int

definition mw_evaluate ::
  "('p \<Rightarrow> 's option \<Rightarrow> time \<Rightarrow> rl_result \<times> 's \<times> int) \<Rightarrow> (int \<times> (string \<times> 'p option) list) option \<Rightarrow> string option
     \<Rightarrow> 'p \<Rightarrow> string \<Rightarrow> time \<Rightarrow> ('p, 's) rate_mw \<Rightarrow> mw_answer \<times> ('p, 's) rate_mw" where
  "mw_evaluate evaluate app url_rule strategy caller wall m =
     (let (override, st) = route_override (mw_overrides m) app url_rule (mw_routes m);
          (r, b) = process_strategy evaluate override url_rule strategy caller wall (the (mw_backend m));
          m1 = m\<lparr>mw_routes := st, mw_backend := Some b\<rparr>
      in (if \<not> allowed r then Rejected (retry_after r) (rl_limit r) (rl_reset r) else Passed r, m1))"

definition mw_request ::
  "('p \<Rightarrow> 's option \<Rightarrow> time \<Rightarrow> rl_result \<times> 's \<times> int) \<Rightarrow> (int \<times> (string \<times> 'p option) list) option \<Rightarrow> string option
     \<Rightarrow> string \<Rightarrow> time \<Rightarrow> time \<Rightarrow> ('p, 's) rate_mw \<Rightarrow> mw_answer option \<times> ('p, 's) rate_mw" where
  "mw_request evaluate app url_rule caller wall monotonic m =
     (case mw_strategy m of
        Some p \<Rightarrow> map_prod Some id (mw_evaluate evaluate app url_rule p caller wall m)
      | None \<Rightarrow>
          (case mw_log m of
             None \<Rightarrow> (None, m)
           | Some sl \<Rightarrow>
               (let (tagged, st) = route_override (mw_overrides m) app url_rule (mw_routes m); m1 = m\<lparr>mw_routes := st\<rparr>
                in case tagged of
                     Some p \<Rightarrow>
                       (let m2 = (if mw_backend m1 = None
                                  then m1\<lparr>mw_backend := Some \<lparr>be_states = [], be_max_keys = sl_max_keys sl\<rparr>\<rparr> else m1)
                        in map_prod Some id (mw_evaluate evaluate app url_rule p caller wall m2))
                   | None \<Rightarrow>
                       (let (answer, sl1) = slog_check monotonic caller sl; m2 = m1\<lparr>mw_log := Some sl1\<rparr>
                        in case answer of
                             Admitted \<Rightarrow> (Some (PassedLog caller), m2)
                           | Refused retry reset \<Rightarrow> (Some (Rejected retry (sl_max_requests sl) reset), m2)))))"

text \<open>A run of requests: the route each matched, its caller and its time.\<close>

fun mw_run ::
  "('p \<Rightarrow> 's option \<Rightarrow> time \<Rightarrow> rl_result \<times> 's \<times> int) \<Rightarrow> (string, 'p) dict \<Rightarrow> 'p
     \<Rightarrow> (string option \<times> string \<times> time) list \<Rightarrow> 's rl_backend \<Rightarrow> rl_result list" where
  "mw_run evaluate per_route strategy [] b = []"
| "mw_run evaluate per_route strategy ((rule, caller, now) # reqs) b =
     (let (r, b') = process_strategy evaluate (Option.bind rule (map_of per_route)) rule strategy caller now b
      in r # mw_run evaluate per_route strategy reqs b')"

section \<open>Names and budgets never meet\<close>

definition caller_kinds :: "string list" where
  "caller_kinds = [''host:'', ''xff:'', ''ua:'', ''sub:'', ''scope:'', ''key:'']"

definition plain_caller :: "string \<Rightarrow> bool" where
  "plain_caller caller \<longleftrightarrow> (\<exists>k \<in> set caller_kinds. \<exists>x. caller = k @ x)"

lemma plain_kinds:
  "plain_caller (''host:'' @ x)" "plain_caller (''xff:'' @ x)" "plain_caller (''ua:'' @ x)" "plain_caller (''sub:'' @ x)"
  "plain_caller (''scope:'' @ x)" "plain_caller (''key:'' @ x)"
  unfolding plain_caller_def by (rule bexI [where P = "\<lambda>k. \<exists>y. _ = k @ y"], rule exI, rule refl, simp add: caller_kinds_def)+

lemma bucket_key_plain: "plain_caller (fst (bucket_key sha256_hex fresh r))"
  unfolding bucket_key_def Let_def by (simp only: plain_kinds fst_conv split: if_split option.split) simp

lemma limiter_caller_plain: "plain_caller (fst (limiter_caller show_other show_bytes sha256_hex fresh supplied r))"
  unfolding limiter_caller_def
  by (simp only: plain_kinds bucket_key_plain fst_conv split: if_split option.split named.split) simp

lemma plain_caller_no_slash: "plain_caller caller \<Longrightarrow> \<not> starts_with ''/'' caller"
  by (auto simp: plain_caller_def caller_kinds_def starts_with_def)

text \<open>The budget of a request: its own route, if that has a strategy of its own, and its caller.\<close>

definition budget :: "(string, 'p) dict \<Rightarrow> string option \<times> string \<times> time \<Rightarrow> string option \<times> string" where
  "budget per_route q = (case q of (rule, caller, now) \<Rightarrow>
     (if Option.bind rule (map_of per_route) = None then None else rule, caller))"

definition request_key :: "(string, 'p) dict \<Rightarrow> string option \<times> string \<times> time \<Rightarrow> string" where
  "request_key per_route q = (case q of (rule, caller, now) \<Rightarrow> budget_key (Option.bind rule (map_of per_route)) rule caller)"

definition key_strategy :: "(string, 'p) dict \<Rightarrow> 'p \<Rightarrow> string \<Rightarrow> 'p" where
  "key_strategy per_route strategy key =
     (if CHR 0x00 \<in> set key
      then case map_of per_route (takeWhile (\<lambda>c. c \<noteq> CHR 0x00) key) of None \<Rightarrow> strategy | Some p \<Rightarrow> p
      else strategy)"

text \<open>Route templates start with a slash and have no NUL; callers do not start with a slash.\<close>

definition plain_routes :: "(string, 'p) dict \<Rightarrow> bool" where
  "plain_routes per_route \<longleftrightarrow> list_all (\<lambda>(k, p). starts_with ''/'' k \<and> CHR 0x00 \<notin> set k) per_route"

lemma takeWhile_nul: "CHR 0x00 \<notin> set rule \<Longrightarrow> takeWhile (\<lambda>c. c \<noteq> CHR 0x00) (rule @ CHR 0x00 # caller) = rule"
  by (induction rule) auto

lemma request_strategy:
  assumes "plain_routes per_route" "plain_caller caller"
  shows "key_strategy per_route strategy (request_key per_route (rule, caller, now))
    = (case Option.bind rule (map_of per_route) of None \<Rightarrow> strategy | Some p \<Rightarrow> p)"
proof (cases "Option.bind rule (map_of per_route)")
  case None
  have "map_of per_route (takeWhile (\<lambda>c. c \<noteq> CHR 0x00) caller) = None"
  proof (rule ccontr)
    assume "map_of per_route (takeWhile (\<lambda>c. c \<noteq> CHR 0x00) caller) \<noteq> None"
    then have "starts_with ''/'' (takeWhile (\<lambda>c. c \<noteq> CHR 0x00) caller)"
      using assms(1) by (auto simp: plain_routes_def list_all_iff dest: map_of_SomeD)
    then have "starts_with ''/'' caller" by (cases caller) (auto simp: starts_with_def split: if_splits)
    with plain_caller_no_slash [OF assms(2)] show False by simp
  qed
  with None show ?thesis by (simp add: key_strategy_def request_key_def budget_key_def)
next
  case (Some p)
  then obtain r where r: "rule = Some r" "map_of per_route r = Some p" by (cases rule) auto
  then have "CHR 0x00 \<notin> set r" using assms(1) by (auto simp: plain_routes_def list_all_iff dest: map_of_SomeD)
  with Some r show ?thesis by (simp add: key_strategy_def request_key_def budget_key_def takeWhile_nul)
qed

fun budget_text :: "string option \<times> string \<Rightarrow> string" where
  "budget_text (None, caller) = caller"
| "budget_text (Some r, caller) = r @ CHR 0x00 # caller"

lemma request_key_text: "request_key per_route q = budget_text (budget per_route q)"
  by (cases q; cases "fst q") (auto simp: request_key_def budget_def budget_key_def split: option.split)

lemma request_key_budget:
  assumes "plain_routes per_route" "plain_caller c1" "plain_caller c2"
  shows "request_key per_route (r1, c1, t1) = request_key per_route (r2, c2, t2)
    \<longleftrightarrow> budget per_route (r1, c1, t1) = budget per_route (r2, c2, t2)"
proof -
  have route: "starts_with ''/'' r \<and> CHR 0x00 \<notin> set r" if "map_of per_route r = Some p" for r p
    using assms(1) that by (auto simp: plain_routes_def list_all_iff dest: map_of_SomeD)
  have mixed: "r @ CHR 0x00 # c \<noteq> c'" if "map_of per_route r = Some p" "plain_caller c'" for r p c c'
  proof
    assume "r @ CHR 0x00 # c = c'"
    then have "starts_with ''/'' c'" using route [OF that(1)] by (cases r) (auto simp: starts_with_def)
    with plain_caller_no_slash [OF that(2)] show False by simp
  qed
  have both: "r @ CHR 0x00 # c = r' @ CHR 0x00 # c' \<longleftrightarrow> r = r' \<and> c = c'"
    if "map_of per_route r = Some p" "map_of per_route r' = Some p'" for r r' p p' c c'
    using takeWhile_nul [of r c] takeWhile_nul [of r' c'] route [OF that(1)] route [OF that(2)] by auto
  have inj: "budget_text u = budget_text v \<longleftrightarrow> u = v"
    if "fst u \<noteq> None \<Longrightarrow> \<exists>p. map_of per_route (the (fst u)) = Some p" "fst v \<noteq> None \<Longrightarrow> \<exists>p. map_of per_route (the (fst v)) = Some p"
      "plain_caller (snd u)" "plain_caller (snd v)" for u v
  proof (cases "fst u"; cases "fst v")
    fix r assume "fst u = None" "fst v = Some r"
    with that mixed [OF _ that(3), of r _ "snd v"] show ?thesis by (cases u; cases v) auto
  next
    fix r assume "fst u = Some r" "fst v = None"
    with that mixed [OF _ that(4), of r _ "snd u"] show ?thesis by (cases u; cases v) auto
  next
    fix r r' assume "fst u = Some r" "fst v = Some r'"
    with that both [of r _ r' _ "snd u" "snd v"] show ?thesis by (cases u; cases v) auto
  qed (cases u; cases v; simp)
  have ok: "fst (budget per_route (r, c, t)) \<noteq> None \<Longrightarrow> \<exists>p. map_of per_route (the (fst (budget per_route (r, c, t)))) = Some p"
    "snd (budget per_route (r, c, t)) = c" for r c t
    by (cases r; auto simp: budget_def split: if_splits)+
  show ?thesis unfolding request_key_text by (rule inj) (use assms(2,3) ok(1) in \<open>simp_all add: ok(2)\<close>)
qed

lemma mw_run_keys:
  assumes "plain_routes per_route"
  shows "list_all (\<lambda>(rule, caller, now). plain_caller caller) reqs \<Longrightarrow>
    mw_run evaluate per_route strategy reqs b
      = be_run_by (\<lambda>k. evaluate (key_strategy per_route strategy k)) (map (\<lambda>q. (request_key per_route q, snd (snd q))) reqs) b"
proof (induction reqs arbitrary: b)
  case (Cons q reqs)
  obtain rule caller now where q: "q = (rule, caller, now)" by (cases q)
  then have "plain_caller caller" using Cons.prems by simp
  from request_strategy [OF assms this, of strategy rule now] q Cons show ?case
    by (simp add: process_strategy_def request_key_def)
qed simp

text \<open>While the routes stay as they are, the cached map is the one that would be built now, and a request is
  the step of a run.\<close>

definition routes_current :: "(string, 'p) dict option \<Rightarrow> int \<times> (string \<times> 'p option) list \<Rightarrow> 'p route_strategies \<Rightarrow> bool" where
  "routes_current overrides app st \<longleftrightarrow>
     (rs_map st \<noteq> None \<longrightarrow> rs_gen st = fst app \<longrightarrow> rs_map st = Some (build_route_strategies overrides (snd app)))"

lemma route_override_current:
  assumes "routes_current overrides app st"
  shows "fst (route_override overrides (Some app) rule st) = Option.bind rule (map_of (build_route_strategies overrides (snd app)))"
    and "routes_current overrides app (snd (route_override overrides (Some app) rule st))"
  using assms by (cases app; auto simp: route_override_def routes_current_def Let_def split: option.split)+

lemma mw_evaluate_step:
  assumes "routes_current (mw_overrides m) app (mw_routes m)" "mw_backend m = Some b"
    and "process_strategy evaluate (Option.bind rule (map_of (build_route_strategies (mw_overrides m) (snd app)))) rule strategy caller now b = (r, b')"
    and "mw_evaluate evaluate (Some app) rule strategy caller now m = (answer, m')"
  shows "(answer = Passed r \<longleftrightarrow> allowed r) \<and> mw_backend m' = Some b' \<and> mw_overrides m' = mw_overrides m
    \<and> routes_current (mw_overrides m') app (mw_routes m')"
proof -
  obtain st where st: "route_override (mw_overrides m) (Some app) rule (mw_routes m)
      = (Option.bind rule (map_of (build_route_strategies (mw_overrides m) (snd app))), st)" "routes_current (mw_overrides m) app st"
    using route_override_current [OF assms(1), of rule] by (metis prod.collapse)
  with assms(2-4) show ?thesis by (auto simp: mw_evaluate_def split: if_splits)
qed

section \<open>Every budget on its own\<close>

definition budget_strategy :: "(string, 'p) dict \<Rightarrow> 'p \<Rightarrow> string option \<times> string \<Rightarrow> 'p" where
  "budget_strategy per_route strategy u = (case fst u of None \<Rightarrow> strategy | Some r \<Rightarrow> the (map_of per_route r))"

lemma key_strategy_budget:
  assumes "plain_routes per_route" "plain_caller caller"
  shows "key_strategy per_route strategy (request_key per_route (rule, caller, now))
    = budget_strategy per_route strategy (budget per_route (rule, caller, now))"
  by (cases rule) (auto simp: request_strategy [OF assms] budget_strategy_def budget_def split: option.split)

lemma filter_zip_keys:
  "map snd (filter (\<lambda>((k, t), r). k = key) (zip (map (\<lambda>q. (f q, g q)) qs) rs)) = map snd (filter (\<lambda>(q, r). f q = key) (zip qs rs))"
  by (simp add: zip_map1 filter_map comp_def case_prod_unfold)

context rate_strategy
begin

lemma budgets_isolated:
  assumes ok: "ok strategy" "\<forall>(k, p) \<in> set per_route. ok p"
    and plain: "plain_routes per_route" "list_all (\<lambda>(rule, caller, now). plain_caller caller) reqs"
    and b: "be_init n = Inr b" "card (budget per_route ` set reqs) \<le> n" and times: "sorted (map (\<lambda>q. snd (snd q)) reqs)"
  shows "map snd (filter (\<lambda>(q, r). budget per_route q = u) (zip reqs (mw_run evaluate per_route strategy reqs b)))
    = client_run (evaluate (budget_strategy per_route strategy u)) (map (\<lambda>q. snd (snd q)) (filter (\<lambda>q. budget per_route q = u) reqs)) None"
proof (cases "\<exists>q \<in> set reqs. budget per_route q = u")
  case False
  then show ?thesis by (auto simp: filter_empty_conv dest: set_zip_leftD)
next
  case True
  then obtain q0 where q0: "q0 \<in> set reqs" "budget per_route q0 = u" by blast
  let ?keys = "map (\<lambda>q. (request_key per_route q, snd (snd q))) reqs"
  let ?f = "key_strategy per_route strategy"
  have caller: "plain_caller (fst (snd q))" if "q \<in> set reqs" for q using plain(2) that by (auto simp: list_all_iff)
  have key: "request_key per_route q = request_key per_route q0 \<longleftrightarrow> budget per_route q = u" if "q \<in> set reqs" for q
    using request_key_budget [OF plain(1) caller [OF that] caller [OF q0(1)], of "fst q" "snd (snd q)" "fst q0" "snd (snd q0)"] q0(2)
    by simp
  have strat: "?f (request_key per_route q) = budget_strategy per_route strategy (budget per_route q)" if "q \<in> set reqs" for q
    using key_strategy_budget [OF plain(1) caller [OF that], of strategy "fst q" "snd (snd q)"] by simp
  have good: "ok (?f k)" for k
    using ok by (auto simp: key_strategy_def split: option.split dest: map_of_SomeD)
  have "card (fst ` set ?keys) \<le> card (budget per_route ` set reqs)"
  proof -
    have "fst ` set ?keys = budget_text ` budget per_route ` set reqs" by (force simp: request_key_text)
    then show ?thesis by (simp add: card_image_le)
  qed
  then have "be_run_by (\<lambda>k. evaluate (?f k)) ?keys b = ideal_run_by (\<lambda>k. evaluate (?f k)) ?keys (\<lambda>_. None)"
    using fresh_backend_refines_by [OF good b(1), of ?keys] b(2) times by (simp add: comp_def)
  then have run: "mw_run evaluate per_route strategy reqs b = ideal_run_by (\<lambda>k. evaluate (?f k)) ?keys (\<lambda>_. None)"
    by (simp add: mw_run_keys [OF plain])
  have "map snd (filter (\<lambda>(q, r). request_key per_route q = request_key per_route q0) (zip reqs (mw_run evaluate per_route strategy reqs b)))
    = client_run (evaluate (?f (request_key per_route q0))) (map snd (filter (\<lambda>(k, t). k = request_key per_route q0) ?keys)) None"
    unfolding run filter_zip_keys [symmetric, where g = "\<lambda>q. snd (snd q)"] by (rule ideal_run_client_answers)
  moreover have "filter (\<lambda>(q, r). request_key per_route q = request_key per_route q0) (zip reqs rs)
    = filter (\<lambda>(q, r). budget per_route q = u) (zip reqs rs)" for rs :: "rl_result list"
    using key by (auto intro!: filter_cong dest: set_zip_leftD)
  moreover have "map snd (filter (\<lambda>(k, t). k = request_key per_route q0) ?keys) = map (\<lambda>q. snd (snd q)) (filter (\<lambda>q. budget per_route q = u) reqs)"
    using filter_cong [OF refl key, of reqs] by (simp add: filter_map comp_def)
  ultimately show ?thesis using strat [OF q0(1)] q0(2) by simp
qed

end


definition peer :: "string \<Rightarrow> rl_request" where
  "peer h = \<lparr>rq_client = Some h, rq_forwarded = None, rq_agent = None, rq_subject = None, rq_anon = None\<rparr>"

lemma peer_key: "h \<noteq> [] \<Longrightarrow> fst (limiter_caller show_other show_bytes sha256_hex fresh None (peer h)) = ''host:'' @ h"
  by (simp add: limiter_caller_def bucket_key_def peer_def header_text_def)

definition two_routes :: "(string option \<times> string \<times> time) list" where
  "two_routes = [(Some ''/a'', ''host:x'', 0), (None, ''host:x'', 1), (Some ''/a'', ''host:x'', 2)]"


end
