(* ===== verification/Py_Code.thy ===== *)
theory Py_Code
  imports Header_Set
begin

text \<open>
  Code with effects: a program takes a state and returns an exception or a value together with the state
  it leaves. The combinators are Python's: sequencing, \<open>raise\<close>, \<open>try/except\<close>, \<open>try/finally\<close>, and
  the three loops the dispatcher uses. An exception carries its class and, for an \<open>HTTPException\<close>, the
  status, the detail and the headers.
\<close>

record exn =
  ex_class :: string
  ex_http :: "(nat \<times> string \<times> headers) option"

type_synonym ('s, 'a) code = "'s \<Rightarrow> (exn + 'a) \<times> 's"

definition ret :: "'a \<Rightarrow> ('s, 'a) code" where
  "ret x s = (Inr x, s)"

definition raise :: "exn \<Rightarrow> ('s, 'a) code" where
  "raise e s = (Inl e, s)"

definition bindc :: "('s, 'a) code \<Rightarrow> ('a \<Rightarrow> ('s, 'b) code) \<Rightarrow> ('s, 'b) code" where
  "bindc c f s = (case c s of (Inl e, s') \<Rightarrow> (Inl e, s') | (Inr x, s') \<Rightarrow> f x s')"

definition seqc :: "('s, 'a) code \<Rightarrow> ('s, 'b) code \<Rightarrow> ('s, 'b) code" where
  "seqc c d = bindc c (\<lambda>_. d)"

definition catch :: "('s, 'a) code \<Rightarrow> (exn \<Rightarrow> ('s, 'a) code) \<Rightarrow> ('s, 'a) code" where
  "catch c h s = (case c s of (Inl e, s') \<Rightarrow> h e s' | (Inr x, s') \<Rightarrow> (Inr x, s'))"

definition finally_do :: "('s, 'a) code \<Rightarrow> ('s, unit) code \<Rightarrow> ('s, 'a) code" where
  "finally_do c d s = (case c s of (r, s') \<Rightarrow> (case d s' of (Inl e, s'') \<Rightarrow> (Inl e, s'') | (Inr u, s'') \<Rightarrow> (r, s'')))"

definition gets :: "('s \<Rightarrow> 'a) \<Rightarrow> ('s, 'a) code" where
  "gets f s = (Inr (f s), s)"

definition modify :: "('s \<Rightarrow> 's) \<Rightarrow> ('s, unit) code" where
  "modify f s = (Inr (), f s)"

definition lift_res :: "exn + 'a \<Rightarrow> ('s, 'a) code" where
  "lift_res r s = (r, s)"

text \<open>A loop of steps; a loop that returns the first answer; a loop that hands a value on.\<close>

fun for_each :: "('a \<Rightarrow> ('s, unit) code) \<Rightarrow> 'a list \<Rightarrow> ('s, unit) code" where
  "for_each f [] = ret ()"
| "for_each f (x # xs) = seqc (f x) (for_each f xs)"

fun first_answer :: "('a \<Rightarrow> ('s, 'b option) code) \<Rightarrow> 'a list \<Rightarrow> ('s, 'b option) code" where
  "first_answer f [] = ret None"
| "first_answer f (x # xs) = bindc (f x) (\<lambda>r. case r of Some y \<Rightarrow> ret (Some y) | None \<Rightarrow> first_answer f xs)"

fun hand_on :: "('a \<Rightarrow> 'b \<Rightarrow> ('s, 'b) code) \<Rightarrow> 'a list \<Rightarrow> 'b \<Rightarrow> ('s, 'b) code" where
  "hand_on f [] y = ret y"
| "hand_on f (x # xs) y = bindc (f x y) (hand_on f xs)"

named_theorems code_simps "what the combinators do to a state"

lemma ret_run [code_simps]: "ret x s = (Inr x, s)" by (simp add: ret_def)
lemma raise_run [code_simps]: "raise e s = (Inl e, s)" by (simp add: raise_def)
lemma gets_run [code_simps]: "gets f s = (Inr (f s), s)" by (simp add: gets_def)
lemma modify_run [code_simps]: "modify f s = (Inr (), f s)" by (simp add: modify_def)
lemma lift_run [code_simps]: "lift_res r s = (r, s)" by (simp add: lift_res_def)

lemma bind_run [code_simps]:
  "c s = (Inl e, s') \<Longrightarrow> bindc c f s = (Inl e, s')" "c s = (Inr x, s') \<Longrightarrow> bindc c f s = f x s'"
  by (simp_all add: bindc_def)

lemma seq_run [code_simps]:
  "c s = (Inl e, s') \<Longrightarrow> seqc c d s = (Inl e, s')" "c s = (Inr x, s') \<Longrightarrow> seqc c d s = d s'"
  by (simp_all add: seqc_def bindc_def)

lemma catch_run [code_simps]:
  "c s = (Inl e, s') \<Longrightarrow> catch c h s = h e s'" "c s = (Inr x, s') \<Longrightarrow> catch c h s = (Inr x, s')"
  by (simp_all add: catch_def)

lemma bind_ret [simp]: "bindc (ret x) f = f x"
  by (simp add: bindc_def ret_def fun_eq_iff)

lemma bind_gets: "bindc (gets g) f s = f (g s) s"
  by (simp add: bindc_def gets_def)

lemma seq_modify: "seqc (modify g) d s = d (g s)"
  by (simp add: seqc_def bindc_def modify_def)

lemma seq_ret [simp]: "seqc (ret x) d = d"
  by (simp add: seqc_def)

section \<open>What a program leaves invariant\<close>

text \<open>A relation between the state before and the state after, whatever the outcome.\<close>

definition keeps :: "('s \<Rightarrow> 's \<Rightarrow> bool) \<Rightarrow> ('s, 'a) code \<Rightarrow> bool" where
  "keeps R c \<longleftrightarrow> (\<forall>s. R s (snd (c s)))"

named_theorems keeps_intros "how the combinators keep a preorder"

locale kept =
  fixes R :: "'s \<Rightarrow> 's \<Rightarrow> bool"
  assumes refl: "R s s" and trans: "R s t \<Longrightarrow> R t u \<Longrightarrow> R s u"
begin

lemma keeps_ret: "keeps R (ret x)" and keeps_raise: "keeps R (raise e)" and keeps_gets: "keeps R (gets f)"
  and keeps_lift: "keeps R (lift_res r)"
  by (simp_all add: keeps_def ret_def raise_def gets_def lift_res_def refl)

lemma keeps_bind: "keeps R c \<Longrightarrow> (\<And>x. keeps R (f x)) \<Longrightarrow> keeps R (bindc c f)"
  unfolding keeps_def bindc_def by (auto split: prod.split sum.split intro: trans) (metis snd_conv trans)+

lemma keeps_seq: "keeps R c \<Longrightarrow> keeps R d \<Longrightarrow> keeps R (seqc c d)"
  unfolding seqc_def by (rule keeps_bind)

lemma keeps_catch: "keeps R c \<Longrightarrow> (\<And>e. keeps R (h e)) \<Longrightarrow> keeps R (catch c h)"
  unfolding keeps_def catch_def by (auto split: prod.split sum.split intro: trans) (metis snd_conv trans)+

lemma keeps_finally: "keeps R c \<Longrightarrow> keeps R d \<Longrightarrow> keeps R (finally_do c d)"
  unfolding keeps_def finally_do_def by (auto split: prod.split sum.split) (metis snd_conv trans)+

lemma keeps_for_each: "(\<And>x. keeps R (f x)) \<Longrightarrow> keeps R (for_each f xs)"
  by (induction xs) (auto intro: keeps_ret keeps_seq)

lemma keeps_first_answer: "(\<And>x. keeps R (f x)) \<Longrightarrow> keeps R (first_answer f xs)"
  by (induction xs) (auto intro!: keeps_ret keeps_bind split: option.split)

lemma keeps_hand_on: "(\<And>x y. keeps R (f x y)) \<Longrightarrow> keeps R (hand_on f xs y)"
  by (induction xs arbitrary: y) (auto intro!: keeps_ret keeps_bind)

lemma keeps_if: "keeps R c \<Longrightarrow> keeps R d \<Longrightarrow> keeps R (if b then c else d)"
  by simp

lemmas keeps_rules = keeps_ret keeps_raise keeps_gets keeps_lift keeps_bind keeps_seq keeps_catch keeps_finally
  keeps_for_each keeps_first_answer keeps_hand_on keeps_if

end

end
