(* ===== verification/Dispatch.thy ===== *)
theory Dispatch
  imports Py_Code Cookies Proxy_Fix Hardening
begin

text \<open>
  The request pipeline of \<open>src/src/veloce/app/dispatch.py\<close>, with the handler tables of
  \<open>app/errors.py\<close>, the teardown hooks of \<open>app/lifecycle.py\<close>, the compiled flags of
  \<open>_pipeline.py\<close> and \<open>_endpoint_blueprint\<close> of \<open>blueprints.py\<close>.

  What the application supplies - middleware, hooks, handlers, dependencies, mounted applications,
  static handlers - is arbitrary code over the request and a state of its own; the dispatcher calls
  it through \<open>call\<close>, which records the call. So the recorded calls are those of the dispatcher and
  no supplied code can forge one. The local variables of \<open>_dispatch_request\<close> that its \<open>except\<close> and
  \<open>finally\<close> read are fields of the environment. JSON texts are parameters; signals, logging,
  instrumentation and background tasks are left out.
\<close>

section \<open>The environment\<close>

record http_request =
  hq_method :: string
  hq_path :: string
  hq_root_path :: string
  hq_host :: "string option"
  hq_subdomain :: string
  hq_endpoint :: "string option"
  hq_url_rule :: "string option"
  hq_params :: "(string, string) dict"
  hq_one_shots :: "nat list"
  hq_injected :: "nat \<times> headers"

text \<open>The calls of the dispatcher, by the place of what is called in its table.\<close>

datatype call =
    PreCall nat | PostCall nat
  | BeforeCall "string option" nat | AfterCall "string option" nat | OneShotCall nat
  | MountCall nat | StaticCall nat | ParamsCall "string option" nat
  | DependsCall | HandlerCall | ErrorCall exn
  | DependsTeardown nat "exn option" | TeardownCall "string option" nat "exn option" | AppTeardown nat "exn option"

type_synonym ('u, 'a) user = "(http_request \<times> 'u, 'a) code"

type_synonym 'u teardown = "exn option \<Rightarrow> ('u, unit) user"

record 'u env =
  en_req :: http_request
  en_user :: 'u
  en_calls :: "call list"
  en_chain :: "nat list option"
  en_error_type :: "string option"
  en_exc :: "exn option"
  en_bp :: "string option"
  en_excluded :: bool
  en_resolver :: "'u teardown list option"
  en_injected :: bool

definition call :: "call \<Rightarrow> ('u, 'a) user \<Rightarrow> ('u env, 'a) code" where
  "call label c e =
     (case c (en_req e, en_user e) of
        (r, q, u) \<Rightarrow> (r, e\<lparr>en_req := q, en_user := u, en_calls := en_calls e @ [label]\<rparr>))"

text \<open>What a handler returns: a response, a response tuple, or a value to render.\<close>

datatype 'v result = Sent response | Tupled "'v result" "nat option" "headers option" | Plain 'v

datatype payload = ErrorPayload exn | ServerErrorPayload bool | NotAllowedPayload string "string list" | TooLargePayload nat

record 'u middleware =
  mid_name :: string
  mid_classes :: "string list"
  mid_request :: "('u, response option) user option"
  mid_response :: "(response \<Rightarrow> ('u, response) user) option"

text \<open>A route: what \<open>RouteInfo\<close> tells the dispatcher. \<open>ro_resolve\<close> is the dependency resolution: it
  answers the arguments, or fails, and says which teardowns it has registered by then and whether it
  has bound the injected response. A handler reads the request from its state, so a plan that only
  binds the request has no arguments.\<close>

datatype plan_kind = TrivialPlan | RequestOnlyPlan | ResolvedPlan

record ('u, 'v) route =
  ro_name :: "string option"
  ro_template :: string
  ro_excluded :: "(string list \<times> string list) option"
  ro_subdomain :: "string option"
  ro_host :: "string option"
  ro_defaults :: "(string, string) dict"
  ro_status :: nat
  ro_class :: "string option"
  ro_model :: "('v result \<Rightarrow> exn + 'v result) option"
  ro_async :: bool
  ro_plan :: plan_kind
  ro_resolve :: "http_request \<times> 'u \<Rightarrow> (exn + (string, 'v) dict) \<times> 'u teardown list \<times> bool \<times> http_request \<times> 'u"
  ro_handler :: "(string, 'v) dict \<Rightarrow> ('u, 'v result) user"

record ('u, 'v) matched =
  mt_route :: "('u, 'v) route"
  mt_params :: "(string, string) dict"

type_synonym ('u, 'v) error_handler = "exn \<Rightarrow> ('u, 'v result) user"

record ('u, 'v) app =
  ap_middlewares :: "'u middleware list"
  ap_before :: "('u, 'v result option) user list"
  ap_bp_before :: "(string, ('u, 'v result option) user list) dict"
  ap_after :: "(response \<Rightarrow> ('u, response option) user) list"
  ap_bp_after :: "(string, (response \<Rightarrow> ('u, response option) user) list) dict"
  ap_one_shots :: "nat \<Rightarrow> response \<Rightarrow> ('u, response option) user"
  ap_teardown :: "'u teardown list"
  ap_bp_teardown :: "(string, 'u teardown list) dict"
  ap_app_teardown :: "'u teardown list"
  ap_params_procs :: "(string option \<Rightarrow> ('u, unit) user) list"
  ap_bp_params_procs :: "(string, (string option \<Rightarrow> ('u, unit) user) list) dict"
  ap_mounts :: "(string \<times> (string \<Rightarrow> ('u, response) user)) list"
  ap_statics :: "('u, response option) user list"
  ap_asgi_mounts :: bool
  ap_around :: bool
  ap_instrumented :: bool
  ap_status_handlers :: "(nat, ('u, 'v) error_handler) dict"
  ap_class_handlers :: "(string, ('u, 'v) error_handler) dict"
  ap_bp_status_handlers :: "(string, (nat, ('u, 'v) error_handler) dict) dict"
  ap_bp_class_handlers :: "(string, (string, ('u, 'v) error_handler) dict) dict"
  ap_mro :: "string \<Rightarrow> string list"
  ap_propagate :: bool
  ap_debug_page :: "exn \<Rightarrow> http_request \<Rightarrow> response option"
  ap_match :: "string \<Rightarrow> string \<Rightarrow> ('u, 'v) matched option"
  ap_allowed :: "string \<Rightarrow> string list"
  ap_redirect_slashes :: bool
  ap_payload :: "payload \<Rightarrow> string"
  ap_render :: "string option \<Rightarrow> 'v \<Rightarrow> exn + response"
  ap_encode :: "string \<Rightarrow> bytes"

section \<open>Small parts\<close>

definition plain_response :: "nat \<Rightarrow> string \<Rightarrow> headers \<Rightarrow> response" where
  "plain_response status body hdr = \<lparr>rs_status = status, rs_body = body, rs_headers = hdr, rs_encoded = False\<rparr>"

definition endpoint_blueprint :: "string option \<Rightarrow> string option" where
  "endpoint_blueprint endpoint =
     (case endpoint of
        None \<Rightarrow> None
      | Some ep \<Rightarrow> (case rpartition_on (CHR ''.'') ep of (before, found, _) \<Rightarrow> if found then Some before else None))"

text \<open>\<open>Request.blueprints\<close>: the chain of an endpoint, innermost first.\<close>

definition request_blueprints :: "string option \<Rightarrow> string list" where
  "request_blueprints endpoint =
     (case endpoint_blueprint endpoint of
        None \<Rightarrow> []
      | Some bp \<Rightarrow>
          (let parts = split_on (CHR ''.'') bp
           in map (\<lambda>i. join_on (CHR ''.'') (take (i + 1) parts)) (rev [0..<length parts])))"

definition scoped :: "string option \<Rightarrow> (string, 'a list) dict \<Rightarrow> 'a list" where
  "scoped bp table = (case bp of None \<Rightarrow> [] | Some b \<Rightarrow> (case map_of table b of None \<Rightarrow> [] | Some xs \<Rightarrow> xs))"

text \<open>Calls of a table, each under its place.\<close>

definition placed :: "'a list \<Rightarrow> (nat \<times> 'a) list" where
  "placed xs = zip [0..<length xs] xs"

fun coerce_response :: "('u, 'v) app \<Rightarrow> string option \<Rightarrow> 'v result \<Rightarrow> exn + response" where
  "coerce_response app cls (Sent r) = Inr r"
| "coerce_response app cls (Plain v) = ap_render app cls v"
| "coerce_response app cls (Tupled body status hdr) =
     (case coerce_response app cls body of
        Inl e \<Rightarrow> Inl e
      | Inr r \<Rightarrow>
          Inr (r\<lparr>rs_status := (case status of None \<Rightarrow> rs_status r | Some s \<Rightarrow> s),
                 rs_headers := (case hdr of None \<Rightarrow> rs_headers r | Some h \<Rightarrow> foldl (\<lambda>d (k, v). dict_set k v d) (rs_headers r) h),
                 rs_encoded := False\<rparr>))"

definition not_found :: exn where
  "not_found = \<lparr>ex_class = ''NotFound'', ex_http = Some (404, ''Not Found'', [])\<rparr>"

definition method_not_allowed :: "string list \<Rightarrow> exn" where
  "method_not_allowed allowed =
     \<lparr>ex_class = ''MethodNotAllowed'', ex_http = Some (405, ''Method Not Allowed'', [(''Allow'', join_str '', '' allowed)])\<rparr>"

section \<open>Middleware phases\<close>

definition call_request :: "('u, 'v) app \<Rightarrow> nat \<Rightarrow> ('u env, response option) code" where
  "call_request app i =
     (case mid_request (ap_middlewares app ! i) of None \<Rightarrow> ret None | Some c \<Rightarrow> call (PreCall i) c)"

definition call_response :: "('u, 'v) app \<Rightarrow> nat \<Rightarrow> response \<Rightarrow> ('u env, response) code" where
  "call_response app i r =
     (case mid_response (ap_middlewares app ! i) of None \<Rightarrow> ret r | Some c \<Rightarrow> call (PostCall i) (c r))"

definition all_middlewares :: "('u, 'v) app \<Rightarrow> nat list" where
  "all_middlewares app = [0..<length (ap_middlewares app)]"

definition route_middleware_chains :: "('u, 'v) app \<Rightarrow> string list \<times> string list \<Rightarrow> nat list \<times> nat list" where
  "route_middleware_chains app excluded =
     (case excluded of (names, types) \<Rightarrow>
        let request_chain = filter (\<lambda>i. mid_name (ap_middlewares app ! i) \<notin> set names
              \<and> set (mid_classes (ap_middlewares app ! i)) \<inter> set types = {}) (all_middlewares app)
        in (request_chain, rev request_chain))"

definition run_response_middleware :: "('u, 'v) app \<Rightarrow> response \<Rightarrow> ('u env, response) code" where
  "run_response_middleware app r =
     bindc (gets en_chain) (\<lambda>chain.
       hand_on (call_response app) (case chain of None \<Rightarrow> rev (all_middlewares app) | Some c \<Rightarrow> c) r)"

definition run_response_phase :: "('u, 'v) app \<Rightarrow> response \<Rightarrow> bool \<Rightarrow> ('u env, response) code" where
  "run_response_phase app r excluded =
     (if excluded then run_response_middleware app r
      else hand_on (call_response app) (rev (all_middlewares app)) r)"

definition run_request_phase :: "('u, 'v) app \<Rightarrow> ('u, 'v) matched option \<Rightarrow> ('u env, response option \<times> bool) code" where
  "run_request_phase app m =
     (case Option.bind m (\<lambda>x. ro_excluded (mt_route x)) of
        Some excluded \<Rightarrow>
          (let (request_chain, response_chain) = route_middleware_chains app excluded
           in seqc (modify (\<lambda>e. e\<lparr>en_chain := Some response_chain\<rparr>))
                (bindc (first_answer (call_request app) request_chain) (\<lambda>early.
                   case early of
                     None \<Rightarrow> ret (None, True)
                   | Some r \<Rightarrow> bindc (run_response_middleware app r) (\<lambda>r1. ret (Some r1, True)))))
      | None \<Rightarrow>
          bindc (first_answer (call_request app) (all_middlewares app)) (\<lambda>early.
            case early of
              None \<Rightarrow> ret (None, False)
            | Some r \<Rightarrow> bindc (run_response_phase app r False) (\<lambda>r1. ret (Some r1, False))))"

section \<open>Error handlers\<close>

fun first_known :: "('k, 'a) dict \<Rightarrow> 'k list \<Rightarrow> 'a option" where
  "first_known d [] = None"
| "first_known d (k # ks) = (case map_of d k of Some x \<Rightarrow> Some x | None \<Rightarrow> first_known d ks)"

fun first_scoped :: "(string, 't) dict \<Rightarrow> ('t \<Rightarrow> 'a option) \<Rightarrow> string list \<Rightarrow> 'a option" where
  "first_scoped d look [] = None"
| "first_scoped d look (b # bs) =
     (case Option.bind (map_of d b) look of Some x \<Rightarrow> Some x | None \<Rightarrow> first_scoped d look bs)"

definition find_exception_handler :: "('u, 'v) app \<Rightarrow> string \<Rightarrow> ('u, 'v) error_handler option" where
  "find_exception_handler app cls = first_known (ap_class_handlers app) (ap_mro app cls)"

definition find_scoped_exception_handler :: "('u, 'v) app \<Rightarrow> string \<Rightarrow> string list \<Rightarrow> ('u, 'v) error_handler option" where
  "find_scoped_exception_handler app cls bps =
     (case first_scoped (ap_bp_class_handlers app) (\<lambda>table. first_known table (ap_mro app cls)) bps of
        Some h \<Rightarrow> Some h
      | None \<Rightarrow> find_exception_handler app cls)"

definition find_scoped_status_handler :: "('u, 'v) app \<Rightarrow> nat \<Rightarrow> string list \<Rightarrow> ('u, 'v) error_handler option" where
  "find_scoped_status_handler app status bps =
     (case first_scoped (ap_bp_status_handlers app) (\<lambda>table. map_of table status) bps of
        Some h \<Rightarrow> Some h
      | None \<Rightarrow> map_of (ap_status_handlers app) status)"

definition exn_status :: "exn \<Rightarrow> nat" where
  "exn_status exc = (case ex_http exc of None \<Rightarrow> 500 | Some (status, detail, hdr) \<Rightarrow> status)"

definition exn_headers :: "exn \<Rightarrow> headers" where
  "exn_headers exc = (case ex_http exc of None \<Rightarrow> [] | Some (status, detail, hdr) \<Rightarrow> hdr)"

definition find_error_handler :: "('u, 'v) app \<Rightarrow> exn \<Rightarrow> string list \<Rightarrow> ('u, 'v) error_handler option" where
  "find_error_handler app exc bps =
     (case find_scoped_status_handler app (exn_status exc) bps of
        Some h \<Rightarrow> Some h
      | None \<Rightarrow> find_scoped_exception_handler app (ex_class exc) bps)"

text \<open>A handler that raises is answered with the standard 500, or raises on when exceptions propagate.\<close>

definition dispatch_exc_handler :: "('u, 'v) app \<Rightarrow> ('u, 'v) error_handler \<Rightarrow> exn \<Rightarrow> ('u env, response) code" where
  "dispatch_exc_handler app handler exc =
     bindc
       (catch (bindc (call (ErrorCall exc) (handler exc)) (\<lambda>r. ret (Some r)))
         (\<lambda>handler_exc. if ap_propagate app then raise handler_exc else ret None))
       (\<lambda>r. case r of
          Some result \<Rightarrow> lift_res (coerce_response app None result)
        | None \<Rightarrow> ret (plain_response 500 (ap_payload app (ServerErrorPayload True)) []))"

definition blueprints_now :: "('u env, string list) code" where
  "blueprints_now = gets (\<lambda>e. request_blueprints (hq_endpoint (en_req e)))"

definition run_exc_handler_response :: "('u, 'v) app \<Rightarrow> ('u, 'v) error_handler \<Rightarrow> exn \<Rightarrow> ('u env, response) code" where
  "run_exc_handler_response app handler exc =
     bindc (dispatch_exc_handler app handler exc) (\<lambda>r.
       bindc (gets en_excluded) (run_response_phase app r))"

definition http_exception_response :: "('u, 'v) app \<Rightarrow> exn \<Rightarrow> ('u env, response) code" where
  "http_exception_response app exc =
     bindc blueprints_now (\<lambda>bps.
       bindc
         (case find_error_handler app exc bps of
            Some h \<Rightarrow> dispatch_exc_handler app h exc
          | None \<Rightarrow> ret (plain_response (exn_status exc) (ap_payload app (ErrorPayload exc)) (exn_headers exc)))
         (\<lambda>r. if ap_middlewares app = [] then ret r
              else bindc (gets en_excluded) (run_response_phase app r)))"

definition inherit_headers :: "exn \<Rightarrow> response \<Rightarrow> response" where
  "inherit_headers exc r =
     (if exn_headers exc \<noteq> [] \<and> rs_status r = exn_status exc
      then r\<lparr>rs_headers := foldl (\<lambda>d (k, v). if header_key d k \<noteq> None then d else dict_set k v d) (rs_headers r) (exn_headers exc)\<rparr>
      else r)"

definition handle_error :: "('u, 'v) app \<Rightarrow> nat \<Rightarrow> response \<Rightarrow> exn \<Rightarrow> ('u env, response) code" where
  "handle_error app status fallback exc =
     bindc blueprints_now (\<lambda>bps.
       bindc
         (case ex_http exc of
            Some _ \<Rightarrow>
              (case find_error_handler app exc bps of
                 Some h \<Rightarrow> bindc (dispatch_exc_handler app h exc) (\<lambda>r. ret (inherit_headers exc r))
               | None \<Rightarrow> ret fallback)
          | None \<Rightarrow>
              (case find_scoped_status_handler app status bps of
                 Some h \<Rightarrow> dispatch_exc_handler app h exc
               | None \<Rightarrow> ret fallback))
         (run_response_middleware app))"

definition shape_server_error :: "('u, 'v) app \<Rightarrow> exn \<Rightarrow> ('u env, response) code" where
  "shape_server_error app exc =
     bindc (gets en_req) (\<lambda>q.
       case ap_debug_page app exc q of
         Some page \<Rightarrow> bindc (gets en_excluded) (run_response_phase app page)
       | None \<Rightarrow> handle_error app 500 (plain_response 500 (ap_payload app (ServerErrorPayload False)) []) exc)"

section \<open>Hooks\<close>

definition call_before :: "('u, 'v) app \<Rightarrow> string option \<Rightarrow> nat \<times> ('u, 'v result option) user \<Rightarrow> ('u env, response option) code" where
  "call_before app bp h =
     bindc (call (BeforeCall bp (fst h)) (snd h)) (\<lambda>result.
       case result of
         None \<Rightarrow> ret None
       | Some v \<Rightarrow> bindc (lift_res (coerce_response app None v)) (\<lambda>r. bindc (run_response_middleware app r) (\<lambda>r1. ret (Some r1))))"

definition run_before_hooks :: "('u, 'v) app \<Rightarrow> ('u env, response option \<times> string option) code" where
  "run_before_hooks app =
     bindc (first_answer (call_before app None) (placed (ap_before app))) (\<lambda>early.
       case early of
         Some r \<Rightarrow> ret (Some r, None)
       | None \<Rightarrow>
           bindc (gets (\<lambda>e. endpoint_blueprint (hq_endpoint (en_req e)))) (\<lambda>bp.
             bindc (first_answer (call_before app bp) (placed (scoped bp (ap_bp_before app)))) (\<lambda>early.
               ret (early, bp))))"

definition call_after ::
  "string option \<Rightarrow> nat \<times> (response \<Rightarrow> ('u, response option) user) \<Rightarrow> response \<Rightarrow> ('u env, response) code" where
  "call_after bp h r =
     bindc (call (AfterCall bp (fst h)) (snd h r)) (\<lambda>result. ret (case result of None \<Rightarrow> r | Some r1 \<Rightarrow> r1))"

definition call_one_shot :: "('u, 'v) app \<Rightarrow> nat \<Rightarrow> response \<Rightarrow> ('u env, response) code" where
  "call_one_shot app i r =
     bindc (call (OneShotCall i) (ap_one_shots app i r)) (\<lambda>result. ret (case result of None \<Rightarrow> r | Some r1 \<Rightarrow> r1))"

definition run_after_hooks :: "('u, 'v) app \<Rightarrow> response \<Rightarrow> string option \<Rightarrow> ('u env, response) code" where
  "run_after_hooks app r bp =
     bindc (hand_on (call_after None) (rev (placed (ap_after app))) r) (\<lambda>r1.
       bindc (hand_on (call_after bp) (rev (placed (scoped bp (ap_bp_after app)))) r1) (\<lambda>r2.
         bindc (gets (\<lambda>e. hq_one_shots (en_req e))) (\<lambda>one_shots.
           hand_on (call_one_shot app) one_shots r2)))"

definition call_params :: "string option \<Rightarrow> string option \<Rightarrow> nat \<times> (string option \<Rightarrow> ('u, unit) user) \<Rightarrow> ('u env, unit) code" where
  "call_params bp endpoint h = call (ParamsCall bp (fst h)) (snd h endpoint)"

definition run_url_value_preprocessors :: "('u, 'v) app \<Rightarrow> string option \<Rightarrow> ('u env, unit) code" where
  "run_url_value_preprocessors app endpoint =
     seqc (for_each (call_params None endpoint) (placed (ap_params_procs app)))
       (let bp = endpoint_blueprint endpoint in for_each (call_params bp endpoint) (placed (scoped bp (ap_bp_params_procs app))))"

section \<open>The route\<close>

definition set_endpoint :: "('u, 'v) matched \<Rightarrow> 'u env \<Rightarrow> 'u env" where
  "set_endpoint m e = e\<lparr>en_req := (en_req e)\<lparr>hq_endpoint := ro_name (mt_route m), hq_url_rule := Some (ro_template (mt_route m))\<rparr>\<rparr>"

definition mount_sub_path :: "string \<Rightarrow> string \<Rightarrow> string" where
  "mount_sub_path prefix path = (let rest = drop (length prefix) path in if rest = [] then ''/'' else rest)"

definition try_mount :: "nat \<times> string \<times> (string \<Rightarrow> ('u, response) user) \<Rightarrow> ('u env, response option) code" where
  "try_mount m = (case m of (i, prefix, sub) \<Rightarrow>
     bindc (gets (\<lambda>e. hq_path (en_req e))) (\<lambda>path.
       if starts_with (prefix @ ''/'') path \<or> path = prefix
       then bindc (call (MountCall i) (sub (mount_sub_path prefix path))) (\<lambda>r. ret (Some r))
       else ret None))"

definition redirect_target :: "string \<Rightarrow> string \<Rightarrow> string" where
  "redirect_target root_path alt =
     (let target = root_path @ alt in if starts_with ''//'' target then CHR ''/'' # dropWhile ((=) (CHR ''/'')) target else target)"

definition slash_alternative :: "string \<Rightarrow> string" where
  "slash_alternative path = (if ends_with ''/'' path \<and> path \<noteq> ''/'' then rstrip_char (CHR ''/'') path else path @ ''/'')"

definition redirect_to :: "('u, 'v) app \<Rightarrow> string \<Rightarrow> nat \<Rightarrow> exn + response" where
  "redirect_to app target status =
     (case redirect_response (ap_encode app) target (int status) of
        Inl x \<Rightarrow> Inl \<lparr>ex_class = ''ValueError'', ex_http = None\<rparr>
      | Inr (s, location) \<Rightarrow> Inr (plain_response status [] [(''Location'', location)]))"

definition default_options_response :: "string list \<Rightarrow> response" where
  "default_options_response allowed =
     (let a1 = (if ''GET'' \<in> set allowed \<and> ''HEAD'' \<notin> set allowed then allowed @ [''HEAD''] else allowed);
          a2 = (if ''OPTIONS'' \<notin> set a1 then a1 @ [''OPTIONS''] else a1)
      in plain_response 200 [] [(''Allow'', join_str '', '' a2)])"

text \<open>No route: the slash redirect, the answer to \<open>OPTIONS\<close>, 405 or 404.\<close>

definition answer_unmatched :: "('u, 'v) app \<Rightarrow> ('u env, response) code" where
  "answer_unmatched app =
     bindc (gets en_req) (\<lambda>q. bindc (gets en_excluded) (\<lambda>excluded.
       let alt = slash_alternative (hq_path q); allowed = ap_allowed app (hq_path q) in
       if ap_redirect_slashes app \<and> ap_match app (hq_method q) alt \<noteq> None
       then bindc (lift_res (redirect_to app (redirect_target (hq_root_path q) alt) (if hq_method q \<noteq> ''GET'' then 308 else 307)))
              (\<lambda>r. run_response_phase app r excluded)
       else if allowed \<noteq> []
       then if hq_method q = ''OPTIONS''
            then run_response_phase app (default_options_response allowed) excluded
            else (let exc = method_not_allowed allowed
                  in handle_error app 405 (plain_response 405 (ap_payload app (NotAllowedPayload ''Method Not Allowed'' allowed)) (exn_headers exc)) exc)
       else raise not_found))"

definition subdomain_matches :: "http_request \<Rightarrow> string \<Rightarrow> bool" where
  "subdomain_matches q sub = (if sub = ''*'' then hq_subdomain q \<noteq> [] else hq_subdomain q = sub)"

definition set_defaults :: "(string, string) dict \<Rightarrow> (string, string) dict \<Rightarrow> (string, string) dict" where
  "set_defaults defaults params = foldl (\<lambda>d (k, v). if map_of d k = None then dict_set k v d else d) params defaults"

text \<open>A terminal response, or the match to dispatch.\<close>

definition resolve_route ::
  "('u, 'v) app \<Rightarrow> ('u, 'v) matched option \<Rightarrow> string \<Rightarrow> string \<Rightarrow> ('u env, response + ('u, 'v) matched) code" where
  "resolve_route app m matched_path matched_method =
     bindc (first_answer try_mount (placed (ap_mounts app))) (\<lambda>mounted.
       case mounted of
         Some r \<Rightarrow> bindc (run_response_middleware app r) (\<lambda>r1. ret (Inl r1))
       | None \<Rightarrow>
           bindc (first_answer (\<lambda>(i, c). call (StaticCall i) c) (placed (ap_statics app))) (\<lambda>static.
             case static of
               Some r \<Rightarrow> bindc (run_response_middleware app r) (\<lambda>r1. ret (Inl r1))
             | None \<Rightarrow>
                 bindc (gets en_req) (\<lambda>q.
                   let m1 = (if hq_path q \<noteq> matched_path \<or> hq_method q \<noteq> matched_method
                             then ap_match app (hq_method q) (hq_path q) else m)
                   in case m1 of
                        None \<Rightarrow> bindc (answer_unmatched app) (\<lambda>r. ret (Inl r))
                      | Some x \<Rightarrow>
                          (let ro = mt_route x in
                           if (case ro_subdomain ro of None \<Rightarrow> False | Some sub \<Rightarrow> \<not> subdomain_matches q sub) then raise not_found
                           else if (case ro_host ro of None \<Rightarrow> False
                                    | Some h \<Rightarrow> extract_host (case hq_host q of None \<Rightarrow> [] | Some v \<Rightarrow> v) True \<noteq> h) then raise not_found
                           else
                             seqc (modify (\<lambda>e. set_endpoint x (e\<lparr>en_req := (en_req e)\<lparr>hq_params := set_defaults (ro_defaults ro) (mt_params x)\<rparr>\<rparr>)))
                               (seqc (run_url_value_preprocessors app (ro_name ro)) (ret (Inr x)))))))"

section \<open>Dependencies and the response\<close>

text \<open>Only an answer of the resolution hands its resolver, and with it the teardowns, to the dispatcher.\<close>

definition resolve_dependencies :: "('u, 'v) route \<Rightarrow> ('u env, (string, 'v) dict) code" where
  "resolve_dependencies ro =
     (case ro_plan ro of
        TrivialPlan \<Rightarrow> ret []
      | RequestOnlyPlan \<Rightarrow> ret []
      | ResolvedPlan \<Rightarrow>
          (\<lambda>e. case ro_resolve ro (en_req e, en_user e) of
             (r, teardowns, injected, q, u) \<Rightarrow>
               (let e1 = e\<lparr>en_req := q, en_user := u, en_calls := en_calls e @ [DependsCall], en_injected := en_injected e \<or> injected\<rparr>
                in case r of
                     Inl exc \<Rightarrow> (Inl exc, e1)
                   | Inr kwargs \<Rightarrow> (Inr kwargs, e1\<lparr>en_resolver := Some teardowns\<rparr>))))"

fun is_response :: "'v result \<Rightarrow> bool" where
  "is_response (Sent r) = True"
| "is_response _ = False"

definition apply_injected :: "nat \<times> headers \<Rightarrow> response \<Rightarrow> response" where
  "apply_injected injected r =
     (case injected of
        (status, hdr) \<Rightarrow>
          r\<lparr>rs_status := (if status \<noteq> 0 then status else rs_status r),
            rs_headers := foldl (\<lambda>d (k, v).
                if str_lower k = ''set-cookie'' then dict_set ''Set-Cookie'' (the (append_set_cookie v (map_of d ''Set-Cookie''))) d
                else dict_set k v d) (rs_headers r) hdr,
            rs_encoded := False\<rparr>)"

definition build_response :: "('u, 'v) app \<Rightarrow> ('u, 'v) route \<Rightarrow> 'v result \<Rightarrow> ('u env, response) code" where
  "build_response app ro result =
     bindc (case ro_model ro of
              None \<Rightarrow> ret result
            | Some shape \<Rightarrow> if is_response result then ret result else lift_res (shape result)) (\<lambda>result1.
       bindc (lift_res (coerce_response app (ro_class ro) result1)) (\<lambda>r.
         let r1 = (if ro_status ro \<noteq> 200 \<and> rs_status r = 200 then r\<lparr>rs_status := ro_status ro, rs_encoded := False\<rparr> else r)
         in bindc (gets (\<lambda>e. (en_injected e, hq_injected (en_req e)))) (\<lambda>(bound, injected).
              ret (if bound \<and> \<not> is_response result1 then apply_injected injected r1 else r1))))"

section \<open>Dispatch\<close>

definition is_fast_eligible :: "('u, 'v) route \<Rightarrow> bool" where
  "is_fast_eligible ro \<longleftrightarrow>
     ro_async ro \<and> ro_plan ro \<in> {TrivialPlan, RequestOnlyPlan} \<and> ro_model ro = None \<and> ro_class ro = None
       \<and> ro_status ro = 200 \<and> ro_subdomain ro = None \<and> ro_host ro = None \<and> ro_defaults ro = [] \<and> ro_excluded ro = None"

definition is_bare :: "('u, 'v) app \<Rightarrow> bool" where
  "is_bare app \<longleftrightarrow>
     ap_middlewares app = [] \<and> \<not> ap_around app \<and> \<not> ap_instrumented app \<and> ap_mounts app = [] \<and> ap_statics app = []
       \<and> \<not> ap_asgi_mounts app \<and> ap_before app = [] \<and> ap_after app = [] \<and> ap_bp_before app = [] \<and> ap_bp_after app = []
       \<and> ap_teardown app = [] \<and> ap_app_teardown app = [] \<and> ap_bp_teardown app = [] \<and> ap_params_procs app = []"

definition fast_path :: "('u, 'v) app \<Rightarrow> ('u, 'v) matched \<Rightarrow> ('u env, response) code" where
  "fast_path app m =
     (let ro = mt_route m; bp = endpoint_blueprint (ro_name ro) in
      seqc (modify (\<lambda>e. e\<lparr>en_req := (en_req e)\<lparr>hq_params := mt_params m\<rparr>\<rparr>))
        (seqc (if ap_bp_params_procs app \<noteq> [] then for_each (call_params bp (ro_name ro)) (placed (scoped bp (ap_bp_params_procs app))) else ret ())
          (bindc (call HandlerCall (ro_handler ro [])) (\<lambda>result.
            bindc (lift_res (coerce_response app None result)) (\<lambda>r.
              bindc (gets (\<lambda>e. hq_one_shots (en_req e))) (\<lambda>one_shots.
                if one_shots \<noteq> [] then run_after_hooks app r None else ret r))))))"

text \<open>From the resolved route to the response that leaves: dependencies, handler, response, hooks, middleware.\<close>

definition run_route :: "('u, 'v) app \<Rightarrow> ('u, 'v) route \<Rightarrow> ('u env, response) code" where
  "run_route app ro =
     bindc (gets (\<lambda>e. endpoint_blueprint (hq_endpoint (en_req e)))) (\<lambda>bp.
       seqc (modify (\<lambda>e. e\<lparr>en_bp := bp\<rparr>))
         (bindc (resolve_dependencies ro) (\<lambda>kwargs.
           bindc (call HandlerCall (ro_handler ro kwargs)) (\<lambda>result.
             bindc (build_response app ro result) (\<lambda>r.
               bindc (gets (\<lambda>e. hq_one_shots (en_req e))) (\<lambda>one_shots.
                 bindc (if ap_after app \<noteq> [] \<or> (ap_bp_after app \<noteq> [] \<and> bp \<noteq> None) \<or> one_shots \<noteq> []
                        then run_after_hooks app r bp else ret r) (\<lambda>r1.
                   bindc (gets en_excluded) (run_response_phase app r1))))))))"

definition full_path :: "('u, 'v) app \<Rightarrow> ('u, 'v) matched option \<Rightarrow> string \<Rightarrow> string \<Rightarrow> ('u env, response) code" where
  "full_path app m path method' =
     bindc (if ap_middlewares app \<noteq> [] \<or> Option.bind m (\<lambda>x. ro_excluded (mt_route x)) \<noteq> None
            then run_request_phase app m else ret (None, False)) (\<lambda>(early, excluded).
       seqc (modify (\<lambda>e. e\<lparr>en_excluded := excluded\<rparr>))
         (case early of
            Some r \<Rightarrow> ret r
          | None \<Rightarrow>
              bindc (if ap_before app \<noteq> [] \<or> ap_bp_before app \<noteq> [] then run_before_hooks app
                     else bindc (gets (\<lambda>e. endpoint_blueprint (hq_endpoint (en_req e)))) (\<lambda>bp. ret (None, bp))) (\<lambda>(early, bp).
                seqc (modify (\<lambda>e. e\<lparr>en_bp := bp\<rparr>))
                  (case early of
                     Some r \<Rightarrow> ret r
                   | None \<Rightarrow>
                       bindc (resolve_route app m path method') (\<lambda>resolved.
                         case resolved of Inl r \<Rightarrow> ret r | Inr x \<Rightarrow> run_route app (mt_route x))))))"

text \<open>\<open>teardowns.pop()\<close> until none is left: in reverse order, every one, the failures kept.\<close>

definition call_teardown :: "exn option \<Rightarrow> nat \<times> 'u teardown \<Rightarrow> exn list \<Rightarrow> ('u env, exn list) code" where
  "call_teardown exc t failures =
     catch (bindc (call (DependsTeardown (fst t) exc) (snd t exc)) (\<lambda>_. ret failures))
       (\<lambda>x. ret (if exc = Some x then failures else failures @ [x]))"

definition run_teardowns :: "'u teardown list \<Rightarrow> exn option \<Rightarrow> ('u env, unit) code" where
  "run_teardowns ts exc =
     bindc (hand_on (call_teardown exc) (rev (placed ts)) []) (\<lambda>failures.
       if failures = [] then ret () else raise \<lparr>ex_class = ''ExceptionGroup'', ex_http = None\<rparr>)"

text \<open>Teardown hooks are called in order, and what they raise is only logged.\<close>

definition call_hook :: "(nat \<Rightarrow> exn option \<Rightarrow> call) \<Rightarrow> exn option \<Rightarrow> nat \<times> 'u teardown \<Rightarrow> ('u env, unit) code" where
  "call_hook label exc h = catch (call (label (fst h) exc) (snd h exc)) (\<lambda>_. ret ())"

definition select_teardown_hooks :: "('u, 'v) app \<Rightarrow> string option \<Rightarrow> (string option \<times> nat \<times> 'u teardown) list" where
  "select_teardown_hooks app bp =
     map (Pair None) (placed (ap_teardown app)) @ map (Pair bp) (placed (scoped bp (ap_bp_teardown app)))"

definition dispatch_finally :: "('u, 'v) app \<Rightarrow> ('u env, unit) code" where
  "dispatch_finally app =
     bindc (gets en_exc) (\<lambda>exc. bindc (gets en_resolver) (\<lambda>resolver. bindc (gets en_bp) (\<lambda>bp.
     bindc (case resolver of
              None \<Rightarrow> ret None
            | Some ts \<Rightarrow>
                if ts = [] then ret None
                else catch (seqc (run_teardowns ts exc) (ret None))
                       (\<lambda>x. ret (if ap_propagate app then Some x else None))) (\<lambda>propagated.
     seqc (for_each (\<lambda>(b, h). call_hook (TeardownCall b) exc h) (select_teardown_hooks app bp))
     (seqc (for_each (call_hook AppTeardown exc) (placed (ap_app_teardown app)))
       (case propagated of None \<Rightarrow> ret () | Some x \<Rightarrow> raise x))))))"

definition answer_exception :: "('u, 'v) app \<Rightarrow> exn \<Rightarrow> ('u env, response) code" where
  "answer_exception app exc =
     (case ex_http exc of
        Some _ \<Rightarrow> http_exception_response app exc
      | None \<Rightarrow>
          bindc blueprints_now (\<lambda>bps.
            case find_scoped_exception_handler app (ex_class exc) bps of
              Some h \<Rightarrow> run_exc_handler_response app h exc
            | None \<Rightarrow>
                seqc (modify (\<lambda>e. e\<lparr>en_error_type := Some (ex_class exc)\<rparr>))
                  (if ap_propagate app then raise exc else shape_server_error app exc)))"

definition handle_exception :: "('u, 'v) app \<Rightarrow> exn \<Rightarrow> ('u env, response) code" where
  "handle_exception app exc = seqc (modify (\<lambda>e. e\<lparr>en_exc := Some exc\<rparr>)) (answer_exception app exc)"

definition dispatch_body :: "('u, 'v) app \<Rightarrow> ('u, 'v) matched option \<Rightarrow> ('u env, response) code" where
  "dispatch_body app given_match =
     bindc (gets en_req) (\<lambda>q.
       let m = (if given_match = None then ap_match app (hq_method q) (hq_path q) else given_match) in
       seqc (case m of None \<Rightarrow> ret () | Some x \<Rightarrow> modify (set_endpoint x))
         (case m of
            Some x \<Rightarrow> if is_bare app \<and> is_fast_eligible (mt_route x) then fast_path app x
                      else full_path app m (hq_path q) (hq_method q)
          | None \<Rightarrow> full_path app m (hq_path q) (hq_method q)))"

definition fresh_locals :: "'u env \<Rightarrow> 'u env" where
  "fresh_locals e = e\<lparr>en_exc := None, en_bp := None, en_excluded := False, en_resolver := None\<rparr>"

definition dispatch_request :: "('u, 'v) app \<Rightarrow> ('u, 'v) matched option \<Rightarrow> ('u env, response) code" where
  "dispatch_request app given_match =
     seqc (modify fresh_locals)
       (finally_do (catch (dispatch_body app given_match) (handle_exception app)) (dispatch_finally app))"

end
