(* ===== verification/Dispatch_Teardown.thy ===== *)
theory Dispatch_Teardown
  imports Dispatch
begin

text \<open>
  The calls of the request pipeline, for arbitrary supplied code: which of them a program may make, and
  that a request ends with its teardowns.
\<close>

section \<open>The calls a program makes\<close>

definition extends :: "(call \<Rightarrow> bool) \<Rightarrow> 'u env \<Rightarrow> 'u env \<Rightarrow> bool" where
  "extends P e e' \<longleftrightarrow> en_exc e' = en_exc e \<and> (\<exists>cs. en_calls e' = en_calls e @ cs \<and> list_all P cs)"

interpretation ext: kept "extends P" for P
proof
  fix e t u :: "'u env"
  show "extends P e e" by (simp add: extends_def)
  show "extends P e t \<Longrightarrow> extends P t u \<Longrightarrow> extends P e u"
    by (force simp: extends_def)
qed

lemma extends_call: "P label \<Longrightarrow> keeps (extends P) (call label c)"
  by (auto simp: keeps_def call_def extends_def split: prod.split)

lemma extends_modify: "(\<And>e. en_calls (f e) = en_calls e \<and> en_exc (f e) = en_exc e) \<Longrightarrow> keeps (extends P) (modify f)"
  by (simp add: keeps_def modify_def extends_def)

lemma keeps_option: "keeps R c \<Longrightarrow> (\<And>x. keeps R (d x)) \<Longrightarrow> keeps R (case m of None \<Rightarrow> c | Some x \<Rightarrow> d x)"
  by (cases m) auto

lemma keeps_sum: "(\<And>x. keeps R (c x)) \<Longrightarrow> (\<And>x. keeps R (d x)) \<Longrightarrow> keeps R (case m of Inl x \<Rightarrow> c x | Inr x \<Rightarrow> d x)"
  by (cases m) auto

lemma keeps_pair: "(\<And>x y. keeps R (c x y)) \<Longrightarrow> keeps R (case m of (x, y) \<Rightarrow> c x y)"
  by (cases m) auto

lemma keeps_let: "(\<And>x. keeps R (f x)) \<Longrightarrow> keeps R (Let v f)"
  by simp

lemmas ext_rules = ext.keeps_rules keeps_option keeps_sum keeps_pair keeps_let

text \<open>A call that is none of the teardown hooks.\<close>

fun hook_free :: "call \<Rightarrow> bool" where
  "hook_free (TeardownCall b i x) = False"
| "hook_free (AppTeardown i x) = False"
| "hook_free c = True"

abbreviation quiet :: "('u env, 'a) code \<Rightarrow> bool" where
  "quiet \<equiv> keeps (extends hook_free)"

lemma quiet_call [intro]: "hook_free label \<Longrightarrow> quiet (call label c)"
  by (rule extends_call)

lemma quiet_phases:
  "quiet (call_request app i)" "quiet (call_response app i r)" "quiet (run_response_middleware app r)"
  "quiet (run_response_phase app r b)" "quiet (run_request_phase app m)"
  unfolding call_request_def call_response_def run_response_middleware_def run_response_phase_def run_request_phase_def
  by (intro ext_rules extends_modify quiet_call; simp)+

lemma quiet_errors:
  "quiet blueprints_now" "quiet (dispatch_exc_handler app h exc)" "quiet (run_exc_handler_response app h exc)"
  "quiet (http_exception_response app exc)" "quiet (handle_error app status fallback exc)" "quiet (shape_server_error app exc)"
proof -
  show 1: "quiet blueprints_now" unfolding blueprints_now_def by (rule ext.keeps_gets)
  show 2: "quiet (dispatch_exc_handler app h exc)" for h exc unfolding dispatch_exc_handler_def by (intro ext_rules quiet_call; simp)
  show "quiet (run_exc_handler_response app h exc)"
    unfolding run_exc_handler_response_def by (intro ext_rules 2 quiet_phases)
  show "quiet (http_exception_response app exc)"
    unfolding http_exception_response_def by (intro ext_rules 1 2 quiet_phases)
  show 3: "quiet (handle_error app status fallback exc)" for status fallback
    unfolding handle_error_def by (intro ext_rules 1 2 quiet_phases)
  show "quiet (shape_server_error app exc)"
    unfolding shape_server_error_def by (intro ext_rules 3 quiet_phases)
qed

lemma quiet_hooks:
  "quiet (run_before_hooks app)" "quiet (run_after_hooks app r bp)" "quiet (run_url_value_preprocessors app ep)"
  "quiet (call_params bp ep h)"
  unfolding run_before_hooks_def call_before_def run_after_hooks_def call_after_def call_one_shot_def
    run_url_value_preprocessors_def call_params_def
  by (intro ext_rules quiet_phases quiet_call; simp)+

lemma quiet_route:
  "quiet (answer_unmatched app)" "quiet (resolve_route app m path method')" "quiet (resolve_dependencies ro)"
  "quiet (build_response app ro result)" "quiet (run_route app ro)"
proof -
  show 1: "quiet (answer_unmatched app)"
    unfolding answer_unmatched_def by (intro ext_rules quiet_phases quiet_errors)
  show "quiet (resolve_route app m path method')"
    unfolding resolve_route_def try_mount_def
    by (intro ext_rules 1 quiet_phases quiet_hooks quiet_call extends_modify; simp add: set_endpoint_def)
  show 2: "quiet (resolve_dependencies ro)" for ro
    by (auto simp: keeps_def resolve_dependencies_def extends_def Let_def code_simps split: plan_kind.split prod.split sum.split)
  show 3: "quiet (build_response app ro result)" for ro result
    unfolding build_response_def by (intro ext_rules)
  show "quiet (run_route app ro)"
    unfolding run_route_def by (intro ext_rules 2 3 quiet_phases quiet_hooks quiet_call extends_modify; simp)
qed

lemma quiet_body: "quiet (dispatch_body app m)"
proof -
  have "quiet (fast_path app x)" for x
    unfolding fast_path_def by (intro ext_rules quiet_hooks quiet_call extends_modify; simp)
  moreover have "quiet (full_path app m path method')" for m path method'
    unfolding full_path_def by (intro ext_rules quiet_phases quiet_hooks quiet_route extends_modify; simp)
  ultimately show ?thesis
    unfolding dispatch_body_def by (intro ext_rules extends_modify; simp add: set_endpoint_def)
qed

lemma quiet_answer: "quiet (answer_exception app exc)"
  unfolding answer_exception_def by (intro ext_rules quiet_errors extends_modify) simp

section \<open>The end of a request\<close>

lemma same_env: "\<exists>q u. e = e\<lparr>en_req := q, en_user := u\<rparr>"
  by (intro exI [of _ "en_req e"] exI [of _ "en_user e"]) simp

lemma hook_call: "\<exists>q u. call_hook label exc h e = (Inr (), e\<lparr>en_req := q, en_user := u, en_calls := en_calls e @ [label (fst h) exc]\<rparr>)"
  by (auto simp: call_hook_def catch_def call_def ret_def split: prod.split sum.split)

lemma hook_calls:
  "\<exists>q u. for_each (\<lambda>x. call_hook (f x) exc (g x)) hs e
     = (Inr (), e\<lparr>en_req := q, en_user := u, en_calls := en_calls e @ map (\<lambda>x. f x (fst (g x)) exc) hs\<rparr>)"
proof (induction hs arbitrary: e)
  case Nil
  show ?case using same_env by (simp add: ret_def)
next
  case (Cons h hs)
  obtain q u where 1: "call_hook (f h) exc (g h) e = (Inr (), e\<lparr>en_req := q, en_user := u, en_calls := en_calls e @ [f h (fst (g h)) exc]\<rparr>)"
    using hook_call [of "f h" exc "g h" e] by blast
  let ?e = "e\<lparr>en_req := q, en_user := u, en_calls := en_calls e @ [f h (fst (g h)) exc]\<rparr>"
  obtain q' u' where "for_each (\<lambda>x. call_hook (f x) exc (g x)) hs ?e
     = (Inr (), ?e\<lparr>en_req := q', en_user := u', en_calls := en_calls ?e @ map (\<lambda>x. f x (fst (g x)) exc) hs\<rparr>)"
    using Cons.IH by blast
  with 1 show ?case by (simp add: seqc_def bindc_def) blast
qed

text \<open>The teardown hooks of the application and of the blueprint, and those of the application context.\<close>

definition closing_calls :: "('u, 'v) app \<Rightarrow> string option \<Rightarrow> exn option \<Rightarrow> call list" where
  "closing_calls app bp exc =
     map (\<lambda>i. TeardownCall None i exc) [0..<length (ap_teardown app)]
       @ map (\<lambda>i. TeardownCall bp i exc) [0..<length (scoped bp (ap_bp_teardown app))]
       @ map (\<lambda>i. AppTeardown i exc) [0..<length (ap_app_teardown app)]"

text \<open>The teardowns of the dependencies: in reverse order, each with the exception of the request.\<close>

definition depends_calls :: "'u teardown list option \<Rightarrow> exn option \<Rightarrow> call list" where
  "depends_calls resolver exc = (case resolver of None \<Rightarrow> [] | Some ts \<Rightarrow> map (\<lambda>i. DependsTeardown i exc) (rev [0..<length ts]))"

lemma map_placed: "map (\<lambda>h. f (fst h)) (placed xs) = map f [0..<length xs]"
  by (auto simp: placed_def intro: nth_equalityI)

lemma teardown_calls:
  "\<exists>fs q u. hand_on (call_teardown exc) hs failures e
     = (Inr fs, e\<lparr>en_req := q, en_user := u, en_calls := en_calls e @ map (\<lambda>h. DependsTeardown (fst h) exc) hs\<rparr>)"
proof (induction hs arbitrary: e failures)
  case Nil
  show ?case using same_env by (simp add: ret_def)
next
  case (Cons h hs)
  have "\<exists>fs q u. call_teardown exc h failures e = (Inr fs, e\<lparr>en_req := q, en_user := u, en_calls := en_calls e @ [DependsTeardown (fst h) exc]\<rparr>)"
    by (auto simp: call_teardown_def catch_def bindc_def call_def ret_def split: prod.split sum.split)
  then obtain fs q u where 1: "call_teardown exc h failures e
      = (Inr fs, e\<lparr>en_req := q, en_user := u, en_calls := en_calls e @ [DependsTeardown (fst h) exc]\<rparr>)" by blast
  let ?e = "e\<lparr>en_req := q, en_user := u, en_calls := en_calls e @ [DependsTeardown (fst h) exc]\<rparr>"
  obtain fs' q' u' where "hand_on (call_teardown exc) hs fs ?e
     = (Inr fs', ?e\<lparr>en_req := q', en_user := u', en_calls := en_calls ?e @ map (\<lambda>h. DependsTeardown (fst h) exc) hs\<rparr>)"
    using Cons.IH by blast
  with 1 show ?case by (simp add: bindc_def) blast
qed

lemma finally_calls:
  "en_calls (snd (dispatch_finally app e)) = en_calls e @ depends_calls (en_resolver e) (en_exc e) @ closing_calls app (en_bp e) (en_exc e)"
    (is "?calls") and finally_quiet: "fst (dispatch_finally app e) = Inr () \<or> (ap_propagate app \<and> en_resolver e \<noteq> None)" (is "?quiet")
proof -
  let ?exc = "en_exc e"
  define deps where "deps = (case en_resolver e of
              None \<Rightarrow> ret None
            | Some ts \<Rightarrow>
                if ts = [] then ret None
                else catch (seqc (run_teardowns ts ?exc) (ret None))
                       (\<lambda>x. ret (if ap_propagate app then Some x else None)))"
  have "\<exists>p q u. deps e = (Inr p, e\<lparr>en_req := q, en_user := u, en_calls := en_calls e @ depends_calls (en_resolver e) ?exc\<rparr>)
      \<and> (p \<noteq> None \<longrightarrow> ap_propagate app \<and> en_resolver e \<noteq> None)"
  proof (cases "en_resolver e = None \<or> en_resolver e = Some []")
    case True
    then show ?thesis by (elim disjE) (simp_all add: deps_def depends_calls_def ret_def same_env)
  next
    case False
    then obtain ts where ts: "en_resolver e = Some ts" "ts \<noteq> []" by auto
    obtain fs q u where h: "hand_on (call_teardown ?exc) (rev (placed ts)) [] e
       = (Inr fs, e\<lparr>en_req := q, en_user := u, en_calls := en_calls e @ map (\<lambda>h. DependsTeardown (fst h) ?exc) (rev (placed ts))\<rparr>)"
      using teardown_calls [of ?exc "rev (placed ts)" "[]" e] by blast
    have "map (\<lambda>h. DependsTeardown (fst h) ?exc) (rev (placed ts)) = depends_calls (en_resolver e) ?exc"
      using map_placed [of "\<lambda>i. DependsTeardown i ?exc" ts] by (simp add: depends_calls_def ts rev_map [symmetric])
    with h ts show ?thesis
      by (auto simp: deps_def run_teardowns_def catch_def seqc_def bindc_def ret_def raise_def)
  qed
  then obtain p q u where deps: "deps e = (Inr p, e\<lparr>en_req := q, en_user := u, en_calls := en_calls e @ depends_calls (en_resolver e) ?exc\<rparr>)"
    and p: "p \<noteq> None \<longrightarrow> ap_propagate app \<and> en_resolver e \<noteq> None" by blast
  let ?e1 = "e\<lparr>en_req := q, en_user := u, en_calls := en_calls e @ depends_calls (en_resolver e) ?exc\<rparr>"
  let ?hs = "select_teardown_hooks app (en_bp e)"
  obtain q2 u2 where hooks: "for_each (\<lambda>x. call_hook (TeardownCall (fst x)) ?exc (snd x)) ?hs ?e1
      = (Inr (), ?e1\<lparr>en_req := q2, en_user := u2, en_calls := en_calls ?e1 @ map (\<lambda>x. TeardownCall (fst x) (fst (snd x)) ?exc) ?hs\<rparr>)"
    using hook_calls [of "\<lambda>x. TeardownCall (fst x)" ?exc snd ?hs ?e1] by blast
  let ?e2 = "?e1\<lparr>en_req := q2, en_user := u2, en_calls := en_calls ?e1 @ map (\<lambda>x. TeardownCall (fst x) (fst (snd x)) ?exc) ?hs\<rparr>"
  obtain q3 u3 where apps: "for_each (\<lambda>x. call_hook AppTeardown ?exc x) (placed (ap_app_teardown app)) ?e2
      = (Inr (), ?e2\<lparr>en_req := q3, en_user := u3, en_calls := en_calls ?e2 @ map (\<lambda>x. AppTeardown (fst x) ?exc) (placed (ap_app_teardown app))\<rparr>)"
    using hook_calls [of "\<lambda>_. AppTeardown" ?exc "\<lambda>x. x" "placed (ap_app_teardown app)" ?e2] by blast
  have run: "dispatch_finally app e = (case p of None \<Rightarrow> ret () | Some x \<Rightarrow> raise x)
      (?e2\<lparr>en_req := q3, en_user := u3, en_calls := en_calls ?e2 @ map (\<lambda>x. AppTeardown (fst x) ?exc) (placed (ap_app_teardown app))\<rparr>)"
    unfolding dispatch_finally_def bind_gets deps_def [symmetric] bind_run(2) [where c = deps, OF deps] case_prod_unfold
      seq_run(2) [where c = "for_each (\<lambda>x. call_hook (TeardownCall (fst x)) ?exc (snd x)) ?hs", OF hooks]
      seq_run(2) [where c = "for_each (\<lambda>x. call_hook AppTeardown ?exc x) (placed (ap_app_teardown app))", OF apps]
    by (rule refl)
  have sel: "map (\<lambda>x. TeardownCall (fst x) (fst (snd x)) ?exc) ?hs @ map (\<lambda>x. AppTeardown (fst x) ?exc) (placed (ap_app_teardown app))
      = closing_calls app (en_bp e) ?exc"
    using map_placed [of "\<lambda>i. TeardownCall None i ?exc" "ap_teardown app"]
      map_placed [of "\<lambda>i. TeardownCall (en_bp e) i ?exc" "scoped (en_bp e) (ap_bp_teardown app)"]
      map_placed [of "\<lambda>i. AppTeardown i ?exc" "ap_app_teardown app"]
    by (simp add: select_teardown_hooks_def closing_calls_def comp_def)
  show ?calls using run sel by (cases p) (simp_all add: ret_def raise_def)
  show ?quiet using run p by (cases p) (simp_all add: ret_def raise_def)
qed

section \<open>Teardown\<close>


end
