(* ===== verification/Dispatch_Phases.thy ===== *)
theory Dispatch_Phases
  imports Dispatch_Teardown
begin

text \<open>
  The response phase of the request pipeline: every answer has been through the middleware of its chain,
  once and in order, whatever hooks and handlers do. A program is judged by the calls it adds
  (\<open>answers\<close>), and the judgement is carried through the combinators.
\<close>

section \<open>The response phase\<close>

fun post_of :: "call \<Rightarrow> nat option" where
  "post_of (PostCall i) = Some i"
| "post_of _ = None"

definition posts :: "call list \<Rightarrow> nat list" where
  "posts cs = List.map_filter post_of cs"

lemma posts_simps [simp]: "posts [] = []" "posts (c # cs) = (case post_of c of None \<Rightarrow> posts cs | Some i \<Rightarrow> i # posts cs)"
  "posts (cs @ ds) = posts cs @ posts ds"
  by (simp_all add: posts_def map_filter_def split: option.split)

text \<open>The middlewares of a chain that implement the phase.\<close>

definition responders :: "('u, 'v) app \<Rightarrow> nat list \<Rightarrow> nat list" where
  "responders app ch = filter (\<lambda>i. mid_response (ap_middlewares app ! i) \<noteq> None) ch"

definition never_raises :: "('s, 'a) code \<Rightarrow> bool" where
  "never_raises c \<longleftrightarrow> (\<forall>s. \<exists>x s'. c s = (Inr x, s'))"

definition calm_responses :: "('u, 'v) app \<Rightarrow> bool" where
  "calm_responses app \<longleftrightarrow> (\<forall>mw \<in> set (ap_middlewares app). \<forall>c r. mid_response mw = Some c \<longrightarrow> never_raises (c r))"

definition calm_requests :: "('u, 'v) app \<Rightarrow> bool" where
  "calm_requests app \<longleftrightarrow> (\<forall>mw \<in> set (ap_middlewares app). \<forall>c. mid_request mw = Some c \<longrightarrow> never_raises c)"

text \<open>The chain of the response phase, as the two flags of the request say it.\<close>

definition chain_ok :: "('u, 'v) app \<Rightarrow> nat list \<Rightarrow> 'u env \<Rightarrow> bool" where
  "chain_ok app ch e \<longleftrightarrow> set ch \<subseteq> {..<length (ap_middlewares app)}
     \<and> (if en_excluded e then en_chain e = Some ch else en_chain e = None \<and> ch = rev (all_middlewares app))"

definition aside :: "'u env \<Rightarrow> 'u env \<Rightarrow> bool" where
  "aside e e' \<longleftrightarrow> en_chain e' = en_chain e \<and> en_excluded e' = en_excluded e
     \<and> (\<exists>cs. en_calls e' = en_calls e @ cs \<and> posts cs = [])"

interpretation aside: kept aside
proof
  fix e t u :: "'u env"
  show "aside e e" by (simp add: aside_def)
  show "aside e t \<Longrightarrow> aside t u \<Longrightarrow> aside e u" by (force simp: aside_def)
qed

lemma aside_call: "post_of label = None \<Longrightarrow> keeps aside (call label c)"
  by (auto simp: keeps_def call_def aside_def split: prod.split)

lemma aside_modify:
  "(\<And>e. en_calls (f e) = en_calls e \<and> en_chain (f e) = en_chain e \<and> en_excluded (f e) = en_excluded e) \<Longrightarrow> keeps aside (modify f)"
  by (simp add: keeps_def modify_def aside_def)

lemmas aside_rules = aside.keeps_rules keeps_option keeps_sum keeps_pair keeps_let

text \<open>A program that answers with \<open>D\<close> exactly when the response phase has run, once and whole.\<close>

definition answers_at :: "('u, 'v) app \<Rightarrow> nat list \<Rightarrow> ('a \<Rightarrow> bool) \<Rightarrow> ('u env, 'a) code \<Rightarrow> 'u env \<Rightarrow> bool" where
  "answers_at app ch D c e \<longleftrightarrow>
     chain_ok app ch (snd (c e)) \<and>
     (\<exists>cs. en_calls (snd (c e)) = en_calls e @ cs
       \<and> posts cs = (case fst (c e) of Inl x \<Rightarrow> [] | Inr y \<Rightarrow> if D y then responders app ch else []))"

definition answers :: "('u, 'v) app \<Rightarrow> nat list \<Rightarrow> ('a \<Rightarrow> bool) \<Rightarrow> ('u env, 'a) code \<Rightarrow> bool" where
  "answers app ch D c \<longleftrightarrow> (\<forall>e. chain_ok app ch e \<longrightarrow> answers_at app ch D c e)"

lemma answersD: "answers app ch D c \<Longrightarrow> chain_ok app ch e \<Longrightarrow> answers_at app ch D c e"
  by (simp add: answers_def)

lemma answers_aside: "keeps aside c \<Longrightarrow> (\<And>x. \<not> D x) \<Longrightarrow> answers app ch D c"
  unfolding answers_def answers_at_def
proof (intro allI impI conjI)
  fix e assume c: "keeps aside c" and D: "\<And>x. \<not> D x" and ok: "chain_ok app ch e"
  then have a: "aside e (snd (c e))" by (simp add: keeps_def)
  with ok show "chain_ok app ch (snd (c e))" by (simp add: aside_def chain_ok_def)
  from a D show "\<exists>cs. en_calls (snd (c e)) = en_calls e @ cs
      \<and> posts cs = (case fst (c e) of Inl x \<Rightarrow> [] | Inr y \<Rightarrow> if D y then responders app ch else [])"
    by (cases "fst (c e)") (auto simp: aside_def)
qed

lemma at_bind:
  assumes c: "answers_at app ch D c e"
    and stop: "\<And>x. D x \<Longrightarrow> \<exists>y. E y \<and> f x = ret y"
    and more: "\<And>x e'. \<not> D x \<Longrightarrow> chain_ok app ch e' \<Longrightarrow> c e = (Inr x, e') \<Longrightarrow> answers_at app ch E (f x) e'"
  shows "answers_at app ch E (bindc c f) e"
proof -
  obtain r e' where r: "c e = (r, e')" by (cases "c e")
  show ?thesis
  proof (cases r)
    case (Inl x)
    with c r show ?thesis by (simp add: answers_at_def bindc_def)
  next
    case (Inr x)
    show ?thesis
    proof (cases "D x")
      case True
      with stop obtain y where "E y" "f x = ret y" by blast
      with c r Inr True show ?thesis by (simp add: answers_at_def bindc_def ret_def)
    next
      case False
      obtain cs where cs: "en_calls e' = en_calls e @ cs" "posts cs = []" "chain_ok app ch e'"
        using c r Inr False by (auto simp: answers_at_def)
      have "answers_at app ch E (f x) e'" using more [OF False cs(3)] r Inr by simp
      then obtain ds where ds: "en_calls (snd (f x e')) = en_calls e @ cs @ ds"
        "posts (cs @ ds) = (case fst (f x e') of Inl x \<Rightarrow> [] | Inr y \<Rightarrow> if E y then responders app ch else [])"
        "chain_ok app ch (snd (f x e'))"
        using cs by (auto simp: answers_at_def)
      then show ?thesis using r Inr unfolding answers_at_def by (auto simp: bindc_def)
    qed
  qed
qed

lemma answers_bind:
  "answers app ch D c \<Longrightarrow> (\<And>x. D x \<Longrightarrow> \<exists>y. E y \<and> f x = ret y) \<Longrightarrow> (\<And>x. \<not> D x \<Longrightarrow> answers app ch E (f x)) \<Longrightarrow>
   answers app ch E (bindc c f)"
  unfolding answers_def
proof (intro allI impI)
  fix e assume c: "\<forall>e. chain_ok app ch e \<longrightarrow> answers_at app ch D c e" and stop: "\<And>x. D x \<Longrightarrow> \<exists>y. E y \<and> f x = ret y"
    and go: "\<And>x. \<not> D x \<Longrightarrow> \<forall>e. chain_ok app ch e \<longrightarrow> answers_at app ch E (f x) e" and ok: "chain_ok app ch e"
  show "answers_at app ch E (bindc c f) e"
    by (rule at_bind [OF c [rule_format, OF ok] stop]) (use go in auto)
qed

lemma answers_after: "keeps aside c \<Longrightarrow> (\<And>x. answers app ch E (f x)) \<Longrightarrow> answers app ch E (bindc c f)"
  by (rule answers_bind [where D = "\<lambda>_. False"]) (auto intro: answers_aside)

lemma answers_seq: "keeps aside c \<Longrightarrow> answers app ch E d \<Longrightarrow> answers app ch E (seqc c d)"
  unfolding seqc_def by (rule answers_after)

lemma answers_then: "answers app ch D c \<Longrightarrow> (\<And>x. \<exists>y. E y \<and> f x = ret y) \<Longrightarrow> (\<And>x. D x) \<Longrightarrow> answers app ch E (bindc c f)"
  by (rule answers_bind) auto

lemma answers_ret: "\<not> D x \<Longrightarrow> answers app ch D (ret x)"
  by (auto simp: answers_def answers_at_def ret_def)

lemma answers_raise: "answers app ch D (raise x)"
  by (auto simp: answers_def answers_at_def raise_def)

lemma answers_gets: "(\<And>e. chain_ok app ch e \<Longrightarrow> answers_at app ch E (f (g e)) e) \<Longrightarrow> answers app ch E (bindc (gets g) f)"
  by (simp add: answers_def answers_at_def bind_gets)

lemma answers_first: "(\<And>x. answers app ch (\<lambda>r. r \<noteq> None) (f x)) \<Longrightarrow> answers app ch (\<lambda>r. r \<noteq> None) (first_answer f xs)"
proof (induction xs)
  case Nil
  show ?case by (simp add: answers_ret)
next
  case (Cons x xs)
  then have rest: "answers app ch (\<lambda>r. r \<noteq> None) (first_answer f xs)" by blast
  show ?case unfolding first_answer.simps
    by (rule answers_bind [OF Cons.prems [of x]]) (use rest in \<open>auto split: option.split\<close>)
qed

lemma response_call:
  assumes "calm_responses app" "i < length (ap_middlewares app)"
  shows "\<exists>r' q u. call_response app i r e
    = (Inr r', e\<lparr>en_req := q, en_user := u, en_calls := en_calls e @ map PostCall (responders app [i])\<rparr>)"
proof (cases "mid_response (ap_middlewares app ! i)")
  case None
  then show ?thesis using same_env by (simp add: call_response_def ret_def responders_def)
next
  case (Some c)
  then have "never_raises (c r)" using assms nth_mem unfolding calm_responses_def by blast
  then obtain x q u where "c r (en_req e, en_user e) = (Inr x, (q, u))" unfolding never_raises_def by (metis surj_pair)
  with Some show ?thesis by (auto simp: call_response_def call_def responders_def)
qed

lemma posts_map [simp]: "posts (map PostCall is) = is"
  by (induction "is") simp_all

lemma response_calls:
  assumes "calm_responses app"
  shows "set ch \<subseteq> {..<length (ap_middlewares app)} \<Longrightarrow> \<exists>r' q u. hand_on (call_response app) ch r e
    = (Inr r', e\<lparr>en_req := q, en_user := u, en_calls := en_calls e @ map PostCall (responders app ch)\<rparr>)"
proof (induction ch arbitrary: r e)
  case Nil
  show ?case using same_env by (simp add: ret_def responders_def)
next
  case (Cons i ch)
  obtain r1 q u where 1: "call_response app i r e
      = (Inr r1, e\<lparr>en_req := q, en_user := u, en_calls := en_calls e @ map PostCall (responders app [i])\<rparr>)"
    using response_call [OF assms, of i r e] Cons.prems by auto
  let ?e = "e\<lparr>en_req := q, en_user := u, en_calls := en_calls e @ map PostCall (responders app [i])\<rparr>"
  have "responders app (i # ch) = responders app [i] @ responders app ch" by (simp add: responders_def)
  moreover obtain r2 q2 u2 where "hand_on (call_response app) ch r1 ?e
      = (Inr r2, ?e\<lparr>en_req := q2, en_user := u2, en_calls := en_calls ?e @ map PostCall (responders app ch)\<rparr>)"
    using Cons.IH [of r1 ?e] Cons.prems by auto
  ultimately show ?case using 1 by (simp add: bindc_def) blast
qed

lemma chain_run:
  assumes "calm_responses app" "set ch \<subseteq> {..<length (ap_middlewares app)}"
  shows "\<exists>r' q u. hand_on (call_response app) ch r e = (Inr r', e\<lparr>en_req := q, en_user := u, en_calls := en_calls e @ map PostCall (responders app ch)\<rparr>)"
  using response_calls [OF assms] .

lemma middleware_at:
  assumes "calm_responses app" "chain_ok app ch e"
  shows "answers_at app ch (\<lambda>_. True) (run_response_middleware app r) e"
proof -
  have "(case en_chain e of None \<Rightarrow> rev (all_middlewares app) | Some c \<Rightarrow> c) = ch" "set ch \<subseteq> {..<length (ap_middlewares app)}"
    using assms(2) by (auto simp: chain_ok_def split: if_splits)
  with chain_run [OF assms(1), of ch r e] assms(2) show ?thesis
    by (auto simp: answers_at_def run_response_middleware_def bind_gets chain_ok_def)
qed

lemma phase_at:
  assumes "calm_responses app" "chain_ok app ch e" "b = en_excluded e"
  shows "answers_at app ch (\<lambda>_. True) (run_response_phase app r b) e"
proof (cases b)
  case True
  with middleware_at [OF assms(1,2)] show ?thesis by (simp add: run_response_phase_def answers_at_def)
next
  case False
  then have "ch = rev (all_middlewares app)" "set ch \<subseteq> {..<length (ap_middlewares app)}"
    using assms(2,3) by (auto simp: chain_ok_def)
  with chain_run [OF assms(1), of ch r e] assms(2) False show ?thesis
    by (auto simp: answers_at_def run_response_phase_def chain_ok_def)
qed

lemma answers_middleware: "calm_responses app \<Longrightarrow> answers app ch (\<lambda>_. True) (run_response_middleware app r)"
  by (simp add: answers_def middleware_at)

lemma answers_phase: "calm_responses app \<Longrightarrow> answers app ch (\<lambda>_. True) (bindc (gets en_excluded) (run_response_phase app r))"
  by (rule answers_gets) (rule phase_at; simp)

lemma aside_parts:
  "keeps aside blueprints_now" "keeps aside (dispatch_exc_handler app h exc)" "keeps aside (call_request app i)"
  "keeps aside (run_url_value_preprocessors app ep)" "keeps aside (run_after_hooks app r bp)"
  "keeps aside (build_response app ro result)" "keeps aside (resolve_dependencies ro)" "keeps aside (call HandlerCall c)"
proof -
  show "keeps aside blueprints_now" unfolding blueprints_now_def by (rule aside.keeps_gets)
  show "keeps aside (dispatch_exc_handler app h exc)" unfolding dispatch_exc_handler_def by (intro aside_rules aside_call; simp)
  show "keeps aside (call_request app i)" unfolding call_request_def by (intro aside_rules aside_call; simp)
  show "keeps aside (run_url_value_preprocessors app ep)"
    unfolding run_url_value_preprocessors_def call_params_def by (intro aside_rules aside_call; simp)
  show "keeps aside (run_after_hooks app r bp)"
    unfolding run_after_hooks_def call_after_def call_one_shot_def by (intro aside_rules aside_call; simp)
  show "keeps aside (build_response app ro result)" unfolding build_response_def by (intro aside_rules)
  show "keeps aside (resolve_dependencies ro)"
    by (auto simp: keeps_def resolve_dependencies_def aside_def Let_def code_simps split: plan_kind.split prod.split sum.split)
  show "keeps aside (call HandlerCall c)" by (rule aside_call) simp
qed

lemma answers_ret_bare: "ap_middlewares app = [] \<Longrightarrow> answers app ch D (ret x)"
  by (auto simp: answers_def answers_at_def ret_def chain_ok_def responders_def)

lemma answers_bare: "ap_middlewares app = [] \<Longrightarrow> keeps aside c \<Longrightarrow> answers app ch D c"
  unfolding answers_def
proof (intro allI impI)
  fix e assume m: "ap_middlewares app = []" and c: "keeps aside c" and ok: "chain_ok app ch e"
  have "responders app ch = []" using ok m by (auto simp: chain_ok_def responders_def)
  moreover have "aside e (snd (c e))" using c by (simp add: keeps_def)
  ultimately show "answers_at app ch D c e" using ok by (auto simp: answers_at_def aside_def chain_ok_def split: sum.split)
qed

abbreviation whole :: "('u, 'v) app \<Rightarrow> nat list \<Rightarrow> ('u env, response) code \<Rightarrow> bool" where
  "whole app ch \<equiv> answers app ch (\<lambda>_. True)"

lemma whole_error: "calm_responses app \<Longrightarrow> whole app ch (handle_error app status fallback exc)"
  unfolding handle_error_def
  by (rule answers_after [OF aside_parts(1)], rule answers_after [OF _ answers_middleware])
    (assumption | intro aside_rules aside_parts)+

lemma whole_http:
  assumes calm: "calm_responses app"
  shows "whole app ch (http_exception_response app exc)"
proof (cases "ap_middlewares app = []")
  case True
  then show ?thesis unfolding http_exception_response_def
    by (intro answers_bare) (simp_all, intro aside_rules aside_parts)
next
  case False
  then have *: "(\<lambda>r. if ap_middlewares app = [] then ret r else bindc (gets en_excluded) (run_response_phase app r))
      = (\<lambda>r. bindc (gets en_excluded) (run_response_phase app r))" by simp
  show ?thesis unfolding http_exception_response_def *
    by (rule answers_after [OF aside_parts(1)], rule answers_after [OF _ answers_phase [OF calm]], intro aside_rules aside_parts)
qed

lemma whole_shape: "calm_responses app \<Longrightarrow> whole app ch (shape_server_error app exc)"
  unfolding shape_server_error_def
  by (rule answers_after [OF aside.keeps_gets]) (auto split: option.split intro: answers_phase whole_error)

lemma whole_exception:
  assumes calm: "calm_responses app"
  shows "whole app ch (answer_exception app exc)"
proof -
  have handler: "whole app ch (run_exc_handler_response app h exc)" for h
    unfolding run_exc_handler_response_def by (rule answers_after [OF aside_parts(2) answers_phase [OF calm]])
  have "whole app ch (if ap_propagate app then raise exc else shape_server_error app exc)"
    by (simp add: answers_raise whole_shape [OF calm])
  then have "whole app ch (case find_scoped_exception_handler app (ex_class exc) bps of
            Some h \<Rightarrow> run_exc_handler_response app h exc
          | None \<Rightarrow> seqc (modify (\<lambda>e. e\<lparr>en_error_type := Some (ex_class exc)\<rparr>))
                (if ap_propagate app then raise exc else shape_server_error app exc))" for bps
    by (auto split: option.split intro!: handler answers_seq aside_modify)
  then have "whole app ch (bindc blueprints_now (\<lambda>bps. case find_scoped_exception_handler app (ex_class exc) bps of
            Some h \<Rightarrow> run_exc_handler_response app h exc
          | None \<Rightarrow> seqc (modify (\<lambda>e. e\<lparr>en_error_type := Some (ex_class exc)\<rparr>))
                (if ap_propagate app then raise exc else shape_server_error app exc)))"
    by (rule answers_after [OF aside_parts(1)])
  then show ?thesis unfolding answer_exception_def using whole_http [OF calm]
    by (cases "ex_http exc") simp_all
qed

lemma whole_handle_exception: "calm_responses app \<Longrightarrow> whole app ch (handle_exception app exc)"
  unfolding handle_exception_def by (rule answers_seq [OF aside_modify whole_exception]) simp_all

lemma whole_unmatched:
  assumes calm: "calm_responses app"
  shows "whole app ch (answer_unmatched app)"
  unfolding answer_unmatched_def
proof (rule answers_after [OF aside.keeps_gets], rule answers_gets)
  fix q :: http_request and e
  assume ok: "chain_ok app ch e"
  have redirect: "answers_at app ch (\<lambda>_. True) (bindc (lift_res x) (\<lambda>r. run_response_phase app r (en_excluded e))) e" for x
  proof (cases x)
    case (Inl y)
    with ok show ?thesis by (simp add: answers_at_def bindc_def lift_res_def)
  next
    case (Inr r)
    with phase_at [OF calm ok refl, of r] show ?thesis by (simp add: answers_at_def bindc_def lift_res_def)
  qed
  have raises: "answers_at app ch (\<lambda>_. True) (raise not_found :: (_, response) code) e"
    by (rule answersD [OF answers_raise ok])
  show "answers_at app ch (\<lambda>_. True)
    (let alt = slash_alternative (hq_path q); allowed = ap_allowed app (hq_path q) in
     if ap_redirect_slashes app \<and> ap_match app (hq_method q) alt \<noteq> None
     then bindc (lift_res (redirect_to app (redirect_target (hq_root_path q) alt) (if hq_method q \<noteq> ''GET'' then 308 else 307)))
            (\<lambda>r. run_response_phase app r (en_excluded e))
     else if allowed \<noteq> []
     then if hq_method q = ''OPTIONS''
          then run_response_phase app (default_options_response allowed) (en_excluded e)
          else (let exc = method_not_allowed allowed
                in handle_error app 405 (plain_response 405 (ap_payload app (NotAllowedPayload ''Method Not Allowed'' allowed)) (exn_headers exc)) exc)
     else raise not_found) e"
    unfolding Let_def
    using redirect phase_at [OF calm ok refl] answersD [OF whole_error [OF calm] ok] raises
    by simp
qed

lemma whole_before:
  assumes calm: "calm_responses app"
  shows "answers app ch (\<lambda>x. fst x \<noteq> None) (run_before_hooks app)"
proof -
  have "answers app ch (\<lambda>r. r \<noteq> None) (call_before app bp h)" for bp h
    unfolding call_before_def
  proof (rule answers_after, rule aside_call, simp)
    fix result
    have "answers app ch (\<lambda>r. r \<noteq> None) (bindc (run_response_middleware app r) (\<lambda>r1. ret (Some r1)))" for r
      by (rule answers_then [OF answers_middleware [OF calm]]) auto
    then show "answers app ch (\<lambda>r. r \<noteq> None) (case result of None \<Rightarrow> ret None
       | Some v \<Rightarrow> bindc (lift_res (coerce_response app None v)) (\<lambda>r. bindc (run_response_middleware app r) (\<lambda>r1. ret (Some r1))))"
      by (cases result) (auto intro: answers_ret answers_after [OF aside.keeps_lift])
  qed
  then have first: "answers app ch (\<lambda>r. r \<noteq> None) (first_answer (call_before app bp) hs)" for bp hs
    by (rule answers_first)
  have scoped: "answers app ch (\<lambda>x. fst x \<noteq> None)
      (bindc (first_answer (call_before app bp) hs) (\<lambda>early. ret (early, bp)))" for bp hs
    by (rule answers_bind [OF first]) (auto intro: answers_ret)
  show ?thesis
    unfolding run_before_hooks_def
  proof (rule answers_bind [OF first])
    show "\<exists>y. fst y \<noteq> None \<and> (case x of None \<Rightarrow> bindc (gets (\<lambda>e. endpoint_blueprint (hq_endpoint (en_req e)))) (\<lambda>bp.
             bindc (first_answer (call_before app bp) (placed (scoped bp (ap_bp_before app)))) (\<lambda>early. ret (early, bp)))
         | Some r \<Rightarrow> ret (Some r, None)) = ret y" if "x \<noteq> None" for x
      using that by (intro exI [of _ "(x, None)"]) auto
  qed (auto intro!: answers_after [OF aside.keeps_gets] scoped [simplified])
qed

lemma whole_resolve:
  assumes calm: "calm_responses app"
  shows "answers app ch isl (resolve_route app m path method')"
proof -
  have inl: "\<exists>y. isl y \<and> ret (Inl r) = ret y" for r :: response
    by (rule exI [of _ "Inl r"]) simp
  have left: "answers app ch isl (bindc (run_response_middleware app r) (\<lambda>r1. ret (Inl r1)))" for r
    by (rule answers_then [OF answers_middleware [OF calm]]) (auto intro: inl)
  have unmatched: "answers app ch isl (bindc (answer_unmatched app) (\<lambda>r. ret (Inl r)))"
    by (rule answers_then [OF whole_unmatched [OF calm]]) (auto intro: inl)
  show ?thesis
    unfolding resolve_route_def try_mount_def
    by (rule answers_after, intro aside_rules aside_call, simp)
      (auto split: option.split intro!: left unmatched answers_after answers_seq answers_ret answers_raise
        aside_rules aside_call aside_modify aside_parts simp: Let_def set_endpoint_def)
qed

lemma whole_route: "calm_responses app \<Longrightarrow> whole app ch (run_route app ro)"
  unfolding run_route_def
  by (intro answers_after answers_seq answers_phase aside_rules aside_modify aside_parts; simp)

text \<open>A step that always goes on and makes no call of the phase.\<close>

definition passes :: "('a \<Rightarrow> bool) \<Rightarrow> ('u env, 'a) code \<Rightarrow> bool" where
  "passes E c \<longleftrightarrow> (\<forall>e. \<exists>y e'. c e = (Inr y, e') \<and> E y \<and> aside e e')"

lemma answers_pass:
  assumes c: "answers app ch D c" and stop: "\<And>x. D x \<Longrightarrow> passes E (f x)" and more: "\<And>x. \<not> D x \<Longrightarrow> answers app ch E (f x)"
  shows "answers app ch E (bindc c f)"
  unfolding answers_def
proof (intro allI impI)
  fix e assume ok: "chain_ok app ch e"
  obtain r e' where r: "c e = (r, e')" by (cases "c e")
  have at: "answers_at app ch D c e" using c ok by (simp add: answers_def)
  show "answers_at app ch E (bindc c f) e"
  proof (cases "\<exists>x. r = Inr x \<and> D x")
    case True
    then obtain x where x: "r = Inr x" "D x" by blast
    obtain y e2 where y: "f x e' = (Inr y, e2)" "E y" "aside e' e2" using stop [OF x(2)] unfolding passes_def by blast
    with at r x show ?thesis by (auto simp: answers_at_def bindc_def aside_def chain_ok_def)
  next
    case False
    show ?thesis
    proof (cases r)
      case (Inl x)
      with at r show ?thesis by (simp add: answers_at_def bindc_def)
    next
      case (Inr x)
      with False have D: "\<not> D x" by blast
      obtain cs where cs: "en_calls e' = en_calls e @ cs" "posts cs = []" "chain_ok app ch e'"
        using at r Inr D by (auto simp: answers_at_def)
      have "answers_at app ch E (f x) e'" using more [OF D] cs(3) by (simp add: answers_def)
      then show ?thesis using r Inr cs unfolding answers_at_def by (auto simp: bindc_def)
    qed
  qed
qed

text \<open>The chain of a request is that of its first match.\<close>

definition response_chain :: "('u, 'v) app \<Rightarrow> ('u, 'v) matched option \<Rightarrow> nat list" where
  "response_chain app m =
     (case Option.bind m (\<lambda>x. ro_excluded (mt_route x)) of
        None \<Rightarrow> rev (all_middlewares app)
      | Some excluded \<Rightarrow> snd (route_middleware_chains app excluded))"

lemma response_chain_set: "set (response_chain app m) \<subseteq> {..<length (ap_middlewares app)}"
  by (auto simp: response_chain_def route_middleware_chains_def all_middlewares_def Let_def split: option.splits prod.splits)

lemma calm_request_call: "calm_requests app \<Longrightarrow> i < length (ap_middlewares app) \<Longrightarrow> \<exists>x e'. call_request app i e = (Inr x, e')"
proof -
  assume calm: "calm_requests app" and i: "i < length (ap_middlewares app)"
  show "\<exists>x e'. call_request app i e = (Inr x, e')"
  proof (cases "mid_request (ap_middlewares app ! i)")
    case (Some c)
    then have "never_raises c" using calm i nth_mem unfolding calm_requests_def by blast
    then obtain x s where "c (en_req e, en_user e) = (Inr x, s)" unfolding never_raises_def by blast
    with Some show ?thesis by (simp add: call_request_def call_def split: prod.split)
  qed (simp add: call_request_def ret_def)
qed

lemma calm_first_answer:
  "calm_requests app \<Longrightarrow> set is \<subseteq> {..<length (ap_middlewares app)} \<Longrightarrow> \<exists>x e'. first_answer (call_request app) is e = (Inr x, e')"
proof (induction "is" arbitrary: e)
  case (Cons i "is")
  obtain x e1 where "call_request app i e = (Inr x, e1)" using calm_request_call Cons.prems by force
  moreover obtain y e2 where "first_answer (call_request app) is e1 = (Inr y, e2)" using Cons by force
  ultimately show ?case by (cases x) (simp_all add: bindc_def ret_def)
qed (simp add: ret_def)

lemma first_answer_aside: "keeps aside (first_answer (call_request app) is)"
  by (intro aside_rules aside_parts)

text \<open>The request phase and what follows it.\<close>

definition after_phase :: "(response option \<Rightarrow> ('u env, 'a) code) \<Rightarrow> response option \<times> bool \<Rightarrow> ('u env, 'a) code" where
  "after_phase k = (\<lambda>(early, excluded). seqc (modify (\<lambda>e. e\<lparr>en_excluded := excluded\<rparr>)) (k early))"

lemma same_flag: "en_excluded e = b \<Longrightarrow> e\<lparr>en_excluded := b\<rparr> = e"
  by auto

lemma unfiltered_phase:
  fixes app :: "('u, 'v) app" and e :: "'u env"
  assumes calm: "calm_responses app" and ok: "en_chain e = None" "\<not> en_excluded e"
    and m: "Option.bind m (\<lambda>x. ro_excluded (mt_route x)) = None"
    and stop: "\<And>r. k (Some r) = ret r" and k: "whole app (response_chain app m) (k None)"
  shows "answers_at app (response_chain app m) (\<lambda>_. True) (bindc (run_request_phase app m) (after_phase k)) e"
proof -
  let ?ch = "response_chain app m"
  have ch: "?ch = rev (all_middlewares app)" using m by (simp add: response_chain_def)
  obtain r e1 where r: "first_answer (call_request app) (all_middlewares app) e = (r, e1)"
    by (cases "first_answer (call_request app) (all_middlewares app) e")
  have "aside e e1" using first_answer_aside r by (metis keeps_def snd_conv)
  then obtain cs where e1: "en_chain e1 = None" "\<not> en_excluded e1" "en_calls e1 = en_calls e @ cs" "posts cs = []"
    using ok by (auto simp: aside_def)
  have ok1: "chain_ok app ?ch e1" using response_chain_set [of app m] e1 ch by (simp add: chain_ok_def)
  have run: "run_request_phase app m e = (case r of Inl x \<Rightarrow> (Inl x, e1)
      | Inr None \<Rightarrow> (Inr (None, False), e1)
      | Inr (Some y) \<Rightarrow> bindc (run_response_phase app y False) (\<lambda>r1. ret (Some r1, False)) e1)"
    using m r by (auto simp: run_request_phase_def bindc_def ret_def split: sum.split option.split)
  consider (raises) x where "r = Inl x" | (on) "r = Inr None" | (early) y where "r = Inr (Some y)"
    by (cases r) auto
  then show ?thesis
  proof cases
    case raises
    with run e1 ok1 show ?thesis by (simp add: answers_at_def bindc_def)
  next
    case on
    then have "bindc (run_request_phase app m) (after_phase k) e = k None e1"
      using run e1(2) by (simp add: bindc_def after_phase_def seq_modify same_flag)
    with answersD [OF k ok1] e1 show ?thesis by (auto simp: answers_at_def)
  next
    case early
    obtain z q u where z: "run_response_phase app y False e1
        = (Inr z, e1\<lparr>en_req := q, en_user := u, en_calls := en_calls e1 @ map PostCall (responders app ?ch)\<rparr>)"
      using chain_run [OF calm response_chain_set, of m y e1] ch unfolding run_response_phase_def by auto
    let ?e2 = "e1\<lparr>en_req := q, en_user := u, en_calls := en_calls e1 @ map PostCall (responders app ?ch)\<rparr>"
    have "bindc (run_request_phase app m) (after_phase k) e = (Inr z, ?e2)"
      using run early z e1(2) by (simp add: bindc_def after_phase_def seq_modify ret_def stop same_flag)
    moreover have "set (all_middlewares app) \<subseteq> {..<length (ap_middlewares app)}" by (auto simp: all_middlewares_def)
    ultimately show ?thesis using e1 ok1 by (simp add: answers_at_def chain_ok_def)
  qed
qed

lemma filtered_phase:
  fixes app :: "('u, 'v) app" and e :: "'u env"
  assumes calm: "calm_responses app" "calm_requests app"
    and m: "Option.bind m (\<lambda>x. ro_excluded (mt_route x)) = Some excluded"
    and stop: "\<And>r. k (Some r) = ret r" and k: "whole app (response_chain app m) (k None)"
  shows "answers_at app (response_chain app m) (\<lambda>_. True) (bindc (run_request_phase app m) (after_phase k)) e"
proof -
  let ?ch = "response_chain app m"
  obtain req where chains: "route_middleware_chains app excluded = (req, ?ch)"
    using m by (cases "route_middleware_chains app excluded") (simp add: response_chain_def)
  then have req: "set req \<subseteq> {..<length (ap_middlewares app)}"
    by (auto simp: route_middleware_chains_def all_middlewares_def Let_def split: prod.splits)
  let ?e0 = "e\<lparr>en_chain := Some ?ch\<rparr>"
  define run0 where "run0 = first_answer (call_request app) req ?e0"
  have "\<exists>r e1. run0 = (Inr r, e1)" unfolding run0_def by (rule calm_first_answer [OF calm(2) req])
  then obtain r e1 where "run0 = (Inr r, e1)" by (elim exE)
  then have r: "first_answer (call_request app) req ?e0 = (Inr r, e1)" by (simp only: run0_def)
  have "keeps aside (first_answer (call_request app) req)" by (rule first_answer_aside)
  then have "aside ?e0 (snd (first_answer (call_request app) req ?e0))" unfolding keeps_def by (rule spec)
  then have "aside ?e0 e1" unfolding r by simp
  then obtain cs where e1: "en_chain e1 = Some ?ch" "en_calls e1 = en_calls e @ cs" "posts cs = []"
    by (auto simp: aside_def)
  let ?e1 = "e1\<lparr>en_excluded := True\<rparr>"
  have ok1: "chain_ok app ?ch ?e1" using response_chain_set [of app m] e1 by (simp add: chain_ok_def)
  have run: "run_request_phase app m e = (case r of
        None \<Rightarrow> (Inr (None, True), e1)
      | Some y \<Rightarrow> bindc (run_response_middleware app y) (\<lambda>r1. ret (Some r1, True)) e1)"
    using m r chains by (auto simp: run_request_phase_def seq_modify bindc_def ret_def split: option.split)
  show ?thesis
  proof (cases r)
    case None
    then have "bindc (run_request_phase app m) (after_phase k) e = k None ?e1"
      using run by (simp add: bindc_def after_phase_def seq_modify)
    with answersD [OF k ok1] e1 show ?thesis by (auto simp: answers_at_def)
  next
    case (Some y)
    obtain z q u where z: "run_response_middleware app y e1
        = (Inr z, e1\<lparr>en_req := q, en_user := u, en_calls := en_calls e1 @ map PostCall (responders app ?ch)\<rparr>)"
      using chain_run [OF calm(1) response_chain_set, of m y e1] e1(1) unfolding run_response_middleware_def by (auto simp: bind_gets)
    have "bindc (run_request_phase app m) (after_phase k) e
        = (Inr z, e1\<lparr>en_req := q, en_user := u, en_calls := en_calls e1 @ map PostCall (responders app ?ch), en_excluded := True\<rparr>)"
      using run Some z by (simp add: bindc_def after_phase_def seq_modify ret_def stop)
    with e1 ok1 show ?thesis by (simp add: answers_at_def chain_ok_def)
  qed
qed

text \<open>The body of \<open>_dispatch_request\<close>, on the match it starts with.\<close>

definition first_match :: "('u, 'v) app \<Rightarrow> ('u, 'v) matched option \<Rightarrow> 'u env \<Rightarrow> ('u, 'v) matched option" where
  "first_match app given_match e = (if given_match = None then ap_match app (hq_method (en_req e)) (hq_path (en_req e)) else given_match)"

definition filtered :: "('u, 'v) matched option \<Rightarrow> bool" where
  "filtered m \<longleftrightarrow> Option.bind m (\<lambda>x. ro_excluded (mt_route x)) \<noteq> None"

lemma no_middlewares: "ap_middlewares app = [] \<Longrightarrow> response_chain app m = []"
  using response_chain_set [of app m] by simp

lemma full_path_at:
  fixes app :: "('u, 'v) app"
  assumes calm: "calm_responses app" "filtered m \<Longrightarrow> calm_requests app" and e: "en_chain e = None" "\<not> en_excluded e"
  shows "answers_at app (response_chain app m) (\<lambda>_. True) (full_path app m path method') e"
proof -
  let ?ch = "response_chain app m"
  define k where "k = (\<lambda>early. case early of
            Some r \<Rightarrow> ret r
          | None \<Rightarrow>
              bindc (if ap_before app \<noteq> [] \<or> ap_bp_before app \<noteq> [] then run_before_hooks app
                     else bindc (gets (\<lambda>e. endpoint_blueprint (hq_endpoint (en_req e)))) (\<lambda>bp. ret (None, bp))) (\<lambda>(early, bp).
                seqc (modify (\<lambda>e. e\<lparr>en_bp := bp\<rparr>))
                  (case early of
                     Some r \<Rightarrow> ret r
                   | None \<Rightarrow>
                       bindc (resolve_route app m path method') (\<lambda>resolved.
                         case resolved of Inl r \<Rightarrow> ret r | Inr x \<Rightarrow> run_route app (mt_route x)))))"
  have full: "full_path app m path method' = bindc (if ap_middlewares app \<noteq> [] \<or> filtered m
            then run_request_phase app m else ret (None, False)) (after_phase k)"
    by (simp add: full_path_def after_phase_def k_def filtered_def)
  have stop: "k (Some r) = ret r" for r by (simp add: k_def)
  have before: "answers app ?ch (\<lambda>x. fst x \<noteq> None) (if ap_before app \<noteq> [] \<or> ap_bp_before app \<noteq> [] then run_before_hooks app
                     else bindc (gets (\<lambda>e. endpoint_blueprint (hq_endpoint (en_req e)))) (\<lambda>bp. ret (None, bp)))"
  proof -
    have "answers app ?ch (\<lambda>x. fst x \<noteq> None) (bindc (gets (\<lambda>e. endpoint_blueprint (hq_endpoint (en_req e)))) (\<lambda>bp. ret (None, bp)))"
      by (rule answers_after [OF aside.keeps_gets], rule answers_ret) simp
    with whole_before [OF calm(1), of ?ch] show ?thesis by (simp only: split: if_split) blast
  qed
  have "whole app ?ch (bindc (resolve_route app m path method') (\<lambda>resolved.
                         case resolved of Inl r \<Rightarrow> ret r | Inr x \<Rightarrow> run_route app (mt_route x)))"
    by (rule answers_bind [OF whole_resolve [OF calm(1)]]) (auto simp: isl_def intro: whole_route [OF calm(1)] split: sum.split)
  then have k: "whole app ?ch (k None)" unfolding k_def option.case
  proof (intro answers_pass [OF before])
    fix x :: "response option \<times> string option"
    assume "fst x \<noteq> None"
    then show "passes (\<lambda>_. True) (case x of (early, bp) \<Rightarrow> seqc (modify (\<lambda>e. e\<lparr>en_bp := bp\<rparr>))
                  (case early of Some r \<Rightarrow> ret r
                   | None \<Rightarrow> bindc (resolve_route app m path method') (\<lambda>resolved.
                         case resolved of Inl r \<Rightarrow> ret r | Inr x \<Rightarrow> run_route app (mt_route x))))"
      by (cases x) (auto simp: passes_def seq_modify ret_def aside_def)
  qed (auto intro!: answers_seq aside_modify)
  consider (plain) "\<not> filtered m" "ap_middlewares app = []" | (all) "\<not> filtered m" "ap_middlewares app \<noteq> []" | (some) "filtered m"
    by blast
  then show ?thesis
  proof cases
    case plain
    have "chain_ok app ?ch e" using e plain no_middlewares [of app m] by (simp add: chain_ok_def all_middlewares_def)
    with answersD [OF k this] plain e show ?thesis
      by (simp add: full answers_at_def bindc_def ret_def after_phase_def seq_modify same_flag)
  next
    case all
    then have "Option.bind m (\<lambda>x. ro_excluded (mt_route x)) = None" by (simp only: filtered_def not_not)
    from unfiltered_phase [OF calm(1) e this stop k] all show ?thesis by (simp add: full)
  next
    case some
    then obtain excluded where "Option.bind m (\<lambda>x. ro_excluded (mt_route x)) = Some excluded" by (auto simp: filtered_def)
    with filtered_phase [OF calm(1) calm(2) this stop k] some show ?thesis by (simp add: full)
  qed
qed

lemma aside_fast: "keeps aside (fast_path app x)"
  unfolding fast_path_def call_params_def
  by (intro aside_rules aside_parts aside_modify aside_call; simp)

lemma body_at:
  assumes calm: "calm_responses app" "filtered (first_match app given_match e) \<Longrightarrow> calm_requests app"
    and e: "en_chain e = None" "\<not> en_excluded e"
  shows "answers_at app (response_chain app (first_match app given_match e)) (\<lambda>_. True) (dispatch_body app given_match) e"
proof -
  let ?m = "first_match app given_match e"
  let ?q = "en_req e"
  let ?full = "full_path app ?m (hq_path ?q) (hq_method ?q)"
  show ?thesis
  proof (cases ?m)
    case None
    then have "dispatch_body app given_match e = ?full e"
      by (simp add: dispatch_body_def bind_gets first_match_def Let_def)
    with full_path_at [OF calm e] show ?thesis by (simp only: answers_at_def)
  next
    case (Some x)
    let ?e = "set_endpoint x e"
    have run: "dispatch_body app given_match e = (if is_bare app \<and> is_fast_eligible (mt_route x) then fast_path app x else ?full) ?e"
      using Some by (simp add: dispatch_body_def bind_gets first_match_def Let_def seq_modify)
    have e': "en_chain ?e = None" "\<not> en_excluded ?e" "en_calls ?e = en_calls e" using e by (simp_all add: set_endpoint_def)
    show ?thesis
    proof (cases "is_bare app \<and> is_fast_eligible (mt_route x)")
      case True
      then have "ap_middlewares app = []" by (simp add: is_bare_def)
      moreover from this have "chain_ok app (response_chain app ?m) ?e"
        using e' no_middlewares [of app ?m] by (simp add: chain_ok_def all_middlewares_def)
      ultimately have "answers_at app (response_chain app ?m) (\<lambda>_. True) (fast_path app x) ?e"
        using answersD [OF answers_bare [OF _ aside_fast]] by blast
      then show ?thesis using run True e'(3) by (simp add: answers_at_def)
    next
      case False
      then have run: "dispatch_body app given_match e = ?full ?e" unfolding run by (simp only: if_False)
      from full_path_at [OF calm e'(1,2)] show ?thesis unfolding answers_at_def run e'(3) .
    qed
  qed
qed

section \<open>The response phase runs once\<close>

text \<open>C3: An answered request has been through the response phase exactly once, over the middlewares of the
  route it first matched - those the route excludes left out - innermost first, and over no other,
  whether the answer is the handler's, a hook's, a middleware's own, a redirect, or shaped from an
  exception. Response phases do not raise; where a route excludes middleware, request phases do not
  either.\<close>

theorem response_phase_once:
  assumes "calm_responses app" and "filtered (first_match app given_match e) \<Longrightarrow> calm_requests app"
    and "en_chain e = None" and "dispatch_request app given_match e = (Inr r, e')"
  shows "\<exists>cs. en_calls e' = en_calls e @ cs \<and> posts cs = responders app (response_chain app (first_match app given_match e))"
proof -
  let ?e = "fresh_locals e" and ?ch = "response_chain app (first_match app given_match e)"
  let ?run = "catch (dispatch_body app given_match) (handle_exception app)"
  have fm: "first_match app given_match ?e = first_match app given_match e" by (simp add: first_match_def fresh_locals_def)
  have body: "answers_at app ?ch (\<lambda>_. True) (dispatch_body app given_match) ?e"
    using body_at [of app given_match ?e] assms(1-3) unfolding fm by (simp add: fresh_locals_def)
  obtain r1 e1 where r1: "dispatch_body app given_match ?e = (r1, e1)" by (cases "dispatch_body app given_match ?e")
  have run: "answers_at app ?ch (\<lambda>_. True) ?run ?e"
  proof (cases r1)
    case (Inr x)
    with body r1 show ?thesis by (simp add: answers_at_def catch_def)
  next
    case (Inl x)
    obtain cs where cs: "chain_ok app ?ch e1" "en_calls e1 = en_calls ?e @ cs" "posts cs = []"
      using body r1 Inl by (auto simp: answers_at_def)
    have "answers_at app ?ch (\<lambda>_. True) (handle_exception app x) e1"
      by (rule answersD [OF whole_handle_exception [OF assms(1)] cs(1)])
    with cs r1 Inl show ?thesis by (auto simp: answers_at_def catch_def)
  qed
  obtain r2 e2 where r2: "?run ?e = (r2, e2)" by (cases "?run ?e")
  have "dispatch_request app given_match e = finally_do ?run (dispatch_finally app) ?e"
    by (simp add: dispatch_request_def seq_modify)
  then have end': "r2 = Inr r" "e' = snd (dispatch_finally app e2)"
    using assms(4) r2 by (auto simp: finally_do_def split: prod.splits sum.splits)
  have closing: "posts (depends_calls resolver exc @ closing_calls app bp exc) = []" for resolver :: "'a teardown list option" and exc bp
  proof -
    have none: "posts (map f xs) = []" if "\<And>x. post_of (f x) = None" for f :: "nat \<Rightarrow> call" and xs using that by (induction xs) simp_all
    show ?thesis by (simp add: depends_calls_def closing_calls_def none split: option.split)
  qed
  show ?thesis
    using run r2 end' finally_calls(1) [of app e2] closing [of "en_resolver e2" "en_exc e2" "en_bp e2"]
    by (auto simp: answers_at_def fresh_locals_def)
qed

text \<open>An application of three middlewares, with a route that excludes the second.\<close>

definition sample_response :: response where
  "sample_response = plain_response 200 ''ok'' []"

definition sample_middleware :: "string \<Rightarrow> nat middleware" where
  "sample_middleware name = \<lparr>mid_name = name, mid_classes = [],
     mid_request = Some (\<lambda>(q, u). (Inr None, (q, u + 1))), mid_response = Some (\<lambda>r (q, u). (Inr r, (q, u + 10)))\<rparr>"

definition sample_route :: "(nat, unit) route" where
  "sample_route = \<lparr>ro_name = Some ''home'', ro_template = ''/'', ro_excluded = Some ([''b''], []), ro_subdomain = None,
     ro_host = None, ro_defaults = [], ro_status = 200, ro_class = None, ro_model = None, ro_async = True,
     ro_plan = TrivialPlan, ro_resolve = (\<lambda>(q, u). (Inr [], [], False, q, u)),
     ro_handler = (\<lambda>kwargs (q, u). (Inr (Sent sample_response), (q, u)))\<rparr>"

definition sample_app :: "(nat, unit) app" where
  "sample_app = \<lparr>ap_middlewares = [sample_middleware ''a'', sample_middleware ''b'', sample_middleware ''c''],
     ap_before = [], ap_bp_before = [], ap_after = [], ap_bp_after = [], ap_one_shots = (\<lambda>i r s. (Inr None, s)),
     ap_teardown = [], ap_bp_teardown = [], ap_app_teardown = [], ap_params_procs = [], ap_bp_params_procs = [],
     ap_mounts = [], ap_statics = [], ap_asgi_mounts = False, ap_around = False, ap_instrumented = False,
     ap_status_handlers = [], ap_class_handlers = [], ap_bp_status_handlers = [], ap_bp_class_handlers = [],
     ap_mro = (\<lambda>cls. [cls]), ap_propagate = False, ap_debug_page = (\<lambda>exc q. None),
     ap_match = (\<lambda>method' path. Some \<lparr>mt_route = sample_route, mt_params = []\<rparr>), ap_allowed = (\<lambda>path. []),
     ap_redirect_slashes = True, ap_payload = (\<lambda>p. []), ap_render = (\<lambda>cls v. Inr sample_response), ap_encode = (\<lambda>s. [])\<rparr>"

definition sample_env :: "nat env" where
  "sample_env = \<lparr>en_req = \<lparr>hq_method = ''GET'', hq_path = ''/'', hq_root_path = [], hq_host = None, hq_subdomain = [],
       hq_endpoint = None, hq_url_rule = None, hq_params = [], hq_one_shots = [], hq_injected = (0, [])\<rparr>,
     en_user = 0, en_calls = [], en_chain = None, en_error_type = None, en_exc = None, en_bp = None,
     en_excluded = False, en_resolver = None, en_injected = False\<rparr>"

theorem response_phase_once_witness:
  "posts (en_calls (snd (dispatch_request sample_app None sample_env))) = [2, 0]"
proof -
  have 1: "calm_responses sample_app" "calm_requests sample_app"
    by (auto simp: calm_responses_def calm_requests_def sample_app_def sample_middleware_def never_raises_def)
  have "fst (dispatch_request sample_app None sample_env) = Inr sample_response"
    by code_simp
  then obtain e' where run: "dispatch_request sample_app None sample_env = (Inr sample_response, e')"
    by (cases "dispatch_request sample_app None sample_env") simp
  have 2: "responders sample_app (response_chain sample_app (first_match sample_app None sample_env)) = [2, 0]"
    by code_simp
  have "\<exists>cs. en_calls e' = en_calls sample_env @ cs
      \<and> posts cs = responders sample_app (response_chain sample_app (first_match sample_app None sample_env))"
    by (rule response_phase_once [OF 1 _ run]) (simp add: sample_env_def)
  with run 2 show ?thesis by (auto simp: sample_env_def)
qed

end
