(* ===== verification/Py_Sim.thy ===== *)
theory Py_Sim
  imports Py_Code
begin

text \<open>
  Two programs side by side: from related states they have the same outcome and leave related states. The
  rules carry a relation on states through the combinators, on both sides at once.
\<close>

lemma bind_assoc: "bindc (bindc c f) g = bindc c (\<lambda>x. bindc (f x) g)"
  by (auto simp: bindc_def fun_eq_iff split: prod.split sum.split)

lemma seq_assoc: "seqc (seqc c d) e = seqc c (seqc d e)"
  by (simp add: seqc_def bind_assoc)

lemma bind_ret_right: "bindc c ret = c"
  by (auto simp: bindc_def ret_def fun_eq_iff split: prod.split sum.split)

definition sim :: "('s \<Rightarrow> 's \<Rightarrow> bool) \<Rightarrow> ('s, 'a) code \<Rightarrow> ('s, 'a) code \<Rightarrow> bool" where
  "sim R c d \<longleftrightarrow> (\<forall>s t. R s t \<longrightarrow> fst (c s) = fst (d t) \<and> R (snd (c s)) (snd (d t)))"

lemma sim_ret: "sim R (ret x) (ret x)" and sim_raise: "sim R (raise e) (raise e)" and sim_lift: "sim R (lift_res r) (lift_res r)"
  by (simp_all add: sim_def ret_def raise_def lift_res_def)

lemma sim_bind:
  assumes c: "sim R c c'" and f: "\<And>x. sim R (f x) (f' x)"
  shows "sim R (bindc c f) (bindc c' f')"
  unfolding sim_def
proof (intro allI impI)
  fix s t assume "R s t"
  then have "fst (c s) = fst (c' t)" "R (snd (c s)) (snd (c' t))" using c by (simp_all add: sim_def)
  with f show "fst (bindc c f s) = fst (bindc c' f' t) \<and> R (snd (bindc c f s)) (snd (bindc c' f' t))"
    by (cases "c s"; cases "c' t") (auto simp: bindc_def sim_def split: sum.split)
qed

lemma sim_seq: "sim R c c' \<Longrightarrow> sim R d d' \<Longrightarrow> sim R (seqc c d) (seqc c' d')"
  unfolding seqc_def by (rule sim_bind)

lemma sim_catch:
  assumes c: "sim R c c'" and h: "\<And>x. sim R (h x) (h' x)"
  shows "sim R (catch c h) (catch c' h')"
  unfolding sim_def
proof (intro allI impI)
  fix s t assume "R s t"
  then have "fst (c s) = fst (c' t)" "R (snd (c s)) (snd (c' t))" using c by (simp_all add: sim_def)
  with h show "fst (catch c h s) = fst (catch c' h' t) \<and> R (snd (catch c h s)) (snd (catch c' h' t))"
    by (cases "c s"; cases "c' t") (auto simp: catch_def sim_def split: sum.split)
qed

lemma sim_finally:
  assumes c: "sim R c c'" and d: "sim R d d'"
  shows "sim R (finally_do c d) (finally_do c' d')"
  unfolding sim_def
proof (intro allI impI)
  fix s t assume "R s t"
  then have 1: "fst (c s) = fst (c' t)" "R (snd (c s)) (snd (c' t))" using c by (simp_all add: sim_def)
  then have "fst (d (snd (c s))) = fst (d' (snd (c' t)))" "R (snd (d (snd (c s)))) (snd (d' (snd (c' t))))"
    using d by (simp_all add: sim_def)
  with 1 show "fst (finally_do c d s) = fst (finally_do c' d' t) \<and> R (snd (finally_do c d s)) (snd (finally_do c' d' t))"
    by (cases "c s"; cases "c' t"; cases "d (snd (c s))"; cases "d' (snd (c' t))") (auto simp: finally_do_def split: sum.split)
qed

lemma sim_gets: "(\<And>s t. R s t \<Longrightarrow> g s = h t) \<Longrightarrow> sim R (gets g) (gets h)"
  by (simp add: sim_def gets_def)

lemma sim_modify: "(\<And>s t. R s t \<Longrightarrow> R (g s) (h t)) \<Longrightarrow> sim R (modify g) (modify h)"
  by (simp add: sim_def modify_def)

lemma sim_for_each: "(\<And>x. sim R (f x) (g x)) \<Longrightarrow> sim R (for_each f xs) (for_each g xs)"
  by (induction xs) (auto intro: sim_ret sim_seq)

lemma sim_first_answer: "(\<And>x. sim R (f x) (g x)) \<Longrightarrow> sim R (first_answer f xs) (first_answer g xs)"
  by (induction xs) (auto intro!: sim_ret sim_bind split: option.split)

lemma sim_hand_on: "(\<And>x y. sim R (f x y) (g x y)) \<Longrightarrow> sim R (hand_on f xs y) (hand_on g xs y)"
  by (induction xs arbitrary: y) (auto intro!: sim_ret sim_bind)

lemma sim_if: "sim R c c' \<Longrightarrow> sim R d d' \<Longrightarrow> sim R (if b then c else d) (if b then c' else d')"
  by simp

lemma sim_option: "sim R c c' \<Longrightarrow> (\<And>x. sim R (d x) (d' x)) \<Longrightarrow> sim R (case m of None \<Rightarrow> c | Some x \<Rightarrow> d x) (case m of None \<Rightarrow> c' | Some x \<Rightarrow> d' x)"
  by (cases m) auto

lemma sim_pair: "(\<And>x y. sim R (c x y) (c' x y)) \<Longrightarrow> sim R (case m of (x, y) \<Rightarrow> c x y) (case m of (x, y) \<Rightarrow> c' x y)"
  by (cases m) auto

lemma sim_let: "(\<And>x. sim R (f x) (f' x)) \<Longrightarrow> sim R (Let v f) (Let v f')"
  by simp

text \<open>Steps of one side only.\<close>

lemma sim_right: "(\<And>s t. R s t \<Longrightarrow> d t = d' t) \<Longrightarrow> sim R c d' \<Longrightarrow> sim R c d"
  by (simp add: sim_def)

lemma sim_right_gets: "(\<And>x. sim R c (f x)) \<Longrightarrow> sim R c (bindc (gets g) f)"
  by (simp add: sim_def bind_gets)

lemma sim_right_modify: "(\<And>s t. R s t \<Longrightarrow> R s (g t)) \<Longrightarrow> sim R c d \<Longrightarrow> sim R c (seqc (modify g) d)"
  unfolding sim_def seq_modify by blast

lemmas sim_rules = sim_ret sim_raise sim_lift sim_bind sim_seq sim_catch sim_finally sim_for_each sim_first_answer sim_hand_on
  sim_if sim_option sim_pair sim_let

end
