(* ===== verification/Dispatch_Claims.thy ===== *)
theory Dispatch_Claims
  imports Dispatch_Phases Py_Sim
begin

text \<open>
  That every request is answered, that the fast path answers what the full path answers, and two cases
  in which the calls of a request are not what the documentation says.
\<close>

section \<open>Programs that only answer\<close>

text \<open>The chain of a request lists middlewares of the application, whatever happens.\<close>

definition in_range :: "('u, 'v) app \<Rightarrow> 'u env \<Rightarrow> bool" where
  "in_range app e \<longleftrightarrow> (case en_chain e of None \<Rightarrow> True | Some c \<Rightarrow> set c \<subseteq> {..<length (ap_middlewares app)})"

definition chained :: "('u, 'v) app \<Rightarrow> 'u env \<Rightarrow> 'u env \<Rightarrow> bool" where
  "chained app e e' \<longleftrightarrow> (in_range app e \<longrightarrow> in_range app e')"

interpretation chained: kept "chained app" for app :: "('u, 'v) app"
  by unfold_locales (auto simp: chained_def)

lemma chained_call: "keeps (chained app) (call label c)"
  by (auto simp: keeps_def call_def chained_def in_range_def split: prod.split)

lemma chained_modify: "(\<And>e. in_range app e \<Longrightarrow> in_range app (f e)) \<Longrightarrow> keeps (chained app) (modify f)"
  by (simp add: keeps_def modify_def chained_def)

lemmas chained_rules = chained.keeps_rules keeps_option keeps_sum keeps_pair keeps_let

lemma chained_phases:
  "keeps (chained app) (call_request app i)" "keeps (chained app) (call_response app i r)"
  "keeps (chained app) (run_response_middleware app r)" "keeps (chained app) (run_response_phase app r b)"
  "keeps (chained app) (run_request_phase app m)"
proof -
  have range: "set (snd (route_middleware_chains app x)) \<subseteq> {..<length (ap_middlewares app)}" for x
    by (auto simp: route_middleware_chains_def all_middlewares_def Let_def split: prod.split)
  show 1: "keeps (chained app) (call_request app i)" "keeps (chained app) (call_response app i r)" for i r
    unfolding call_request_def call_response_def by (intro chained_rules chained_call)+
  show 2: "keeps (chained app) (run_response_middleware app r)" for r
    unfolding run_response_middleware_def by (intro chained_rules 1)
  show 3: "keeps (chained app) (run_response_phase app r b)" for r b
    unfolding run_response_phase_def by (intro chained_rules 1 2)
  show "keeps (chained app) (run_request_phase app m)"
    unfolding run_request_phase_def Let_def case_prod_unfold
    by (intro chained_rules 1 2 3 chained_modify) (use range in \<open>simp add: in_range_def\<close>)
qed

lemma chained_errors:
  "keeps (chained app) blueprints_now" "keeps (chained app) (dispatch_exc_handler app h exc)"
  "keeps (chained app) (handle_error app status fallback exc)"
proof -
  show 1: "keeps (chained app) blueprints_now" unfolding blueprints_now_def by (rule chained.keeps_gets)
  show 2: "keeps (chained app) (dispatch_exc_handler app h exc)" for h exc
    unfolding dispatch_exc_handler_def by (intro chained_rules chained_call)
  show "keeps (chained app) (handle_error app status fallback exc)"
    unfolding handle_error_def by (intro chained_rules 1 2 chained_phases)
qed

lemma chained_hooks:
  "keeps (chained app) (run_before_hooks app)" "keeps (chained app) (run_after_hooks app r bp)"
  "keeps (chained app) (run_url_value_preprocessors app ep)" "keeps (chained app) (call_params bp ep h)"
  unfolding run_before_hooks_def call_before_def run_after_hooks_def call_after_def call_one_shot_def
    run_url_value_preprocessors_def call_params_def
  by (intro chained_rules chained_phases chained_call)+

lemma chained_body: "keeps (chained app) (dispatch_body app m)"
proof -
  have 1: "keeps (chained app) (answer_unmatched app)"
    unfolding answer_unmatched_def by (intro chained_rules chained_phases chained_errors)
  have 2: "keeps (chained app) (resolve_route app m path method')" for m path method'
    unfolding resolve_route_def try_mount_def
    by (intro chained_rules 1 chained_phases chained_hooks chained_call chained_modify; simp add: set_endpoint_def in_range_def)
  have 3: "keeps (chained app) (resolve_dependencies ro)" for ro
    by (auto simp: keeps_def resolve_dependencies_def chained_def in_range_def Let_def code_simps split: plan_kind.split prod.split sum.split)
  have 4: "keeps (chained app) (build_response app ro result)" for ro result
    unfolding build_response_def by (intro chained_rules)
  have 5: "keeps (chained app) (run_route app ro)" for ro
    unfolding run_route_def by (intro chained_rules 3 4 chained_phases chained_hooks chained_call chained_modify; simp add: in_range_def)
  have 6: "keeps (chained app) (fast_path app x)" for x
    unfolding fast_path_def by (intro chained_rules chained_hooks chained_call chained_modify; simp add: in_range_def)
  have 7: "keeps (chained app) (full_path app m path method')" for m path method'
    unfolding full_path_def
    by (intro chained_rules 2 5 chained_phases chained_hooks chained_modify; simp add: in_range_def)
  show ?thesis
    unfolding dispatch_body_def by (intro chained_rules 6 7 chained_modify; simp add: set_endpoint_def in_range_def)
qed

text \<open>A program that answers, and leaves the chain in range.\<close>

definition settles :: "('u, 'v) app \<Rightarrow> ('u env, 'a) code \<Rightarrow> bool" where
  "settles app c \<longleftrightarrow> (\<forall>e. in_range app e \<longrightarrow> (\<exists>x e'. c e = (Inr x, e') \<and> in_range app e'))"

lemma settles_bind: "settles app c \<Longrightarrow> (\<And>x. settles app (f x)) \<Longrightarrow> settles app (bindc c f)"
  unfolding settles_def by (fastforce simp: bindc_def)

lemma settles_ret: "settles app (ret x)" and settles_gets: "settles app (gets f)"
  by (simp_all add: settles_def ret_def gets_def)

lemma settles_modify: "(\<And>e. in_range app e \<Longrightarrow> in_range app (f e)) \<Longrightarrow> settles app (modify f)"
  by (simp add: settles_def modify_def)

lemma settles_seq: "settles app c \<Longrightarrow> settles app d \<Longrightarrow> settles app (seqc c d)"
  unfolding seqc_def by (rule settles_bind)

lemma settles_middleware:
  assumes calm: "calm_responses app"
  shows "settles app (run_response_middleware app r)" "settles app (run_response_phase app r b)"
proof -
  have run: "\<exists>x e'. hand_on (call_response app) ch r e = (Inr x, e') \<and> in_range app e'"
    if "in_range app e" "set ch \<subseteq> {..<length (ap_middlewares app)}" for ch e
    using chain_run [OF calm that(2), of r e] that(1) by (fastforce simp: in_range_def)
  have all: "set (rev (all_middlewares app)) \<subseteq> {..<length (ap_middlewares app)}" by (auto simp: all_middlewares_def)
  show 1: "settles app (run_response_middleware app r)"
    unfolding settles_def run_response_middleware_def bind_gets
  proof (intro allI impI)
    fix e assume e: "in_range app e"
    show "\<exists>x e'. hand_on (call_response app) (case en_chain e of None \<Rightarrow> rev (all_middlewares app) | Some c \<Rightarrow> c) r e = (Inr x, e') \<and> in_range app e'"
      by (rule run [OF e]) (use e all in \<open>simp add: in_range_def split: option.splits\<close>)
  qed
  show "settles app (run_response_phase app r b)"
    using 1 run [OF _ all] by (simp add: run_response_phase_def settles_def)
qed

definition renders :: "('u, 'v) app \<Rightarrow> bool" where
  "renders app \<longleftrightarrow> (\<forall>cls v. \<exists>r. ap_render app cls v = Inr r)"

lemma renders_coerce: "renders app \<Longrightarrow> \<exists>r. coerce_response app cls x = Inr r"
  by (induction x) (auto simp: renders_def split: sum.split)

lemma settles_exc_handler:
  assumes "\<not> ap_propagate app" "renders app"
  shows "settles app (dispatch_exc_handler app h exc)"
  unfolding dispatch_exc_handler_def
proof (rule settles_bind)
  show "settles app (catch (bindc (call (ErrorCall exc) (h exc)) (\<lambda>r. ret (Some r)))
         (\<lambda>handler_exc. if ap_propagate app then raise handler_exc else ret None))"
    using assms(1) by (auto simp: settles_def catch_def bindc_def call_def ret_def in_range_def split: prod.split sum.split)
  show "settles app (case x of Some result \<Rightarrow> lift_res (coerce_response app None result)
        | None \<Rightarrow> ret (plain_response 500 (ap_payload app (ServerErrorPayload True)) []))" for x
    using renders_coerce [OF assms(2), of None] by (cases x) (auto simp: settles_def ret_def lift_res_def)
qed

lemma settles_exception:
  assumes no_prop: "\<not> ap_propagate app" and calm: "calm_responses app" and render: "renders app"
  shows "settles app (handle_exception app exc)"
proof -
  note handler = settles_exc_handler [OF no_prop render] and mw = settles_middleware [OF calm]
  have bps: "settles app blueprints_now" by (simp add: blueprints_now_def settles_gets)
  have phase: "settles app (bindc (gets en_excluded) (run_response_phase app r))" for r
    by (rule settles_bind [OF settles_gets mw(2)])
  have error: "settles app (handle_error app status fallback exc)" for status fallback
    unfolding handle_error_def
    by (intro settles_bind [OF bps] settles_bind [OF _ mw(1)])
      (auto split: option.split intro!: handler settles_ret settles_bind [OF handler])
  have http: "settles app (http_exception_response app exc)"
    unfolding http_exception_response_def
    by (intro settles_bind [OF bps] settles_bind) (auto split: option.split intro!: handler settles_ret phase)
  have shape: "settles app (shape_server_error app exc)"
    unfolding shape_server_error_def by (intro settles_bind [OF settles_gets]) (auto split: option.split intro!: phase error)
  have mod: "settles app (modify (\<lambda>e. e\<lparr>en_error_type := x\<rparr>))" "settles app (modify (\<lambda>e. e\<lparr>en_exc := y\<rparr>))" for x y
    by (rule settles_modify; simp add: in_range_def)+
  have plain: "settles app (case find_scoped_exception_handler app (ex_class exc) bps of
            Some h \<Rightarrow> run_exc_handler_response app h exc
          | None \<Rightarrow> seqc (modify (\<lambda>e. e\<lparr>en_error_type := Some (ex_class exc)\<rparr>))
                (if ap_propagate app then raise exc else shape_server_error app exc))" for bps
    using no_prop by (auto simp: run_exc_handler_response_def split: option.split intro!: settles_bind [OF handler phase] settles_seq [OF mod(1) shape])
  have "settles app (answer_exception app exc)"
    unfolding answer_exception_def using http settles_bind [OF bps plain] by (cases "ex_http exc") simp_all
  then show ?thesis unfolding handle_exception_def by (rule settles_seq [OF mod(2)])
qed

section \<open>Every request is answered\<close>

text \<open>C18: Unless exceptions propagate, every request ends in a response, whatever its middleware, hooks,
  dependencies, handlers, error handlers and teardowns raise: as long as no response phase raises and
  every value can be rendered.\<close>

theorem every_request_answered:
  assumes "\<not> ap_propagate app" "calm_responses app" "renders app" "in_range app e"
  shows "\<exists>r e'. dispatch_request app given_match e = (Inr r, e')"
proof -
  let ?e = "fresh_locals e"
  have e: "in_range app ?e" using assms(4) by (simp add: in_range_def fresh_locals_def)
  obtain r1 e1 where r1: "dispatch_body app given_match ?e = (r1, e1)" by (cases "dispatch_body app given_match ?e")
  have "chained app ?e (snd (dispatch_body app given_match ?e))" using chained_body [of app given_match] unfolding keeps_def by (rule spec)
  then have e1: "in_range app e1" using e r1 by (simp add: chained_def)
  obtain r e2 where r: "catch (dispatch_body app given_match) (handle_exception app) ?e = (Inr r, e2)"
  proof (cases r1)
    case (Inl x)
    obtain r e2 where "handle_exception app x e1 = (Inr r, e2)"
      using settles_exception [OF assms(1-3)] e1 unfolding settles_def by blast
    with r1 Inl show ?thesis by (intro that) (simp add: catch_def)
  next
    case (Inr y)
    with r1 show ?thesis by (intro that) (simp add: catch_def)
  qed
  obtain u e3 where "dispatch_finally app e2 = (Inr u, e3)"
    using finally_quiet [of app e2] assms(1) by (cases "dispatch_finally app e2") auto
  with r show ?thesis by (simp add: dispatch_request_def seq_modify finally_do_def)
qed

section \<open>The fast path\<close>

text \<open>States that differ in the blueprint of the teardown only, with no filtered chain and no injected
  response.\<close>

definition alike :: "'u env \<Rightarrow> 'u env \<Rightarrow> bool" where
  "alike e e' \<longleftrightarrow> e\<lparr>en_bp := None\<rparr> = e'\<lparr>en_bp := None\<rparr> \<and> \<not> en_excluded e \<and> \<not> en_injected e"

lemma alike_eq: "alike e e' \<longleftrightarrow> (\<exists>b. e' = e\<lparr>en_bp := b\<rparr>) \<and> \<not> en_excluded e \<and> \<not> en_injected e"
  by (cases e; cases e') (auto simp: alike_def)

lemma alike_fields:
  assumes "alike e e'"
  shows "en_req e' = en_req e" "en_chain e' = en_chain e" "en_exc e' = en_exc e" "en_resolver e' = en_resolver e"
    "\<not> en_excluded e" "\<not> en_excluded e'" "\<not> en_injected e" "\<not> en_injected e'"
  using assms by (auto simp: alike_eq)

lemma alike_cases: "alike e e' \<Longrightarrow> (\<And>b. e' = e\<lparr>en_bp := b\<rparr> \<Longrightarrow> \<not> en_excluded e \<Longrightarrow> \<not> en_injected e \<Longrightarrow> P) \<Longrightarrow> P"
  by (auto simp: alike_eq)

lemma alike_refl: "\<not> en_excluded e \<Longrightarrow> \<not> en_injected e \<Longrightarrow> alike e e"
  by (simp add: alike_def)

lemma sim_call: "sim alike (call label c) (call label c)"
  by (auto simp: sim_def call_def split: prod.split elim!: alike_cases) (simp_all add: alike_def)

lemma sim_update:
  "sim alike (modify (\<lambda>e. e\<lparr>en_error_type := x\<rparr>)) (modify (\<lambda>e. e\<lparr>en_error_type := x\<rparr>))"
  "sim alike (modify (\<lambda>e. e\<lparr>en_exc := y\<rparr>)) (modify (\<lambda>e. e\<lparr>en_exc := y\<rparr>))"
  by (auto simp: sim_def modify_def elim!: alike_cases) (simp_all add: alike_def)

lemma sim_bare_phase:
  assumes "ap_middlewares app = []"
  shows "sim alike (run_response_middleware app r) (run_response_middleware app r)"
    "sim alike (run_response_phase app r b) (run_response_phase app r b)"
proof -
  have mw: "sim alike (call_response app i r) (call_response app i r)" for i r
    unfolding call_response_def by (intro sim_rules sim_call)
  show 1: "sim alike (run_response_middleware app r) (run_response_middleware app r)"
    unfolding run_response_middleware_def by (intro sim_rules mw sim_gets) (simp add: alike_fields)
  show "sim alike (run_response_phase app r b) (run_response_phase app r b)"
    unfolding run_response_phase_def by (intro sim_rules 1 mw)
qed

lemma sim_errors:
  assumes "ap_middlewares app = []"
  shows "sim alike (handle_exception app exc) (handle_exception app exc)"
proof -
  note phase = sim_bare_phase [OF assms]
  have bps: "sim alike blueprints_now blueprints_now" unfolding blueprints_now_def by (rule sim_gets) (simp add: alike_fields)
  have excl: "sim alike (gets en_excluded) (gets en_excluded)" by (rule sim_gets) (simp add: alike_fields)
  have h: "sim alike (dispatch_exc_handler app h exc) (dispatch_exc_handler app h exc)" for h exc
    unfolding dispatch_exc_handler_def by (intro sim_rules sim_call)
  have error: "sim alike (handle_error app status fallback exc) (handle_error app status fallback exc)" for status fallback
    unfolding handle_error_def by (intro sim_rules bps h phase)
  have req: "sim alike (gets en_req) (gets en_req)" by (rule sim_gets) (simp add: alike_fields)
  show ?thesis
    unfolding handle_exception_def answer_exception_def http_exception_response_def run_exc_handler_response_def shape_server_error_def
    by (intro sim_rules bps excl h error req phase sim_update)
qed

lemma bare_finally:
  assumes "is_bare app"
  shows "sim alike (dispatch_finally app) (dispatch_finally app)"
proof -
  have hooks: "select_teardown_hooks app bp = []" for bp
    using assms by (simp add: select_teardown_hooks_def is_bare_def placed_def scoped_def split: option.split)
  have t: "sim alike (run_teardowns ts exc) (run_teardowns ts exc)" for ts exc
    unfolding run_teardowns_def call_teardown_def by (intro sim_rules sim_call)
  have "dispatch_finally app = bindc (gets en_exc) (\<lambda>exc. bindc (gets en_resolver) (\<lambda>resolver.
     bindc (case resolver of
              None \<Rightarrow> ret None
            | Some ts \<Rightarrow>
                if ts = [] then ret None
                else catch (seqc (run_teardowns ts exc) (ret None))
                       (\<lambda>x. ret (if ap_propagate app then Some x else None))) (\<lambda>propagated.
     seqc (for_each (call_hook AppTeardown exc) (placed (ap_app_teardown app)))
       (case propagated of None \<Rightarrow> ret () | Some x \<Rightarrow> raise x))))"
    by (simp add: dispatch_finally_def hooks bind_gets fun_eq_iff)
  moreover have "sim alike (gets en_exc) (gets en_exc)" "sim alike (gets en_resolver) (gets en_resolver)"
    by (rule sim_gets, simp add: alike_fields)+
  ultimately show ?thesis unfolding call_hook_def by (simp only:) (intro sim_rules t sim_call)
qed

lemma sim_hooks:
  "sim alike (run_after_hooks app r bp) (run_after_hooks app r bp)" "sim alike (call_params bp ep h) (call_params bp ep h)"
proof -
  have shots: "sim alike (gets (\<lambda>e. hq_one_shots (en_req e))) (gets (\<lambda>e. hq_one_shots (en_req e)))"
    by (rule sim_gets) (simp add: alike_fields)
  show "sim alike (run_after_hooks app r bp) (run_after_hooks app r bp)" "sim alike (call_params bp ep h) (call_params bp ep h)"
    unfolding run_after_hooks_def call_after_def call_one_shot_def call_params_def by (intro sim_rules shots sim_call)+
qed

text \<open>The part of the fast path after the request has its parameters.\<close>

definition fast_tail :: "('u, 'v) app \<Rightarrow> ('u, 'v) route \<Rightarrow> ('u env, response) code" where
  "fast_tail app ro =
     bindc (call HandlerCall (ro_handler ro [])) (\<lambda>result.
       bindc (lift_res (coerce_response app None result)) (\<lambda>r.
         bindc (gets (\<lambda>e. hq_one_shots (en_req e))) (\<lambda>one_shots.
           if one_shots \<noteq> [] then run_after_hooks app r None else ret r)))"

lemma tail_alike:
  fixes app :: "('u, 'v) app"
  assumes bare: "is_bare app" and fast: "is_fast_eligible ro"
  shows "sim alike (fast_tail app ro) (run_route app ro)"
proof -
  have deps: "resolve_dependencies ro = ret []" using fast by (auto simp: resolve_dependencies_def is_fast_eligible_def)
  have after: "run_after_hooks app r bp = run_after_hooks app r None" for r bp
    using bare by (simp add: run_after_hooks_def is_bare_def scoped_def placed_def split: option.split)
  have tables: "ap_middlewares app = []" "ap_after app = []" "ap_bp_after app = []" using bare by (simp_all add: is_bare_def)
  define step where "step = (\<lambda>bp r. bindc (gets (\<lambda>e. hq_one_shots (en_req e))) (\<lambda>one_shots.
                 bindc (if ap_after app \<noteq> [] \<or> (ap_bp_after app \<noteq> [] \<and> bp \<noteq> None) \<or> one_shots \<noteq> []
                        then run_after_hooks app r bp else ret r) (\<lambda>r1.
                   bindc (gets en_excluded) (run_response_phase app r1))))"
  have step_eq: "bindc (gets (\<lambda>e. hq_one_shots (en_req e))) (\<lambda>one_shots.
                 bindc (if ap_after app \<noteq> [] \<or> (ap_bp_after app \<noteq> [] \<and> bp \<noteq> None) \<or> one_shots \<noteq> []
                        then run_after_hooks app r bp else ret r) (\<lambda>r1.
                   bindc (gets en_excluded) (run_response_phase app r1))) = step bp r" for bp r
    by (simp only: step_def)
  have phase: "sim alike (ret r) (bindc (gets en_excluded) (run_response_phase app r))" for r
    by (rule sim_right [where d' = "ret r"])
      (auto simp: bind_gets run_response_phase_def tables all_middlewares_def alike_fields intro: sim_ret)
  have step: "sim alike (bindc (gets (\<lambda>e. hq_one_shots (en_req e))) (\<lambda>one_shots. if one_shots \<noteq> [] then run_after_hooks app r None else ret r)) (step bp r)" for bp r
    unfolding step_def
  proof (rule sim_bind)
    fix one_shots :: "nat list"
    have "sim alike (bindc (if one_shots \<noteq> [] then run_after_hooks app r None else ret r) ret)
       (bindc (if ap_after app \<noteq> [] \<or> (ap_bp_after app \<noteq> [] \<and> bp \<noteq> None) \<or> one_shots \<noteq> [] then run_after_hooks app r bp else ret r) (\<lambda>r1.
                   bindc (gets en_excluded) (run_response_phase app r1)))"
      unfolding after [of r bp] using tables(2,3) by (intro sim_bind phase) (auto intro: sim_ret sim_hooks)
    then show "sim alike (if one_shots \<noteq> [] then run_after_hooks app r None else ret r)
       (bindc (if ap_after app \<noteq> [] \<or> (ap_bp_after app \<noteq> [] \<and> bp \<noteq> None) \<or> one_shots \<noteq> [] then run_after_hooks app r bp else ret r) (\<lambda>r1.
                   bindc (gets en_excluded) (run_response_phase app r1)))"
      unfolding bind_ret_right .
  qed (rule sim_gets, simp add: alike_fields)
  have build: "sim alike (bindc (lift_res (coerce_response app None result)) k)
      (bindc (build_response app ro result) k')" if "\<And>r. sim alike (k r) (k' r)" for result and k k' :: "response \<Rightarrow> ('u env, response) code"
  proof -
    have "build_response app ro result = bindc (lift_res (coerce_response app None result)) (\<lambda>r.
        bindc (gets (\<lambda>e. (en_injected e, hq_injected (en_req e)))) (\<lambda>(bound, injected).
              ret (if bound \<and> \<not> is_response result then apply_injected injected r else r)))"
      using fast by (simp add: build_response_def is_fast_eligible_def Let_def)
    moreover have "sim alike (k r) (bindc (bindc (gets (\<lambda>e. (en_injected e, hq_injected (en_req e)))) (\<lambda>(bound, injected).
              ret (if bound \<and> \<not> is_response result then apply_injected injected r else r))) k')" for r
      by (rule sim_right [where d' = "k' r", OF _ that]) (simp add: bind_assoc bind_gets alike_fields)
    ultimately show ?thesis by (simp only: bind_assoc) (intro sim_bind sim_lift, simp only: bind_assoc)
  qed
  show ?thesis
    unfolding run_route_def fast_tail_def deps bind_ret step_eq
  proof (rule sim_right_gets, rule sim_right_modify)
    fix bp show "sim alike (bindc (call HandlerCall (ro_handler ro [])) (\<lambda>result.
       bindc (lift_res (coerce_response app None result)) (\<lambda>r.
         bindc (gets (\<lambda>e. hq_one_shots (en_req e))) (\<lambda>one_shots.
           if one_shots \<noteq> [] then run_after_hooks app r None else ret r))))
      (bindc (call HandlerCall (ro_handler ro [])) (\<lambda>result. bindc (build_response app ro result) (step bp)))"
      by (intro sim_bind sim_call build step)
  next
    fix e e' :: "'u env" and bp show "alike e e' \<Longrightarrow> alike e (e'\<lparr>en_bp := bp\<rparr>)" by (simp add: alike_def)
  qed
qed

lemma placed_Nil: "placed [] = []"
  by (simp add: placed_def)

lemma path_alike:
  fixes app :: "('u, 'v) app" and e0 :: "'u env"
  assumes bare: "is_bare app" and fast: "is_fast_eligible (mt_route x)" and e0: "\<not> en_excluded e0" "\<not> en_injected e0"
  defines "e \<equiv> set_endpoint x e0"
  shows "fst (fast_path app x e) = fst (full_path app (Some x) (hq_path (en_req e0)) (hq_method (en_req e0)) e)
    \<and> alike (snd (fast_path app x e)) (snd (full_path app (Some x) (hq_path (en_req e0)) (hq_method (en_req e0)) e))"
proof -
  let ?ro = "mt_route x"
  let ?bp = "endpoint_blueprint (ro_name ?ro)"
  let ?e1 = "e\<lparr>en_req := (en_req e)\<lparr>hq_params := mt_params x\<rparr>\<rparr>"
  let ?url = "for_each (call_params ?bp (ro_name ?ro)) (placed (scoped ?bp (ap_bp_params_procs app)))"
  have tables: "ap_middlewares app = []" "ap_mounts app = []" "ap_statics app = []" "ap_before app = []" "ap_bp_before app = []"
      "ap_params_procs app = []"
    using bare by (simp_all add: is_bare_def)
  have routes: "ro_subdomain ?ro = None" "ro_host ?ro = None" "ro_defaults ?ro = []" "ro_excluded ?ro = None"
    using fast by (simp_all add: is_fast_eligible_def)
  have none: "(if ap_bp_params_procs app \<noteq> [] then ?url else ret ()) = ?url" by (simp add: scoped_def placed_def split: option.split)
  have flags: "\<not> en_excluded e" "\<not> en_injected e" "hq_endpoint (en_req e) = ro_name ?ro"
    "hq_path (en_req e) = hq_path (en_req e0)" "hq_method (en_req e) = hq_method (en_req e0)"
    using e0 by (simp_all add: e_def set_endpoint_def)
  have "fast_path app x e = seqc ?url (fast_tail app ?ro) ?e1"
    unfolding fast_path_def Let_def none seq_modify fast_tail_def ..
  moreover have "full_path app (Some x) (hq_path (en_req e0)) (hq_method (en_req e0)) e
      = seqc ?url (run_route app ?ro) (?e1\<lparr>en_bp := ?bp\<rparr>)"
  proof -
    have url: "run_url_value_preprocessors app (ro_name ?ro) = ?url"
      by (simp add: run_url_value_preprocessors_def tables placed_Nil Let_def)
    have same: "set_endpoint x (e\<lparr>en_excluded := False, en_bp := ?bp, en_req := (en_req e)\<lparr>hq_params := mt_params x\<rparr>\<rparr>)
        = ?e1\<lparr>en_bp := ?bp\<rparr>"
      using e0 by (simp add: e_def set_endpoint_def)
    define route where "route = (\<lambda>resolved :: response + ('u, 'v) matched. case resolved of Inl r \<Rightarrow> ret r | Inr x \<Rightarrow> run_route app (mt_route x))"
    have full: "full_path app (Some x) (hq_path (en_req e0)) (hq_method (en_req e0)) e
        = bindc (resolve_route app (Some x) (hq_path (en_req e0)) (hq_method (en_req e0))) route (e\<lparr>en_excluded := False, en_bp := ?bp\<rparr>)"
      using flags by (simp add: full_path_def tables routes bind_gets seq_modify bind_assoc route_def)
    have "resolve_route app (Some x) (hq_path (en_req e0)) (hq_method (en_req e0)) (e\<lparr>en_excluded := False, en_bp := ?bp\<rparr>)
        = seqc ?url (ret (Inr x)) (?e1\<lparr>en_bp := ?bp\<rparr>)"
      using flags by (simp add: resolve_route_def tables routes placed_Nil bind_gets seq_modify Let_def url set_defaults_def same)
    then have "bindc (resolve_route app (Some x) (hq_path (en_req e0)) (hq_method (en_req e0))) route (e\<lparr>en_excluded := False, en_bp := ?bp\<rparr>)
        = bindc (seqc ?url (ret (Inr x))) route (?e1\<lparr>en_bp := ?bp\<rparr>)"
      by (simp add: bindc_def)
    also have "bindc (seqc ?url (ret (Inr x))) route = seqc ?url (run_route app ?ro)"
      by (simp add: seqc_def bind_assoc route_def)
    finally show ?thesis unfolding full .
  qed
  moreover have "sim alike (seqc ?url (fast_tail app ?ro)) (seqc ?url (run_route app ?ro))"
    by (intro sim_seq sim_for_each sim_hooks tail_alike bare fast)
  moreover have "alike ?e1 (?e1\<lparr>en_bp := ?bp\<rparr>)" using flags by (simp add: alike_def)
  ultimately show ?thesis by (simp add: sim_def)
qed

text \<open>The dispatcher without its fast path.\<close>

definition dispatch_full :: "('u, 'v) app \<Rightarrow> ('u, 'v) matched option \<Rightarrow> ('u env, response) code" where
  "dispatch_full app given_match =
     seqc (modify fresh_locals)
       (finally_do
         (catch
           (bindc (gets en_req) (\<lambda>q.
             let m = (if given_match = None then ap_match app (hq_method q) (hq_path q) else given_match) in
             seqc (case m of None \<Rightarrow> ret () | Some x \<Rightarrow> modify (set_endpoint x)) (full_path app m (hq_path q) (hq_method q))))
           (handle_exception app))
         (dispatch_finally app))"

text \<open>C17: The fast path is only an optimisation: a request that takes it ends with the same answer or
  exception, the same request, the same calls in the same order and the same state of the supplied
  code as on the full path; only the blueprint kept for the teardown, which has no hooks then, may
  differ. A request starts without an injected response.\<close>

theorem fast_path_agrees:
  assumes "\<not> en_injected e"
  shows "fst (dispatch_request app given_match e) = fst (dispatch_full app given_match e)
    \<and> (snd (dispatch_request app given_match e))\<lparr>en_bp := None\<rparr> = (snd (dispatch_full app given_match e))\<lparr>en_bp := None\<rparr>"
proof -
  let ?e = "fresh_locals e"
  let ?m = "first_match app given_match ?e"
  let ?full = "bindc (gets en_req) (\<lambda>q.
             let m = (if given_match = None then ap_match app (hq_method q) (hq_path q) else given_match) in
             seqc (case m of None \<Rightarrow> ret () | Some x \<Rightarrow> modify (set_endpoint x)) (full_path app m (hq_path q) (hq_method q)))"
  have e: "\<not> en_excluded ?e" "\<not> en_injected ?e" using assms by (simp_all add: fresh_locals_def)
  show ?thesis
  proof (cases "\<exists>x. ?m = Some x \<and> is_bare app \<and> is_fast_eligible (mt_route x)")
    case False
    then have "dispatch_body app given_match ?e = ?full ?e"
      by (auto simp: dispatch_body_def bind_gets first_match_def Let_def seq_modify split: option.split)
    then show ?thesis by (simp add: dispatch_request_def dispatch_full_def seq_modify finally_do_def catch_def)
  next
    case True
    then obtain x where x: "?m = Some x" and bare: "is_bare app" and fast: "is_fast_eligible (mt_route x)" by blast
    have mw: "ap_middlewares app = []" using bare by (simp add: is_bare_def)
    have "dispatch_body app given_match ?e = fast_path app x (set_endpoint x ?e)"
      using x bare fast by (simp add: dispatch_body_def bind_gets first_match_def Let_def seq_modify)
    moreover have "?full ?e = full_path app (Some x) (hq_path (en_req ?e)) (hq_method (en_req ?e)) (set_endpoint x ?e)"
      using x by (simp add: bind_gets first_match_def Let_def seq_modify)
    ultimately have body: "fst (dispatch_body app given_match ?e) = fst (?full ?e)" "alike (snd (dispatch_body app given_match ?e)) (snd (?full ?e))"
      using path_alike [OF bare fast e] by simp_all
    let ?c = "\<lambda>_. dispatch_body app given_match ?e" and ?d = "\<lambda>_. ?full ?e"
    define P where "P = finally_do (catch ?c (handle_exception app)) (dispatch_finally app)"
    define Q where "Q = finally_do (catch ?d (handle_exception app)) (dispatch_finally app)"
    have "sim alike ?c ?d" using body by (simp add: sim_def)
    then have "sim alike P Q"
      unfolding P_def Q_def by (intro sim_finally sim_catch sim_errors [OF mw] bare_finally [OF bare])
    moreover have "alike ?e ?e" by (rule alike_refl [OF e])
    ultimately have "fst (P ?e) = fst (Q ?e) \<and> alike (snd (P ?e)) (snd (Q ?e))" unfolding sim_def by blast
    moreover have "dispatch_request app given_match e = P ?e"
      by (simp add: P_def dispatch_request_def seq_modify finally_do_def catch_def)
    moreover have "dispatch_full app given_match e = Q ?e"
      by (simp add: Q_def dispatch_full_def seq_modify finally_do_def catch_def)
    ultimately show ?thesis by (simp add: alike_def)
  qed
qed

section \<open>Concrete requests\<close>

definition sample_exn :: exn where
  "sample_exn = \<lparr>ex_class = ''ValueError'', ex_http = None\<rparr>"

definition with_route :: "(nat, unit) route \<Rightarrow> (nat, unit) app" where
  "with_route ro = sample_app\<lparr>ap_match := (\<lambda>method' path. Some \<lparr>mt_route = ro, mt_params = []\<rparr>)\<rparr>"

definition failing_app :: "(nat, unit) app" where
  "failing_app = with_route (sample_route\<lparr>ro_handler := (\<lambda>kwargs s. (Inl sample_exn, s))\<rparr>)"

theorem every_request_answered_witness:
  "\<exists>r e'. dispatch_request failing_app None sample_env = (Inr r, e')"
  by (rule every_request_answered)
    (auto simp: failing_app_def with_route_def sample_app_def sample_middleware_def sample_env_def calm_responses_def never_raises_def
      renders_def in_range_def)

definition bare_app :: "(nat, unit) app" where
  "bare_app = (with_route (sample_route\<lparr>ro_excluded := None\<rparr>))\<lparr>ap_middlewares := []\<rparr>"

theorem fast_path_agrees_witness:
  "is_bare bare_app \<and> fst (dispatch_full bare_app None sample_env) = Inr sample_response"
proof -
  have 1: "is_bare bare_app" by (simp add: is_bare_def bare_app_def with_route_def sample_app_def)
  have 2: "fst (dispatch_request bare_app None sample_env) = Inr sample_response" by code_simp
  have "fst (dispatch_request bare_app None sample_env) = fst (dispatch_full bare_app None sample_env)"
    using fast_path_agrees [of sample_env bare_app None] by (simp add: sample_env_def)
  with 1 2 show ?thesis by simp
qed

text \<open>A dependency that has started and one that fails after it: the resolver never reaches the dispatcher,
  and the teardown of the first is not called.\<close>

definition half_resolved_app :: "(nat, unit) app" where
  "half_resolved_app = (with_route (sample_route\<lparr>ro_excluded := None, ro_plan := ResolvedPlan,
     ro_resolve := (\<lambda>(q, u). (Inl sample_exn, [\<lambda>exc s. (Inr (), s)], False, q, u))\<rparr>))\<lparr>ap_middlewares := []\<rparr>"

theorem started_dependency_not_torn_down:
  "en_calls (snd (dispatch_request half_resolved_app None sample_env)) = [DependsCall]"
  by code_simp

text \<open>A request phase that raises an \<open>HTTPException\<close> in a filtered chain: the response phase is that of every
  middleware, the excluded one included. (Another exception is answered over the filtered chain.)\<close>

definition raising_middleware_app :: "(nat, unit) app" where
  "raising_middleware_app = sample_app\<lparr>ap_middlewares := [(sample_middleware ''a'')\<lparr>mid_request := Some (\<lambda>s. (Inl not_found, s))\<rparr>,
     sample_middleware ''b'']\<rparr>"

theorem excluded_middleware_runs:
  "posts (en_calls (snd (dispatch_request raising_middleware_app None sample_env))) = [1, 0]
   \<and> response_chain raising_middleware_app (first_match raising_middleware_app None sample_env) = [0]"
proof
  show "posts (en_calls (snd (dispatch_request raising_middleware_app None sample_env))) = [1, 0]" by code_simp
  show "response_chain raising_middleware_app (first_match raising_middleware_app None sample_env) = [0]" by code_simp
qed

end
