(* ===== verification/First_Request.thy ===== *)
theory First_Request
  imports Py_Base
begin

text \<open>
  The latch of \<open>_fire_first_request\<close> in \<open>src/src/veloce/app/dispatch.py\<close>: the hooks of
  \<open>before_first_request\<close> run before any request is dispatched, by one caller, while the others
  poll. A state holds the two flags of the application, the place each caller has reached, and the
  calls of hooks so far. The steps are those between which another thread may run; on one event loop
  the test of the flag and the claim are one step, since nothing is awaited between them.
\<close>

section \<open>The latch\<close>

datatype place = Testing | Claiming | InHooks nat | Releasing bool | Passed | Raised

record latch =
  la_fired :: bool
  la_running :: bool
  la_place :: "nat \<Rightarrow> place"
  la_log :: "nat list"

datatype latch_event = Test nat | Claim nat | Hook nat bool | Fire nat | Release nat

definition latch_init :: latch where
  "latch_init = \<lparr>la_fired = False, la_running = False, la_place = (\<lambda>_. Testing), la_log = []\<rparr>"

definition goes :: "nat \<Rightarrow> place \<Rightarrow> latch \<Rightarrow> latch" where
  "goes c p s = s\<lparr>la_place := (la_place s)(c := p)\<rparr>"

text \<open>\<open>hooks\<close> is the number of hooks. A step that is not the next of its caller is none.\<close>

fun latch_step :: "nat \<Rightarrow> latch_event \<Rightarrow> latch \<Rightarrow> latch option" where
  "latch_step hooks (Test c) s =
     (if la_place s c = Testing then Some (goes c (if la_fired s then Passed else Claiming) s) else None)"
| "latch_step hooks (Claim c) s =
     (if la_place s c = Claiming
      then Some (if la_running s then goes c Testing s else goes c (InHooks 0) (s\<lparr>la_running := True\<rparr>)) else None)"
| "latch_step hooks (Hook c ok) s =
     (case la_place s c of
        InHooks k \<Rightarrow>
          if k < hooks then Some (goes c (if ok then InHooks (k + 1) else Releasing False) (s\<lparr>la_log := la_log s @ [k]\<rparr>)) else None
      | _ \<Rightarrow> None)"
| "latch_step hooks (Fire c) s =
     (if la_place s c = InHooks hooks then Some (goes c (Releasing True) (s\<lparr>la_fired := True\<rparr>)) else None)"
| "latch_step hooks (Release c) s =
     (case la_place s c of
        Releasing ok \<Rightarrow> Some (goes c (if ok then Testing else Raised) (s\<lparr>la_running := False\<rparr>))
      | _ \<Rightarrow> None)"

text \<open>A step of one event loop: a caller that may claim does so before any other caller runs.\<close>

definition loop_step :: "nat \<Rightarrow> latch_event \<Rightarrow> latch \<Rightarrow> latch option" where
  "loop_step hooks ev s =
     (case ev of
        Test c \<Rightarrow>
          (case latch_step hooks (Test c) s of
             None \<Rightarrow> None
           | Some s1 \<Rightarrow> if la_place s1 c = Claiming then latch_step hooks (Claim c) s1 else Some s1)
      | Claim c \<Rightarrow> None
      | _ \<Rightarrow> latch_step hooks ev s)"

inductive on_threads :: "nat \<Rightarrow> latch \<Rightarrow> bool" for hooks where
  "on_threads hooks latch_init"
| "on_threads hooks s \<Longrightarrow> latch_step hooks ev s = Some s' \<Longrightarrow> on_threads hooks s'"

inductive on_loop :: "nat \<Rightarrow> latch \<Rightarrow> bool" for hooks where
  "on_loop hooks latch_init"
| "on_loop hooks s \<Longrightarrow> loop_step hooks ev s = Some s' \<Longrightarrow> on_loop hooks s'"

fun run_latch :: "(latch_event \<Rightarrow> latch \<Rightarrow> latch option) \<Rightarrow> latch_event list \<Rightarrow> latch \<Rightarrow> latch option" where
  "run_latch f [] s = Some s"
| "run_latch f (ev # evs) s = (case f ev s of None \<Rightarrow> None | Some s1 \<Rightarrow> run_latch f evs s1)"

lemma on_loop_run: "run_latch (loop_step hooks) evs s = Some s' \<Longrightarrow> on_loop hooks s \<Longrightarrow> on_loop hooks s'"
  by (induction evs arbitrary: s) (auto split: option.splits intro: on_loop.intros)

lemma on_threads_run: "run_latch (latch_step hooks) evs s = Some s' \<Longrightarrow> on_threads hooks s \<Longrightarrow> on_threads hooks s'"
  by (induction evs arbitrary: s) (auto split: option.splits intro: on_threads.intros)

section \<open>One caller at a time\<close>

fun active :: "place \<Rightarrow> bool" where
  "active (InHooks k) = True"
| "active (Releasing ok) = True"
| "active _ = False"

definition held :: "latch \<Rightarrow> nat option \<Rightarrow> bool" where
  "held s owner \<longleftrightarrow> (\<forall>c. active (la_place s c) \<longleftrightarrow> owner = Some c) \<and> (la_running s \<longleftrightarrow> owner \<noteq> None)
     \<and> (\<forall>c. la_place s c = Passed \<longrightarrow> la_fired s)"

lemma held_active: "held s owner \<Longrightarrow> active (la_place s c) \<Longrightarrow> owner = Some c"
  by (simp add: held_def)

lemma held_idle: "held s owner \<Longrightarrow> \<not> active (la_place s c) \<Longrightarrow> owner \<noteq> Some c"
  by (auto simp: held_def)

lemma held_goes:
  "held s owner \<Longrightarrow> active p = (owner = Some c) \<Longrightarrow> p = Passed \<longrightarrow> la_fired s \<Longrightarrow> held (goes c p s) owner"
  by (auto simp: held_def goes_def)

lemma held_claim:
  assumes "held s owner" "\<not> la_running s"
  shows "held (goes c (InHooks 0) (s\<lparr>la_running := True\<rparr>)) (Some c)" and "owner = None"
    and "la_place s d \<noteq> InHooks k" and "la_place s d \<noteq> Releasing ok"
proof -
  show "owner = None" using assms by (simp add: held_def)
  then have none: "\<not> active (la_place s d)" for d using assms(1) by (simp add: held_def)
  then show "la_place s d \<noteq> InHooks k" "la_place s d \<noteq> Releasing ok" by (metis active.simps)+
  have "\<forall>c. la_place s c = Passed \<longrightarrow> la_fired s" using assms(1) by (simp add: held_def)
  with none show "held (goes c (InHooks 0) (s\<lparr>la_running := True\<rparr>)) (Some c)"
    by (auto simp: held_def goes_def)
qed

lemma held_log: "held (s\<lparr>la_log := l\<rparr>) owner = held s owner" and held_fired: "held s owner \<Longrightarrow> held (s\<lparr>la_fired := True\<rparr>) owner"
  by (simp_all add: held_def)

lemma held_step:
  assumes held: "held s owner" and step: "latch_step hooks ev s = Some s'"
  shows "held s' (case ev of Claim c \<Rightarrow> if la_running s then owner else Some c | Release c \<Rightarrow> None | _ \<Rightarrow> owner)"
proof (cases ev)
  case (Test c)
  with step have "owner \<noteq> Some c" by (intro held_idle [OF held]) (simp split: if_splits)
  with Test step held show ?thesis by (auto intro!: held_goes split: if_splits)
next
  case (Claim c)
  then have c: "la_place s c = Claiming" using step by (simp split: if_splits)
  show ?thesis
  proof (cases "la_running s")
    case True
    have "owner \<noteq> Some c" using c by (intro held_idle [OF held]) simp
    then have "held (goes c Testing s) owner" by (intro held_goes [OF held]) simp_all
    with Claim c step True show ?thesis by simp
  next
    case False
    with Claim c step held_claim(1) [OF held False, of c] show ?thesis by auto
  qed
next
  case (Hook c ok)
  then obtain k where "la_place s c = InHooks k" using step by (auto split: place.splits)
  moreover from this have "owner = Some c" using held_active [OF held] by simp
  ultimately show ?thesis using Hook step held by (auto simp: held_log intro!: held_goes split: if_splits)
next
  case (Fire c)
  then have "la_place s c = InHooks hooks" using step by (auto split: if_splits)
  moreover from this have "owner = Some c" using held_active [OF held] by simp
  ultimately show ?thesis using Fire step held by (auto intro!: held_goes held_fired)
next
  case (Release c)
  then obtain ok where c: "la_place s c = Releasing ok" using step by (auto split: place.splits)
  then have "owner = Some c" using held_active [OF held] by simp
  with Release c step held show ?thesis by (auto simp: held_def goes_def split: if_splits)
qed

lemma threads_held: "on_threads hooks s \<Longrightarrow> \<exists>owner. held s owner"
proof (induction rule: on_threads.induct)
  case 1
  have "held latch_init None" by (simp add: held_def latch_init_def)
  then show ?case by blast
next
  case (2 s ev s')
  then show ?case using held_step by blast
qed

section \<open>The hooks run to their end once\<close>

text \<open>How far the run of the present owner has come.\<close>

definition progress :: "nat \<Rightarrow> latch \<Rightarrow> nat option \<Rightarrow> nat" where
  "progress hooks s owner =
     (case owner of
        None \<Rightarrow> if la_fired s then hooks else 0
      | Some c \<Rightarrow> (case la_place s c of InHooks k \<Rightarrow> k | Releasing ok \<Rightarrow> if ok then hooks else 0 | _ \<Rightarrow> 0))"

definition attempts :: "nat list \<Rightarrow> nat list" where
  "attempts ks = concat (map (\<lambda>k. [0..<k]) ks)"

definition orderly :: "nat \<Rightarrow> latch \<Rightarrow> nat option \<Rightarrow> nat list \<Rightarrow> bool" where
  "orderly hooks s owner ks \<longleftrightarrow> held s owner \<and> la_log s = attempts ks @ [0..<progress hooks s owner]
     \<and> (\<forall>c. la_place s c \<noteq> Claiming)
     \<and> (\<forall>c k. la_place s c = InHooks k \<longrightarrow> k \<le> hooks \<and> \<not> la_fired s)
     \<and> (\<forall>c ok. la_place s c = Releasing ok \<longrightarrow> (la_fired s \<longleftrightarrow> ok))"

lemma orderly_step:
  assumes o: "orderly hooks s owner ks" and step: "loop_step hooks ev s = Some s'"
  shows "\<exists>owner' ks'. orderly hooks s' owner' ks'"
proof -
  have held: "held s owner" and log: "la_log s = attempts ks @ [0..<progress hooks s owner]"
    and claiming: "\<And>c. la_place s c \<noteq> Claiming"
    and hooks: "\<And>c k. la_place s c = InHooks k \<Longrightarrow> k \<le> hooks \<and> \<not> la_fired s"
    and releasing: "\<And>c ok. la_place s c = Releasing ok \<Longrightarrow> la_fired s \<longleftrightarrow> ok"
    using o by (auto simp: orderly_def)
  show ?thesis
  proof (cases ev)
    case (Test c)
    then have c: "la_place s c = Testing" using step by (auto simp: loop_step_def split: if_splits)
    then have other: "owner \<noteq> Some c" by (intro held_idle [OF held]) simp
    then have same: "progress hooks (goes c p s) owner = progress hooks s owner" for p
      by (simp add: progress_def goes_def split: option.split)
    consider (fired) "la_fired s" | (busy) "\<not> la_fired s" "la_running s" | (free) "\<not> la_fired s" "\<not> la_running s" by blast
    then show ?thesis
    proof cases
      case fired
      then have s': "s' = goes c Passed s" using step Test c by (simp add: loop_step_def goes_def)
      have "held s' owner" unfolding s' by (rule held_goes [OF held]) (use other fired in simp_all)
      then have "orderly hooks s' owner ks" using log same [of Passed] claiming hooks releasing unfolding s' orderly_def
        by (auto simp: goes_def)
      then show ?thesis by blast
    next
      case busy
      then have s': "s' = goes c Testing s" using step Test c by (simp add: loop_step_def goes_def)
      then have "s' = s" using c by (simp add: goes_def fun_upd_idem)
      with o show ?thesis by blast
    next
      case free
      then have none: "owner = None" using held by (simp add: held_def)
      have s': "s' = goes c (InHooks 0) (s\<lparr>la_running := True\<rparr>)" using step Test c free by (simp add: loop_step_def goes_def)
      have "held s' (Some c)" unfolding s' by (rule held_claim(1) [OF held free(2)])
      moreover note held_claim(3,4) [OF held free(2)]
      ultimately have "orderly hooks s' (Some c) ks" using log none free claiming hooks releasing unfolding s' orderly_def
        by (auto simp: goes_def progress_def)
      then show ?thesis by blast
    qed
  next
    case (Claim c)
    with step show ?thesis by (simp add: loop_step_def)
  next
    case (Hook c ok)
    then have step': "latch_step hooks (Hook c ok) s = Some s'" using step by (simp add: loop_step_def)
    then obtain k where c: "la_place s c = InHooks k" "k < hooks" by (auto split: place.splits if_splits)
    then have mine: "owner = Some c" using held_active [OF held] by simp
    have others: "la_place s d = Releasing ok \<Longrightarrow> d = c" for d ok using held_active [OF held, of d] mine by auto
    have s': "s' = goes c (if ok then InHooks (k + 1) else Releasing False) (s\<lparr>la_log := la_log s @ [k]\<rparr>)"
      using step' c by simp
    have h: "held s' owner" using held_step [OF held step'] by simp
    have "la_log s' = attempts ks @ [0..<k + 1]" using log mine c by (simp add: s' goes_def progress_def)
    then have "orderly hooks s' owner (if ok then ks else ks @ [k + 1])"
      using h mine c claiming hooks [OF c(1)] hooks releasing unfolding orderly_def
      by (auto simp: s' goes_def progress_def attempts_def dest: others split: if_splits)
    then show ?thesis by blast
  next
    case (Fire c)
    then have step': "latch_step hooks (Fire c) s = Some s'" using step by (simp add: loop_step_def)
    then have c: "la_place s c = InHooks hooks" by (simp split: if_splits)
    then have mine: "owner = Some c" using held_active [OF held] by simp
    have s': "s' = goes c (Releasing True) (s\<lparr>la_fired := True\<rparr>)" using step' c by simp
    have others: "la_place s d = InHooks k \<Longrightarrow> d = c" "la_place s d = Releasing ok \<Longrightarrow> d = c" for d k ok
      using held_active [OF held, of d] mine by auto
    have "held s' owner" using held_step [OF held step'] by simp
    then have "orderly hooks s' owner ks" using log mine c claiming unfolding orderly_def
      by (auto simp: s' goes_def progress_def dest: others)
    then show ?thesis by blast
  next
    case (Release c)
    then have step': "latch_step hooks (Release c) s = Some s'" using step by (simp add: loop_step_def)
    then obtain ok where c: "la_place s c = Releasing ok" by (auto split: place.splits)
    then have mine: "owner = Some c" using held_active [OF held] by simp
    have s': "s' = goes c (if ok then Testing else Raised) (s\<lparr>la_running := False\<rparr>)" using step' c by simp
    have others: "la_place s d = InHooks k \<Longrightarrow> d = c" "la_place s d = Releasing ok \<Longrightarrow> d = c" for d k ok
      using held_active [OF held, of d] mine by auto
    have "held s' None" using held_step [OF held step'] by simp
    then have "orderly hooks s' None ks" using log mine c claiming releasing [OF c] unfolding orderly_def
      by (auto simp: s' goes_def progress_def dest: others split: if_splits)
    then show ?thesis by blast
  qed
qed

lemma loop_orderly: "on_loop hooks s \<Longrightarrow> \<exists>owner ks. orderly hooks s owner ks"
proof (induction rule: on_loop.induct)
  case 1
  have "orderly hooks latch_init None []" by (simp add: orderly_def held_def latch_init_def progress_def attempts_def)
  then show ?case by blast
next
  case (2 s ev s')
  then show ?case using orderly_step by blast
qed

text \<open>C7: On one event loop, whatever the order in which first requests arrive and their callers run, once
  a request has passed the latch the hooks have been called in order, to the last, exactly once: the
  calls ever made are those of attempts that raised, followed by one complete run, and no request
  passes, and no attempt starts, before or beside it.\<close>

theorem first_request_hooks_once:
  assumes "on_loop hooks s" and "la_place s c = Passed"
  shows "\<exists>ks. la_log s = attempts ks @ [0..<hooks] \<and> (\<forall>d k. la_place s d \<noteq> InHooks k)"
proof -
  obtain owner ks where o: "orderly hooks s owner ks" using loop_orderly [OF assms(1)] by blast
  then have fired: "la_fired s" using assms(2) unfolding orderly_def held_def by blast
  then have none: "la_place s d \<noteq> InHooks k" for d k using o by (auto simp: orderly_def)
  have "progress hooks s owner = hooks"
  proof (cases owner)
    case None
    with fired show ?thesis by (simp add: progress_def)
  next
    case (Some d)
    then have "active (la_place s d)" using o by (simp add: orderly_def held_def)
    then obtain ok where "la_place s d = Releasing ok" using none by (cases "la_place s d") auto
    moreover from this have ok using o fired by (auto simp: orderly_def)
    ultimately show ?thesis using Some by (simp add: progress_def)
  qed
  with o none show ?thesis by (auto simp: orderly_def)
qed

definition sample_schedule :: "latch_event list" where
  "sample_schedule = [Test 0, Hook 0 True, Test 1, Hook 0 False, Release 0, Test 1, Hook 1 True, Test 2, Hook 1 True, Fire 1, Test 2, Release 1, Test 1]"

theorem first_request_hooks_once_witness:
  "\<exists>s. run_latch (loop_step 2) sample_schedule latch_init = Some s \<and> la_place s 1 = Passed \<and> la_log s = attempts [2] @ [0, 1]
     \<and> (\<forall>d k. la_place s d \<noteq> InHooks k)"
proof -
  have "\<exists>s. run_latch (loop_step 2) sample_schedule latch_init = Some s \<and> la_place s 1 = Passed \<and> la_log s = [0, 1, 0, 1]"
    by (simp add: sample_schedule_def loop_step_def goes_def latch_init_def)
  then obtain s where s: "run_latch (loop_step 2) sample_schedule latch_init = Some s" "la_place s 1 = Passed" "la_log s = [0, 1, 0, 1]"
    by blast
  have "on_loop 2 s" by (rule on_loop_run [OF s(1) on_loop.intros(1)])
  from first_request_hooks_once [OF this s(2)] s show ?thesis by (simp add: attempts_def upt_rec)
qed

text \<open>Between threads the flag is tested before the lock is taken and not again under it: a caller that
  tested before the flag was set claims after the run is over, and the hooks run again.\<close>

theorem first_request_hooks_twice:
  "\<exists>s. on_threads 1 s \<and> la_place s 0 = Passed \<and> la_log s = [0, 0]"
proof -
  have "\<exists>s. run_latch (latch_step 1) [Test 0, Claim 0, Test 1, Hook 0 True, Fire 0, Release 0, Test 0, Claim 1, Hook 1 True] latch_init = Some s
      \<and> la_place s 0 = Passed \<and> la_log s = [0, 0]"
    by (simp add: goes_def latch_init_def)
  then show ?thesis using on_threads_run on_threads.intros(1) by blast
qed

end
