(* ===== verification/Body_Source.thy ===== *)
theory Body_Source
  imports Ws_Codec
begin

text \<open>
  Request bodies as they arrive: \<open>RequestBodySource\<close>, which the HTTP/1.1 parser feeds, and
  \<open>ASGIBodySource\<close>, which pulls from a \<open>receive\<close> channel, of \<open>src/src/veloce/http/_body.py\<close>, and the
  cache of \<open>Request\<close> over either. A coroutine that would wait answers \<open>Wait\<close> and is resumed by calling it
  again; the calls of the transport's flow control are recorded. A channel is the list of the messages
  that have arrived.
\<close>

section \<open>The source the parser feeds\<close>

datatype flow_call = PauseReading | ResumeReading

record body_source =
  bs_chunks :: "bytes list"
  bs_eof :: bool
  bs_event :: bool
  bs_size :: nat
  bs_max :: "nat option"
  bs_overflow :: bool
  bs_high :: nat
  bs_low :: nat
  bs_flow :: bool
  bs_paused :: bool
  bs_draining :: bool
  bs_disconnected :: bool
  bs_calls :: "flow_call list"

definition default_high_water :: nat where
  "default_high_water = 16"

definition default_low_water :: nat where
  "default_low_water = 4"

definition source_init :: "nat option \<Rightarrow> nat \<Rightarrow> nat \<Rightarrow> body_source" where
  "source_init max_content_length high low =
     \<lparr>bs_chunks = [], bs_eof = False, bs_event = False, bs_size = 0, bs_max = max_content_length, bs_overflow = False,
      bs_high = high, bs_low = low, bs_flow = False, bs_paused = False, bs_draining = False, bs_disconnected = False, bs_calls = []\<rparr>"

definition set_flow_control :: "body_source \<Rightarrow> body_source" where
  "set_flow_control s = s\<lparr>bs_flow := True\<rparr>"

definition at_eof :: "body_source \<Rightarrow> bool" where
  "at_eof s \<longleftrightarrow> bs_eof s \<and> bs_chunks s = []"

definition over_limit :: "nat option \<Rightarrow> nat \<Rightarrow> bool" where
  "over_limit limit n = (case limit of None \<Rightarrow> False | Some m \<Rightarrow> n > m)"

definition feed :: "bytes \<Rightarrow> body_source \<Rightarrow> body_source" where
  "feed chunk s =
     (if chunk = [] then s
      else if bs_draining s then s\<lparr>bs_size := 0, bs_event := True\<rparr>
      else
        (let s1 = s\<lparr>bs_size := bs_size s + length chunk\<rparr> in
         if over_limit (bs_max s1) (bs_size s1) then s1\<lparr>bs_overflow := True, bs_event := True\<rparr>
         else
           (let s2 = s1\<lparr>bs_chunks := bs_chunks s1 @ [chunk], bs_event := True\<rparr> in
            if \<not> bs_paused s2 \<and> length (bs_chunks s2) \<ge> bs_high s2 \<and> bs_flow s2
            then s2\<lparr>bs_paused := True, bs_calls := bs_calls s2 @ [PauseReading]\<rparr> else s2)))"

definition feed_eof :: "bool \<Rightarrow> body_source \<Rightarrow> body_source" where
  "feed_eof disconnected s =
     s\<lparr>bs_eof := True, bs_disconnected := bs_disconnected s \<or> disconnected, bs_event := True\<rparr>"

definition mark_disconnected :: "body_source \<Rightarrow> body_source" where
  "mark_disconnected s = s\<lparr>bs_disconnected := True\<rparr>"

definition resume_reading :: "body_source \<Rightarrow> body_source" where
  "resume_reading s =
     s\<lparr>bs_paused := False, bs_calls := (if bs_flow s then bs_calls s @ [ResumeReading] else bs_calls s)\<rparr>"

definition maybe_resume :: "body_source \<Rightarrow> body_source" where
  "maybe_resume s = (if bs_paused s \<and> length (bs_chunks s) \<le> bs_low s then resume_reading s else s)"

text \<open>What a read of the next chunk comes to.\<close>

datatype pull = Chunk bytes | Stop | TooLarge | Wait

definition next_chunk :: "body_source \<Rightarrow> pull \<times> body_source" where
  "next_chunk s =
     (case bs_chunks s of
        chunk # rest \<Rightarrow> (Chunk chunk, maybe_resume (s\<lparr>bs_chunks := rest\<rparr>))
      | [] \<Rightarrow>
          if bs_overflow s then (TooLarge, s)
          else if bs_eof s then (Stop, s)
          else (Wait, s\<lparr>bs_event := False\<rparr>))"

text \<open>\<open>drain\<close> up to its first wait, and each turn after it.\<close>

definition drain_turn :: "body_source \<Rightarrow> bool \<times> body_source" where
  "drain_turn s =
     (if bs_eof s then (True, s\<lparr>bs_chunks := []\<rparr>)
      else (False, s\<lparr>bs_chunks := [], bs_size := 0, bs_event := False\<rparr>))"

definition drain :: "body_source \<Rightarrow> bool \<times> body_source" where
  "drain s =
     (let s1 = s\<lparr>bs_draining := True\<rparr> in drain_turn (if bs_paused s1 then resume_reading s1 else s1))"

section \<open>The source over a channel\<close>

datatype message = HttpRequest bytes bool | HttpDisconnect | OtherMessage

record asgi_source =
  as_max :: "nat option"
  as_size :: nat
  as_done :: bool
  as_disconnected :: bool

definition asgi_init :: "nat option \<Rightarrow> bool \<Rightarrow> asgi_source" where
  "asgi_init max_content_length body_complete =
     \<lparr>as_max = max_content_length, as_size = 0, as_done = body_complete, as_disconnected = False\<rparr>"

fun asgi_next :: "message list \<Rightarrow> asgi_source \<Rightarrow> pull \<times> message list \<times> asgi_source" where
  "asgi_next ms s =
     (if as_done s then (Stop, ms, s)
      else (case ms of
        [] \<Rightarrow> (Wait, [], s)
      | HttpDisconnect # rest \<Rightarrow> (Stop, rest, s\<lparr>as_done := True, as_disconnected := True\<rparr>)
      | OtherMessage # rest \<Rightarrow> asgi_next rest s
      | HttpRequest chunk more_body # rest \<Rightarrow>
          (let s1 = (if more_body then s else s\<lparr>as_done := True\<rparr>) in
           if chunk \<noteq> []
           then (let s2 = s1\<lparr>as_size := as_size s1 + length chunk\<rparr> in
                 if over_limit (as_max s2) (as_size s2) then (TooLarge, rest, s2) else (Chunk chunk, rest, s2))
           else if as_done s1 then (Stop, rest, s1)
           else asgi_next rest s1)))"

declare asgi_next.simps [simp del]

text \<open>\<open>read\<close>, with the parts it has gathered; a \<open>Wait\<close> is resumed with them.\<close>

datatype read = Body bytes | Refused | Blocked "bytes list"

fun asgi_read :: "message list \<Rightarrow> bytes list option \<Rightarrow> asgi_source \<Rightarrow> read \<times> message list \<times> asgi_source" where
  "asgi_read ms parts s =
     (let joined = (case parts of None \<Rightarrow> [] | Some ps \<Rightarrow> concat ps) in
      if as_done s then (Body joined, ms, s)
      else (case ms of
        [] \<Rightarrow> (Blocked (case parts of None \<Rightarrow> [] | Some ps \<Rightarrow> ps), [], s)
      | HttpDisconnect # rest \<Rightarrow> (Body joined, rest, s\<lparr>as_done := True, as_disconnected := True\<rparr>)
      | OtherMessage # rest \<Rightarrow> asgi_read rest parts s
      | HttpRequest chunk more_body # rest \<Rightarrow>
          (let s1 = (if more_body then s else s\<lparr>as_done := True\<rparr>) in
           if chunk \<noteq> []
           then (let s2 = s1\<lparr>as_size := as_size s1 + length chunk\<rparr> in
                 if over_limit (as_max s2) (as_size s2) then (Refused, rest, s2)
                 else (case parts of
                     None \<Rightarrow> if \<not> more_body then (Body chunk, rest, s2) else asgi_read rest (Some [chunk]) s2
                   | Some ps \<Rightarrow> asgi_read rest (Some (ps @ [chunk])) s2))
           else asgi_read rest parts s1)))"

declare asgi_read.simps [simp del]

text \<open>\<open>poll_disconnected\<close> asks the channel for one loop turn.\<close>

definition asgi_poll :: "message list \<Rightarrow> asgi_source \<Rightarrow> bool \<times> message list \<times> asgi_source" where
  "asgi_poll ms s =
     (if as_disconnected s then (True, ms, s)
      else if \<not> as_done s then (False, ms, s)
      else (case ms of
        [] \<Rightarrow> (False, [], s)
      | HttpDisconnect # rest \<Rightarrow> (True, rest, s\<lparr>as_disconnected := True\<rparr>)
      | m # rest \<Rightarrow> (False, rest, s)))"

section \<open>Reading to the end\<close>

text \<open>Iteration until it stops, and \<open>RequestBodySource.read\<close>, on what has arrived.\<close>

function drain_chunks :: "bytes list \<Rightarrow> body_source \<Rightarrow> read \<times> body_source" where
  "drain_chunks parts s =
     (case next_chunk s of
        (Chunk c, s1) \<Rightarrow> drain_chunks (parts @ [c]) s1
      | (Stop, s1) \<Rightarrow> (Body (concat parts), s1)
      | (TooLarge, s1) \<Rightarrow> (Refused, s1)
      | (Wait, s1) \<Rightarrow> (Blocked parts, s1))"
  by pat_completeness auto
termination
  by (relation "measure (\<lambda>(parts, s). length (bs_chunks s))")
    (auto simp: next_chunk_def maybe_resume_def resume_reading_def split: list.splits if_splits)

declare drain_chunks.simps [simp del]

function asgi_iterate :: "bytes list \<Rightarrow> message list \<Rightarrow> asgi_source \<Rightarrow> read \<times> message list \<times> asgi_source" where
  "asgi_iterate parts ms s =
     (case asgi_next ms s of
        (Chunk c, ms1, s1) \<Rightarrow> if length ms1 < length ms then asgi_iterate (parts @ [c]) ms1 s1 else (Blocked parts, ms, s)
      | (Stop, ms1, s1) \<Rightarrow> (Body (concat parts), ms1, s1)
      | (TooLarge, ms1, s1) \<Rightarrow> (Refused, ms1, s1)
      | (Wait, ms1, s1) \<Rightarrow> (Blocked parts, ms1, s1))"
  by pat_completeness auto
termination
  by (relation "measure (\<lambda>(parts, ms, s). length ms)") auto

declare asgi_iterate.simps [simp del]

section \<open>The transports agree\<close>

text \<open>What a channel says of its body, read to the end.\<close>

fun channel_body :: "nat option \<Rightarrow> nat \<Rightarrow> bytes list \<Rightarrow> message list \<Rightarrow> read" where
  "channel_body limit n parts [] = Blocked parts"
| "channel_body limit n parts (HttpDisconnect # ms) = Body (concat parts)"
| "channel_body limit n parts (OtherMessage # ms) = channel_body limit n parts ms"
| "channel_body limit n parts (HttpRequest c more_body # ms) =
     (if c \<noteq> [] \<and> over_limit limit (n + length c) then Refused
      else if more_body then channel_body limit (n + length c) (if c = [] then parts else parts @ [c]) ms
      else Body (concat parts @ c))"

text \<open>A channel as the calls of the parser.\<close>

fun deliver :: "message list \<Rightarrow> body_source \<Rightarrow> body_source" where
  "deliver [] s = s"
| "deliver (HttpDisconnect # ms) s = feed_eof True s"
| "deliver (OtherMessage # ms) s = deliver ms s"
| "deliver (HttpRequest c more_body # ms) s =
     (if more_body then deliver ms (feed c s) else feed_eof False (feed c s))"

lemma asgi_next_done: "as_done s \<Longrightarrow> asgi_next ms s = (Stop, ms, s)"
  by (subst asgi_next.simps) simp

lemma asgi_iterate_done: "as_done s \<Longrightarrow> asgi_iterate parts ms s = (Body (concat parts), ms, s)"
  by (subst asgi_iterate.simps) (simp add: asgi_next_done)

lemma asgi_next_shorter: "asgi_next ms s = (Chunk c, ms1, s1) \<Longrightarrow> length ms1 < length ms"
proof (induction ms arbitrary: s)
  case Nil
  then show ?case by (subst (asm) asgi_next.simps) (simp split: if_splits)
next
  case (Cons m ms)
  from Cons.prems show ?case
    by (subst (asm) asgi_next.simps) (auto simp: Let_def split: if_splits message.splits dest: Cons.IH)
qed

lemma asgi_next_simps:
  assumes "\<not> as_done s"
  shows "asgi_next [] s = (Wait, [], s)"
    "asgi_next (HttpDisconnect # ms) s = (Stop, ms, s\<lparr>as_done := True, as_disconnected := True\<rparr>)"
    "asgi_next (OtherMessage # ms) s = asgi_next ms s"
    "asgi_next (HttpRequest c more_body # ms) s =
       (let s1 = (if more_body then s else s\<lparr>as_done := True\<rparr>); s2 = s1\<lparr>as_size := as_size s1 + length c\<rparr> in
        if c = [] then (if more_body then asgi_next ms s else (Stop, ms, s1))
        else if over_limit (as_max s) (as_size s2) then (TooLarge, ms, s2) else (Chunk c, ms, s2))"
  using assms by (subst asgi_next.simps; simp add: Let_def)+

lemma asgi_iterate_skip:
  "asgi_next (m # ms) s = asgi_next ms s \<Longrightarrow> asgi_iterate parts (m # ms) s = asgi_iterate parts ms s"
  using asgi_next_shorter [of ms s]
  by (subst (1 2) asgi_iterate.simps) (auto split: pull.splits prod.splits simp: less_Suc_eq dest: asgi_next_shorter)

lemma asgi_iterate_simps:
  assumes "\<not> as_done s"
  shows "asgi_iterate parts [] s = (Blocked parts, [], s)"
    "asgi_iterate parts (HttpDisconnect # ms) s = (Body (concat parts), ms, s\<lparr>as_done := True, as_disconnected := True\<rparr>)"
    "asgi_iterate parts (OtherMessage # ms) s = asgi_iterate parts ms s"
    "asgi_iterate parts (HttpRequest c more_body # ms) s =
       (let s1 = (if more_body then s else s\<lparr>as_done := True\<rparr>); s2 = s1\<lparr>as_size := as_size s1 + length c\<rparr> in
        if c = [] then (if more_body then asgi_iterate parts ms s else (Body (concat parts), ms, s1))
        else if over_limit (as_max s) (as_size s2) then (Refused, ms, s2) else asgi_iterate (parts @ [c]) ms s2)"
proof -
  show "asgi_iterate parts [] s = (Blocked parts, [], s)"
    "asgi_iterate parts (HttpDisconnect # ms) s = (Body (concat parts), ms, s\<lparr>as_done := True, as_disconnected := True\<rparr>)"
    by (subst asgi_iterate.simps; simp add: asgi_next_simps [OF assms])+
  show "asgi_iterate parts (OtherMessage # ms) s = asgi_iterate parts ms s"
    by (rule asgi_iterate_skip) (simp add: asgi_next_simps [OF assms])
  show "asgi_iterate parts (HttpRequest c more_body # ms) s =
       (let s1 = (if more_body then s else s\<lparr>as_done := True\<rparr>); s2 = s1\<lparr>as_size := as_size s1 + length c\<rparr> in
        if c = [] then (if more_body then asgi_iterate parts ms s else (Body (concat parts), ms, s1))
        else if over_limit (as_max s) (as_size s2) then (Refused, ms, s2) else asgi_iterate (parts @ [c]) ms s2)"
  proof (cases "c = [] \<and> more_body")
    case True
    then show ?thesis by (simp add: asgi_iterate_skip asgi_next_simps [OF assms])
  next
    case False
    then show ?thesis by (subst asgi_iterate.simps) (auto simp: asgi_next_simps [OF assms] Let_def)
  qed
qed

lemma asgi_iterate_body:
  "\<not> as_done s \<Longrightarrow> fst (asgi_iterate parts ms s) = channel_body (as_max s) (as_size s) parts ms"
proof (induction ms arbitrary: parts s)
  case Nil
  then show ?case by (simp add: asgi_iterate_simps)
next
  case (Cons m ms)
  show ?case
    by (cases m) (use Cons in \<open>simp_all add: asgi_iterate_simps Let_def asgi_iterate_done\<close>)
qed

text \<open>\<open>ASGIBodySource.read\<close>, with its path for a body in one message, is the iteration of the chunks
  joined: the same bytes, refusal or wait, the same messages left in the channel and the same state.\<close>

theorem asgi_read_is_iteration:
  "asgi_read ms parts s = asgi_iterate (case parts of None \<Rightarrow> [] | Some ps \<Rightarrow> ps) ms s"
proof (cases "as_done s")
  case True
  then show ?thesis by (subst asgi_read.simps) (simp add: asgi_iterate_done split: option.split)
next
  case False
  then show ?thesis
  proof (induction ms arbitrary: parts s)
    case Nil
    then show ?case by (subst asgi_read.simps) (simp add: asgi_iterate_simps)
  next
    case (Cons m ms)
    have finished: "asgi_read ms parts s = (Body (concat (case parts of None \<Rightarrow> [] | Some ps \<Rightarrow> ps)), ms, s)" if "as_done s" for parts s
      using that by (subst asgi_read.simps) (simp split: option.split)
    show ?case
    proof (cases m)
      case (HttpRequest c more_body)
      then show ?thesis using Cons.prems
        by (subst asgi_read.simps) (auto simp: asgi_iterate_simps Let_def Cons.IH finished asgi_iterate_done split: option.split)
    qed (use Cons in \<open>subst asgi_read.simps; simp add: asgi_iterate_simps split: option.split\<close>)+
  qed
qed

lemma drain_chunks_all:
  "fst (drain_chunks parts s) =
     (if bs_overflow s then Refused else if bs_eof s then Body (concat (parts @ bs_chunks s)) else Blocked (parts @ bs_chunks s))"
proof (induction parts s rule: drain_chunks.induct)
  case (1 parts s)
  show ?case
  proof (cases "bs_chunks s")
    case Nil
    then show ?thesis by (subst drain_chunks.simps) (simp add: next_chunk_def)
  next
    case (Cons c rest)
    let ?s = "maybe_resume (s\<lparr>bs_chunks := rest\<rparr>)"
    have "next_chunk s = (Chunk c, ?s)" by (simp add: next_chunk_def Cons)
    moreover from 1 [OF this [symmetric] refl] have "fst (drain_chunks (parts @ [c]) ?s) =
        (if bs_overflow ?s then Refused else if bs_eof ?s then Body (concat (parts @ [c] @ bs_chunks ?s)) else Blocked (parts @ [c] @ bs_chunks ?s))"
      by simp
    ultimately show ?thesis by (subst drain_chunks.simps) (simp add: Cons maybe_resume_def resume_reading_def)
  qed
qed

lemma feed_fields:
  "bs_eof (feed c s) = bs_eof s" "bs_draining (feed c s) = bs_draining s" "bs_max (feed c s) = bs_max s"
  "bs_overflow s \<Longrightarrow> bs_overflow (feed c s)"
  by (simp_all add: feed_def Let_def)

lemma feed_chunks:
  assumes "\<not> bs_draining s"
  shows "bs_chunks (feed c s) = (if c = [] \<or> over_limit (bs_max s) (bs_size s + length c) then bs_chunks s else bs_chunks s @ [c])"
    "bs_size (feed c s) = bs_size s + length c"
    "bs_overflow (feed c s) = (bs_overflow s \<or> c \<noteq> [] \<and> over_limit (bs_max s) (bs_size s + length c))"
  using assms by (auto simp: feed_def Let_def)

lemma deliver_overflow: "bs_overflow s \<Longrightarrow> bs_overflow (deliver ms s)"
  by (induction ms s rule: deliver.induct) (simp_all add: feed_fields feed_eof_def)

lemma deliver_body:
  "\<not> bs_overflow s \<Longrightarrow> \<not> bs_eof s \<Longrightarrow> \<not> bs_draining s \<Longrightarrow>
   fst (drain_chunks [] (deliver ms s)) = channel_body (bs_max s) (bs_size s) (bs_chunks s) ms"
proof (induction ms s rule: deliver.induct)
  case (4 c more_body ms s)
  then show ?case
    by (auto simp: drain_chunks_all deliver_overflow feed_chunks feed_fields feed_eof_def)
qed (simp_all add: drain_chunks_all feed_eof_def)

text \<open>C9: A request streams alike on either transport: whatever arrives, in whatever pieces, reading the
  body fed by the parser and reading it from the channel give the same bytes, or both refuse it as too
  large, or both wait for more.\<close>

theorem transports_read_alike:
  "fst (drain_chunks [] (deliver ms (source_init limit high low))) = fst (asgi_read ms None (asgi_init limit False))"
  by (simp add: deliver_body source_init_def asgi_read_is_iteration asgi_iterate_body asgi_init_def)

section \<open>Whatever the parser and the reader do\<close>

datatype source_op = Feed bytes | FeedEof bool | MarkGone | WireFlow | Pull | StartDrain | GoOnDraining

text \<open>A source with the bytes fed to it and the bytes it has handed out.\<close>

record trail =
  tr_source :: body_source
  tr_fed :: bytes
  tr_taken :: bytes

definition source_op :: "source_op \<Rightarrow> body_source \<Rightarrow> body_source" where
  "source_op a s =
     (case a of
        Feed c \<Rightarrow> feed c s
      | FeedEof d \<Rightarrow> feed_eof d s
      | MarkGone \<Rightarrow> mark_disconnected s
      | WireFlow \<Rightarrow> set_flow_control s
      | Pull \<Rightarrow> snd (next_chunk s)
      | StartDrain \<Rightarrow> snd (drain s)
      | GoOnDraining \<Rightarrow> if bs_draining s then snd (drain_turn s) else s)"

definition trail_op :: "source_op \<Rightarrow> trail \<Rightarrow> trail" where
  "trail_op a t =
     \<lparr>tr_source = source_op a (tr_source t),
      tr_fed = tr_fed t @ (case a of Feed c \<Rightarrow> c | _ \<Rightarrow> []),
      tr_taken = tr_taken t @ (case a of Pull \<Rightarrow> (case fst (next_chunk (tr_source t)) of Chunk c \<Rightarrow> c | _ \<Rightarrow> []) | _ \<Rightarrow> [])\<rparr>"

inductive on_trail :: "nat option \<Rightarrow> nat \<Rightarrow> nat \<Rightarrow> trail \<Rightarrow> bool" for limit high low where
  "on_trail limit high low \<lparr>tr_source = source_init limit high low, tr_fed = [], tr_taken = []\<rparr>"
| "on_trail limit high low t \<Longrightarrow> on_trail limit high low (trail_op a t)"

definition trail_ok :: "nat option \<Rightarrow> trail \<Rightarrow> bool" where
  "trail_ok limit t \<longleftrightarrow>
     (let s = tr_source t; held = tr_taken t @ concat (bs_chunks s) in
      bs_max s = limit
      \<and> (\<not> bs_draining s \<longrightarrow>
           bs_size s = length (tr_fed t) \<and> \<not> over_limit limit (length held)
           \<and> (if bs_overflow s then over_limit limit (bs_size s) \<and> (\<exists>more. tr_fed t = held @ more) else tr_fed t = held)))"

lemma over_limit_mono: "over_limit limit m \<Longrightarrow> m \<le> n \<Longrightarrow> over_limit limit n"
  by (auto simp: over_limit_def split: option.splits)

lemma draining_op: "bs_draining s \<Longrightarrow> bs_draining (source_op a s)"
  by (auto simp: source_op_def feed_def feed_eof_def mark_disconnected_def set_flow_control_def next_chunk_def maybe_resume_def
      resume_reading_def drain_def drain_turn_def Let_def split: source_op.split list.split)

lemma max_op: "bs_max (source_op a s) = bs_max s"
  by (auto simp: source_op_def feed_def feed_eof_def mark_disconnected_def set_flow_control_def next_chunk_def maybe_resume_def
      resume_reading_def drain_def drain_turn_def Let_def split: source_op.split list.split)

lemma maybe_resume_fields:
  "bs_chunks (maybe_resume s) = bs_chunks s" "bs_size (maybe_resume s) = bs_size s" "bs_overflow (maybe_resume s) = bs_overflow s"
  "bs_draining (maybe_resume s) = bs_draining s" "bs_eof (maybe_resume s) = bs_eof s" "bs_max (maybe_resume s) = bs_max s"
  by (simp_all add: maybe_resume_def resume_reading_def)

lemma trail_ok_op:
  assumes ok: "trail_ok limit t"
  shows "trail_ok limit (trail_op a t)"
proof (cases "bs_draining (source_op a (tr_source t))")
  case True
  with ok show ?thesis by (simp add: trail_ok_def trail_op_def Let_def max_op)
next
  case False
  let ?s = "tr_source t"
  have alive: "\<not> bs_draining ?s" using False draining_op by blast
  show ?thesis
  proof (cases a)
    case (Feed c)
    show ?thesis
    proof (cases "c \<noteq> [] \<and> over_limit limit (bs_size ?s + length c)")
      case True
      with Feed ok alive show ?thesis
        by (auto simp: trail_ok_def trail_op_def source_op_def feed_chunks feed_fields Let_def split: if_splits)
    next
      case False
      moreover from this have "c \<noteq> [] \<longrightarrow> \<not> bs_overflow ?s"
        using ok alive over_limit_mono by (fastforce simp: trail_ok_def Let_def)
      ultimately show ?thesis using Feed ok alive
        by (cases "c = []") (auto simp: trail_ok_def trail_op_def source_op_def feed_chunks feed_fields Let_def add.assoc split: if_splits)
    qed
  next
    case Pull
    with ok alive show ?thesis
      by (cases "bs_chunks ?s")
        (auto simp: trail_ok_def trail_op_def source_op_def next_chunk_def maybe_resume_fields Let_def split: if_splits)
  next
    case StartDrain
    with False show ?thesis
      by (auto simp: source_op_def drain_def drain_turn_def resume_reading_def Let_def split: if_splits)
  qed (use ok alive in \<open>auto simp: trail_ok_def trail_op_def source_op_def feed_eof_def mark_disconnected_def set_flow_control_def Let_def split: if_splits\<close>)
qed

lemma on_trail_ok: "on_trail limit high low t \<Longrightarrow> trail_ok limit t"
  by (induction rule: on_trail.induct) (auto simp: trail_ok_op, simp add: trail_ok_def source_init_def over_limit_def split: option.split)

text \<open>C8: However the parser's calls and the reader's interleave, until the body is being discarded: a chunk
  continues what was handed out with the bytes that were fed next, and stays within the limit; the end
  is reached only when the parser has said so and every byte it fed has been handed out; a body is
  refused exactly when more was fed than the limit; and the reader waits only when it has every byte.\<close>

theorem body_whole_or_refused:
  assumes "on_trail limit high low t" and "\<not> bs_draining (tr_source t)"
  shows "case fst (next_chunk (tr_source t)) of
      Chunk c \<Rightarrow> (\<exists>rest. tr_fed t = tr_taken t @ c @ rest) \<and> \<not> over_limit limit (length (tr_taken t @ c))
    | Stop \<Rightarrow> bs_eof (tr_source t) \<and> tr_taken t = tr_fed t \<and> \<not> over_limit limit (length (tr_fed t))
    | TooLarge \<Rightarrow> over_limit limit (length (tr_fed t))
    | Wait \<Rightarrow> \<not> bs_eof (tr_source t) \<and> tr_taken t = tr_fed t \<and> \<not> over_limit limit (length (tr_fed t))"
proof (cases "bs_chunks (tr_source t)")
  case Nil
  with on_trail_ok [OF assms(1)] assms(2) show ?thesis by (auto simp: next_chunk_def trail_ok_def Let_def split: if_splits)
next
  case (Cons c rest)
  let ?held = "tr_taken t @ concat (bs_chunks (tr_source t))"
  have "\<exists>more. tr_fed t = ?held @ more"
    using on_trail_ok [OF assms(1)] assms(2)
    by (auto simp: trail_ok_def Let_def split: if_splits)
  moreover have "\<not> over_limit limit (length (tr_taken t @ c))"
    using on_trail_ok [OF assms(1)] assms(2) over_limit_mono [of limit "length (tr_taken t @ c)" "length ?held"] Cons
    by (auto simp: trail_ok_def Let_def)
  ultimately show ?thesis using Cons by (auto simp: next_chunk_def)
qed

section \<open>Flow control\<close>

text \<open>The reading state of the transport after the calls made, if each was in order.\<close>

fun reading_paused :: "bool \<Rightarrow> flow_call list \<Rightarrow> bool option" where
  "reading_paused p [] = Some p"
| "reading_paused p (PauseReading # cs) = (if p then None else reading_paused True cs)"
| "reading_paused p (ResumeReading # cs) = (if p then reading_paused False cs else None)"

lemma reading_paused_snoc:
  "reading_paused p (cs @ [c]) = Option.bind (reading_paused p cs) (\<lambda>q. reading_paused q [c])"
  by (induction p cs rule: reading_paused.induct) auto

definition flow_ok :: "body_source \<Rightarrow> bool" where
  "flow_ok s \<longleftrightarrow> (bs_paused s \<longrightarrow> bs_chunks s \<noteq> [] \<and> \<not> bs_draining s \<and> bs_flow s)
     \<and> reading_paused False (bs_calls s) = Some (bs_paused s)"

lemma flow_ok_op: "flow_ok s \<Longrightarrow> flow_ok (source_op a s)"
  by (cases a)
    (auto simp: flow_ok_def source_op_def feed_def feed_eof_def mark_disconnected_def set_flow_control_def next_chunk_def
      maybe_resume_def resume_reading_def drain_def drain_turn_def Let_def reading_paused_snoc split: list.split if_splits)

lemma on_trail_flow: "on_trail limit high low t \<Longrightarrow> flow_ok (tr_source t)"
  by (induction rule: on_trail.induct) (simp_all add: trail_op_def flow_ok_op, simp add: flow_ok_def source_init_def)

text \<open>C10: Flow control never strands a body: pauses and resumes of the socket alternate, whatever the marks,
  and while reading is paused there are chunks to hand out, so a reader that waits and a body that is
  being discarded find the socket being read.\<close>

theorem flow_never_stuck:
  assumes "on_trail limit high low t"
  shows "reading_paused False (bs_calls (tr_source t)) = Some (bs_paused (tr_source t))
    \<and> (fst (next_chunk (tr_source t)) = Wait \<or> bs_draining (tr_source t) \<longrightarrow> \<not> bs_paused (tr_source t))"
  using on_trail_flow [OF assms] by (auto simp: flow_ok_def next_chunk_def split: list.splits if_splits)

section \<open>Concrete sources\<close>

fun trail_of :: "source_op list \<Rightarrow> trail \<Rightarrow> trail" where
  "trail_of [] t = t"
| "trail_of (a # as) t = trail_of as (trail_op a t)"

lemma on_trail_of: "on_trail limit high low t \<Longrightarrow> on_trail limit high low (trail_of as t)"
  by (induction "as" arbitrary: t) (auto intro: on_trail.intros)

definition sample_trail :: trail where
  "sample_trail = trail_of [WireFlow, Feed [1, 2], Feed [3], Pull, Feed [4], Pull, Pull, FeedEof False]
     \<lparr>tr_source = source_init (Some 4) 2 0, tr_fed = [], tr_taken = []\<rparr>"

lemma sample_trail_on: "on_trail (Some 4) 2 0 sample_trail"
  unfolding sample_trail_def by (intro on_trail_of on_trail.intros)

theorem body_whole_or_refused_witness:
  "fst (next_chunk (tr_source sample_trail)) = Stop \<and> tr_taken sample_trail = tr_fed sample_trail"
proof -
  have 1: "\<not> bs_draining (tr_source sample_trail)" "fst (next_chunk (tr_source sample_trail)) = Stop" by code_simp+
  with body_whole_or_refused [OF sample_trail_on 1(1)] show ?thesis by simp
qed

theorem flow_never_stuck_witness:
  "bs_calls (tr_source sample_trail) = [PauseReading, ResumeReading] \<and> \<not> bs_paused (tr_source sample_trail)"
proof -
  have 1: "bs_calls (tr_source sample_trail) = [PauseReading, ResumeReading]" by code_simp
  with flow_never_stuck [OF sample_trail_on] show ?thesis by simp
qed

text \<open>The source the parser feeds refuses a body for good; the source over a channel forgets the refusal when
  the last message trips it, and the next read is that of an empty body.\<close>

theorem refusal_latched_on_one_transport:
  "fst (next_chunk (snd (next_chunk (feed [1, 2] (source_init (Some 1) 16 4))))) = TooLarge
   \<and> fst (asgi_read [HttpRequest [1, 2] False] None (asgi_init (Some 1) False)) = Refused
   \<and> fst (asgi_read [] None (snd (snd (asgi_read [HttpRequest [1, 2] False] None (asgi_init (Some 1) False))))) = Body []"
proof (intro conjI)
  show "fst (next_chunk (snd (next_chunk (feed [1, 2] (source_init (Some 1) 16 4))))) = TooLarge" by code_simp
  show "fst (asgi_read [HttpRequest [1, 2] False] None (asgi_init (Some 1) False)) = Refused" by code_simp
  show "fst (asgi_read [] None (snd (snd (asgi_read [HttpRequest [1, 2] False] None (asgi_init (Some 1) False))))) = Body []" by code_simp
qed

end
