(* ===== verification/Dependencies.thy ===== *)
theory Dependencies
  imports Py_Code "HOL-Library.Multiset"
begin

text \<open>
  Dependency injection: the plan of a handler with its waves of concurrent dependencies
  (\<open>compute_dep_waves\<close> and \<open>HandlerPlan\<close> of \<open>src/src/veloce/_handler_plan.py\<close>) and its interpretation by
  \<open>DependencyResolver\<close> (\<open>src/src/veloce/dependency.py\<close>): the result cache, security scopes and the stack
  of generators to tear down. The dependencies themselves, the values of the request and the state they
  act on are parameters. A plan is a tree, so the guards against visiting a shared plan twice have
  nothing to do; the tasks of a wave run one after the other here, in the order they are created.
\<close>

section \<open>Plans\<close>

datatype dep_kind = PlainDep | GeneratorDep

text \<open>\<open>DependsSlot\<close>: the parameter, the callable, \<open>use_cache\<close>, the scopes \<open>Security\<close> adds, whether the result
  depends on the scopes, the kind and the slots of the sub-plan. \<open>ParamSlot\<close> stands for every slot that is
  read off the request.\<close>

datatype 'c slot =
    DependsSlot (slot_name: string) (slot_callable: 'c) (slot_cached: bool) (slot_scopes: "string list") (slot_sensitive: bool)
      (slot_kind: dep_kind) (slot_sub: "'c slot list")
  | ScopesSlot (slot_name: string)
  | ParamSlot (slot_name: string) nat

fun is_depends :: "'c slot \<Rightarrow> bool" where
  "is_depends (DependsSlot name c cached scopes sensitive kind sub) = True"
| "is_depends _ = False"

fun slot_parallel_safe :: "'c slot \<Rightarrow> bool" where
  "slot_parallel_safe (DependsSlot name c cached scopes sensitive kind sub) =
     (scopes = [] \<and> kind \<noteq> GeneratorDep \<and> (\<forall>x \<in> set sub. is_depends x \<longrightarrow> slot_parallel_safe x))"
| "slot_parallel_safe _ = True"

fun cached_callables :: "'c slot \<Rightarrow> 'c set" where
  "cached_callables (DependsSlot name c cached scopes sensitive kind sub) =
     (if cached then {c} else {}) \<union> \<Union> (set (map (\<lambda>x. if is_depends x then cached_callables x else {}) sub))"
| "cached_callables _ = {}"

text \<open>The waves so far, each with the callables it has taken.\<close>

fun place_wave :: "nat \<Rightarrow> 'c set \<Rightarrow> (nat list \<times> 'c set) list \<Rightarrow> (nat list \<times> 'c set) list" where
  "place_wave idx own [] = [([idx], own)]"
| "place_wave idx own ((wave, taken) # waves) =
     (if own \<inter> taken = {} then (wave @ [idx], taken \<union> own) # waves else (wave, taken) # place_wave idx own waves)"

definition safe_indices :: "'c slot list \<Rightarrow> nat list" where
  "safe_indices slots = filter (\<lambda>i. is_depends (slots ! i) \<and> slot_parallel_safe (slots ! i)) [0..<length slots]"

definition compute_dep_waves :: "'c slot list \<Rightarrow> nat list list" where
  "compute_dep_waves slots =
     (let safe = safe_indices slots in
      if length safe < 2 then []
      else
        (let waves = map fst (fold (\<lambda>i. place_wave i (cached_callables (slots ! i))) safe [])
         in if list_all (\<lambda>wave. length wave < 2) waves then [] else waves))"

text \<open>The waves that run concurrently, where they run, and what is left to the slot order.\<close>

definition batched_waves :: "'c slot list \<Rightarrow> nat list list" where
  "batched_waves slots = map sort (filter (\<lambda>wave. \<not> length wave < 2) (compute_dep_waves slots))"

definition wave_members :: "'c slot list \<Rightarrow> nat list" where
  "wave_members slots = concat (batched_waves slots)"

definition slot_turn :: "'c slot list \<Rightarrow> nat \<Rightarrow> nat list" where
  "slot_turn slots i =
     (if i \<in> set (wave_members slots)
      then if i = Min (set (wave_members slots)) then concat (batched_waves slots) else []
      else [i])"

definition plan_order :: "'c slot list \<Rightarrow> 'c slot list" where
  "plan_order slots = map (\<lambda>i. slots ! i) (concat (map (slot_turn slots) [0..<length slots]))"

section \<open>The waves\<close>

lemma place_wave_mset: "mset (concat (map fst (place_wave idx own waves))) = add_mset idx (mset (concat (map fst waves)))"
  by (induction idx own waves rule: place_wave.induct) auto

lemma fold_wave_mset:
  "mset (concat (map fst (fold (\<lambda>i. place_wave i (f i)) is waves))) = mset is + mset (concat (map fst waves))"
  by (induction "is" arbitrary: waves) (auto simp: place_wave_mset)

text \<open>A wave has taken what its members reach, and no two of them reach the same.\<close>

definition wave_ok :: "(nat \<Rightarrow> 'c set) \<Rightarrow> nat list \<times> 'c set \<Rightarrow> bool" where
  "wave_ok f w \<longleftrightarrow> snd w = \<Union> (f ` set (fst w)) \<and> (\<forall>a < length (fst w). \<forall>b < a. f (fst w ! a) \<inter> f (fst w ! b) = {})"

lemma wave_ok_place: "list_all (wave_ok f) waves \<Longrightarrow> list_all (wave_ok f) (place_wave idx (f idx) waves)"
proof (induction waves)
  case Nil
  show ?case by (simp add: wave_ok_def)
next
  case (Cons w waves)
  obtain wave taken where w: "w = (wave, taken)" by (cases w)
  show ?case
  proof (cases "f idx \<inter> taken = {}")
    case True
    have "wave_ok f (wave @ [idx], taken \<union> f idx)"
      using Cons.prems True nth_mem unfolding w wave_ok_def
      by (auto simp: nth_append less_Suc_eq Int_commute)
    with True Cons.prems show ?thesis by (simp add: w)
  next
    case False
    with Cons show ?thesis by (simp add: w)
  qed
qed

lemma wave_ok_fold: "list_all (wave_ok f) waves \<Longrightarrow> list_all (wave_ok f) (fold (\<lambda>i. place_wave i (f i)) is waves)"
  by (induction "is" arbitrary: waves) (auto simp: wave_ok_place)

lemma waves_mset: "compute_dep_waves slots \<noteq> [] \<Longrightarrow> mset (concat (compute_dep_waves slots)) = mset (safe_indices slots)"
  using fold_wave_mset [of "\<lambda>i. cached_callables (slots ! i)" "safe_indices slots" "[]"]
  by (auto simp: compute_dep_waves_def Let_def split: if_splits)

lemma waves_disjoint:
  assumes "wave \<in> set (compute_dep_waves slots)" "a < length wave" "b < length wave" "a \<noteq> b"
  shows "cached_callables (slots ! (wave ! a)) \<inter> cached_callables (slots ! (wave ! b)) = {}"
proof -
  let ?f = "\<lambda>i. cached_callables (slots ! i)"
  have "list_all (wave_ok ?f) (fold (\<lambda>i. place_wave i (?f i)) (safe_indices slots) [])"
    by (rule wave_ok_fold) simp
  then obtain taken where "wave_ok ?f (wave, taken)"
    using assms(1) by (auto simp: compute_dep_waves_def Let_def list_all_iff split: if_splits)
  then have *: "b < a \<Longrightarrow> a < length wave \<Longrightarrow> ?f (wave ! a) \<inter> ?f (wave ! b) = {}" for a b by (simp add: wave_ok_def)
  show ?thesis using *[of b a] *[of a b] assms(2-4) by (cases "b < a") (simp_all add: Int_commute)
qed

lemma mset_filter_concat: "mset (concat (filter P xss)) + mset (concat (filter (\<lambda>x. \<not> P x) xss)) = mset (concat xss)"
  by (induction xss) auto

lemma concat_map_sort: "mset (concat (map sort xss)) = mset (concat xss)"
  by (induction xss) auto

lemma members_subset: "mset (wave_members slots) \<subseteq># mset (safe_indices slots)"
proof (cases "compute_dep_waves slots = []")
  case True
  then show ?thesis by (simp add: wave_members_def batched_waves_def)
next
  case False
  have "mset (wave_members slots) = mset (concat (filter (\<lambda>w. \<not> length w < 2) (compute_dep_waves slots)))"
    by (simp add: wave_members_def batched_waves_def concat_map_sort)
  also have "\<dots> \<subseteq># mset (concat (compute_dep_waves slots))"
    using mset_filter_concat [of "\<lambda>w. \<not> length w < 2" "compute_dep_waves slots"] by (metis mset_subset_eq_add_left)
  finally show ?thesis using waves_mset [OF False] by simp
qed

lemma members_distinct: "distinct (wave_members slots)" and members_safe: "set (wave_members slots) \<subseteq> set (safe_indices slots)"
proof -
  have "distinct (safe_indices slots)" by (simp add: safe_indices_def)
  then have "count (mset (safe_indices slots)) a \<le> 1" for a by (simp add: distinct_count_atmost_1)
  then have "count (mset (wave_members slots)) a \<le> 1" for a
    using members_subset [of slots] by (meson le_trans mset_subset_eq_count)
  then have "count (mset (wave_members slots)) a = (if a \<in> set (wave_members slots) then 1 else 0)" for a
    by (auto simp: count_eq_zero_iff le_Suc_eq simp flip: not_in_iff)
  then show "distinct (wave_members slots)" by (simp add: distinct_count_atmost_1)
  show "set (wave_members slots) \<subseteq> set (safe_indices slots)" using members_subset by (metis mset_subset_eqD set_mset_mset subsetI)
qed

lemma sum_singletons: "finite A \<Longrightarrow> (\<Sum>i\<in>A. {#i#}) = mset_set A"
  by (induction rule: finite_induct) simp_all

lemma turns_mset: "mset (concat (map (slot_turn slots) [0..<length slots])) = mset [0..<length slots]"
proof -
  let ?n = "length slots" and ?M = "set (wave_members slots)"
  have M: "?M \<subseteq> {..<?n}" using members_safe [of slots] by (auto simp: safe_indices_def)
  have turn: "mset (slot_turn slots i) = (if i \<in> ?M then if i = Min ?M then mset_set ?M else {#} else {#i#})" for i
    using mset_set_set [OF members_distinct [of slots]] by (simp add: slot_turn_def wave_members_def)
  have "mset (concat (map (slot_turn slots) [0..<?n])) = (\<Sum>i\<in>{..<?n}. mset (slot_turn slots i))"
    by (simp add: mset_concat interv_sum_list_conv_sum_set_nat lessThan_atLeast0 comp_def)
  also have "\<dots> = (\<Sum>i\<in>{..<?n} - ?M. mset (slot_turn slots i)) + (\<Sum>i\<in>?M. mset (slot_turn slots i))"
    using M by (simp add: sum.subset_diff)
  also have "(\<Sum>i\<in>{..<?n} - ?M. mset (slot_turn slots i)) = mset_set ({..<?n} - ?M)"
  proof -
    have "(\<Sum>i\<in>{..<?n} - ?M. mset (slot_turn slots i)) = (\<Sum>i\<in>{..<?n} - ?M. {#i#})"
      by (rule sum.cong) (simp_all add: turn)
    then show ?thesis by (simp add: sum_singletons)
  qed
  also have "(\<Sum>i\<in>?M. mset (slot_turn slots i)) = mset_set ?M"
  proof (cases "?M = {}")
    case False
    then have "Min ?M \<in> ?M" by (intro Min_in) simp_all
    moreover have "(\<Sum>i\<in>?M. mset (slot_turn slots i)) = (\<Sum>i\<in>?M. if i = Min ?M then mset_set ?M else {#})"
      by (rule sum.cong) (simp_all add: turn)
    ultimately show ?thesis by (simp add: sum.delta)
  qed simp
  also have "mset_set ({..<?n} - ?M) + mset_set ?M = mset_set {..<?n}"
  proof -
    have "{..<?n} - ?M \<union> ?M = {..<?n}" using M by blast
    moreover have "({..<?n} - ?M) \<inter> ?M = {}" by blast
    ultimately show ?thesis using mset_set_Union [of "{..<?n} - ?M" ?M] by simp
  qed
  also have "\<dots> = mset [0..<?n]" by (simp add: lessThan_atLeast0 mset_upt)
  finally show ?thesis .
qed

lemma plan_order_mset: "mset (plan_order slots) = mset slots"
proof -
  have "mset (plan_order slots) = image_mset (\<lambda>i. slots ! i) (mset [0..<length slots])"
    unfolding plan_order_def mset_map turns_mset ..
  also have "\<dots> = mset slots" by (metis map_nth mset_map)
  finally show ?thesis .
qed

lemma plan_order_set: "set (plan_order slots) = set slots" and plan_order_size: "size_list f (plan_order slots) = size_list f slots"
proof -
  show "set (plan_order slots) = set slots" by (metis plan_order_mset set_mset_mset)
  have "size_list f xs = sum_mset (image_mset f (mset xs)) + length xs" for xs by (induction xs) auto
  then show "size_list f (plan_order slots) = size_list f slots" by (metis plan_order_mset size_mset)
qed


section \<open>Resolution\<close>

type_synonym 'c cache_key = "'c \<times> string set option"

text \<open>The resolver of a request, over the state the dependencies act on. \<open>rv_log\<close> lists the calls of
  dependencies: the key, whether it is cached, the kind, and whether it returned.\<close>

record ('c, 'v, 'u) resolver =
  rv_cache :: "('c cache_key, 'v) dict"
  rv_teardowns :: "'c list"
  rv_scopes :: "string list"
  rv_log :: "('c cache_key \<times> bool \<times> dep_kind \<times> bool) list"
  rv_user :: 'u

record ('c, 'v, 'u) supplied =
  su_call :: "'c \<Rightarrow> (string, 'v) dict \<Rightarrow> 'u \<Rightarrow> (exn + 'v) \<times> 'u"
  su_param :: "nat \<Rightarrow> 'u \<Rightarrow> (exn + 'v option) \<times> 'u"
  su_scopes :: "string list \<Rightarrow> 'v"

definition resolver_init :: "'u \<Rightarrow> ('c, 'v, 'u) resolver" where
  "resolver_init u = \<lparr>rv_cache = [], rv_teardowns = [], rv_scopes = [], rv_log = [], rv_user = u\<rparr>"

definition resolver_reset :: "('c, 'v, 'u) resolver \<Rightarrow> ('c, 'v, 'u) resolver" where
  "resolver_reset s = s\<lparr>rv_cache := [], rv_teardowns := [], rv_scopes := []\<rparr>"

definition cache_key :: "'c slot \<Rightarrow> string list \<Rightarrow> 'c cache_key" where
  "cache_key sl scopes =
     (slot_callable sl, if slot_sensitive sl then Some (set scopes \<union> set (slot_scopes sl)) else None)"

definition push_scopes :: "string list \<Rightarrow> ('c, 'v, 'u) resolver \<Rightarrow> ('c, 'v, 'u) resolver" where
  "push_scopes new s = s\<lparr>rv_scopes := rv_scopes s @ new\<rparr>"

definition pop_scopes :: "string list \<Rightarrow> ('c, 'v, 'u) resolver \<Rightarrow> ('c, 'v, 'u) resolver" where
  "pop_scopes new s = (if new \<noteq> [] then s\<lparr>rv_scopes := take (length (rv_scopes s) - length new) (rv_scopes s)\<rparr> else s)"

text \<open>The call of a dependency, with the generator it starts and the result it caches.\<close>

definition call_dependency ::
  "('c, 'v, 'u) supplied \<Rightarrow> 'c slot \<Rightarrow> 'c cache_key \<Rightarrow> (string, 'v) dict \<Rightarrow> ('c, 'v, 'u) resolver \<Rightarrow> (exn + 'v) \<times> ('c, 'v, 'u) resolver" where
  "call_dependency su sl key kwargs s =
     (case su_call su (slot_callable sl) kwargs (rv_user s) of
        (Inl e, u) \<Rightarrow> (Inl e, s\<lparr>rv_user := u, rv_log := rv_log s @ [(key, slot_cached sl, slot_kind sl, False)]\<rparr>)
      | (Inr v, u) \<Rightarrow>
          (Inr v, s\<lparr>rv_user := u, rv_log := rv_log s @ [(key, slot_cached sl, slot_kind sl, True)],
                    rv_teardowns := (if slot_kind sl = GeneratorDep then rv_teardowns s @ [slot_callable sl] else rv_teardowns s),
                    rv_cache := (if slot_cached sl then dict_set key v (rv_cache s) else rv_cache s)\<rparr>))"

lemma plan_order_less: "size_list size (plan_order sub) < Suc (size_list size sub + n)"
  by (simp add: plan_order_size)

function (sequential) exec_depends :: "('c, 'v, 'u) supplied \<Rightarrow> 'c slot \<Rightarrow> ('c, 'v, 'u) resolver \<Rightarrow> (exn + 'v option) \<times> ('c, 'v, 'u) resolver"
  and bind_slots :: "('c, 'v, 'u) supplied \<Rightarrow> 'c slot list \<Rightarrow> (string, 'v) dict \<Rightarrow> ('c, 'v, 'u) resolver \<Rightarrow> (exn + (string, 'v) dict) \<times> ('c, 'v, 'u) resolver"
where
  "exec_depends su (DependsSlot name c cached new sensitive kind sub) s =
     (let sl = DependsSlot name c cached new sensitive kind sub; key = cache_key sl (rv_scopes s) in
      case (if cached then map_of (rv_cache s) key else None) of
        Some v \<Rightarrow> (Inr (Some v), s)
      | None \<Rightarrow>
          (case bind_slots su (plan_order sub) [] (push_scopes new s) of
             (Inl e, s1) \<Rightarrow> (Inl e, pop_scopes new s1)
           | (Inr kwargs, s1) \<Rightarrow>
               (case call_dependency su sl key kwargs (pop_scopes new s1) of
                  (Inl e, s2) \<Rightarrow> (Inl e, s2)
                | (Inr v, s2) \<Rightarrow> (Inr (Some v), s2))))"
| "exec_depends su (ScopesSlot name) s = (Inr (Some (su_scopes su (rv_scopes s))), s)"
| "exec_depends su (ParamSlot name i) s =
     (case su_param su i (rv_user s) of (r, u) \<Rightarrow> (r, s\<lparr>rv_user := u\<rparr>))"
| "bind_slots su [] kwargs s = (Inr kwargs, s)"
| "bind_slots su (sl # slots) kwargs s =
     (case exec_depends su sl s of
        (Inl e, s1) \<Rightarrow> (Inl e, s1)
      | (Inr None, s1) \<Rightarrow> bind_slots su slots kwargs s1
      | (Inr (Some v), s1) \<Rightarrow> bind_slots su slots (dict_set (slot_name sl) v kwargs) s1)"
  by pat_completeness auto
termination
  by (relation "measure (\<lambda>x. case x of Inl (su, sl, s) \<Rightarrow> 2 * size sl | Inr (su, slots, kwargs, s) \<Rightarrow> 2 * size_list size slots + 1)")
    (auto simp: plan_order_size)

definition resolve_slots ::
  "('c, 'v, 'u) supplied \<Rightarrow> 'c slot list \<Rightarrow> ('c, 'v, 'u) resolver \<Rightarrow> (exn + (string, 'v) dict) \<times> ('c, 'v, 'u) resolver" where
  "resolve_slots su slots s = bind_slots su (plan_order slots) [] s"

text \<open>\<open>resolve_plan\<close> without the compiled resolvers: the dependencies of the route, then the slots.\<close>

fun exec_route_deps :: "('c, 'v, 'u) supplied \<Rightarrow> 'c slot list \<Rightarrow> ('c, 'v, 'u) resolver \<Rightarrow> (exn + unit) \<times> ('c, 'v, 'u) resolver" where
  "exec_route_deps su [] s = (Inr (), s)"
| "exec_route_deps su (sl # slots) s =
     (case exec_depends su sl s of (Inl e, s1) \<Rightarrow> (Inl e, s1) | (Inr v, s1) \<Rightarrow> exec_route_deps su slots s1)"

definition resolve_plan ::
  "('c, 'v, 'u) supplied \<Rightarrow> 'c slot list \<Rightarrow> 'c slot list \<Rightarrow> ('c, 'v, 'u) resolver \<Rightarrow> (exn + (string, 'v) dict) \<times> ('c, 'v, 'u) resolver" where
  "resolve_plan su route_deps slots s =
     (case exec_route_deps su route_deps (resolver_reset s) of
        (Inl e, s1) \<Rightarrow> (Inl e, s1)
      | (Inr u, s1) \<Rightarrow> resolve_slots su slots s1)"

section \<open>What every resolution leaves\<close>

definition started :: "('c cache_key \<times> bool \<times> dep_kind \<times> bool) list \<Rightarrow> 'c list" where
  "started calls = map (\<lambda>(key, cached, kind, ok). fst key) (filter (\<lambda>(key, cached, kind, ok). kind = GeneratorDep \<and> ok) calls)"

lemma started_append [simp]: "started (xs @ ys) = started xs @ started ys"
  by (simp add: started_def)

definition tidy :: "('c, 'v, 'u) resolver \<Rightarrow> ('c, 'v, 'u) resolver \<Rightarrow> bool" where
  "tidy s s' \<longleftrightarrow> rv_scopes s' = rv_scopes s
     \<and> (\<exists>calls. rv_log s' = rv_log s @ calls \<and> rv_teardowns s' = rv_teardowns s @ started calls)"

lemma tidy_refl: "tidy s s"
  by (simp add: tidy_def started_def)

lemma tidy_trans: "tidy s t \<Longrightarrow> tidy t u \<Longrightarrow> tidy s u"
  by (fastforce simp: tidy_def)

lemma tidy_scoped: "tidy (push_scopes new s) t \<Longrightarrow> tidy s (pop_scopes new t)"
  by (auto simp: tidy_def push_scopes_def pop_scopes_def)

lemma tidy_call: "tidy s (snd (call_dependency su sl key kwargs s))" if "fst key = slot_callable sl"
  using that by (auto simp: call_dependency_def tidy_def started_def split: prod.split sum.split)

lemma key_callable: "fst (cache_key sl scopes) = slot_callable sl"
  by (simp add: cache_key_def)

lemma resolution_tidy:
  "tidy s (snd (exec_depends su sl s))"
  "tidy t (snd (bind_slots su slots kwargs t))"
proof (induction su sl s and su slots kwargs t rule: exec_depends_bind_slots.induct)
  case (1 su name c cached new sensitive kind sub s)
  let ?sl = "DependsSlot name c cached new sensitive kind sub"
  let ?key = "cache_key ?sl (rv_scopes s)"
  show ?case
  proof (cases "if cached then map_of (rv_cache s) ?key else None")
    case (Some v)
    then show ?thesis by (simp add: tidy_refl)
  next
    case None
    obtain r s1 where r: "bind_slots su (plan_order sub) [] (push_scopes new s) = (r, s1)"
      by (cases "bind_slots su (plan_order sub) [] (push_scopes new s)")
    have 1: "tidy s (pop_scopes new s1)"
      using "1.IH" [OF refl refl None] r by (intro tidy_scoped) simp
    show ?thesis
    proof (cases r)
      case (Inl e)
      with None r 1 show ?thesis by (simp add: Let_def)
    next
      case (Inr kwargs)
      have "tidy (pop_scopes new s1) (snd (call_dependency su ?sl ?key kwargs (pop_scopes new s1)))"
        by (rule tidy_call) (simp add: key_callable)
      with None r Inr tidy_trans [OF 1] show ?thesis
        by (simp add: Let_def split: prod.split sum.split) force
    qed
  qed
next
  case (5 su sl slots kwargs s)
  obtain r s1 where r: "exec_depends su sl s = (r, s1)" by (cases "exec_depends su sl s")
  have 1: "tidy s s1" using "5.IH"(1) r by simp
  show ?case
  proof (cases r)
    case (Inl e)
    with r 1 show ?thesis by simp
  next
    case (Inr x)
    show ?thesis
    proof (cases x)
      case None
      with "5.IH"(2) [OF r [symmetric] Inr None] r Inr 1 tidy_trans show ?thesis by fastforce
    next
      case (Some v)
      with "5.IH"(3) [OF r [symmetric] Inr Some] r Inr 1 tidy_trans show ?thesis by fastforce
    qed
  qed
qed (auto simp: tidy_refl, auto simp: tidy_def started_def split: prod.split)

lemma route_deps_tidy: "tidy s (snd (exec_route_deps su slots s))"
proof (induction slots arbitrary: s)
  case (Cons sl slots)
  obtain r s1 where r: "exec_depends su sl s = (r, s1)" by (cases "exec_depends su sl s")
  with resolution_tidy(1) [of s su sl] Cons [of s1] tidy_trans show ?case by (auto split: sum.split)
qed (simp add: tidy_refl)

text \<open>C5: However a resolution ends - also when a dependency raises, at any depth - the generators it has
  started are on the teardown stack, each once and in the order they started, and no others, and the
  scopes pushed on the way are popped.\<close>

theorem started_generators_recorded:
  "\<exists>calls. rv_log (snd (resolve_plan su route_deps slots s)) = rv_log s @ calls
     \<and> rv_teardowns (snd (resolve_plan su route_deps slots s)) = started calls
     \<and> rv_scopes (snd (resolve_plan su route_deps slots s)) = []"
proof -
  obtain r s1 where r: "exec_route_deps su route_deps (resolver_reset s) = (r, s1)" by (cases "exec_route_deps su route_deps (resolver_reset s)")
  have "tidy (resolver_reset s) s1" using route_deps_tidy [of "resolver_reset s" su route_deps] r by simp
  moreover have "tidy s1 (snd (resolve_slots su slots s1))" unfolding resolve_slots_def by (rule resolution_tidy(2))
  ultimately have "tidy (resolver_reset s) (snd (resolve_plan su route_deps slots s))"
    using r by (auto simp: resolve_plan_def split: sum.split intro: tidy_trans)
  then show ?thesis by (auto simp: tidy_def resolver_reset_def)
qed

section \<open>A cached dependency runs once\<close>

text \<open>The sub-plan of a dependency is built from its callable.\<close>

fun coherent :: "('c \<Rightarrow> 'c slot list) \<Rightarrow> 'c slot \<Rightarrow> bool" where
  "coherent plan_of (DependsSlot name c cached scopes sensitive kind sub) \<longleftrightarrow> sub = plan_of c \<and> list_all (coherent plan_of) sub"
| "coherent plan_of _ \<longleftrightarrow> True"

fun callables :: "'c slot \<Rightarrow> 'c set" where
  "callables (DependsSlot name c cached scopes sensitive kind sub) = insert c (\<Union> (set (map callables sub)))"
| "callables _ = {}"

lemma callable_smaller: "coherent plan_of sl \<Longrightarrow> c \<in> callables sl \<Longrightarrow> size_list size (plan_of c) < size sl"
proof (induction sl)
  case (DependsSlot name c' cached scopes sensitive kind sub)
  show ?case
  proof (cases "c = c'")
    case True
    with DependsSlot.prems show ?thesis by simp
  next
    case False
    then obtain x where x: "x \<in> set sub" "c \<in> callables x" using DependsSlot.prems by auto
    then have "size_list size (plan_of c) < size x" using DependsSlot by (auto simp: list_all_iff)
    also have "size x \<le> size_list size sub" using x(1) by (simp add: size_list_estimation')
    finally show ?thesis by simp
  qed
qed simp_all

lemma not_below_itself:
  assumes "coherent plan_of (DependsSlot name c cached scopes sensitive kind sub)"
  shows "c \<notin> \<Union> (set (map callables sub))"
proof
  assume "c \<in> \<Union> (set (map callables sub))"
  then obtain x where x: "x \<in> set sub" "c \<in> callables x" by auto
  then have "size_list size (plan_of c) < size x" using assms callable_smaller by (fastforce simp: list_all_iff)
  also have "size x \<le> size_list size sub" using x(1) by (simp add: size_list_estimation')
  finally show False using assms by simp
qed

definition cached_calls :: "('c cache_key \<times> bool \<times> dep_kind \<times> bool) list \<Rightarrow> 'c cache_key list" where
  "cached_calls calls = map fst (filter (\<lambda>(key, cached, kind, ok). cached) calls)"

lemma cached_calls_append [simp]: "cached_calls (xs @ ys) = cached_calls xs @ cached_calls ys"
  by (simp add: cached_calls_def)

lemma cached_calls_single [simp]: "cached_calls [(key, cached, kind, ok)] = (if cached then [key] else [])"
  by (simp add: cached_calls_def)

definition memoised :: "('c, 'v, 'u) resolver \<Rightarrow> bool" where
  "memoised s \<longleftrightarrow> distinct (cached_calls (rv_log s)) \<and> set (cached_calls (rv_log s)) \<subseteq> dom (map_of (rv_cache s))"

text \<open>From a memoised state: the calls stay distinct, nothing cached changes, and what is new is reachable.\<close>

definition grows :: "'c set \<Rightarrow> ('c, 'v, 'u) resolver \<Rightarrow> (exn + 'a) \<times> ('c, 'v, 'u) resolver \<Rightarrow> bool" where
  "grows C s out \<longleftrightarrow> (memoised s \<longrightarrow>
     distinct (cached_calls (rv_log (snd out)))
     \<and> map_of (rv_cache s) \<subseteq>\<^sub>m map_of (rv_cache (snd out))
     \<and> dom (map_of (rv_cache (snd out))) \<subseteq> dom (map_of (rv_cache s)) \<union> {key. fst key \<in> C}
     \<and> (isl (fst out) \<or> memoised (snd out)))"

lemma grows_refl: "grows C s (r, s)"
  by (auto simp: grows_def memoised_def)

lemma grows_error: "grows C s (Inl e, s1) \<Longrightarrow> C \<subseteq> D \<Longrightarrow> grows D s (Inl e', s1)"
  unfolding grows_def by fastforce

lemma union_trans: "A \<subseteq> B \<union> F \<Longrightarrow> B \<subseteq> E \<union> G \<Longrightarrow> F \<subseteq> H \<Longrightarrow> G \<subseteq> H \<Longrightarrow> A \<subseteq> E \<union> H"
  by blast

lemma not_grown: "dom g \<subseteq> dom f \<union> K \<Longrightarrow> k \<notin> K \<Longrightarrow> f k = None \<Longrightarrow> g k = None"
  by (auto simp: dom_def)

lemma dict_set_upd: "map_of (dict_set key v d) = (map_of d)(key \<mapsto> v)"
  by (simp add: fun_eq_iff map_of_set)

lemma grows_trans:
  assumes "grows C s (Inr x, s1)" "grows C' s1 out" "C \<subseteq> D" "C' \<subseteq> D"
  shows "grows D s out"
  unfolding grows_def
proof (intro impI)
  assume "memoised s"
  with assms(1) have 1: "memoised s1" "map_of (rv_cache s) \<subseteq>\<^sub>m map_of (rv_cache s1)"
    "dom (map_of (rv_cache s1)) \<subseteq> dom (map_of (rv_cache s)) \<union> {key. fst key \<in> C}" by (simp_all add: grows_def)
  with assms(2) have 2: "distinct (cached_calls (rv_log (snd out)))" "map_of (rv_cache s1) \<subseteq>\<^sub>m map_of (rv_cache (snd out))"
    "dom (map_of (rv_cache (snd out))) \<subseteq> dom (map_of (rv_cache s1)) \<union> {key. fst key \<in> C'}" "isl (fst out) \<or> memoised (snd out)"
    by (simp_all add: grows_def)
  show "distinct (cached_calls (rv_log (snd out)))
     \<and> map_of (rv_cache s) \<subseteq>\<^sub>m map_of (rv_cache (snd out))
     \<and> dom (map_of (rv_cache (snd out))) \<subseteq> dom (map_of (rv_cache s)) \<union> {key. fst key \<in> D}
     \<and> (isl (fst out) \<or> memoised (snd out))"
  proof (intro conjI)
    show "map_of (rv_cache s) \<subseteq>\<^sub>m map_of (rv_cache (snd out))" by (rule map_le_trans [OF 1(2) 2(2)])
    show "dom (map_of (rv_cache (snd out))) \<subseteq> dom (map_of (rv_cache s)) \<union> {key. fst key \<in> D}"
      by (rule union_trans [OF 2(3) 1(3)]) (use assms(3,4) in auto)
  qed (rule 2)+
qed

lemma memoised_scopes [simp]: "memoised (s\<lparr>rv_scopes := x\<rparr>) = memoised s"
  by (simp add: memoised_def)

lemma grows_scopes: "grows C (push_scopes new s) (r, s1) \<Longrightarrow> grows C s (r, pop_scopes new s1)"
  by (simp add: grows_def push_scopes_def pop_scopes_def)

lemma grows_result: "grows C s (r, s1) \<Longrightarrow> isl r' = isl r \<Longrightarrow> grows C s (r', s1)"
  by (simp add: grows_def)

lemma grows_some:
  "grows C s out \<Longrightarrow> grows C s (case out of (Inl e, s2) \<Rightarrow> (Inl e, s2) | (Inr v, s2) \<Rightarrow> (Inr (Some v), s2))"
  by (cases out) (auto split: sum.split elim: grows_result)

lemma grows_call:
  assumes "\<not> slot_cached sl \<or> map_of (rv_cache s) key = None" "fst key \<in> C"
  shows "grows C s (call_dependency su sl key kwargs s)"
proof (cases "su_call su (slot_callable sl) kwargs (rv_user s)")
  case (Pair r u)
  show ?thesis
  proof (cases "slot_cached sl")
    case False
    with Pair show ?thesis by (cases r) (auto simp: grows_def call_dependency_def memoised_def)
  next
    case True
    then have new: "map_of (rv_cache s) key = None" using assms(1) by blast
    have "memoised s \<Longrightarrow> key \<notin> set (cached_calls (rv_log s))" using new by (auto simp: memoised_def)
    moreover have "map_of (rv_cache s) \<subseteq>\<^sub>m (map_of (rv_cache s))(key \<mapsto> v)" for v using new by (auto simp: map_le_def)
    ultimately show ?thesis using Pair True assms(2)
      by (cases r) (auto simp: grows_def call_dependency_def memoised_def dict_set_upd simp del: fun_upd_apply)
  qed
qed

lemma resolution_grows:
  "coherent plan_of sl \<Longrightarrow> grows (callables sl) s (exec_depends su sl s)"
  "list_all (coherent plan_of) slots \<Longrightarrow> grows (\<Union> (set (map callables slots))) t (bind_slots su slots kwargs t)"
proof (induction su sl s and su slots kwargs t rule: exec_depends_bind_slots.induct)
  case (1 su name c cached new sensitive kind sub s)
  let ?sl = "DependsSlot name c cached new sensitive kind sub"
  let ?key = "cache_key ?sl (rv_scopes s)"
  let ?C = "\<Union> (set (map callables sub))"
  show ?case
  proof (cases "if cached then map_of (rv_cache s) ?key else None")
    case (Some v)
    then show ?thesis by (simp add: grows_refl)
  next
    case None
    obtain r s1 where r: "bind_slots su (plan_order sub) [] (push_scopes new s) = (r, s1)"
      by (cases "bind_slots su (plan_order sub) [] (push_scopes new s)")
    have sub: "list_all (coherent plan_of) (plan_order sub)" using "1.prems" by (simp add: list_all_iff plan_order_set)
    have inner: "grows ?C s (r, pop_scopes new s1)"
      using "1.IH" [OF refl refl None sub] r by (intro grows_scopes) (simp add: plan_order_set)
    have le: "?C \<subseteq> callables ?sl" by auto
    show ?thesis
    proof (cases r)
      case (Inl e)
      with None r grows_error [OF inner [unfolded Inl] le] show ?thesis by (simp add: Let_def)
    next
      case (Inr kwargs)
      let ?s2 = "pop_scopes new s1"
      let ?out = "call_dependency su ?sl ?key kwargs ?s2"
      have "grows (callables ?sl) s ?out"
      proof (cases "memoised s")
        case True
        have 1: "?key \<notin> {key. fst key \<in> ?C}" using not_below_itself [OF "1.prems"] by (simp add: key_callable)
        have 2: "dom (map_of (rv_cache ?s2)) \<subseteq> dom (map_of (rv_cache s)) \<union> {key. fst key \<in> ?C}"
          using inner True by (simp add: grows_def)
        have "\<not> cached \<or> map_of (rv_cache ?s2) ?key = None" using None not_grown [OF 2 1] by (cases cached) simp_all
        then have "grows {c} ?s2 ?out" by (intro grows_call) (simp_all add: key_callable)
        from grows_trans [OF inner [unfolded Inr] this le] show ?thesis by simp
      next
        case False
        then show ?thesis by (simp add: grows_def)
      qed
      then have "grows (callables ?sl) s (case ?out of (Inl e, s2) \<Rightarrow> (Inl e, s2) | (Inr v, s2) \<Rightarrow> (Inr (Some v), s2))"
        by (rule grows_some)
      with None r Inr show ?thesis by (simp add: Let_def)
    qed
  qed
next
  case (5 su sl slots kwargs s)
  obtain r s1 where r: "exec_depends su sl s = (r, s1)" by (cases "exec_depends su sl s")
  let ?C = "\<Union> (set (map callables (sl # slots)))"
  have first: "grows (callables sl) s (r, s1)" using "5.IH"(1) "5.prems" r by simp
  show ?case
  proof (cases r)
    case (Inl e)
    with r grows_error [OF first [unfolded Inl], of ?C] show ?thesis by auto
  next
    case (Inr x)
    have "grows (\<Union> (set (map callables slots))) s1
        (bind_slots su slots (case x of None \<Rightarrow> kwargs | Some v \<Rightarrow> dict_set (slot_name sl) v kwargs) s1)"
      using "5.IH"(2) [OF r [symmetric] Inr] "5.IH"(3) [OF r [symmetric] Inr] "5.prems" by (cases x) simp_all
    from grows_trans [OF first [unfolded Inr] this, of ?C] r Inr show ?thesis by (cases x) auto
  qed
qed (auto simp: grows_refl, auto simp: grows_def memoised_def split: prod.split)

lemma route_deps_grow:
  "list_all (coherent plan_of) slots \<Longrightarrow> grows (\<Union> (set (map callables slots))) s (exec_route_deps su slots s)"
proof (induction slots arbitrary: s)
  case (Cons sl slots)
  obtain r s1 where r: "exec_depends su sl s = (r, s1)" by (cases "exec_depends su sl s")
  let ?C = "\<Union> (set (map callables (sl # slots)))"
  have first: "grows (callables sl) s (r, s1)" using resolution_grows(1) [of plan_of sl s su] Cons.prems r by simp
  show ?case
  proof (cases r)
    case (Inl e)
    with r grows_error [OF first [unfolded Inl], of ?C] show ?thesis by auto
  next
    case (Inr x)
    from grows_trans [OF first [unfolded Inr] Cons.IH [of s1], of ?C] Cons.prems r Inr show ?thesis by auto
  qed
qed (simp add: grows_refl)


text \<open>A handler of two dependencies that share a third, which is a generator.\<close>

definition sample_plan :: "nat \<Rightarrow> nat slot list" where
  "sample_plan c = (if c = 1 \<or> c = 2 then [DependsSlot ''db'' 3 True [] False GeneratorDep []] else [])"

definition sample_slots :: "nat slot list" where
  "sample_slots = [DependsSlot ''a'' 1 True [] False PlainDep (sample_plan 1), DependsSlot ''b'' 2 True [] False PlainDep (sample_plan 2)]"

definition sample_supplied :: "(nat, nat, nat) supplied" where
  "sample_supplied = \<lparr>su_call = (\<lambda>c kwargs u. (Inr (10 * c + length kwargs), u + 1)), su_param = (\<lambda>i u. (Inr None, u)),
     su_scopes = length\<rparr>"


end
