(* ===== verification/Csrf.thy ===== *)
theory Csrf
  imports Cookies Signing
begin

text \<open>
  Protection against cross-site request forgery, after \<open>src/src/veloce/middleware/csrf.py\<close>:
  configuration, the origin stage, the double-submit check, minting and rotation of the cookie, with
  \<open>strip_default_port\<close> of \<open>src/src/veloce/_internal.py\<close> and \<open>constant_time_compare\<close> of
  \<open>src/src/veloce/safe.py\<close>. Of \<open>urllib.parse.urlsplit\<close> the scheme and the netloc are modelled; its
  check of a bracketed host, which differs between the supported versions of Python, is the
  parameter \<open>bracket_ok\<close>. The request is seen through what the middleware reads of it. MAC, JSON and
  text codec are parameters as in \<open>Signing\<close> and \<open>Cookies\<close>.
\<close>

section \<open>Origins\<close>

definition url_stripped :: "char \<Rightarrow> bool" where
  "url_stripped c \<longleftrightarrow> code c \<le> 32"

definition url_removed :: "char \<Rightarrow> bool" where
  "url_removed c \<longleftrightarrow> code c \<in> {9, 10, 13}"

definition ascii_letter :: "char \<Rightarrow> bool" where
  "ascii_letter c \<longleftrightarrow> (65 \<le> code c \<and> code c \<le> 90) \<or> (97 \<le> code c \<and> code c \<le> 122)"

definition scheme_char :: "char \<Rightarrow> bool" where
  "scheme_char c \<longleftrightarrow> ascii_letter c \<or> is_decimal c \<or> c \<in> set ''+-.''"

text \<open>The text before the first colon, when it has the form of a scheme, and the rest.\<close>

definition url_scheme :: "string \<Rightarrow> string \<times> string" where
  "url_scheme u =
     (case partition_on (CHR '':'') u of
        (s, True, rest) \<Rightarrow> if s \<noteq> [] \<and> ascii_letter (hd s) \<and> list_all scheme_char s then (str_lower s, rest) else ([], u)
      | _ \<Rightarrow> ([], u))"

definition urlsplit :: "(string \<Rightarrow> bool) \<Rightarrow> string \<Rightarrow> (string \<times> string) res" where
  "urlsplit bracket_ok url =
     (let (scheme, rest) = url_scheme (filter (\<lambda>c. \<not> url_removed c) (dropWhile url_stripped url));
          netloc = takeWhile (\<lambda>c. c \<notin> set ''/?#'') (drop 2 rest)
      in if take 2 rest \<noteq> ''//'' then Inr (scheme, [])
         else if (CHR ''['' \<in> set netloc) \<noteq> (CHR '']'' \<in> set netloc) then Inl ValueError
         else if CHR ''['' \<in> set netloc \<and> \<not> bracket_ok netloc then Inl ValueError
         else Inr (scheme, netloc))"

definition default_port :: "string \<Rightarrow> string option" where
  "default_port scheme = map_of [(''http'', ''80''), (''https'', ''443''), (''ws'', ''80''), (''wss'', ''443'')] scheme"

definition strip_default_port :: "string \<Rightarrow> string \<Rightarrow> string" where
  "strip_default_port scheme netloc =
     (case default_port scheme of
        None \<Rightarrow> netloc
      | Some p \<Rightarrow> if ends_with (CHR '':'' # p) netloc then take (length netloc - length (CHR '':'' # p)) netloc else netloc)"

text \<open>An entry of \<open>_trusted\<close>: scheme, exact host or suffix.\<close>

type_synonym trusted_entry = "string \<times> string option \<times> string option"

definition trusted_entry_of :: "(string \<Rightarrow> bool) \<Rightarrow> string \<Rightarrow> trusted_entry res" where
  "trusted_entry_of bracket_ok origin =
     res_bind (urlsplit bracket_ok origin) (\<lambda>(s, netloc).
       let scheme = str_lower s; host = strip_default_port scheme (str_lower netloc)
       in Inr (if starts_with ''.'' host then (scheme, None, Some (tl host)) else (scheme, Some host, None)))"

fun trusted_entries :: "(string \<Rightarrow> bool) \<Rightarrow> string list \<Rightarrow> trusted_entry list res" where
  "trusted_entries bracket_ok [] = Inr []"
| "trusted_entries bracket_ok (o1 # os) =
     res_bind (trusted_entry_of bracket_ok o1) (\<lambda>e.
     res_bind (trusted_entries bracket_ok os) (\<lambda>es. Inr (e # es)))"

section \<open>Configuration\<close>

record csrf_config =
  cs_cookie_name :: string
  cs_header_name :: string
  cs_form_field :: string
  cs_safe_methods :: "string list"
  cs_secure :: bool
  cs_httponly :: bool
  cs_samesite :: string
  cs_trusted :: "trusted_entry list"
  cs_max_age :: "int option"
  cs_signer :: "signer option"

definition csrf_init ::
  "(bytes \<Rightarrow> bytes \<Rightarrow> bytes) \<Rightarrow> (string \<Rightarrow> bytes) \<Rightarrow> (string \<Rightarrow> bool) \<Rightarrow> string \<Rightarrow> string \<Rightarrow> string \<Rightarrow> string list
     \<Rightarrow> bool \<Rightarrow> bool \<Rightarrow> string \<Rightarrow> string option \<Rightarrow> int option \<Rightarrow> string list option \<Rightarrow> csrf_config res" where
  "csrf_init mac enc bracket_ok cookie_name header_name form_field methods secure httponly samesite secret age origins =
     res_bind (trusted_entries bracket_ok (case origins of None \<Rightarrow> [] | Some os \<Rightarrow> os)) (\<lambda>trusted.
     res_bind (case secret of
                 None \<Rightarrow> Inr None
               | Some s \<Rightarrow> if s = [] then Inr None
                           else res_bind (signer_init mac (enc s) (enc ''veloce.csrf'')) (\<lambda>sg. Inr (Some sg))) (\<lambda>sg.
       Inr \<lparr>cs_cookie_name = cookie_name, cs_header_name = header_name, cs_form_field = form_field,
            cs_safe_methods = map str_upper methods, cs_secure = secure, cs_httponly = httponly,
            cs_samesite = samesite, cs_trusted = trusted, cs_max_age = age, cs_signer = sg\<rparr>))"

section \<open>The request\<close>

text \<open>A part of a form is text or an upload; \<open>cr_form\<close> is \<open>None\<close> when parsing the form raises.\<close>

datatype form_value = FormText string | FormUpload

record csrf_request =
  cr_mcp :: bool
  cr_method :: string
  cr_scheme :: string
  cr_host :: string
  cr_header :: "string \<Rightarrow> string option"
  cr_cookies :: "(string \<times> string) list"
  cr_form :: "(string \<Rightarrow> form_value option) option"

text \<open>The slots of \<open>request._state\<close> that the middleware uses.\<close>

record csrf_slots =
  sl_cookie :: "string option"
  sl_rotate :: bool

definition origin_matches :: "string \<Rightarrow> string \<Rightarrow> trusted_entry \<Rightarrow> bool" where
  "origin_matches o_scheme o_host e =
     (case e of (t_scheme, t_host, t_suffix) \<Rightarrow>
        if o_scheme \<noteq> t_scheme then False
        else if (case t_host of None \<Rightarrow> False | Some h \<Rightarrow> o_host = strip_default_port t_scheme h) then True
        else (case t_suffix of None \<Rightarrow> False | Some s \<Rightarrow> o_host = s \<or> ends_with (CHR ''.'' # s) o_host))"

definition csrf_origin_allowed ::
  "(string \<Rightarrow> bool) \<Rightarrow> trusted_entry list \<Rightarrow> string \<Rightarrow> string \<Rightarrow> string \<Rightarrow> bool res" where
  "csrf_origin_allowed bracket_ok trusted origin own_scheme own_host =
     res_bind (urlsplit bracket_ok origin) (\<lambda>(s, netloc).
       let o_scheme = str_lower s; o_host = strip_default_port o_scheme (str_lower netloc)
       in Inr (if o_scheme = [] \<or> o_host = [] then False
               else if o_scheme = own_scheme \<and> o_host = strip_default_port own_scheme own_host then True
               else list_ex (origin_matches o_scheme o_host) trusted))"

text \<open>A refusal is the detail of the 403 response.\<close>

definition verify_origin :: "(string \<Rightarrow> bool) \<Rightarrow> csrf_config \<Rightarrow> csrf_request \<Rightarrow> string option res" where
  "verify_origin bracket_ok c rq =
     (let own_scheme = str_lower (cr_scheme rq); own_host = str_lower (cr_host rq)
      in case cr_header rq ''Origin'' of
           Some origin \<Rightarrow>
             res_bind (csrf_origin_allowed bracket_ok (cs_trusted c) origin own_scheme own_host) (\<lambda>ok.
               Inr (if ok then None else Some ''CSRF origin mismatch''))
         | None \<Rightarrow>
             if own_scheme \<noteq> ''https'' then Inr None
             else (case cr_header rq ''Referer'' of
                     None \<Rightarrow> Inr (Some ''CSRF referer missing'')
                   | Some referer \<Rightarrow>
                       if referer = [] then Inr (Some ''CSRF referer missing'')
                       else res_bind (urlsplit bracket_ok referer) (\<lambda>(s, netloc).
                         if s = [] \<or> netloc = [] then Inr (Some ''CSRF referer malformed'')
                         else if str_lower s \<noteq> ''https'' then Inr (Some ''CSRF referer insecure'')
                         else res_bind (csrf_origin_allowed bracket_ok (cs_trusted c)
                                          (str_lower s @ ''://'' @ str_lower netloc) own_scheme own_host) (\<lambda>ok.
                                Inr (if ok then None else Some ''CSRF referer mismatch'')))))"

text \<open>\<open>compare_digest\<close> raises on text outside ASCII; then the encoded texts are compared.\<close>

definition secret_equal :: "(string \<Rightarrow> bytes) \<Rightarrow> string \<Rightarrow> string \<Rightarrow> bool" where
  "secret_equal enc a b = (enc a = enc b)"

definition csrf_matches :: "(string \<Rightarrow> bytes) \<Rightarrow> form_value option \<Rightarrow> string \<Rightarrow> bool" where
  "csrf_matches enc candidate cookie =
     (case candidate of
        Some (FormText s) \<Rightarrow> if list_all is_ascii s \<and> list_all is_ascii cookie then s = cookie else secret_equal enc s cookie
      | _ \<Rightarrow> False)"

definition form_shaped :: "csrf_request \<Rightarrow> bool" where
  "form_shaped rq =
     (let ct = (case cr_header rq ''Content-Type'' of None \<Rightarrow> [] | Some t \<Rightarrow> t)
      in contains_str ''application/x-www-form-urlencoded'' ct \<or> contains_str ''multipart/form-data'' ct)"

definition token_echoed :: "(string \<Rightarrow> bytes) \<Rightarrow> csrf_config \<Rightarrow> csrf_request \<Rightarrow> string \<Rightarrow> bool" where
  "token_echoed enc c rq cookie =
     (if csrf_matches enc (map_option FormText (cr_header rq (cs_header_name c))) cookie then True
      else if form_shaped rq
        then (case cr_form rq of None \<Rightarrow> False | Some form \<Rightarrow> csrf_matches enc (form (cs_form_field c)) cookie)
      else False)"

section \<open>The middleware\<close>

definition double_submit ::
  "(bytes \<Rightarrow> bytes \<Rightarrow> bytes) \<Rightarrow> (bytes \<Rightarrow> 'd option) \<Rightarrow> (string \<Rightarrow> bytes) \<Rightarrow> csrf_config \<Rightarrow> int
     \<Rightarrow> csrf_request \<Rightarrow> csrf_slots \<Rightarrow> csrf_slots \<times> string option res" where
  "double_submit mac json_loads enc c now rq sl =
     (case sl_cookie sl of
        None \<Rightarrow> (sl, Inr (Some ''CSRF cookie missing''))
      | Some v \<Rightarrow>
          if v = [] then (sl, Inr (Some ''CSRF cookie missing''))
          else
            (case (case cs_signer c of None \<Rightarrow> Inr () | Some sg \<Rightarrow>
                     res_bind (token_loads mac json_loads sg now (cs_max_age c) v) (\<lambda>_. Inr ())) of
               Inl e \<Rightarrow> if e \<in> {BadSignature, BadTimeSignature, BadData}
                        then (sl\<lparr>sl_rotate := True\<rparr>, Inr (Some ''CSRF cookie signature invalid or expired''))
                        else (sl, Inl e)
             | Inr _ \<Rightarrow> (sl, Inr (if token_echoed enc c rq v then None else Some ''CSRF token mismatch''))))"

definition csrf_process_request ::
  "(bytes \<Rightarrow> bytes \<Rightarrow> bytes) \<Rightarrow> (bytes \<Rightarrow> 'd option) \<Rightarrow> (string \<Rightarrow> bytes) \<Rightarrow> (string \<Rightarrow> bool) \<Rightarrow> csrf_config \<Rightarrow> int
     \<Rightarrow> csrf_request \<Rightarrow> csrf_slots \<Rightarrow> csrf_slots \<times> string option res" where
  "csrf_process_request mac json_loads enc bracket_ok c now rq sl =
     (if cr_mcp rq then (sl, Inr None)
      else
        let sl1 = sl\<lparr>sl_cookie := map_of (cr_cookies rq) (cs_cookie_name c)\<rparr>
        in if cr_method rq \<in> set (cs_safe_methods c) then (sl1, Inr None)
           else
             (case (if cs_trusted c = [] then Inr None else verify_origin bracket_ok c rq) of
                Inl e \<Rightarrow> (sl1, Inl e)
              | Inr (Some detail) \<Rightarrow> (sl1, Inr (Some detail))
              | Inr None \<Rightarrow> double_submit mac json_loads enc c now rq sl1))"

definition csrf_attrs :: "csrf_config \<Rightarrow> cookie_attrs" where
  "csrf_attrs c = \<lparr>ck_max_age = None, ck_expires = None, ck_path = Some ''/'', ck_domain = None, ck_secure = cs_secure c,
     ck_httponly = cs_httponly c, ck_samesite = Some (cs_samesite c), ck_prefix = None\<rparr>"

text \<open>\<open>fresh\<close> is what the token factory returns; \<open>h\<close> the value of \<open>Set-Cookie\<close> so far.\<close>

definition csrf_token :: "(bytes \<Rightarrow> bytes \<Rightarrow> bytes) \<Rightarrow> (string \<Rightarrow> bytes) \<Rightarrow> csrf_config \<Rightarrow> nat \<Rightarrow> string \<Rightarrow> string" where
  "csrf_token mac json_dumps c now fresh =
     (case cs_signer c of None \<Rightarrow> fresh | Some sg \<Rightarrow> token_dumps mac json_dumps sg now fresh)"

definition csrf_process_response ::
  "(bytes \<Rightarrow> bytes \<Rightarrow> bytes) \<Rightarrow> (string \<Rightarrow> bytes) \<Rightarrow> (string \<Rightarrow> bytes) \<Rightarrow> csrf_config \<Rightarrow> nat \<Rightarrow> string
     \<Rightarrow> csrf_slots \<Rightarrow> string option \<Rightarrow> string option res" where
  "csrf_process_response mac json_dumps enc c now fresh sl h =
     (if (sl_cookie sl \<noteq> None \<and> sl_cookie sl \<noteq> Some []) \<and> \<not> sl_rotate sl then Inr h
      else set_cookie enc (cs_cookie_name c) (csrf_token mac json_dumps c now fresh) (csrf_attrs c) None False h)"

definition rotate_csrf_token :: "csrf_slots \<Rightarrow> csrf_slots" where
  "rotate_csrf_token sl = sl\<lparr>sl_rotate := True\<rparr>"


section \<open>What passes\<close>

text \<open>The origin that a text names, and the origins that are accepted for a request.\<close>

definition names_origin :: "(string \<Rightarrow> bool) \<Rightarrow> string \<Rightarrow> string \<Rightarrow> string \<Rightarrow> bool" where
  "names_origin bracket_ok text scheme host \<longleftrightarrow> scheme \<noteq> [] \<and> host \<noteq> []
     \<and> (\<exists>s n. urlsplit bracket_ok text = Inr (s, n) \<and> scheme = str_lower s \<and> host = strip_default_port scheme (str_lower n))"

definition accepted_origin :: "csrf_config \<Rightarrow> csrf_request \<Rightarrow> string \<Rightarrow> string \<Rightarrow> bool" where
  "accepted_origin c rq scheme host \<longleftrightarrow>
     (scheme = str_lower (cr_scheme rq) \<and> host = strip_default_port scheme (str_lower (cr_host rq)))
     \<or> (\<exists>h. (scheme, Some h, None) \<in> set (cs_trusted c) \<and> host = strip_default_port scheme h)
     \<or> (\<exists>s p. (scheme, None, Some s) \<in> set (cs_trusted c) \<and> (host = s \<or> host = p @ CHR ''.'' # s))"

text \<open>An entry is exact or a suffix, as \<open>trusted_entry_of\<close> builds it.\<close>

definition entry_ok :: "trusted_entry \<Rightarrow> bool" where
  "entry_ok e \<longleftrightarrow> (fst (snd e) = None) \<noteq> (snd (snd e) = None)"

definition config_ok :: "csrf_config \<Rightarrow> bool" where
  "config_ok c \<longleftrightarrow> list_all entry_ok (cs_trusted c)
     \<and> (case cs_signer c of None \<Rightarrow> True | Some sg \<Rightarrow> sg_key sg \<in> set (sg_keys sg))"

lemma trusted_entries_ok: "trusted_entries bracket_ok os = Inr es \<Longrightarrow> list_all entry_ok es"
  by (induction os arbitrary: es)
    (auto simp: res_bind_Inr_iff trusted_entry_of_def entry_ok_def Let_def split: if_splits prod.splits)

lemma csrf_init_ok:
  "csrf_init mac enc bracket_ok cn hn ff ms se ht ss secret age origins = Inr c \<Longrightarrow> config_ok c"
  by (auto simp: csrf_init_def res_bind_Inr_iff config_ok_def signer_init_def trusted_entries_ok split: option.splits if_splits)

lemma ends_with_split: "ends_with suf s \<longleftrightarrow> (\<exists>p. s = p @ suf)"
proof
  assume "ends_with suf s"
  then show "\<exists>p. s = p @ suf"
    by (intro exI [of _ "take (length s - length suf) s"]) (metis append_take_drop_id ends_with_def)
qed (auto simp: ends_with_def)

lemma origin_matches_iff:
  "entry_ok e \<Longrightarrow> origin_matches scheme host e \<longleftrightarrow>
     (\<exists>h. e = (scheme, Some h, None) \<and> host = strip_default_port scheme h)
     \<or> (\<exists>s p. e = (scheme, None, Some s) \<and> (host = s \<or> host = p @ CHR ''.'' # s))"
  by (cases e) (auto simp: entry_ok_def origin_matches_def ends_with_split split: option.splits)

lemma csrf_origin_allowed_iff:
  assumes "config_ok c"
  shows "csrf_origin_allowed bracket_ok (cs_trusted c) text (str_lower (cr_scheme rq)) (str_lower (cr_host rq)) = Inr True
    \<longleftrightarrow> (\<exists>scheme host. names_origin bracket_ok text scheme host \<and> accepted_origin c rq scheme host)"
proof (cases "urlsplit bracket_ok text")
  case (Inl e)
  then show ?thesis by (simp add: csrf_origin_allowed_def names_origin_def)
next
  case (Inr sn)
  obtain s n where sn: "sn = (s, n)" by (cases sn)
  define scheme host where d: "scheme = str_lower s" "host = strip_default_port scheme (str_lower n)"
  have "list_ex (origin_matches scheme host) (cs_trusted c) \<longleftrightarrow>
     (\<exists>e \<in> set (cs_trusted c). (\<exists>h. e = (scheme, Some h, None) \<and> host = strip_default_port scheme h)
       \<or> (\<exists>s p. e = (scheme, None, Some s) \<and> (host = s \<or> host = p @ CHR ''.'' # s)))"
    using assms unfolding list_ex_iff by (intro bex_cong refl origin_matches_iff) (auto simp: config_ok_def list_all_iff)
  then have "list_ex (origin_matches scheme host) (cs_trusted c) \<longleftrightarrow>
     (\<exists>h. (scheme, Some h, None) \<in> set (cs_trusted c) \<and> host = strip_default_port scheme h)
     \<or> (\<exists>s p. (scheme, None, Some s) \<in> set (cs_trusted c) \<and> (host = s \<or> host = p @ CHR ''.'' # s))" by blast
  then have eq: "(\<not> (scheme = [] \<or> host = []) \<and>
      (scheme = str_lower (cr_scheme rq) \<and> host = strip_default_port (str_lower (cr_scheme rq)) (str_lower (cr_host rq))
        \<or> list_ex (origin_matches scheme host) (cs_trusted c))) \<longleftrightarrow> scheme \<noteq> [] \<and> host \<noteq> [] \<and> accepted_origin c rq scheme host"
    unfolding accepted_origin_def by auto
  have "csrf_origin_allowed bracket_ok (cs_trusted c) text (str_lower (cr_scheme rq)) (str_lower (cr_host rq)) = Inr True
    \<longleftrightarrow> (\<not> (scheme = [] \<or> host = []) \<and>
      (scheme = str_lower (cr_scheme rq) \<and> host = strip_default_port (str_lower (cr_scheme rq)) (str_lower (cr_host rq))
        \<or> list_ex (origin_matches scheme host) (cs_trusted c)))"
    unfolding csrf_origin_allowed_def Inr sn by (auto simp: Let_def d [symmetric])
  also note eq
  also have "scheme \<noteq> [] \<and> host \<noteq> [] \<and> accepted_origin c rq scheme host \<longleftrightarrow>
      (\<exists>scheme host. names_origin bracket_ok text scheme host \<and> accepted_origin c rq scheme host)"
    unfolding names_origin_def Inr sn by (auto simp: d)
  finally show ?thesis .
qed

text \<open>The origin stage as a rule.\<close>

definition origin_stage :: "(string \<Rightarrow> bool) \<Rightarrow> csrf_config \<Rightarrow> csrf_request \<Rightarrow> bool" where
  "origin_stage bracket_ok c rq \<longleftrightarrow>
     (case cr_header rq ''Origin'' of
        Some origin \<Rightarrow> \<exists>scheme host. names_origin bracket_ok origin scheme host \<and> accepted_origin c rq scheme host
      | None \<Rightarrow> str_lower (cr_scheme rq) = ''https'' \<longrightarrow>
          (\<exists>referer s n scheme host. cr_header rq ''Referer'' = Some referer \<and> urlsplit bracket_ok referer = Inr (s, n)
             \<and> n \<noteq> [] \<and> str_lower s = ''https''
             \<and> names_origin bracket_ok (''https://'' @ str_lower n) scheme host \<and> accepted_origin c rq scheme host))"

lemma urlsplit_Nil [simp]: "urlsplit bracket_ok [] = Inr ([], [])"
  by (simp add: urlsplit_def url_scheme_def partition_on_def Let_def)

lemma verify_origin_iff:
  assumes "config_ok c"
  shows "verify_origin bracket_ok c rq = Inr None \<longleftrightarrow> origin_stage bracket_ok c rq"
proof (cases "cr_header rq ''Origin''")
  case (Some origin)
  then show ?thesis
    using csrf_origin_allowed_iff [OF assms, of bracket_ok origin rq]
    by (auto simp: verify_origin_def origin_stage_def Let_def res_bind_Inr_iff)
next
  case None
  show ?thesis
  proof (cases "str_lower (cr_scheme rq) = ''https''")
    case False
    with None show ?thesis by (simp add: verify_origin_def origin_stage_def Let_def)
  next
    case True
    show ?thesis
    proof (cases "cr_header rq ''Referer''")
      case None' : None
      with None True show ?thesis by (simp add: verify_origin_def origin_stage_def Let_def)
    next
      case (Some referer)
      show ?thesis
      proof (cases "urlsplit bracket_ok referer")
        case (Inl e)
        then have "referer \<noteq> []" by auto
        with Inl Some None True show ?thesis by (simp add: verify_origin_def origin_stage_def Let_def)
      next
        case (Inr sn)
        obtain s n where sn: "sn = (s, n)" by (cases sn)
        have "str_lower s = ''https'' \<Longrightarrow> s \<noteq> []" by (auto simp: str_lower_def)
        moreover have "n \<noteq> [] \<Longrightarrow> referer \<noteq> []" using Inr sn by auto
        ultimately show ?thesis
          using csrf_origin_allowed_iff [OF assms, of bracket_ok "''https://'' @ str_lower n" rq] None True Some
          by (auto simp: verify_origin_def origin_stage_def Let_def Inr sn res_bind_Inr_iff)
      qed
    qed
  qed
qed

definition token_valid ::
  "(bytes \<Rightarrow> bytes \<Rightarrow> bytes) \<Rightarrow> (bytes \<Rightarrow> 'd option) \<Rightarrow> csrf_config \<Rightarrow> int \<Rightarrow> string \<Rightarrow> bool" where
  "token_valid mac json_loads c now v \<longleftrightarrow> v \<noteq> [] \<and>
     (case cs_signer c of None \<Rightarrow> True | Some sg \<Rightarrow> \<exists>d. token_loads mac json_loads sg now (cs_max_age c) v = Inr d)"

definition echoes :: "csrf_config \<Rightarrow> csrf_request \<Rightarrow> string \<Rightarrow> bool" where
  "echoes c rq v \<longleftrightarrow> cr_header rq (cs_header_name c) = Some v
     \<or> (form_shaped rq \<and> (\<exists>form. cr_form rq = Some form \<and> form (cs_form_field c) = Some (FormText v)))"


lemma csrf_matches_iff:
  assumes "text_codec enc dec"
  shows "csrf_matches enc candidate v \<longleftrightarrow> candidate = Some (FormText v)"
proof -
  have "enc a = enc b \<longleftrightarrow> a = b" for a b
    using assms unfolding text_codec_def by metis
  then show ?thesis by (auto simp: csrf_matches_def secret_equal_def split: option.splits form_value.splits)
qed

lemma token_echoed_iff:
  assumes "text_codec enc dec"
  shows "token_echoed enc c rq v \<longleftrightarrow> echoes c rq v"
  unfolding token_echoed_def echoes_def csrf_matches_iff [OF assms] by (auto split: option.split)

lemma token_loads_errors:
  "token_loads mac json_loads sg now age tok = Inl e \<Longrightarrow> e \<in> {BadSignature, BadTimeSignature, BadData}"
  by (auto simp: token_loads_def token_age_def Let_def split: option.splits prod.splits if_splits sum.splits)

lemma double_submit_cases:
  assumes "text_codec enc dec"
  shows "double_submit mac json_loads enc c now rq sl =
     (case sl_cookie sl of
        None \<Rightarrow> (sl, Inr (Some ''CSRF cookie missing''))
      | Some v \<Rightarrow>
          if v = [] then (sl, Inr (Some ''CSRF cookie missing''))
          else if \<not> token_valid mac json_loads c now v
            then (sl\<lparr>sl_rotate := True\<rparr>, Inr (Some ''CSRF cookie signature invalid or expired''))
          else (sl, Inr (if echoes c rq v then None else Some ''CSRF token mismatch'')))"
proof (cases "sl_cookie sl")
  case (Some v)
  show ?thesis
  proof (cases "cs_signer c")
    case None
    with Some show ?thesis by (simp add: double_submit_def token_valid_def token_echoed_iff [OF assms])
  next
    case (Some sg)
    with \<open>sl_cookie sl = Some v\<close> token_loads_errors [of mac json_loads sg now "cs_max_age c" v] show ?thesis
      by (cases "token_loads mac json_loads sg now (cs_max_age c) v")
        (simp_all add: double_submit_def token_valid_def token_echoed_iff [OF assms])
  qed
qed (simp add: double_submit_def)

section \<open>A browser that retries\<close>

definition urlsafe :: "string \<Rightarrow> bool" where
  "urlsafe s \<longleftrightarrow> list_all always_safe s"

lemma quote_urlsafe:
  assumes "text_codec enc dec" "urlsafe s" shows "quote enc s = s"
proof -
  have safe: "always_safe c \<Longrightarrow> cookie_safe c \<and> is_ascii c" for c
    using always_safe_plain plain_ascii by (auto simp: cookie_safe_def)
  then have "list_all is_ascii s" using assms(2) unfolding urlsafe_def by (metis list_all_iff)
  with assms(1) have "enc s = map of_char s" by (simp add: text_codec_def)
  moreover have "quote_byte (of_char c) = [c]" if "always_safe c" for c
  proof -
    have "unat (of_char c :: byte) = code c"
      by (metis nat_of_char_less_256 of_nat_of_char unat_of_nat_byte)
    with safe [OF that] show ?thesis by (simp add: quote_byte_def is_ascii_def)
  qed
  then have "concat (map quote_byte (map of_char s)) = s"
    using assms(2) unfolding urlsafe_def by (induction s) simp_all
  ultimately show ?thesis by (simp add: quote_def)
qed

lemma b64_char_safe: "v < 64 \<Longrightarrow> always_safe (b64_char v)"
proof -
  have "char_of (45::nat) = CHR ''-''" "char_of (95::nat) = CHR ''_''" by code_simp+
  then show "v < 64 \<Longrightarrow> always_safe (b64_char v)"
    by (auto simp: always_safe_def is_decimal_def b64_char_code b64_char_def)
qed

lemma b64_padded_safe: "c \<in> set (b64_padded bs) \<Longrightarrow> always_safe c \<or> c = CHR ''=''"
proof (induction bs rule: b64_padded.induct)
  case (2 a)
  then show ?case using unat_byte [of a] three_bytes [of "unat a" 0 0] by (auto simp: b64_char_safe)
next
  case (3 a b)
  then show ?case using unat_byte [of a] unat_byte [of b] three_bytes [of "unat a" "unat b" 0] by (auto simp: b64_char_safe)
next
  case (4 a b c bs)
  then show ?case
    using unat_byte [of a] unat_byte [of b] unat_byte [of c] three_bytes [of "unat a" "unat b" "unat c"]
    by (auto simp: b64_char_safe)
qed simp

lemma b64encode_safe: "urlsafe (b64encode bs)"
proof -
  have "set (b64encode bs) \<subseteq> set (b64_padded bs)"
    unfolding b64encode_def using set_dropWhileD by fastforce
  with b64_padded_safe [of _ bs] b64encode_parts(4) [of bs] show ?thesis
    unfolding urlsafe_def list_all_iff by blast
qed

lemma token_urlsafe: "urlsafe (token_dumps mac json_dumps sg now d)" "token_dumps mac json_dumps sg now d \<noteq> []"
proof -
  have dot: "always_safe (CHR ''.'')" by (simp add: always_safe_def)
  show "urlsafe (token_dumps mac json_dumps sg now d)"
    using b64encode_safe dot by (simp add: token_dumps_def Let_def signing_input_def urlsafe_def)
  show "token_dumps mac json_dumps sg now d \<noteq> []" by (simp add: token_dumps_def Let_def)
qed

lemma csrf_token_ok:
  assumes "urlsafe fresh" "fresh \<noteq> []" "config_ok c" "json_loads (json_dumps fresh) = Some fresh" "now < 2 ^ 64"
    and "token_age (cs_max_age c) now' (int now) = Inr ()"
  shows "urlsafe (csrf_token mac json_dumps c now fresh)"
    "token_valid mac json_loads c now' (csrf_token mac json_dumps c now fresh)"
proof -
  show "urlsafe (csrf_token mac json_dumps c now fresh)"
    using assms(1) by (simp add: csrf_token_def token_urlsafe split: option.split)
  show "token_valid mac json_loads c now' (csrf_token mac json_dumps c now fresh)"
  proof (cases "cs_signer c")
    case None
    with assms(2) show ?thesis by (simp add: csrf_token_def token_valid_def)
  next
    case (Some sg)
    with assms(3) have "sg_key sg \<in> set (sg_keys sg)" by (simp add: config_ok_def)
    from token_loads_dumps [where json_loads = json_loads and json_dumps = json_dumps and d = fresh, OF assms(4) this assms(5),
        of mac now' "cs_max_age c"] assms(6) Some show ?thesis
      by (simp add: csrf_token_def token_valid_def token_urlsafe)
  qed
qed

lemma urlsafe_no_crlf: "urlsafe s \<Longrightarrow> reject_header_crlf s = Inr s"
proof -
  have "\<not> always_safe c" if "c \<in> {CHR 0x00, CHR 0x0A, CHR 0x0D}" for c
    using that by (auto simp: always_safe_def is_decimal_def)
  then show "urlsafe s \<Longrightarrow> reject_header_crlf s = Inr s"
    by (auto simp: reject_header_crlf_def header_value_has_crlf_def urlsafe_def list_all_iff list_ex_iff)
qed

text \<open>Minting is what a missing cookie or the mark of a rotation asks for.\<close>

definition mints :: "csrf_slots \<Rightarrow> bool" where
  "mints sl \<longleftrightarrow> sl_cookie sl = None \<or> sl_cookie sl = Some [] \<or> sl_rotate sl"

lemma verify_origin_details:
  "verify_origin bracket_ok c rq = Inr (Some d) \<Longrightarrow>
     d \<in> {''CSRF origin mismatch'', ''CSRF referer missing'', ''CSRF referer malformed'', ''CSRF referer insecure'',
          ''CSRF referer mismatch''}"
  by (auto simp: verify_origin_def Let_def res_bind_Inr_iff split: option.splits if_splits prod.splits)

lemma refusal_mints:
  assumes "text_codec enc dec"
    and "csrf_process_request mac json_loads enc bracket_ok c now rq sl = (sl1, Inr (Some detail))"
    and "detail = ''CSRF cookie missing'' \<or> detail = ''CSRF cookie signature invalid or expired''"
  shows "mints sl1"
proof -
  let ?sl = "sl\<lparr>sl_cookie := map_of (cr_cookies rq) (cs_cookie_name c)\<rparr>"
  have "verify_origin bracket_ok c rq \<noteq> Inr (Some detail)" using verify_origin_details assms(3) by fastforce
  then have "double_submit mac json_loads enc c now rq ?sl = (sl1, Inr (Some detail))"
    using assms(2) by (auto simp: csrf_process_request_def Let_def split: if_splits sum.splits option.splits)
  with assms(3) show ?thesis
    unfolding double_submit_cases [OF assms(1)] by (auto simp: mints_def split: option.splits if_splits)
qed

lemma minted_in_jar:
  assumes "text_codec enc dec" "jar_ok jar"
    and "csrf_process_response mac json_dumps enc c now fresh sl None = Inr h" "mints sl"
    and "urlsafe (csrf_token mac json_dumps c now fresh)"
  shows "map_of (jar_update (set_cookie_lines h) jar) (cs_cookie_name c) = Some (csrf_token mac json_dumps c now fresh)"
    "map_of (request_cookies dec (jar_header (jar_update (set_cookie_lines h) jar))) (cs_cookie_name c)
       = Some (csrf_token mac json_dumps c now fresh)"
proof -
  let ?t = "csrf_token mac json_dumps c now fresh"
  have set: "set_cookie enc (cs_cookie_name c) ?t (csrf_attrs c) None False None = Inr h"
    using assms(3,4) by (auto simp: csrf_process_response_def mints_def)
  have attrs: "plain_attrs (csrf_attrs c)" by (simp add: plain_attrs_def csrf_attrs_def plain_text_def plain_char_def)
  have "wire_key (cs_cookie_name c) (csrf_attrs c) = Inr (cs_cookie_name c)" "ck_max_age (csrf_attrs c) = None"
    by (simp_all add: wire_key_def csrf_attrs_def)
  with set_cookie_effect [OF set attrs cookie_lines_None] have "cookie_lines h [(cs_cookie_name c, Some (quote enc ?t))]" by auto
  from jar_after [OF this assms(2)] quote_urlsafe [OF assms(1,5)]
  have jar: "jar_ok (jar_update (set_cookie_lines h) jar)" and v: "map_of (jar_update (set_cookie_lines h) jar) (cs_cookie_name c) = Some ?t"
    by simp_all
  show "map_of (jar_update (set_cookie_lines h) jar) (cs_cookie_name c) = Some ?t" by (rule v)
  show "map_of (request_cookies dec (jar_header (jar_update (set_cookie_lines h) jar))) (cs_cookie_name c) = Some ?t"
    using v cookie_value_quote [OF assms(1), of ?t] quote_urlsafe [OF assms(1,5)] by (simp add: request_cookie [OF jar])
qed


section \<open>Properties\<close>

text \<open>C11: A request that may change state reaches the handler exactly when it shows that its sender could read
  the cookie: the cookie is there and not empty, with a secret it carries a signature of this server
  within its age, the header or the field of a form repeats it, and, with trusted origins, the origin
  stage accepts where it comes from: the request's own origin, an exact entry, or a host at or below a
  suffix entry, at a label boundary. Only calls of the Model Context Protocol and safe methods pass
  without.\<close>

theorem unsafe_request_needs_token:
  assumes "text_codec enc dec"
    and "csrf_init mac enc bracket_ok cn hn ff ms se ht ss secret age origins = Inr c"
  shows "snd (csrf_process_request mac json_loads enc bracket_ok c now rq sl) = Inr None \<longleftrightarrow>
    cr_mcp rq \<or> cr_method rq \<in> set (cs_safe_methods c)
    \<or> ((cs_trusted c = [] \<or> origin_stage bracket_ok c rq)
       \<and> (\<exists>v. map_of (cr_cookies rq) (cs_cookie_name c) = Some v \<and> token_valid mac json_loads c now v \<and> echoes c rq v))"
proof -
  note ok = csrf_init_ok [OF assms(2)]
  let ?sl = "sl\<lparr>sl_cookie := map_of (cr_cookies rq) (cs_cookie_name c)\<rparr>"
  have ds: "snd (double_submit mac json_loads enc c now rq ?sl) = Inr None \<longleftrightarrow>
      (\<exists>v. map_of (cr_cookies rq) (cs_cookie_name c) = Some v \<and> token_valid mac json_loads c now v \<and> echoes c rq v)"
    unfolding double_submit_cases [OF assms(1)]
    by (cases "map_of (cr_cookies rq) (cs_cookie_name c)") (auto simp: token_valid_def)
  show ?thesis
    using ds verify_origin_iff [OF ok, of bracket_ok rq]
    by (cases "verify_origin bracket_ok c rq") (auto simp: csrf_process_request_def Let_def split: option.splits)
qed

text \<open>C12: A browser is never locked out by the cookie it holds. When a request is refused because the cookie is
  missing, or was planted, or is too old, the response mints a token; the retry that sends the jar
  of the browser and repeats in the header what a script reads there passes, as long as the token is
  within its age; and the response to the retry leaves the cookie as it is.\<close>

theorem refused_write_recovers:
  assumes "text_codec enc dec" "jar_ok jar" "config_ok c"
    and "json_loads (json_dumps fresh) = Some fresh" "now < 2 ^ 64" "urlsafe fresh" "fresh \<noteq> []"
    and "csrf_process_request mac json_loads enc bracket_ok c (int now) rq sl = (sl1, Inr (Some detail))"
    and "detail = ''CSRF cookie missing'' \<or> detail = ''CSRF cookie signature invalid or expired''"
    and "csrf_process_response mac json_dumps enc c now fresh sl1 None = Inr h"
    and "jar1 = jar_update (set_cookie_lines h) jar"
    and "cr_cookies rq2 = request_cookies dec (jar_header jar1)"
    and "cr_header rq2 (cs_header_name c) = map_of jar1 (cs_cookie_name c)"
    and "cs_trusted c = [] \<or> verify_origin bracket_ok c rq2 = Inr None"
    and "token_age (cs_max_age c) now2 (int now) = Inr ()" "\<not> sl_rotate sl2"
  shows "\<exists>sl3. csrf_process_request mac json_loads enc bracket_ok c now2 rq2 sl2 = (sl3, Inr None)
    \<and> (\<not> cr_mcp rq2 \<longrightarrow> csrf_process_response mac json_dumps enc c later fresh2 sl3 h2 = Inr h2)"
proof -
  let ?t = "csrf_token mac json_dumps c now fresh"
  note tok = csrf_token_ok [where json_loads = json_loads and json_dumps = json_dumps and fresh = fresh and mac = mac,
      OF assms(6,7,3,4,5,15)]
  have mints: "mints sl1" by (rule refusal_mints [OF assms(1,8,9)])
  note jar = minted_in_jar [OF assms(1,2,10) mints tok(1), folded assms(11)]
  have echo: "echoes c rq2 ?t" using assms(13) jar(1) by (simp add: echoes_def)
  have "?t \<noteq> []" using tok(2) by (simp add: token_valid_def)
  with jar(2) tok(2) echo assms(12,14,16) show ?thesis
    by (auto simp: csrf_process_request_def csrf_process_response_def Let_def double_submit_cases [OF assms(1)])
qed


definition example_signer :: signer where
  "example_signer = \<lparr>sg_key = [1], sg_keys = [[1]]\<rparr>"

definition example_csrf :: csrf_config where
  "example_csrf = \<lparr>cs_cookie_name = ''csrf'', cs_header_name = ''X-CSRF-Token'', cs_form_field = ''csrf'',
     cs_safe_methods = [''GET''], cs_secure = True, cs_httponly = False, cs_samesite = ''Lax'',
     cs_trusted = [(''https'', None, Some ''shop.example'')], cs_max_age = Some 60, cs_signer = Some example_signer\<rparr>"

definition example_write :: "(string \<Rightarrow> string option) \<Rightarrow> (string \<times> string) list \<Rightarrow> csrf_request" where
  "example_write header cookies = \<lparr>cr_mcp = False, cr_method = ''POST'', cr_scheme = ''https'', cr_host = ''api.example'',
     cr_header = header, cr_cookies = cookies, cr_form = None\<rparr>"

theorem unsafe_request_needs_token_witness:
  "\<exists>c. csrf_init (\<lambda>k m. k @ m) utf8_enc (\<lambda>_. True) ''csrf'' ''X-CSRF-Token'' ''csrf'' [''get''] True False ''Lax''
         None None (Some [''https://.shop.example'']) = Inr c
     \<and> snd (csrf_process_request (\<lambda>k m. k @ m) Some utf8_enc (\<lambda>_. True) c 9
              (example_write [''Origin'' \<mapsto> ''https://www.shop.example'', ''X-CSRF-Token'' \<mapsto> ''t''] [(''csrf'', ''t'')])
              \<lparr>sl_cookie = None, sl_rotate = False\<rparr>) = Inr None"
proof -
  let ?init = "csrf_init (\<lambda>k m. k @ m) utf8_enc (\<lambda>_. True) ''csrf'' ''X-CSRF-Token'' ''csrf'' [''get''] True False ''Lax''
         None None (Some [''https://.shop.example''])"
  let ?rq = "example_write [''Origin'' \<mapsto> ''https://www.shop.example'', ''X-CSRF-Token'' \<mapsto> ''t''] [(''csrf'', ''t'')]"
  let ?c = "\<lparr>cs_cookie_name = ''csrf'', cs_header_name = ''X-CSRF-Token'', cs_form_field = ''csrf'',
     cs_safe_methods = [''GET''], cs_secure = True, cs_httponly = False, cs_samesite = ''Lax'',
     cs_trusted = [(''https'', None, Some ''shop.example'')], cs_max_age = None, cs_signer = None\<rparr>"
  have init: "?init = Inr ?c" by code_simp
  have "verify_origin (\<lambda>_. True) ?c ?rq = Inr None" by code_simp
  with verify_origin_iff [OF csrf_init_ok [OF init], of "\<lambda>_. True" ?rq] have "origin_stage (\<lambda>_. True) ?c ?rq" by simp
  moreover have "token_valid (\<lambda>k m. k @ m) (Some :: bytes \<Rightarrow> bytes option) ?c 9 ''t''" "echoes ?c ?rq ''t''"
    "map_of (cr_cookies ?rq) (cs_cookie_name ?c) = Some ''t''"
    by (simp_all add: token_valid_def echoes_def example_write_def)
  ultimately show ?thesis
    using unsafe_request_needs_token [OF text_codec_utf8 init, where json_loads = "Some :: bytes \<Rightarrow> bytes option" and now = 9 and rq = ?rq]
      init by blast
qed

text \<open>A planted cookie is refused, replaced, and the retry passes.\<close>

theorem refused_write_recovers_witness:
  "\<exists>h. csrf_process_response (\<lambda>k m. k @ m) (map of_char) utf8_enc example_csrf 100 ''fresh''
         \<lparr>sl_cookie = Some ''planted'', sl_rotate = True\<rparr> None = Inr h \<and>
     (\<exists>sl3. csrf_process_request (\<lambda>k m. k @ m) (\<lambda>bs. Some (map (\<lambda>b. char_of (unat b)) bs)) utf8_enc (\<lambda>_. True) example_csrf 130
        (example_write [''Origin'' \<mapsto> ''https://API.example:443'',
           ''X-CSRF-Token'' \<mapsto> csrf_token (\<lambda>k m. k @ m) (map of_char) example_csrf 100 ''fresh'']
           (request_cookies utf8_dec (jar_header (jar_update (set_cookie_lines h) [(''csrf'', ''planted'')]))))
        \<lparr>sl_cookie = None, sl_rotate = False\<rparr> = (sl3, Inr None))"
proof -
  let ?mac = "\<lambda>k m :: bytes. k @ m" and ?dumps = "map of_char :: string \<Rightarrow> bytes"
  let ?loads = "\<lambda>bs :: bytes. Some (map (\<lambda>b. char_of (unat b)) bs) :: string option"
  let ?t = "csrf_token ?mac ?dumps example_csrf 100 ''fresh''" and ?jar = "[(''csrf'', ''planted'')]"
  let ?planted = "\<lparr>sl_cookie = Some ''planted'', sl_rotate = True\<rparr>" and ?sl = "\<lparr>sl_cookie = None, sl_rotate = False\<rparr>"
  let ?hdr = "[''Origin'' \<mapsto> ''https://API.example:443'', ''X-CSRF-Token'' \<mapsto> ?t]"
  have t: "urlsafe ?t" using token_urlsafe by (simp add: csrf_token_def example_csrf_def)
  obtain h where h: "csrf_process_response ?mac ?dumps utf8_enc example_csrf 100 ''fresh'' ?planted None = Inr h"
  proof -
    have "cookie_name_token ''csrf''" "str_lower ''csrf'' \<notin> set reserved_cookie_names" "reject_header_crlf ''csrf'' = Inr ''csrf''"
      "cookie_parts (csrf_attrs example_csrf) = Inr [''Path=/'', ''Secure'', ''SameSite=Lax'']" by code_simp+
    with that urlsafe_no_crlf [OF t] show thesis
      by (auto simp: csrf_process_response_def set_cookie_def dump_cookie_def wire_key_def csrf_attrs_def example_csrf_def Let_def)
  qed
  have refused: "csrf_process_request ?mac ?loads utf8_enc (\<lambda>_. True) example_csrf (int 100)
      (example_write [''Origin'' \<mapsto> ''https://API.example:443''] [(''csrf'', ''planted'')]) ?sl
    = (?planted, Inr (Some ''CSRF cookie signature invalid or expired''))" by code_simp
  have facts: "jar_ok ?jar" "config_ok example_csrf" "?loads (?dumps ''fresh'') = Some ''fresh''"
    "urlsafe ''fresh''" "token_age (cs_max_age example_csrf) 130 (int 100) = Inr ()" by code_simp+
  from minted_in_jar(1) [OF text_codec_utf8 facts(1) h _ t] have jar:
    "map_of (jar_update (set_cookie_lines h) ?jar) ''csrf'' = Some ?t" by (simp add: mints_def example_csrf_def)
  have own: "urlsplit (\<lambda>_. True) ''https://API.example:443'' = Inr (''https'', ''API.example:443'')" by code_simp
  have origin: "verify_origin (\<lambda>_. True) example_csrf (example_write ?hdr cookies) = Inr None" for cookies
    by (simp add: verify_origin_def csrf_origin_allowed_def own example_write_def) code_simp
  let ?rq2 = "example_write ?hdr (request_cookies utf8_dec (jar_header (jar_update (set_cookie_lines h) ?jar)))"
  have fields: "cr_cookies ?rq2 = request_cookies utf8_dec (jar_header (jar_update (set_cookie_lines h) ?jar))"
    "cr_header ?rq2 (cs_header_name example_csrf) = map_of (jar_update (set_cookie_lines h) ?jar) (cs_cookie_name example_csrf)"
    using jar by (simp_all add: example_write_def example_csrf_def)
  have "\<exists>sl3. csrf_process_request ?mac ?loads utf8_enc (\<lambda>_. True) example_csrf 130 ?rq2 ?sl = (sl3, Inr None)
      \<and> (\<not> cr_mcp ?rq2 \<longrightarrow> csrf_process_response ?mac ?dumps utf8_enc example_csrf 130 ''x'' sl3 None = Inr None)"
    by (rule refused_write_recovers [where json_loads = ?loads and json_dumps = ?dumps and mac = ?mac,
        OF text_codec_utf8 facts(1,2,3) _ facts(4) _ refused _ h refl fields disjI2 [OF origin] facts(5)]) simp_all
  with h show ?thesis by blast
qed

text \<open>A text that \<open>urlsplit\<close> refuses makes the middleware raise where every other foreign origin is
  answered with 403.\<close>

theorem malformed_origin_raises:
  "csrf_process_request mac json_loads enc bracket_ok example_csrf now
     (example_write [''Origin'' \<mapsto> ''https://[''] cookies) sl
   = (sl\<lparr>sl_cookie := map_of cookies ''csrf''\<rparr>, Inl ValueError)"
  by code_simp

end
