(* ===== verification/Sse.thy ===== *)
theory Sse
  imports Hardening Signing
begin

text \<open>
  Server-sent events, after \<open>src/src/veloce/sse.py\<close>: the event and its encoding, the response that
  encodes the items of a source and keeps an idle connection alive, with \<open>_write_chunked\<close> of
  \<open>src/src/veloce/_internal.py\<close>. The text codec is a parameter. What the code promises is stated
  against a client: the decoder of chunked framing (RFC 9112 Sec. 7.1) and the event stream
  parser of the WHATWG standard.
\<close>

section \<open>Events\<close>

record sse_event =
  ev_data :: "string option"
  ev_event :: "string option"
  ev_id :: "string option"
  ev_retry :: "int option"
  ev_comment :: "string option"

definition LF :: char where "LF = CHR 0x0A"
definition CR :: char where "CR = CHR 0x0D"

definition sse_init ::
  "string option \<Rightarrow> string option \<Rightarrow> string option \<Rightarrow> int option \<Rightarrow> string option \<Rightarrow> sse_event res" where
  "sse_init data event ident retry comment =
     (if (case event of None \<Rightarrow> False | Some e \<Rightarrow> LF \<in> set e \<or> CR \<in> set e) then Inl ValueError
      else if (case ident of None \<Rightarrow> False | Some i \<Rightarrow> LF \<in> set i \<or> CR \<in> set i \<or> CHR 0x00 \<in> set i) then Inl ValueError
      else Inr \<lparr>ev_data = data, ev_event = event, ev_id = ident, ev_retry = retry, ev_comment = comment\<rparr>)"

definition one_newline :: "string \<Rightarrow> string" where
  "one_newline s = str_replace [CR] [LF] (str_replace [CR, LF] [LF] s)"

definition field_lines :: "string \<Rightarrow> string \<Rightarrow> string list" where
  "field_lines label s =
     (let t = one_newline s in if LF \<notin> set t then [label @ t] else map (\<lambda>line. label @ line) (split_on LF t))"

definition sse_lines :: "sse_event \<Rightarrow> string list" where
  "sse_lines e =
     (case ev_comment e of None \<Rightarrow> [] | Some c \<Rightarrow> field_lines '': '' c)
     @ (case ev_id e of None \<Rightarrow> [] | Some i \<Rightarrow> [''id: '' @ i])
     @ (case ev_event e of None \<Rightarrow> [] | Some t \<Rightarrow> [''event: '' @ t])
     @ (case ev_retry e of None \<Rightarrow> [] | Some n \<Rightarrow> [''retry: '' @ str_int n])
     @ (case ev_data e of None \<Rightarrow> [] | Some d \<Rightarrow> field_lines ''data: '' d)"

definition sse_encode :: "(string \<Rightarrow> bytes) \<Rightarrow> sse_event \<Rightarrow> bytes" where
  "sse_encode enc e = enc (join_str [LF] (sse_lines e @ [[], []]))"

section \<open>The response\<close>

text \<open>What a source yields: \<open>SseOther\<close> holds the JSON text of a mapping, or \<open>str(item)\<close>.\<close>

datatype sse_item = SseEvent sse_event | SseText string | SseBytes bytes | SseOther string

fun encode_item :: "(string \<Rightarrow> bytes) \<Rightarrow> sse_item \<Rightarrow> bytes" where
  "encode_item enc (SseEvent e) = sse_encode enc e"
| "encode_item enc (SseText s) = enc s"
| "encode_item enc (SseBytes b) = b"
| "encode_item enc (SseOther s) =
     sse_encode enc \<lparr>ev_data = Some s, ev_event = None, ev_id = None, ev_retry = None, ev_comment = None\<rparr>"

definition ping_text :: "string option \<Rightarrow> string" where
  "ping_text comment = '': '' @ (case comment of None \<Rightarrow> ''ping'' | Some c \<Rightarrow> c) @ [CR, LF, CR, LF]"

record ('f) event_source =
  es_ping :: "'f option"
  es_ping_frame :: bytes

text \<open>\<open>interval_ok\<close> says that a float is finite and positive.\<close>

definition event_source_init ::
  "(string \<Rightarrow> bytes) \<Rightarrow> ('f \<Rightarrow> bool) \<Rightarrow> 'f option \<Rightarrow> string option \<Rightarrow> 'f event_source res" where
  "event_source_init enc interval_ok ping comment =
     (if (case ping of None \<Rightarrow> False | Some p \<Rightarrow> \<not> interval_ok p) then Inl ValueError
      else
        (case comment of
           None \<Rightarrow> Inr \<lparr>es_ping = ping, es_ping_frame = enc (ping_text None)\<rparr>
         | Some c \<Rightarrow>
             if ping = None then Inl ValueError
             else if LF \<in> set c \<or> CR \<in> set c then Inl ValueError
             else Inr \<lparr>es_ping = ping, es_ping_frame = enc (ping_text (Some c))\<rparr>))"

text \<open>How a wait for the next item ends: after the interval, with an item, with the end of the source.
  Without an interval there is no timeout.\<close>

datatype tick = Timeout | Ready sse_item | Exhausted

fun encode_with_ping :: "(string \<Rightarrow> bytes) \<Rightarrow> bytes \<Rightarrow> tick list \<Rightarrow> bytes list" where
  "encode_with_ping enc ping_frame [] = []"
| "encode_with_ping enc ping_frame (Timeout # ts) = ping_frame # encode_with_ping enc ping_frame ts"
| "encode_with_ping enc ping_frame (Ready i # ts) = encode_item enc i # encode_with_ping enc ping_frame ts"
| "encode_with_ping enc ping_frame (Exhausted # ts) = []"

definition encode_plain :: "(string \<Rightarrow> bytes) \<Rightarrow> sse_item list \<Rightarrow> bytes list" where
  "encode_plain enc items = map (encode_item enc) items"

fun tick_items :: "tick list \<Rightarrow> sse_item list" where
  "tick_items [] = []"
| "tick_items (Timeout # ts) = tick_items ts"
| "tick_items (Ready i # ts) = i # tick_items ts"
| "tick_items (Exhausted # ts) = []"

definition encode_stream :: "(string \<Rightarrow> bytes) \<Rightarrow> 'f event_source \<Rightarrow> tick list \<Rightarrow> bytes list" where
  "encode_stream enc r ts =
     (if es_ping r = None then encode_plain enc (tick_items ts) else encode_with_ping enc (es_ping_frame r) ts)"

section \<open>Chunked framing\<close>

definition hex_lower :: "nat \<Rightarrow> char" where
  "hex_lower d = char_of (if d < 10 then 48 + d else 87 + d)"

fun str_hex :: "nat \<Rightarrow> string" where
  "str_hex n = (if n < 16 then [hex_lower n] else str_hex (n div 16) @ [hex_lower (n mod 16)])"

declare str_hex.simps [simp del]

definition CRLF :: bytes where "CRLF = [13, 10]"

definition chunk_frame :: "bytes \<Rightarrow> bytes" where
  "chunk_frame chunk = ascii_bytes (str_hex (length chunk)) @ CRLF @ chunk @ CRLF"

definition write_chunked :: "bytes list \<Rightarrow> bytes" where
  "write_chunked stream = concat (map chunk_frame (filter (\<lambda>chunk. chunk \<noteq> []) stream)) @ [48, 13, 10, 13, 10]"

text \<open>The client: a size line, the chunk, a line end; a size of zero and an empty trailer end the body.\<close>

definition size_line :: "bytes \<Rightarrow> (nat \<times> bytes) option" where
  "size_line bs =
     (let line = takeWhile (\<lambda>b. b \<noteq> 13) bs; digits = map (\<lambda>b. char_of (unat b)) line; rest = drop (length line) bs
      in if line \<noteq> [] \<and> list_all is_hex digits \<and> take 2 rest = CRLF
         then Some (foldl (\<lambda>n c. 16 * n + hex_val c) 0 digits, drop 2 rest) else None)"

lemma size_line_less: "size_line bs = Some (n, rest) \<Longrightarrow> length rest < length bs"
  by (auto simp: size_line_def Let_def split: if_splits) (cases bs; simp)

function dechunk :: "bytes \<Rightarrow> (bytes \<times> bytes) option" where
  "dechunk bs =
     (case size_line bs of
        None \<Rightarrow> None
      | Some (n, rest) \<Rightarrow>
          if n = 0 then (if take 2 rest = CRLF then Some ([], drop 2 rest) else None)
          else if length rest < n + 2 \<or> take 2 (drop n rest) \<noteq> CRLF then None
          else map_option (\<lambda>(body, after). (take n rest @ body, after)) (dechunk (drop (n + 2) rest)))"
  by pat_completeness auto
termination by (relation "measure length") (auto dest: size_line_less)

declare dechunk.simps [simp del]

section \<open>A client of the event stream\<close>

record sse_client =
  cl_data :: string
  cl_type :: string
  cl_last_id :: string
  cl_retry :: "int option"
  cl_events :: "(string \<times> string \<times> string) list"

definition client_start :: sse_client where
  "client_start = \<lparr>cl_data = [], cl_type = [], cl_last_id = [], cl_retry = None, cl_events = []\<rparr>"

definition client_field :: "string \<Rightarrow> string \<Rightarrow> sse_client \<Rightarrow> sse_client" where
  "client_field name v cl =
     (if name = ''event'' then cl\<lparr>cl_type := v\<rparr>
      else if name = ''data'' then cl\<lparr>cl_data := cl_data cl @ v @ [LF]\<rparr>
      else if name = ''id'' then (if CHR 0x00 \<in> set v then cl else cl\<lparr>cl_last_id := v\<rparr>)
      else if name = ''retry'' then
        (if v \<noteq> [] \<and> list_all is_decimal v then cl\<lparr>cl_retry := Some (int (digits_val 0 v))\<rparr> else cl)
      else cl)"

definition client_dispatch :: "sse_client \<Rightarrow> sse_client" where
  "client_dispatch cl =
     (if cl_data cl = [] then cl\<lparr>cl_type := []\<rparr>
      else cl\<lparr>cl_events := cl_events cl @ [(if cl_type cl = [] then ''message'' else cl_type cl, butlast (cl_data cl), cl_last_id cl)],
              cl_data := [], cl_type := []\<rparr>)"

definition client_line :: "string \<Rightarrow> sse_client \<Rightarrow> sse_client" where
  "client_line line cl =
     (if line = [] then client_dispatch cl
      else if hd line = CHR '':'' then cl
      else (case partition_on (CHR '':'') line of
              (name, colon, v) \<Rightarrow> client_field name (if v \<noteq> [] \<and> hd v = CHR '' '' then tl v else v) cl))"

text \<open>The complete lines of a text; a line ends with LF, CR or both.\<close>

function client_lines :: "string \<Rightarrow> string \<Rightarrow> string list" where
  "client_lines buf [] = []"
| "client_lines buf (c # s) =
     (if c = LF then buf # client_lines [] s
      else if c = CR then buf # client_lines [] (if s \<noteq> [] \<and> hd s = LF then tl s else s)
      else client_lines (buf @ [c]) s)"
  by pat_completeness auto
termination by (relation "measure (\<lambda>(buf, s). length s)") auto

definition client_read :: "string \<Rightarrow> sse_client" where
  "client_read text = fold client_line (client_lines [] text) client_start"


section \<open>Newlines\<close>

fun unix_text :: "string \<Rightarrow> string" where
  "unix_text [] = []"
| "unix_text [c] = [if c = CR then LF else c]"
| "unix_text (c # d # s) =
     (if c = CR \<and> d = LF then LF # unix_text s else (if c = CR then LF else c) # unix_text (d # s))"

lemma newline_chars [simp]: "CR \<noteq> LF" "LF \<noteq> CR" "LF \<noteq> CHR '':''" "CR \<noteq> CHR '':''" "CHR '':'' \<noteq> LF" "CHR '':'' \<noteq> CR"
  by (simp_all add: CR_def LF_def)

lemma split_str_cons: obtains w ws where "split_str d buf s = w # ws"
  by (induction d buf s rule: split_str.induct) (metis split_str.simps)+

lemma join_split_buf: "join_str new (split_str d (b @ buf) s) = b @ join_str new (split_str d buf s)"
proof (induction d buf s arbitrary: b rule: split_str.induct)
  case (2 d buf c s)
  show ?case
  proof (cases "d \<noteq> [] \<and> starts_with d (c # s)")
    case True
    obtain w ws where "split_str d [] (drop (length d) (c # s)) = w # ws" by (rule split_str_cons)
    with True show ?thesis by simp
  next
    case False
    with 2(2) [OF False, of b] show ?thesis by auto
  qed
qed simp

lemma str_replace_Nil: "str_replace old new [] = []"
  by (simp add: str_replace_def)

lemma str_replace_Cons:
  "str_replace old new (c # s) =
     (if old \<noteq> [] \<and> starts_with old (c # s) then new @ str_replace old new (drop (length old) (c # s))
      else c # str_replace old new s)"
proof (cases "old \<noteq> [] \<and> starts_with old (c # s)")
  case True
  obtain w ws where "split_str old [] (drop (length old) (c # s)) = w # ws" by (rule split_str_cons)
  with True show ?thesis by (simp add: str_replace_def)
next
  case False
  then show ?thesis using join_split_buf [of new old "[c]" "[]" s] by (auto simp: str_replace_def)
qed

lemma one_newline_unix: "one_newline s = unix_text s"
proof -
  have cr: "str_replace [CR] [LF] t = map (\<lambda>c. if c = CR then LF else c) t" for t
    by (induction t) (simp_all add: str_replace_Nil str_replace_Cons starts_with_def)
  have "str_replace [CR, LF] [LF] t = (case t of c # d # u \<Rightarrow>
      if c = CR \<and> d = LF then LF # str_replace [CR, LF] [LF] u else c # str_replace [CR, LF] [LF] (d # u) | _ \<Rightarrow> t)" for t
    by (auto simp: str_replace_Nil str_replace_Cons starts_with_def split: list.split)
  note crlf = this
  show ?thesis unfolding one_newline_def cr
    by (induction s rule: unix_text.induct) (subst crlf; simp)+
qed

lemma CR_unix_text: "CR \<notin> set (unix_text s)"
  by (induction s rule: unix_text.induct) auto

section \<open>What the client makes of the lines\<close>

definition one_line :: "string \<Rightarrow> bool" where
  "one_line s \<longleftrightarrow> LF \<notin> set s \<and> CR \<notin> set s"

lemma client_lines_LF: "one_line l \<Longrightarrow> client_lines buf (l @ LF # s) = (buf @ l) # client_lines [] s"
  by (induction l arbitrary: buf) (auto simp: one_line_def)

lemma client_lines_CRLF: "one_line l \<Longrightarrow> client_lines buf (l @ CR # LF # s) = (buf @ l) # client_lines [] s"
  by (induction l arbitrary: buf) (auto simp: one_line_def)

lemma client_lines_terminated:
  "list_all one_line ls \<Longrightarrow> client_lines [] (concat (map (\<lambda>l. l @ [LF]) ls) @ s) = ls @ client_lines [] s"
  by (induction ls) (simp_all add: client_lines_LF)

lemma join_terminated: "join_str [LF] (ls @ [[], []]) = concat (map (\<lambda>l. l @ [LF]) (ls @ [[]]))"
proof (induction ls)
  case (Cons l ls)
  then show ?case by (cases ls) simp_all
qed simp


text \<open>An event that the constructor accepts.\<close>

definition event_ok :: "sse_event \<Rightarrow> bool" where
  "event_ok e \<longleftrightarrow> (case ev_event e of None \<Rightarrow> True | Some t \<Rightarrow> one_line t)
     \<and> (case ev_id e of None \<Rightarrow> True | Some i \<Rightarrow> one_line i \<and> CHR 0x00 \<notin> set i)"

lemma sse_init_ok: "sse_init data event ident retry comment = Inr e \<Longrightarrow> event_ok e"
  by (auto simp: sse_init_def event_ok_def one_line_def split: option.splits if_splits)

lemma field_lines_split: "field_lines label s = map (\<lambda>line. label @ line) (split_on LF (unix_text s))"
  by (simp add: field_lines_def Let_def one_newline_unix split_on_single)

lemma split_chars: "w \<in> set (split_on d s) \<Longrightarrow> c \<in> set w \<Longrightarrow> c \<in> set s"
  by (induction s arbitrary: w) (fastforce split: list.splits if_splits)+

lemma one_line_split: "w \<in> set (split_on LF (unix_text s)) \<Longrightarrow> one_line w"
  using split_on_no_sep split_chars CR_unix_text unfolding one_line_def by blast

lemma one_line_append: "one_line (a @ b) \<longleftrightarrow> one_line a \<and> one_line b"
  by (auto simp: one_line_def)

lemma one_line_simps:
  "one_line []" "one_line (c # s) \<longleftrightarrow> c \<noteq> CHR 0x0A \<and> c \<noteq> CHR 0x0D \<and> one_line s"
  by (auto simp: one_line_def LF_def CR_def)

lemma one_line_int: "one_line (str_int n)"
proof -
  have "c \<noteq> LF \<and> c \<noteq> CR" if "is_decimal c" for c using that by (auto simp: is_decimal_def LF_def CR_def)
  then have "one_line (str_nat m)" for m using str_nat_decimal [of m] by (auto simp: one_line_def list_all_iff)
  moreover have "one_line ''-''" by (simp add: one_line_def LF_def CR_def)
  ultimately show ?thesis by (auto simp: str_int_def one_line_def)
qed

lemma sse_lines_one_line:
  assumes "event_ok e" shows "list_all one_line (sse_lines e)"
proof -
  have "list_all one_line (field_lines l s)" if "one_line l" for l s
    using that one_line_split by (auto simp: field_lines_split list_all_iff one_line_append)
  then have "list_all one_line (field_lines '': '' s)" "list_all one_line (field_lines ''data: '' s)" for s
    by (simp_all add: one_line_simps)
  then show ?thesis using assms one_line_int
    by (auto simp: sse_lines_def event_ok_def one_line_simps split: option.splits)
qed

lemma client_named:
  assumes "name \<noteq> []" "CHR '':'' \<notin> set name"
  shows "client_line (name @ '': '' @ v) cl = client_field name v cl"
proof -
  have "partition_on (CHR '':'') (name @ CHR '':'' # (CHR '' '' # v)) = (name, True, CHR '' '' # v)"
    by (rule partition_on_sep [OF assms(2)])
  moreover have "hd (name @ '': '' @ v) \<noteq> CHR '':''" using assms by (cases name) auto
  ultimately show ?thesis using assms(1) by (simp add: client_line_def)
qed

lemma client_line_simps:
  "client_line (''id: '' @ v) cl = client_field ''id'' v cl"
  "client_line (''event: '' @ v) cl = client_field ''event'' v cl"
  "client_line (''retry: '' @ v) cl = client_field ''retry'' v cl"
  "client_line (''data: '' @ v) cl = client_field ''data'' v cl"
  "client_line ('': '' @ v) cl = cl"
  using client_named [of "''id''" v cl] client_named [of "''event''" v cl] client_named [of "''retry''" v cl]
    client_named [of "''data''" v cl] by (simp_all add: client_line_def)

lemma client_comment: "fold client_line (field_lines '': '' c) cl = cl"
proof -
  have "fold client_line (map (\<lambda>line. '': '' @ line) ws) cl = cl" for ws
    by (induction ws) (simp_all add: client_line_def)
  then show ?thesis by (simp only: field_lines_split)
qed

lemma concat_split_on: "concat (map (\<lambda>w. w @ [d]) (split_on d s)) = s @ [d]"
  by (induction s) (auto split: list.splits)

lemma client_data: "fold client_line (field_lines ''data: '' s) cl = cl\<lparr>cl_data := cl_data cl @ unix_text s @ [LF]\<rparr>"
proof -
  have "fold client_line (map (\<lambda>line. ''data: '' @ line) ws) cl
      = cl\<lparr>cl_data := cl_data cl @ concat (map (\<lambda>w. w @ [LF]) ws)\<rparr>" for ws
  proof (induction ws arbitrary: cl)
    case (Cons w ws)
    then show ?case using client_line_simps(4) [of w cl] by (simp add: client_field_def)
  qed simp
  then show ?thesis by (simp only: field_lines_split concat_split_on)
qed


section \<open>One event\<close>

text \<open>What a client makes of an event: the identifier and the delay it keeps, and the message.\<close>

definition kept_id :: "string \<Rightarrow> sse_event \<Rightarrow> string" where
  "kept_id prev e = (case ev_id e of None \<Rightarrow> prev | Some i \<Rightarrow> i)"

definition kept_retry :: "int option \<Rightarrow> sse_event \<Rightarrow> int option" where
  "kept_retry r e = (case ev_retry e of None \<Rightarrow> r | Some n \<Rightarrow> if n < 0 then r else Some n)"

definition message_type :: "sse_event \<Rightarrow> string" where
  "message_type e = (case ev_event e of None \<Rightarrow> ''message'' | Some t \<Rightarrow> if t = [] then ''message'' else t)"

definition message_of :: "string \<Rightarrow> sse_event \<Rightarrow> (string \<times> string \<times> string) list" where
  "message_of prev e = (case ev_data e of None \<Rightarrow> [] | Some d \<Rightarrow> [(message_type e, unix_text d, kept_id prev e)])"

definition idle :: "sse_client \<Rightarrow> bool" where
  "idle cl \<longleftrightarrow> cl_data cl = [] \<and> cl_type cl = []"

definition client_event :: "sse_event \<Rightarrow> sse_client \<Rightarrow> sse_client" where
  "client_event e cl = cl\<lparr>cl_last_id := kept_id (cl_last_id cl) e, cl_retry := kept_retry (cl_retry cl) e,
     cl_events := cl_events cl @ message_of (cl_last_id cl) e\<rparr>"

lemma client_retry:
  "client_field ''retry'' (str_int n) cl = cl\<lparr>cl_retry := if n < 0 then cl_retry cl else Some n\<rparr>"
proof (cases "n < 0")
  case True
  have "\<not> is_decimal (CHR ''-'')" by (simp add: is_decimal_def)
  with True show ?thesis by (simp add: client_field_def str_int_def)
next
  case False
  have "str_nat (nat n) \<noteq> []" by (subst str_nat.simps) simp
  with False show ?thesis
    by (simp add: client_field_def str_int_def str_nat_decimal digits_val_str_nat)
qed

lemma fold_optional: "fold f (case x of None \<Rightarrow> [] | Some v \<Rightarrow> [g v]) cl = (case x of None \<Rightarrow> cl | Some v \<Rightarrow> f (g v) cl)"
  by (simp split: option.split)

lemma client_reads_event:
  assumes "event_ok e" "idle cl"
  shows "fold client_line (sse_lines e @ [[]]) cl = client_event e cl"
proof -
  have nul: "\<And>i. ev_id e = Some i \<Longrightarrow> CHR 0x00 \<notin> set i" using assms(1) by (simp add: event_ok_def)
  have lines: "fold client_line (sse_lines e @ [[]]) cl =
    client_dispatch
      ((\<lambda>cl. case ev_data e of None \<Rightarrow> cl | Some d \<Rightarrow> cl\<lparr>cl_data := cl_data cl @ unix_text d @ [LF]\<rparr>)
      ((\<lambda>cl. case ev_retry e of None \<Rightarrow> cl | Some n \<Rightarrow> cl\<lparr>cl_retry := if n < 0 then cl_retry cl else Some n\<rparr>)
      ((\<lambda>cl. case ev_event e of None \<Rightarrow> cl | Some t \<Rightarrow> cl\<lparr>cl_type := t\<rparr>)
      ((\<lambda>cl. case ev_id e of None \<Rightarrow> cl | Some i \<Rightarrow> cl\<lparr>cl_last_id := i\<rparr>) cl))))"
    unfolding sse_lines_def fold_append o_def fold_optional client_line_simps client_retry
    using nul client_comment client_data by (auto simp: client_field_def client_line_def split: option.split)
  show ?thesis unfolding lines using assms(2)
    by (cases cl) (auto simp: client_dispatch_def client_event_def idle_def kept_id_def kept_retry_def message_of_def
        message_type_def LF_def split: option.split)
qed


section \<open>The stream\<close>

text \<open>The event that an item is sent as; text and bytes of the application are sent as they are.\<close>

fun as_event :: "sse_item \<Rightarrow> sse_event option" where
  "as_event (SseEvent e) = Some e"
| "as_event (SseOther s) = Some \<lparr>ev_data = Some s, ev_event = None, ev_id = None, ev_retry = None, ev_comment = None\<rparr>"
| "as_event (SseText s) = None"
| "as_event (SseBytes b) = None"

definition event_text :: "sse_event \<Rightarrow> string" where
  "event_text e = join_str [LF] (sse_lines e @ [[], []])"

fun stream_text :: "string option \<Rightarrow> tick list \<Rightarrow> string" where
  "stream_text comment [] = []"
| "stream_text comment (Timeout # ts) = ping_text comment @ stream_text comment ts"
| "stream_text comment (Ready i # ts) = (case as_event i of None \<Rightarrow> [] | Some e \<Rightarrow> event_text e) @ stream_text comment ts"
| "stream_text comment (Exhausted # ts) = []"

lemma encode_as_event: "as_event i = Some e \<Longrightarrow> encode_item enc i = enc (event_text e)"
  by (cases i) (auto simp: sse_encode_def event_text_def)

lemma client_event_idle: "idle cl \<Longrightarrow> idle (client_event e cl)"
  by (simp add: idle_def client_event_def)

lemma client_stream_event:
  assumes "event_ok e" "idle cl"
  shows "fold client_line (client_lines [] (event_text e @ s)) cl = fold client_line (client_lines [] s) (client_event e cl)"
proof -
  have "list_all one_line (sse_lines e @ [[]])" using sse_lines_one_line [OF assms(1)] by (simp add: one_line_simps)
  then have "client_lines [] (event_text e @ s) = (sse_lines e @ [[]]) @ client_lines [] s"
    unfolding event_text_def join_terminated by (rule client_lines_terminated)
  then show ?thesis using client_reads_event [OF assms] by simp
qed

lemma client_stream_ping:
  assumes "comment = None \<or> (\<exists>c. comment = Some c \<and> one_line c)" "idle cl"
  shows "fold client_line (client_lines [] (ping_text comment @ s)) cl = fold client_line (client_lines [] s) cl"
proof -
  obtain c where c: "ping_text comment = ('': '' @ c) @ CR # LF # CR # [LF]" "one_line ('': '' @ c)"
    using assms(1) by (auto simp: ping_text_def one_line_simps split: option.split)
  have "client_lines [] (ping_text comment @ s) = ('': '' @ c) # client_lines [] (CR # LF # s)"
    using client_lines_CRLF [OF c(2), of "[]" "CR # LF # s"] by (simp add: c(1))
  also have "client_lines [] (CR # LF # s) = [] # client_lines [] s" by simp
  finally show ?thesis using assms(2)
    by (cases cl) (simp add: client_line_def client_dispatch_def idle_def)
qed

lemma client_reads_stream:
  assumes "comment = None \<or> (\<exists>c. comment = Some c \<and> one_line c)" "idle cl"
    and "map as_event (tick_items ts) = map Some es" "list_all event_ok es"
  shows "fold client_line (client_lines [] (stream_text comment ts)) cl = fold client_event es cl"
  using assms(2-)
proof (induction ts arbitrary: es cl rule: tick_items.induct)
  case (2 ts)
  then show ?case using client_stream_ping [OF assms(1)] by simp
next
  case (3 i ts)
  then obtain e es' where es: "es = e # es'" "as_event i = Some e" by (cases es) auto
  with 3 have "event_ok e" "list_all event_ok es'" "map as_event (tick_items ts) = map Some es'" by simp_all
  with 3 es client_event_idle show ?case by (simp add: client_stream_event)
qed simp_all

text \<open>The codec is one of a stream: it encodes piece by piece.\<close>

definition stream_codec :: "(string \<Rightarrow> bytes) \<Rightarrow> (bytes \<Rightarrow> string) \<Rightarrow> bool" where
  "stream_codec enc dec \<longleftrightarrow> text_codec enc dec \<and> (\<forall>a b. enc (a @ b) = enc a @ enc b)"

text \<open>The waits as the stream sees them: without an interval none ends in a timeout.\<close>

definition effective_ticks :: "'f event_source \<Rightarrow> tick list \<Rightarrow> tick list" where
  "effective_ticks r ts = (if es_ping r = None then filter (\<lambda>t. t \<noteq> Timeout) ts else ts)"

lemma effective_items: "tick_items (effective_ticks r ts) = tick_items ts"
proof -
  have "tick_items (filter (\<lambda>t. t \<noteq> Timeout) ts) = tick_items ts" by (induction ts rule: tick_items.induct) simp_all
  then show ?thesis by (simp add: effective_ticks_def)
qed

lemma stream_bytes:
  assumes "stream_codec enc dec" "event_source_init enc interval_ok ping comment = Inr r"
    and "map as_event (tick_items ts) = map Some es"
  shows "concat (encode_stream enc r ts) = enc (stream_text comment (effective_ticks r ts))"
proof -
  have enc: "enc [] = []" "\<And>a b. enc (a @ b) = enc a @ enc b"
    using assms(1) by (auto simp: stream_codec_def text_codec_def)
  have frame: "es_ping_frame r = enc (ping_text comment)"
    using assms(2) by (auto simp: event_source_init_def split: option.splits if_splits)
  have ping: "concat (encode_with_ping enc (es_ping_frame r) ts) = enc (stream_text comment ts)"
    if "map as_event (tick_items ts) = map Some es" for ts es
    using that
  proof (induction ts arbitrary: es rule: tick_items.induct)
    case (3 i ts)
    then obtain e es' where "es = e # es'" "as_event i = Some e" by (cases es) auto
    with 3 show ?case by (simp add: enc encode_as_event)
  qed (simp_all add: enc frame)
  have "encode_plain enc (tick_items ts) = encode_with_ping enc (es_ping_frame r) (filter (\<lambda>t. t \<noteq> Timeout) ts)"
    by (induction ts rule: tick_items.induct) (simp_all add: encode_plain_def)
  then have "encode_stream enc r ts = encode_with_ping enc (es_ping_frame r) (effective_ticks r ts)"
    by (simp add: encode_stream_def effective_ticks_def)
  with ping [of "effective_ticks r ts" es] assms(3) show ?thesis by (simp add: effective_items)
qed

section \<open>The framing\<close>

lemma hex_digits:
  assumes "d < 16" shows "is_hex (hex_lower d) \<and> hex_val (hex_lower d) = d"
proof -
  have "code (hex_lower d) = (if d < 10 then 48 + d else 87 + d)" using assms by (simp add: hex_lower_def)
  with assms show ?thesis by (auto simp: is_hex_def hex_val_def is_decimal_def Let_def)
qed

lemma str_hex_value: "list_all is_hex (str_hex n) \<and> str_hex n \<noteq> [] \<and> foldl (\<lambda>n c. 16 * n + hex_val c) 0 (str_hex n) = n"
proof (induction n rule: str_hex.induct)
  case (1 n)
  show ?case
  proof (cases "n < 16")
    case True
    then have "str_hex n = [hex_lower n]" by (subst str_hex.simps) simp
    then show ?thesis using hex_digits [OF True] by simp
  next
    case False
    have "n mod 16 < 16" by simp
    note digit = hex_digits [OF this]
    from False have "str_hex n = str_hex (n div 16) @ [hex_lower (n mod 16)]" by (subst str_hex.simps) simp
    with digit 1 [OF False] show ?thesis by simp
  qed
qed

lemma size_line_hex: "size_line (ascii_bytes (str_hex n) @ CRLF @ rest) = Some (n, rest)"
proof -
  let ?d = "str_hex n"
  have char: "char_of (unat (of_char c :: byte)) = c" for c
  proof -
    have "unat (of_char c :: byte) = code c" by (metis nat_of_char_less_256 of_nat_of_char unat_of_nat_byte)
    then show ?thesis by simp
  qed
  have "(of_char c :: byte) \<noteq> 13" if "is_hex c" for c
  proof
    assume "(of_char c :: byte) = 13"
    then have "c = char_of (unat (13 :: byte))" using char [of c] by simp
    with that show False by (simp add: is_hex_def is_decimal_def)
  qed
  then have all: "\<And>b. b \<in> set (ascii_bytes ?d) \<Longrightarrow> b \<noteq> 13" using str_hex_value [of n] by (auto simp: ascii_bytes_def list_all_iff)
  then have "takeWhile (\<lambda>b. b \<noteq> 13) (ascii_bytes ?d @ CRLF @ rest) = ascii_bytes ?d"
    by (subst takeWhile_append2) (simp_all add: CRLF_def)
  moreover have "map (\<lambda>b. char_of (unat b)) (ascii_bytes ?d) = ?d" by (simp add: ascii_bytes_def o_def char)
  moreover have "ascii_bytes ?d \<noteq> []" using str_hex_value [of n] by (simp add: ascii_bytes_def)
  ultimately show ?thesis using str_hex_value [of n] by (simp add: size_line_def Let_def CRLF_def)
qed

lemma CRLF_pre: "take 2 (CRLF @ s) = CRLF" "drop 2 (CRLF @ s) = s" "length CRLF = 2"
  by (simp_all add: CRLF_def)

lemma dechunk_write:
  "dechunk (write_chunked stream @ rest) = Some (concat stream, rest)"
proof (induction stream)
  case Nil
  have "size_line ([48] @ CRLF @ CRLF @ rest) = Some (0, CRLF @ rest)"
    by (simp add: size_line_def CRLF_def is_hex_def is_decimal_def hex_val_def)
  then show ?case by (subst dechunk.simps) (simp add: write_chunked_def CRLF_def)
next
  case (Cons chunk stream)
  show ?case
  proof (cases "chunk = []")
    case True
    with Cons show ?thesis by (simp add: write_chunked_def)
  next
    case False
    then have "write_chunked (chunk # stream) @ rest
      = ascii_bytes (str_hex (length chunk)) @ CRLF @ chunk @ CRLF @ write_chunked stream @ rest"
      by (simp add: write_chunked_def chunk_frame_def)
    with Cons False show ?thesis
      by (subst dechunk.simps) (simp add: size_line_hex CRLF_pre)
  qed
qed

section \<open>Property\<close>

text \<open>C15: Whatever the pace of the source, a client of the event stream gets the events that were yielded
  and nothing else. The body is cut into chunks that decode to it, keep-alive frames between the
  events leave no trace, and of each event the client has the type, the data with its line breaks,
  the identifier it will resume from and the delay: no field can break out of its line.\<close>

theorem event_stream_read_back:
  assumes "stream_codec enc dec" "event_source_init enc interval_ok ping comment = Inr r"
    and "map as_event (tick_items ts) = map Some es"
    and "\<forall>e \<in> set es. sse_init (ev_data e) (ev_event e) (ev_id e) (ev_retry e) (ev_comment e) = Inr e"
  shows "\<exists>body. dechunk (write_chunked (encode_stream enc r ts) @ rest) = Some (body, rest)
    \<and> client_read (dec body) = fold client_event es client_start"
proof -
  have comment: "comment = None \<or> (\<exists>c. comment = Some c \<and> one_line c)"
    using assms(2) by (auto simp: event_source_init_def one_line_def split: option.splits if_splits)
  have "dec (concat (encode_stream enc r ts)) = stream_text comment (effective_ticks r ts)"
    using assms(1) stream_bytes [OF assms(1-3)] by (simp add: stream_codec_def text_codec_def)
  moreover have "list_all event_ok es" using assms(4) sse_init_ok by (fastforce simp: list_all_iff)
  moreover have "idle client_start" by (simp add: idle_def client_start_def)
  ultimately show ?thesis
    using client_reads_stream [OF comment] assms(3)
    by (simp add: dechunk_write client_read_def effective_items)
qed


lemma stream_codec_utf8: "stream_codec utf8_enc utf8_dec"
  by (simp add: stream_codec_def text_codec_utf8 utf8_enc_def)

definition tick_event :: sse_event where
  "tick_event = \<lparr>ev_data = Some ([CHR ''a'', CR, LF] @ ''id: 7''), ev_event = Some ''tick'', ev_id = Some ''5'',
     ev_retry = Some 300, ev_comment = Some ''note''\<rparr>"

definition bare_event :: sse_event where
  "bare_event = \<lparr>ev_data = Some ''b'', ev_event = None, ev_id = None, ev_retry = None, ev_comment = None\<rparr>"

theorem event_stream_read_back_witness:
  "\<exists>body. dechunk (write_chunked (encode_stream utf8_enc \<lparr>es_ping = Some (15 :: int), es_ping_frame = utf8_enc (ping_text None)\<rparr>
       [Timeout, Ready (SseEvent tick_event), Timeout, Ready (SseOther ''b''), Exhausted]) @ []) = Some (body, [])
    \<and> cl_events (client_read (utf8_dec body)) = [(''tick'', ''a'' @ LF # ''id: 7'', ''5''), (''message'', ''b'', ''5'')]
    \<and> cl_retry (client_read (utf8_dec body)) = Some 300"
proof -
  let ?ts = "[Timeout, Ready (SseEvent tick_event), Timeout, Ready (SseOther ''b''), Exhausted]"
  have init: "event_source_init utf8_enc (\<lambda>p. 0 < p) (Some (15 :: int)) None
      = Inr \<lparr>es_ping = Some 15, es_ping_frame = utf8_enc (ping_text None)\<rparr>"
    by (simp add: event_source_init_def)
  have items: "map as_event (tick_items ?ts) = map Some [tick_event, bare_event]" by (simp add: bare_event_def)
  have ok: "\<forall>e \<in> set [tick_event, bare_event]. sse_init (ev_data e) (ev_event e) (ev_id e) (ev_retry e) (ev_comment e) = Inr e"
    by (simp add: sse_init_def tick_event_def bare_event_def LF_def CR_def)
  have "cl_events (fold client_event [tick_event, bare_event] client_start)
      = [(''tick'', ''a'' @ LF # ''id: 7'', ''5''), (''message'', ''b'', ''5'')]"
    "cl_retry (fold client_event [tick_event, bare_event] client_start) = Some 300"
    by (simp_all add: client_event_def client_start_def kept_id_def kept_retry_def message_of_def message_type_def
        tick_event_def bare_event_def LF_def CR_def)
  with event_stream_read_back [OF stream_codec_utf8 init items ok, of "[]"] show ?thesis by auto
qed

end
