(* ===== verification/Ranges.thy ===== *)
theory Ranges
  imports Cookies Header_Set
begin

text \<open>
  Range requests for files: \<open>RangeSpec\<close> of \<open>src/src/veloce/http/datastructures.py\<close>, \<open>if_range\<close> of
  \<open>src/src/veloce/http/request.py\<close>, the negotiation and \<open>FileResponse\<close> of
  \<open>src/src/veloce/http/response.py\<close>, the part of \<open>StaticFiles.handle\<close> of
  \<open>src/src/veloce/contrib/staticfiles.py\<close> after the file was found, and the entity tag comparisons of
  \<open>src/src/veloce/_internal.py\<close>. A file is its size and time as \<open>stat\<close> gave them and the bytes that
  later reads find. Dates, the digest behind a tag and the media type are arguments.
\<close>

section \<open>The header\<close>

type_synonym byte_range = "nat option \<times> nat option"

record range_spec =
  rg_unit :: string
  rg_ranges :: "byte_range list"

definition is_byte_pos :: "string \<Rightarrow> bool" where
  "is_byte_pos s \<longleftrightarrow> str_isdigit s \<and> list_all is_ascii s"

text \<open>\<open>int(s)\<close> of ASCII digits; the interpreter refuses to read more digits than its limit.\<close>

definition read_pos :: "nat option \<Rightarrow> string \<Rightarrow> nat option res" where
  "read_pos digit_limit s =
     (if s = [] then Inr None
      else if (case digit_limit of None \<Rightarrow> False | Some m \<Rightarrow> length s > m) then Inl ValueError
      else Inr (Some (digits_val 0 s)))"

definition range_chunk :: "nat option \<Rightarrow> string \<Rightarrow> byte_range list res" where
  "range_chunk digit_limit c0 =
     (let chunk = str_strip c0 in
      if chunk = [] \<or> CHR ''-'' \<notin> set chunk then Inr []
      else (case partition_on (CHR ''-'') chunk of (s0, dash, e0) \<Rightarrow>
        let s = str_strip s0; e = str_strip e0 in
        if (s \<noteq> [] \<and> \<not> is_byte_pos s) \<or> (e \<noteq> [] \<and> \<not> is_byte_pos e) then Inr []
        else if s = [] \<and> e = [] then Inr []
        else res_bind (read_pos digit_limit s) (\<lambda>a. res_bind (read_pos digit_limit e) (\<lambda>b. Inr [(a, b)]))))"

fun range_chunks :: "nat option \<Rightarrow> string list \<Rightarrow> byte_range list res" where
  "range_chunks digit_limit [] = Inr []"
| "range_chunks digit_limit (c # cs) =
     res_bind (range_chunk digit_limit c) (\<lambda>r. res_bind (range_chunks digit_limit cs) (\<lambda>rs. Inr (r @ rs)))"

definition range_parse :: "nat option \<Rightarrow> string \<Rightarrow> range_spec option res" where
  "range_parse digit_limit header =
     (if header = [] \<or> CHR ''='' \<notin> set header then Inr None
      else (case partition_on (CHR ''='') header of (unit, eq, spec) \<Rightarrow>
        res_bind (range_chunks digit_limit (split_on (CHR '','') spec)) (\<lambda>rs.
          Inr (if rs = [] then None else Some \<lparr>rg_unit = str_lower (str_strip unit), rg_ranges = rs\<rparr>))))"

text \<open>\<open>If-Range\<close>: a tag or a date, in whole seconds.\<close>

definition if_range :: "(string \<Rightarrow> int option) \<Rightarrow> string option \<Rightarrow> string \<times> int option" where
  "if_range parse_date header =
     (case header of
        None \<Rightarrow> ([], None)
      | Some raw \<Rightarrow>
          if raw = [] then ([], None)
          else let s = str_strip raw in
            if starts_with [dquote] s \<or> starts_with (''W/'' @ [dquote]) s then (s, None) else ([], parse_date s))"

definition etag_matches_strong :: "string \<Rightarrow> string \<Rightarrow> bool" where
  "etag_matches_strong server client =
     (let a = str_strip server; b = str_strip client in
      if starts_with ''W/'' a \<or> starts_with ''W/'' b then False else a = b)"

section \<open>Offsets\<close>

definition resolve_byte_range :: "byte_range \<Rightarrow> nat \<Rightarrow> (nat \<times> nat) option" where
  "resolve_byte_range span filesize =
     (case span of
        (None, e) \<Rightarrow>
          (let suffix = min (case e of None \<Rightarrow> 0 | Some n \<Rightarrow> n) filesize
           in if suffix > 0 then Some (filesize - suffix, filesize - 1) else None)
      | (Some s, e) \<Rightarrow>
          if s \<ge> filesize then None
          else let last_pos = (case e of None \<Rightarrow> filesize - 1 | Some n \<Rightarrow> if n \<ge> filesize then filesize - 1 else n)
               in if s \<le> last_pos then Some (s, last_pos) else None)"

text \<open>The one of \<open>staticfiles.py\<close>; its result may lie outside the file. \<open>size - 1\<close> is -1 for an empty
  file.\<close>

definition resolve_range :: "byte_range \<Rightarrow> nat \<Rightarrow> (int \<times> int) option" where
  "resolve_range first filesize =
     (case first of
        (None, None) \<Rightarrow> None
      | (None, Some n) \<Rightarrow>
          (let suffix = min n filesize in if suffix > 0 then Some (int filesize - int suffix, int filesize - 1) else None)
      | (Some s, e) \<Rightarrow> Some (int s, (case e of Some n \<Rightarrow> if n < filesize then int n else int filesize - 1 | None \<Rightarrow> int filesize - 1)))"

section \<open>A file and what is sent of it\<close>

record file_stat =
  st_size :: nat
  st_mtime :: int
  st_etag :: string
  st_modified :: string

record file_request =
  fq_method :: string
  fq_range :: "string option"
  fq_if_range :: "string option"

text \<open>\<open>an_stream\<close> holds the chunks of a body that is read while it is sent.\<close>

record file_answer =
  an_status :: nat
  an_headers :: headers
  an_body :: bytes
  an_stream :: "bytes list option"

definition answer_bytes :: "file_answer \<Rightarrow> bytes" where
  "answer_bytes a = (case an_stream a of None \<Rightarrow> an_body a | Some chunks \<Rightarrow> concat chunks)"

text \<open>\<open>quote(s, safe='')\<close>.\<close>

definition quote_all :: "(string \<Rightarrow> bytes) \<Rightarrow> string \<Rightarrow> string" where
  "quote_all enc s = concat (map (\<lambda>b. if unat b < 128 \<and> always_safe (char_of (unat b)) then [char_of (unat b)]
     else [CHR ''%'', hex_digit (unat b div 16), hex_digit (unat b mod 16)]) (enc s))"

definition format_disposition :: "(string \<Rightarrow> bytes) \<Rightarrow> string \<Rightarrow> string \<Rightarrow> string res" where
  "format_disposition enc disposition filename =
     res_bind (reject_header_crlf filename) (\<lambda>_.
       let quotable = list_all (\<lambda>c. c = CHR 0x09 \<or> c = CHR '' '' \<or> (0x21 \<le> code c \<and> code c \<le> 0x7e)) filename;
           param = (if quotable then ''filename='' @ dquote # quote_header_value filename @ [dquote]
                    else ''filename*=UTF-8'' @ [CHR 0x27, CHR 0x27] @ quote_all enc filename)
       in Inr (disposition @ ''; '' @ param))"


text \<open>The media type beside the headers is left to the caller.\<close>

definition disposition_header :: "(string \<Rightarrow> bytes) \<Rightarrow> string option \<Rightarrow> string \<Rightarrow> headers \<Rightarrow> headers res" where
  "disposition_header enc filename disposition given =
     (if filename \<noteq> None \<and> filename \<noteq> Some [] then
        res_bind (format_disposition enc disposition (the filename)) (\<lambda>v. Inr (dict_set ''Content-Disposition'' v given))
      else if disposition \<noteq> ''attachment'' then Inr (dict_set ''Content-Disposition'' disposition given)
      else Inr given)"

definition default_header :: "string \<Rightarrow> string \<Rightarrow> string \<Rightarrow> headers \<Rightarrow> headers" where
  "default_header name lower v h = (if map_of h name = None \<and> map_of h lower = None then dict_set name v h else h)"

definition build_file_headers ::
  "(string \<Rightarrow> bytes) \<Rightarrow> file_stat \<Rightarrow> string option \<Rightarrow> string \<Rightarrow> headers \<Rightarrow> bool \<Rightarrow> headers res" where
  "build_file_headers enc st filename disposition given advertise =
     res_bind (disposition_header enc filename disposition given) (\<lambda>h0.
     let h1 = default_header ''Last-Modified'' ''last-modified'' (st_modified st) h0;
         h2 = default_header ''ETag'' ''etag'' (st_etag st) h1
     in Inr (if advertise then default_header ''Accept-Ranges'' ''accept-ranges'' ''bytes'' h2 else h2))"

text \<open>\<open>None\<close> for a request that is not given; the answer is \<open>(satisfiable, span)\<close>.\<close>

definition negotiate_file_range ::
  "nat option \<Rightarrow> (string \<Rightarrow> int option) \<Rightarrow> file_request option \<Rightarrow> headers \<Rightarrow> nat \<Rightarrow> int \<Rightarrow> (bool \<times> (nat \<times> nat) option) res" where
  "negotiate_file_range digit_limit parse_date request h filesize mtime =
     (case request of
        None \<Rightarrow> Inr (True, None)
      | Some rq \<Rightarrow>
          if fq_method rq \<noteq> ''GET'' then Inr (True, None)
          else (case fq_range rq of
            None \<Rightarrow> Inr (True, None)
          | Some raw \<Rightarrow>
              if header_get h ''Accept-Ranges'' \<noteq> Some ''bytes'' then Inr (True, None)
              else res_bind (range_parse digit_limit raw) (\<lambda>spec.
                case spec of
                  None \<Rightarrow> Inr (True, None)
                | Some sp \<Rightarrow>
                    if rg_unit sp \<noteq> ''bytes'' \<or> length (rg_ranges sp) \<noteq> 1 then Inr (True, None)
                    else (case if_range parse_date (fq_if_range rq) of (if_etag, if_date) \<Rightarrow>
                      if if_etag \<noteq> [] \<and> \<not> etag_matches_strong (case header_get h ''ETag'' of None \<Rightarrow> [] | Some t \<Rightarrow> t) if_etag
                        then Inr (True, None)
                      else if if_etag = [] \<and> if_date \<noteq> None \<and> Some mtime \<noteq> if_date then Inr (True, None)
                      else (case resolve_byte_range (hd (rg_ranges sp)) filesize of
                              Some span \<Rightarrow> Inr (True, Some span) | None \<Rightarrow> Inr (False, None))))))"

text \<open>\<open>set_content_range\<close> with the unit \<open>bytes\<close>.\<close>

definition content_range_value :: "nat option \<Rightarrow> nat option \<Rightarrow> nat option \<Rightarrow> string" where
  "content_range_value start stop filesize =
     (let total = (case filesize of None \<Rightarrow> ''*'' | Some n \<Rightarrow> str_nat n)
      in case (start, stop) of
           (Some a, Some b) \<Rightarrow> ''bytes '' @ str_nat a @ ''-'' @ str_nat b @ ''/'' @ total
         | _ \<Rightarrow> ''bytes */'' @ total)"

definition set_content_range :: "nat option \<Rightarrow> nat option \<Rightarrow> nat option \<Rightarrow> file_answer \<Rightarrow> file_answer" where
  "set_content_range start stop filesize a =
     a\<lparr>an_headers := dict_set ''Content-Range'' (content_range_value start stop filesize) (an_headers a)\<rparr>"

definition plain_answer :: "nat \<Rightarrow> headers \<Rightarrow> bytes \<Rightarrow> file_answer" where
  "plain_answer status h body = \<lparr>an_status = status, an_headers = h, an_body = body, an_stream = None\<rparr>"

text \<open>\<open>f.seek(start)\<close> and \<open>f.read(n)\<close>.\<close>

definition read_at :: "nat \<Rightarrow> nat \<Rightarrow> bytes \<Rightarrow> bytes" where
  "read_at start n data = take n (drop start data)"

definition file_response ::
  "(string \<Rightarrow> bytes) \<Rightarrow> nat option \<Rightarrow> (string \<Rightarrow> int option) \<Rightarrow> file_stat \<Rightarrow> bytes \<Rightarrow> string option \<Rightarrow> string \<Rightarrow> headers
     \<Rightarrow> file_request option \<Rightarrow> file_answer res" where
  "file_response enc digit_limit parse_date st data filename disposition given request =
     res_bind (build_file_headers enc st filename disposition given (request \<noteq> None)) (\<lambda>h.
     res_bind (negotiate_file_range digit_limit parse_date request h (st_size st) (st_mtime st)) (\<lambda>(satisfiable, span).
       Inr (if \<not> satisfiable then set_content_range None None (Some (st_size st)) (plain_answer 416 h [])
            else (case span of
                    None \<Rightarrow> plain_answer 200 h data
                  | Some (s, e) \<Rightarrow> set_content_range (Some s) (Some e) (Some (st_size st))
                      (plain_answer 206 h (read_at s (e - s + 1) data))))))"

definition file_stream_chunk :: nat where "file_stream_chunk = 64 * 1024"
definition inline_read_max :: nat where "inline_read_max = 64 * 1024"

text \<open>\<open>_stream_file\<close> over what is left of the file, \<open>chunk\<close> bytes at a read.\<close>

function stream_file :: "nat \<Rightarrow> nat option \<Rightarrow> bytes \<Rightarrow> bytes list" where
  "stream_file chunk remaining left =
     (if remaining = Some 0 \<or> take chunk left = [] then []
      else (case remaining of
              Some n \<Rightarrow> if length (take chunk left) \<ge> n then [take n (take chunk left)]
                        else take chunk left # stream_file chunk (Some (n - length (take chunk left))) (drop chunk left)
            | None \<Rightarrow> take chunk left # stream_file chunk None (drop chunk left)))"
  by pat_completeness auto
termination by (relation "measure (\<lambda>(chunk, remaining, left). length left)") auto

declare stream_file.simps [simp del]

definition file_from_path ::
  "(string \<Rightarrow> bytes) \<Rightarrow> nat option \<Rightarrow> (string \<Rightarrow> int option) \<Rightarrow> file_stat \<Rightarrow> bytes \<Rightarrow> string option \<Rightarrow> string \<Rightarrow> headers
     \<Rightarrow> file_request option \<Rightarrow> file_answer res" where
  "file_from_path enc digit_limit parse_date st data filename disposition given request =
     res_bind (build_file_headers enc st filename disposition given (request \<noteq> None)) (\<lambda>h.
     res_bind (negotiate_file_range digit_limit parse_date request h (st_size st) (st_mtime st)) (\<lambda>(satisfiable, span).
       if \<not> satisfiable then Inr (set_content_range None None (Some (st_size st)) (plain_answer 416 h []))
       else
         let (start, len, status) = (case span of None \<Rightarrow> (0, st_size st, 200) | Some (s, e) \<Rightarrow> (s, e - s + 1, 206));
             mark = (case span of None \<Rightarrow> (\<lambda>a. a) | Some (s, e) \<Rightarrow> set_content_range (Some s) (Some e) (Some (st_size st)))
         in if len \<le> inline_read_max
            then Inr (mark (plain_answer status h (if span = None then data else read_at start len data)))
            else let a = mark (plain_answer status h [])
              in Inr (a\<lparr>an_headers := dict_set ''Content-Length'' (str_nat len) (an_headers a),
                        an_stream := Some (stream_file file_stream_chunk (Some len) (drop start data))\<rparr>)))"


section \<open>Static files\<close>

record static_request = file_request +
  sq_if_match :: "string list"
  sq_if_none_match :: "string list"
  sq_if_unmodified_since :: "int option"
  sq_if_modified_since :: "int option"

definition strip_weak :: "string \<Rightarrow> string" where
  "strip_weak t = (let s = str_strip t in strip_char dquote (if starts_with ''W/'' s then drop 2 s else s))"

definition etag_matches_weak :: "string \<Rightarrow> string \<Rightarrow> bool" where
  "etag_matches_weak server client = (strip_weak server = strip_weak client)"

definition preconditions_say_unchanged :: "string list \<Rightarrow> int option \<Rightarrow> string \<Rightarrow> int option \<Rightarrow> bool" where
  "preconditions_say_unchanged none_match modified_since etag mtime =
     (if none_match \<noteq> [] then
        (if ''*'' \<in> set none_match then True else list_ex (\<lambda>t. etag_matches_weak etag t) none_match)
      else (case (modified_since, mtime) of (Some d, Some m) \<Rightarrow> m \<le> d | _ \<Rightarrow> False))"

definition precondition_failed :: "string list \<Rightarrow> int option \<Rightarrow> string \<Rightarrow> int \<Rightarrow> bool" where
  "precondition_failed if_match unmodified_since etag mtime =
     (if if_match \<noteq> [] then
        (if if_match = [''*''] then False else list_all (\<lambda>t. \<not> etag_matches_strong etag t) if_match)
      else (case unmodified_since of Some d \<Rightarrow> mtime > d | None \<Rightarrow> False))"

definition static_stream_threshold :: nat where "static_stream_threshold = 1024 * 1024"
definition static_stream_chunk :: nat where "static_stream_chunk = 64 * 1024"

function iter_file :: "nat \<Rightarrow> nat option \<Rightarrow> bytes \<Rightarrow> bytes list" where
  "iter_file chunk remaining left =
     (let want = (case remaining of None \<Rightarrow> chunk | Some n \<Rightarrow> min chunk n)
      in if remaining = Some 0 \<or> take want left = [] then []
         else take want left # iter_file chunk (map_option (\<lambda>n. n - length (take want left)) remaining) (drop want left))"
  by pat_completeness auto
termination by (relation "measure (\<lambda>(chunk, remaining, left). length left)") (auto simp: Let_def split: option.splits)

declare iter_file.simps [simp del]

record static_settings =
  sv_cache_control :: string
  sv_encoding :: "string option"
  sv_precompressed :: bool

definition static_extra :: "static_settings \<Rightarrow> headers \<Rightarrow> headers" where
  "static_extra cfg h =
     (let h1 = (case sv_encoding cfg of None \<Rightarrow> h | Some e \<Rightarrow> dict_set ''Content-Encoding'' e h)
      in if sv_precompressed cfg then dict_set ''Vary'' ''Accept-Encoding'' h1 else h1)"

definition streamed :: "nat \<Rightarrow> headers \<Rightarrow> bytes list \<Rightarrow> file_answer" where
  "streamed status h chunks = \<lparr>an_status = status, an_headers = h, an_body = [], an_stream = Some chunks\<rparr>"

definition honor_range :: "(string \<Rightarrow> int option) \<Rightarrow> string \<Rightarrow> int \<Rightarrow> string option \<Rightarrow> bool" where
  "honor_range parse_date etag mtime header =
     (case if_range parse_date header of (if_etag, if_date) \<Rightarrow>
        if if_etag \<noteq> [] then etag_matches_strong etag if_etag
        else (case if_date of None \<Rightarrow> True | Some d \<Rightarrow> mtime = d))"

definition static_partial :: "static_settings \<Rightarrow> file_stat \<Rightarrow> bytes \<Rightarrow> byte_range \<Rightarrow> file_answer" where
  "static_partial cfg st data span =
     (let total = st_size st;
          refuse = plain_answer 416 [(''Content-Range'', ''bytes */'' @ str_nat total), (''ETag'', st_etag st),
                     (''Last-Modified'', st_modified st), (''Accept-Ranges'', ''bytes'')] []
      in case resolve_range span total of
           None \<Rightarrow> refuse
         | Some (a, b) \<Rightarrow>
             if a \<ge> int total \<or> a > b then refuse
             else let len = nat (b - a + 1);
                      h = static_extra cfg
                        [(''Content-Range'', ''bytes '' @ str_int a @ ''-'' @ str_int b @ ''/'' @ str_nat total),
                         (''ETag'', st_etag st), (''Last-Modified'', st_modified st), (''Accept-Ranges'', ''bytes''),
                         (''Cache-Control'', sv_cache_control cfg)]
                  in if len \<ge> static_stream_threshold
                     then streamed 206 h (iter_file static_stream_chunk (Some len) (drop (nat a) data))
                     else plain_answer 206 h (read_at (nat a) len data))"

definition static_whole :: "static_settings \<Rightarrow> file_stat \<Rightarrow> bytes \<Rightarrow> file_answer" where
  "static_whole cfg st data =
     (let h = static_extra cfg [(''ETag'', st_etag st), (''Last-Modified'', st_modified st), (''Accept-Ranges'', ''bytes''),
                (''Cache-Control'', sv_cache_control cfg)]
      in if st_size st \<ge> static_stream_threshold then streamed 200 h (iter_file static_stream_chunk None data)
         else plain_answer 200 h data)"

definition static_answer ::
  "nat option \<Rightarrow> (string \<Rightarrow> int option) \<Rightarrow> static_settings \<Rightarrow> file_stat \<Rightarrow> bytes \<Rightarrow> static_request \<Rightarrow> file_answer res" where
  "static_answer digit_limit parse_date cfg st data rq =
     (let validators = [(''ETag'', st_etag st), (''Last-Modified'', st_modified st)] in
      if precondition_failed (sq_if_match rq) (sq_if_unmodified_since rq) (st_etag st) (st_mtime st)
        then Inr (plain_answer 412 validators [])
      else if preconditions_say_unchanged (sq_if_none_match rq) (sq_if_modified_since rq) (st_etag st) (Some (st_mtime st))
        then Inr (plain_answer 304 validators [])
      else res_bind (if fq_method rq = ''GET'' then range_parse digit_limit (case fq_range rq of None \<Rightarrow> [] | Some raw \<Rightarrow> raw)
                     else Inr None) (\<lambda>spec.
        Inr (case spec of
               None \<Rightarrow> static_whole cfg st data
             | Some sp \<Rightarrow>
                 if honor_range parse_date (st_etag st) (st_mtime st) (fq_if_range rq)
                    \<and> rg_unit sp = ''bytes'' \<and> length (rg_ranges sp) = 1
                 then static_partial cfg st data (hd (rg_ranges sp))
                 else static_whole cfg st data)))"

section \<open>The slice that is served\<close>

text \<open>The positions that a range asks for, and those of them that the file has.\<close>

definition asked :: "nat \<Rightarrow> byte_range \<Rightarrow> nat set" where
  "asked fsize span =
     {p. p < fsize \<and> (case span of
        (Some a, Some b) \<Rightarrow> a \<le> p \<and> p \<le> b
      | (Some a, None) \<Rightarrow> a \<le> p
      | (None, Some n) \<Rightarrow> fsize \<le> p + n
      | (None, None) \<Rightarrow> False)}"

lemma resolve_byte_range_exact:
  "case resolve_byte_range span fsize of
     Some (s, e) \<Rightarrow> s \<le> e \<and> e < fsize \<and> {s..e} = asked fsize span
   | None \<Rightarrow> asked fsize span = {}"
proof -
  obtain a b where span: "span = (a, b)" by (cases span)
  show ?thesis
    by (cases a; cases b) (auto simp: span resolve_byte_range_def asked_def Let_def min_def)
qed

lemma resolve_range_agrees:
  "(case resolve_range span fsize of
      None \<Rightarrow> None | Some (a, b) \<Rightarrow> if a \<ge> int fsize \<or> a > b then None else Some (nat a, nat b))
   = resolve_byte_range span fsize"
proof -
  obtain a b where span: "span = (a, b)" by (cases span)
  show ?thesis
    by (cases a; cases b) (auto simp: span resolve_byte_range_def resolve_range_def Let_def min_def nat_diff_distrib)
qed

lemma take_pieces: "k \<le> n \<Longrightarrow> take k xs @ take (n - k) (drop k xs) = take n xs"
  using take_add [of k "n - k" xs] by simp

lemma stream_file_bytes:
  assumes "0 < chunk"
  shows "concat (stream_file chunk remaining left) = (case remaining of None \<Rightarrow> left | Some n \<Rightarrow> take n left)"
  using assms
proof (induction chunk remaining left rule: stream_file.induct)
  case (1 chunk remaining left)
  show ?case
  proof (cases "remaining = Some 0 \<or> left = []")
    case True
    then show ?thesis by (subst stream_file.simps) (auto split: option.split)
  next
    case False
    with 1 show ?thesis
      by (subst stream_file.simps) (auto simp: take_pieces min_def split: option.splits)
  qed
qed

lemma iter_file_bytes:
  assumes "0 < chunk"
  shows "concat (iter_file chunk remaining left) = (case remaining of None \<Rightarrow> left | Some n \<Rightarrow> take n left)"
  using assms
proof (induction chunk remaining left rule: iter_file.induct)
  case (1 chunk remaining left)
  show ?case
  proof (cases "remaining = Some 0 \<or> left = []")
    case True
    then show ?thesis by (subst iter_file.simps) (auto simp: Let_def split: option.split)
  next
    case False
    with 1 show ?thesis
      by (subst iter_file.simps) (auto simp: take_pieces min_def Let_def split: option.splits)
  qed
qed


section \<open>What a request is answered with\<close>

text \<open>The one range that a request has honoured, if any.\<close>

definition honored :: "nat option \<Rightarrow> (string \<Rightarrow> int option) \<Rightarrow> file_stat \<Rightarrow> file_request \<Rightarrow> byte_range option res" where
  "honored digit_limit parse_date st rq =
     (case fq_range rq of
        None \<Rightarrow> Inr None
      | Some raw \<Rightarrow>
          if fq_method rq \<noteq> ''GET'' then Inr None
          else res_bind (range_parse digit_limit raw) (\<lambda>spec. Inr (case spec of
            None \<Rightarrow> None
          | Some sp \<Rightarrow>
              if rg_unit sp = ''bytes'' \<and> length (rg_ranges sp) = 1 \<and> honor_range parse_date (st_etag st) (st_mtime st) (fq_if_range rq)
              then Some (hd (rg_ranges sp)) else None)))"

text \<open>The answer of a file to a range: the octets at the asked positions and no others, labelled with
  their place, or 416 when the file has none of them; a declared length is that of the body.\<close>

definition serves :: "file_stat \<Rightarrow> bytes \<Rightarrow> byte_range option \<Rightarrow> file_answer \<Rightarrow> bool" where
  "serves st data want a \<longleftrightarrow>
     (case map_of (an_headers a) ''Content-Length'' of None \<Rightarrow> True | Some v \<Rightarrow> v = str_nat (length (answer_bytes a)))
     \<and> (case want of
          None \<Rightarrow> an_status a = 200 \<and> take (st_size st) (answer_bytes a) = take (st_size st) data
        | Some span \<Rightarrow> answer_bytes a = nths data (asked (st_size st) span)
            \<and> (if asked (st_size st) span = {}
               then an_status a = 416 \<and> map_of (an_headers a) ''Content-Range'' = Some (''bytes */'' @ str_nat (st_size st))
               else an_status a = 206 \<and> map_of (an_headers a) ''Content-Range''
                 = Some (''bytes '' @ str_nat (Min (asked (st_size st) span)) @ ''-'' @ str_nat (Max (asked (st_size st) span))
                     @ ''/'' @ str_nat (st_size st))))"

lemma nths_interval: "e < length data \<Longrightarrow> s \<le> e \<Longrightarrow> nths data {s..e} = read_at s (e - s + 1) data"
proof -
  assume "s \<le> e"
  then have "(+) s ` {..<e - s + 1} = {s..e}" by (auto simp: image_iff Bex_def) presburger
  then show ?thesis unfolding read_at_def nths_upt_eq_take [symmetric] nths_drop by simp
qed

lemma length_read_at: "e < length data \<Longrightarrow> s \<le> e \<Longrightarrow> length (read_at s (e - s + 1) data) = e - s + 1"
  by (simp add: read_at_def)

lemma resolved_span:
  assumes "resolve_byte_range span fsize = Some (s, e)"
  shows "s \<le> e" "e < fsize" "asked fsize span = {s..e}" "asked fsize span \<noteq> {}" "Min (asked fsize span) = s" "Max (asked fsize span) = e"
proof -
  have r: "s \<le> e" "e < fsize" "{s..e} = asked fsize span"
    using resolve_byte_range_exact [where span = span and fsize = fsize] assms by simp_all
  have "Min {s..e} = s" "Max {s..e} = e" using r(1) by (auto intro: Min_eqI Max_eqI)
  with r show "s \<le> e" "e < fsize" "asked fsize span = {s..e}" "asked fsize span \<noteq> {}" "Min (asked fsize span) = s"
    "Max (asked fsize span) = e" by auto
qed

lemma unresolved_span: "resolve_byte_range span fsize = None \<Longrightarrow> asked fsize span = {}"
  using resolve_byte_range_exact [where span = span and fsize = fsize] by simp

text \<open>One lemma per kind of answer.\<close>

lemma serves_416:
  assumes "resolve_byte_range span (st_size st) = None" "map_of h ''Content-Length'' = None"
    and "map_of h ''Content-Range'' = Some (''bytes */'' @ str_nat (st_size st))"
  shows "serves st data (Some span) (plain_answer 416 h [])"
  using assms unresolved_span [OF assms(1)] by (simp add: serves_def plain_answer_def answer_bytes_def)

lemma serves_206:
  assumes "resolve_byte_range span (st_size st) = Some (s, e)" "st_size st \<le> length data"
    and "map_of (an_headers a) ''Content-Length'' \<in> {None, Some (str_nat (e - s + 1))}"
    and "map_of (an_headers a) ''Content-Range'' = Some (''bytes '' @ str_nat s @ ''-'' @ str_nat e @ ''/'' @ str_nat (st_size st))"
    and "an_status a = 206" "answer_bytes a = read_at s (e - s + 1) data"
  shows "serves st data (Some span) a"
proof -
  note r = resolved_span [OF assms(1)]
  have e: "e < length data" using r(2) assms(2) by simp
  show ?thesis unfolding serves_def
    using assms(3-6) r nths_interval [OF e r(1)] length_read_at [OF e r(1)] by auto
qed

lemma serves_200:
  assumes "an_status a = 200" "answer_bytes a = data \<or> answer_bytes a = take (st_size st) data" "st_size st \<le> length data"
    and "map_of (an_headers a) ''Content-Length'' = None
      \<or> map_of (an_headers a) ''Content-Length'' = Some (str_nat (st_size st)) \<and> length (answer_bytes a) = st_size st"
  shows "serves st data None a"
  using assms unfolding serves_def by auto


section \<open>The three servers\<close>

text \<open>The headers that a file has of its own, where the caller gives none.\<close>

lemma built_headers:
  assumes "build_file_headers enc st filename disposition [] True = Inr h"
  shows "header_get h ''ETag'' = Some (st_etag st)" "header_get h ''Accept-Ranges'' = Some ''bytes''"
    "map_of h ''Content-Length'' = None" "map_of h ''Content-Range'' = None"
proof -
  obtain h0 where d: "disposition_header enc filename disposition [] = Inr h0"
    and h': "h = default_header ''Accept-Ranges'' ''accept-ranges'' ''bytes'' (default_header ''ETag'' ''etag'' (st_etag st)
      (default_header ''Last-Modified'' ''last-modified'' (st_modified st) h0))"
    using assms by (auto simp: build_file_headers_def res_bind_Inr_iff Let_def)
  have h0: "h0 = [] \<or> (\<exists>v. h0 = [(''Content-Disposition'', v)])"
    using d by (auto simp: disposition_header_def res_bind_Inr_iff split: if_splits)
  then have h: "h = dict_set ''Accept-Ranges'' ''bytes'' (dict_set ''ETag'' (st_etag st) (dict_set ''Last-Modified'' (st_modified st) h0))"
    by (auto simp: h' default_header_def)
  have "map_of h ''ETag'' = Some (st_etag st)" "map_of h ''Accept-Ranges'' = Some ''bytes''" using h0 by (auto simp: h)
  then show "header_get h ''ETag'' = Some (st_etag st)" "header_get h ''Accept-Ranges'' = Some ''bytes''"
    by (simp_all add: header_get_def header_key_def)
  show "map_of h ''Content-Length'' = None" "map_of h ''Content-Range'' = None" using h0 by (auto simp: h)
qed

lemma negotiate_honored:
  assumes "header_get h ''ETag'' = Some (st_etag st)" "header_get h ''Accept-Ranges'' = Some ''bytes''"
  shows "negotiate_file_range digit_limit parse_date (Some rq) h (st_size st) (st_mtime st) =
    res_bind (honored digit_limit parse_date st rq) (\<lambda>want. Inr (case want of
        None \<Rightarrow> (True, None)
      | Some span \<Rightarrow> (case resolve_byte_range span (st_size st) of Some r \<Rightarrow> (True, Some r) | None \<Rightarrow> (False, None))))"
proof (cases "fq_range rq")
  case None
  then show ?thesis by (simp add: negotiate_file_range_def honored_def)
next
  case (Some raw)
  show ?thesis
  proof (cases "range_parse digit_limit raw")
    case (Inl e)
    with Some assms show ?thesis by (simp add: negotiate_file_range_def honored_def)
  next
    case (Inr spec)
    with Some assms show ?thesis
      by (cases spec) (auto simp: negotiate_file_range_def honored_def honor_range_def split: option.split prod.split)
  qed
qed

lemma content_range_values:
  "content_range_value None None (Some n) = ''bytes */'' @ str_nat n"
  "content_range_value (Some a) (Some b) (Some n) = ''bytes '' @ str_nat a @ ''-'' @ str_nat b @ ''/'' @ str_nat n"
  by (simp_all add: content_range_value_def)

lemma file_response_serves:
  assumes "build_file_headers enc st filename disposition [] True = Inr h" "st_size st \<le> length data"
    and "honored digit_limit parse_date st rq = Inr want"
  shows "\<exists>a. file_response enc digit_limit parse_date st data filename disposition [] (Some rq) = Inr a \<and> serves st data want a"
proof -
  note b = built_headers [OF assms(1)]
  note n = negotiate_honored [OF b(1,2), of digit_limit parse_date rq]
  show ?thesis
  proof (cases want)
    case None
    have "serves st data None (plain_answer 200 h data)"
      using assms(2) b by (intro serves_200) (simp_all add: plain_answer_def answer_bytes_def)
    with assms None n show ?thesis by (simp add: file_response_def)
  next
    case (Some span)
    show ?thesis
    proof (cases "resolve_byte_range span (st_size st)")
      case None
      then have "serves st data (Some span) (set_content_range None None (Some (st_size st)) (plain_answer 416 h []))"
        using b serves_416 [OF None, of "dict_set ''Content-Range'' (''bytes */'' @ str_nat (st_size st)) h"]
        by (simp add: set_content_range_def plain_answer_def content_range_values update_conv')
      with assms Some None n show ?thesis by (simp add: file_response_def)
    next
      case (Some r)
      obtain s e where r: "r = (s, e)" by (cases r)
      have "serves st data (Some span) (set_content_range (Some s) (Some e) (Some (st_size st)) (plain_answer 206 h (read_at s (e - s + 1) data)))"
        using b Some r assms(2) by (intro serves_206 [of _ _ s e])
          (simp_all add: set_content_range_def plain_answer_def content_range_values update_conv' answer_bytes_def)
      with assms \<open>want = Some span\<close> Some r n show ?thesis by (simp add: file_response_def)
    qed
  qed
qed


lemma file_from_path_serves:
  assumes "build_file_headers enc st filename disposition [] True = Inr h" "st_size st \<le> length data"
    and "honored digit_limit parse_date st rq = Inr want"
  shows "\<exists>a. file_from_path enc digit_limit parse_date st data filename disposition [] (Some rq) = Inr a \<and> serves st data want a"
proof -
  note b = built_headers [OF assms(1)]
  note n = negotiate_honored [OF b(1,2), of digit_limit parse_date rq]
  have chunk: "0 < file_stream_chunk" by (simp add: file_stream_chunk_def)
  note stream = stream_file_bytes [OF chunk]
  show ?thesis
  proof (cases want)
    case None
    have "serves st data None (plain_answer 200 h data)"
      using assms(2) b by (intro serves_200) (simp_all add: plain_answer_def answer_bytes_def)
    moreover have "serves st data None (plain_answer 200 h []\<lparr>an_headers := dict_set ''Content-Length'' (str_nat (st_size st)) h,
        an_stream := Some (stream_file file_stream_chunk (Some (st_size st)) data)\<rparr>)"
      using assms(2) by (intro serves_200) (simp_all add: plain_answer_def answer_bytes_def stream update_conv')
    ultimately show ?thesis using assms None n
      by (cases "st_size st \<le> inline_read_max") (simp_all add: file_from_path_def plain_answer_def Let_def)
  next
    case (Some span)
    show ?thesis
    proof (cases "resolve_byte_range span (st_size st)")
      case None
      then have "serves st data (Some span) (set_content_range None None (Some (st_size st)) (plain_answer 416 h []))"
        using b serves_416 [OF None, of "dict_set ''Content-Range'' (''bytes */'' @ str_nat (st_size st)) h"]
        by (simp add: set_content_range_def plain_answer_def content_range_values update_conv')
      with assms Some None n show ?thesis by (simp add: file_from_path_def)
    next
      case (Some r)
      obtain s e where r: "r = (s, e)" by (cases r)
      let ?mark = "set_content_range (Some s) (Some e) (Some (st_size st))"
      have "serves st data (Some span) (?mark (plain_answer 206 h (read_at s (e - s + 1) data)))"
        using b Some r assms(2) by (intro serves_206 [of _ _ s e])
          (simp_all add: set_content_range_def plain_answer_def content_range_values update_conv' answer_bytes_def)
      moreover have "serves st data (Some span) ((?mark (plain_answer 206 h []))
          \<lparr>an_headers := dict_set ''Content-Length'' (str_nat (e - s + 1)) (an_headers (?mark (plain_answer 206 h []))),
           an_stream := Some (stream_file file_stream_chunk (Some (e - s + 1)) (drop s data))\<rparr>)"
        using b Some r assms(2) by (intro serves_206 [of _ _ s e])
          (simp_all add: set_content_range_def plain_answer_def content_range_values update_conv' answer_bytes_def stream read_at_def)
      ultimately show ?thesis using assms \<open>want = Some span\<close> Some r n
        by (cases "e - s + 1 \<le> inline_read_max") (simp_all add: file_from_path_def Let_def)
    qed
  qed
qed

lemma static_partial_serves:
  assumes "st_size st \<le> length data"
  shows "serves st data (Some span) (static_partial cfg st data span)"
proof -
  have chunk: "0 < static_stream_chunk" by (simp add: static_stream_chunk_def)
  note iter = iter_file_bytes [OF chunk]
  have extra: "map_of (static_extra cfg h) ''Content-Range'' = map_of h ''Content-Range''"
    "map_of (static_extra cfg h) ''Content-Length'' = map_of h ''Content-Length''" for h
    by (simp_all add: static_extra_def Let_def update_conv' split: option.split)
  note agree = resolve_range_agrees [where span = span and fsize = "st_size st"]
  show ?thesis
  proof (cases "resolve_byte_range span (st_size st)")
    case None
    then have "static_partial cfg st data span = plain_answer 416 [(''Content-Range'', ''bytes */'' @ str_nat (st_size st)),
        (''ETag'', st_etag st), (''Last-Modified'', st_modified st), (''Accept-Ranges'', ''bytes'')] []"
      using agree by (auto simp: static_partial_def Let_def split: option.splits prod.splits if_splits)
    with serves_416 [OF None] show ?thesis by simp
  next
    case (Some r)
    obtain s e where r: "r = (s, e)" by (cases r)
    note se = resolved_span(1,2) [OF Some [unfolded r]]
    obtain a b where ab: "resolve_range span (st_size st) = Some (a, b)" "\<not> (a \<ge> int (st_size st) \<or> a > b)" "nat a = s" "nat b = e"
      using agree Some r by (auto split: option.splits prod.splits if_splits)
    have nonneg: "0 \<le> a" "0 \<le> b"
      using ab(1) ab(2) by (auto simp: resolve_range_def Let_def split: option.splits if_splits prod.splits)
    then have ints: "a = int s" "b = int e" using ab(3,4) by simp_all
    have len: "nat (b - a + 1) = e - s + 1" using ints se by simp
    have str: "str_int a = str_nat s" "str_int b = str_nat e" by (simp_all add: ints str_int_def)
    show ?thesis
      using assms Some r ab(1,2) len str ints
      by (intro serves_206 [of _ _ s e])
        (simp_all add: static_partial_def Let_def streamed_def plain_answer_def answer_bytes_def iter read_at_def extra)
  qed
qed

lemma static_whole_serves:
  assumes "st_size st \<le> length data" shows "serves st data None (static_whole cfg st data)"
proof -
  have chunk: "0 < static_stream_chunk" by (simp add: static_stream_chunk_def)
  note iter = iter_file_bytes [OF chunk]
  have "map_of (static_extra cfg h) ''Content-Length'' = map_of h ''Content-Length''" for h
    by (simp add: static_extra_def Let_def update_conv' split: option.split)
  with assms show ?thesis
    by (intro serves_200) (simp_all add: static_whole_def Let_def streamed_def plain_answer_def answer_bytes_def iter)
qed

text \<open>No precondition of the request stands in the way.\<close>

definition unconditional :: "static_request \<Rightarrow> bool" where
  "unconditional rq \<longleftrightarrow> sq_if_match rq = [] \<and> sq_if_none_match rq = []
     \<and> sq_if_unmodified_since rq = None \<and> sq_if_modified_since rq = None"

lemma static_answer_serves:
  assumes "st_size st \<le> length data" "honored digit_limit parse_date st (file_request.truncate rq) = Inr want" "unconditional rq"
  shows "\<exists>a. static_answer digit_limit parse_date cfg st data rq = Inr a \<and> serves st data want a"
proof -
  have fields: "fq_method (file_request.truncate rq) = fq_method rq" "fq_range (file_request.truncate rq) = fq_range rq"
    "fq_if_range (file_request.truncate rq) = fq_if_range rq" by (simp_all add: file_request.truncate_def)
  have pre: "\<not> precondition_failed (sq_if_match rq) (sq_if_unmodified_since rq) (st_etag st) (st_mtime st)"
    "\<not> preconditions_say_unchanged (sq_if_none_match rq) (sq_if_modified_since rq) (st_etag st) (Some (st_mtime st))"
    using assms(3) by (simp_all add: unconditional_def precondition_failed_def preconditions_say_unchanged_def)
  note whole = static_whole_serves [OF assms(1)]
  show ?thesis
  proof (cases "fq_range rq")
    case None
    with assms(2) fields pre whole show ?thesis
      by (cases "fq_method rq = ''GET''") (simp_all add: static_answer_def honored_def range_parse_def)
  next
    case (Some raw)
    show ?thesis
    proof (cases "fq_method rq = ''GET''")
      case False
      with Some assms(2) fields pre whole show ?thesis by (simp add: static_answer_def honored_def)
    next
      case True
      show ?thesis
      proof (cases "range_parse digit_limit raw")
        case (Inl e)
        with Some True assms(2) fields show ?thesis by (simp add: honored_def)
      next
        case (Inr spec)
        with Some True assms(2) fields pre whole show ?thesis
          by (cases spec) (auto simp: static_answer_def honored_def intro: static_partial_serves [OF assms(1)])
      qed
    qed
  qed
qed


section \<open>Property\<close>

text \<open>C14: A range request for a file gets exactly the octets it asks for, whoever serves the file: the
  blocking constructor, the one that reads small slices at once and streams large ones, or the
  handler of static files, which resolves ranges with a routine of its own. The body is the octets at
  the asked positions of the file, \<open>Content-Range\<close> names the first and the last of them, 416 is the
  answer when the file has none, and a range that is not honoured (several, another unit or method,
  a stale \<open>If-Range\<close>) gets the file. A declared length is the length of the body, also when the file
  has grown since its size was read.\<close>

theorem ranges_served_exactly:
  assumes "build_file_headers enc st filename disposition [] True = Inr h" "st_size st \<le> length data"
    and "honored digit_limit parse_date st (file_request.truncate rq) = Inr want" "unconditional rq"
  shows "\<exists>a b c. file_response enc digit_limit parse_date st data filename disposition [] (Some (file_request.truncate rq)) = Inr a
    \<and> file_from_path enc digit_limit parse_date st data filename disposition [] (Some (file_request.truncate rq)) = Inr b
    \<and> static_answer digit_limit parse_date cfg st data rq = Inr c
    \<and> serves st data want a \<and> serves st data want b \<and> serves st data want c"
  using file_response_serves [OF assms(1-3)] file_from_path_serves [OF assms(1-3)] static_answer_serves [OF assms(2-4)] by blast

definition five_bytes :: file_stat where
  "five_bytes = \<lparr>st_size = 5, st_mtime = 7, st_etag = dquote # ''t'' @ [dquote], st_modified = ''then''\<rparr>"

definition last_three :: static_request where
  "last_three = \<lparr>fq_method = ''GET'', fq_range = Some ''bytes=-3'', fq_if_range = Some (dquote # ''t'' @ [dquote]),
     sq_if_match = [], sq_if_none_match = [], sq_if_unmodified_since = None, sq_if_modified_since = None\<rparr>"

theorem ranges_served_exactly_witness:
  "\<exists>a. file_from_path utf8_enc (Some 4300) (\<lambda>_. None) five_bytes [1, 2, 3, 4, 5, 6] (Some ''f.txt'') ''attachment'' []
       (Some (file_request.truncate last_three)) = Inr a \<and> answer_bytes a = [3, 4, 5]"
proof -
  let ?data = "[1, 2, 3, 4, 5, 6] :: bytes"
  obtain h where h: "build_file_headers utf8_enc five_bytes (Some ''f.txt'') ''attachment'' [] True = Inr h"
    by (simp add: build_file_headers_def disposition_header_def format_disposition_def reject_header_crlf_def header_value_has_crlf_def Let_def)
  have "range_parse (Some 4300) ''bytes=-3'' = Inr (Some \<lparr>rg_unit = ''bytes'', rg_ranges = [(None, Some 3)]\<rparr>)" by code_simp
  moreover have "honor_range (\<lambda>_. None) (dquote # ''t'' @ [dquote]) 7 (Some (dquote # ''t'' @ [dquote]))" by code_simp
  ultimately have want: "honored (Some 4300) (\<lambda>_. None) five_bytes (file_request.truncate last_three) = Inr (Some (None, Some 3))"
    by (simp add: honored_def last_three_def five_bytes_def file_request.truncate_def)
  have len: "st_size five_bytes \<le> length ?data" and u: "unconditional last_three"
    by (simp_all add: five_bytes_def unconditional_def last_three_def)
  obtain b where b: "file_from_path utf8_enc (Some 4300) (\<lambda>_. None) five_bytes ?data (Some ''f.txt'') ''attachment'' []
       (Some (file_request.truncate last_three)) = Inr b" "serves five_bytes ?data (Some (None, Some 3)) b"
    using ranges_served_exactly [OF h len want u] by blast
  have "asked 5 (None, Some 3) = {2..4}" by (auto simp: asked_def)
  with b(2) nths_interval [of 4 ?data 2] have "answer_bytes b = [3, 4, 5]" by (simp add: serves_def five_bytes_def read_at_def)
  with b(1) show ?thesis by blast
qed

text \<open>A position with more digits than the interpreter reads raises where every other malformed range is
  skipped.\<close>

theorem long_range_raises:
  "range_parse (Some m) (''bytes='' @ replicate (Suc m) (CHR ''9'') @ ''-'') = Inl ValueError"
proof -
  let ?d = "replicate (Suc m) (CHR ''9'')"
  have nine: "is_digit (CHR ''9'')" "is_ascii (CHR ''9'')" "\<not> is_space (CHR ''9'')" "\<not> is_space (CHR ''-'')"
    by (simp_all add: is_digit_def is_decimal_def is_ascii_def is_space_def)
  have set: "CHR ''='' \<notin> set ''bytes''" "CHR ''-'' \<notin> set ?d" "CHR '','' \<notin> set (?d @ ''-'')" by simp_all
  have strip: "str_strip (?d @ ''-'') = ?d @ ''-''" "str_strip ?d = ?d" "str_strip [] = ([] :: string)"
    using nine by (intro strip_no_space; simp add: list_all_iff)+
  have "is_byte_pos ?d" using nine by (simp add: is_byte_pos_def str_isdigit_def list_all_iff)
  moreover have "partition_on (CHR ''-'') (?d @ CHR ''-'' # []) = (?d, True, [])" by (rule partition_on_sep [OF set(2)])
  moreover have "read_pos (Some m) ?d = Inl ValueError" by (simp add: read_pos_def)
  ultimately have "range_chunk (Some m) (?d @ ''-'') = Inl ValueError"
    unfolding range_chunk_def Let_def strip by (simp add: strip del: replicate.simps)
  moreover have "partition_on (CHR ''='') (''bytes'' @ CHR ''='' # (?d @ ''-'')) = (''bytes'', True, ?d @ ''-'')"
    by (rule partition_on_sep [OF set(1)])
  ultimately show ?thesis
    by (simp add: range_parse_def split_on_single [OF set(3)] del: replicate.simps)
qed

end
