(* ===== verification/Cache_Control.thy ===== *)
theory Cache_Control
  imports Cookies
begin

text \<open>
  The directives of a \<open>Cache-Control\<close> header, after \<open>src/src/veloce/http/cache_control.py\<close>: parsing,
  the attribute view and serialisation.
\<close>

datatype directive = Flag | Seconds int | Text string

type_synonym cache_control = "(string, directive) dict"

definition bool_directives :: "string list" where
  "bool_directives = [''no_cache'', ''no_store'', ''no_transform'', ''must_revalidate'', ''proxy_revalidate'',
     ''public'', ''private'', ''immutable'', ''only_if_cached'']"

definition int_directives :: "string list" where
  "int_directives = [''max_age'', ''s_maxage'', ''min_fresh'', ''max_stale'', ''stale_while_revalidate'', ''stale_if_error'']"

definition to_attr :: "string \<Rightarrow> string" where
  "to_attr name = map (\<lambda>c. if c = CHR ''-'' then CHR ''_'' else c) name"

definition to_wire :: "string \<Rightarrow> string" where
  "to_wire name = map (\<lambda>c. if c = CHR ''_'' then CHR ''-'' else c) name"

definition parse_directive :: "string \<Rightarrow> cache_control \<Rightarrow> cache_control res" where
  "parse_directive t0 d =
     (let t = str_strip t0 in
      if t = [] then Inr d
      else if CHR ''='' \<in> set t then
        (case partition_on (CHR ''='') t of (k0, eq, v0) \<Rightarrow>
           let k = to_attr (str_lower (str_strip k0)); v = unquote_value v0 in
           if k \<in> set int_directives
           then (if str_isdigit v then res_bind (py_int v) (\<lambda>n. Inr (dict_set k (Seconds n) d)) else Inr d)
           else Inr (dict_set k (Text v) d))
      else Inr (dict_set (to_attr (str_lower t)) Flag d))"

fun parse_directives :: "string list \<Rightarrow> cache_control \<Rightarrow> cache_control res" where
  "parse_directives [] d = Inr d"
| "parse_directives (t # ts) d = res_bind (parse_directive t d) (parse_directives ts)"

definition cache_control_parse :: "string option \<Rightarrow> cache_control res" where
  "cache_control_parse header =
     (case header of None \<Rightarrow> Inr [] | Some h \<Rightarrow> if h = [] then Inr [] else parse_directives (split_on (CHR '','') h) [])"

fun directive_text :: "string \<times> directive \<Rightarrow> string" where
  "directive_text (k, Flag) = to_wire k"
| "directive_text (k, Seconds n) = to_wire k @ ''='' @ str_int n"
| "directive_text (k, Text v) = to_wire k @ ''='' @ v"

definition cache_control_header :: "cache_control \<Rightarrow> string" where
  "cache_control_header d = join_str '', '' (map directive_text d)"

text \<open>Reading an attribute: \<open>Inl False\<close> is Python's \<open>False\<close> of an absent flag.\<close>

definition cache_control_get :: "cache_control \<Rightarrow> string \<Rightarrow> bool + directive option" where
  "cache_control_get d name =
     (case map_of d name of
        None \<Rightarrow> if name \<in> set bool_directives then Inl False else Inr None
      | Some v \<Rightarrow> Inr (Some v))"

text \<open>\<open>None\<close> and \<open>False\<close> remove.\<close>

definition cache_control_set :: "string \<Rightarrow> directive option \<Rightarrow> cache_control \<Rightarrow> cache_control" where
  "cache_control_set name v d = (case v of None \<Rightarrow> dict_del name d | Some x \<Rightarrow> dict_set name x d)"

definition cache_control_contains :: "cache_control \<Rightarrow> string \<Rightarrow> bool" where
  "cache_control_contains d name \<longleftrightarrow> map_of d (to_attr name) \<noteq> None"

section \<open>What is written is read back\<close>

definition plain_char_of_token :: "char \<Rightarrow> bool" where
  "plain_char_of_token c \<longleftrightarrow> \<not> is_space c \<and> c \<noteq> CHR '','' \<and> c \<noteq> CHR ''=''"

definition attr_ok :: "string \<Rightarrow> bool" where
  "attr_ok k \<longleftrightarrow> k \<noteq> [] \<and> list_all (\<lambda>c. plain_char_of_token c \<and> c \<noteq> CHR ''-'' \<and> lower_char c = c) k"

text \<open>A directive as parsing leaves it.\<close>

fun directive_ok :: "string \<times> directive \<Rightarrow> bool" where
  "directive_ok (k, Flag) \<longleftrightarrow> attr_ok k"
| "directive_ok (k, Seconds n) \<longleftrightarrow> attr_ok k \<and> k \<in> set int_directives \<and> 0 \<le> n"
| "directive_ok (k, Text v) \<longleftrightarrow> attr_ok k \<and> k \<notin> set int_directives \<and> list_all (\<lambda>c. \<not> is_space c \<and> c \<noteq> CHR '','' \<and> c \<noteq> dquote) v"

lemma to_attr_wire: assumes "attr_ok k" shows "to_attr (str_lower (to_wire k)) = k"
proof -
  have dash: "lower_char (CHR ''-'') = CHR ''-''" by (simp add: lower_char_def is_upper_char_def)
  have step: "(if lower_char (if c = CHR ''_'' then CHR ''-'' else c) = CHR ''-'' then CHR ''_''
      else lower_char (if c = CHR ''_'' then CHR ''-'' else c)) = c" if "c \<in> set k" for c
  proof (cases "c = CHR ''_''")
    case True
    with dash show ?thesis by simp
  next
    case False
    from assms that have "c \<noteq> CHR ''-''" "lower_char c = c" unfolding attr_ok_def list_all_iff by blast+
    with False show ?thesis by (simp only: if_False)
  qed
  show ?thesis unfolding to_attr_def str_lower_def to_wire_def map_map o_def by (rule map_idI) (rule step)
qed

lemma wire_plain:
  assumes "attr_ok k" shows "list_all plain_char_of_token (to_wire k)" "to_wire k \<noteq> []"
proof -
  have "plain_char_of_token (CHR ''-'')" by (simp add: plain_char_of_token_def is_space_def)
  moreover have "list_all plain_char_of_token k" using assms by (simp add: attr_ok_def list_all_iff)
  ultimately show "list_all plain_char_of_token (to_wire k)" unfolding to_wire_def by (induction k) simp_all
  show "to_wire k \<noteq> []" using assms by (simp add: attr_ok_def to_wire_def)
qed

lemma plain_wire_facts:
  assumes "list_all plain_char_of_token w"
  shows "CHR ''='' \<notin> set w" "CHR '','' \<notin> set w" "str_strip w = w"
proof -
  show "CHR ''='' \<notin> set w" "CHR '','' \<notin> set w" using assms unfolding list_all_iff plain_char_of_token_def by blast+
  show "str_strip w = w" using assms unfolding plain_char_of_token_def by (intro strip_no_space) (simp add: list_all_iff)
qed


lemma join_comma:
  "list_all (\<lambda>w. CHR '','' \<notin> set w) (w # ws) \<Longrightarrow>
     split_on (CHR '','') (join_str '', '' (w # ws)) = w # map ((#) (CHR '' '')) ws"
proof (induction ws arbitrary: w)
  case (Cons v ws)
  then have "split_on (CHR '','') (w @ CHR '','' # CHR '' '' # join_str '', '' (v # ws))
      = w # split_on (CHR '','') (CHR '' '' # join_str '', '' (v # ws))"
    by (intro split_on_append_sep) simp
  with Cons show ?case by simp
qed (simp add: split_on_single)

text \<open>A directive with a value, read back.\<close>

lemma parse_valued:
  assumes "attr_ok k" "list_all (\<lambda>c. \<not> is_space c \<and> c \<noteq> CHR '','' \<and> c \<noteq> dquote) v"
    and "t = to_wire k @ ''='' @ v \<or> t = CHR '' '' # to_wire k @ ''='' @ v"
  shows "parse_directive t d =
     (if k \<in> set int_directives
      then (if str_isdigit v then res_bind (py_int v) (\<lambda>n. Inr (dict_set k (Seconds n) d)) else Inr d)
      else Inr (dict_set k (Text v) d))"
proof -
  note w = plain_wire_facts [OF wire_plain(1) [OF assms(1)]]
  have v: "list_all (\<lambda>c. \<not> is_space c) v" "dquote \<notin> set v" using assms(2) unfolding list_all_iff by blast+
  have "\<not> is_space (CHR ''='')" by (simp add: is_space_def)
  moreover have "list_all (\<lambda>c. \<not> is_space c) (to_wire k)"
    using wire_plain(1) [OF assms(1)] unfolding list_all_iff plain_char_of_token_def by blast
  ultimately have "str_strip (to_wire k @ ''='' @ v) = to_wire k @ ''='' @ v" using v(1) by (intro strip_no_space) simp
  then have t: "str_strip t = to_wire k @ CHR ''='' # v" using assms(3) by (auto simp: strip_leading_space)
  have part: "partition_on (CHR ''='') (to_wire k @ CHR ''='' # v) = (to_wire k, True, v)" by (rule partition_on_sep [OF w(1)])
  with v have "unquote_value v = v" by (simp add: unquote_value_def strip_no_space strip_char_absent)
  with t part w(3) to_attr_wire [OF assms(1)] show ?thesis by (simp add: parse_directive_def)
qed

lemma parse_flag:
  assumes "attr_ok k" "t = to_wire k \<or> t = CHR '' '' # to_wire k"
  shows "parse_directive t d = Inr (dict_set k Flag d)"
proof -
  note w = plain_wire_facts [OF wire_plain(1) [OF assms(1)]]
  have "str_strip t = to_wire k" using assms(2) w(3) by (auto simp: strip_leading_space)
  with w(1) wire_plain(2) [OF assms(1)] to_attr_wire [OF assms(1)] show ?thesis by (simp add: parse_directive_def)
qed

lemma decimal_value:
  "list_all (\<lambda>c. \<not> is_space c \<and> c \<noteq> CHR '','' \<and> c \<noteq> dquote) (str_nat n)" "str_isdigit (str_nat n)"
proof -
  have "is_decimal c \<Longrightarrow> \<not> is_space c \<and> c \<noteq> CHR '','' \<and> c \<noteq> dquote" for c by (auto simp: is_decimal_def is_space_def)
  then show "list_all (\<lambda>c. \<not> is_space c \<and> c \<noteq> CHR '','' \<and> c \<noteq> dquote) (str_nat n)"
    using str_nat_decimal [of n] by (auto simp: list_all_iff)
  have "str_nat n \<noteq> []" by (subst str_nat.simps) simp
  then show "str_isdigit (str_nat n)"
    using str_nat_decimal [of n] by (auto simp: str_isdigit_def list_all_iff is_digit_def)
qed

lemma parse_directive_text:
  assumes "directive_ok p" "t = directive_text p \<or> t = CHR '' '' # directive_text p"
  shows "parse_directive t d = Inr (dict_set (fst p) (snd p) d)"
  using assms
proof (cases p rule: directive_text.cases)
  case (1 k)
  with assms parse_flag show ?thesis by simp
next
  case (2 k n)
  with assms parse_valued [of k "str_nat (nat n)" t d] decimal_value [of "nat n"] show ?thesis by (auto simp: str_int_def)
next
  case (3 k v)
  with assms parse_valued [of k v t d] show ?thesis by auto
qed

lemma text_no_comma:
  assumes "directive_ok p" shows "CHR '','' \<notin> set (directive_text p)"
proof -
  have "attr_ok k \<Longrightarrow> CHR '','' \<notin> set (to_wire k)" for k using plain_wire_facts(2) wire_plain(1) by blast
  with assms show ?thesis using decimal_value(1)
    by (cases p rule: directive_text.cases) (auto simp: str_int_def list_all_iff)
qed

lemma parse_directives_texts:
  assumes "list_all2 (\<lambda>t p. t = directive_text p \<or> t = CHR '' '' # directive_text p) ts ps" "list_all directive_ok ps"
    and "distinct (map fst (d @ ps))"
  shows "parse_directives ts d = Inr (d @ ps)"
  using assms
proof (induction ts ps arbitrary: d rule: list_all2_induct)
  case (Cons t ts p ps)
  have "fst p \<notin> fst ` set d" using Cons.prems(2) by auto
  then have new: "dict_set (fst p) (snd p) d = d @ [p]" by (induction d) auto
  have "distinct (map fst ((d @ [p]) @ ps))" using Cons.prems(2) by auto
  with Cons.IH [of "d @ [p]"] Cons.prems(1) parse_directive_text [OF _ Cons.hyps(1)] new show ?case by simp
qed simp

text \<open>A parsed value is written and read back as it is, in its order.\<close>

lemma cache_control_roundtrip:
  assumes "list_all directive_ok d" "distinct (map fst d)"
  shows "cache_control_parse (Some (cache_control_header d)) = Inr d"
proof (cases d)
  case Nil
  then show ?thesis by (simp add: cache_control_parse_def cache_control_header_def)
next
  case (Cons p ps)
  have "list_all (\<lambda>w. CHR '','' \<notin> set w) (map directive_text d)"
    using assms(1) text_no_comma by (auto simp: list_all_iff)
  with Cons have split: "split_on (CHR '','') (cache_control_header d) = directive_text p # map ((#) (CHR '' '')) (map directive_text ps)"
    by (simp only: cache_control_header_def list.map join_comma)
  have "directive_text p \<noteq> []"
    using assms(1) Cons wire_plain(2) by (cases p rule: directive_text.cases) auto
  then have "cache_control_header d \<noteq> []" using Cons by (cases ps) (simp_all add: cache_control_header_def)
  with split parse_directives_texts [of "directive_text p # map ((#) (CHR '' '')) (map directive_text ps)" d "[]"] assms Cons
  show ?thesis by (simp add: cache_control_parse_def list_all2_map1 list_all2_same)
qed

text \<open>A superscript digit passes \<open>isdigit\<close> and is refused by \<open>int\<close>, where other malformed values are
  dropped.\<close>

theorem superscript_seconds_raise:
  "cache_control_parse (Some (''max-age='' @ [char_of (178 :: nat)])) = Inl ValueError"
  by code_simp

end
