(* ===== verification/Safe_Paths.thy ===== *)
theory Safe_Paths
  imports Header_Parsing
begin

text \<open>
  Names and paths from outside, after \<open>src/src/veloce/safe.py\<close>: \<open>safe_join\<close> over the POSIX
  \<open>os.path\<close>, with \<open>join\<close>, \<open>normpath\<close> and \<open>abspath\<close> of the standard library, and \<open>secure_filename\<close>.
  The working directory and the Unicode normalisation are arguments.
\<close>

section \<open>POSIX paths\<close>

abbreviation slash :: char where "slash \<equiv> CHR ''/''"

definition is_abs :: "string \<Rightarrow> bool" where
  "is_abs p \<longleftrightarrow> starts_with [slash] p"

definition path_add :: "string \<Rightarrow> string \<Rightarrow> string" where
  "path_add path b =
     (if is_abs b then b else if path = [] \<or> ends_with [slash] path then path @ b else path @ slash # b)"

definition path_join :: "string \<Rightarrow> string list \<Rightarrow> string" where
  "path_join a bs = foldl path_add a bs"

definition initial_slashes :: "string \<Rightarrow> nat" where
  "initial_slashes p =
     (if \<not> is_abs p then 0 else if starts_with ''//'' p \<and> \<not> starts_with ''///'' p then 2 else 1)"

fun norm_step :: "bool \<Rightarrow> string list \<Rightarrow> string \<Rightarrow> string list" where
  "norm_step rooted st c =
     (if c = [] \<or> c = ''.'' then st
      else if c \<noteq> ''..'' \<or> (\<not> rooted \<and> st = []) \<or> (st \<noteq> [] \<and> last st = ''..'') then st @ [c]
      else if st \<noteq> [] then butlast st else st)"

definition normpath :: "string \<Rightarrow> string" where
  "normpath p =
     (if p = [] then ''.''
      else let n = initial_slashes p;
               q = replicate n slash @ join_on slash (foldl (norm_step (n > 0)) [] (split_on slash p))
           in if q = [] then ''.'' else q)"

definition abspath :: "string \<Rightarrow> string \<Rightarrow> string" where
  "abspath cwd p = normpath (if is_abs p then p else path_join cwd [p])"

section \<open>The operations\<close>

definition safe_join :: "string \<Rightarrow> string \<Rightarrow> string list \<Rightarrow> string option" where
  "safe_join cwd directory paths =
     (if directory = [] then None
      else let base = abspath cwd directory in
        if list_ex (\<lambda>c. CHR 0x00 \<in> set c \<or> is_abs c) paths then None
        else let joined = abspath cwd (path_join base paths);
                 pre = (if ends_with [slash] base then base else base @ [slash])
             in if joined = base then Some joined
                else if starts_with pre joined then Some joined else None)"

definition win_reserved :: "string list" where
  "win_reserved = [''CON'', ''PRN'', ''AUX'', ''NUL'', ''CONIN$'', ''CONOUT$'']
     @ map (\<lambda>n. ''COM'' @ str_nat n) [1..<10] @ map (\<lambda>n. ''LPT'' @ str_nat n) [1..<10]"

definition strip_set :: "string \<Rightarrow> string \<Rightarrow> string" where
  "strip_set cs s = rev (dropWhile (\<lambda>c. c \<in> set cs) (rev (dropWhile (\<lambda>c. c \<in> set cs) s)))"

definition rstrip_set :: "string \<Rightarrow> string \<Rightarrow> string" where
  "rstrip_set cs s = rev (dropWhile (\<lambda>c. c \<in> set cs) (rev s))"

definition is_reserved_device :: "string \<Rightarrow> bool" where
  "is_reserved_device segment \<longleftrightarrow>
     str_upper (rstrip_set '' .'' (fst (partition_on (CHR ''.'') segment))) \<in> set win_reserved"

definition filename_char :: "char \<Rightarrow> bool" where
  "filename_char c \<longleftrightarrow> is_decimal c \<or> (65 \<le> code c \<and> code c \<le> 90) \<or> (97 \<le> code c \<and> code c \<le> 122)
     \<or> c \<in> set ''_.-''"

text \<open>Runs of underscores become one.\<close>

fun underscore_runs :: "string \<Rightarrow> string" where
  "underscore_runs (c # d # s) =
     (if c = CHR ''_'' \<and> d = CHR ''_'' then underscore_runs (d # s) else c # underscore_runs (d # s))"
| "underscore_runs s = s"

definition secure_filename :: "(string \<Rightarrow> string) \<Rightarrow> string \<Rightarrow> string" where
  "secure_filename nfkd name =
     (if name = [] then []
      else let ascii = filter is_ascii (nfkd name);
               flat = map (\<lambda>c. if c = slash \<or> c = backslash then CHR ''_'' else c) ascii;
               valid = map (\<lambda>c. if filename_char c then c else CHR ''_'') flat;
               short = underscore_runs (strip_set ''._ '' valid)
           in if short = [] then []
              else if is_reserved_device short then CHR ''_'' # short else short)"

section \<open>Components\<close>

text \<open>The components of an absolute path after normalisation.\<close>

definition walk_to :: "string list \<Rightarrow> string list \<Rightarrow> string list" where
  "walk_to st cs = foldl (norm_step True) st cs"

definition plain_component :: "string \<Rightarrow> bool" where
  "plain_component c \<longleftrightarrow> c \<noteq> [] \<and> c \<noteq> ''.'' \<and> c \<noteq> ''..'' \<and> slash \<notin> set c"

lemma walk_plain:
  "list_all plain_component st \<Longrightarrow> list_all (\<lambda>c. slash \<notin> set c) cs \<Longrightarrow> list_all plain_component (walk_to st cs)"
proof (induction cs arbitrary: st)
  case (Cons c cs)
  have "list_all plain_component (butlast st)" using Cons.prems(1) by (auto simp: list_all_iff dest: in_set_butlastD)
  with Cons.prems have "list_all plain_component (norm_step True st c)"
    by (auto simp: plain_component_def list_all_iff)
  with Cons show ?case by (simp add: walk_to_def del: norm_step.simps)
qed (simp add: walk_to_def)

lemma walk_empty: "walk_to st ([] # cs) = walk_to st cs"
  by (simp add: walk_to_def)

lemma walk_append: "walk_to st (xs @ ys) = walk_to (walk_to st xs) ys"
  by (simp add: walk_to_def)

lemma walk_filter: "walk_to st (filter (\<lambda>c. c \<noteq> []) cs) = walk_to st cs"
  by (induction cs arbitrary: st) (simp_all add: walk_to_def)

lemma walk_done: "list_all plain_component cs \<Longrightarrow> list_all plain_component st \<Longrightarrow> walk_to st cs = st @ cs"
proof (induction cs arbitrary: st)
  case (Cons c cs)
  then have "norm_step True st c = st @ [c]" by (simp add: plain_component_def)
  with Cons show ?case by (simp add: walk_to_def del: norm_step.simps)
qed (simp add: walk_to_def)


definition parts :: "string \<Rightarrow> string list" where
  "parts p = filter (\<lambda>c. c \<noteq> []) (split_on slash p)"

lemma parts_no_slash: "list_all (\<lambda>c. slash \<notin> set c) (parts p)"
  using split_on_no_sep by (auto simp: parts_def list_all_iff)

lemma is_abs_iff: "is_abs p \<longleftrightarrow> (\<exists>q. p = slash # q)"
  by (cases p) (auto simp: is_abs_def starts_with_def)

lemma ends_slash: "ends_with [slash] p \<longleftrightarrow> (\<exists>q. p = q @ [slash])"
proof
  assume "ends_with [slash] p"
  then show "\<exists>q. p = q @ [slash]"
    by (intro exI [of _ "take (length p - 1) p"]) (metis One_nat_def append_take_drop_id ends_with_def length_Cons list.size(3))
qed (auto simp: ends_with_def)

lemma parts_add: "\<not> is_abs b \<Longrightarrow> parts (path_add a b) = parts a @ parts b"
proof -
  assume b: "\<not> is_abs b"
  consider "a = []" | q where "a = q @ [slash]" | "a \<noteq> []" "\<not> ends_with [slash] a" by (auto simp: ends_slash)
  then show ?thesis
  proof cases
    case 1
    with b show ?thesis by (simp add: path_add_def parts_def)
  next
    case 2
    then have "ends_with [slash] a" by (auto simp: ends_slash)
    with b 2 show ?thesis using split_on_append [of slash q b] split_on_append [of slash q "[]"]
      by (simp add: path_add_def parts_def)
  next
    case 3
    with b show ?thesis by (simp add: path_add_def parts_def split_on_append)
  qed
qed

lemma parts_join: "list_all (\<lambda>c. \<not> is_abs c) bs \<Longrightarrow> parts (path_join a bs) = parts a @ concat (map parts bs)"
  by (induction bs arbitrary: a) (simp_all add: path_join_def parts_add)

text \<open>The slashes that a path begins with.\<close>

definition lead :: "string \<Rightarrow> nat" where
  "lead p = length (takeWhile (\<lambda>c. c = slash) p)"

lemma initial_slashes_lead: "initial_slashes p = (if lead p = 0 then 0 else if lead p = 2 then 2 else 1)"
proof -
  consider "p = []" | c where "p = [c]" | c d where "p = [c, d]" | c d e q where "p = c # d # e # q"
    by (metis list.exhaust)
  then show ?thesis
    by cases (auto simp: initial_slashes_def lead_def is_abs_def starts_with_def)
qed

lemma lead_abs: "is_abs p \<longleftrightarrow> 0 < lead p"
  by (cases p) (auto simp: is_abs_def lead_def starts_with_def)

lemma lead_add:
  assumes "is_abs a" "\<not> is_abs b" shows "lead (path_add a b) = lead a"
proof (cases "\<exists>c \<in> set a. c \<noteq> slash")
  case True
  then have "takeWhile (\<lambda>c. c = slash) (a @ x) = takeWhile (\<lambda>c. c = slash) a" for x by (auto intro: takeWhile_append1)
  with assms show ?thesis by (auto simp: path_add_def lead_def is_abs_iff)
next
  case False
  then have "takeWhile (\<lambda>c. c = slash) (a @ b) = a @ takeWhile (\<lambda>c. c = slash) b" by (auto intro: takeWhile_append2)
  moreover have "takeWhile (\<lambda>c. c = slash) a = a" using False by (simp add: takeWhile_eq_all_conv)
  then have "length (takeWhile (\<lambda>c. c = slash) a) = length a" by (rule arg_cong)
  moreover obtain q where q: "a = slash # q" using assms(1) by (auto simp: is_abs_iff)
  have "last a = slash" using False q last_in_set [of a] by blast
  then have "ends_with [slash] a" using q append_butlast_last_id [of a] unfolding ends_slash by (metis list.distinct(1))
  moreover have "takeWhile (\<lambda>c. c = slash) b = []" using assms(2) by (cases b) (auto simp: is_abs_iff)
  ultimately show ?thesis using assms(2) by (simp add: path_add_def lead_def)
qed

lemma join_lead:
  assumes "is_abs a" "list_all (\<lambda>c. \<not> is_abs c) bs"
  shows "lead (path_join a bs) = lead a \<and> is_abs (path_join a bs)"
  using assms
proof (induction bs arbitrary: a)
  case (Cons b bs)
  then have "lead (path_add a b) = lead a" by (simp add: lead_add)
  with Cons show ?case by (simp add: path_join_def lead_abs)
qed (simp add: path_join_def)

text \<open>An absolute path in its normal form: one or two slashes, then plain components.\<close>

definition rooted :: "nat \<Rightarrow> string list \<Rightarrow> string" where
  "rooted n cs = replicate n slash @ join_on slash cs"

lemma normpath_abs:
  assumes "is_abs p" shows "normpath p = rooted (initial_slashes p) (walk_to [] (parts p))" "0 < initial_slashes p"
proof -
  show n: "0 < initial_slashes p" using assms by (simp add: initial_slashes_def)
  have "p \<noteq> []" using assms by (auto simp: is_abs_iff)
  moreover have "foldl (norm_step True) [] (split_on slash p) = walk_to [] (parts p)"
    by (simp add: parts_def walk_filter) (simp add: walk_to_def)
  ultimately show "normpath p = rooted (initial_slashes p) (walk_to [] (parts p))"
    using n by (simp add: normpath_def rooted_def Let_def)
qed

lemma parts_rooted: "list_all plain_component cs \<Longrightarrow> parts (rooted n cs) = cs"
proof -
  assume cs: "list_all plain_component cs"
  have "split_on slash (replicate n slash @ s) = replicate n [] @ split_on slash s" for s by (induction n) simp_all
  moreover have "filter (\<lambda>c. c \<noteq> []) (split_on slash (join_on slash cs)) = cs"
  proof (cases "cs = []")
    case False
    then have "split_on slash (join_on slash cs) = cs"
      using cs by (intro split_on_join_on) (auto simp: list_all_iff plain_component_def)
    with cs show ?thesis by (simp add: list_all_iff plain_component_def)
  qed simp
  ultimately show ?thesis by (simp add: parts_def rooted_def)
qed

lemma plain_hd: "plain_component c \<Longrightarrow> c \<noteq> [] \<and> hd c \<noteq> slash"
  by (cases c) (auto simp: plain_component_def)

lemma lead_rooted: "list_all plain_component cs \<Longrightarrow> lead (rooted n cs) = n"
proof -
  assume cs: "list_all plain_component cs"
  then have "takeWhile (\<lambda>c. c = slash) (join_on slash cs) = []"
    by (induction slash cs rule: join_on.induct) (auto simp: takeWhile_eq_Nil_iff hd_append dest!: plain_hd)
  moreover have "takeWhile (\<lambda>c. c = slash) (replicate n slash @ s) = replicate n slash @ takeWhile (\<lambda>c. c = slash) s" for s
    by (induction n) simp_all
  ultimately show ?thesis by (simp add: lead_def rooted_def)
qed


section \<open>Below a directory\<close>

lemma join_on_append:
  "A \<noteq> [] \<Longrightarrow> C \<noteq> [] \<Longrightarrow> join_on d (A @ C) = join_on d A @ d # join_on d C"
proof (induction d A rule: join_on.induct)
  case (2 d w)
  then show ?case by (cases C) simp_all
qed simp_all

lemma rooted_append: "A \<noteq> [] \<Longrightarrow> C \<noteq> [] \<Longrightarrow> rooted n (A @ C) = rooted n A @ slash # join_on slash C"
  by (simp add: rooted_def join_on_append)

lemma rooted_inj: "list_all plain_component A \<Longrightarrow> list_all plain_component B \<Longrightarrow> rooted n A = rooted n B \<Longrightarrow> A = B"
  using parts_rooted by metis

lemma ends_rooted:
  assumes "list_all plain_component A" "0 < n" shows "ends_with [slash] (rooted n A) \<longleftrightarrow> A = []"
proof
  assume "ends_with [slash] (rooted n A)"
  then obtain q where q: "rooted n A = q @ [slash]" by (auto simp: ends_slash)
  show "A = []"
  proof (rule ccontr)
    assume "A \<noteq> []"
    then have "split_on slash (join_on slash A) = A"
      using assms(1) by (intro split_on_join_on) (auto simp: list_all_iff plain_component_def)
    moreover have "last (rooted n A) = slash" using q by simp
    moreover have "join_on slash A \<noteq> []" using \<open>A \<noteq> []\<close> assms(1) by (cases A; cases "tl A") (auto simp: plain_component_def)
    ultimately have "last (join_on slash A) = slash" by (simp add: rooted_def)
    then obtain r where "join_on slash A = r @ [slash]"
      using \<open>join_on slash A \<noteq> []\<close> append_butlast_last_id by metis
    then have "A = split_on slash r @ [[]]" using \<open>split_on slash (join_on slash A) = A\<close> split_on_append [of slash r "[]"] by simp
    with assms(1) show False by (simp add: plain_component_def)
  qed
next
  assume "A = []"
  with assms(2) show "ends_with [slash] (rooted n A)"
    by (cases n) (auto simp: rooted_def ends_slash replicate_append_same [symmetric])
qed

lemma below_iff:
  assumes "list_all plain_component A" "list_all plain_component B" "0 < n"
  shows "(rooted n B = rooted n A \<or> starts_with (if ends_with [slash] (rooted n A) then rooted n A else rooted n A @ [slash]) (rooted n B))
    \<longleftrightarrow> (\<exists>rest. B = A @ rest)"
proof (cases "A = []")
  case True
  have "starts_with (rooted n []) (rooted n B)" by (simp add: rooted_def starts_with_def)
  with True ends_rooted [OF assms(1,3)] show ?thesis by simp
next
  case False
  have "starts_with (rooted n A @ [slash]) (rooted n B) \<longleftrightarrow> (\<exists>rest. rest \<noteq> [] \<and> B = A @ rest)"
  proof
    assume "starts_with (rooted n A @ [slash]) (rooted n B)"
    then obtain x where "rooted n B = (rooted n A @ [slash]) @ x" unfolding starts_with_def by (metis append_take_drop_id)
    then have x: "join_on slash B = join_on slash A @ slash # x" by (simp add: rooted_def)
    then have "B \<noteq> []" by auto
    then have "B = split_on slash (join_on slash B)"
      using assms(2) by (intro split_on_join_on [symmetric]) (auto simp: list_all_iff plain_component_def)
    also have "\<dots> = split_on slash (join_on slash A) @ split_on slash x" by (simp add: x split_on_append)
    also have "split_on slash (join_on slash A) = A"
      using assms(1) False by (intro split_on_join_on) (auto simp: list_all_iff plain_component_def)
    finally show "\<exists>rest. rest \<noteq> [] \<and> B = A @ rest" by (metis split_on_nonempty)
  next
    assume "\<exists>rest. rest \<noteq> [] \<and> B = A @ rest"
    then obtain rest where "rest \<noteq> []" "B = A @ rest" by blast
    with False show "starts_with (rooted n A @ [slash]) (rooted n B)" by (simp add: rooted_append starts_with_def)
  qed
  moreover have "rooted n B = rooted n A \<longleftrightarrow> B = A" using rooted_inj assms(1,2) by blast
  ultimately show ?thesis using ends_rooted [OF assms(1,3)] False by auto
qed


lemma abspath_rooted:
  assumes "is_abs cwd" "d \<noteq> []"
  obtains n where "abspath cwd d = rooted n (walk_to [] (parts (path_add cwd d)))" "n = 1 \<or> n = 2"
proof -
  have abs: "is_abs (path_add cwd d)" using assms(1) lead_add [OF assms(1), of d] by (auto simp: lead_abs path_add_def)
  have "abspath cwd d = normpath (path_add cwd d)" by (simp add: abspath_def path_join_def path_add_def)
  moreover have "initial_slashes (path_add cwd d) = 1 \<or> initial_slashes (path_add cwd d) = 2"
    using abs by (simp add: initial_slashes_def)
  ultimately show thesis using that normpath_abs(1) [OF abs] by metis
qed

text \<open>The path below a directory by plain components.\<close>

definition below :: "string \<Rightarrow> string list \<Rightarrow> string" where
  "below base rest = path_join base rest"

lemma below_rooted:
  assumes "list_all plain_component A" "list_all plain_component rest" "0 < n"
  shows "below (rooted n A) rest = rooted n (A @ rest)"
  using assms(1,2)
proof (induction rest arbitrary: A)
  case (Cons c rest)
  have c: "\<not> is_abs c" "c \<noteq> []" using Cons.prems(2) by (auto simp: is_abs_iff plain_component_def)
  have ne: "rooted n A \<noteq> []" using assms(3) by (simp add: rooted_def)
  have "path_add (rooted n A) c = rooted n (A @ [c])"
  proof (cases "A = []")
    case True
    with ends_rooted [OF Cons.prems(1) assms(3)] c show ?thesis by (simp add: path_add_def rooted_def)
  next
    case False
    with ends_rooted [OF Cons.prems(1) assms(3)] c ne show ?thesis by (simp add: path_add_def rooted_append)
  qed
  with Cons.IH [of "A @ [c]"] Cons.prems show ?case by (simp add: below_def path_join_def)
qed (simp add: below_def path_join_def)

section \<open>Joining\<close>

lemma safe_join_iff:
  assumes "is_abs cwd" "directory \<noteq> []"
  shows "safe_join cwd directory paths = Some p \<longleftrightarrow>
    list_all (\<lambda>c. CHR 0x00 \<notin> set c \<and> \<not> is_abs c) paths
    \<and> (\<exists>rest. walk_to (parts (abspath cwd directory)) (concat (map parts paths)) = parts (abspath cwd directory) @ rest
         \<and> list_all plain_component rest \<and> p = below (abspath cwd directory) rest)"
proof -
  obtain n where base: "abspath cwd directory = rooted n (walk_to [] (parts (path_add cwd directory)))" and n: "n = 1 \<or> n = 2"
    by (rule abspath_rooted [OF assms])
  define A where "A = walk_to [] (parts (path_add cwd directory))"
  have A: "list_all plain_component A" unfolding A_def by (rule walk_plain) (simp_all add: parts_no_slash)
  have n0: "0 < n" using n by auto
  define B where "B = walk_to A (concat (map parts paths))"
  have "list_all (\<lambda>c. slash \<notin> set c) (concat (map parts paths))" using parts_no_slash by (auto simp: list_all_iff)
  then have B: "list_all plain_component B" unfolding B_def by (intro walk_plain A)
  have pA: "parts (rooted n A) = A" by (rule parts_rooted [OF A])
  have ok: "list_ex (\<lambda>c. CHR 0x00 \<in> set c \<or> is_abs c) paths \<longleftrightarrow> \<not> list_all (\<lambda>c. CHR 0x00 \<notin> set c \<and> \<not> is_abs c) paths"
    by (auto simp: list_ex_iff list_all_iff)
  have absA: "is_abs (rooted n A)" using n0 by (simp add: lead_abs lead_rooted [OF A])
  have joined: "abspath cwd (path_join (rooted n A) paths) = rooted n B"
    if "list_all (\<lambda>c. CHR 0x00 \<notin> set c \<and> \<not> is_abs c) paths"
  proof -
    have rel: "list_all (\<lambda>c. \<not> is_abs c) paths" using that by (simp add: list_all_iff)
    note j = join_lead [OF absA rel]
    have "initial_slashes (path_join (rooted n A) paths) = n"
      using j n by (auto simp: initial_slashes_lead lead_rooted [OF A])
    moreover have "walk_to [] (parts (path_join (rooted n A) paths)) = B"
      using walk_done [OF A, of "[]"] by (simp add: parts_join [OF rel] pA walk_append B_def)
    ultimately show ?thesis using j normpath_abs(1) [of "path_join (rooted n A) paths"] by (simp add: abspath_def)
  qed
  have "safe_join cwd directory paths = Some p \<longleftrightarrow> list_all (\<lambda>c. CHR 0x00 \<notin> set c \<and> \<not> is_abs c) paths
      \<and> (\<exists>rest. B = A @ rest) \<and> p = rooted n B"
    using joined below_iff [OF A B n0] assms(2) unfolding safe_join_def base A_def [symmetric] Let_def ok by auto
  also have "\<dots> \<longleftrightarrow> list_all (\<lambda>c. CHR 0x00 \<notin> set c \<and> \<not> is_abs c) paths
      \<and> (\<exists>rest. B = A @ rest \<and> list_all plain_component rest \<and> p = below (rooted n A) rest)"
    using B below_rooted [OF A _ n0] by auto
  finally show ?thesis unfolding base A_def [symmetric] pA B_def .
qed

section \<open>File names\<close>

lemma underscore_runs_facts:
  "set (underscore_runs s) \<subseteq> set s" "s \<noteq> [] \<Longrightarrow> underscore_runs s \<noteq> [] \<and> hd (underscore_runs s) = hd s"
proof -
  show "set (underscore_runs s) \<subseteq> set s" by (induction s rule: underscore_runs.induct) auto
  show "s \<noteq> [] \<Longrightarrow> underscore_runs s \<noteq> [] \<and> hd (underscore_runs s) = hd s"
    by (induction s rule: underscore_runs.induct) auto
qed

lemma strip_set_facts:
  "set (strip_set cs s) \<subseteq> set s" "strip_set cs s \<noteq> [] \<Longrightarrow> hd (strip_set cs s) \<notin> set cs"
proof -
  let ?t = "dropWhile (\<lambda>c. c \<in> set cs) s"
  have suffix: "\<exists>z. u = rev (dropWhile P (rev u)) @ z" for u :: string and P
  proof -
    have "rev u = takeWhile P (rev u) @ dropWhile P (rev u)" by simp
    then have "u = rev (dropWhile P (rev u)) @ rev (takeWhile P (rev u))" by (metis rev_append rev_rev_ident)
    then show ?thesis by blast
  qed
  obtain z where z: "?t = strip_set cs s @ z" using suffix [of ?t "\<lambda>c. c \<in> set cs"] by (auto simp: strip_set_def)
  have "set (strip_set cs s) \<subseteq> set ?t" by (subst z) simp
  then show "set (strip_set cs s) \<subseteq> set s" using set_dropWhileD by fast
  show "hd (strip_set cs s) \<notin> set cs" if "strip_set cs s \<noteq> []"
  proof -
    have "?t \<noteq> []" "hd ?t = hd (strip_set cs s)" using z that by simp_all
    with hd_dropWhile [of "\<lambda>c. c \<in> set cs" s] show ?thesis by simp
  qed
qed

lemma reserved_no_underscore: "is_reserved_device (CHR ''_'' # s) = False"
proof -
  have "hd w \<noteq> CHR ''_''" if "w \<in> set win_reserved" for w
    using that by (auto simp: win_reserved_def)
  moreover have "\<exists>t. str_upper (rstrip_set '' .'' (fst (partition_on (CHR ''.'') (CHR ''_'' # s)))) = CHR ''_'' # t"
  proof -
    have "fst (partition_on (CHR ''.'') (CHR ''_'' # s)) = CHR ''_'' # takeWhile ((\<noteq>) (CHR ''.'')) s" by (simp add: partition_on_def)
    moreover have "\<exists>t. rstrip_set '' .'' (CHR ''_'' # x) = CHR ''_'' # t" for x
      by (auto simp: rstrip_set_def dropWhile_append) (metis rev_rev_ident)
    moreover have "str_upper (CHR ''_'' # t) = CHR ''_'' # str_upper t" for t by (simp add: str_upper_def upper_char_def)
    ultimately show ?thesis by metis
  qed
  ultimately show ?thesis unfolding is_reserved_device_def by (metis list.sel(1))
qed

lemma secure_filename_facts:
  assumes "secure_filename nfkd name = f" "f \<noteq> []"
  shows "list_all filename_char f" "hd f \<noteq> CHR ''.''" "\<not> is_reserved_device f"
proof -
  define valid where "valid = map (\<lambda>c. if filename_char c then c else CHR ''_'')
    (map (\<lambda>c. if c = slash \<or> c = backslash then CHR ''_'' else c) (filter is_ascii (nfkd name)))"
  define short where "short = underscore_runs (strip_set ''._ '' valid)"
  have f: "short \<noteq> []" "f = (if is_reserved_device short then CHR ''_'' # short else short)"
    using assms by (auto simp: secure_filename_def Let_def valid_def short_def split: if_splits)
  have under: "filename_char (CHR ''_'')" by (simp add: filename_char_def)
  then have "list_all filename_char (map (\<lambda>c. if filename_char c then c else CHR ''_'') xs)" for xs by (induction xs) simp_all
  then have "list_all filename_char valid" unfolding valid_def by blast
  then have "list_all filename_char short"
    using underscore_runs_facts(1) [of "strip_set ''._ '' valid"] strip_set_facts(1) [of "''._ ''" valid]
    unfolding short_def list_all_iff by blast
  with under show "list_all filename_char f" by (simp add: f(2))
  have "strip_set ''._ '' valid \<noteq> []" using f(1) by (auto simp: short_def)
  then have "hd short \<notin> set ''._ ''"
    using underscore_runs_facts(2) strip_set_facts(2) unfolding short_def by metis
  then show "hd f \<noteq> CHR ''.''" by (simp add: f(2))
  show "\<not> is_reserved_device f" by (simp add: f(2) reserved_no_underscore)
qed

text \<open>A sanitised name is one file in the directory it is joined to.\<close>

lemma secure_upload:
  assumes "is_abs cwd" "directory \<noteq> []" "secure_filename nfkd name \<noteq> []"
  shows "safe_join cwd directory [secure_filename nfkd name] = Some (below (abspath cwd directory) [secure_filename nfkd name])"
proof -
  let ?f = "secure_filename nfkd name"
  note facts = secure_filename_facts [OF refl assms(3)]
  have "\<not> filename_char slash" "\<not> filename_char (CHR 0x00)" by (simp_all add: filename_char_def is_decimal_def)
  then have chars: "slash \<notin> set ?f" "CHR 0x00 \<notin> set ?f" using facts(1) unfolding list_all_iff by blast+
  then have plain: "plain_component ?f" using assms(3) facts(2) by (auto simp: plain_component_def)
  have rel: "\<not> is_abs ?f" using chars(1) by (auto simp: is_abs_iff)
  have parts: "parts ?f = [?f]" using assms(3) by (simp add: parts_def split_on_single [OF chars(1)])
  obtain n where base: "abspath cwd directory = rooted n (walk_to [] (parts (path_add cwd directory)))"
    by (rule abspath_rooted [OF assms(1,2)])
  have "list_all plain_component (walk_to [] (parts (path_add cwd directory)))" by (rule walk_plain) (simp_all add: parts_no_slash)
  then have A: "list_all plain_component (parts (abspath cwd directory))" by (simp add: base parts_rooted)
  have "walk_to (parts (abspath cwd directory)) [?f] = parts (abspath cwd directory) @ [?f]"
    using walk_done [OF _ A, of "[?f]"] plain by simp
  with chars rel parts plain show ?thesis by (subst safe_join_iff [OF assms(1,2)]) simp
qed

section \<open>Properties\<close>

text \<open>C13: \<open>safe_join\<close> never leaves its directory, and refuses nothing that stays inside: it answers a path
  exactly when no argument is absolute or holds a NUL and the walk along all components, with \<open>..\<close>
  going up and \<open>.\<close> staying, ends in the directory or below it; the answer is the directory followed
  by the components of that place, none of which is \<open>.\<close>, \<open>..\<close> or empty.\<close>

theorem safe_join_exact:
  assumes "is_abs cwd" "directory \<noteq> []"
  shows "safe_join cwd directory paths = Some p \<longleftrightarrow>
    list_all (\<lambda>c. CHR 0x00 \<notin> set c \<and> \<not> is_abs c) paths
    \<and> (\<exists>rest. walk_to (parts (abspath cwd directory)) (concat (map parts paths)) = parts (abspath cwd directory) @ rest
         \<and> list_all plain_component rest \<and> p = below (abspath cwd directory) rest)"
  by (rule safe_join_iff [OF assms])

theorem safe_join_exact_witness:
  "safe_join ''/srv'' ''static'' [''css/../a'', ''./b.css''] = Some ''/srv/static/a/b.css''
   \<and> safe_join ''/srv'' ''static'' [''../static2/x''] = None"
proof
  have base: "abspath ''/srv'' ''static'' = ''/srv/static''" by code_simp
  have facts: "walk_to (parts ''/srv/static'') (concat (map parts [''css/../a'', ''./b.css''])) = parts ''/srv/static'' @ [''a'', ''b.css'']"
    "list_all plain_component [''a'', ''b.css'']" "''/srv/static/a/b.css'' = below ''/srv/static'' [''a'', ''b.css'']"
    "list_all (\<lambda>c. CHR 0x00 \<notin> set c \<and> \<not> is_abs c) [''css/../a'', ''./b.css'']" by code_simp+
  have cwd: "is_abs ''/srv''" and dir: "''static'' \<noteq> []" by code_simp+
  show "safe_join ''/srv'' ''static'' [''css/../a'', ''./b.css''] = Some ''/srv/static/a/b.css''"
    by (rule iffD2 [OF safe_join_exact [OF cwd dir]], rule conjI [OF facts(4)], unfold base,
        rule exI [of _ "[''a'', ''b.css'']"], intro conjI facts(1,2,3))
  show "safe_join ''/srv'' ''static'' [''../static2/x''] = None" by code_simp
qed

end
