(* ===== verification/Event_Store.thy ===== *)
theory Event_Store
  imports Py_Base
begin

text \<open>
  The replay buffer behind resumable streams, after
  \<open>src/src/veloce/contrib/mcp/transports/event_store.py\<close>: a bounded ring of events per stream, in a
  dictionary of streams in the order of their last activity.
\<close>

type_synonym 'p stored_event = "nat \<times> string \<times> 'p"

record 'p event_store =
  es_streams :: "(string, 'p stored_event list) dict"
  es_max_streams :: nat

definition max_events_per_stream :: nat where "max_events_per_stream = 256"
definition max_streams :: nat where "max_streams = 1024"

definition event_store_init :: "nat \<Rightarrow> 'p event_store" where
  "event_store_init cap = \<lparr>es_streams = [], es_max_streams = cap\<rparr>"

definition event_id :: "string \<Rightarrow> nat \<Rightarrow> string" where
  "event_id stream seqno = stream @ ''.'' @ str_nat seqno"

text \<open>A \<open>deque\<close> with \<open>maxlen\<close> drops from the other end.\<close>

definition ring_append :: "'p stored_event \<Rightarrow> 'p stored_event list \<Rightarrow> 'p stored_event list" where
  "ring_append e ring = drop (length ring + 1 - max_events_per_stream) (ring @ [e])"

definition record_event :: "string \<Rightarrow> nat \<Rightarrow> 'p \<Rightarrow> 'p event_store \<Rightarrow> string \<times> 'p event_store" where
  "record_event stream seqno payload st =
     (let eid = event_id stream seqno;
          streams1 = (case map_of (es_streams st) stream of
             None \<Rightarrow> (let d = es_streams st @ [(stream, [])] in drop (length d - es_max_streams st) d)
           | Some ring \<Rightarrow> dict_del stream (es_streams st) @ [(stream, ring)]);
          streams2 = (case map_of streams1 stream of
             None \<Rightarrow> streams1
           | Some ring \<Rightarrow> dict_set stream (ring_append (seqno, eid, payload) ring) streams1)
      in (eid, st\<lparr>es_streams := streams2\<rparr>))"

definition replay_after :: "string \<Rightarrow> 'p event_store \<Rightarrow> (string \<times> 'p) list" where
  "replay_after last_event_id st =
     (case rpartition_on (CHR ''.'') last_event_id of
        (stream, sep, raw_seq) \<Rightarrow>
          if \<not> sep then []
          else (case map_of (es_streams st) stream of
                  None \<Rightarrow> []
                | Some ring \<Rightarrow>
                    (case py_int raw_seq of
                       Inl e \<Rightarrow> []
                     | Inr after \<Rightarrow> map (\<lambda>(n, eid, p). (eid, p)) (filter (\<lambda>(n, eid, p). int n > after) ring))))"

text \<open>What the server records, in order.\<close>

definition record_all :: "(string \<times> nat \<times> 'p) list \<Rightarrow> 'p event_store \<Rightarrow> 'p event_store" where
  "record_all es st = fold (\<lambda>(s, n, p). snd \<circ> record_event s n p) es st"

section \<open>Invariant\<close>

text \<open>Streams are distinct and within the cap, rings within theirs.\<close>

definition streams_ok :: "'p event_store \<Rightarrow> bool" where
  "streams_ok st \<longleftrightarrow> distinct (map fst (es_streams st)) \<and> length (es_streams st) \<le> es_max_streams st
     \<and> list_all (\<lambda>(s, ring). length ring \<le> max_events_per_stream) (es_streams st)"


lemma filter_del: "dict_del k d = filter (\<lambda>p. k \<noteq> fst p) d"
  by (simp add: AList.delete_eq case_prod_unfold)

lemma dict_set_last: "k \<notin> fst ` set d \<Longrightarrow> dict_set k v (d @ [(k, w)]) = d @ [(k, v)]"
  by (induction d) auto

lemma del_absent: "k \<notin> fst ` set d \<Longrightarrow> dict_del k d = d"
  unfolding filter_del by (rule filter_True) auto

text \<open>What recording does to the streams: the stream comes last, with its ring or an empty one.\<close>

definition old_ring :: "string \<Rightarrow> 'p event_store \<Rightarrow> 'p stored_event list" where
  "old_ring s st = (case map_of (es_streams st) s of None \<Rightarrow> [] | Some r \<Rightarrow> r)"

lemma record_streams:
  assumes "0 < es_max_streams st"
  shows "es_streams (snd (record_event s n p st)) =
    drop (if s \<in> fst ` set (es_streams st) then 0 else length (es_streams st) + 1 - es_max_streams st)
      (dict_del s (es_streams st)) @ [(s, ring_append (n, event_id s n, p) (old_ring s st))]"
    "es_max_streams (snd (record_event s n p st)) = es_max_streams st"
proof -
  let ?d = "es_streams st"
  show "es_max_streams (snd (record_event s n p st)) = es_max_streams st" by (simp add: record_event_def Let_def)
  show "es_streams (snd (record_event s n p st)) =
    drop (if s \<in> fst ` set ?d then 0 else length ?d + 1 - es_max_streams st)
      (dict_del s ?d) @ [(s, ring_append (n, event_id s n, p) (old_ring s st))]"
  proof (cases "map_of ?d s")
    case None
    then have s: "s \<notin> fst ` set ?d" by (simp add: map_of_eq_None_iff)
    let ?k = "length ?d + 1 - es_max_streams st"
    have k: "drop ?k (?d @ [(s, [])]) = drop ?k ?d @ [(s, [])]" using assms by simp
    have s': "s \<notin> fst ` set (drop ?k ?d)" using s set_drop_subset by fastforce
    then have "map_of (drop ?k ?d @ [(s, [])]) s = Some []" by (simp add: map_add_Some_iff map_of_eq_None_iff)
    with None s k dict_set_last [OF s'] show ?thesis
      by (simp add: record_event_def Let_def old_ring_def del_absent)
  next
    case (Some ring)
    then have s: "s \<in> fst ` set ?d" by (metis domI dom_map_of_conv_image_fst)
    have s': "s \<notin> fst ` set (dict_del s ?d)" by (auto simp: filter_del)
    then have "map_of (dict_del s ?d @ [(s, ring)]) s = Some ring" by (simp add: map_add_Some_iff map_of_eq_None_iff)
    with Some s dict_set_last [OF s'] show ?thesis by (simp add: record_event_def Let_def old_ring_def)
  qed
qed

lemma ring_append_length: "length ring \<le> max_events_per_stream \<Longrightarrow> length (ring_append e ring) \<le> max_events_per_stream"
  by (simp add: ring_append_def max_events_per_stream_def)

lemma distinct_drop_del: "distinct (map fst d) \<Longrightarrow> distinct (map fst (drop k (dict_del s d) @ [(s, r)]))"
proof -
  assume "distinct (map fst d)"
  then have "distinct (map fst (drop k (dict_del s d)))" by (simp add: filter_del distinct_map_filter drop_map [symmetric])
  moreover have "s \<notin> fst ` set (drop k (dict_del s d))" using set_drop_subset by (fastforce simp: filter_del)
  ultimately show ?thesis by simp
qed

lemma record_ok:
  assumes "streams_ok st" "0 < es_max_streams st" shows "streams_ok (snd (record_event s n p st))"
proof -
  note shape = record_streams [OF assms(2), of s n p]
  have d: "distinct (map fst (es_streams st))" "length (es_streams st) \<le> es_max_streams st"
    and rings: "\<And>t r. (t, r) \<in> set (es_streams st) \<Longrightarrow> length r \<le> max_events_per_stream"
    using assms(1) by (auto simp: streams_ok_def list_all_iff)
  have "length (old_ring s st) \<le> max_events_per_stream"
    using rings [of s] by (auto simp: old_ring_def dest: map_of_SomeD split: option.split)
  then have r: "length (ring_append (n, event_id s n, p) (old_ring s st)) \<le> max_events_per_stream" by (rule ring_append_length)
  have len: "length (dict_del s (es_streams st)) + (if s \<in> fst ` set (es_streams st) then 1 else 0) \<le> length (es_streams st)"
  proof (cases "s \<in> fst ` set (es_streams st)")
    case True
    then have "length (dict_del s (es_streams st)) < length (es_streams st)"
      unfolding filter_del by (auto intro: length_filter_less)
    then show ?thesis by simp
  qed (simp add: filter_del)
  have "list_all (\<lambda>(t, r). length r \<le> max_events_per_stream) (drop k (dict_del s (es_streams st)))" for k
    using rings set_drop_subset by (fastforce simp: list_all_iff filter_del)
  moreover have "length (es_streams (snd (record_event s n p st))) \<le> es_max_streams st"
    using len d(2) assms(2) by (cases "s \<in> fst ` set (es_streams st)") (simp_all add: shape)
  ultimately show ?thesis using distinct_drop_del [OF d(1)] r by (simp add: streams_ok_def shape)
qed


section \<open>What a resume replays\<close>

definition last_n :: "nat \<Rightarrow> 'a list \<Rightarrow> 'a list" where
  "last_n k xs = drop (length xs - k) xs"

lemma last_n_append: "last_n k (a @ b) = drop (length a + length b - k) a @ last_n k b"
proof -
  have "length a + length b - k - length a = length b - k" by simp
  then show ?thesis by (simp add: last_n_def)
qed

lemma last_n_snoc:
  assumes "0 < k" shows "last_n k (last_n k xs @ [x]) = last_n k (xs @ [x])"
proof (cases "length xs < k")
  case True
  then show ?thesis by (simp add: last_n_def)
next
  case False
  then have len: "length (last_n k xs) = k" by (simp add: last_n_def)
  have "last_n k (last_n k xs @ [x]) = drop 1 (last_n k xs) @ [x]" using assms by (simp add: last_n_append len) (simp add: last_n_def)
  also have "drop 1 (last_n k xs) = drop (length xs + 1 - k) xs" using False by (simp add: last_n_def Suc_diff_le)
  also have "\<dots> @ [x] = last_n k (xs @ [x])" using assms by (simp add: last_n_append) (simp add: last_n_def)
  finally show ?thesis .
qed

definition events_of :: "string \<Rightarrow> (string \<times> nat \<times> 'p) list \<Rightarrow> 'p stored_event list" where
  "events_of s es = map (\<lambda>(t, n, p). (n, event_id t n, p)) (filter (\<lambda>(t, n, p). t = s) es)"

text \<open>The ring of the stream: events the client has, then the last of those recorded since.\<close>

definition ring_since :: "nat \<Rightarrow> 'p stored_event list \<Rightarrow> 'p stored_event list \<Rightarrow> bool" where
  "ring_since n missed ring \<longleftrightarrow>
     (\<exists>olds. ring = olds @ last_n max_events_per_stream missed \<and> list_all (\<lambda>(m, eid, p). m \<le> n) olds)"

definition follows :: "string \<Rightarrow> nat \<Rightarrow> (string \<times> nat \<times> 'p) list \<Rightarrow> 'p event_store \<Rightarrow> bool" where
  "follows s n done st \<longleftrightarrow> streams_ok st \<and> ring_since n (events_of s done) (old_ring s st)
     \<and> (events_of s done \<noteq> [] \<longrightarrow> (\<exists>xs ring ys. es_streams st = xs @ (s, ring) # ys
          \<and> fst ` set ys \<subseteq> fst ` set done - {s}))"


lemma ring_since_append:
  assumes "ring_since n missed ring" shows "ring_since n (missed @ [e]) (ring_append e ring)"
proof -
  let ?k = max_events_per_stream
  have k: "0 < ?k" by (simp add: max_events_per_stream_def)
  obtain olds where r: "ring = olds @ last_n ?k missed" "list_all (\<lambda>(m, eid, p). m \<le> n) olds"
    using assms by (auto simp: ring_since_def)
  have "ring_append e ring = last_n ?k (olds @ (last_n ?k missed @ [e]))" by (simp add: ring_append_def r(1) last_n_def)
  also have "\<dots> = drop (length olds + length (last_n ?k missed @ [e]) - ?k) olds @ last_n ?k (missed @ [e])"
    unfolding last_n_append [of ?k olds] last_n_snoc [OF k] ..
  finally have "ring_append e ring = drop (length olds + length (last_n ?k missed @ [e]) - ?k) olds @ last_n ?k (missed @ [e])" .
  moreover have "list_all (\<lambda>(m, eid, p). m \<le> n) (drop j olds)" for j
    using r(2) set_drop_subset by (fastforce simp: list_all_iff)
  ultimately show ?thesis unfolding ring_since_def by blast
qed

lemma events_of_snoc:
  "events_of s (done @ [(t, m, p)]) = events_of s done @ (if t = s then [(m, event_id s m, p)] else [])"
  by (simp add: events_of_def)

text \<open>A stream among the most recently active ones survives the activity of another.\<close>

lemma other_stream_kept:
  assumes "streams_ok st" "es_streams st = xs @ (s, ring) # ys" "fst ` set ys \<subseteq> D - {s}" "t \<noteq> s"
    and "finite D" "card (insert t D - {s}) < es_max_streams st"
  shows "\<exists>xs' ys'. es_streams (snd (record_event t m p st)) = xs' @ (s, ring) # ys' \<and> fst ` set ys' \<subseteq> insert t D - {s}"
    "old_ring s (snd (record_event t m p st)) = ring"
proof -
  have cap: "0 < es_max_streams st" using assms(6) by simp
  note shape = record_streams [OF cap, of t m p]
  let ?d = "es_streams st" and ?st = "snd (record_event t m p st)"
  let ?k = "if t \<in> fst ` set ?d then 0 else length ?d + 1 - es_max_streams st"
  let ?last = "(t, ring_append (m, event_id t m, p) (old_ring t st))"
  have dist: "distinct (map fst ?d)" using assms(1) by (simp add: streams_ok_def)
  have del: "dict_del t ?d = dict_del t xs @ (s, ring) # dict_del t ys" using assms(2,4) by (simp add: filter_del)
  have k: "?k \<le> length (dict_del t xs)"
  proof (cases "t \<in> fst ` set ?d")
    case False
    have "distinct (map fst ys)" "t \<notin> fst ` set ys" using dist False assms(2) by auto
    then have "length ys + 1 = card (insert t (fst ` set ys))"
      by (metis List.finite_set Suc_eq_plus1 card_insert_disjoint distinct_card length_map list.set_map)
    also have "\<dots> \<le> card (insert t D - {s})" using assms(3-5) by (intro card_mono) auto
    finally have "length ys + 1 < es_max_streams st" using assms(6) by simp
    moreover have "dict_del t xs = xs" using False assms(2) by (intro del_absent) auto
    ultimately show ?thesis using assms(2) False by simp
  qed simp
  have streams: "es_streams ?st = drop ?k (dict_del t xs) @ (s, ring) # (dict_del t ys @ [?last])"
    unfolding shape(1) del using k by simp
  have "fst ` set (dict_del t ys @ [?last]) \<subseteq> insert t D - {s}" using assms(3,4) by (auto simp: filter_del)
  with streams show "\<exists>xs' ys'. es_streams ?st = xs' @ (s, ring) # ys' \<and> fst ` set ys' \<subseteq> insert t D - {s}" by blast
  have "distinct (map fst (es_streams ?st))" using record_ok [OF assms(1) cap] by (simp add: streams_ok_def)
  then have "map_of (es_streams ?st) s = Some ring" using streams by (intro map_of_is_SomeI) simp_all
  then show "old_ring s ?st = ring" by (simp add: old_ring_def)
qed


lemma old_ring_record:
  assumes "streams_ok st" "0 < es_max_streams st"
  shows "old_ring s (snd (record_event s m p st)) = ring_append (m, event_id s m, p) (old_ring s st)"
    "t \<noteq> s \<Longrightarrow> old_ring s (snd (record_event t m p st)) \<in> {old_ring s st, []}"
proof -
  have dist: "distinct (map fst (es_streams st))" using assms(1) by (simp add: streams_ok_def)
  have ok: "distinct (map fst (es_streams (snd (record_event t m p st))))" for t
    using record_ok [OF assms] by (simp add: streams_ok_def)
  have "map_of (es_streams (snd (record_event s m p st))) s = Some (ring_append (m, event_id s m, p) (old_ring s st))"
    by (rule map_of_is_SomeI [OF ok]) (simp add: record_streams(1) [OF assms(2)])
  then show "old_ring s (snd (record_event s m p st)) = ring_append (m, event_id s m, p) (old_ring s st)"
    by (simp add: old_ring_def)
  assume t: "t \<noteq> s"
  show "old_ring s (snd (record_event t m p st)) \<in> {old_ring s st, []}"
  proof (cases "map_of (es_streams (snd (record_event t m p st))) s")
    case None
    then show ?thesis by (simp add: old_ring_def)
  next
    case (Some r)
    then have "(s, r) \<in> set (es_streams (snd (record_event t m p st)))" by (rule map_of_SomeD)
    then have "(s, r) \<in> set (es_streams st)"
      using t set_drop_subset by (fastforce simp: record_streams(1) [OF assms(2)] filter_del split: if_splits)
    with dist have "map_of (es_streams st) s = Some r" by simp
    with Some show ?thesis by (simp add: old_ring_def)
  qed
qed

lemma follows_record:
  assumes "follows s n done st" "es_max_streams st = cap" "card (insert t (fst ` set done) - {s}) < cap" "t = s \<Longrightarrow> n < m"
  shows "follows s n (done @ [(t, m, p)]) (snd (record_event t m p st))"
proof -
  have cap: "0 < es_max_streams st" using assms(2,3) by simp
  have ok: "streams_ok st" and since: "ring_since n (events_of s done) (old_ring s st)" using assms(1) by (simp_all add: follows_def)
  note ok' = record_ok [OF ok cap, of t m p] and rings = old_ring_record [OF ok cap]
  show ?thesis
  proof (cases "t = s")
    case True
    have "es_streams (snd (record_event s m p st)) =
      drop (if s \<in> fst ` set (es_streams st) then 0 else length (es_streams st) + 1 - es_max_streams st) (dict_del s (es_streams st))
        @ (s, ring_append (m, event_id s m, p) (old_ring s st)) # []" by (rule record_streams(1) [OF cap])
    moreover have "fst ` set ([] :: (string \<times> 'a stored_event list) list) \<subseteq> fst ` set (done @ [(s, m, p)]) - {s}" by simp
    ultimately have "\<exists>xs ring ys. es_streams (snd (record_event s m p st)) = xs @ (s, ring) # ys
        \<and> fst ` set ys \<subseteq> fst ` set (done @ [(s, m, p)]) - {s}" by blast
    with ok' True ring_since_append [OF since] rings(1) show ?thesis by (simp add: follows_def events_of_snoc)
  next
    case False
    show ?thesis
    proof (cases "events_of s done = []")
      case True
      then have "ring_since n [] (old_ring s (snd (record_event t m p st)))"
        using rings(2) [OF False, of m p] since by (auto simp: ring_since_def last_n_def)
      with ok' False True show ?thesis by (simp add: follows_def events_of_snoc)
    next
      case nonempty: False
      then obtain xs ring ys where at: "es_streams st = xs @ (s, ring) # ys" "fst ` set ys \<subseteq> fst ` set done - {s}"
        using assms(1) by (auto simp: follows_def)
      have "distinct (map fst (es_streams st))" using ok by (simp add: streams_ok_def)
      then have "map_of (es_streams st) s = Some ring" using at(1) by (intro map_of_is_SomeI) simp_all
      then have "old_ring s st = ring" by (simp add: old_ring_def)
      note kept = other_stream_kept [OF ok at False _ assms(3) [folded assms(2)], of m p]
      have "fst ` set (done @ [(t, m, p)]) = insert t (fst ` set done)" by auto
      with kept(1) have "\<exists>xs ring ys. es_streams (snd (record_event t m p st)) = xs @ (s, ring) # ys
          \<and> fst ` set ys \<subseteq> fst ` set (done @ [(t, m, p)]) - {s}" by (simp only:) blast
      with ok' False nonempty since kept(2) \<open>old_ring s st = ring\<close> show ?thesis
        unfolding follows_def events_of_snoc by simp
    qed
  qed
qed

lemma record_all_snoc: "record_all (es @ [(t, m, p)]) st = snd (record_event t m p (record_all es st))"
  by (simp add: record_all_def)

lemma record_all_cap:
  assumes "0 < es_max_streams st" shows "es_max_streams (record_all es st) = es_max_streams st"
proof (induction es rule: rev_induct)
  case (snoc e es)
  obtain t m p where "e = (t, m, p)" by (cases e)
  with snoc assms show ?case by (simp only: record_all_snoc record_streams(2))
qed (simp add: record_all_def)

lemma reachable_ring:
  assumes "0 < cap" "\<forall>m p. (s, m, p) \<in> set pre \<longrightarrow> m \<le> n"
  shows "follows s n [] (record_all pre (event_store_init cap))"
  using assms(2)
proof (induction pre rule: rev_induct)
  case Nil
  show ?case by (simp add: follows_def record_all_def event_store_init_def streams_ok_def old_ring_def events_of_def ring_since_def
    last_n_def)
next
  case (snoc e pre)
  obtain t m p where e: "e = (t, m, p)" by (cases e)
  let ?st = "record_all pre (event_store_init cap)"
  have cap: "0 < es_max_streams ?st"
    using record_all_cap [of "event_store_init cap" pre] assms(1) by (simp add: event_store_init_def)
  have ih: "streams_ok ?st" "list_all (\<lambda>(m, eid, p). m \<le> n) (old_ring s ?st)"
    using snoc by (auto simp: follows_def events_of_def ring_since_def last_n_def)
  have "list_all (\<lambda>(m, eid, p). m \<le> n) (old_ring s (snd (record_event t m p ?st)))"
  proof (cases "t = s")
    case True
    with snoc.prems e have "m \<le> n" by auto
    with ih(2) set_drop_subset show ?thesis unfolding True old_ring_record(1) [OF ih(1) cap] ring_append_def
      by (fastforce simp: list_all_iff)
  next
    case False
    with ih(2) old_ring_record(2) [OF ih(1) cap False, of m p] show ?thesis by auto
  qed
  with record_ok [OF ih(1) cap] show ?case
    by (simp add: e record_all_snoc follows_def events_of_def ring_since_def last_n_def)
qed


lemma follows_all:
  assumes "follows s n [] st" "es_max_streams st = cap" "0 < cap" "card (fst ` set es - {s}) < cap"
    and "\<forall>m p. (s, m, p) \<in> set es \<longrightarrow> n < m"
  shows "follows s n es (record_all es st)"
  using assms(4,5)
proof (induction es rule: rev_induct)
  case Nil
  with assms(1) show ?case by (simp add: record_all_def)
next
  case (snoc e es)
  obtain t m p where e: "e = (t, m, p)" by (cases e)
  have set: "fst ` set (es @ [e]) = insert t (fst ` set es)" by (auto simp: e)
  have "card (fst ` set es - {s}) \<le> card (insert t (fst ` set es) - {s})" by (intro card_mono) auto
  then have ih: "follows s n es (record_all es st)" using snoc set by auto
  have "es_max_streams (record_all es st) = cap" using record_all_cap assms(2,3) by blast
  from follows_record [OF ih this] snoc.prems set e show ?case by (simp add: record_all_snoc)
qed

lemma rpartition_id: "rpartition_on (CHR ''.'') (event_id s n) = (s, True, str_nat n)"
proof -
  have "\<not> is_decimal (CHR ''.'')" by (simp add: is_decimal_def)
  then have d: "CHR ''.'' \<notin> set (str_nat n)" using str_nat_decimal [of n] unfolding list_all_iff by blast
  have r: "rev (event_id s n) = rev (str_nat n) @ CHR ''.'' # rev s" by (simp add: event_id_def)
  have t: "takeWhile ((\<noteq>) (CHR ''.'')) (rev (str_nat n) @ CHR ''.'' # rev s) = rev (str_nat n)"
    "dropWhile ((\<noteq>) (CHR ''.'')) (rev (str_nat n) @ CHR ''.'' # rev s) = CHR ''.'' # rev s"
    using d by (subst takeWhile_append2 dropWhile_append2; auto)+
  show ?thesis unfolding rpartition_on_def r t by (simp add: event_id_def)
qed

section \<open>Property\<close>

text \<open>C16: A client that reconnects with the identifier of the last event it has is replayed the events of
  its stream that were recorded since, all of them, in order, and none of another stream, up to the
  last 256, whatever other streams did meanwhile, as long as fewer other streams than the cap
  were active.\<close>

theorem resume_replays_missed:
  assumes "0 < cap" "\<forall>m p. (s, m, p) \<in> set pre \<longrightarrow> m \<le> n" "\<forall>m p. (s, m, p) \<in> set post \<longrightarrow> n < m"
    and "card (fst ` set post - {s}) < cap"
  shows "replay_after (event_id s n) (record_all (pre @ post) (event_store_init cap))
    = last_n max_events_per_stream (map (\<lambda>(t, m, p). (event_id t m, p)) (filter (\<lambda>(t, m, p). t = s) post))"
proof -
  let ?start = "record_all pre (event_store_init cap)"
  let ?st = "record_all (pre @ post) (event_store_init cap)"
  have cap: "es_max_streams ?start = cap"
    using record_all_cap [of "event_store_init cap" pre] assms(1) by (simp add: event_store_init_def)
  have "?st = record_all post ?start" by (simp add: record_all_def)
  with follows_all [OF reachable_ring [OF assms(1,2)] cap assms(1,4,3)] have
    "ring_since n (events_of s post) (old_ring s ?st)" by (simp add: follows_def)
  then obtain olds where ring: "old_ring s ?st = olds @ last_n max_events_per_stream (events_of s post)"
    and olds: "list_all (\<lambda>(m, eid, p). m \<le> n) olds" by (auto simp: ring_since_def)
  have "list_all (\<lambda>(m, eid, p). n < m) (events_of s post)" using assms(3) by (auto simp: events_of_def list_all_iff)
  then have "list_all (\<lambda>(m, eid, p). n < m) (last_n k (events_of s post))" for k
    using set_drop_subset by (fastforce simp: last_n_def list_all_iff)
  then have "filter (\<lambda>(m, eid, p). int m > int n) (last_n k (events_of s post)) = last_n k (events_of s post)" for k
    by (intro filter_True) (auto simp: list_all_iff)
  moreover have "filter (\<lambda>(m, eid, p). int m > int n) olds = []" using olds by (auto simp: list_all_iff filter_empty_conv)
  ultimately have new: "filter (\<lambda>(m, eid, p). int m > int n) (old_ring s ?st) = last_n max_events_per_stream (events_of s post)"
    by (simp add: ring)
  have "replay_after (event_id s n) ?st = map (\<lambda>(m, eid, p). (eid, p)) (filter (\<lambda>(m, eid, p). int m > int n) (old_ring s ?st))"
    by (simp add: replay_after_def rpartition_id old_ring_def split: option.split)
  also have "\<dots> = last_n max_events_per_stream (map (\<lambda>(t, m, p). (event_id t m, p)) (filter (\<lambda>(t, m, p). t = s) post))"
    unfolding new by (simp add: last_n_def drop_map [symmetric] events_of_def case_prod_unfold o_def)
  finally show ?thesis .
qed

theorem resume_replays_missed_witness:
  "replay_after ''a.1'' (record_all ([(''a'', 1, ''x''), (''b'', 1, ''u'')] @ [(''b'', 2, ''v''), (''a'', 2, ''y''), (''a'', 3, ''z'')])
     (event_store_init 2)) = [(''a.2'', ''y''), (''a.3'', ''z'')]"
proof -
  let ?pre = "[(''a'', 1 :: nat, ''x''), (''b'', 1, ''u'')]" and ?post = "[(''b'', 2 :: nat, ''v''), (''a'', 2, ''y''), (''a'', 3, ''z'')]"
  have others: "fst ` set ?post - {''a''} = {''b''}" by auto
  have "replay_after (event_id ''a'' 1) (record_all (?pre @ ?post) (event_store_init 2))
    = last_n max_events_per_stream (map (\<lambda>(t, m, p). (event_id t m, p)) (filter (\<lambda>(t, m, p). t = ''a'') ?post))"
    by (rule resume_replays_missed) (auto simp: others)
  moreover have "event_id ''a'' 1 = ''a.1''" "event_id ''a'' 2 = ''a.2''" "event_id ''a'' 3 = ''a.3''" by code_simp+
  ultimately show ?thesis by (simp add: last_n_def max_events_per_stream_def)
qed

end
