(* ===== verification/Spec2Isabelle.thy ===== *)
theory Spec2Isabelle
  imports Router_Claims Result_Cache Rate_Limit Proxy_Fix Cors Mcp_Tasks Ws_Claims Server_Session Pagination Cookie_Session Sliding_Log Hardening Rate_Middleware Py_Code Dispatch Dispatch_Teardown Dispatch_Phases Py_Sim Dispatch_Claims First_Request Body_Source Dependencies Csrf Sse Ranges Cache_Control Safe_Paths Event_Store
begin

text \<open>
  \<^bold>\<open>Veloce, an ASGI web framework, in Isabelle/HOL.\<close> The sources are under \<open>src/src/veloce\<close>; paths
  below are relative to it.

  \<^bold>\<open>The program.\<close> A server (\<open>serving/\<close>, or any ASGI server) turns a connection into requests and
  WebSockets. The application (\<open>app/\<close>) runs a chain of middleware (\<open>middleware/\<close>) around the
  dispatch of a request: the router (\<open>routing/\<close>) maps path and method to a route record, the plan of
  the handler binds its parameters, the handler's result becomes a response (\<open>http/\<close>). Beside it
  stand services the handlers use (cache, rate limits, sessions, signed tokens) and the server of
  the Model Context Protocol (\<open>contrib/mcp/\<close>), which offers routes as tools.

  \<^bold>\<open>How it is modelled.\<close> Strings are lists of 8-bit characters, the Latin-1 text that header bytes
  are decoded to; a \<open>dict\<close> is an association list in insertion order; an exception is the left side
  of a sum; an object is a record and an operation on it returns it updated, also where the
  operation raises after it wrote. Clocks and random choices are arguments. Third-party code (the
  multidict, regular expressions, JSON, HMAC, the text codecs) is a parameter; what is relied on is a
  named hypothesis of the theorem, such as \<open>codec\<close>.

  \<^bold>\<open>The theories.\<close>

  \<^item> \<open>Py_Base\<close>: exceptions, strings, dictionaries, integers and their printing, the check for line
    breaks in header values (\<open>_internal.py\<close>); the simp collections \<open>py_str_simps\<close>, \<open>py_dict_simps\<close>.
  \<^item> \<open>Converters\<close> (\<open>routing/converters.py\<close>): the converters, the registry, the scanner of
    placeholders, and which templates need a regular expression.
  \<^item> \<open>Radix_Tree\<close> (\<open>routing/_node.py\<close>, the tree part of \<open>routing/router.py\<close>): nodes, insertion, the
    backtracking search, the map of literal routes. \<open>Radix_Search\<close> states the search against the
    relation \<open>accepts\<close> of all ways to consume a path; \<open>Radix_Wf\<close> the shape of every tree.
  \<^item> \<open>Route_Info\<close> (\<open>routing/route_info.py\<close>): the record of a route, its defaults and when two
    registrations are the same one. \<open>Router\<close>: registration, merging of sub-routers, matching, the
    Allow header. \<open>Router_Inv\<close> has the invariant of every reachable router, \<open>Router_Props\<close> the lemmas
    and \<open>Router_Claims\<close> what follows: the literal map is transparent, the search finds a route
    whenever one accepts the path, a registered literal route is reached, the Allow header is exact,
    a refused registration changes no handler.
  \<^item> \<open>Ttl_Store\<close>, \<open>Result_Cache\<close> (\<open>cache.py\<close>), \<open>Rate_Limit\<close> (\<open>ratelimit.py\<close>): a bounded dictionary with
    expiry, shared by the cache and the rate limits. The locale \<open>cache_backend\<close> is the contract of
    the cache, \<open>rate_strategy\<close> that of a strategy; in the latter the backend is a refinement of a
    table that forgets nothing, and the limits of the three strategies follow.
  \<^item> \<open>Header_Parsing\<close> (\<open>_header_parsing.py\<close>, parts of \<open>http/datastructures.py\<close>), \<open>Header_Set\<close>
    (\<open>http/header_set.py\<close>, \<open>add_vary\<close> of \<open>http/response.py\<close>): quoted strings, parameter lists, token
    sets behind the locale \<open>token_set\<close>.
  \<^item> \<open>Proxy_Fix\<close> (\<open>middleware/proxy_fix.py\<close>): what is trusted of the forwarding headers, as
    non-interference of what the client wrote. \<open>Cors\<close> (\<open>middleware/cors.py\<close>): configuration,
    preflight and response headers.
  \<^item> \<open>Ws_Codec\<close>, \<open>Web_Socket\<close>, \<open>Ws_Feed\<close>, \<open>Ws_Lifecycle\<close>, \<open>Ws_Claims\<close> (\<open>websocket.py\<close>, the read side of
    \<open>serving/protocol.py\<close>): unmasking, UTF-8, frames, reassembly; the loop over the receive buffer
    against a run over the bytes that are left; the steps of transport, timer, handler and peer in
    any order (\<open>conn_step\<close>, \<open>ws_reachable\<close>) with the invariant \<open>conn_inv\<close>.
  \<^item> \<open>Session_Store\<close> (\<open>sessions.py\<close>), \<open>Server_Session\<close> (\<open>middleware/sessions.py\<close>): the session dictionary,
    the in-memory store behind the locale \<open>session_store\<close>, and the middleware with requests in
    flight together (\<open>server_step\<close>, \<open>server_run\<close>). \<open>Cookie_Session\<close>: the middleware that keeps the
    session in a signed cookie or in numbered chunks of it, with its configuration; what the next
    request finds is computed from the effects of the lines of the response.
  \<^item> \<open>Cookies\<close> (\<open>http/cookies.py\<close>, the \<open>Set-Cookie\<close> operations of \<open>http/response.py\<close>, the jar of
    \<open>testclient.py\<close>): percent encoding, dumping and parsing; every line of a response has one effect on
    every jar (\<open>cookie_line\<close>), from which the round trip follows.
  \<^item> \<open>Signing\<close> (\<open>signing.py\<close>, the base64 helpers of \<open>_internal.py\<close>): tokens, key rotation, ages.
  \<^item> \<open>Mcp_Tasks\<close> (\<open>contrib/mcp/tasks.py\<close>, \<open>_tasks.py\<close>, parts of \<open>server.py\<close>): background tasks; a caller
    sees and changes what it would with a registry of its own.
  \<^item> \<open>Pagination\<close> (\<open>contrib/mcp/pagination.py\<close>, the listing of \<open>server.py\<close>): cursors and a client that
    follows them.
  \<^item> \<open>Py_Code\<close>: programs with effects and exceptions, and Python's combinators over them; \<open>Py_Sim\<close>
    relates two programs side by side. \<open>Dispatch\<close> (\<open>app/dispatch.py\<close>, \<open>app/errors.py\<close>, \<open>_pipeline.py\<close>,
    the hook lists of \<open>app/lifecycle.py\<close>): the whole of \<open>_dispatch_request\<close>, its phases and both
    paths, over arbitrary supplied code whose calls are recorded. \<open>Dispatch_Teardown\<close>: teardowns run,
    and run last. \<open>Dispatch_Phases\<close>: every answer has been through the response phase once, in
    order. \<open>Dispatch_Claims\<close>: every request is answered, and the fast path answers what the full
    path answers. \<open>First_Request\<close>: the latch of the first request as steps of several callers.
  \<^item> \<open>Dependencies\<close> (\<open>_handler_plan.py\<close>, \<open>dependency.py\<close>): the waves of a plan and their schedule, the
    resolver with its cache, its scopes and the generators it has to close.
  \<^item> \<open>Body_Source\<close> (\<open>http/_body.py\<close>): both sources of a request body, the cap on its size and the flow
    control; what a handler reads does not depend on the transport nor on how the bytes arrive.
  \<^item> \<open>Sliding_Log\<close>, \<open>Rate_Middleware\<close>, \<open>Hardening\<close> (\<open>middleware/security.py\<close>): the local log of calls
    against the list of all of them, the limiter around a route, and the layers that add or demand
    headers. \<open>Csrf\<close> (\<open>middleware/csrf.py\<close>): origins and the double-submit token.
  \<^item> \<open>Sse\<close> (\<open>sse.py\<close>): events as written, read back by a client of the standard's parser.
    \<open>Event_Store\<close> (\<open>contrib/mcp/transports/event_store.py\<close>): what a client that resumes is sent again.
  \<^item> \<open>Ranges\<close> (\<open>http/datastructures.py\<close>, \<open>FileResponse\<close> of \<open>http/response.py\<close>, \<open>contrib/staticfiles.py\<close>
    once the file is found): a client that lays the parts together has the bytes it asked for.
    \<open>Safe_Paths\<close> (\<open>safe.py\<close>): joining and naming of untrusted paths. \<open>Cache_Control\<close>
    (\<open>http/cache_control.py\<close>): the directives, parsed and printed.

  \<^bold>\<open>Bounds and fuel.\<close> The loops of the code end by measures that the \<open>termination\<close> proofs name: the
  path left and the children left in the search, the bytes left in \<open>feed_loop\<close> and \<open>run\<close>. Only one
  definition takes fuel, and it models a client: \<open>walk\<close>, for which one request more than there are
  entries is proved enough. Integers of Python are unbounded;
  bytes, masks and lengths on the wire have their width.

  \<^bold>\<open>Not modelled.\<close> What reflects on Python objects: the building of a plan from a signature, the
  generated resolvers, pydantic validation, JSON, OpenAPI and JSON schemas. What is the operating
  system: the event loop, sockets, processes and files (\<open>serving/\<close>, \<open>workers.py\<close>, finding a static
  file on disk, the live server); Windows paths. What is other programs: Redis and its scripts,
  Jinja, httptools, python-multipart, compression codecs, exporters. The command line.
  Of modelled files: the converters that need floating point or the calendar are arguments; the
  decorators that only call \<open>add_route\<close> are left out; of the dispatcher the size check and the
  outer chain of \<open>handle_request\<close>, signals, logging, instrumentation and background tasks; exceptions
  outside \<open>Exception\<close> (cancellation); the dependencies of one wave run one after the other, so their
  interleaving is not in the model; of \<open>Request\<close> the lazy views; of the WebSocket class the ASGI side,
  which forwards to the server.
\<close>

end
